(* ===== verification/Prelude.thy ===== *)
theory Prelude
  imports Main "HOL-Library.Word"
begin

unbundle bit_operations_syntax

text \<open>
  What the components of the development share: the machine types, the result type of
  fallible operations (a failed C \<^verbatim>\<open>assert\<close> is the value \<open>AssertFail\<close>), the generic
  compare-and-swap retry loop of the lock-free code, and lemmas on words that relate the
  modular arithmetic of addresses to arithmetic on natural numbers.
\<close>

named_theorems layout_simps \<open>address arithmetic inside one region\<close>
named_theorems config_simps \<open>values of the configuration constants\<close>

subsection \<open>Machine types and results\<close>

type_synonym addr = "64 word"
type_synonym u64 = "64 word"
type_synonym u32 = "32 word"
type_synonym byte = "8 word"

datatype error =
    AssertFail string  \<comment> \<open>an \<^verbatim>\<open>assert\<close> of the source fails: the process aborts\<close>
  | Uncaught string    \<comment> \<open>an exception leaves the operation\<close>
  | OutOfFuel          \<comment> \<open>a loop of the source needs more iterations than the fuel it was given\<close>
  | Segfault           \<comment> \<open>the code reads or writes an address that is not mapped\<close>
  | Exited int         \<comment> \<open>the code calls \<^verbatim>\<open>exit\<close>\<close>
  | Undefined string   \<comment> \<open>a function of the C library is called outside its contract\<close>

type_synonym 'a res = "error + 'a"

definition rbind :: "'a res \<Rightarrow> ('a \<Rightarrow> 'b res) \<Rightarrow> 'b res" where
  "rbind r k = (case r of Inl e \<Rightarrow> Inl e | Inr x \<Rightarrow> k x)"

definition check :: "bool \<Rightarrow> string \<Rightarrow> 'a res \<Rightarrow> 'a res" where
  "check b msg r = (if b then r else Inl (AssertFail msg))"

lemma rbind_simps [simp]:
  "rbind (Inl e) k = Inl e"
  "rbind (Inr x) k = k x"
  by (simp_all add: rbind_def)

lemma rbind_eq_Inr: "rbind r k = Inr y \<longleftrightarrow> (\<exists>x. r = Inr x \<and> k x = Inr y)"
  by (cases r) auto

lemma check_True [simp]: "b \<Longrightarrow> check b msg r = r"
  by (simp add: check_def)

lemma check_eq_Inr: "check b msg r = Inr y \<longleftrightarrow> b \<and> r = Inr y"
  by (simp add: check_def)

text \<open>A \<^verbatim>\<open>for\<close> loop over a list of indices whose body may fail.\<close>

fun rfold :: "('i \<Rightarrow> 's \<Rightarrow> 's res) \<Rightarrow> 'i list \<Rightarrow> 's \<Rightarrow> 's res" where
  "rfold f [] s = Inr s"
| "rfold f (i # is) s = rbind (f i s) (rfold f is)"

lemma rbind_assoc: "rbind (rbind r f) g = rbind r (\<lambda>x. rbind (f x) g)"
  by (cases r) auto

lemma rfold_append: "rfold f (xs @ ys) s = rbind (rfold f xs s) (rfold f ys)"
  by (induction xs arbitrary: s) (simp_all add: rbind_assoc rbind_def split: sum.split)

text \<open>An invariant of the body, indexed by the iterations done, holds at the end of the loop.\<close>

lemma rfold_upt:
  assumes "m \<le> n" and "P m s"
    and "\<And>i s. m \<le> i \<Longrightarrow> i < n \<Longrightarrow> P i s \<Longrightarrow> \<exists>s'. f i s = Inr s' \<and> P (Suc i) s'"
  shows "\<exists>s'. rfold f [m..<n] s = Inr s' \<and> P n s'"
  using assms
proof (induction n)
  case (Suc n)
  show ?case
  proof (cases "m = Suc n")
    case False
    then have le: "m \<le> n" using Suc.prems(1) by simp
    obtain s1 where s1: "rfold f [m..<n] s = Inr s1" "P n s1"
      using Suc.IH [OF le Suc.prems(2)] Suc.prems(3) by fastforce
    obtain s2 where "f n s1 = Inr s2" "P (Suc n) s2" using Suc.prems(3) [OF le _ s1(2)] by auto
    with s1 le show ?thesis by (auto simp: rfold_append)
  qed (use Suc.prems in auto)
qed simp

subsection \<open>The compare-and-swap retry loop\<close>

text \<open>
  Every lock-free update of the allocator has the shape
  \<^verbatim>\<open>do { new = f(old); } while (!x.compare_exchange_weak(old, new));\<close>: the body computes
  the desired value from the expected one (and may write other memory), the exchange
  either succeeds or replaces \<^verbatim>\<open>old\<close> by the value it found, and the loop goes round again.
  \<open>cas_loop\<close> is that loop, with an explicit bound on the iterations.
\<close>

fun cas_loop :: "nat \<Rightarrow> ('v \<Rightarrow> 's \<Rightarrow> ('v \<times> 's) res) \<Rightarrow> ('v \<Rightarrow> 'v \<Rightarrow> 's \<Rightarrow> bool \<times> 'v \<times> 's)
    \<Rightarrow> 'v \<Rightarrow> 's \<Rightarrow> ('v \<times> 'v \<times> 's) res" where
  "cas_loop 0 body cas old s = Inl OutOfFuel"
| "cas_loop (Suc n) body cas old s =
     rbind (body old s) (\<lambda>(new, s1).
       case cas old new s1 of
         (ok, old', s2) \<Rightarrow>
           if ok then Inr (old, new, s2) else cas_loop n body cas old' s2)"

text \<open>
  Iterations an undisturbed loop gets: the first may find that \<^verbatim>\<open>old\<close> is stale, the second
  then starts from the value the failed exchange returned.
\<close>

definition CAS_FUEL :: nat where
  "CAS_FUEL = 2"

lemma cas_loop_first:
  assumes "body old s = Inr (new, s1)" and "cas old new s1 = (True, x, s2)"
  shows "cas_loop (Suc n) body cas old s = Inr (old, new, s2)"
  using assms by simp

lemma cas_loop_stale:
  assumes "body old s = Inr (new, s1)" and "cas old new s1 = (False, cur, s2)"
    and "body cur s2 = Inr (new', s3)" and "cas cur new' s3 = (True, x, s4)"
  shows "cas_loop CAS_FUEL body cas old s = Inr (cur, new', s4)"
  using assms by (simp add: CAS_FUEL_def numeral_2_eq_2)

lemma cas_loop_CAS_FUEL:
  assumes "body old s = Inr (new, s1)" and "cas old new s1 = (True, x, s2)"
  shows "cas_loop CAS_FUEL body cas old s = Inr (old, new, s2)"
  using assms by (simp add: CAS_FUEL_def numeral_2_eq_2)

subsection \<open>Words\<close>

lemma unat_lt64 [simp]: "unat (x :: u64) < 18446744073709551616"
  using unsigned_less [of x] by simp

lemma unat_lt32 [simp]: "unat (x :: u32) < 4294967296"
  using unsigned_less [of x] by simp

lemma unat_suc32: "unat (n :: u32) < 2 ^ 32 - 1 \<Longrightarrow> unat (n + 1) = unat n + 1"
  by (simp add: unat_word_ariths)

lemma unat_of_nat64: "n < 2 ^ 64 \<Longrightarrow> unat (of_nat n :: u64) = n"
  by (simp add: unat_of_nat take_bit_nat_eq_self)

lemma unat_of_nat32: "n < 2 ^ 32 \<Longrightarrow> unat (of_nat n :: u32) = n"
  by (simp add: unat_of_nat take_bit_nat_eq_self)

lemma unat_plus64:
  fixes a b :: u64
  assumes "unat a + unat b < 2 ^ 64"
  shows "unat (a + b) = unat a + unat b"
  using assms by (simp add: unat_word_ariths)

lemma unat_minus64:
  fixes a b :: u64
  assumes "b \<le> a"
  shows "unat (a - b) = unat a - unat b"
  using assms by (rule unat_sub)

lemma unat_offset:
  fixes a :: u64
  assumes "unat a + n < 2 ^ 64"
  shows "unat (a + of_nat n) = unat a + n"
proof -
  have "n < 2 ^ 64" using assms by simp
  then have "unat (of_nat n :: u64) = n" by (rule unat_of_nat64)
  then show ?thesis using assms by (simp add: unat_plus64)
qed

lemma offset_inject:
  fixes a :: u64
  assumes "m < 2 ^ 64" and "n < 2 ^ 64"
  shows "a + of_nat m = a + of_nat n \<longleftrightarrow> m = n"
proof
  assume "a + of_nat m = a + of_nat n"
  then have "unat (of_nat m :: u64) = unat (of_nat n :: u64)" by simp
  then show "m = n" using assms by (simp add: unat_of_nat64)
qed simp

lemma offset_diff [simp]: "((a :: u64) + of_nat n) - a = of_nat n"
  by simp

lemma drop_bit_unat_of_nat:
  fixes a :: u64
  shows "drop_bit n a = of_nat (unat a div 2 ^ n)"
  by (metis drop_bit_eq_div unat_drop_bit_eq of_nat_unat ucast_id)

lemma and_mask_unat: "unat ((a :: u64) AND mask n) = unat a mod 2 ^ n"
  by (metis take_bit_eq_mask take_bit_eq_mod unsigned_take_bit_eq)

lemma unat_ucast_31_32 [simp]: "unat (ucast (x :: 31 word) :: u32) = unat x"
  by (simp add: unsigned_ucast_eq take_bit_nat_eq_self_iff order_less_trans [OF unsigned_less])

subsection \<open>Pointer representations\<close>

text \<open>
  Every stored pointer of the allocator is an encoded value: a \<^verbatim>\<open>pptr\<close> relative to its own
  cell, a \<^verbatim>\<open>CrossPtr\<close> relative to a region, a counted pointer packed in one word. The
  interface of a representation is a decoder that undoes the encoder on the values it can
  hold; comparing words is then comparing pointers, which is what a compare-and-swap on
  the encoded word relies on.
\<close>

locale ptr_repr =
  fixes enc :: "'p \<Rightarrow> 'c \<Rightarrow> 'w"
    and dec :: "'w \<Rightarrow> 'c \<Rightarrow> 'p"
    and holds :: "'p \<Rightarrow> 'c \<Rightarrow> bool"
  assumes dec_enc: "holds v c \<Longrightarrow> dec (enc v c) c = v"
begin

lemma enc_eq_iff: "holds v c \<Longrightarrow> holds w c \<Longrightarrow> enc v c = enc w c \<longleftrightarrow> v = w"
  by (metis dec_enc)

lemma stale_word: "holds v c \<Longrightarrow> holds w c \<Longrightarrow> v \<noteq> w \<Longrightarrow> enc v c \<noteq> enc w c"
  by (metis dec_enc)

end

end
