(* ===== verification/PmConfig.thy ===== *)
theory PmConfig
  imports Prelude
begin

text \<open>
  The constants and macros of \<^verbatim>\<open>src/src/pm_config.hpp\<close>. Every constant keeps the
  expression the header defines it by; its value is a simplification rule.
\<close>

datatype RegionIndex = DESC_IDX | SB_IDX | META_IDX

definition MAX_DESC_AMOUNT_BITS :: nat where "MAX_DESC_AMOUNT_BITS = 24"
definition MIN_SB_REGION_SIZE :: u64 where "MIN_SB_REGION_SIZE = 1 * 1024 * 1024 * 1024"
definition SB_REGION_EXPAND_SIZE :: u64 where "SB_REGION_EXPAND_SIZE = MIN_SB_REGION_SIZE"
definition MAX_ROOTS :: nat where "MAX_ROOTS = 1024"
definition CACHELINE_SIZE :: u64 where "CACHELINE_SIZE = 64"
definition PAGESIZE :: u64 where "PAGESIZE = 4096"
definition MAX_SZ_IDX :: nat where "MAX_SZ_IDX = 40"
definition MAX_SZ :: u64 where "MAX_SZ = push_bit 13 1 + push_bit 11 1 * 3"
definition SBSIZE :: u64 where "SBSIZE = 16 * PAGESIZE"
definition DESCSIZE :: u64 where "DESCSIZE = CACHELINE_SIZE"
definition SB_SHIFT :: nat where "SB_SHIFT = 16"
definition DESC_SHIFT :: nat where "DESC_SHIFT = 6"
definition MAX_DESC_AMOUNT :: u64 where "MAX_DESC_AMOUNT = push_bit MAX_DESC_AMOUNT_BITS 1"
definition MAX_DESC_OFFSET_BITS :: nat where "MAX_DESC_OFFSET_BITS = MAX_DESC_AMOUNT_BITS + 6"
definition MAX_DESC_OFFSET_MASK :: u64 where
  "MAX_DESC_OFFSET_MASK = push_bit MAX_DESC_OFFSET_BITS 1 - 1"
definition MAX_SB_AMOUNT :: u64 where "MAX_SB_AMOUNT = MAX_DESC_AMOUNT"
definition MAX_SB_REGION_SIZE :: u64 where "MAX_SB_REGION_SIZE = SBSIZE * MAX_SB_AMOUNT"
definition MAX_DESC_REGION_SIZE :: u64 where "MAX_DESC_REGION_SIZE = DESCSIZE * MAX_DESC_AMOUNT"
definition PPTR_PATTERN_POS :: u64 where "PPTR_PATTERN_POS = 0x52b0"
definition PPTR_PATTERN_NEG :: u64 where "PPTR_PATTERN_NEG = 0x52b1"
definition PPTR_PATTERN_SHIFT :: nat where "PPTR_PATTERN_SHIFT = 16"
definition PPTR_PATTERN_MASK :: u64 where "PPTR_PATTERN_MASK = push_bit PPTR_PATTERN_SHIFT 1 - 2"

lemma MAX_DESC_AMOUNT_BITS_val [simp, config_simps]: "MAX_DESC_AMOUNT_BITS = 24"
  by (simp add: MAX_DESC_AMOUNT_BITS_def)
lemma MIN_SB_REGION_SIZE_val [simp, config_simps]: "MIN_SB_REGION_SIZE = 1073741824"
  by (simp add: MIN_SB_REGION_SIZE_def)
lemma SB_REGION_EXPAND_SIZE_val [simp, config_simps]: "SB_REGION_EXPAND_SIZE = 1073741824"
  by (simp add: SB_REGION_EXPAND_SIZE_def)
lemma MAX_ROOTS_val [simp, config_simps]: "MAX_ROOTS = 1024"
  by (simp add: MAX_ROOTS_def)
lemma CACHELINE_SIZE_val [simp, config_simps]: "CACHELINE_SIZE = 64"
  by (simp add: CACHELINE_SIZE_def)
lemma PAGESIZE_val [simp, config_simps]: "PAGESIZE = 4096"
  by (simp add: PAGESIZE_def)
lemma MAX_SZ_IDX_val [simp, config_simps]: "MAX_SZ_IDX = 40"
  by (simp add: MAX_SZ_IDX_def)
lemma MAX_SZ_val [simp, config_simps]: "MAX_SZ = 14336"
  by (simp add: MAX_SZ_def)
lemma SBSIZE_val [simp, config_simps]: "SBSIZE = 65536"
  by (simp add: SBSIZE_def)
lemma DESCSIZE_val [simp, config_simps]: "DESCSIZE = 64"
  by (simp add: DESCSIZE_def)
lemma SB_SHIFT_val [simp, config_simps]: "SB_SHIFT = 16"
  by (simp add: SB_SHIFT_def)
lemma DESC_SHIFT_val [simp, config_simps]: "DESC_SHIFT = 6"
  by (simp add: DESC_SHIFT_def)
lemma MAX_DESC_AMOUNT_val [simp, config_simps]: "MAX_DESC_AMOUNT = 16777216"
  by (simp add: MAX_DESC_AMOUNT_def)
lemma MAX_DESC_OFFSET_BITS_val [simp, config_simps]: "MAX_DESC_OFFSET_BITS = 30"
  by (simp add: MAX_DESC_OFFSET_BITS_def)
lemma MAX_DESC_OFFSET_MASK_val [simp, config_simps]: "MAX_DESC_OFFSET_MASK = 1073741823"
  by (simp add: MAX_DESC_OFFSET_MASK_def)
lemma MAX_SB_AMOUNT_val [simp, config_simps]: "MAX_SB_AMOUNT = 16777216"
  by (simp add: MAX_SB_AMOUNT_def)
lemma MAX_SB_REGION_SIZE_val [simp, config_simps]: "MAX_SB_REGION_SIZE = 1099511627776"
  by (simp add: MAX_SB_REGION_SIZE_def)
lemma MAX_DESC_REGION_SIZE_val [simp, config_simps]: "MAX_DESC_REGION_SIZE = 1073741824"
  by (simp add: MAX_DESC_REGION_SIZE_def)
lemma PPTR_PATTERN_POS_val [simp, config_simps]: "PPTR_PATTERN_POS = 21168"
  by (simp add: PPTR_PATTERN_POS_def)
lemma PPTR_PATTERN_NEG_val [simp, config_simps]: "PPTR_PATTERN_NEG = 21169"
  by (simp add: PPTR_PATTERN_NEG_def)
lemma PPTR_PATTERN_SHIFT_val [simp, config_simps]: "PPTR_PATTERN_SHIFT = 16"
  by (simp add: PPTR_PATTERN_SHIFT_def)
lemma PPTR_PATTERN_MASK_val [simp, config_simps]: "PPTR_PATTERN_MASK = 65534"
  by (simp add: PPTR_PATTERN_MASK_def)

subsection \<open>Rounding macros\<close>

definition ALIGN_VAL :: "u64 \<Rightarrow> u64 \<Rightarrow> u64" where
  "ALIGN_VAL val align = (val + (align - 1)) AND (NOT align + 1)"

definition PAGE_CEILING :: "u64 \<Rightarrow> u64" where
  "PAGE_CEILING s = (s + (PAGESIZE - 1)) AND NOT (PAGESIZE - 1)"

text \<open>Clearing the low \<open>n\<close> bits rounds down to a multiple of \<open>2 ^ n\<close>.\<close>

lemma and_not_mask_unat: "unat ((a :: u64) AND NOT (mask n)) = unat a - unat a mod 2 ^ n"
proof -
  have "a AND NOT (mask n) = push_bit n (drop_bit n a)"
    by (rule bit_eqI) (auto simp: bit_simps)
  moreover have "push_bit n (drop_bit n a) + take_bit n a = a"
    by (rule bits_ident)
  ultimately have eq: "a AND NOT (mask n) = a - (a AND mask n)"
    by (metis add_diff_cancel_right' take_bit_eq_mask)
  have "a AND mask n \<le> a" by (rule word_and_le2)
  then show ?thesis by (simp only: eq unat_sub and_mask_unat)
qed

lemma unat_mask64: "n < 64 \<Longrightarrow> unat (mask n :: u64) = 2 ^ n - 1"
proof -
  assume "n < 64"
  then have "(2::nat) ^ n \<le> 2 ^ 64" by (intro power_increasing) auto
  moreover have "0 < (2::nat) ^ n" by simp
  ultimately have "2 ^ n - 1 < (2::nat) ^ 64" by linarith
  then have "unat (of_nat (2 ^ n - 1) :: u64) = 2 ^ n - 1" by (rule unat_of_nat64)
  then show ?thesis by (simp add: mask_eq_exp_minus_1 of_nat_diff)
qed

lemma round_up_mask_unat:
  assumes "n < 64" and "unat (a :: u64) + (2 ^ n - 1) < 2 ^ 64"
  shows "unat ((a + mask n) AND NOT (mask n)) = (unat a + (2 ^ n - 1)) div 2 ^ n * 2 ^ n"
proof -
  have "unat (a + mask n) = unat a + (2 ^ n - 1)"
    using assms by (subst unat_plus64) (simp_all add: unat_mask64)
  then show ?thesis by (simp only: and_not_mask_unat minus_mod_eq_div_mult)
qed

lemma not_plus_1: "NOT (a :: u64) + 1 = - a"
  by (simp add: not_eq_complement)

end
