(* ===== verification/Pptr.thy ===== *)
theory Pptr
  imports PmConfig
begin

text \<open>
  The position independent pointers of \<^verbatim>\<open>src/src/pptr.hpp\<close>. A \<^verbatim>\<open>pptr\<close> stored at address
  \<open>p\<close> holds, in its 48 high bits, the distance from \<open>p\<close> to the object it points to and,
  in its 16 low bits, a pattern whose last bit is the sign of that distance. The null
  pointer is the bare positive pattern. \<^verbatim>\<open>atomic_pptr\<close> has the same representation.
\<close>

subsection \<open>Encoding\<close>

definition is_null_pptr :: "u64 \<Rightarrow> bool" where
  "is_null_pptr off = (off = PPTR_PATTERN_POS)"

definition is_valid_pptr :: "u64 \<Rightarrow> bool" where
  "is_valid_pptr off = ((off AND PPTR_PATTERN_MASK) = PPTR_PATTERN_POS)"

definition to_pptr_off :: "addr \<Rightarrow> addr \<Rightarrow> u64" where
  "to_pptr_off v p =
     (if v = 0 then PPTR_PATTERN_POS
      else if v > p then push_bit PPTR_PATTERN_SHIFT (v - p) OR PPTR_PATTERN_POS
      else push_bit PPTR_PATTERN_SHIFT (p - v) OR PPTR_PATTERN_NEG)"

definition from_pptr_off :: "u64 \<Rightarrow> addr \<Rightarrow> addr" where
  "from_pptr_off off p =
     (if \<not> is_valid_pptr off \<or> is_null_pptr off then 0
      else if off AND 1 \<noteq> 0 then p - drop_bit PPTR_PATTERN_SHIFT off
      else p + drop_bit PPTR_PATTERN_SHIFT off)"

subsection \<open>Operations of \<^verbatim>\<open>pptr\<close>\<close>

text \<open>
  The state of a \<^verbatim>\<open>pptr\<close> is its word \<open>off\<close>; the address \<open>p\<close> of the cell (\<^verbatim>\<open>this\<close>) is an
  argument. Copying a \<^verbatim>\<open>pptr\<close> from the cell at \<open>q\<close> decodes it there and encodes it for
  the new cell.
\<close>

definition pptr_get :: "u64 \<Rightarrow> addr \<Rightarrow> addr" where
  "pptr_get off p = from_pptr_off off p"

definition pptr_assign :: "addr \<Rightarrow> addr \<Rightarrow> u64" where
  "pptr_assign v p = to_pptr_off v p"

definition pptr_copy :: "u64 \<Rightarrow> addr \<Rightarrow> addr \<Rightarrow> u64" where
  "pptr_copy off q p = (let v = pptr_get off q in to_pptr_off v p)"

definition pptr_subscript :: "u64 \<Rightarrow> addr \<Rightarrow> u64 \<Rightarrow> u64 \<Rightarrow> addr" where
  "pptr_subscript off p sz idx = pptr_get off p + idx * sz"

definition pptr_eq :: "u64 \<Rightarrow> addr \<Rightarrow> u64 \<Rightarrow> addr \<Rightarrow> bool" where
  "pptr_eq off p off' p' = (pptr_get off p = pptr_get off' p')"

subsection \<open>Operations of \<^verbatim>\<open>atomic_pptr\<close>\<close>

definition atomic_pptr_load :: "u64 \<Rightarrow> addr \<Rightarrow> addr" where
  "atomic_pptr_load off p = from_pptr_off off p"

definition atomic_pptr_store :: "addr \<Rightarrow> addr \<Rightarrow> u64" where
  "atomic_pptr_store desired p = to_pptr_off desired p"

text \<open>The exchange returns whether it succeeded, the new \<^verbatim>\<open>expected\<close> and the new cell.\<close>

definition atomic_pptr_cas :: "u64 \<Rightarrow> addr \<Rightarrow> addr \<Rightarrow> addr \<Rightarrow> bool \<times> addr \<times> u64" where
  "atomic_pptr_cas off p expected desired =
     (let old_off = to_pptr_off expected p;
          new_off = to_pptr_off desired p
      in if off = old_off then (True, expected, new_off)
         else (False, (if is_null_pptr off then 0 else from_pptr_off off p), off))"

subsection \<open>Bit patterns\<close>

lemma drop_push_bit_16:
  assumes "unat (d :: u64) < 2 ^ 48"
  shows "drop_bit 16 (push_bit 16 d) = d"
proof -
  have "push_bit 16 d = d * 65536" by (simp add: push_bit_eq_mult)
  then have "unat (push_bit 16 d) = unat d * 65536"
    using assms by (simp add: unat_word_ariths)
  then have "unat (drop_bit 16 (push_bit 16 d)) = unat d"
    by (simp only: unat_drop_bit_eq) (simp add: drop_bit_eq_div)
  then show ?thesis by (simp only: word_unat_eq_iff)
qed

lemma pattern_low_bits:
  "(push_bit 16 d OR c) AND 65534 = c AND (65534 :: u64)"
  "(push_bit 16 d OR c) AND 1 = c AND (1 :: u64)"
proof -
  have "push_bit 16 d AND mask 16 = (0 :: u64)"
    by (rule bit_eqI) (auto simp: bit_simps)
  then have low: "push_bit 16 d AND 65535 = (0 :: u64)"
    by (simp add: mask_eq_exp_minus_1)
  have "push_bit 16 d AND 65534 = (push_bit 16 d AND 65535) AND (65534 :: u64)"
    "push_bit 16 d AND 1 = (push_bit 16 d AND 65535) AND (1 :: u64)"
    by (simp_all add: and.assoc)
  with low have "push_bit 16 d AND 65534 = (0 :: u64)" "push_bit 16 d AND 1 = (0 :: u64)"
    by simp_all
  then show "(push_bit 16 d OR c) AND 65534 = c AND (65534 :: u64)"
    "(push_bit 16 d OR c) AND 1 = c AND (1 :: u64)"
    by (simp_all add: bit.conj_disj_distrib2)
qed

lemma drop_bit_pattern:
  assumes "unat d < 2 ^ 48" and "drop_bit 16 c = 0"
  shows "drop_bit 16 (push_bit 16 d OR c) = (d :: u64)"
  using assms by (simp add: drop_push_bit_16)

lemma valid_pattern:
  "is_valid_pptr (push_bit 16 d OR PPTR_PATTERN_POS)"
  "is_valid_pptr (push_bit 16 d OR PPTR_PATTERN_NEG)"
  by (simp_all add: is_valid_pptr_def pattern_low_bits)

lemma null_pattern:
  assumes "unat d < 2 ^ 48"
  shows "is_null_pptr (push_bit 16 d OR PPTR_PATTERN_POS) \<longleftrightarrow> d = 0"
    and "\<not> is_null_pptr (push_bit 16 d OR PPTR_PATTERN_NEG)"
proof -
  show "is_null_pptr (push_bit 16 d OR PPTR_PATTERN_POS) \<longleftrightarrow> d = 0"
  proof
    assume "is_null_pptr (push_bit 16 d OR PPTR_PATTERN_POS)"
    then have "drop_bit 16 (push_bit 16 d OR 21168) = drop_bit 16 (21168 :: u64)"
      by (simp add: is_null_pptr_def)
    then show "d = 0" using assms by (simp add: drop_push_bit_16)
  qed (simp add: is_null_pptr_def)
  have "(push_bit 16 d OR 21169) AND 1 \<noteq> (21168 :: u64) AND 1"
    by (simp add: pattern_low_bits)
  then show "\<not> is_null_pptr (push_bit 16 d OR PPTR_PATTERN_NEG)"
    by (auto simp: is_null_pptr_def)
qed

subsection \<open>Round trip\<close>

text \<open>
  \<open>near v p\<close>: the distance between the cell and its target fits in the 48 bits the encoding
  keeps. The header assumes this of every pair of addresses.
\<close>

definition near :: "addr \<Rightarrow> addr \<Rightarrow> bool" where
  "near v p = (unat (if v > p then v - p else p - v) < 2 ^ 48)"

lemma near_iff: "near v p \<longleftrightarrow> unat v < unat p + 2 ^ 48 \<and> unat p < unat v + 2 ^ 48"
proof (cases "v > p")
  case True
  then have "unat (v - p) = unat v - unat p" and "unat p < unat v"
    by (simp_all add: unat_sub word_le_nat_alt word_less_nat_alt)
  with True show ?thesis by (auto simp: near_def)
next
  case False
  then have "v \<le> p" by simp
  then have "unat (p - v) = unat p - unat v" and "unat v \<le> unat p"
    by (simp_all add: unat_sub word_le_nat_alt)
  with False show ?thesis by (auto simp: near_def)
qed

lemma from_to_pptr_off [simp]:
  assumes "near v p"
  shows "from_pptr_off (to_pptr_off v p) p = v"
proof (cases "v = 0")
  case True
  then show ?thesis by (simp add: from_pptr_off_def to_pptr_off_def is_null_pptr_def)
next
  case nz: False
  show ?thesis
  proof (cases "v > p")
    case True
    with assms have d: "unat (v - p) < 2 ^ 48" by (simp add: near_def)
    from True have "v - p \<noteq> 0" by auto
    with True nz show ?thesis
      using valid_pattern(1) [of "v - p"] null_pattern(1) [OF d] drop_push_bit_16 [OF d]
      by (simp add: from_pptr_off_def to_pptr_off_def pattern_low_bits)
  next
    case False
    with assms have d: "unat (p - v) < 2 ^ 48" by (simp add: near_def)
    with False nz show ?thesis
      using valid_pattern(2) [of "p - v"] null_pattern(2) [OF d] drop_push_bit_16 [OF d]
      by (simp add: from_pptr_off_def to_pptr_off_def pattern_low_bits)
  qed
qed

interpretation pptr_cell: ptr_repr to_pptr_off from_pptr_off near
  by unfold_locales simp

lemma to_pptr_off_nonnull:
  assumes "near v p" and "v \<noteq> 0"
  shows "is_valid_pptr (to_pptr_off v p)" and "\<not> is_null_pptr (to_pptr_off v p)"
  using assms from_to_pptr_off [OF assms(1)] by (auto simp: from_pptr_off_def split: if_splits)

lemma from_pptr_off_shift:
  assumes "is_valid_pptr off" and "\<not> is_null_pptr off"
  shows "from_pptr_off off (p + d) = from_pptr_off off p + d"
  using assms by (simp add: from_pptr_off_def)

lemma atomic_pptr_cas_holds:
  assumes "near cur p" and "near expected p"
  shows "atomic_pptr_cas (to_pptr_off cur p) p expected desired =
    (if cur = expected then (True, expected, to_pptr_off desired p)
     else (False, cur, to_pptr_off cur p))"
  using assms
  by (auto simp: atomic_pptr_cas_def Let_def pptr_cell.enc_eq_iff is_null_pptr_def
      dest: pptr_cell.dec_enc simp: from_pptr_off_def split: if_splits)

subsection \<open>Properties\<close>

text \<open>
  C30. A \<^verbatim>\<open>pptr\<close> reads back the pointer assigned to it, the null pointer and a pointer to the
  cell itself included, whenever the target is less than \<open>2 ^ 48\<close> bytes away; copying it
  into another cell that is also near the target keeps the target.
\<close>

theorem pptr_roundtrip:
  assumes "near v p" and "near v q"
  shows "pptr_get (pptr_assign v p) p = v \<and> pptr_get (pptr_copy (pptr_assign v p) p q) q = v"
  using assms by (simp add: pptr_get_def pptr_assign_def pptr_copy_def)

theorem pptr_roundtrip_witness:
  "pptr_get (pptr_assign 0x7f0000000000 0x7f0000000040) 0x7f0000000040 = 0x7f0000000000
   \<and> pptr_get (pptr_copy (pptr_assign 0x7f0000000000 0x7f0000000040) 0x7f0000000040 0x7f0000010000)
       0x7f0000010000 = 0x7f0000000000"
  by (rule pptr_roundtrip) (simp_all add: near_def)

text \<open>
  Position independence: when the cell and its target are moved by the same distance
  \<open>d\<close> (the file is mapped at another address), the unchanged word decodes to the moved
  target, and a null pointer stays null.
\<close>

theorem pptr_position_independent:
  assumes "near v p"
  shows "pptr_get (pptr_assign v p) (p + d) = (if v = 0 then 0 else v + d)"
proof (cases "v = 0")
  case True
  then show ?thesis
    by (simp add: pptr_get_def pptr_assign_def to_pptr_off_def from_pptr_off_def is_null_pptr_def)
next
  case False
  with assms have "from_pptr_off (to_pptr_off v p) (p + d) = v + d"
    by (simp add: from_pptr_off_shift to_pptr_off_nonnull)
  with False show ?thesis by (simp add: pptr_get_def pptr_assign_def)
qed

theorem pptr_position_independent_witness:
  "pptr_get (pptr_assign 0x10040 0x10000) (0x10000 + 0x7000) = 0x17040"
  using pptr_position_independent [of "0x10040" "0x10000" "0x7000"] by (simp add: near_def)

text \<open>
  Compare-and-exchange on an \<^verbatim>\<open>atomic_pptr\<close> compares pointers: on a cell that holds
  \<open>cur\<close> it succeeds exactly when \<open>cur\<close> is the expected pointer, then the cell reads back
  the desired pointer; otherwise the cell is unchanged and \<^verbatim>\<open>expected\<close> becomes \<open>cur\<close>.
\<close>

theorem atomic_pptr_cas_correct:
  assumes "near cur p" and "near expected p" and "near desired p"
  shows "case atomic_pptr_cas (atomic_pptr_store cur p) p expected desired of
      (ok, expected', off') \<Rightarrow>
        ok = (cur = expected)
        \<and> atomic_pptr_load off' p = (if ok then desired else cur)
        \<and> (\<not> ok \<longrightarrow> expected' = cur)"
  using assms by (simp add: atomic_pptr_store_def atomic_pptr_load_def atomic_pptr_cas_holds)

theorem atomic_pptr_cas_correct_witness:
  "fst (atomic_pptr_cas (atomic_pptr_store 0x2000 0x1000) 0x1000 0x2000 0x3000)
   \<and> atomic_pptr_load
       (snd (snd (atomic_pptr_cas (atomic_pptr_store 0x2000 0x1000) 0x1000 0x2000 0x3000))) 0x1000
     = 0x3000"
  using atomic_pptr_cas_correct [of "0x2000" "0x1000" "0x2000" "0x3000"]
  by (simp add: near_def split: prod.splits)

end
