(* ===== verification/RegionManager.thy ===== *)
theory RegionManager
  imports Pptr
begin

text \<open>
  The region manager of \<^verbatim>\<open>src/src/RegionManager.hpp\<close> and \<^verbatim>\<open>RegionManager.cpp\<close>: one mapped
  file per region, whose first page holds the allocation frontier (a \<^verbatim>\<open>pptr\<close> at offset 0),
  the offset of the heap start (offset 8) and the file size (offset 16), and the class
  \<^verbatim>\<open>Regions\<close> that keeps the three regions of a heap.

  The three header words share one cache line, so \<^verbatim>\<open>FLUSH\<close> and \<^verbatim>\<open>FLUSHFENCE\<close> of any of them
  copy the header to its persistent image \<open>phdr\<close>. What the operating system decides (does
  the file exist, do \<^verbatim>\<open>lseek\<close> and \<^verbatim>\<open>write\<close> succeed, which address does \<^verbatim>\<open>mmap\<close> return) is an
  argument of the operations.
\<close>

record region_hdr =
  h_curr :: u64
  h_start :: u64
  h_size :: u64

record RegionManager =
  FILESIZE :: u64
  HEAPFILE :: string
  base_addr :: addr
  hdr :: region_hdr
  phdr :: region_hdr
  persist :: bool

record os_result =
  os_lseek_ok :: bool
  os_write_ok :: bool
  os_mmap :: "addr option"

definition curr_addr :: "RegionManager \<Rightarrow> addr" where
  "curr_addr rm = atomic_pptr_load (h_curr (hdr rm)) (base_addr rm)"

definition flush_hdr :: "RegionManager \<Rightarrow> RegionManager" where
  "flush_hdr rm = rm\<lparr>phdr := hdr rm\<rparr>"

subsection \<open>Mapping a file\<close>

text \<open>
  A new file is truncated and extended to \<^verbatim>\<open>FILESIZE\<close>, so every header word not written yet
  reads as zero. All four functions extend the file by writing a NUL byte at its end, also those
  that map an existing file, where the byte overwrites what was there. They work on the header
  page; the byte is the one that the mapping has at \<open>last_byte\<close>, and opening a heap
  (\<open>do_RP_init\<close>) clears it in the heap's memory. Both calls of \<^verbatim>\<open>lseek\<close> are \<open>os_lseek_ok\<close>.
\<close>

definition last_byte :: "RegionManager \<Rightarrow> addr" where
  "last_byte rm = base_addr rm + (FILESIZE rm - 1)"

definition map_persistent_region :: "os_result \<Rightarrow> RegionManager \<Rightarrow> RegionManager res" where
  "map_persistent_region os rm =
     check (os_lseek_ok os) ''offt != -1''
     (check (os_write_ok os) ''result != -1''
     (case os_mmap os of
        None \<Rightarrow> Inl (AssertFail ''addr != MAP_FAILED'')
      | Some a \<Rightarrow>
          Inr (flush_hdr (rm\<lparr>base_addr := a,
            hdr := \<lparr>h_curr = atomic_pptr_store (a + PAGESIZE) a, h_start = 0, h_size = FILESIZE rm\<rparr>\<rparr>))))"

definition remap_persistent_region ::
    "os_result \<Rightarrow> region_hdr \<Rightarrow> RegionManager \<Rightarrow> RegionManager res" where
  "remap_persistent_region os h rm =
     check (os_lseek_ok os) ''offt != -1''
     (check (os_write_ok os) ''result != -1''
     (case os_mmap os of
        None \<Rightarrow> Inl (AssertFail ''addr != MAP_FAILED'')
      | Some a \<Rightarrow>
          check (h_size h = FILESIZE rm) ''size == FILESIZE''
          (Inr (rm\<lparr>base_addr := a, hdr := h, phdr := h\<rparr>))))"

text \<open>
  The transient variants differ from the persistent ones in the \<^verbatim>\<open>mmap\<close> flags only.
\<close>

definition map_transient_region :: "os_result \<Rightarrow> RegionManager \<Rightarrow> RegionManager res" where
  "map_transient_region os rm =
     check (os_lseek_ok os) ''offt != -1''
     (check (os_write_ok os) ''result != -1''
     (case os_mmap os of
        None \<Rightarrow> Inl (AssertFail ''addr != MAP_FAILED'')
      | Some a \<Rightarrow>
          Inr (flush_hdr (rm\<lparr>base_addr := a,
            hdr := \<lparr>h_curr = atomic_pptr_store (a + PAGESIZE) a, h_start = 0, h_size = FILESIZE rm\<rparr>\<rparr>))))"

definition remap_transient_region ::
    "os_result \<Rightarrow> region_hdr \<Rightarrow> RegionManager \<Rightarrow> RegionManager res" where
  "remap_transient_region os h rm =
     check (os_lseek_ok os) ''offt != -1''
     (check (os_write_ok os) ''result != -1''
     (case os_mmap os of
        None \<Rightarrow> Inl (AssertFail ''addr != MAP_FAILED'')
      | Some a \<Rightarrow>
          check (h_size h = FILESIZE rm) ''size == FILESIZE''
          (Inr (rm\<lparr>base_addr := a, hdr := h, phdr := h\<rparr>))))"

text \<open>Closing flushes the frontier; what stays in the file is the header.\<close>

definition close_persistent_region :: "RegionManager \<Rightarrow> region_hdr" where
  "close_persistent_region rm = hdr (flush_hdr rm)"

definition close_transient_region :: "RegionManager \<Rightarrow> region_hdr" where
  "close_transient_region rm = hdr (flush_hdr rm)"

subsection \<open>Heap start\<close>

definition store_heap_start :: "addr \<Rightarrow> RegionManager \<Rightarrow> RegionManager" where
  "store_heap_start root rm =
     flush_hdr (rm\<lparr>hdr := (hdr rm)\<lparr>h_start := root - base_addr rm\<rparr>\<rparr>)"

definition fetch_heap_start :: "RegionManager \<Rightarrow> addr" where
  "fetch_heap_start rm = h_start (hdr rm) + base_addr rm"

subsection \<open>Extending the frontier\<close>

text \<open>
  \<open>region_prepare\<close> is the code up to the exchange: the checks of the arguments, the load of
  the frontier, the rounding and the check against the end of the file. It yields the
  frontier read, the aligned result and the new frontier.
\<close>

definition region_prepare :: "RegionManager \<Rightarrow> u64 \<Rightarrow> u64 \<Rightarrow> (addr \<times> addr \<times> addr) option" where
  "region_prepare rm alignment sz =
     (if sz \<le> 0 then None
      else if (alignment AND (NOT alignment + 1)) \<noteq> alignment \<or> alignment < 8 then None
      else
        let old_curr = curr_addr rm;
            aln_adj = old_curr AND (alignment - 1);
            res = (if aln_adj \<noteq> 0 then old_curr + (alignment - aln_adj) else old_curr);
            nxt = res + sz
        in if nxt > base_addr rm + FILESIZE rm then None
           else Some (old_curr, res, nxt))"

text \<open>The exchange, on a region whose frontier may have moved since it was read.\<close>

definition region_commit ::
    "addr \<times> addr \<times> addr \<Rightarrow> RegionManager \<Rightarrow> bool \<times> RegionManager" where
  "region_commit plan rm =
     (case plan of (old_curr, res, nxt) \<Rightarrow>
       let rm0 = flush_hdr rm in
       case atomic_pptr_cas (h_curr (hdr rm0)) (base_addr rm0) old_curr nxt of
         (ok, _, c) \<Rightarrow>
           if ok then (True, flush_hdr (rm0\<lparr>hdr := (hdr rm0)\<lparr>h_curr := c\<rparr>\<rparr>)) else (False, rm0))"

definition nvm_region_allocator ::
    "RegionManager \<Rightarrow> u64 \<Rightarrow> u64 \<Rightarrow> int \<times> addr option \<times> RegionManager" where
  "nvm_region_allocator rm alignment sz =
     (case region_prepare rm alignment sz of
        None \<Rightarrow> (-1, None, rm)
      | Some (old_curr, res, nxt) \<Rightarrow>
          (case region_commit (old_curr, res, nxt) rm of
             (ok, rm') \<Rightarrow> if ok then (1, Some res, rm') else (0, None, rm')))"

definition try_nvm_region_allocator ::
    "RegionManager \<Rightarrow> u64 \<Rightarrow> u64 \<Rightarrow> int \<times> addr option \<times> RegionManager" where
  "try_nvm_region_allocator rm alignment sz =
     (case region_prepare rm alignment sz of
        None \<Rightarrow> (-1, None, rm)
      | Some (old_curr, res, nxt) \<Rightarrow>
          (case region_commit (old_curr, res, nxt) rm of
             (ok, rm') \<Rightarrow> if ok then (0, Some res, rm') else (1, None, rm')))"

definition within_range :: "RegionManager \<Rightarrow> addr \<Rightarrow> bool" where
  "within_range rm ptr = (base_addr rm <s ptr \<and> ptr <s curr_addr rm)"

subsection \<open>Construction\<close>

definition region_FILESIZE :: "u64 \<Rightarrow> u64" where
  "region_FILESIZE sz = ((sz div PAGESIZE) + 2) * PAGESIZE"

text \<open>
  \<open>file\<close> is the header of the file when it exists. \<open>t\<close> is what the uninitialised local
  \<^verbatim>\<open>void* t\<close> holds; the \<^verbatim>\<open>int\<close> the allocator returns is converted to \<^verbatim>\<open>bool\<close>, so that only
  the code 0 fails the assertion.
\<close>

definition region_imm_expand :: "addr \<Rightarrow> u64 \<Rightarrow> RegionManager \<Rightarrow> RegionManager res" where
  "region_imm_expand t sz rm =
     (case nvm_region_allocator rm CACHELINE_SIZE sz of (code, out, rm') \<Rightarrow>
        let t' = (case out of None \<Rightarrow> t | Some r \<Rightarrow> r);
            res = (code \<noteq> 0)
        in check res ''region allocation fails!'' (Inr (store_heap_start t' rm')))"

definition new_RegionManager ::
    "os_result \<Rightarrow> region_hdr option \<Rightarrow> addr \<Rightarrow> string \<Rightarrow> u64 \<Rightarrow> bool \<Rightarrow> bool \<Rightarrow> RegionManager res" where
  "new_RegionManager os file t path sz p imm_expand =
     (let rm = \<lparr>FILESIZE = region_FILESIZE sz, HEAPFILE = path, base_addr = 0,
                hdr = \<lparr>h_curr = 0, h_start = 0, h_size = 0\<rparr>,
                phdr = \<lparr>h_curr = 0, h_start = 0, h_size = 0\<rparr>, persist = p\<rparr> in
      check (sz mod CACHELINE_SIZE = 0) ''size % CACHELINE_SIZE == 0''
      (if p then
         (case file of
            Some h \<Rightarrow> remap_persistent_region os h rm
          | None \<Rightarrow> rbind (map_persistent_region os rm) (\<lambda>rm1.
                     if imm_expand then region_imm_expand t sz rm1 else Inr rm1))
       else
         (case file of
            Some h \<Rightarrow> remap_transient_region os h rm
          | None \<Rightarrow> rbind (map_transient_region os rm) (\<lambda>rm1.
                     if imm_expand then region_imm_expand t sz rm1 else Inr rm1))))"

definition delete_RegionManager :: "RegionManager \<Rightarrow> region_hdr" where
  "delete_RegionManager rm =
     (if persist rm then close_persistent_region rm else close_transient_region rm)"

subsection \<open>The regions of a heap\<close>

fun ridx :: "RegionIndex \<Rightarrow> nat" where
  "ridx DESC_IDX = 0"
| "ridx SB_IDX = 1"
| "ridx META_IDX = 2"

record Regions =
  regions :: "nat \<Rightarrow> RegionManager"
  regions_address :: "nat \<Rightarrow> addr"
  cur_idx :: nat

definition regions_create ::
    "os_result \<Rightarrow> region_hdr option \<Rightarrow> addr \<Rightarrow> string \<Rightarrow> u64 \<Rightarrow> bool \<Rightarrow> bool \<Rightarrow> Regions \<Rightarrow> Regions res" where
  "regions_create os file t path sz p imm_expand rgs =
     (let restart = (file \<noteq> None) in
      rbind (new_RegionManager os file t path sz p imm_expand) (\<lambda>mgr.
        Inr \<lparr>regions = (regions rgs)(cur_idx rgs := mgr),
             regions_address = (regions_address rgs)(cur_idx rgs :=
               (if imm_expand \<or> restart then fetch_heap_start mgr else 0)),
             cur_idx = Suc (cur_idx rgs)\<rparr>))"

definition lookup :: "Regions \<Rightarrow> RegionIndex \<Rightarrow> addr" where
  "lookup rgs i = regions_address rgs (ridx i)"

definition translate :: "Regions \<Rightarrow> RegionIndex \<Rightarrow> u64 \<Rightarrow> addr" where
  "translate rgs i rel = regions_address rgs (ridx i) + rel"

definition untranslate :: "Regions \<Rightarrow> RegionIndex \<Rightarrow> addr \<Rightarrow> u64" where
  "untranslate rgs i a = a - regions_address rgs (ridx i)"

definition expand :: "Regions \<Rightarrow> RegionIndex \<Rightarrow> u64 \<Rightarrow> u64 \<Rightarrow> int \<times> addr option \<times> Regions" where
  "expand rgs i alignment sz =
     (case nvm_region_allocator (regions rgs (ridx i)) alignment sz of
        (code, out, rm') \<Rightarrow> (code, out, rgs\<lparr>regions := (regions rgs)(ridx i := rm')\<rparr>))"

definition in_range :: "Regions \<Rightarrow> RegionIndex \<Rightarrow> addr \<Rightarrow> bool" where
  "in_range rgs i ptr =
     (ptr \<ge> regions_address rgs (ridx i) \<and> ptr < curr_addr (regions rgs (ridx i)))"

text \<open>The addresses \<^verbatim>\<open>flush_region\<close> flushes, in order; \<open>fuel\<close> bounds the iterations.\<close>

fun flush_lines :: "nat \<Rightarrow> addr \<Rightarrow> addr \<Rightarrow> addr list option" where
  "flush_lines 0 a ending = None"
| "flush_lines (Suc n) a ending =
     (if a < ending then map_option (\<lambda>xs. a # xs) (flush_lines n (a + CACHELINE_SIZE) ending)
      else Some [])"

definition flush_region :: "nat \<Rightarrow> Regions \<Rightarrow> RegionIndex \<Rightarrow> addr list option" where
  "flush_region fuel rgs i =
     flush_lines fuel (regions_address rgs (ridx i)) (curr_addr (regions rgs (ridx i)))"

definition regions_destroy :: "Regions \<Rightarrow> (nat \<Rightarrow> region_hdr option) \<times> Regions" where
  "regions_destroy rgs =
     ((\<lambda>i. if i < cur_idx rgs then Some (delete_RegionManager (regions rgs i)) else None),
      rgs\<lparr>regions_address := (\<lambda>i. if i < cur_idx rgs then 0 else regions_address rgs i), cur_idx := 0\<rparr>)"

subsection \<open>Well-formed regions\<close>

text \<open>
  \<open>region_ok\<close>: the file is mapped at a page boundary below \<open>2 ^ 47\<close> (user space of x86-64),
  the header records its size, and the frontier word is the \<^verbatim>\<open>pptr\<close> of an address between
  the end of the header page and the end of the file.
\<close>

definition region_ok :: "RegionManager \<Rightarrow> bool" where
  "region_ok rm \<longleftrightarrow>
     base_addr rm \<noteq> 0 \<and> unat (base_addr rm) mod 4096 = 0
     \<and> unat (base_addr rm) + unat (FILESIZE rm) < 2 ^ 47
     \<and> h_curr (hdr rm) = to_pptr_off (curr_addr rm) (base_addr rm)
     \<and> unat (base_addr rm) + 4096 \<le> unat (curr_addr rm)
     \<and> unat (curr_addr rm) \<le> unat (base_addr rm) + unat (FILESIZE rm)
     \<and> h_size (hdr rm) = FILESIZE rm"

lemma region_okD:
  assumes "region_ok rm"
  shows "base_addr rm \<noteq> 0" and "unat (base_addr rm) mod 4096 = 0"
    and "unat (base_addr rm) + unat (FILESIZE rm) < 140737488355328"
    and "h_curr (hdr rm) = to_pptr_off (curr_addr rm) (base_addr rm)"
    and "unat (base_addr rm) + 4096 \<le> unat (curr_addr rm)"
    and "unat (curr_addr rm) \<le> unat (base_addr rm) + unat (FILESIZE rm)"
    and "h_size (hdr rm) = FILESIZE rm"
  using assms by (simp_all add: region_ok_def)

lemma region_ok_curr_near: "region_ok rm \<Longrightarrow> near (curr_addr rm) (base_addr rm)"
  using region_okD [of rm] by (simp add: near_iff)

lemma region_end_unat:
  "region_ok rm \<Longrightarrow> unat (base_addr rm + FILESIZE rm) = unat (base_addr rm) + unat (FILESIZE rm)"
  using region_okD(3) [of rm] by (simp add: unat_plus64)

lemma curr_addr_set [simp]:
  "near c (base_addr rm) \<Longrightarrow>
   curr_addr (rm\<lparr>hdr := h\<lparr>h_curr := to_pptr_off c (base_addr rm)\<rparr>\<rparr>) = c"
  by (simp add: curr_addr_def atomic_pptr_load_def)

lemma flush_hdr_simps [simp]:
  "curr_addr (flush_hdr rm) = curr_addr rm" "base_addr (flush_hdr rm) = base_addr rm"
  "FILESIZE (flush_hdr rm) = FILESIZE rm" "hdr (flush_hdr rm) = hdr rm"
  "phdr (flush_hdr rm) = hdr rm" "HEAPFILE (flush_hdr rm) = HEAPFILE rm"
  "persist (flush_hdr rm) = persist rm" "region_ok (flush_hdr rm) = region_ok rm"
  by (simp_all add: flush_hdr_def curr_addr_def region_ok_def)

lemma store_heap_start_simps [simp]:
  "curr_addr (store_heap_start r rm) = curr_addr rm"
  "base_addr (store_heap_start r rm) = base_addr rm"
  "FILESIZE (store_heap_start r rm) = FILESIZE rm"
  "HEAPFILE (store_heap_start r rm) = HEAPFILE rm" "persist (store_heap_start r rm) = persist rm"
  "region_ok (store_heap_start r rm) = region_ok rm"
  "phdr (store_heap_start r rm) = hdr (store_heap_start r rm)"
  "fetch_heap_start (store_heap_start r rm) = r"
  by (simp_all add: store_heap_start_def curr_addr_def region_ok_def fetch_heap_start_def)

subsection \<open>The allocator\<close>

text \<open>The least multiple of \<open>2 ^ n\<close> that is not below \<open>x\<close>.\<close>

definition align_up :: "nat \<Rightarrow> nat \<Rightarrow> nat" where
  "align_up n x = (if x mod 2 ^ n = 0 then x else x + (2 ^ n - x mod 2 ^ n))"

lemma align_up_props:
  "2 ^ n dvd align_up n x" "x \<le> align_up n x" "align_up n x < x + 2 ^ n"
proof -
  have m: "x mod 2 ^ n < 2 ^ n" by simp
  have "align_up n x = (if x mod 2 ^ n = 0 then x else (x - x mod 2 ^ n) + 2 ^ n)"
    using less_imp_le [OF m] mod_less_eq_dividend [of x "2 ^ n"] by (simp add: align_up_def)
  then show "2 ^ n dvd align_up n x" by (auto simp: minus_mod_eq_mult_div)
  show "x \<le> align_up n x"
    by (cases "x mod 2 ^ n = 0")
      (simp_all only: align_up_def if_True if_False le_add1 order_refl simp_thms)
  show "align_up n x < x + 2 ^ n" using m by (auto simp: align_up_def)
qed

lemma align_up_id: "2 ^ n dvd x \<Longrightarrow> align_up n x = x"
  by (simp add: align_up_def dvd_eq_mod_eq_0)

lemma pow2_test:
  assumes "n < 64"
  shows "(2 ^ n :: u64) AND (NOT (2 ^ n) + 1) = 2 ^ n"
proof (rule bit_word_eqI)
  fix k assume k: "k < LENGTH(64)"
  have "NOT (2 ^ n :: u64) + 1 = NOT (2 ^ n - 1)"
    by (simp add: not_eq_complement)
  also have "2 ^ n - 1 = (mask n :: u64)" by (simp add: mask_eq_exp_minus_1)
  finally have "NOT (2 ^ n :: u64) + 1 = NOT (mask n)" .
  with k assms show "bit ((2 ^ n :: u64) AND (NOT (2 ^ n) + 1)) k = bit (2 ^ n :: u64) k"
    by (auto simp: bit_simps)
qed

lemma unat_pow2: "n < 64 \<Longrightarrow> unat (2 ^ n :: u64) = 2 ^ n"
  using unat_of_nat64 [of "2 ^ n"] power_strict_increasing [of n 64 "2::nat"] by simp

lemma align_word_aux:
  fixes x p a :: u64
  assumes p: "unat p = P" "0 < P" "P < 2 ^ 47" and a: "unat a = unat x mod P" and x: "unat x < 2 ^ 47"
  shows "unat (if a \<noteq> 0 then x + (p - a) else x) =
    (if unat x mod P = 0 then unat x else unat x + (P - unat x mod P))"
proof -
  have "unat a < P" using a p(2) by simp
  then have "a \<le> p" using p(1) by (simp add: word_le_nat_alt)
  then have d: "unat (p - a) = P - unat a" using p(1) by (simp add: unat_sub)
  then have "unat (x + (p - a)) = unat x + (P - unat a)"
    using p(3) x by (subst unat_plus64) simp_all
  moreover have "a = 0 \<longleftrightarrow> unat x mod P = 0"
    using a by (metis unsigned_0 unsigned_eq_0_iff)
  ultimately show ?thesis using a by (simp only: if_distrib [of unat] simp_thms) simp
qed

lemma align_word:
  fixes x :: u64
  assumes "n < 47" and "unat x < 2 ^ 47"
  shows "unat (if x AND (2 ^ n - 1) \<noteq> 0 then x + (2 ^ n - (x AND (2 ^ n - 1))) else x)
    = align_up n (unat x)"
  unfolding align_up_def
proof (rule align_word_aux)
  show "unat (2 ^ n :: u64) = 2 ^ n" using assms(1) by (simp add: unat_pow2)
  show "(2::nat) ^ n < 2 ^ 47" using assms(1) by (intro power_strict_increasing) simp_all
  have "x AND (2 ^ n - 1) = x AND mask n" by (simp add: mask_eq_exp_minus_1)
  then show "unat (x AND (2 ^ n - 1)) = unat x mod 2 ^ n" by (simp only: and_mask_unat)
qed (use assms(2) in simp_all)

lemma region_prepare_eq:
  assumes ok: "region_ok rm" and n: "3 \<le> n" "n < 47" and sz: "0 < unat sz" "unat sz < 2 ^ 47"
  shows "case region_prepare rm (2 ^ n) sz of
      None \<Rightarrow> unat (base_addr rm) + unat (FILESIZE rm) < align_up n (unat (curr_addr rm)) + unat sz
    | Some (old, res, nxt) \<Rightarrow>
        old = curr_addr rm \<and> unat res = align_up n (unat (curr_addr rm))
        \<and> unat nxt = unat res + unat sz
        \<and> unat nxt \<le> unat (base_addr rm) + unat (FILESIZE rm)"
proof -
  define c where "c = curr_addr rm"
  define res where "res = (if c AND (2 ^ n - 1) \<noteq> 0 then c + (2 ^ n - (c AND (2 ^ n - 1))) else c)"
  have c47: "unat c < 2 ^ 47" using region_okD(3,6) [OF ok] by (simp add: c_def)
  have res: "unat res = align_up n (unat c)" unfolding res_def using n(2) c47 by (rule align_word)
  have "(2::nat) ^ n < 2 ^ 47" using n(2) by (intro power_strict_increasing) simp_all
  then have "unat res < 2 ^ 48" using align_up_props(3) [of n "unat c"] c47 res by simp
  then have nxt: "unat (res + sz) = unat res + unat sz"
    using sz(2) by (subst unat_plus64) simp_all
  have "(8::u64) \<le> 2 ^ n"
    using unat_pow2 [of n] power_increasing [of 3 n "2::nat"] n by (simp add: word_le_nat_alt)
  then have "\<not> ((2 ^ n :: u64) AND (NOT (2 ^ n) + 1) \<noteq> 2 ^ n \<or> (2 ^ n :: u64) < 8)"
    using pow2_test [of n] n by simp
  moreover have "\<not> sz \<le> 0" using sz(1) by (metis unsigned_0 neq0_conv word_le_0_iff)
  ultimately have prep: "region_prepare rm (2 ^ n) sz =
      (if res + sz > base_addr rm + FILESIZE rm then None else Some (c, res, res + sz))"
    unfolding region_prepare_def Let_def c_def [symmetric] res_def by simp
  show ?thesis
    using res nxt region_end_unat [OF ok] unfolding prep
    by (auto simp: c_def word_less_nat_alt)
qed

text \<open>The region after its frontier has been moved to \<open>c\<close>.\<close>

definition advance :: "addr \<Rightarrow> RegionManager \<Rightarrow> RegionManager" where
  "advance c rm = flush_hdr (rm\<lparr>hdr := (hdr rm)\<lparr>h_curr := to_pptr_off c (base_addr rm)\<rparr>\<rparr>)"

lemma advance_simps [simp]:
  "base_addr (advance c rm) = base_addr rm" "FILESIZE (advance c rm) = FILESIZE rm"
  "HEAPFILE (advance c rm) = HEAPFILE rm" "persist (advance c rm) = persist rm"
  "phdr (advance c rm) = hdr (advance c rm)" "h_start (hdr (advance c rm)) = h_start (hdr rm)"
  "near c (base_addr rm) \<Longrightarrow> curr_addr (advance c rm) = c"
  by (simp_all add: advance_def)

lemma region_near:
  assumes "region_ok rm" and "unat (base_addr rm) \<le> unat c"
    and "unat c \<le> unat (base_addr rm) + unat (FILESIZE rm)"
  shows "near c (base_addr rm)"
  using assms region_okD(3) [OF assms(1)] by (simp add: near_iff)

lemma region_ok_advance:
  assumes "region_ok rm" and "unat (base_addr rm) + 4096 \<le> unat c"
    and "unat c \<le> unat (base_addr rm) + unat (FILESIZE rm)"
  shows "region_ok (advance c rm)"
proof -
  have "near c (base_addr rm)" using assms by (intro region_near) simp_all
  then have "curr_addr (advance c rm) = c" by simp
  then show ?thesis
    using assms region_okD [OF assms(1)] by (simp add: region_ok_def) (simp add: advance_def)
qed

lemma region_commit_eq:
  assumes "region_ok rm" and "near old (base_addr rm)"
  shows "region_commit (old, res, nxt) rm =
    (if old = curr_addr rm then (True, advance nxt rm) else (False, flush_hdr rm))"
  using region_okD(4) [OF assms(1)] region_ok_curr_near [OF assms(1)] assms(2)
  by (auto simp: region_commit_def Let_def advance_def atomic_pptr_cas_holds flush_hdr_def)

lemma nvm_region_allocator_eq:
  assumes ok: "region_ok rm" and n: "3 \<le> n" "n < 47" and sz: "0 < unat sz" "unat sz < 2 ^ 47"
  shows "if unat (base_addr rm) + unat (FILESIZE rm) < align_up n (unat (curr_addr rm)) + unat sz
     then nvm_region_allocator rm (2 ^ n) sz = (-1, None, rm)
     else \<exists>res nxt. nvm_region_allocator rm (2 ^ n) sz = (1, Some res, advance nxt rm)
            \<and> unat res = align_up n (unat (curr_addr rm)) \<and> unat nxt = unat res + unat sz
            \<and> nxt = res + sz"
proof (cases "region_prepare rm (2 ^ n) sz")
  case None
  with region_prepare_eq [OF assms] show ?thesis by (simp add: nvm_region_allocator_def)
next
  case (Some plan)
  then obtain old res nxt where plan: "region_prepare rm (2 ^ n) sz = Some (old, res, nxt)"
    by (cases plan) auto
  with region_prepare_eq [OF assms]
  have p: "old = curr_addr rm" "unat res = align_up n (unat (curr_addr rm))"
    "unat nxt = unat res + unat sz" "unat nxt \<le> unat (base_addr rm) + unat (FILESIZE rm)"
    by auto
  have "nxt = res + sz"
    using plan by (auto simp: region_prepare_def Let_def split: if_splits)
  moreover have "nvm_region_allocator rm (2 ^ n) sz = (1, Some res, advance nxt rm)"
    using plan region_commit_eq [OF ok region_ok_curr_near [OF ok]] p(1)
    by (simp add: nvm_region_allocator_def)
  ultimately show ?thesis using p by auto
qed

subsection \<open>Properties\<close>

text \<open>
  C34. Extending a region by \<open>sz\<close> bytes at an alignment of \<open>2 ^ n\<close> (at least the size of a
  pointer, sizes below \<open>2 ^ 47\<close>): either it returns 1 and the least aligned address at or
  above the frontier, the frontier moves to the end of the new piece, inside the file,
  and the persistent image of the header is up to date; or the piece does not fit, it
  returns -1 and the region is unchanged. Without interference it never returns 0.
\<close>

theorem nvm_region_allocator_correct:
  assumes "region_ok rm" and "3 \<le> n" and "n < 47" and "0 < unat sz" and "unat sz < 2 ^ 47"
  shows "case nvm_region_allocator rm (2 ^ n) sz of
     (code, out, rm') \<Rightarrow>
       (case out of
          Some res \<Rightarrow>
            code = 1 \<and> 2 ^ n dvd unat res
            \<and> unat (curr_addr rm) \<le> unat res \<and> unat res < unat (curr_addr rm) + 2 ^ n
            \<and> unat (curr_addr rm') = unat res + unat sz
            \<and> base_addr rm' = base_addr rm \<and> FILESIZE rm' = FILESIZE rm
            \<and> region_ok rm' \<and> phdr rm' = hdr rm'
        | None \<Rightarrow>
            code = -1 \<and> rm' = rm
            \<and> unat (base_addr rm) + unat (FILESIZE rm) < align_up n (unat (curr_addr rm)) + unat sz)"
proof (cases "unat (base_addr rm) + unat (FILESIZE rm) < align_up n (unat (curr_addr rm)) + unat sz")
  case True
  with nvm_region_allocator_eq [OF assms] show ?thesis by simp
next
  case False
  with nvm_region_allocator_eq [OF assms] obtain res nxt where
    eq: "nvm_region_allocator rm (2 ^ n) sz = (1, Some res, advance nxt rm)"
    and res: "unat res = align_up n (unat (curr_addr rm))"
    and nxt: "unat nxt = unat res + unat sz" by auto
  have le: "unat (curr_addr rm) \<le> unat res" "unat nxt \<le> unat (base_addr rm) + unat (FILESIZE rm)"
    using align_up_props(2) False res nxt by simp_all
  then have "region_ok (advance nxt rm)"
    using nxt region_okD(5) [OF assms(1)] by (intro region_ok_advance assms(1)) simp_all
  moreover have "near nxt (base_addr rm)"
    using le nxt region_okD(5) [OF assms(1)] by (intro region_near assms(1)) simp_all
  ultimately show ?thesis
    using eq res nxt le align_up_props [of n "unat (curr_addr rm)"] by simp
qed

text \<open>A one-gigabyte file mapped at a fixed address, for the witnesses.\<close>

definition sample_region :: RegionManager where
  "sample_region = \<lparr>FILESIZE = 0x40002000, HEAPFILE = ''heap_sb'', base_addr = 0x7f0000000000,
     hdr = \<lparr>h_curr = to_pptr_off 0x7f0000021000 0x7f0000000000, h_start = 0x1000, h_size = 0x40002000\<rparr>,
     phdr = \<lparr>h_curr = 0, h_start = 0, h_size = 0\<rparr>, persist = True\<rparr>"

lemma sample_region_curr: "curr_addr sample_region = 0x7f0000021000"
  by (simp add: sample_region_def curr_addr_def atomic_pptr_load_def near_def)

lemma sample_region_ok: "region_ok sample_region"
  unfolding region_ok_def sample_region_curr by (simp add: sample_region_def)

theorem nvm_region_allocator_correct_witness:
  "fst (nvm_region_allocator sample_region 4096 65536) = 1
   \<and> unat (curr_addr (snd (snd (nvm_region_allocator sample_region 4096 65536)))) = 0x7f0000031000"
proof -
  have "\<not> unat (base_addr sample_region) + unat (FILESIZE sample_region)
      < align_up 12 (unat (curr_addr sample_region)) + unat (65536 :: u64)"
    unfolding sample_region_curr by (simp add: align_up_def sample_region_def)
  then show ?thesis
    using nvm_region_allocator_correct [OF sample_region_ok, of 12 65536]
    by (auto simp: sample_region_curr align_up_def split: prod.splits option.splits)
qed

lemma region_moved:
  assumes "region_ok rm" and rm': "hdr rm' = hdr rm" "FILESIZE rm' = FILESIZE rm"
    and "base_addr rm' \<noteq> 0" and "unat (base_addr rm') mod 4096 = 0" and "unat (base_addr rm') + unat (FILESIZE rm) < 2 ^ 47"
  shows "curr_addr rm' = curr_addr rm + (base_addr rm' - base_addr rm)" and "region_ok rm'"
    and "unat (curr_addr rm') = unat (base_addr rm') + (unat (curr_addr rm) - unat (base_addr rm))"
proof -
  let ?a = "base_addr rm'" and ?d = "curr_addr rm - base_addr rm"
  note ok = region_okD [OF assms(1)]
  have near: "near (curr_addr rm) (base_addr rm)" by (rule region_ok_curr_near [OF assms(1)])
  have "curr_addr rm \<noteq> 0" using ok(5) by auto
  with near have "from_pptr_off (h_curr (hdr rm)) (base_addr rm + (?a - base_addr rm))
      = from_pptr_off (h_curr (hdr rm)) (base_addr rm) + (?a - base_addr rm)"
    unfolding ok(4) by (intro from_pptr_off_shift to_pptr_off_nonnull)
  then show curr: "curr_addr rm' = curr_addr rm + (?a - base_addr rm)"
    by (simp add: curr_addr_def atomic_pptr_load_def rm')
  have d: "unat ?d = unat (curr_addr rm) - unat (base_addr rm)"
    using ok(5) by (simp add: unat_sub word_le_nat_alt)
  have "curr_addr rm' = ?a + ?d" unfolding curr by (simp add: algebra_simps)
  moreover have "unat ?a + unat ?d < 2 ^ 64" using d ok(6) assms(6) by simp
  ultimately have c: "unat (curr_addr rm') = unat ?a + unat ?d" by (simp add: unat_plus64)
  then show "unat (curr_addr rm') = unat ?a + (unat (curr_addr rm) - unat (base_addr rm))" using d by simp
  have "to_pptr_off (curr_addr rm') ?a = h_curr (hdr rm)"
    unfolding ok(4) to_pptr_off_def
    using c d ok(5) by (auto simp: curr word_less_nat_alt algebra_simps)
  moreover have "4096 \<le> unat ?d" "unat ?d \<le> unat (FILESIZE rm)" using d ok(5,6) by linarith+
  ultimately show "region_ok rm'"
    using assms(4-6) ok(4,7) c unfolding region_ok_def by (simp add: rm')
qed

text \<open>
  Reopening a closed region at another address: the remap succeeds, the region is again
  well-formed, and the frontier and the heap start have moved with the file, keeping their
  offsets from its beginning.
\<close>

theorem region_reopen:
  assumes "region_ok rm" and "os_lseek_ok os" and "os_write_ok os" and "os_mmap os = Some a"
    and "a \<noteq> 0" and "unat a mod 4096 = 0" and "unat a + unat (FILESIZE rm) < 2 ^ 47"
  shows "\<exists>rm'. remap_persistent_region os (close_persistent_region rm) rm = Inr rm'
     \<and> region_ok rm' \<and> base_addr rm' = a
     \<and> curr_addr rm' - a = curr_addr rm - base_addr rm
     \<and> fetch_heap_start rm' - a = fetch_heap_start rm - base_addr rm"
proof -
  define rm' where "rm' = rm\<lparr>base_addr := a, hdr := hdr rm, phdr := hdr rm\<rparr>"
  have rm': "hdr rm' = hdr rm" "FILESIZE rm' = FILESIZE rm" "base_addr rm' = a" by (simp_all add: rm'_def)
  have "remap_persistent_region os (close_persistent_region rm) rm = Inr rm'"
    using assms(2-4) region_okD(7) [OF assms(1)]
    by (simp add: remap_persistent_region_def close_persistent_region_def rm'_def)
  moreover have "fetch_heap_start rm' - a = fetch_heap_start rm - base_addr rm"
    by (simp add: rm'_def fetch_heap_start_def)
  ultimately show ?thesis
    using region_moved [OF assms(1) rm'(1,2)] assms(5-7) by (auto simp: rm'(3) intro: exI [of _ rm'])
qed

definition sample_os :: os_result where
  "sample_os = \<lparr>os_lseek_ok = True, os_write_ok = True, os_mmap = Some 0x550000000000\<rparr>"

theorem region_reopen_witness:
  "\<exists>rm'. remap_persistent_region sample_os (close_persistent_region sample_region) sample_region = Inr rm'
     \<and> region_ok rm' \<and> base_addr rm' = 0x550000000000
     \<and> curr_addr rm' - 0x550000000000 = curr_addr sample_region - base_addr sample_region
     \<and> fetch_heap_start rm' - 0x550000000000 = fetch_heap_start sample_region - base_addr sample_region"
  by (rule region_reopen [OF sample_region_ok]) (simp_all add: sample_os_def sample_region_def)

lemma region_FILESIZE_unat:
  assumes "unat sz < 2 ^ 47"
  shows "unat (region_FILESIZE sz) = (unat sz div 4096 + 2) * 4096"
proof -
  have d: "unat (sz div 4096) = unat sz div 4096" by (simp add: unat_div)
  have "unat sz div 4096 \<le> unat sz" by simp
  then have s: "unat (sz div 4096 + 2) = unat sz div 4096 + 2"
    using assms d by (subst unat_plus64) simp_all
  have "(unat sz div 4096 + 2) * 4096 < 2 ^ 64" using assms by simp
  with s show ?thesis
    unfolding region_FILESIZE_def PAGESIZE_val by (subst unat_mult_lem [THEN iffD1]) simp_all
qed

text \<open>A region right after its file has been mapped for the first time.\<close>

definition mapped_region :: "string \<Rightarrow> u64 \<Rightarrow> bool \<Rightarrow> addr \<Rightarrow> RegionManager" where
  "mapped_region path sz p a = flush_hdr \<lparr>FILESIZE = region_FILESIZE sz, HEAPFILE = path, base_addr = a,
     hdr = \<lparr>h_curr = to_pptr_off (a + 4096) a, h_start = 0, h_size = region_FILESIZE sz\<rparr>,
     phdr = \<lparr>h_curr = 0, h_start = 0, h_size = 0\<rparr>, persist = p\<rparr>"

lemma mapped_region_simps [simp]:
  "FILESIZE (mapped_region path sz p a) = region_FILESIZE sz" "HEAPFILE (mapped_region path sz p a) = path"
  "base_addr (mapped_region path sz p a) = a" "persist (mapped_region path sz p a) = p"
  by (simp_all add: mapped_region_def)

lemma mapped_region_ok:
  assumes "a \<noteq> 0" and "unat a mod 4096 = 0" and "unat a + unat sz + 8192 < 2 ^ 47"
  shows "unat (a + 4096) = unat a + 4096" and "curr_addr (mapped_region path sz p a) = a + 4096"
    and "region_ok (mapped_region path sz p a)"
proof -
  have fs: "unat (region_FILESIZE sz) = (unat sz div 4096 + 2) * 4096"
    using assms(3) by (intro region_FILESIZE_unat) simp
  show page: "unat (a + 4096) = unat a + 4096" using assms(3) by (subst unat_plus64) simp_all
  then have near: "near (a + 4096) a" using assms(3) by (simp add: near_iff)
  then show c1: "curr_addr (mapped_region path sz p a) = a + 4096"
    by (simp add: mapped_region_def curr_addr_def atomic_pptr_load_def flush_hdr_def)
  show "region_ok (mapped_region path sz p a)"
    unfolding region_ok_def c1 using fs page assms by (simp add: mapped_region_def flush_hdr_def)
qed

lemma new_region_mapped:
  assumes "os_lseek_ok os" and "os_write_ok os" and "os_mmap os = Some a" and "sz mod CACHELINE_SIZE = 0"
  shows "new_RegionManager os None t path sz p imm =
    (if imm then region_imm_expand t sz (mapped_region path sz p a) else Inr (mapped_region path sz p a))"
  using assms
  by (simp add: new_RegionManager_def map_persistent_region_def map_transient_region_def
      Let_def mapped_region_def atomic_pptr_store_def)

lemma new_region:
  assumes "os_lseek_ok os" and "os_write_ok os" and "os_mmap os = Some a"
    and "a \<noteq> 0" and "unat a mod 4096 = 0" and "unat a + unat sz + 8192 < 2 ^ 47"
    and "0 < unat sz" and "sz mod CACHELINE_SIZE = 0"
  shows "\<exists>rm. new_RegionManager os None t path sz p True = Inr rm
     \<and> region_ok rm \<and> base_addr rm = a \<and> FILESIZE rm = region_FILESIZE sz
     \<and> fetch_heap_start rm = a + PAGESIZE \<and> curr_addr rm = a + PAGESIZE + sz \<and> phdr rm = hdr rm \<and> HEAPFILE rm = path \<and> persist rm = p"
proof -
  let ?rm1 = "mapped_region path sz p a"
  note m = mapped_region_ok(1) [OF assms(4-6)] mapped_region_ok(2,3) [OF assms(4-6), of path p]
  have fs: "unat (region_FILESIZE sz) = (unat sz div 4096 + 2) * 4096"
    using assms(6) by (intro region_FILESIZE_unat) simp
  have "2 ^ 12 dvd unat (a + 4096)" unfolding m(1) using assms(5) by (simp add: dvd_eq_mod_eq_0)
  moreover have "(2::nat) ^ 6 dvd 2 ^ 12" by (rule le_imp_power_dvd) simp
  ultimately have al: "align_up 6 (unat (a + 4096)) = unat (a + 4096)"
    by (intro align_up_id) (rule dvd_trans)
  have "\<not> unat (base_addr ?rm1) + unat (FILESIZE ?rm1) < align_up 6 (unat (curr_addr ?rm1)) + unat sz"
    unfolding m(2) al using fs m(1) by simp
  then obtain res nxt where alloc: "nvm_region_allocator ?rm1 (2 ^ 6) sz = (1, Some res, advance nxt ?rm1)"
    and res: "unat res = unat (a + 4096)" and nxt: "nxt = res + sz" "unat nxt = unat res + unat sz"
    using nvm_region_allocator_eq [OF m(3), of 6 sz] assms(6,7) unfolding m(2) al by auto
  from res have res: "res = a + 4096" by (simp only: word_unat_eq_iff)
  let ?rm = "store_heap_start res (advance nxt ?rm1)"
  have "new_RegionManager os None t path sz p True = Inr ?rm"
    using alloc by (simp add: new_region_mapped [OF assms(1-3,8)] region_imm_expand_def)
  moreover have "unat nxt \<le> unat (base_addr ?rm1) + unat (FILESIZE ?rm1)"
    using nxt(2) res m(1) fs by simp
  then have "region_ok (advance nxt ?rm1)" and "near nxt (base_addr ?rm1)"
    using nxt(2) res m(1) region_ok_advance [OF m(3), of nxt] region_near [OF m(3), of nxt] by simp_all
  then have "region_ok ?rm" and "curr_addr ?rm = nxt" by simp_all
  ultimately show ?thesis using res nxt by auto
qed

text \<open>
  Creating a region from scratch with immediate expansion, for a positive size that is a
  multiple of the cache line: the constructor succeeds, the heap starts right after the
  header page, the frontier is at its end, and the header is persistent.
\<close>

theorem new_RegionManager_fresh:
  assumes "os_lseek_ok os" and "os_write_ok os" and "os_mmap os = Some a"
    and "a \<noteq> 0" and "unat a mod 4096 = 0" and "unat a + unat sz + 8192 < 2 ^ 47"
    and "0 < unat sz" and "sz mod CACHELINE_SIZE = 0"
  shows "\<exists>rm. new_RegionManager os None t path sz p True = Inr rm
     \<and> region_ok rm \<and> base_addr rm = a \<and> FILESIZE rm = region_FILESIZE sz
     \<and> fetch_heap_start rm = a + PAGESIZE \<and> curr_addr rm = a + PAGESIZE + sz \<and> phdr rm = hdr rm"
  using new_region [OF assms, of t path p] by auto

theorem new_RegionManager_fresh_witness:
  "\<exists>rm. new_RegionManager sample_os None 0 ''heap_desc'' 0x100000 True True = Inr rm
     \<and> region_ok rm \<and> base_addr rm = 0x550000000000 \<and> FILESIZE rm = region_FILESIZE 0x100000
     \<and> fetch_heap_start rm = 0x550000000000 + PAGESIZE
     \<and> curr_addr rm = 0x550000000000 + PAGESIZE + 0x100000 \<and> phdr rm = hdr rm"
  by (rule new_RegionManager_fresh) (simp_all add: sample_os_def)

text \<open>
  C35. The size is not checked against wrap-around: asked for \<open>2 ^ 64 - d\<close> bytes, with \<open>d\<close> a
  distance by which the frontier lies above the header page, the allocator reports success
  and moves the frontier back by \<open>d\<close>, below memory it has already handed out.
\<close>

theorem nvm_region_allocator_wraps:
  assumes "region_ok rm" and "curr_addr rm AND (PAGESIZE - 1) = 0" and "d \<noteq> 0"
    and "unat (base_addr rm) + 4096 + unat d \<le> unat (curr_addr rm)"
  shows "nvm_region_allocator rm PAGESIZE (- d) = (1, Some (curr_addr rm), advance (curr_addr rm - d) rm)
     \<and> curr_addr (advance (curr_addr rm - d) rm) < curr_addr rm"
proof -
  let ?c = "curr_addr rm"
  note ok = region_okD [OF assms(1)]
  have "d \<le> ?c" using assms(4) by (simp add: word_le_nat_alt)
  then have u: "unat (?c - d) = unat ?c - unat d" by (rule unat_sub)
  have "unat d \<noteq> 0" using assms(3) by (simp add: unsigned_eq_0_iff)
  then have lt: "?c - d < ?c" using u assms(4) by (simp add: word_less_nat_alt)
  have "\<not> ?c - d > base_addr rm + FILESIZE rm"
    using u ok(6) region_end_unat [OF assms(1)] by (simp add: word_less_nat_alt)
  moreover have "\<not> - d \<le> 0" using assms(3) by simp
  ultimately have "region_prepare rm PAGESIZE (- d) = Some (?c, ?c, ?c - d)"
    using assms(2) by (simp add: region_prepare_def Let_def)
  then have "nvm_region_allocator rm PAGESIZE (- d) = (1, Some ?c, advance (?c - d) rm)"
    using region_commit_eq [OF assms(1) region_ok_curr_near [OF assms(1)]]
    by (simp add: nvm_region_allocator_def)
  moreover have "near (?c - d) (base_addr rm)"
    using u ok(6) assms(4) by (intro region_near assms(1)) simp_all
  ultimately show ?thesis using lt by simp
qed

theorem nvm_region_allocator_wraps_witness:
  "nvm_region_allocator sample_region PAGESIZE (- 65536) =
     (1, Some 0x7f0000021000, advance (0x7f0000021000 - 65536) sample_region)"
  using nvm_region_allocator_wraps [OF sample_region_ok, of 65536]
  unfolding sample_region_curr by (simp add: sample_region_def)

end
