(* ===== verification/CrossPtr.thy ===== *)
theory CrossPtr
  imports RegionManager
begin

text \<open>
  Pointers across regions, from \<^verbatim>\<open>src/src/BaseMeta.hpp\<close> and \<^verbatim>\<open>BaseMeta.cpp\<close>. A
  \<^verbatim>\<open>CrossPtr<T, idx>\<close> stores the offset of its target from the start of region \<^verbatim>\<open>idx\<close>, zero
  being the null pointer. An \<^verbatim>\<open>AtomicCrossPtrCnt<T, idx>\<close> packs a 30-bit offset and a 34-bit
  counter into one word, which the lists of descriptors exchange atomically.
\<close>

subsection \<open>\<^verbatim>\<open>CrossPtr\<close>\<close>

definition cross_new :: "Regions \<Rightarrow> RegionIndex \<Rightarrow> addr \<Rightarrow> u64" where
  "cross_new rgs i real_ptr = (if real_ptr = 0 then 0 else untranslate rgs i real_ptr)"

definition cross_is_null :: "u64 \<Rightarrow> bool" where
  "cross_is_null off = (off = 0)"

definition cross_get :: "Regions \<Rightarrow> RegionIndex \<Rightarrow> u64 \<Rightarrow> addr" where
  "cross_get rgs i off = (if cross_is_null off then 0 else translate rgs i off)"

text \<open>Dereference and arrow do not test for null.\<close>

definition cross_deref :: "Regions \<Rightarrow> RegionIndex \<Rightarrow> u64 \<Rightarrow> addr" where
  "cross_deref rgs i off = translate rgs i off"

text \<open>
  Assignment from \<^verbatim>\<open>nullptr\<close> stores zero; assignment from a pointer variable converts it
  whatever its value is.
\<close>

definition cross_assign_null :: u64 where
  "cross_assign_null = 0"

definition cross_assign :: "Regions \<Rightarrow> RegionIndex \<Rightarrow> addr \<Rightarrow> u64" where
  "cross_assign rgs i p = untranslate rgs i p"

definition cross_eq :: "Regions \<Rightarrow> RegionIndex \<Rightarrow> u64 \<Rightarrow> u64 \<Rightarrow> bool" where
  "cross_eq rgs i lhs rhs = (cross_get rgs i lhs = cross_get rgs i rhs)"

subsection \<open>\<^verbatim>\<open>AtomicCrossPtrCnt\<close>\<close>

record ptr_cnt =
  pc_ptr :: addr
  pc_cnt :: u64

definition acp_pack :: "Regions \<Rightarrow> RegionIndex \<Rightarrow> ptr_cnt \<Rightarrow> u64" where
  "acp_pack rgs i p =
     (let cnt_prefix = push_bit MAX_DESC_OFFSET_BITS (pc_cnt p)
      in if pc_ptr p = 0 then cnt_prefix
         else untranslate rgs i (pc_ptr p) OR cnt_prefix)"

definition acp_load :: "Regions \<Rightarrow> RegionIndex \<Rightarrow> u64 \<Rightarrow> ptr_cnt" where
  "acp_load rgs i off =
     (let cur_off = off AND MAX_DESC_OFFSET_MASK
      in \<lparr>pc_ptr = (if cur_off = 0 then 0 else translate rgs i cur_off),
          pc_cnt = drop_bit MAX_DESC_OFFSET_BITS off\<rparr>)"

definition acp_store :: "Regions \<Rightarrow> RegionIndex \<Rightarrow> ptr_cnt \<Rightarrow> u64" where
  "acp_store rgs i desired = acp_pack rgs i desired"

text \<open>
  Both exchanges: success, the new \<^verbatim>\<open>expected\<close>, the new word. The weak one may also fail
  spuriously, which is a further iteration of the loop around it.
\<close>

definition acp_cas ::
    "Regions \<Rightarrow> RegionIndex \<Rightarrow> u64 \<Rightarrow> ptr_cnt \<Rightarrow> ptr_cnt \<Rightarrow> bool \<times> ptr_cnt \<times> u64" where
  "acp_cas rgs i off expected desired =
     (let old_off = acp_pack rgs i expected;
          new_off = acp_pack rgs i desired
      in if off = old_off then (True, expected, new_off)
         else (False, acp_load rgs i off, off))"

subsection \<open>Round trips\<close>

text \<open>
  A \<^verbatim>\<open>CrossPtr\<close> can hold the null pointer and every address but the start of the region. A
  counted pointer can hold the null pointer and an address less than \<open>2 ^ 30\<close> bytes above
  the start of the region, with a counter below \<open>2 ^ 34\<close>.
\<close>

definition cross_holds :: "addr \<Rightarrow> Regions \<times> RegionIndex \<Rightarrow> bool" where
  "cross_holds p c = (case c of (rgs, i) \<Rightarrow> p = 0 \<or> p \<noteq> lookup rgs i)"

definition acp_holds :: "ptr_cnt \<Rightarrow> Regions \<times> RegionIndex \<Rightarrow> bool" where
  "acp_holds p c = (case c of (rgs, i) \<Rightarrow>
     unat (pc_cnt p) < 2 ^ 34
     \<and> (pc_ptr p = 0
        \<or> (pc_ptr p \<noteq> lookup rgs i \<and> unat (pc_ptr p - lookup rgs i) < 2 ^ 30)))"

lemma cross_get_new: "cross_holds p (rgs, i) \<Longrightarrow> cross_get rgs i (cross_new rgs i p) = p"
  by (auto simp: cross_holds_def cross_get_def cross_new_def cross_is_null_def translate_def
      untranslate_def lookup_def)

interpretation cross_cell: ptr_repr
  "\<lambda>p c. cross_new (fst c) (snd c) p" "\<lambda>off c. cross_get (fst c) (snd c) off" cross_holds
  by unfold_locales (auto simp: cross_get_new)

lemma push_or_split:
  assumes "unat (d :: u64) < 2 ^ 30"
  shows "(d OR push_bit 30 c) AND 1073741823 = d" "drop_bit 30 (d OR push_bit 30 c) = drop_bit 30 (push_bit 30 c)"
proof -
  have m: "(1073741823 :: u64) = mask 30" by (simp add: mask_eq_exp_minus_1)
  have d: "d AND mask 30 = d"
    using assms by (metis and_mask_unat mod_less word_unat_eq_iff)
  have p: "push_bit 30 c AND mask 30 = (0 :: u64)"
    by (rule bit_word_eqI) (auto simp: bit_simps)
  show "(d OR push_bit 30 c) AND 1073741823 = d"
    by (simp only: m bit.conj_disj_distrib2 d p bit.disj_zero_right)
  have "drop_bit 30 d = 0"
  proof -
    have "unat (drop_bit 30 d) = unat d div 2 ^ 30"
      by (subst unat_drop_bit_eq) (simp add: drop_bit_eq_div)
    with assms have "unat (drop_bit 30 d) = 0" by simp
    then show ?thesis by (simp only: unsigned_eq_0_iff)
  qed
  then show "drop_bit 30 (d OR push_bit 30 c) = drop_bit 30 (push_bit 30 c)" by simp
qed

lemma drop_push_bit_30:
  "drop_bit 30 (push_bit 30 (c :: u64)) = take_bit 34 c"
  by (rule bit_word_eqI) (auto simp: bit_simps)

lemma take_bit_34: "unat (c :: u64) < 2 ^ 34 \<Longrightarrow> take_bit 34 c = c"
  by (metis and_mask_unat mod_less take_bit_eq_mask word_unat_eq_iff)

lemma acp_load_pack_take:
  assumes "pc_ptr p = 0 \<or> (pc_ptr p \<noteq> lookup rgs i \<and> unat (pc_ptr p - lookup rgs i) < 2 ^ 30)"
  shows "acp_load rgs i (acp_pack rgs i p) = p\<lparr>pc_cnt := take_bit 34 (pc_cnt p)\<rparr>"
proof -
  define d where "d = (if pc_ptr p = 0 then 0 else pc_ptr p - lookup rgs i)"
  have "unat d < 2 ^ 30" using assms by (auto simp: d_def)
  note sp = push_or_split [OF this, of "pc_cnt p"]
  have pack: "acp_pack rgs i p = d OR push_bit 30 (pc_cnt p)"
    by (simp add: acp_pack_def d_def untranslate_def lookup_def Let_def)
  have d0: "d = 0 \<longleftrightarrow> pc_ptr p = 0" using assms by (auto simp: d_def)
  have "acp_load rgs i (d OR push_bit 30 (pc_cnt p)) =
      \<lparr>pc_ptr = (if d = 0 then 0 else translate rgs i d), pc_cnt = take_bit 34 (pc_cnt p)\<rparr>"
    unfolding acp_load_def Let_def MAX_DESC_OFFSET_MASK_val MAX_DESC_OFFSET_BITS_val sp
      drop_push_bit_30 ..
  then show ?thesis
    unfolding pack using d0 by (cases p) (auto simp: d_def translate_def lookup_def)
qed

lemma acp_load_pack:
  assumes "acp_holds p (rgs, i)"
  shows "acp_load rgs i (acp_pack rgs i p) = p"
  using acp_load_pack_take [of p rgs i] take_bit_34 [of "pc_cnt p"] assms
  by (cases p) (auto simp: acp_holds_def)

interpretation acp_cell: ptr_repr
  "\<lambda>p c. acp_pack (fst c) (snd c) p" "\<lambda>off c. acp_load (fst c) (snd c) off" acp_holds
  by unfold_locales (auto simp: acp_load_pack)

lemma acp_cas_holds:
  assumes "acp_holds cur (rgs, i)" and "acp_holds expected (rgs, i)"
  shows "acp_cas rgs i (acp_pack rgs i cur) expected desired =
    (if cur = expected then (True, expected, acp_pack rgs i desired)
     else (False, cur, acp_pack rgs i cur))"
  using acp_cell.enc_eq_iff [of cur "(rgs, i)" expected] assms
  by (auto simp: acp_cas_def Let_def acp_load_pack)

subsection \<open>Properties\<close>

text \<open>
  C37. The packed word keeps pointer and counter apart: what was stored is loaded again, the
  counter modulo \<open>2 ^ 34\<close>, for the null pointer and every address less than \<open>2 ^ 30\<close> bytes
  above the start of the region except the start itself; that one address would read back
  as null, which is why the first superblock and its descriptor are never used.
\<close>

theorem acp_roundtrip:
  assumes "lookup rgs i \<noteq> 0"
  shows "(unat (p - lookup rgs i) < 2 ^ 30 \<and> p \<noteq> lookup rgs i \<or> p = 0 \<longrightarrow>
      acp_load rgs i (acp_store rgs i \<lparr>pc_ptr = p, pc_cnt = c\<rparr>) = \<lparr>pc_ptr = p, pc_cnt = take_bit 34 c\<rparr>)
    \<and> pc_ptr (acp_load rgs i (acp_store rgs i \<lparr>pc_ptr = lookup rgs i, pc_cnt = c\<rparr>)) = 0"
proof
  show "unat (p - lookup rgs i) < 2 ^ 30 \<and> p \<noteq> lookup rgs i \<or> p = 0 \<longrightarrow>
      acp_load rgs i (acp_store rgs i \<lparr>pc_ptr = p, pc_cnt = c\<rparr>) = \<lparr>pc_ptr = p, pc_cnt = take_bit 34 c\<rparr>"
    using acp_load_pack_take [of "\<lparr>pc_ptr = p, pc_cnt = c\<rparr>" rgs i] by (auto simp: acp_store_def)
  have "acp_store rgs i \<lparr>pc_ptr = lookup rgs i, pc_cnt = c\<rparr> = 0 OR push_bit 30 c"
    using assms by (simp add: acp_store_def acp_pack_def untranslate_def lookup_def Let_def)
  then show "pc_ptr (acp_load rgs i (acp_store rgs i \<lparr>pc_ptr = lookup rgs i, pc_cnt = c\<rparr>)) = 0"
    using push_or_split(1) [of 0 c] by (simp add: acp_load_def Let_def)
qed

definition sample_regions :: Regions where
  "sample_regions = \<lparr>regions = (\<lambda>_. sample_region),
     regions_address = (\<lambda>i. 0x7f0000001000 + of_nat i * 0x100000000), cur_idx = 3\<rparr>"

theorem acp_roundtrip_witness:
  "acp_load sample_regions DESC_IDX (acp_store sample_regions DESC_IDX \<lparr>pc_ptr = 0x7f0000001040, pc_cnt = 7\<rparr>)
    = \<lparr>pc_ptr = 0x7f0000001040, pc_cnt = 7\<rparr>"
  using acp_roundtrip [of sample_regions DESC_IDX "0x7f0000001040" 7] take_bit_34 [of 7]
  by (simp add: lookup_def sample_regions_def)

text \<open>
  Compare-and-exchange on the packed word compares pointer and counter: it succeeds
  exactly when both are the expected ones, and then pointer and counter are the desired
  ones; a failed exchange reports the pair it found.
\<close>

theorem acp_cas_correct:
  assumes "acp_holds cur (rgs, i)" and "acp_holds expected (rgs, i)" and "acp_holds desired (rgs, i)"
  shows "case acp_cas rgs i (acp_store rgs i cur) expected desired of
      (ok, expected', off') \<Rightarrow>
        ok = (pc_ptr cur = pc_ptr expected \<and> pc_cnt cur = pc_cnt expected)
        \<and> acp_load rgs i off' = (if ok then desired else cur)
        \<and> (\<not> ok \<longrightarrow> expected' = cur)"
proof -
  have "cur = expected \<longleftrightarrow> pc_ptr cur = pc_ptr expected \<and> pc_cnt cur = pc_cnt expected"
    by (cases cur; cases expected) simp
  then show ?thesis
    using assms by (auto simp: acp_store_def acp_cas_holds acp_load_pack)
qed

theorem acp_cas_correct_witness:
  "\<not> fst (acp_cas sample_regions DESC_IDX
       (acp_store sample_regions DESC_IDX \<lparr>pc_ptr = 0x7f0000001040, pc_cnt = 8\<rparr>)
       \<lparr>pc_ptr = 0x7f0000001040, pc_cnt = 7\<rparr> \<lparr>pc_ptr = 0, pc_cnt = 7\<rparr>)"
  using acp_cas_correct [of "\<lparr>pc_ptr = 0x7f0000001040, pc_cnt = 8\<rparr>" sample_regions DESC_IDX
      "\<lparr>pc_ptr = 0x7f0000001040, pc_cnt = 7\<rparr>" "\<lparr>pc_ptr = 0, pc_cnt = 7\<rparr>"]
  by (simp add: acp_holds_def lookup_def sample_regions_def split: prod.splits)

text \<open>
  C38. A \<^verbatim>\<open>CrossPtr\<close> is position independent: built in one mapping and read in another, it
  yields the target moved with its region. But a null pointer \<^emph>\<open>variable\<close> assigned to it is
  not recorded as null: it reads back as null only as long as the region stays where it
  was, and as the distance the region moved otherwise.
\<close>

theorem cross_relocation:
  assumes "p \<noteq> lookup rgs i"
  shows "(p \<noteq> 0 \<longrightarrow> cross_get rgs' i (cross_new rgs i p) = p + (lookup rgs' i - lookup rgs i))
    \<and> cross_get rgs' i (cross_new rgs i 0) = 0
    \<and> (lookup rgs i \<noteq> 0 \<longrightarrow>
         \<not> cross_is_null (cross_assign rgs i 0)
         \<and> cross_get rgs' i (cross_assign rgs i 0) = lookup rgs' i - lookup rgs i)"
  using assms
  by (auto simp: cross_get_def cross_new_def cross_assign_def cross_is_null_def translate_def
      untranslate_def lookup_def)

theorem cross_relocation_witness:
  "cross_get (sample_regions\<lparr>regions_address := (\<lambda>_. 0x100000)\<rparr>) SB_IDX
     (cross_assign sample_regions SB_IDX 0) \<noteq> 0"
  using cross_relocation [of 1 sample_regions SB_IDX "sample_regions\<lparr>regions_address := (\<lambda>_. 0x100000)\<rparr>"]
  by (simp add: lookup_def sample_regions_def)

end
