(* ===== verification/SizeClass.thy ===== *)
theory SizeClass
  imports PmConfig
begin

text \<open>
  The size classes of \<^verbatim>\<open>src/src/SizeClass.hpp\<close> and \<^verbatim>\<open>SizeClass.cpp\<close>: the table of
  \<^verbatim>\<open>SIZE_CLASSES\<close> rows, the array \<^verbatim>\<open>sizeclasses\<close> the constructor builds from the rows marked
  as bins, and the array \<^verbatim>\<open>sizeclass_lookup\<close> it fills by a double loop. The lemmas show
  that the lookup is the best fit.
\<close>

subsection \<open>The table\<close>

text \<open>\<^verbatim>\<open>SC(index, lg_grp, lg_delta, ndelta, psz, bin, pgs, lg_delta_lookup)\<close>\<close>

datatype sc_row = SC nat nat nat nat bool bool nat "nat option"

definition SIZE_CLASSES_0 :: "sc_row list" where
  "SIZE_CLASSES_0 = [
    SC 0 3 3 0 False True 1 (Some 3), SC 1 3 3 1 False True 1 (Some 3),
    SC 2 3 3 2 False True 3 (Some 3), SC 3 3 3 3 False True 1 (Some 3),
    SC 4 5 3 1 False True 5 (Some 3), SC 5 5 3 2 False True 3 (Some 3),
    SC 6 5 3 3 False True 7 (Some 3), SC 7 5 3 4 False True 1 (Some 3),
    SC 8 6 4 1 False True 5 (Some 4), SC 9 6 4 2 False True 3 (Some 4),
    SC 10 6 4 3 False True 7 (Some 4), SC 11 6 4 4 False True 1 (Some 4),
    SC 12 7 5 1 False True 5 (Some 5), SC 13 7 5 2 False True 3 (Some 5),
    SC 14 7 5 3 False True 7 (Some 5), SC 15 7 5 4 False True 1 (Some 5),
    SC 16 8 6 1 False True 5 (Some 6), SC 17 8 6 2 False True 3 (Some 6),
    SC 18 8 6 3 False True 7 (Some 6), SC 19 8 6 4 False True 1 (Some 6),
    SC 20 9 7 1 False True 5 (Some 7), SC 21 9 7 2 False True 3 (Some 7),
    SC 22 9 7 3 False True 7 (Some 7), SC 23 9 7 4 False True 1 (Some 7),
    SC 24 10 8 1 False True 5 (Some 8), SC 25 10 8 2 False True 3 (Some 8),
    SC 26 10 8 3 False True 7 (Some 8), SC 27 10 8 4 False True 1 (Some 8),
    SC 28 11 9 1 False True 5 (Some 9), SC 29 11 9 2 False True 3 (Some 9),
    SC 30 11 9 3 False True 7 (Some 9), SC 31 11 9 4 True True 1 (Some 9),
    SC 32 12 10 1 False True 5 None, SC 33 12 10 2 False True 3 None,
    SC 34 12 10 3 False True 7 None, SC 35 12 10 4 True True 2 None,
    SC 36 13 11 1 False True 5 None, SC 37 13 11 2 True True 3 None,
    SC 38 13 11 3 False True 7 None, SC 39 13 11 4 True False 0 None]"

definition SIZE_CLASSES_1 :: "sc_row list" where
  "SIZE_CLASSES_1 = [
    SC 40 14 12 1 True False 0 None, SC 41 14 12 2 True False 0 None,
    SC 42 14 12 3 True False 0 None, SC 43 14 12 4 True False 0 None,
    SC 44 15 13 1 True False 0 None, SC 45 15 13 2 True False 0 None,
    SC 46 15 13 3 True False 0 None, SC 47 15 13 4 True False 0 None,
    SC 48 16 14 1 True False 0 None, SC 49 16 14 2 True False 0 None,
    SC 50 16 14 3 True False 0 None, SC 51 16 14 4 True False 0 None,
    SC 52 17 15 1 True False 0 None, SC 53 17 15 2 True False 0 None,
    SC 54 17 15 3 True False 0 None, SC 55 17 15 4 True False 0 None,
    SC 56 18 16 1 True False 0 None, SC 57 18 16 2 True False 0 None,
    SC 58 18 16 3 True False 0 None, SC 59 18 16 4 True False 0 None,
    SC 60 19 17 1 True False 0 None, SC 61 19 17 2 True False 0 None,
    SC 62 19 17 3 True False 0 None, SC 63 19 17 4 True False 0 None,
    SC 64 20 18 1 True False 0 None, SC 65 20 18 2 True False 0 None,
    SC 66 20 18 3 True False 0 None, SC 67 20 18 4 True False 0 None,
    SC 68 21 19 1 True False 0 None, SC 69 21 19 2 True False 0 None,
    SC 70 21 19 3 True False 0 None, SC 71 21 19 4 True False 0 None,
    SC 72 22 20 1 True False 0 None, SC 73 22 20 2 True False 0 None,
    SC 74 22 20 3 True False 0 None, SC 75 22 20 4 True False 0 None,
    SC 76 23 21 1 True False 0 None, SC 77 23 21 2 True False 0 None,
    SC 78 23 21 3 True False 0 None, SC 79 23 21 4 True False 0 None,
    SC 80 24 22 1 True False 0 None, SC 81 24 22 2 True False 0 None,
    SC 82 24 22 3 True False 0 None, SC 83 24 22 4 True False 0 None,
    SC 84 25 23 1 True False 0 None, SC 85 25 23 2 True False 0 None,
    SC 86 25 23 3 True False 0 None, SC 87 25 23 4 True False 0 None,
    SC 88 26 24 1 True False 0 None, SC 89 26 24 2 True False 0 None,
    SC 90 26 24 3 True False 0 None, SC 91 26 24 4 True False 0 None,
    SC 92 27 25 1 True False 0 None, SC 93 27 25 2 True False 0 None,
    SC 94 27 25 3 True False 0 None, SC 95 27 25 4 True False 0 None,
    SC 96 28 26 1 True False 0 None, SC 97 28 26 2 True False 0 None,
    SC 98 28 26 3 True False 0 None, SC 99 28 26 4 True False 0 None,
    SC 100 29 27 1 True False 0 None, SC 101 29 27 2 True False 0 None,
    SC 102 29 27 3 True False 0 None, SC 103 29 27 4 True False 0 None,
    SC 104 30 28 1 True False 0 None, SC 105 30 28 2 True False 0 None,
    SC 106 30 28 3 True False 0 None, SC 107 30 28 4 True False 0 None,
    SC 108 31 29 1 True False 0 None, SC 109 31 29 2 True False 0 None,
    SC 110 31 29 3 True False 0 None, SC 111 31 29 4 True False 0 None,
    SC 112 32 30 1 True False 0 None, SC 113 32 30 2 True False 0 None,
    SC 114 32 30 3 True False 0 None, SC 115 32 30 4 True False 0 None,
    SC 116 33 31 1 True False 0 None, SC 117 33 31 2 True False 0 None,
    SC 118 33 31 3 True False 0 None, SC 119 33 31 4 True False 0 None,
    SC 120 34 32 1 True False 0 None, SC 121 34 32 2 True False 0 None,
    SC 122 34 32 3 True False 0 None, SC 123 34 32 4 True False 0 None,
    SC 124 35 33 1 True False 0 None, SC 125 35 33 2 True False 0 None,
    SC 126 35 33 3 True False 0 None, SC 127 35 33 4 True False 0 None,
    SC 128 36 34 1 True False 0 None, SC 129 36 34 2 True False 0 None,
    SC 130 36 34 3 True False 0 None, SC 131 36 34 4 True False 0 None,
    SC 132 37 35 1 True False 0 None, SC 133 37 35 2 True False 0 None,
    SC 134 37 35 3 True False 0 None, SC 135 37 35 4 True False 0 None,
    SC 136 38 36 1 True False 0 None, SC 137 38 36 2 True False 0 None,
    SC 138 38 36 3 True False 0 None, SC 139 38 36 4 True False 0 None]"

definition SIZE_CLASSES_2 :: "sc_row list" where
  "SIZE_CLASSES_2 = [
    SC 140 39 37 1 True False 0 None, SC 141 39 37 2 True False 0 None,
    SC 142 39 37 3 True False 0 None, SC 143 39 37 4 True False 0 None,
    SC 144 40 38 1 True False 0 None, SC 145 40 38 2 True False 0 None,
    SC 146 40 38 3 True False 0 None, SC 147 40 38 4 True False 0 None,
    SC 148 41 39 1 True False 0 None, SC 149 41 39 2 True False 0 None,
    SC 150 41 39 3 True False 0 None, SC 151 41 39 4 True False 0 None,
    SC 152 42 40 1 True False 0 None, SC 153 42 40 2 True False 0 None,
    SC 154 42 40 3 True False 0 None, SC 155 42 40 4 True False 0 None,
    SC 156 43 41 1 True False 0 None, SC 157 43 41 2 True False 0 None,
    SC 158 43 41 3 True False 0 None, SC 159 43 41 4 True False 0 None,
    SC 160 44 42 1 True False 0 None, SC 161 44 42 2 True False 0 None,
    SC 162 44 42 3 True False 0 None, SC 163 44 42 4 True False 0 None,
    SC 164 45 43 1 True False 0 None, SC 165 45 43 2 True False 0 None,
    SC 166 45 43 3 True False 0 None, SC 167 45 43 4 True False 0 None,
    SC 168 46 44 1 True False 0 None, SC 169 46 44 2 True False 0 None,
    SC 170 46 44 3 True False 0 None, SC 171 46 44 4 True False 0 None,
    SC 172 47 45 1 True False 0 None, SC 173 47 45 2 True False 0 None,
    SC 174 47 45 3 True False 0 None, SC 175 47 45 4 True False 0 None,
    SC 176 48 46 1 True False 0 None, SC 177 48 46 2 True False 0 None,
    SC 178 48 46 3 True False 0 None, SC 179 48 46 4 True False 0 None,
    SC 180 49 47 1 True False 0 None, SC 181 49 47 2 True False 0 None,
    SC 182 49 47 3 True False 0 None, SC 183 49 47 4 True False 0 None,
    SC 184 50 48 1 True False 0 None, SC 185 50 48 2 True False 0 None,
    SC 186 50 48 3 True False 0 None, SC 187 50 48 4 True False 0 None,
    SC 188 51 49 1 True False 0 None, SC 189 51 49 2 True False 0 None,
    SC 190 51 49 3 True False 0 None, SC 191 51 49 4 True False 0 None,
    SC 192 52 50 1 True False 0 None, SC 193 52 50 2 True False 0 None,
    SC 194 52 50 3 True False 0 None, SC 195 52 50 4 True False 0 None,
    SC 196 53 51 1 True False 0 None, SC 197 53 51 2 True False 0 None,
    SC 198 53 51 3 True False 0 None, SC 199 53 51 4 True False 0 None,
    SC 200 54 52 1 True False 0 None, SC 201 54 52 2 True False 0 None,
    SC 202 54 52 3 True False 0 None, SC 203 54 52 4 True False 0 None,
    SC 204 55 53 1 True False 0 None, SC 205 55 53 2 True False 0 None,
    SC 206 55 53 3 True False 0 None, SC 207 55 53 4 True False 0 None,
    SC 208 56 54 1 True False 0 None, SC 209 56 54 2 True False 0 None,
    SC 210 56 54 3 True False 0 None, SC 211 56 54 4 True False 0 None,
    SC 212 57 55 1 True False 0 None, SC 213 57 55 2 True False 0 None,
    SC 214 57 55 3 True False 0 None, SC 215 57 55 4 True False 0 None,
    SC 216 58 56 1 True False 0 None, SC 217 58 56 2 True False 0 None,
    SC 218 58 56 3 True False 0 None, SC 219 58 56 4 True False 0 None,
    SC 220 59 57 1 True False 0 None, SC 221 59 57 2 True False 0 None,
    SC 222 59 57 3 True False 0 None, SC 223 59 57 4 True False 0 None,
    SC 224 60 58 1 True False 0 None, SC 225 60 58 2 True False 0 None,
    SC 226 60 58 3 True False 0 None, SC 227 60 58 4 True False 0 None,
    SC 228 61 59 1 True False 0 None, SC 229 61 59 2 True False 0 None,
    SC 230 61 59 3 True False 0 None, SC 231 61 59 4 True False 0 None,
    SC 232 62 60 1 True False 0 None, SC 233 62 60 2 True False 0 None,
    SC 234 62 60 3 True False 0 None]"

definition SIZE_CLASSES :: "sc_row list" where
  "SIZE_CLASSES = SIZE_CLASSES_0 @ SIZE_CLASSES_1 @ SIZE_CLASSES_2"

subsection \<open>The array of size classes\<close>

record SizeClassData =
  sc_block_size :: u32
  sc_sb_size :: u32
  sc_block_num :: u32
  sc_cache_block_num :: u32

definition get_block_num :: "SizeClassData \<Rightarrow> u32" where
  "get_block_num sc = sc_block_num sc"

text \<open>
  \<^verbatim>\<open>SIZE_CLASS_bin_yes\<close> yields an array element, \<^verbatim>\<open>SIZE_CLASS_bin_no\<close> yields nothing; the
  block size is computed in \<^verbatim>\<open>unsigned int\<close>.
\<close>

fun SC_block_size :: "sc_row \<Rightarrow> u32" where
  "SC_block_size (SC index lg_grp lg_delta ndelta psz bin pgs lg_delta_lookup) =
     push_bit lg_grp 1 + push_bit lg_delta (of_nat ndelta)"

fun SIZE_CLASS_bin :: "sc_row \<Rightarrow> SizeClassData list" where
  "SIZE_CLASS_bin (SC index lg_grp lg_delta ndelta psz bin pgs lg_delta_lookup) =
     (if bin then
        let bs = SC_block_size (SC index lg_grp lg_delta ndelta psz bin pgs lg_delta_lookup)
        in [\<lparr>sc_block_size = bs, sc_sb_size = ucast SBSIZE,
             sc_block_num = ucast (SBSIZE div ucast bs),
             sc_cache_block_num = ucast (SBSIZE div ucast bs)\<rparr>]
      else [])"

definition sizeclasses :: "SizeClassData list" where
  "sizeclasses =
     \<lparr>sc_block_size = 0, sc_sb_size = 0, sc_block_num = 0, sc_cache_block_num = 0\<rparr>
     # concat (map SIZE_CLASS_bin SIZE_CLASSES)"

definition get_sizeclass_by_idx :: "nat \<Rightarrow> SizeClassData" where
  "get_sizeclass_by_idx idx = sizeclasses ! idx"

subsection \<open>The lookup array\<close>

text \<open>The inner \<^verbatim>\<open>while\<close> loop, then the \<^verbatim>\<open>for\<close> loop over the class indices.\<close>

function lookup_while :: "nat \<Rightarrow> nat \<Rightarrow> nat \<Rightarrow> (nat \<Rightarrow> nat) \<Rightarrow> nat \<times> (nat \<Rightarrow> nat)" where
  "lookup_while block_size sc_idx lookupIdx tbl =
     (if lookupIdx \<le> block_size
      then lookup_while block_size sc_idx (Suc lookupIdx) (tbl(lookupIdx := sc_idx))
      else (lookupIdx, tbl))"
  by pat_completeness auto
termination
  by (relation "measure (\<lambda>(bs, sc, i, t). Suc bs - i)") auto

declare lookup_while.simps [simp del]

fun lookup_for :: "nat list \<Rightarrow> nat \<times> (nat \<Rightarrow> nat) \<Rightarrow> nat \<times> (nat \<Rightarrow> nat)" where
  "lookup_for [] st = st"
| "lookup_for (sc_idx # idxs) (lookupIdx, tbl) =
     lookup_for idxs
       (lookup_while (unat (sc_block_size (get_sizeclass_by_idx sc_idx))) sc_idx lookupIdx tbl)"

definition sizeclass_lookup :: "nat \<Rightarrow> nat" where
  "sizeclass_lookup = snd (lookup_for [1..<MAX_SZ_IDX] (0, \<lambda>_. 0))"

definition get_sizeclass :: "u64 \<Rightarrow> nat" where
  "get_sizeclass sz = sizeclass_lookup (unat sz)"

lemma lookup_while_eq:
  "lookup_while bs sc i t = (max i (Suc bs), \<lambda>j. if i \<le> j \<and> j \<le> bs then sc else t j)"
proof (induction bs sc i t rule: lookup_while.induct)
  case (1 bs sc i t)
  show ?case
  proof (cases "i \<le> bs")
    case True
    show ?thesis
      by (subst lookup_while.simps, simp only: True if_True "1.IH" [OF True])
        (use True in \<open>auto simp: fun_eq_iff\<close>)
  next
    case False
    then show ?thesis by (subst lookup_while.simps) (auto simp: fun_eq_iff)
  qed
qed

text \<open>The block size of a class as a number, and the classes in use.\<close>

definition bsz :: "nat \<Rightarrow> nat" where
  "bsz c = unat (sc_block_size (get_sizeclass_by_idx c))"

lemma lookup_for_eq:
  "snd (lookup_for cs (i, t)) j =
     (if j < i then t j
      else case find (\<lambda>c. j \<le> bsz c) cs of Some c \<Rightarrow> c | None \<Rightarrow> t j)"
proof (induction cs arbitrary: i t)
  case (Cons c cs)
  then show ?case
    by (auto simp: lookup_while_eq bsz_def [symmetric] max_def split: option.split)
qed simp

lemma sizeclass_lookup_eq:
  "sizeclass_lookup j =
     (case find (\<lambda>c. j \<le> bsz c) [1..<40] of Some c \<Rightarrow> c | None \<Rightarrow> 0)"
  by (simp add: sizeclass_lookup_def lookup_for_eq)

subsection \<open>The values of the table\<close>

definition SC_entry :: "nat \<times> nat \<Rightarrow> SizeClassData" where
  "SC_entry bn = \<lparr>sc_block_size = of_nat (fst bn), sc_sb_size = 65536,
     sc_block_num = of_nat (snd bn), sc_cache_block_num = of_nat (snd bn)\<rparr>"

definition class_table :: "(nat \<times> nat) list" where
  "class_table =
    [(8, 8192), (16, 4096), (24, 2730), (32, 2048), (40, 1638), (48, 1365), (56, 1170),
     (64, 1024), (80, 819), (96, 682), (112, 585), (128, 512), (160, 409), (192, 341),
     (224, 292), (256, 256), (320, 204), (384, 170), (448, 146), (512, 128), (640, 102),
     (768, 85), (896, 73), (1024, 64), (1280, 51), (1536, 42), (1792, 36), (2048, 32),
     (2560, 25), (3072, 21), (3584, 18), (4096, 16), (5120, 12), (6144, 10), (7168, 9),
     (8192, 8), (10240, 6), (12288, 5), (14336, 4)]"

lemma bins_0: "concat (map SIZE_CLASS_bin SIZE_CLASSES_0) = map SC_entry class_table"
  unfolding SIZE_CLASSES_0_def class_table_def SC_entry_def by (simp add: Let_def)

lemma bins_1: "concat (map SIZE_CLASS_bin SIZE_CLASSES_1) = []"
  unfolding SIZE_CLASSES_1_def by simp

lemma bins_2: "concat (map SIZE_CLASS_bin SIZE_CLASSES_2) = []"
  unfolding SIZE_CLASSES_2_def by simp

lemma sizeclasses_eq:
  "sizeclasses = \<lparr>sc_block_size = 0, sc_sb_size = 0, sc_block_num = 0, sc_cache_block_num = 0\<rparr>
     # map SC_entry class_table"
  unfolding sizeclasses_def SIZE_CLASSES_def by (simp add: bins_0 bins_1 bins_2)

lemma length_class_table: "length class_table = 39"
  by (simp add: class_table_def)

lemma length_sizeclasses [simp]: "length sizeclasses = 40"
  by (simp add: sizeclasses_eq length_class_table)

text \<open>The number of blocks of a superblock of class \<open>c\<close>.\<close>

definition bnum :: "nat \<Rightarrow> nat" where
  "bnum c = unat (sc_block_num (get_sizeclass_by_idx c))"

lemma class_table_facts:
  "list_all (\<lambda>(b, n). 8 \<le> b \<and> b \<le> 14336 \<and> b mod 8 = 0 \<and> 4 \<le> n \<and> n = 65536 div b) class_table"
  by (simp add: class_table_def)

lemma class_entry:
  assumes "1 \<le> c" and "c < 40"
  shows "get_sizeclass_by_idx c = SC_entry (class_table ! (c - 1))"
  using assms
  by (cases c) (simp_all add: get_sizeclass_by_idx_def sizeclasses_eq length_class_table)

lemma class_facts:
  assumes "1 \<le> c" and "c < 40"
  shows "8 \<le> bsz c" and "bsz c \<le> 14336" and "bsz c mod 8 = 0"
    and "4 \<le> bnum c" and "bnum c = 65536 div bsz c"
    and "(bsz c, bnum c) = class_table ! (c - 1)"
proof -
  obtain b n where bn: "class_table ! (c - 1) = (b, n)" by (cases "class_table ! (c - 1)")
  have "c - 1 < length class_table" using assms by (simp add: length_class_table)
  then have "(b, n) \<in> set class_table" using bn by (metis nth_mem)
  then have f: "8 \<le> b" "b \<le> 14336" "b mod 8 = 0" "4 \<le> n" "n = 65536 div b"
    using class_table_facts by (auto simp: list_all_iff)
  have "n \<le> 65536" using f(5) by simp
  then have "bsz c = b" and "bnum c = n"
    using f(2) class_entry [OF assms] bn
    by (simp_all add: bsz_def bnum_def SC_entry_def unat_of_nat32)
  with f bn show "8 \<le> bsz c" and "bsz c \<le> 14336" and "bsz c mod 8 = 0"
    and "4 \<le> bnum c" and "bnum c = 65536 div bsz c"
    and "(bsz c, bnum c) = class_table ! (c - 1)" by simp_all
qed

lemma class_uniform:
  assumes "1 \<le> c" and "c < 40"
  shows "sc_sb_size (get_sizeclass_by_idx c) = 65536"
    and "sc_cache_block_num (get_sizeclass_by_idx c) = sc_block_num (get_sizeclass_by_idx c)"
  by (simp_all add: class_entry [OF assms] SC_entry_def)

lemma bnum_bsz_le:
  assumes "1 \<le> c" and "c < 40"
  shows "bnum c * bsz c \<le> 65536"
  using class_facts(5) [OF assms] by (simp add: div_times_less_eq_dividend)

lemma bnum_le: "1 \<le> c \<Longrightarrow> c < 40 \<Longrightarrow> bnum c \<le> 8192"
  using class_facts(1,5) [of c] div_le_mono2 [of 8 "bsz c" 65536] by simp

lemma block_end_le:
  assumes "1 \<le> c" and "c < 40" and "k < bnum c"
  shows "k * bsz c + bsz c \<le> 65536"
proof -
  have "k * bsz c + bsz c = Suc k * bsz c" by simp
  also have "\<dots> \<le> bnum c * bsz c" using assms(3) by (intro mult_right_mono) auto
  also have "\<dots> \<le> 65536" using assms(1,2) by (rule bnum_bsz_le)
  finally show ?thesis .
qed

lemma bsz_39: "bsz 39 = 14336"
  using class_facts(6) [of 39] by (simp add: class_table_def)

subsection \<open>Best fit\<close>

lemma find_upt:
  assumes "find P [i..<j] = Some c"
  shows "P c \<and> i \<le> c \<and> c < j \<and> (\<forall>c'. i \<le> c' \<and> c' < c \<longrightarrow> \<not> P c')"
proof -
  from assms obtain k where "k < j - i" "P ([i..<j] ! k)" "c = [i..<j] ! k"
    "\<forall>k'<k. \<not> P ([i..<j] ! k')"
    by (auto simp: find_Some_iff)
  then have k: "k < j - i" "P c" "c = i + k" and less: "\<forall>k'<k. \<not> P (i + k')" by auto
  have "\<not> P c'" if "i \<le> c'" "c' < c" for c'
  proof -
    have "c' - i < k" and "i + (c' - i) = c'" using that k(3) by auto
    with less show ?thesis by metis
  qed
  with k show ?thesis by auto
qed

lemma sizeclass_lookup_best:
  assumes "n \<le> 14336"
  shows "1 \<le> sizeclass_lookup n \<and> sizeclass_lookup n < 40 \<and> n \<le> bsz (sizeclass_lookup n)
    \<and> (\<forall>c. 1 \<le> c \<and> c < sizeclass_lookup n \<longrightarrow> bsz c < n)"
proof -
  have "find (\<lambda>c. n \<le> bsz c) [1..<40] \<noteq> None"
    using assms bsz_39 by (auto simp: find_None_iff intro!: exI [of _ 39])
  then obtain c where c: "find (\<lambda>c. n \<le> bsz c) [1..<40] = Some c" by auto
  then have "sizeclass_lookup n = c" by (simp add: sizeclass_lookup_eq)
  with find_upt [OF c] show ?thesis by (auto simp: not_le)
qed

lemma sizeclass_lookup_beyond:
  assumes "14336 < n"
  shows "sizeclass_lookup n = 0"
proof -
  have "find (\<lambda>c. n \<le> bsz c) [1..<40] = None"
    using assms class_facts(2) by (fastforce simp: find_None_iff)
  then show ?thesis by (simp add: sizeclass_lookup_eq)
qed

text \<open>From 32 bytes on, consecutive classes are at most a factor of 5/4 apart.\<close>

lemma class_table_ratio:
  "list_all2 (\<lambda>(b, n) (b', n'). 4 * b' \<le> 5 * b) (butlast (drop 3 class_table)) (drop 4 class_table)"
  "list_all (\<lambda>(b, n). b \<le> 32) (take 4 class_table)"
  by (simp_all add: class_table_def)

lemma class_ratio:
  assumes "5 \<le> c" and "c < 40"
  shows "4 * bsz c \<le> 5 * bsz (c - 1)"
proof -
  have n: "c - 5 < length (drop 4 class_table)" using assms by (simp add: length_class_table)
  have "(case butlast (drop 3 class_table) ! (c - 5) of (b, n) \<Rightarrow> \<lambda>(b', n'). 4 * b' \<le> 5 * b)
      (drop 4 class_table ! (c - 5))"
    using class_table_ratio(1) n by (simp add: list_all2_conv_all_nth)
  moreover have "butlast (drop 3 class_table) ! (c - 5) = class_table ! (3 + (c - 5))"
    and "drop 4 class_table ! (c - 5) = class_table ! (4 + (c - 5))"
    using n by (simp_all add: nth_butlast length_class_table)
  moreover have "3 + (c - 5) = c - 1 - 1" and "4 + (c - 5) = c - 1" using assms by simp_all
  moreover have "(bsz c, bnum c) = class_table ! (c - 1)"
    by (rule class_facts(6)) (use assms in simp_all)
  moreover have "(bsz (c - 1), bnum (c - 1)) = class_table ! (c - 1 - 1)"
    by (rule class_facts(6)) (use assms in simp_all)
  ultimately have "(case (bsz (c - 1), bnum (c - 1)) of (b, n) \<Rightarrow> \<lambda>(b', n'). 4 * b' \<le> 5 * b)
      (bsz c, bnum c)"
    by metis
  then show ?thesis by simp
qed

lemma class_small: "1 \<le> c \<Longrightarrow> c \<le> 4 \<Longrightarrow> bsz c \<le> 32"
proof -
  assume c: "1 \<le> c" "c \<le> 4"
  have "take 4 class_table ! (c - 1) \<in> set (take 4 class_table)"
    by (rule nth_mem) (use c in \<open>simp add: length_class_table\<close>)
  then have "class_table ! (c - 1) \<in> set (take 4 class_table)" using c by simp
  then have "(bsz c, bnum c) \<in> set (take 4 class_table)"
    using class_facts(6) [of c] c by simp
  with class_table_ratio(2) show ?thesis by (auto simp: list_all_iff)
qed

subsection \<open>Properties\<close>

text \<open>
  C31. Best fit: every request of at most \<^verbatim>\<open>MAX_SZ\<close> bytes is mapped to a class between 1 and
  39 whose blocks are large enough, and every smaller class is too small; the constructor
  writes no entry of the lookup array beyond \<^verbatim>\<open>MAX_SZ\<close>.
\<close>

theorem get_sizeclass_best_fit:
  "(sz \<le> MAX_SZ \<longrightarrow>
      1 \<le> get_sizeclass sz \<and> get_sizeclass sz < MAX_SZ_IDX
      \<and> unat sz \<le> unat (sc_block_size (get_sizeclass_by_idx (get_sizeclass sz)))
      \<and> (\<forall>c. 1 \<le> c \<and> c < get_sizeclass sz \<longrightarrow>
             unat (sc_block_size (get_sizeclass_by_idx c)) < unat sz))
   \<and> (MAX_SZ < sz \<longrightarrow> get_sizeclass sz = 0)"
  using sizeclass_lookup_best [of "unat sz"] sizeclass_lookup_beyond [of "unat sz"]
  by (auto simp: get_sizeclass_def bsz_def word_le_nat_alt word_less_nat_alt)

theorem get_sizeclass_best_fit_witness:
  "1 \<le> get_sizeclass 100 \<and> 100 \<le> unat (sc_block_size (get_sizeclass_by_idx (get_sizeclass 100)))"
  using get_sizeclass_best_fit [of 100] by simp



text \<open>
  C33. Every class divides a superblock of \<^verbatim>\<open>SBSIZE\<close> bytes into as many blocks as fit, at
  least four; the blocks are multiples of 8 bytes, so each can hold the link of a free
  list, and a thread cache holds at most one superblock of blocks.
\<close>

theorem sizeclasses_wf:
  assumes "1 \<le> c" and "c < MAX_SZ_IDX"
  shows "let sc = get_sizeclass_by_idx c;
             bs = unat (sc_block_size sc); n = unat (get_block_num sc) in
    unat (sc_sb_size sc) = unat SBSIZE \<and> n * bs \<le> unat SBSIZE \<and> unat SBSIZE < Suc n * bs
    \<and> bs mod 8 = 0 \<and> 8 \<le> bs \<and> bs \<le> unat MAX_SZ \<and> 4 \<le> n \<and> sc_cache_block_num sc = get_block_num sc"
proof -
  from assms have c: "1 \<le> c" "c < 40" by simp_all
  have "65536 < Suc (bnum c) * bsz c"
    using class_facts(1,5) [OF c] dividend_less_div_times [of "bsz c" 65536] by simp
  then show ?thesis
    using class_facts [OF c] class_uniform [OF c] bnum_bsz_le [OF c]
    by (simp add: Let_def get_block_num_def bsz_def bnum_def)
qed

theorem sizeclasses_wf_witness:
  "unat (get_block_num (get_sizeclass_by_idx 3)) * unat (sc_block_size (get_sizeclass_by_idx 3))
    \<le> unat SBSIZE"
  using sizeclasses_wf [of 3] by (simp add: Let_def)

end
