(* ===== verification/Memory.thy ===== *)
theory Memory
  imports Pptr
begin

text \<open>
  The contents of the superblock region: a byte-addressed memory with little-endian 64-bit
  loads and stores, and the \<^verbatim>\<open>pptr\<close> cells the allocator keeps in the first eight bytes of a
  free block (\<^verbatim>\<open>*(pptr<char>*)block\<close>). \<open>linked m xs\<close> says that the cells of the blocks
  \<open>xs\<close> form a list in that order; what the cell of the last block holds is left open, as
  the allocator ends its lists by a count and not by a null pointer.
\<close>

type_synonym memory = "addr \<Rightarrow> byte"

definition load64 :: "memory \<Rightarrow> addr \<Rightarrow> u64" where
  "load64 m a =
     ucast (m a) OR push_bit 8 (ucast (m (a + 1))) OR push_bit 16 (ucast (m (a + 2)))
     OR push_bit 24 (ucast (m (a + 3))) OR push_bit 32 (ucast (m (a + 4)))
     OR push_bit 40 (ucast (m (a + 5))) OR push_bit 48 (ucast (m (a + 6)))
     OR push_bit 56 (ucast (m (a + 7)))"

definition store64 :: "memory \<Rightarrow> addr \<Rightarrow> u64 \<Rightarrow> memory" where
  "store64 m a v = m
     (a := ucast v, a + 1 := ucast (drop_bit 8 v), a + 2 := ucast (drop_bit 16 v),
      a + 3 := ucast (drop_bit 24 v), a + 4 := ucast (drop_bit 32 v),
      a + 5 := ucast (drop_bit 40 v), a + 6 := ucast (drop_bit 48 v),
      a + 7 := ucast (drop_bit 56 v))"

definition load_pptr :: "memory \<Rightarrow> addr \<Rightarrow> addr" where
  "load_pptr m a = pptr_get (load64 m a) a"

definition store_pptr :: "memory \<Rightarrow> addr \<Rightarrow> addr \<Rightarrow> memory" where
  "store_pptr m a v = store64 m a (pptr_assign v a)"

definition aligned8 :: "addr \<Rightarrow> bool" where
  "aligned8 a = (unat a mod 8 = 0)"

subsection \<open>Loads after stores\<close>

lemma take_bit_byte_step:
  "take_bit k (v :: u64) OR push_bit k (take_bit 8 (drop_bit k v)) = take_bit (k + 8) v"
  by (rule bit_word_eqI) (auto simp: bit_simps)

lemma ucast_byte: "(ucast (ucast (v :: u64) :: byte) :: u64) = take_bit 8 v"
  by (rule bit_word_eqI) (auto simp: bit_simps)

lemma load64_store64_same [simp]: "load64 (store64 m a v) a = v"
proof -
  have "load64 (store64 m a v) a =
    ((((((take_bit 8 v OR push_bit 8 (take_bit 8 (drop_bit 8 v)))
      OR push_bit 16 (take_bit 8 (drop_bit 16 v))) OR push_bit 24 (take_bit 8 (drop_bit 24 v)))
      OR push_bit 32 (take_bit 8 (drop_bit 32 v))) OR push_bit 40 (take_bit 8 (drop_bit 40 v)))
      OR push_bit 48 (take_bit 8 (drop_bit 48 v))) OR push_bit 56 (take_bit 8 (drop_bit 56 v))"
    unfolding load64_def store64_def by (simp add: ucast_byte or.assoc del: push_bit_take_bit take_bit_drop_bit)
  also have "\<dots> = take_bit 64 v"
    using take_bit_byte_step [of 8 v] take_bit_byte_step [of 16 v] take_bit_byte_step [of 24 v]
      take_bit_byte_step [of 32 v] take_bit_byte_step [of 40 v] take_bit_byte_step [of 48 v]
      take_bit_byte_step [of 56 v]
    by (simp only: numeral_plus_numeral add_num_simps)
  also have "\<dots> = v" by (rule take_bit_word_beyond_length_eq) simp
  finally show ?thesis .
qed

text \<open>Two aligned words either coincide or have no byte in common.\<close>

lemma aligned8_bytes:
  assumes "aligned8 a" and "i < 8"
  shows "unat (a + of_nat i) = unat a + i"
proof (rule unat_offset)
  have "unat a = 8 * (unat a div 8)" using assms(1) by (auto simp: aligned8_def)
  moreover have "unat a < 18446744073709551616" by simp
  ultimately have "unat a \<le> 18446744073709551608" by arith
  with assms(2) show "unat a + i < 2 ^ 64" by simp
qed

lemma aligned8_disjoint:
  assumes "aligned8 a" and "aligned8 b" and "a \<noteq> b" and "i < 8" and "j < 8"
  shows "a + of_nat i \<noteq> b + of_nat j"
proof
  assume "a + of_nat i = b + of_nat j"
  then have "unat (a + of_nat i) = unat (b + of_nat j)" by (rule arg_cong)
  then have "unat a + i = unat b + j"
    by (simp only: aligned8_bytes [OF assms(1,4)] aligned8_bytes [OF assms(2,5)])
  moreover obtain q r where q: "unat a = 8 * q" and r: "unat b = 8 * r"
    using assms(1,2) unfolding aligned8_def by (metis mod_0_imp_dvd dvdE)
  ultimately have "8 * q + i = 8 * r + j" by simp
  with assms(4,5) have "q = r" by linarith
  with q r have "unat a = unat b" by simp
  with assms(3) show False by (simp add: word_unat_eq_iff)
qed

lemma store64_other:
  assumes "\<And>i. i < 8 \<Longrightarrow> b \<noteq> a + of_nat i"
  shows "store64 m a v b = m b"
  using assms [of 0] assms [of 1] assms [of 2] assms [of 3] assms [of 4] assms [of 5]
    assms [of 6] assms [of 7]
  by (simp add: store64_def)

lemma load64_cong:
  assumes "\<And>i. i < 8 \<Longrightarrow> m (a + of_nat i) = m' (a + of_nat i)"
  shows "load64 m a = load64 m' a"
  using assms [of 0] assms [of 1] assms [of 2] assms [of 3] assms [of 4] assms [of 5]
    assms [of 6] assms [of 7]
  by (simp add: load64_def)

lemma load64_store64_other:
  assumes "aligned8 a" and "aligned8 b" and "a \<noteq> b"
  shows "load64 (store64 m a v) b = load64 m b"
proof (rule load64_cong, rule store64_other)
  fix i j :: nat
  assume "i < 8" "j < 8"
  then show "b + of_nat i \<noteq> a + of_nat j"
    using aligned8_disjoint [OF assms(2,1)] assms(3) by simp
qed

lemma load_store_pptr_same:
  assumes "near v a"
  shows "load_pptr (store_pptr m a v) a = v"
  using assms by (simp add: load_pptr_def store_pptr_def pptr_get_def pptr_assign_def)

lemma load_store_pptr_other:
  assumes "aligned8 a" and "aligned8 b" and "a \<noteq> b"
  shows "load_pptr (store_pptr m a v) b = load_pptr m b"
  using assms by (simp add: load_pptr_def store_pptr_def load64_store64_other)

lemma load_pptr_cong:
  assumes "\<And>i. i < 8 \<Longrightarrow> m (a + of_nat i) = m' (a + of_nat i)"
  shows "load_pptr m a = load_pptr m' a"
  using load64_cong [of m a m'] assms by (simp add: load_pptr_def)

subsection \<open>Linked blocks\<close>

fun linked :: "memory \<Rightarrow> addr list \<Rightarrow> bool" where
  "linked m [] = True"
| "linked m [x] = True"
| "linked m (x # y # ys) = (load_pptr m x = y \<and> linked m (y # ys))"

lemma linked_Cons: "linked m (x # xs) \<longleftrightarrow> (xs = [] \<or> load_pptr m x = hd xs) \<and> linked m xs"
  by (cases xs) auto

lemma linked_cong:
  assumes "\<And>x. x \<in> set (butlast xs) \<Longrightarrow> load_pptr m x = load_pptr m' x"
  shows "linked m xs = linked m' xs"
  using assms by (induction xs rule: induct_list012) auto

lemma linked_append:
  "linked m (xs @ ys) \<longleftrightarrow>
     linked m xs \<and> linked m ys \<and> (xs \<noteq> [] \<and> ys \<noteq> [] \<longrightarrow> load_pptr m (last xs) = hd ys)"
proof (induction xs)
  case (Cons x xs)
  then show ?case by (cases xs) (auto simp: linked_Cons)
qed simp

lemma linked_store_other:
  assumes "aligned8 a" and "\<And>x. x \<in> set (butlast xs) \<Longrightarrow> aligned8 x" and "a \<notin> set (butlast xs)"
  shows "linked (store_pptr m a v) xs = linked m xs"
  using assms by (intro linked_cong load_store_pptr_other) auto

subsection \<open>Blocks of memory\<close>

text \<open>The bytes of a block, given by its address and its size.\<close>

definition bytes :: "addr \<times> nat \<Rightarrow> addr set" where
  "bytes b = {fst b + of_nat j | j. j < snd b}"

end
