(* ===== verification/Lifo.thy ===== *)
theory Lifo
  imports Prelude
begin

text \<open>
  The contract of an intrusive stack: the nodes are linked through cells of their own, so a
  push may only add a node that is not linked yet. The thread caches (linked through the
  free blocks) and the partial lists (linked through the descriptors) are such stacks.
\<close>

locale lifo =
  fixes rep :: "'s \<Rightarrow> 'a list \<Rightarrow> bool"
    and ok :: "'a \<Rightarrow> 'a list \<Rightarrow> 's \<Rightarrow> bool"
    and push :: "'a \<Rightarrow> 's \<Rightarrow> 's res"
    and pop :: "'s \<Rightarrow> ('a \<times> 's) res"
  assumes push_rep: "rep s xs \<Longrightarrow> ok x xs s \<Longrightarrow> \<exists>s'. push x s = Inr s' \<and> rep s' (x # xs)"
    and pop_rep: "rep s (x # xs) \<Longrightarrow> \<exists>s'. pop s = Inr (x, s') \<and> rep s' xs"
begin

fun pop_n :: "nat \<Rightarrow> 's \<Rightarrow> ('a list \<times> 's) res" where
  "pop_n 0 s = Inr ([], s)"
| "pop_n (Suc n) s =
     rbind (pop s) (\<lambda>(x, s'). rbind (pop_n n s') (\<lambda>(xs, s''). Inr (x # xs, s'')))"

text \<open>What was pushed last is popped first, and the stack is as before.\<close>

lemma push_pop:
  assumes "rep s xs" and "ok x xs s"
  shows "\<exists>s' s''. push x s = Inr s' \<and> pop s' = Inr (x, s'') \<and> rep s'' xs"
  using push_rep [OF assms] pop_rep by metis

text \<open>Popping returns the nodes in the order of the list and never fails before its end.\<close>

lemma pop_n_rep:
  assumes "rep s xs" and "n \<le> length xs"
  shows "\<exists>s'. pop_n n s = Inr (take n xs, s') \<and> rep s' (drop n xs)"
  using assms
proof (induction n arbitrary: s xs)
  case (Suc n)
  then obtain x ys where xs: "xs = x # ys" by (cases xs) auto
  obtain s1 where s1: "pop s = Inr (x, s1)" "rep s1 ys" using pop_rep Suc.prems(1) xs by blast
  then show ?case using Suc.IH [OF s1(2)] Suc.prems(2) xs by auto
qed simp

lemma pop_n_push:
  assumes "rep s xs" and "ok x xs s" and "n \<le> length xs"
  shows "\<exists>s' s''. push x s = Inr s' \<and> pop_n (Suc n) s' = Inr (x # take n xs, s'') \<and> rep s'' (drop n xs)"
  using push_rep [OF assms(1,2)] pop_n_rep [of _ "x # xs" "Suc n"] assms(3) by fastforce

end

end
