(* ===== verification/TCache.thy ===== *)
theory TCache
  imports Memory Lifo
begin

text \<open>
  The thread caches of \<^verbatim>\<open>src/src/TCache.hpp\<close> and \<^verbatim>\<open>TCache.cpp\<close>: per size class a list of
  free blocks, whose head is an absolute address and whose links are \<^verbatim>\<open>pptr\<close> cells in the
  blocks. The end of the list is known by the count, not by a null link.
\<close>

record TCacheBin =
  tc_block :: addr
  tc_block_num :: u32

definition new_TCacheBin :: TCacheBin where
  "new_TCacheBin = \<lparr>tc_block = 0, tc_block_num = 0\<rparr>"

definition get_cache_block_num :: "TCacheBin \<Rightarrow> u32" where
  "get_cache_block_num c = tc_block_num c"

definition peek_block :: "TCacheBin \<Rightarrow> addr" where
  "peek_block c = tc_block c"

definition push_block :: "addr \<Rightarrow> memory \<times> TCacheBin \<Rightarrow> memory \<times> TCacheBin" where
  "push_block block st = (case st of (m, c) \<Rightarrow>
     (store_pptr m block (tc_block c), \<lparr>tc_block = block, tc_block_num = tc_block_num c + 1\<rparr>))"

definition push_list :: "addr \<Rightarrow> u32 \<Rightarrow> TCacheBin \<Rightarrow> TCacheBin res" where
  "push_list block len c =
     check (tc_block_num c = 0) ''_block_num == 0'' (Inr \<lparr>tc_block = block, tc_block_num = len\<rparr>)"

definition pop_block :: "memory \<Rightarrow> TCacheBin \<Rightarrow> (addr \<times> TCacheBin) res" where
  "pop_block m c =
     check (tc_block_num c > 0) ''_block_num > 0''
       (let ret = tc_block c; nxt = load_pptr m ret
        in Inr (ret, \<lparr>tc_block = nxt, tc_block_num = tc_block_num c - 1\<rparr>))"

definition pop_list :: "addr \<Rightarrow> u32 \<Rightarrow> TCacheBin \<Rightarrow> TCacheBin res" where
  "pop_list block len c =
     check (tc_block_num c \<ge> len) ''_block_num >= length''
       (Inr \<lparr>tc_block = block, tc_block_num = tc_block_num c - len\<rparr>)"

subsection \<open>The list a cache holds\<close>

text \<open>Blocks are 8-byte aligned user-space addresses, so any two are near each other.\<close>

definition block_addr :: "addr \<Rightarrow> bool" where
  "block_addr a = (aligned8 a \<and> a \<noteq> 0 \<and> unat a < 2 ^ 47)"

definition cache_rep :: "memory \<times> TCacheBin \<Rightarrow> addr list \<Rightarrow> bool" where
  "cache_rep st xs = (case st of (m, c) \<Rightarrow>
     length xs < 2 ^ 31 \<and> unat (tc_block_num c) = length xs
     \<and> (xs \<noteq> [] \<longrightarrow> tc_block c = hd xs)
     \<and> linked m xs \<and> distinct xs \<and> (\<forall>x \<in> set xs. block_addr x))"

definition cache_ok :: "addr \<Rightarrow> addr list \<Rightarrow> memory \<times> TCacheBin \<Rightarrow> bool" where
  "cache_ok x xs st = (block_addr x \<and> x \<notin> set xs \<and> length xs < 2 ^ 31 - 1)"

lemma block_addr_near: "block_addr a \<Longrightarrow> block_addr b \<Longrightarrow> near a b"
  by (simp add: block_addr_def near_iff)

lemma cache_rep_Nil [simp]: "cache_rep (m, c) [] \<longleftrightarrow> tc_block_num c = 0"
  by (simp add: cache_rep_def unsigned_eq_0_iff)

lemma cache_rep_new: "cache_rep (m, new_TCacheBin) []"
  by (simp add: new_TCacheBin_def)

lemma cache_rep_push:
  assumes rep: "cache_rep (m, c) xs" and x: "cache_ok x xs (m, c)"
  shows "cache_rep (push_block x (m, c)) (x # xs)"
proof -
  have num: "unat (tc_block_num c + 1) = Suc (length xs)"
    using rep x unat_suc32 [of "tc_block_num c"] by (simp add: cache_rep_def cache_ok_def)
  have al: "aligned8 x" using x by (simp add: cache_ok_def block_addr_def)
  have "linked (store_pptr m x (tc_block c)) xs = linked m xs"
    by (rule linked_store_other [OF al])
      (use rep x in \<open>auto simp: cache_rep_def cache_ok_def block_addr_def dest: in_set_butlastD\<close>)
  moreover have "load_pptr (store_pptr m x (tc_block c)) x = hd xs" if "xs \<noteq> []"
  proof -
    have "block_addr (hd xs)" and "tc_block c = hd xs" and "block_addr x"
      using rep x that by (auto simp: cache_rep_def cache_ok_def)
    then show ?thesis using block_addr_near [of "hd xs" x] by (simp add: load_store_pptr_same)
  qed
  ultimately have "linked (store_pptr m x (tc_block c)) (x # xs)"
    using rep by (cases "xs = []") (simp_all add: linked_Cons cache_rep_def)
  then show ?thesis
    using rep x num by (simp add: cache_rep_def cache_ok_def push_block_def)
qed

lemma cache_rep_pop:
  assumes "cache_rep (m, c) (x # xs)"
  shows "\<exists>c'. pop_block m c = Inr (x, c') \<and> cache_rep (m, c') xs"
proof -
  have pos: "0 < tc_block_num c" using assms by (simp add: cache_rep_def word_less_nat_alt)
  have "unat (tc_block_num c - 1) = unat (tc_block_num c) - 1"
    by (rule unat_minus_one) (use pos in simp)
  then have "unat (tc_block_num c - 1) = length xs" using assms by (simp add: cache_rep_def)
  then show ?thesis
    using assms pos by (auto simp: cache_rep_def pop_block_def linked_Cons Let_def)
qed

lemma cache_rep_take_all:
  assumes "cache_rep (m, c) []" and "length xs < 2 ^ 31" and "linked m xs" and "distinct xs"
    and "xs \<noteq> []" and "\<forall>x \<in> set xs. block_addr x" and "unat n = length xs"
  shows "\<exists>c'. push_list (hd xs) n c = Inr c' \<and> cache_rep (m, c') xs"
  using assms by (simp add: cache_rep_def push_list_def unsigned_eq_0_iff)

lemma cache_rep_pop_list:
  assumes "cache_rep (m, c) (xs @ ys)" and "xs \<noteq> []" and "unat n = length xs"
  shows "\<exists>c'. pop_list (load_pptr m (last xs)) n c = Inr c' \<and> cache_rep (m, c') ys"
proof -
  have le: "n \<le> tc_block_num c" using assms by (simp add: cache_rep_def word_le_nat_alt)
  then have "unat (tc_block_num c - n) = length ys"
    using assms by (simp add: cache_rep_def unat_sub)
  then show ?thesis
    using assms le by (auto simp: cache_rep_def pop_list_def linked_append)
qed

text \<open>A write outside the cells of the list leaves it alone.\<close>

lemma cache_rep_frame:
  assumes "cache_rep (m, c) xs" and "\<And>x. x \<in> set xs \<Longrightarrow> load_pptr m' x = load_pptr m x"
  shows "cache_rep (m', c) xs"
proof -
  have "linked m' xs = linked m xs"
    by (rule linked_cong) (auto simp: assms(2) dest: in_set_butlastD)
  then show ?thesis using assms(1) by (simp add: cache_rep_def)
qed

interpretation tcache: lifo cache_rep cache_ok "\<lambda>x st. Inr (push_block x st)"
  "\<lambda>st. rbind (pop_block (fst st) (snd st)) (\<lambda>(x, c). Inr (x, (fst st, c)))"
proof
  fix s :: "memory \<times> TCacheBin" and x xs
  show "\<exists>s'. (Inr (push_block x s) :: (memory \<times> TCacheBin) res) = Inr s' \<and> cache_rep s' (x # xs)"
    if "cache_rep s xs" "cache_ok x xs s"
    using that cache_rep_push by (cases s) simp
  show "\<exists>s'. rbind (pop_block (fst s) (snd s)) (\<lambda>(x, c). Inr (x, (fst s, c))) = Inr (x, s')
      \<and> cache_rep s' xs"
    if "cache_rep s (x # xs)"
    using that cache_rep_pop by (cases s) fastforce
qed

subsection \<open>Property\<close>

text \<open>
  A thread cache is a stack of blocks: a block freed into a cache that holds the list
  \<open>xs\<close> is the next one allocated from it, and the cache then holds \<open>xs\<close> again, although
  the links live in the blocks themselves.
\<close>

theorem cache_push_pop:
  assumes "cache_rep (m, c) xs" and "cache_ok x xs (m, c)"
  shows "case push_block x (m, c) of (m', c') \<Rightarrow>
    get_cache_block_num c' = get_cache_block_num c + 1
    \<and> (\<exists>c''. pop_block m' c' = Inr (x, c'') \<and> cache_rep (m', c'') xs)"
  using tcache.push_pop [OF assms]
  by (auto simp: push_block_def get_cache_block_num_def rbind_eq_Inr split: prod.splits)

theorem cache_push_pop_witness:
  "case push_block 0x10000 ((\<lambda>_. 0), new_TCacheBin) of (m', c') \<Rightarrow>
    get_cache_block_num c' = 1 \<and> (\<exists>c''. pop_block m' c' = Inr (0x10000, c'') \<and> cache_rep (m', c'') [])"
  using cache_push_pop [OF cache_rep_new, of "0x10000" "\<lambda>_. 0"]
  by (simp add: cache_ok_def block_addr_def aligned8_def get_cache_block_num_def new_TCacheBin_def
      split: prod.splits)

end
