(* ===== verification/BaseMeta.thy ===== *)
theory BaseMeta
  imports CrossPtr SizeClass TCache
begin

text \<open>
  The heap metadata of \<^verbatim>\<open>src/src/BaseMeta.hpp\<close> and \<^verbatim>\<open>BaseMeta.cpp\<close>: descriptors, the list of
  unused superblocks, the partial lists of the size classes, and the operations that
  allocate and free blocks. One operation runs from its start to its end here, on behalf of
  a thread \<open>t\<close>; each of its compare-and-swap loops is written out, so that the loop's body,
  its exchange and its exit are those of the code.
\<close>

subsection \<open>Descriptors\<close>

datatype SuperblockState = SB_ERROR | SB_FULL | SB_PARTIAL | SB_EMPTY

text \<open>The bit fields \<^verbatim>\<open>avail:31, count:31, state:2\<close>.\<close>

record Anchor =
  avail :: "31 word"
  count :: "31 word"
  sb_state :: SuperblockState

definition anchor_zero :: Anchor where
  "anchor_zero = \<lparr>avail = 0, count = 0, sb_state = SB_ERROR\<rparr>"

text \<open>
  A descriptor; \<open>d_next_free\<close> and \<open>d_next_partial\<close> are \<^verbatim>\<open>atomic_pptr\<close> words relative to the
  addresses of these fields (0 and 8 bytes into the descriptor), \<open>d_superblock\<close> and
  \<open>d_heap\<close> are \<^verbatim>\<open>CrossPtr\<close> words.
\<close>

record Descriptor =
  d_next_free :: u64
  d_next_partial :: u64
  d_anchor :: Anchor
  d_superblock :: u64
  d_heap :: u64
  d_block_size :: u32
  d_maxcount :: u32

definition new_Descriptor :: "addr \<Rightarrow> Descriptor" where
  "new_Descriptor p = \<lparr>d_next_free = atomic_pptr_store 0 p, d_next_partial = atomic_pptr_store 0 (p + 8),
     d_anchor = anchor_zero, d_superblock = 0, d_heap = 0, d_block_size = 0, d_maxcount = 0\<rparr>"

record ProcHeap =
  h_partial_list :: u64
  h_sc_idx :: u64

subsection \<open>The state\<close>

text \<open>
  The robust mutex of the C library that serves as the dirty flag, as POSIX describes it:
  unlocked, held by a process that runs, left behind by an owner that died (as the kernel marks
  it), acquired from such an owner and not yet made consistent, released in that state, or not a
  mutex. \<^verbatim>\<open>EAGAIN\<close> is for recursive mutexes only and not returned for this one.
\<close>

datatype mutex =
  Mtx_free | Mtx_held | Mtx_owner_dead | Mtx_inconsistent | Mtx_unrecoverable | Mtx_invalid

datatype trylock_code = Lock_ok | EBUSY | EAGAIN | EOWNERDEAD | EINVAL | ENOTRECOVERABLE

fun mutex_trylock :: "mutex \<Rightarrow> trylock_code \<times> mutex" where
  "mutex_trylock Mtx_free = (Lock_ok, Mtx_held)"
| "mutex_trylock Mtx_held = (EBUSY, Mtx_held)"
| "mutex_trylock Mtx_owner_dead = (EOWNERDEAD, Mtx_inconsistent)"
| "mutex_trylock Mtx_inconsistent = (EBUSY, Mtx_inconsistent)"
| "mutex_trylock Mtx_unrecoverable = (ENOTRECOVERABLE, Mtx_unrecoverable)"
| "mutex_trylock Mtx_invalid = (EINVAL, Mtx_invalid)"

fun mutex_consistent :: "mutex \<Rightarrow> mutex" where
  "mutex_consistent Mtx_inconsistent = Mtx_held"
| "mutex_consistent mx = mx"

fun mutex_unlock :: "mutex \<Rightarrow> mutex" where
  "mutex_unlock Mtx_held = Mtx_free"
| "mutex_unlock Mtx_inconsistent = Mtx_unrecoverable"
| "mutex_unlock mx = mx"

text \<open>
  What has reached persistent memory for certain. A flush schedules the write-back of a
  cache line with its contents at that moment; a fence waits for all scheduled ones.
\<close>

datatype wline =
    WDesc addr Descriptor
  | WAvail u64
  | WHeap addr ProcHeap
  | WRoots nat "nat \<Rightarrow> u64"

record pmem =
  pm_descs :: "addr \<Rightarrow> Descriptor"
  pm_avail :: u64
  pm_heaps :: "addr \<Rightarrow> ProcHeap"
  pm_roots :: "nat \<Rightarrow> u64"

text \<open>
  The state of a process: the regions and the structures that live in them, the memory of
  the superblock region, the thread caches, and the types recorded for the roots, by which
  the collector chooses filter functions. \<open>pm\<close> and \<open>wb\<close> are the persistent image and the
  write-backs in flight.
\<close>

record ralloc_state =
  rgs :: Regions
  descs :: "addr \<Rightarrow> Descriptor"
  avail_sb :: u64
  heaps :: "addr \<Rightarrow> ProcHeap"
  roots :: "nat \<Rightarrow> u64"
  dirty_mtx :: mutex
  mem :: memory
  t_caches :: "nat \<Rightarrow> nat \<Rightarrow> TCacheBin"
  roots_filter_func :: "nat \<Rightarrow> nat option"
  pm :: pmem
  wb :: "wline list"

fun write_line :: "wline \<Rightarrow> pmem \<Rightarrow> pmem" where
  "write_line (WDesc d v) p = p\<lparr>pm_descs := (pm_descs p)(d := v)\<rparr>"
| "write_line (WAvail v) p = p\<lparr>pm_avail := v\<rparr>"
| "write_line (WHeap a v) p = p\<lparr>pm_heaps := (pm_heaps p)(a := v)\<rparr>"
| "write_line (WRoots k v) p = p\<lparr>pm_roots := (\<lambda>i. if i div 8 = k then v i else pm_roots p i)\<rparr>"

definition FLUSHFENCE :: "ralloc_state \<Rightarrow> ralloc_state" where
  "FLUSHFENCE s = s\<lparr>pm := foldr write_line (wb s) (pm s), wb := []\<rparr>"

definition flush_desc :: "addr \<Rightarrow> ralloc_state \<Rightarrow> ralloc_state" where
  "flush_desc d s = s\<lparr>wb := WDesc d (descs s d) # wb s\<rparr>"

definition flush_root :: "nat \<Rightarrow> ralloc_state \<Rightarrow> ralloc_state" where
  "flush_root i s = s\<lparr>wb := WRoots (i div 8) (roots s) # wb s\<rparr>"

definition flush_heap :: "addr \<Rightarrow> ralloc_state \<Rightarrow> ralloc_state" where
  "flush_heap h s = s\<lparr>wb := WHeap h (heaps s h) # wb s\<rparr>"

definition flush_avail :: "ralloc_state \<Rightarrow> ralloc_state" where
  "flush_avail s = s\<lparr>wb := WAvail (avail_sb s) # wb s\<rparr>"

subsection \<open>Layout of \<^verbatim>\<open>BaseMeta\<close>\<close>

text \<open>
  \<^verbatim>\<open>avail_sb\<close> and the mutex are in the first cache line of \<^verbatim>\<open>BaseMeta\<close>, then come the 40
  heaps with one line each, then the 1024 roots, eight to a line: 169 lines in all.
\<close>

definition heap_addr :: "addr \<Rightarrow> nat \<Rightarrow> addr" where
  "heap_addr base i = base + 64 + 64 * of_nat i"

definition base_md :: "ralloc_state \<Rightarrow> addr" where
  "base_md s = lookup (rgs s) META_IDX"

definition sizeof_BaseMeta :: nat where
  "sizeof_BaseMeta = 10816"

definition flush_meta_line :: "addr \<Rightarrow> addr \<Rightarrow> ralloc_state \<Rightarrow> ralloc_state" where
  "flush_meta_line base a s =
     (let k = unat (a - base) div 64 in
      if k = 0 then flush_avail s
      else if k \<le> 40 then flush_heap (heap_addr base (k - 1)) s
      else if k \<le> 168 then flush_root (8 * (k - 41)) s
      else s)"

subsection \<open>Access to descriptors and heaps\<close>

definition desc_lookup :: "ralloc_state \<Rightarrow> addr \<Rightarrow> addr" where
  "desc_lookup s ptr =
     (let sb_index = drop_bit SB_SHIFT ptr - drop_bit SB_SHIFT (lookup (rgs s) SB_IDX)
      in lookup (rgs s) DESC_IDX + 64 * sb_index)"

definition sb_lookup :: "ralloc_state \<Rightarrow> addr \<Rightarrow> addr" where
  "sb_lookup s desc =
     (let desc_index = drop_bit DESC_SHIFT desc - drop_bit DESC_SHIFT (lookup (rgs s) DESC_IDX)
      in lookup (rgs s) SB_IDX + push_bit SB_SHIFT desc_index)"

definition set_desc :: "addr \<Rightarrow> (Descriptor \<Rightarrow> Descriptor) \<Rightarrow> ralloc_state \<Rightarrow> ralloc_state" where
  "set_desc d f s = s\<lparr>descs := (descs s)(d := f (descs s d))\<rparr>"

definition load_next_free :: "ralloc_state \<Rightarrow> addr \<Rightarrow> addr" where
  "load_next_free s d = atomic_pptr_load (d_next_free (descs s d)) d"

definition store_next_free :: "addr \<Rightarrow> addr \<Rightarrow> ralloc_state \<Rightarrow> ralloc_state" where
  "store_next_free d v = set_desc d (d_next_free_update (\<lambda>_. atomic_pptr_store v d))"

definition load_next_partial :: "ralloc_state \<Rightarrow> addr \<Rightarrow> addr" where
  "load_next_partial s d = atomic_pptr_load (d_next_partial (descs s d)) (d + 8)"

definition store_next_partial :: "addr \<Rightarrow> addr \<Rightarrow> ralloc_state \<Rightarrow> ralloc_state" where
  "store_next_partial d v = set_desc d (d_next_partial_update (\<lambda>_. atomic_pptr_store v (d + 8)))"

text \<open>\<^verbatim>\<open>new (desc) Descriptor()\<close>: the constructor flushes the line and fences.\<close>

definition construct_desc :: "addr \<Rightarrow> ralloc_state \<Rightarrow> ralloc_state" where
  "construct_desc d s = FLUSHFENCE (flush_desc d (set_desc d (\<lambda>_. new_Descriptor d) s))"

definition avail_sb_load :: "ralloc_state \<Rightarrow> ptr_cnt" where
  "avail_sb_load s = acp_load (rgs s) DESC_IDX (avail_sb s)"

definition avail_sb_cas :: "ptr_cnt \<Rightarrow> ptr_cnt \<Rightarrow> ralloc_state \<Rightarrow> bool \<times> ptr_cnt \<times> ralloc_state" where
  "avail_sb_cas old new s = (case acp_cas (rgs s) DESC_IDX (avail_sb s) old new of
     (ok, old', w) \<Rightarrow> (ok, old', s\<lparr>avail_sb := w\<rparr>))"

definition partial_list_load :: "addr \<Rightarrow> ralloc_state \<Rightarrow> ptr_cnt" where
  "partial_list_load h s = acp_load (rgs s) DESC_IDX (h_partial_list (heaps s h))"

definition partial_list_cas ::
    "addr \<Rightarrow> ptr_cnt \<Rightarrow> ptr_cnt \<Rightarrow> ralloc_state \<Rightarrow> bool \<times> ptr_cnt \<times> ralloc_state" where
  "partial_list_cas h old new s =
     (case acp_cas (rgs s) DESC_IDX (h_partial_list (heaps s h)) old new of
       (ok, old', w) \<Rightarrow> (ok, old', s\<lparr>heaps := (heaps s)(h := (heaps s h)\<lparr>h_partial_list := w\<rparr>)\<rparr>))"

definition anchor_cas ::
    "addr \<Rightarrow> Anchor \<Rightarrow> Anchor \<Rightarrow> ralloc_state \<Rightarrow> bool \<times> Anchor \<times> ralloc_state" where
  "anchor_cas d old new s =
     (if d_anchor (descs s d) = old then (True, old, set_desc d (d_anchor_update (\<lambda>_. new)) s)
      else (False, d_anchor (descs s d), s))"

subsection \<open>Partial lists\<close>

definition heap_push_partial :: "addr \<Rightarrow> ralloc_state \<Rightarrow> ralloc_state res" where
  "heap_push_partial desc s =
     (let heap = cross_get (rgs s) META_IDX (d_heap (descs s desc));
          oldhead = partial_list_load heap s
      in rbind (cas_loop CAS_FUEL
           (\<lambda>oldhead s.
              let newhead = \<lparr>pc_ptr = desc, pc_cnt = pc_cnt oldhead + 1\<rparr> in
              check (pc_ptr oldhead \<noteq> pc_ptr newhead) ''oldhead.get_ptr() != newhead.get_ptr()''
                (Inr (newhead, store_next_partial (pc_ptr newhead) (pc_ptr oldhead) s)))
           (partial_list_cas heap) oldhead s)
         (\<lambda>(oldhead, newhead, s'). Inr s'))"

fun heap_pop_loop :: "nat \<Rightarrow> addr \<Rightarrow> ptr_cnt \<Rightarrow> ralloc_state \<Rightarrow> (addr \<times> ralloc_state) res" where
  "heap_pop_loop 0 heap oldhead s = Inl OutOfFuel"
| "heap_pop_loop (Suc n) heap oldhead s =
     (let olddesc = pc_ptr oldhead in
      if olddesc = 0 then Inr (0, s)
      else
        let desc = load_next_partial s olddesc;
            newhead = \<lparr>pc_ptr = desc, pc_cnt = pc_cnt oldhead\<rparr>
        in case partial_list_cas heap oldhead newhead s of
             (ok, oldhead', s') \<Rightarrow>
               if ok then Inr (pc_ptr oldhead, s') else heap_pop_loop n heap oldhead' s')"

definition heap_pop_partial :: "addr \<Rightarrow> ralloc_state \<Rightarrow> (addr \<times> ralloc_state) res" where
  "heap_pop_partial heap s = heap_pop_loop CAS_FUEL heap (partial_list_load heap s) s"

subsection \<open>Superblocks\<close>

text \<open>The descriptors from \<open>desc\<close> on are constructed and linked, \<open>n\<close> after the first.\<close>

fun organize_loop :: "nat \<Rightarrow> addr \<Rightarrow> ralloc_state \<Rightarrow> addr \<times> ralloc_state" where
  "organize_loop 0 desc s = (desc, s)"
| "organize_loop (Suc n) desc s =
     organize_loop n (desc + 64) (construct_desc (desc + 64) (store_next_free desc (desc + 64) s))"

definition organize_sb_list :: "addr \<Rightarrow> u64 \<Rightarrow> ralloc_state \<Rightarrow> ralloc_state res" where
  "organize_sb_list start cnt s =
     (let desc_start = desc_lookup s start;
          s1 = construct_desc desc_start s
      in case organize_loop (unat cnt - 1) desc_start s1 of (desc, s2) \<Rightarrow>
         rbind (cas_loop CAS_FUEL
           (\<lambda>oldhead s. Inr (\<lparr>pc_ptr = desc_start, pc_cnt = pc_cnt oldhead + 1\<rparr>,
                             store_next_free desc (pc_ptr oldhead) s))
           avail_sb_cas (avail_sb_load s2) s2)
         (\<lambda>(oldhead, newhead, s'). Inr s'))"

definition sb_region :: "ralloc_state \<Rightarrow> RegionManager" where
  "sb_region s = regions (rgs s) (ridx SB_IDX)"

definition set_sb_region :: "RegionManager \<Rightarrow> ralloc_state \<Rightarrow> ralloc_state" where
  "set_sb_region rm s = s\<lparr>rgs := (rgs s)\<lparr>regions := (regions (rgs s))(ridx SB_IDX := rm)\<rparr>\<rparr>"

text \<open>
  The loop of \<^verbatim>\<open>small_sb_alloc\<close>. The two \<^verbatim>\<open>continue\<close> paths keep the local \<^verbatim>\<open>oldhead\<close>, as the
  code does.
\<close>

fun small_sb_alloc_loop :: "nat \<Rightarrow> ptr_cnt \<Rightarrow> ralloc_state \<Rightarrow> (addr \<times> ralloc_state) res" where
  "small_sb_alloc_loop 0 oldhead s = Inl OutOfFuel"
| "small_sb_alloc_loop (Suc n) oldhead s =
     (let oldptr = pc_ptr oldhead in
      if oldptr \<noteq> 0 then
        let newhead = \<lparr>pc_ptr = load_next_free s oldptr, pc_cnt = pc_cnt oldhead\<rparr>
        in case avail_sb_cas oldhead newhead s of
             (ok, oldhead', s') \<Rightarrow>
               if ok then Inr (sb_lookup s' oldptr, s') else small_sb_alloc_loop n oldhead' s'
      else
        let old_curr = curr_addr (sb_region s);
            aln_adj = old_curr AND (PAGESIZE - 1);
            res = (if aln_adj \<noteq> 0 then old_curr + (PAGESIZE - aln_adj) else old_curr);
            nxt = res + SB_REGION_EXPAND_SIZE
        in if pc_ptr (avail_sb_load s) \<noteq> 0 then small_sb_alloc_loop n oldhead s
           else check (\<not> nxt > base_addr (sb_region s) + FILESIZE (sb_region s)) ''out of space''
             (case region_commit (old_curr, res, nxt) (sb_region s) of (ok, rm') \<Rightarrow>
                if ok then
                  rbind (organize_sb_list (res + SBSIZE) (SB_REGION_EXPAND_SIZE div SBSIZE - 1)
                           (set_sb_region rm' s))
                    (\<lambda>s'. Inr (res, construct_desc (desc_lookup s' res) s'))
                else small_sb_alloc_loop n oldhead (set_sb_region rm' s)))"

definition small_sb_alloc :: "u64 \<Rightarrow> ralloc_state \<Rightarrow> (addr \<times> ralloc_state) res" where
  "small_sb_alloc sz s =
     check (sz = SBSIZE) ''desired size'' (small_sb_alloc_loop CAS_FUEL (avail_sb_load s) s)"

definition small_sb_retire :: "addr \<Rightarrow> u64 \<Rightarrow> ralloc_state \<Rightarrow> ralloc_state res" where
  "small_sb_retire sb sz s =
     check (sz = SBSIZE) ''size == SBSIZE''
       (let desc = desc_lookup s sb;
            s1 = construct_desc desc s
        in rbind (cas_loop CAS_FUEL
             (\<lambda>oldhead s. Inr (\<lparr>pc_ptr = desc, pc_cnt = pc_cnt oldhead + 1\<rparr>,
                               store_next_free desc (pc_ptr oldhead) s))
             avail_sb_cas (avail_sb_load s1) s1)
           (\<lambda>(oldhead, newhead, s'). Inr s'))"

text \<open>\<^verbatim>\<open>while (res == 0) { res = expand(...); assert(res != -1); }\<close>\<close>

fun expand_loop :: "nat \<Rightarrow> u64 \<Rightarrow> u64 \<Rightarrow> string \<Rightarrow> ralloc_state \<Rightarrow> (addr \<times> ralloc_state) res" where
  "expand_loop 0 alignment sz msg s = Inl OutOfFuel"
| "expand_loop (Suc n) alignment sz msg s =
     (case expand (rgs s) SB_IDX alignment sz of (code, out, rgs') \<Rightarrow>
        check (code \<noteq> -1) msg
          (if code = 0 then expand_loop n alignment sz msg (s\<lparr>rgs := rgs'\<rparr>)
           else Inr (case out of Some r \<Rightarrow> r | None \<Rightarrow> 0, s\<lparr>rgs := rgs'\<rparr>)))"

definition expand_get_large_sb :: "u64 \<Rightarrow> ralloc_state \<Rightarrow> (addr \<times> ralloc_state) res" where
  "expand_get_large_sb sz s =
     rbind (expand_loop CAS_FUEL PAGESIZE sz ''space runs out!'' s)
       (\<lambda>(ret, s'). Inr (ret, construct_desc (desc_lookup s' ret) s'))"

definition large_sb_alloc :: "u64 \<Rightarrow> ralloc_state \<Rightarrow> (addr \<times> ralloc_state) res" where
  "large_sb_alloc sz = expand_get_large_sb sz"

definition alloc_large_block :: "u64 \<Rightarrow> ralloc_state \<Rightarrow> (addr \<times> ralloc_state) res" where
  "alloc_large_block sz = large_sb_alloc sz"

definition large_sb_retire :: "addr \<Rightarrow> u64 \<Rightarrow> ralloc_state \<Rightarrow> ralloc_state res" where
  "large_sb_retire sb sz s =
     check (sz mod SBSIZE = 0) ''size%SBSIZE == 0'' (organize_sb_list sb (sz div SBSIZE) s)"

subsection \<open>The dirty flag\<close>

definition set_dirty :: "ralloc_state \<Rightarrow> ralloc_state res" where
  "set_dirty s = (case mutex_trylock (dirty_mtx s) of (code, mx) \<Rightarrow>
     check (code \<noteq> EOWNERDEAD) ''previous apps died! call is_dirty first!'' (Inr (s\<lparr>dirty_mtx := mx\<rparr>)))"

text \<open>
  Any other code ends the process with \<^verbatim>\<open>exit(1)\<close>, which runs the destructors of static objects:
  the holder's destructor (\<open>delete_RallocHolder\<close>) then works on the state in which \<^verbatim>\<open>is_dirty\<close>
  was called, as a lock that is not acquired changes nothing.
\<close>

definition is_dirty :: "ralloc_state \<Rightarrow> (bool \<times> ralloc_state) res" where
  "is_dirty s = (case mutex_trylock (dirty_mtx s) of (code, mx) \<Rightarrow>
     (case code of
        EOWNERDEAD \<Rightarrow> Inr (True, s\<lparr>dirty_mtx := mutex_consistent mx\<rparr>)
      | Lock_ok \<Rightarrow> Inr (False, s\<lparr>dirty_mtx := mutex_unlock mx\<rparr>)
      | EBUSY \<Rightarrow> Inr (False, s\<lparr>dirty_mtx := mx\<rparr>)
      | EAGAIN \<Rightarrow> Inr (False, s\<lparr>dirty_mtx := mx\<rparr>)
      | EINVAL \<Rightarrow> Inr (True, s\<lparr>dirty_mtx := Mtx_free\<rparr>)
      | ENOTRECOVERABLE \<Rightarrow> Inl (Exited 1)))"

definition set_clean :: "ralloc_state \<Rightarrow> ralloc_state" where
  "set_clean s = s\<lparr>dirty_mtx := mutex_unlock (dirty_mtx s)\<rparr>"

subsection \<open>Thread caches of the state\<close>

definition set_cache :: "nat \<Rightarrow> nat \<Rightarrow> TCacheBin \<Rightarrow> ralloc_state \<Rightarrow> ralloc_state" where
  "set_cache t c b s = s\<lparr>t_caches := (t_caches s)(t := (t_caches s t)(c := b))\<rparr>"

definition heap_get_sizeclass :: "addr \<Rightarrow> ralloc_state \<Rightarrow> SizeClassData" where
  "heap_get_sizeclass h s = get_sizeclass_by_idx (unat (h_sc_idx (heaps s h)))"

text \<open>
  The \<^verbatim>\<open>switch\<close> of \<^verbatim>\<open>compute_idx\<close>: its labels and divisors come from the rows of the table
  that are bins.
\<close>

fun SIZE_CLASS_case :: "sc_row \<Rightarrow> (nat \<times> u32) list" where
  "SIZE_CLASS_case (SC index lg_grp lg_delta ndelta psz bin pgs lg_delta_lookup) =
     (if bin then [(index + 1, SC_block_size (SC index lg_grp lg_delta ndelta psz bin pgs lg_delta_lookup))]
      else [])"

definition compute_idx :: "addr \<Rightarrow> addr \<Rightarrow> nat \<Rightarrow> u32 res" where
  "compute_idx superblock block sc_idx =
     (let sc = get_sizeclass_by_idx sc_idx; block_size = sc_block_size sc in
      check (block \<ge> superblock) ''block >= superblock''
      (check (block < superblock + ucast (sc_sb_size sc)) ''block < superblock + sc->sb_size''
      (let diff = ucast (block - superblock) in
       case map_of (concat (map SIZE_CLASS_case SIZE_CLASSES)) sc_idx of
         None \<Rightarrow> Inl (AssertFail ''false'')
       | Some bs \<Rightarrow>
           check (block_size = bs) ''sc_block_size == block_size''
           (let idx = diff div bs in
            check (diff div block_size = idx) ''diff / sc_block_size == idx'' (Inr idx)))))"

subsection \<open>Filling a cache\<close>

text \<open>
  The reservation loop of \<^verbatim>\<open>malloc_from_partial\<close>; \<open>None\<close> when it finds the superblock empty.
\<close>

fun reserve_loop ::
    "nat \<Rightarrow> addr \<Rightarrow> u32 \<Rightarrow> Anchor \<Rightarrow> ralloc_state \<Rightarrow> (Anchor option \<times> ralloc_state) res" where
  "reserve_loop 0 desc maxcount oldanchor s = Inl OutOfFuel"
| "reserve_loop (Suc n) desc maxcount oldanchor s =
     (if sb_state oldanchor = SB_EMPTY then Inr (None, s)
      else check (sb_state oldanchor = SB_PARTIAL) ''oldanchor.state == SB_PARTIAL''
        (let newanchor = oldanchor\<lparr>count := 0, avail := ucast maxcount, sb_state := SB_FULL\<rparr>
         in case anchor_cas desc oldanchor newanchor s of
              (ok, oldanchor', s') \<Rightarrow>
                if ok then Inr (Some oldanchor, s') else reserve_loop n desc maxcount oldanchor' s'))"

fun malloc_from_partial ::
    "nat \<Rightarrow> nat \<Rightarrow> nat \<Rightarrow> u64 \<Rightarrow> ralloc_state \<Rightarrow> (u64 \<times> ralloc_state) res" where
  "malloc_from_partial 0 t sc_idx block_num s = Inl OutOfFuel"
| "malloc_from_partial (Suc n) t sc_idx block_num s =
     (let heap = heap_addr (base_md s) sc_idx in
      rbind (heap_pop_partial heap s) (\<lambda>(desc, s1).
      if desc = 0 then Inr (block_num, s1)
      else
        let oldanchor = d_anchor (descs s1 desc);
            maxcount = d_maxcount (descs s1 desc);
            block_size = d_block_size (descs s1 desc);
            superblock = cross_get (rgs s1) SB_IDX (d_superblock (descs s1 desc))
        in rbind (reserve_loop CAS_FUEL desc maxcount oldanchor s1) (\<lambda>(r, s2).
           case r of
             None \<Rightarrow>
               rbind (small_sb_retire superblock (ucast (sc_sb_size (heap_get_sizeclass heap s2))) s2)
                 (malloc_from_partial n t sc_idx block_num)
           | Some oldanchor' \<Rightarrow>
               let block_take = ucast (count oldanchor') :: u32;
                   av = ucast (avail oldanchor') :: u32
               in check (av < maxcount) ''avail < maxcount''
                 (let block = superblock + ucast (av * block_size);
                      cache = t_caches s2 t sc_idx
                  in check (get_cache_block_num cache = 0) ''cache->get_block_num() == 0''
                    (rbind (push_list block block_take cache) (\<lambda>cache'.
                       Inr (block_num + ucast block_take, set_cache t sc_idx cache' s2)))))))"

text \<open>The \<^verbatim>\<open>for\<close> loop of \<^verbatim>\<open>malloc_from_newsb\<close> that links the blocks of a superblock.\<close>

definition link_blocks :: "addr \<Rightarrow> u32 \<Rightarrow> u32 \<Rightarrow> memory \<Rightarrow> memory" where
  "link_blocks superblock block_size maxcount m =
     fold (\<lambda>idx m. store_pptr m (superblock + ucast (of_nat idx * block_size))
                     (superblock + ucast ((of_nat idx + 1) * block_size)))
       [0..<unat (maxcount - 1)] m"

definition malloc_from_newsb :: "nat \<Rightarrow> nat \<Rightarrow> u64 \<Rightarrow> ralloc_state \<Rightarrow> (u64 \<times> ralloc_state) res" where
  "malloc_from_newsb t sc_idx block_num s =
     (let heap = heap_addr (base_md s) sc_idx;
          sc = get_sizeclass_by_idx sc_idx;
          block_size = sc_block_size sc;
          maxcount = get_block_num sc
      in rbind (small_sb_alloc (ucast (sc_sb_size sc)) s) (\<lambda>(superblock, s1).
         check (superblock \<noteq> 0) ''superblock''
         (let desc = desc_lookup s1 superblock;
              s2 = set_desc desc (\<lambda>v. v\<lparr>d_heap := cross_assign (rgs s1) META_IDX heap,
                     d_block_size := block_size, d_maxcount := maxcount,
                     d_superblock := cross_assign (rgs s1) SB_IDX superblock\<rparr>) s1;
              s3 = s2\<lparr>mem := link_blocks superblock block_size maxcount (mem s2)\<rparr>
          in rbind (push_list superblock maxcount (t_caches s3 t sc_idx)) (\<lambda>cache'.
             let anchor = \<lparr>avail = ucast maxcount, count = 0, sb_state = SB_FULL\<rparr>;
                 s4 = set_desc desc (d_anchor_update (\<lambda>_. anchor)) (set_cache t sc_idx cache' s3);
                 s5 = FLUSHFENCE (flush_desc desc s4)
             in check (ucast (avail anchor) < maxcount \<or> sb_state anchor = SB_FULL)
                  ''anchor.avail < maxcount || anchor.state == SB_FULL''
                (check (ucast (count anchor) < maxcount) ''anchor.count < maxcount''
                (check (sb_state anchor = SB_FULL) ''anchor.state == SB_FULL''
                (Inr (block_num + ucast maxcount, s5))))))))"

text \<open>
  Retries of \<^verbatim>\<open>malloc_from_partial\<close>: each takes a superblock off the partial list, and a region
  has at most \<open>2 ^ 24\<close> superblocks.
\<close>

definition PARTIAL_FUEL :: nat where
  "PARTIAL_FUEL = Suc (2 ^ 24)"

definition fill_cache :: "nat \<Rightarrow> nat \<Rightarrow> ralloc_state \<Rightarrow> ralloc_state res" where
  "fill_cache t sc_idx s =
     rbind (malloc_from_partial PARTIAL_FUEL t sc_idx 0 s) (\<lambda>(block_num, s1).
     rbind (if block_num = 0 then malloc_from_newsb t sc_idx block_num s1 else Inr (block_num, s1))
       (\<lambda>(block_num', s2).
        check (block_num' > 0) ''block_num > 0''
        (check (block_num' \<le> ucast (sc_cache_block_num (get_sizeclass_by_idx sc_idx)))
           ''block_num <= sc->cache_block_num'' (Inr s2))))"

subsection \<open>Flushing a cache\<close>

text \<open>The inner \<^verbatim>\<open>while\<close>: how many of the first blocks lie in one superblock, and the last of them.\<close>

function flush_run :: "memory \<Rightarrow> addr \<Rightarrow> u32 \<Rightarrow> u32 \<Rightarrow> u32 \<Rightarrow> addr \<Rightarrow> u32 \<times> addr" where
  "flush_run m superblock sb_size num block_count tail =
     (if num > block_count then
        let ptr = load_pptr m tail in
        if ptr < superblock \<or> ptr \<ge> superblock + ucast sb_size then (block_count, tail)
        else flush_run m superblock sb_size num (block_count + 1) ptr
      else (block_count, tail))"
  by pat_completeness auto
termination
proof (relation "measure (\<lambda>(m, sb, sz, num, bc, tail). unat num - unat bc)")
  fix m :: memory and sb :: addr and sz num bc :: u32 and tail ptr :: addr
  assume "bc < num"
  then have "unat bc < unat num" by (simp add: word_less_nat_alt)
  moreover have "unat bc < 4294967295" using calculation unat_lt32 [of num] by linarith
  then have "unat (bc + 1) = unat bc + 1" by (intro unat_suc32) simp
  ultimately show "((m, sb, sz, num, bc + 1, ptr), (m, sb, sz, num, bc, tail))
      \<in> measure (\<lambda>(m, sb, sz, num, bc, tail). unat num - unat bc)" by simp
qed simp

declare flush_run.simps [simp del]

text \<open>The body of the anchor loop: it links the tail to the free list and computes the new anchor.\<close>

definition flush_anchor ::
    "addr \<Rightarrow> addr \<Rightarrow> u32 \<Rightarrow> addr \<Rightarrow> u32 \<Rightarrow> u32 \<Rightarrow> Anchor \<Rightarrow> ralloc_state \<Rightarrow> (Anchor \<times> ralloc_state) res" where
  "flush_anchor desc superblock block_size tail idx block_count oldanchor s =
     (let nxt = superblock + ucast (ucast (avail oldanchor) * block_size);
          s1 = s\<lparr>mem := store_pptr (mem s) tail nxt\<rparr>;
          new1 = oldanchor\<lparr>avail := ucast idx\<rparr>;
          new2 = (if sb_state oldanchor = SB_FULL then new1\<lparr>sb_state := SB_PARTIAL\<rparr> else new1);
          maxcount = d_maxcount (descs s1 desc)
      in check (ucast (count oldanchor) < maxcount) ''oldanchor.count < desc->maxcount''
         (Inr (if ucast (count oldanchor) + block_count = maxcount
               then new2\<lparr>count := ucast (maxcount - 1), sb_state := SB_EMPTY\<rparr>
               else new2\<lparr>count := count new2 + ucast block_count\<rparr>, s1)))"

definition flush_iter :: "nat \<Rightarrow> nat \<Rightarrow> ralloc_state \<Rightarrow> ralloc_state res" where
  "flush_iter t sc_idx s =
     (let sc = get_sizeclass_by_idx sc_idx;
          sb_size = sc_sb_size sc;
          block_size = sc_block_size sc;
          maxcount = get_block_num sc;
          cache = t_caches s t sc_idx;
          head = peek_block cache;
          desc = desc_lookup s head;
          superblock = cross_get (rgs s) SB_IDX (d_superblock (descs s desc))
      in case flush_run (mem s) superblock sb_size (get_cache_block_num cache) 1 head of
           (block_count, tail) \<Rightarrow>
         rbind (pop_list (load_pptr (mem s) tail) block_count cache) (\<lambda>cache'.
         rbind (compute_idx superblock head sc_idx) (\<lambda>idx.
         let s1 = set_cache t sc_idx cache' s in
         rbind (cas_loop CAS_FUEL (flush_anchor desc superblock block_size tail idx block_count)
                  (anchor_cas desc) (d_anchor (descs s1 desc)) s1)
           (\<lambda>(oldanchor, newanchor, s2).
         check (ucast (avail oldanchor) < maxcount \<or> sb_state oldanchor = SB_FULL)
           ''oldanchor.avail < maxcount || oldanchor.state == SB_FULL''
         (check (ucast (avail newanchor) < maxcount) ''newanchor.avail < maxcount''
         (check (ucast (count newanchor) < maxcount) ''newanchor.count < maxcount''
         (if sb_state oldanchor = SB_FULL then
            if sb_state newanchor = SB_EMPTY then small_sb_retire superblock SBSIZE s2
            else heap_push_partial desc s2
          else Inr s2)))))))"

fun flush_loop :: "nat \<Rightarrow> nat \<Rightarrow> nat \<Rightarrow> ralloc_state \<Rightarrow> ralloc_state res" where
  "flush_loop 0 t sc_idx s = Inl OutOfFuel"
| "flush_loop (Suc n) t sc_idx s =
     (if get_cache_block_num (t_caches s t sc_idx) > 0
      then rbind (flush_iter t sc_idx s) (flush_loop n t sc_idx)
      else Inr s)"

text \<open>Every iteration removes at least one block from the cache.\<close>

definition flush_cache :: "nat \<Rightarrow> nat \<Rightarrow> ralloc_state \<Rightarrow> ralloc_state res" where
  "flush_cache t sc_idx s =
     flush_loop (Suc (unat (get_cache_block_num (t_caches s t sc_idx)))) t sc_idx s"

fun flush_classes :: "nat list \<Rightarrow> nat \<Rightarrow> ralloc_state \<Rightarrow> ralloc_state res" where
  "flush_classes [] t s = Inr s"
| "flush_classes (i # is) t s = rbind (flush_cache t i s) (flush_classes is t)"

definition public_flush_cache :: "bool \<Rightarrow> nat \<Rightarrow> ralloc_state \<Rightarrow> ralloc_state res" where
  "public_flush_cache initialized t s =
     (if initialized then flush_classes [1..<MAX_SZ_IDX] t s else Inr s)"

subsection \<open>Allocation and deallocation\<close>

definition round_up :: "u64 \<Rightarrow> u64 \<Rightarrow> u64 res" where
  "round_up numToRound multiple =
     check (multiple \<noteq> 0 \<and> multiple AND (multiple - 1) = 0) ''multiple && ((multiple & (multiple - 1)) == 0)''
       (Inr ((numToRound + multiple - 1) AND NOT (multiple - 1)))"

text \<open>
  \<^verbatim>\<open>FLUSH(&desc)\<close> on the large path flushes the line of the local variable, which is not in
  persistent memory; only the fence has an effect on the heap.
\<close>

definition do_malloc :: "nat \<Rightarrow> u64 \<Rightarrow> ralloc_state \<Rightarrow> (addr \<times> ralloc_state) res" where
  "do_malloc t sz s =
     (if sz > MAX_SZ then
        rbind (round_up sz SBSIZE) (\<lambda>sbs.
        rbind (alloc_large_block sbs s) (\<lambda>(ptr, s1).
        check (ptr \<noteq> 0) ''ptr''
        (let desc = desc_lookup s1 ptr;
             s2 = set_desc desc (\<lambda>v. v\<lparr>d_heap := cross_assign (rgs s1) META_IDX (heap_addr (base_md s1) 0),
                    d_block_size := ucast sbs, d_maxcount := 1,
                    d_superblock := cross_assign (rgs s1) SB_IDX ptr,
                    d_anchor := \<lparr>avail = 0, count = 0, sb_state = SB_FULL\<rparr>\<rparr>) s1
         in Inr (ptr, FLUSHFENCE s2))))
      else
        let sc_idx = get_sizeclass sz in
        rbind (if get_cache_block_num (t_caches s t sc_idx) = 0 then fill_cache t sc_idx s else Inr s)
          (\<lambda>s1. rbind (pop_block (mem s1) (t_caches s1 t sc_idx)) (\<lambda>(ret, cache').
             Inr (ret, set_cache t sc_idx cache' s1))))"

definition do_free :: "nat \<Rightarrow> addr \<Rightarrow> ralloc_state \<Rightarrow> ralloc_state res" where
  "do_free t ptr s =
     (if ptr = 0 then Inr s
      else check (in_range (rgs s) SB_IDX ptr) ''_rgs->in_range(SB_IDX,ptr)''
        (let desc = desc_lookup s ptr;
             sc_idx = unat (h_sc_idx (heaps s (cross_deref (rgs s) META_IDX (d_heap (descs s desc)))))
         in if sc_idx = 0 then
              let superblock = cross_get (rgs s) SB_IDX (d_superblock (descs s desc))
              in large_sb_retire superblock (ucast (d_block_size (descs s desc))) s
            else
              let sc = get_sizeclass_by_idx sc_idx in
              rbind (if get_cache_block_num (t_caches s t sc_idx) \<ge> sc_cache_block_num sc
                     then flush_cache t sc_idx s else Inr s)
                (\<lambda>s1. case push_block ptr (mem s1, t_caches s1 t sc_idx) of (m, cache') \<Rightarrow>
                   Inr (set_cache t sc_idx cache' (s1\<lparr>mem := m\<rparr>)))))"

subsection \<open>Roots\<close>

definition set_root :: "addr \<Rightarrow> u64 \<Rightarrow> ralloc_state \<Rightarrow> (addr \<times> ralloc_state) res" where
  "set_root ptr i s =
     check (i < of_nat MAX_ROOTS) ''i<MAX_ROOTS''
       (let k = unat i;
            res = (if \<not> cross_is_null (roots s k) then cross_get (rgs s) SB_IDX (roots s k) else 0);
            s1 = s\<lparr>roots := (roots s)(k := cross_assign (rgs s) SB_IDX ptr)\<rparr>
        in Inr (res, FLUSHFENCE (flush_root k s1)))"

text \<open>\<open>T\<close> stands for the type argument, which the root's filter function remembers.\<close>

definition get_root :: "nat \<Rightarrow> u64 \<Rightarrow> ralloc_state \<Rightarrow> (addr \<times> ralloc_state) res" where
  "get_root T i s =
     check (i < of_nat MAX_ROOTS) ''i<MAX_ROOTS''
       (let k = unat i in
        Inr (cross_get (rgs s) SB_IDX (roots s k),
             s\<lparr>roots_filter_func := (roots_filter_func s)(k := Some T)\<rparr>))"

subsection \<open>Writing the metadata back\<close>

text \<open>The loop of \<^verbatim>\<open>writeback\<close>: the address is advanced before each flush.\<close>

fun writeback_loop :: "nat \<Rightarrow> addr \<Rightarrow> addr \<Rightarrow> ralloc_state \<Rightarrow> ralloc_state" where
  "writeback_loop 0 this a s = s"
| "writeback_loop (Suc n) this a s =
     writeback_loop n this (a + CACHELINE_SIZE) (flush_meta_line this (a + CACHELINE_SIZE) s)"

definition writeback :: "addr \<Rightarrow> ralloc_state \<Rightarrow> ralloc_state" where
  "writeback this s =
     set_clean (FLUSHFENCE (writeback_loop (sizeof_BaseMeta div unat CACHELINE_SIZE) this this s))"

subsection \<open>Construction\<close>

definition init_heap :: "addr \<Rightarrow> nat \<Rightarrow> ralloc_state \<Rightarrow> ralloc_state" where
  "init_heap this idx s =
     (let h = heap_addr this idx in
      flush_heap h (s\<lparr>heaps := (heaps s)(h := \<lparr>h_partial_list = acp_store (rgs s) DESC_IDX \<lparr>pc_ptr = 0, pc_cnt = 0\<rparr>,
                                               h_sc_idx = of_nat idx\<rparr>)\<rparr>))"

definition init_root :: "nat \<Rightarrow> ralloc_state \<Rightarrow> ralloc_state" where
  "init_root i s = flush_root i (s\<lparr>roots := (roots s)(i := cross_assign_null)\<rparr>)"

text \<open>The attributes and the mutex are in the cache line of \<^verbatim>\<open>avail_sb\<close>.\<close>

definition new_BaseMeta :: "addr \<Rightarrow> ralloc_state \<Rightarrow> ralloc_state res" where
  "new_BaseMeta this s =
     rbind (set_dirty (s\<lparr>avail_sb := acp_pack (rgs s) DESC_IDX \<lparr>pc_ptr = 0, pc_cnt = 0\<rparr>, dirty_mtx := Mtx_free\<rparr>)) (\<lambda>s1.
     let s2 = flush_avail (flush_avail s1);
         s3 = fold (init_heap this) [0..<MAX_SZ_IDX] s2;
         s4 = fold init_root [0..<MAX_ROOTS] s3
     in rbind (expand_loop CAS_FUEL SBSIZE SB_REGION_EXPAND_SIZE ''warmup sb allocation fails!'' s4) (\<lambda>(tmp_sec_start, s5).
        let s6 = s5\<lparr>rgs := (rgs s5)\<lparr>
                     regions := (regions (rgs s5))(ridx SB_IDX := store_heap_start tmp_sec_start (sb_region s5)),
                     regions_address := (regions_address (rgs s5))(ridx SB_IDX := tmp_sec_start)\<rparr>\<rparr>
        in rbind (organize_sb_list (tmp_sec_start + SBSIZE) (SB_REGION_EXPAND_SIZE div SBSIZE - 1) s6)
             (\<lambda>s7. Inr (FLUSHFENCE s7))))"

text \<open>
  \<^verbatim>\<open>Regions::create_for<BaseMeta>\<close>: the region's address becomes known to the other regions
  only after the constructor has run.
\<close>

definition create_for_BaseMeta ::
    "os_result \<Rightarrow> region_hdr option \<Rightarrow> addr \<Rightarrow> string \<Rightarrow> u64 \<Rightarrow> bool \<Rightarrow> ralloc_state \<Rightarrow> (addr \<times> ralloc_state) res" where
  "create_for_BaseMeta os file t file_path sz p s =
     (let restart = (file \<noteq> None) in
      rbind (new_RegionManager os file t file_path sz p True) (\<lambda>new_mgr.
      let s1 = s\<lparr>rgs := (rgs s)\<lparr>regions := (regions (rgs s))(cur_idx (rgs s) := new_mgr)\<rparr>\<rparr>;
          this = fetch_heap_start new_mgr
      in rbind (if \<not> restart then new_BaseMeta this s1 else Inr s1) (\<lambda>s2.
         Inr (this, s2\<lparr>rgs := (rgs s2)\<lparr>
           regions_address := (regions_address (rgs s2))(cur_idx (rgs s2) := this),
           cur_idx := Suc (cur_idx (rgs s2))\<rparr>\<rparr>))))"

end
