(* ===== verification/HeapLayout.thy ===== *)
theory HeapLayout
  imports BaseMeta
begin

text \<open>
  The geometry of a heap: superblock \<open>k\<close> starts \<open>k\<close> times 64 KiB above the start of the
  superblock region, its descriptor is entry \<open>k\<close> of the array in the descriptor region, and
  the two lookup functions of \<^verbatim>\<open>BaseMeta\<close> translate between them.
\<close>

subsection \<open>Addresses by index\<close>

definition sb_at :: "ralloc_state \<Rightarrow> nat \<Rightarrow> addr" where
  "sb_at s k = lookup (rgs s) SB_IDX + of_nat (65536 * k)"

definition desc_at :: "ralloc_state \<Rightarrow> nat \<Rightarrow> addr" where
  "desc_at s k = lookup (rgs s) DESC_IDX + of_nat (64 * k)"

definition block_at :: "ralloc_state \<Rightarrow> nat \<Rightarrow> nat \<Rightarrow> nat \<Rightarrow> addr" where
  "block_at s c k i = sb_at s k + of_nat (i * bsz c)"

text \<open>How many superblocks the mapped file has room for, and how many the frontier covers.\<close>

definition sb_cap :: "ralloc_state \<Rightarrow> nat" where
  "sb_cap s = (unat (base_addr (sb_region s)) + unat (FILESIZE (sb_region s))
     - unat (lookup (rgs s) SB_IDX)) div 65536"

definition sb_num :: "ralloc_state \<Rightarrow> nat" where
  "sb_num s = (unat (curr_addr (sb_region s)) - unat (lookup (rgs s) SB_IDX)) div 65536"

text \<open>The used part of the descriptor region is at most as long as \<open>2 ^ 34\<close> cache lines.\<close>

definition desc_end_ok :: "Regions \<Rightarrow> bool" where
  "desc_end_ok r \<longleftrightarrow> unat (curr_addr (regions r (ridx DESC_IDX))) < 2 ^ 47
     \<and> unat (curr_addr (regions r (ridx DESC_IDX))) \<le> unat (lookup r DESC_IDX) + 2 ^ 40"

definition layout_ok :: "ralloc_state \<Rightarrow> bool" where
  "layout_ok s \<longleftrightarrow>
     region_ok (sb_region s)
     \<and> unat (lookup (rgs s) SB_IDX) mod 65536 = 0
     \<and> unat (base_addr (sb_region s)) + 4096 \<le> unat (lookup (rgs s) SB_IDX)
     \<and> unat (lookup (rgs s) SB_IDX) \<le> unat (curr_addr (sb_region s))
     \<and> unat (curr_addr (sb_region s)) mod 65536 = 0
     \<and> lookup (rgs s) DESC_IDX \<noteq> 0 \<and> unat (lookup (rgs s) DESC_IDX) mod 64 = 0
     \<and> unat (lookup (rgs s) DESC_IDX) + 64 * sb_cap s < 2 ^ 47
     \<and> base_md s \<noteq> 0 \<and> unat (base_md s) mod 64 = 0 \<and> unat (base_md s) + 10816 < 2 ^ 47
     \<and> sb_cap s \<le> 2 ^ 24 \<and> desc_end_ok (rgs s)"

lemma layout_okD:
  assumes "layout_ok s"
  shows "region_ok (sb_region s)"
    and "unat (lookup (rgs s) SB_IDX) mod 65536 = 0"
    and "unat (base_addr (sb_region s)) + 4096 \<le> unat (lookup (rgs s) SB_IDX)"
    and "unat (lookup (rgs s) SB_IDX) \<le> unat (curr_addr (sb_region s))"
    and "unat (curr_addr (sb_region s)) mod 65536 = 0"
    and "lookup (rgs s) DESC_IDX \<noteq> 0" and "unat (lookup (rgs s) DESC_IDX) mod 64 = 0"
    and "unat (lookup (rgs s) DESC_IDX) + 64 * sb_cap s < 140737488355328"
    and "base_md s \<noteq> 0" and "unat (base_md s) mod 64 = 0"
    and "unat (base_md s) + 10816 < 140737488355328"
    and "sb_cap s \<le> 16777216" and "desc_end_ok (rgs s)"
  using assms by (simp_all add: layout_ok_def)

lemma sb_cap_bound:
  assumes "layout_ok s"
  shows "unat (lookup (rgs s) SB_IDX) + 65536 * sb_cap s \<le> unat (base_addr (sb_region s)) + unat (FILESIZE (sb_region s))"
    and "unat (lookup (rgs s) SB_IDX) + 65536 * sb_cap s < 140737488355328"
proof -
  let ?e = "unat (base_addr (sb_region s)) + unat (FILESIZE (sb_region s))"
  let ?b = "unat (lookup (rgs s) SB_IDX)"
  have "?b \<le> ?e"
    using layout_okD(4) [OF assms] region_okD(6) [OF layout_okD(1) [OF assms]] by simp
  moreover have "65536 * ((?e - ?b) div 65536) \<le> ?e - ?b" by (rule times_div_less_eq_dividend)
  ultimately show le: "?b + 65536 * sb_cap s \<le> ?e" by (simp add: sb_cap_def)
  show "?b + 65536 * sb_cap s < 140737488355328"
    using le region_okD(3) [OF layout_okD(1) [OF assms]] by simp
qed

lemma sb_num_le_cap:
  assumes "layout_ok s"
  shows "sb_num s \<le> sb_cap s"
  unfolding sb_num_def sb_cap_def
  by (rule div_le_mono) (use region_okD(6) [OF layout_okD(1) [OF assms]] in simp)

lemma unat_sb_at:
  assumes "layout_ok s" and "k \<le> sb_cap s"
  shows "unat (sb_at s k) = unat (lookup (rgs s) SB_IDX) + 65536 * k"
proof -
  have "65536 * k \<le> 65536 * sb_cap s" using assms(2) by simp
  then show ?thesis
    unfolding sb_at_def using sb_cap_bound(2) [OF assms(1)] by (intro unat_offset) simp
qed

lemma unat_sb_off:
  assumes "layout_ok s" and "k < sb_cap s" and "off \<le> 65536"
  shows "unat (sb_at s k + of_nat off) = unat (lookup (rgs s) SB_IDX) + 65536 * k + off"
proof -
  have "65536 * k + 65536 \<le> 65536 * sb_cap s" using assms(2) by simp
  then have "unat (sb_at s k) + off < 2 ^ 64"
    using sb_cap_bound(2) [OF assms(1)] unat_sb_at [OF assms(1), of k] assms(2,3) by simp
  then show ?thesis using unat_offset unat_sb_at [OF assms(1), of k] assms(2) by simp
qed

lemma unat_desc_at:
  assumes "layout_ok s" and "k \<le> sb_cap s"
  shows "unat (desc_at s k) = unat (lookup (rgs s) DESC_IDX) + 64 * k"
proof -
  have "64 * k \<le> 64 * sb_cap s" using assms(2) by simp
  then show ?thesis
    unfolding desc_at_def using layout_okD(8) [OF assms(1)] by (intro unat_offset) simp
qed

lemma desc_at_inj:
  assumes "layout_ok s" and "j \<le> sb_cap s" and "k \<le> sb_cap s"
  shows "desc_at s j = desc_at s k \<longleftrightarrow> j = k"
proof
  assume "desc_at s j = desc_at s k"
  then have "unat (desc_at s j) = unat (desc_at s k)" by simp
  then show "j = k" using unat_desc_at [OF assms(1)] assms(2,3) by simp
qed simp

lemma desc_at_less:
  assumes "layout_ok s" and "k \<le> sb_cap s"
  shows "unat (desc_at s k) < 140737488355328" and "desc_at s k \<noteq> 0"
proof -
  have le: "64 * k \<le> 64 * sb_cap s" using assms(2) by simp
  show "unat (desc_at s k) < 140737488355328"
    using unat_desc_at [OF assms] layout_okD(8) [OF assms(1)] le by simp
  have "0 < unat (lookup (rgs s) DESC_IDX)"
    using layout_okD(6) [OF assms(1)] by (simp add: unsigned_eq_0_iff unat_gt_0)
  then have "unat (desc_at s k) \<noteq> 0" using unat_desc_at [OF assms] by simp
  then show "desc_at s k \<noteq> 0" by (metis unsigned_0)
qed

lemma desc_near:
  assumes "layout_ok s" and "j \<le> sb_cap s" and "k \<le> sb_cap s"
  shows "near (desc_at s j) (desc_at s k)" and "near (desc_at s j) (desc_at s k + 8)"
proof -
  note l = desc_at_less [OF assms(1)]
  show "near (desc_at s j) (desc_at s k)"
    using l(1) [OF assms(2)] l(1) [OF assms(3)] by (simp add: near_iff)
  have "unat (desc_at s k + of_nat 8) = unat (desc_at s k) + 8"
    using l(1) [OF assms(3)] by (intro unat_offset) simp
  then have "unat (desc_at s k + 8) = unat (desc_at s k) + 8" by simp
  then show "near (desc_at s j) (desc_at s k + 8)"
    using l(1) [OF assms(2)] l(1) [OF assms(3)] by (simp add: near_iff)
qed

subsection \<open>The two lookups\<close>

lemma div_shift: "b mod m = 0 \<Longrightarrow> 0 < m \<Longrightarrow> off < m \<Longrightarrow> (b + m * k + off) div m = b div m + (k :: nat)"
proof -
  assume a: "b mod m = 0" "0 < m" "off < m"
  then obtain q where "b = m * q" by auto
  then have "b + m * k + off = off + (q + k) * m" by (simp add: algebra_simps)
  then show ?thesis using a \<open>b = m * q\<close> by (simp only: div_mult_self1 [of m off "q + k"]) simp
qed

lemma desc_lookup_block:
  assumes "layout_ok s" and "k < sb_cap s" and "off < 65536"
  shows "desc_lookup s (sb_at s k + of_nat off) = desc_at s k"
proof -
  let ?B = "lookup (rgs s) SB_IDX"
  have u: "unat (sb_at s k + of_nat off) = unat ?B + 65536 * k + off"
    using unat_sb_off [OF assms(1,2)] assms(3) by simp
  have "(unat ?B + 65536 * k + off) div 65536 = unat ?B div 65536 + k"
    using layout_okD(2) [OF assms(1)] assms(3) by (intro div_shift) simp_all
  then have "drop_bit 16 (sb_at s k + of_nat off) = of_nat (unat ?B div 65536 + k)"
    using u by (simp add: drop_bit_unat_of_nat)
  moreover have "drop_bit 16 ?B = of_nat (unat ?B div 65536)"
    by (simp add: drop_bit_unat_of_nat)
  ultimately have "drop_bit 16 (sb_at s k + of_nat off) - drop_bit 16 ?B = of_nat k"
    by (simp only: of_nat_add add_diff_cancel_left')
  then show ?thesis by (simp add: desc_lookup_def desc_at_def Let_def)
qed

lemma desc_lookup_sb:
  assumes "layout_ok s" and "k < sb_cap s"
  shows "desc_lookup s (sb_at s k) = desc_at s k"
  using desc_lookup_block [OF assms, of 0] by simp

lemma sb_lookup_desc:
  assumes "layout_ok s" and "k \<le> sb_cap s"
  shows "sb_lookup s (desc_at s k) = sb_at s k"
proof -
  let ?D = "lookup (rgs s) DESC_IDX"
  have "(unat ?D + 64 * k + 0) div 64 = unat ?D div 64 + k"
    using layout_okD(7) [OF assms(1)] by (intro div_shift) simp_all
  then have "drop_bit 6 (desc_at s k) = of_nat (unat ?D div 64 + k)"
    using unat_desc_at [OF assms] by (simp add: drop_bit_unat_of_nat)
  moreover have "drop_bit 6 ?D = of_nat (unat ?D div 64)"
    by (simp add: drop_bit_unat_of_nat)
  ultimately have "drop_bit 6 (desc_at s k) - drop_bit 6 ?D = of_nat k"
    by (simp only: of_nat_add add_diff_cancel_left')
  then show ?thesis by (simp add: sb_lookup_def sb_at_def Let_def push_bit_eq_mult mult.commute)
qed

subsection \<open>Pointers stored in the metadata\<close>

text \<open>\<open>head_is r w p\<close>: the counted pointer \<open>w\<close> points to \<open>p\<close>, whatever its counter is.\<close>

definition head_is :: "Regions \<Rightarrow> u64 \<Rightarrow> addr \<Rightarrow> bool" where
  "head_is r w p = (\<exists>c. w = acp_pack r DESC_IDX \<lparr>pc_ptr = p, pc_cnt = c\<rparr>)"

definition desc_ptr :: "ralloc_state \<Rightarrow> nat option \<Rightarrow> addr" where
  "desc_ptr s k = (case k of None \<Rightarrow> 0 | Some k \<Rightarrow> desc_at s k)"

definition desc_idx_ok :: "ralloc_state \<Rightarrow> nat option \<Rightarrow> bool" where
  "desc_idx_ok s k = (case k of None \<Rightarrow> True | Some k \<Rightarrow> 1 \<le> k \<and> k < sb_cap s)"

lemma desc_idx_ok_simps [simp]:
  "desc_idx_ok s None" "desc_idx_ok s (Some k) \<longleftrightarrow> 1 \<le> k \<and> k < sb_cap s"
  by (simp_all add: desc_idx_ok_def)

lemma desc_ptr_simps [simp]: "desc_ptr s None = 0" "desc_ptr s (Some k) = desc_at s k"
  by (simp_all add: desc_ptr_def)

lemma push_bit_take_34: "push_bit 30 (take_bit 34 (c :: u64)) = push_bit 30 c"
  by (rule bit_word_eqI) (auto simp: bit_simps)

lemma acp_pack_take: "acp_pack r i \<lparr>pc_ptr = p, pc_cnt = take_bit 34 c\<rparr> = acp_pack r i \<lparr>pc_ptr = p, pc_cnt = c\<rparr>"
  by (simp add: acp_pack_def push_bit_take_34 Let_def)

lemma desc_ptr_packs:
  assumes "layout_ok s" and "desc_idx_ok s k"
  shows "desc_ptr s k = 0 \<or> (desc_ptr s k \<noteq> lookup (rgs s) DESC_IDX
     \<and> unat (desc_ptr s k - lookup (rgs s) DESC_IDX) < 2 ^ 30)"
proof (cases k)
  case (Some j)
  with assms have j: "1 \<le> j" "j < sb_cap s" by auto
  have j24: "j < 16777216" using j layout_okD(12) [OF assms(1)] by simp
  then have "unat (of_nat (64 * j) :: u64) = 64 * j" by (intro unat_of_nat64) simp
  moreover have "unat (desc_at s j) \<noteq> unat (lookup (rgs s) DESC_IDX)"
    using unat_desc_at [OF assms(1), of j] j by simp
  ultimately show ?thesis using j24 Some by (auto simp: desc_at_def)
qed simp

lemma head_is_load:
  assumes "layout_ok s" and "desc_idx_ok s k" and "head_is (rgs s) w (desc_ptr s k)"
  shows "pc_ptr (acp_load (rgs s) DESC_IDX w) = desc_ptr s k"
    and "acp_cas (rgs s) DESC_IDX w (acp_load (rgs s) DESC_IDX w) new =
      (True, acp_load (rgs s) DESC_IDX w, acp_pack (rgs s) DESC_IDX new)"
proof -
  obtain c where w: "w = acp_pack (rgs s) DESC_IDX \<lparr>pc_ptr = desc_ptr s k, pc_cnt = c\<rparr>"
    using assms(3) by (auto simp: head_is_def)
  have l: "acp_load (rgs s) DESC_IDX w = \<lparr>pc_ptr = desc_ptr s k, pc_cnt = take_bit 34 c\<rparr>"
    using acp_load_pack_take [of "\<lparr>pc_ptr = desc_ptr s k, pc_cnt = c\<rparr>" "rgs s" DESC_IDX]
      desc_ptr_packs [OF assms(1,2)] w by simp
  then show "pc_ptr (acp_load (rgs s) DESC_IDX w) = desc_ptr s k" by simp
  show "acp_cas (rgs s) DESC_IDX w (acp_load (rgs s) DESC_IDX w) new =
      (True, acp_load (rgs s) DESC_IDX w, acp_pack (rgs s) DESC_IDX new)"
    unfolding l acp_cas_def by (simp add: w acp_pack_take Let_def)
qed

lemma head_is_pack: "head_is r (acp_pack r DESC_IDX p) (pc_ptr p)"
  unfolding head_is_def by (rule exI [of _ "pc_cnt p"]) (cases p, simp)

lemma head_is_zero: "head_is r 0 0"
  unfolding head_is_def by (rule exI [of _ 0]) (simp add: acp_pack_def)

lemma cross_sb_at:
  assumes "layout_ok s" and "1 \<le> k" and "k \<le> sb_cap s"
  shows "cross_get (rgs s) SB_IDX (cross_assign (rgs s) SB_IDX (sb_at s k)) = sb_at s k"
proof -
  have "unat (sb_at s k) \<noteq> unat (lookup (rgs s) SB_IDX)"
    using unat_sb_at [OF assms(1,3)] assms(2) by simp
  then have "sb_at s k \<noteq> lookup (rgs s) SB_IDX" by metis
  then show ?thesis
    by (auto simp: cross_get_def cross_assign_def cross_is_null_def translate_def untranslate_def lookup_def)
qed

lemma unat_heap_addr:
  assumes "layout_ok s" and "i < 40"
  shows "unat (heap_addr (base_md s) i) = unat (base_md s) + 64 + 64 * i"
proof -
  have "unat (base_md s + of_nat (64 + 64 * i)) = unat (base_md s) + (64 + 64 * i)"
    using layout_okD(11) [OF assms(1)] assms(2) by (intro unat_offset) simp
  then show ?thesis by (simp add: heap_addr_def algebra_simps)
qed

lemma heap_addr_inj:
  assumes "layout_ok s" and "i < 40" and "j < 40"
  shows "heap_addr (base_md s) i = heap_addr (base_md s) j \<longleftrightarrow> i = j"
proof
  assume "heap_addr (base_md s) i = heap_addr (base_md s) j"
  then have "unat (heap_addr (base_md s) i) = unat (heap_addr (base_md s) j)" by simp
  then show "i = j" using unat_heap_addr [OF assms(1)] assms(2,3) by simp
qed simp

lemma cross_heap_addr:
  assumes "layout_ok s" and "i < 40"
  shows "cross_get (rgs s) META_IDX (cross_assign (rgs s) META_IDX (heap_addr (base_md s) i)) = heap_addr (base_md s) i"
    and "cross_deref (rgs s) META_IDX (cross_assign (rgs s) META_IDX (heap_addr (base_md s) i)) = heap_addr (base_md s) i"
proof -
  have "unat (heap_addr (base_md s) i) \<noteq> unat (base_md s)"
    using unat_heap_addr [OF assms] by simp
  then have "heap_addr (base_md s) i \<noteq> base_md s" by metis
  then show "cross_get (rgs s) META_IDX (cross_assign (rgs s) META_IDX (heap_addr (base_md s) i)) = heap_addr (base_md s) i"
    and "cross_deref (rgs s) META_IDX (cross_assign (rgs s) META_IDX (heap_addr (base_md s) i)) = heap_addr (base_md s) i"
    by (auto simp: cross_get_def cross_deref_def cross_assign_def cross_is_null_def translate_def
        untranslate_def lookup_def base_md_def)
qed

subsection \<open>Blocks\<close>

lemma unat_block_at:
  assumes "layout_ok s" and "k < sb_cap s" and "1 \<le> c" and "c < 40" and "i < bnum c"
  shows "unat (block_at s c k i) = unat (lookup (rgs s) SB_IDX) + 65536 * k + i * bsz c"
proof -
  have "i * bsz c \<le> 65536" using block_end_le [OF assms(3-5)] by simp
  from unat_sb_off [OF assms(1,2) this] show ?thesis unfolding block_at_def .
qed

lemma block_at_props:
  assumes "layout_ok s" and "k < sb_cap s" and "1 \<le> c" and "c < 40" and "i < bnum c"
  shows "block_addr (block_at s c k i)" and "desc_lookup s (block_at s c k i) = desc_at s k"
proof -
  have e: "i * bsz c + bsz c \<le> 65536" using assms(3-5) by (rule block_end_le)
  have b8: "8 \<le> bsz c" and m8: "bsz c mod 8 = 0" using class_facts [OF assms(3,4)] by simp_all
  show "desc_lookup s (block_at s c k i) = desc_at s k"
    unfolding block_at_def by (rule desc_lookup_block [OF assms(1,2)]) (use e b8 in simp)
  have u: "unat (block_at s c k i) = unat (lookup (rgs s) SB_IDX) + 65536 * k + i * bsz c"
    by (rule unat_block_at [OF assms])
  have "65536 * k + 65536 \<le> 65536 * sb_cap s" using assms(2) by simp
  then have "unat (block_at s c k i) < 2 ^ 47"
    using u e sb_cap_bound(2) [OF assms(1)] by simp
  moreover have "(8 :: nat) dvd unat (lookup (rgs s) SB_IDX)"
    by (rule dvd_trans [of 8 65536]) (use layout_okD(2) [OF assms(1)] in \<open>simp_all add: mod_0_imp_dvd\<close>)
  moreover have "8 dvd i * bsz c" using m8 by (simp add: mod_0_imp_dvd)
  moreover have "(8 :: nat) dvd 65536 * k" by (rule dvd_mult2) simp
  ultimately have "aligned8 (block_at s c k i)"
    unfolding aligned8_def u by (intro dvd_imp_mod_0 dvd_add)
  moreover have "unat (block_at s c k i) \<noteq> 0" using u layout_okD(3) [OF assms(1)] by simp
  ultimately show "block_addr (block_at s c k i)"
    using \<open>unat (block_at s c k i) < 2 ^ 47\<close> unsigned_0 unfolding block_addr_def by metis
qed

lemma block_at_range:
  assumes "layout_ok s" and "k < sb_cap s" and "1 \<le> c" and "c < 40" and "i < bnum c"
    and that: "j < sb_cap s"
  shows "sb_at s j \<le> block_at s c k i \<and> block_at s c k i < sb_at s j + 65536 \<longleftrightarrow> j = k"
proof -
  have e: "i * bsz c + bsz c \<le> 65536" and b8: "8 \<le> bsz c"
    using block_end_le [OF assms(3-5)] class_facts(1) [OF assms(3,4)] by simp_all
  have "unat (sb_at s j + 65536) = unat (lookup (rgs s) SB_IDX) + 65536 * j + 65536"
    using unat_sb_off [OF assms(1) that, of 65536] by simp
  then show ?thesis
    using unat_block_at [OF assms(1-5)] unat_sb_at [OF assms(1), of j] that e b8
    by (auto simp: word_le_nat_alt word_less_nat_alt)
qed

lemma block_at_inj:
  assumes "layout_ok s" and "k < sb_cap s" and "1 \<le> c" and "c < 40" and "i < bnum c"
    and "k' < sb_cap s" and "1 \<le> c'" and "c' < 40" and "i' < bnum c'"
    and "block_at s c k i = block_at s c' k' i'" and "k = k' \<Longrightarrow> c = c'"
  shows "k = k' \<and> i = i'"
proof -
  have "sb_at s k' \<le> block_at s c k i \<and> block_at s c k i < sb_at s k' + 65536"
    using block_at_range [OF assms(1,6-9), of k'] assms(6,10) by simp
  then have k: "k = k'" using block_at_range [OF assms(1-5), of k'] assms(6) by simp
  have "unat (block_at s c k i) = unat (block_at s c' k' i')" using assms(10) by simp
  then have "i * bsz c = i' * bsz c"
    unfolding unat_block_at [OF assms(1-5)] unat_block_at [OF assms(1,6-9)]
    using k assms(11) by simp
  then show ?thesis using k class_facts(1) [OF assms(3,4)] by simp
qed

end
