(* ===== verification/AHeap.thy ===== *)
theory AHeap
  imports SizeClass
begin

text \<open>
  The abstract heap, the specification the allocator is verified against. It knows
  superblocks by index and blocks by (superblock, position): which superblocks are unused,
  which size class or large block the others belong to, the order of the lists, and which
  blocks are free in their superblock or held by a thread cache. All other blocks are live:
  they belong to the program. The operations below are those of \<^verbatim>\<open>BaseMeta\<close> at this level, and
  the lemmas show that they keep the invariant and what they do to the set of live blocks.
\<close>

subsection \<open>Abstract heap\<close>

datatype sb_kind = Unused | Small nat | Large nat | Tail

record aheap =
  a_num :: nat
  a_kind :: "nat \<Rightarrow> sb_kind"
  a_avail :: "nat list"
  a_part :: "nat \<Rightarrow> nat list"
  a_free :: "nat \<Rightarrow> nat list"
  a_cache :: "nat \<Rightarrow> nat \<Rightarrow> (nat \<times> nat) list"

definition sb_valid :: "aheap \<Rightarrow> nat \<Rightarrow> bool" where
  "sb_valid g k = (1 \<le> k \<and> k < a_num g)"

text \<open>Index 0 is the superblock the allocator never uses.\<close>

definition cached :: "aheap \<Rightarrow> nat \<times> nat \<Rightarrow> bool" where
  "cached g b = (\<exists>t c. 1 \<le> c \<and> c < 40 \<and> b \<in> set (a_cache g t c))"

definition alive :: "aheap \<Rightarrow> (nat \<times> nat) set" where
  "alive g = {(k, i). sb_valid g k \<and>
     (case a_kind g k of
        Small c \<Rightarrow> i < bnum c \<and> i \<notin> set (a_free g k) \<and> \<not> cached g (k, i)
      | Large m \<Rightarrow> i = 0
      | _ \<Rightarrow> False)}"

definition kinds_ok :: "aheap \<Rightarrow> bool" where
  "kinds_ok g \<longleftrightarrow> 1 \<le> a_num g \<and>
     (\<forall>k c. sb_valid g k \<longrightarrow> a_kind g k = Small c \<longrightarrow>
        1 \<le> c \<and> c < 40 \<and> distinct (a_free g k) \<and> set (a_free g k) \<subseteq> {..<bnum c}) \<and>
     (\<forall>k. sb_valid g k \<longrightarrow> (\<forall>c. a_kind g k \<noteq> Small c) \<longrightarrow> a_free g k = []) \<and>
     (\<forall>k m. sb_valid g k \<longrightarrow> a_kind g k = Large m \<longrightarrow>
        1 \<le> m \<and> m < 65536 \<and> k + m \<le> a_num g \<and> (\<forall>j. k < j \<and> j < k + m \<longrightarrow> a_kind g j = Tail))"

definition lists_ok :: "aheap \<Rightarrow> bool" where
  "lists_ok g \<longleftrightarrow>
     distinct (a_avail g) \<and> set (a_avail g) = {k. sb_valid g k \<and> a_kind g k = Unused} \<and>
     (\<forall>c. 1 \<le> c \<and> c < 40 \<longrightarrow> distinct (a_part g c) \<and>
        set (a_part g c) = {k. sb_valid g k \<and> a_kind g k = Small c \<and> a_free g k \<noteq> []})"

definition caches_ok :: "aheap \<Rightarrow> bool" where
  "caches_ok g \<longleftrightarrow>
     (\<forall>t c. 1 \<le> c \<and> c < 40 \<longrightarrow> distinct (a_cache g t c) \<and> length (a_cache g t c) \<le> bnum c \<and>
        (\<forall>k i. (k, i) \<in> set (a_cache g t c) \<longrightarrow>
           sb_valid g k \<and> a_kind g k = Small c \<and> i < bnum c \<and> i \<notin> set (a_free g k)) \<and>
        (\<forall>t'. t' \<noteq> t \<longrightarrow> set (a_cache g t c) \<inter> set (a_cache g t' c) = {}))"

definition ainv :: "aheap \<Rightarrow> bool" where
  "ainv g \<longleftrightarrow> kinds_ok g \<and> lists_ok g \<and> caches_ok g"

definition block_size_of :: "aheap \<Rightarrow> nat \<Rightarrow> nat" where
  "block_size_of g k = (case a_kind g k of Small c \<Rightarrow> bsz c | Large m \<Rightarrow> 65536 * m | _ \<Rightarrow> 0)"

subsection \<open>Operations\<close>

definition a_retire :: "nat \<Rightarrow> aheap \<Rightarrow> aheap" where
  "a_retire k g = g\<lparr>a_kind := (a_kind g)(k := Unused), a_free := (a_free g)(k := []),
     a_avail := k # a_avail g\<rparr>"

definition a_organize :: "nat \<Rightarrow> nat \<Rightarrow> aheap \<Rightarrow> aheap" where
  "a_organize j n g = g\<lparr>a_kind := (\<lambda>i. if j \<le> i \<and> i < j + n then Unused else a_kind g i),
     a_free := (\<lambda>i. if j \<le> i \<and> i < j + n then [] else a_free g i),
     a_avail := [j..<j + n] @ a_avail g\<rparr>"

definition a_grow :: "nat \<Rightarrow> aheap \<Rightarrow> aheap" where
  "a_grow n g = g\<lparr>a_num := a_num g + n,
     a_kind := (\<lambda>i. if a_num g \<le> i \<and> i < a_num g + n then Tail else a_kind g i),
     a_free := (\<lambda>i. if a_num g \<le> i \<and> i < a_num g + n then [] else a_free g i)\<rparr>"

text \<open>The superblock \<^verbatim>\<open>small_sb_alloc\<close> returns, and the heap without it on the list.\<close>

definition a_take_sb :: "aheap \<Rightarrow> nat \<times> aheap" where
  "a_take_sb g = (case a_avail g of
     k # ks \<Rightarrow> (k, g\<lparr>a_avail := ks\<rparr>)
   | [] \<Rightarrow> let n = a_num g; g1 = a_organize (Suc n) 16383 (a_grow 16384 g)
          in (n, g1\<lparr>a_kind := (a_kind g1)(n := Unused), a_free := (a_free g1)(n := [])\<rparr>))"

text \<open>\<^verbatim>\<open>malloc_from_partial\<close>: an empty superblock is retired, another one gives all its free blocks.\<close>

definition set_a_cache :: "nat \<Rightarrow> nat \<Rightarrow> (nat \<times> nat) list \<Rightarrow> aheap \<Rightarrow> aheap" where
  "set_a_cache t c bs g = g\<lparr>a_cache := (a_cache g)(t := (a_cache g t)(c := bs))\<rparr>"

definition a_drop_empty :: "nat \<Rightarrow> nat \<Rightarrow> aheap \<Rightarrow> aheap" where
  "a_drop_empty c k g = a_retire k (g\<lparr>a_part := (a_part g)(c := tl (a_part g c))\<rparr>)"

definition a_take_partial :: "nat \<Rightarrow> nat \<Rightarrow> nat \<Rightarrow> aheap \<Rightarrow> aheap" where
  "a_take_partial t c k g =
     set_a_cache t c (map (Pair k) (a_free g k))
       (g\<lparr>a_part := (a_part g)(c := tl (a_part g c)), a_free := (a_free g)(k := [])\<rparr>)"

text \<open>\<^verbatim>\<open>malloc_from_newsb\<close>\<close>

definition a_new_sb :: "nat \<Rightarrow> nat \<Rightarrow> aheap \<Rightarrow> aheap" where
  "a_new_sb t c g = (case a_take_sb g of (k, g1) \<Rightarrow>
     set_a_cache t c (map (Pair k) [0..<bnum c]) (g1\<lparr>a_kind := (a_kind g1)(k := Small c)\<rparr>))"

text \<open>One iteration of \<^verbatim>\<open>flush_cache\<close>: the first run of blocks from one superblock goes back to it.\<close>

definition a_flush_run :: "nat \<Rightarrow> nat \<Rightarrow> aheap \<Rightarrow> aheap" where
  "a_flush_run t c g =
     (let k = fst (hd (a_cache g t c));
          run = takeWhile (\<lambda>b. fst b = k) (a_cache g t c);
          rest = dropWhile (\<lambda>b. fst b = k) (a_cache g t c);
          g1 = set_a_cache t c rest (g\<lparr>a_free := (a_free g)(k := map snd run @ a_free g k)\<rparr>)
      in if a_free g k = [] then
           if length run = bnum c then a_retire k g1
           else g1\<lparr>a_part := (a_part g1)(c := k # a_part g1 c)\<rparr>
         else g1)"

text \<open>A large block of \<open>m\<close> superblocks, taken from the region and given back.\<close>

definition a_large_alloc :: "nat \<Rightarrow> aheap \<Rightarrow> aheap" where
  "a_large_alloc m g = (a_grow m g)\<lparr>a_kind := (a_kind (a_grow m g))(a_num g := Large m)\<rparr>"

subsection \<open>The invariant\<close>

text \<open>The same blocks are live, and in superblocks of the same kind.\<close>

definition same_live :: "aheap \<Rightarrow> aheap \<Rightarrow> bool" where
  "same_live g g' \<longleftrightarrow> alive g' = alive g \<and> (\<forall>k i. (k, i) \<in> alive g \<longrightarrow> a_kind g' k = a_kind g k)"

lemma ainvD:
  assumes "ainv g"
  shows "kinds_ok g" and "lists_ok g" and "caches_ok g" and "1 \<le> a_num g"
  using assms by (simp_all add: ainv_def kinds_ok_def)

lemma ainv_small:
  assumes "ainv g" and "sb_valid g k" and "a_kind g k = Small c"
  shows "1 \<le> c" and "c < 40" and "distinct (a_free g k)" and "set (a_free g k) \<subseteq> {..<bnum c}"
  using ainvD(1) [OF assms(1)] assms(2,3) by (auto simp: kinds_ok_def)

lemma ainv_not_small:
  assumes "ainv g" and "sb_valid g k" and "\<And>c. a_kind g k \<noteq> Small c"
  shows "a_free g k = []"
  using ainvD(1) [OF assms(1)] assms(2,3) by (auto simp: kinds_ok_def)

lemma ainv_large:
  assumes "ainv g" and "sb_valid g k" and "a_kind g k = Large m"
  shows "1 \<le> m" and "m < 65536" and "k + m \<le> a_num g" and "\<And>j. k < j \<Longrightarrow> j < k + m \<Longrightarrow> a_kind g j = Tail"
  using ainvD(1) [OF assms(1)] assms(2,3) by (auto simp: kinds_ok_def)

lemma ainv_avail:
  assumes "ainv g"
  shows "distinct (a_avail g)" and "k \<in> set (a_avail g) \<longleftrightarrow> sb_valid g k \<and> a_kind g k = Unused"
  using ainvD(2) [OF assms] by (auto simp: lists_ok_def)

lemma ainv_part:
  assumes "ainv g" and "1 \<le> c" and "c < 40"
  shows "distinct (a_part g c)"
    and "k \<in> set (a_part g c) \<longleftrightarrow> sb_valid g k \<and> a_kind g k = Small c \<and> a_free g k \<noteq> []"
  using ainvD(2) [OF assms(1)] assms(2,3) by (auto simp: lists_ok_def)

lemma ainv_cache:
  assumes "ainv g" and "1 \<le> c" and "c < 40"
  shows "distinct (a_cache g t c)" and "length (a_cache g t c) \<le> bnum c"
    and "(k, i) \<in> set (a_cache g t c) \<Longrightarrow>
      sb_valid g k \<and> a_kind g k = Small c \<and> i < bnum c \<and> i \<notin> set (a_free g k)"
    and "t' \<noteq> t \<Longrightarrow> set (a_cache g t c) \<inter> set (a_cache g t' c) = {}"
  using ainvD(3) [OF assms(1)] assms(2,3) by (auto simp: caches_ok_def)

lemma kinds_okI:
  assumes "1 \<le> a_num g"
    and "\<And>k c. sb_valid g k \<Longrightarrow> a_kind g k = Small c \<Longrightarrow>
      1 \<le> c \<and> c < 40 \<and> distinct (a_free g k) \<and> set (a_free g k) \<subseteq> {..<bnum c}"
    and "\<And>k. sb_valid g k \<Longrightarrow> (\<And>c. a_kind g k \<noteq> Small c) \<Longrightarrow> a_free g k = []"
    and "\<And>k m. sb_valid g k \<Longrightarrow> a_kind g k = Large m \<Longrightarrow> 1 \<le> m \<and> m < 65536 \<and> k + m \<le> a_num g"
    and "\<And>k m j. sb_valid g k \<Longrightarrow> a_kind g k = Large m \<Longrightarrow> k < j \<Longrightarrow> j < k + m \<Longrightarrow> a_kind g j = Tail"
  shows "kinds_ok g"
  using assms unfolding kinds_ok_def by blast

lemma lists_okI:
  assumes "distinct (a_avail g)"
    and "\<And>k. k \<in> set (a_avail g) \<longleftrightarrow> sb_valid g k \<and> a_kind g k = Unused"
    and "\<And>c. 1 \<le> c \<Longrightarrow> c < 40 \<Longrightarrow> distinct (a_part g c)"
    and "\<And>c k. 1 \<le> c \<Longrightarrow> c < 40 \<Longrightarrow>
      k \<in> set (a_part g c) \<longleftrightarrow> sb_valid g k \<and> a_kind g k = Small c \<and> a_free g k \<noteq> []"
  shows "lists_ok g"
  using assms unfolding lists_ok_def by blast

lemma caches_okI:
  assumes "\<And>t c. 1 \<le> c \<Longrightarrow> c < 40 \<Longrightarrow> distinct (a_cache g t c)"
    and "\<And>t c. 1 \<le> c \<Longrightarrow> c < 40 \<Longrightarrow> length (a_cache g t c) \<le> bnum c"
    and "\<And>t c k i. 1 \<le> c \<Longrightarrow> c < 40 \<Longrightarrow> (k, i) \<in> set (a_cache g t c) \<Longrightarrow>
      sb_valid g k \<and> a_kind g k = Small c \<and> i < bnum c \<and> i \<notin> set (a_free g k)"
    and "\<And>t t' c. 1 \<le> c \<Longrightarrow> c < 40 \<Longrightarrow> t' \<noteq> t \<Longrightarrow> set (a_cache g t c) \<inter> set (a_cache g t' c) = {}"
  shows "caches_ok g"
  using assms unfolding caches_ok_def by blast

lemma same_liveI:
  assumes "\<And>k i. (k, i) \<in> alive g' \<longleftrightarrow> (k, i) \<in> alive g"
    and "\<And>k i. (k, i) \<in> alive g \<Longrightarrow> a_kind g' k = a_kind g k"
  shows "same_live g g'"
  using assms by (auto simp: same_live_def)

text \<open>A superblock all of whose blocks are free has none in a cache.\<close>

lemma full_free:
  assumes "ainv g" and "sb_valid g k" and "a_kind g k = Small c" and "length (a_free g k) = bnum c"
  shows "set (a_free g k) = {..<bnum c}"
proof (rule card_subset_eq)
  show "set (a_free g k) \<subseteq> {..<bnum c}" by (rule ainv_small [OF assms(1-3)])
  show "card (set (a_free g k)) = card {..<bnum c}"
    using distinct_card [OF ainv_small(3) [OF assms(1-3)]] assms(4) by simp
qed simp

lemma full_free_not_cached:
  assumes "ainv g" and "sb_valid g k" and "a_kind g k = Small c" and "length (a_free g k) = bnum c"
    and "1 \<le> c'" and "c' < 40"
  shows "(k, i) \<notin> set (a_cache g t c')"
proof
  assume "(k, i) \<in> set (a_cache g t c')"
  from ainv_cache(3) [OF assms(1,5,6) this] full_free [OF assms(1-4)] assms(3) show False by auto
qed

lemma same_live_refl: "same_live g g"
  by (simp add: same_live_def)

lemma same_live_trans: "same_live g g1 \<Longrightarrow> same_live g1 g2 \<Longrightarrow> same_live g g2"
  by (auto simp: same_live_def)

lemma same_live_size: "same_live g g' \<Longrightarrow> (k, i) \<in> alive g \<Longrightarrow> block_size_of g' k = block_size_of g k"
  by (auto simp: same_live_def block_size_of_def)

lemma alive_iff:
  "(k, i) \<in> alive g \<longleftrightarrow> sb_valid g k \<and>
     ((\<exists>c. a_kind g k = Small c \<and> i < bnum c \<and> i \<notin> set (a_free g k) \<and> \<not> cached g (k, i))
      \<or> (\<exists>m. a_kind g k = Large m \<and> i = 0))"
  by (auto simp: alive_def split: sb_kind.splits)

subsection \<open>Retiring an empty superblock\<close>

lemma a_drop_empty_simps [simp]:
  "a_num (a_drop_empty c k g) = a_num g" "sb_valid (a_drop_empty c k g) = sb_valid g"
  "a_kind (a_drop_empty c k g) = (a_kind g)(k := Unused)"
  "a_free (a_drop_empty c k g) = (a_free g)(k := [])"
  "a_avail (a_drop_empty c k g) = k # a_avail g"
  "a_part (a_drop_empty c k g) = (a_part g)(c := tl (a_part g c))"
  "a_cache (a_drop_empty c k g) = a_cache g" "cached (a_drop_empty c k g) = cached g"
  by (simp_all add: a_drop_empty_def a_retire_def fun_eq_iff sb_valid_def cached_def)

lemma a_drop_empty_ok:
  assumes inv: "ainv g" and c: "1 \<le> c" "c < 40" and part: "a_part g c = k # ks"
    and full: "length (a_free g k) = bnum c"
  shows "ainv (a_drop_empty c k g)" and "same_live g (a_drop_empty c k g)"
proof -
  let ?g' = "a_drop_empty c k g"
  have k: "sb_valid g k" "a_kind g k = Small c" "k \<notin> set ks"
    using ainv_part [OF inv c] part by auto
  have nc: "(k, i) \<notin> set (a_cache g t c')" if "1 \<le> c'" "c' < 40" for i t c'
    by (rule full_free_not_cached [OF inv k(1,2) full that])
  have "kinds_ok ?g'"
  proof (rule kinds_okI)
    fix j m i assume "sb_valid ?g' j" "a_kind ?g' j = Large m" "j < i" "i < j + m"
    then have "a_kind g i = Tail" using ainv_large(4) [OF inv, of j m i] by (auto split: if_splits)
    then show "a_kind ?g' i = Tail" using k(2) by auto
  next
    fix j assume "sb_valid ?g' j" "\<And>c. a_kind ?g' j \<noteq> Small c"
    then show "a_free ?g' j = []" using ainv_not_small [OF inv, of j] by (cases "j = k") auto
  qed (use ainvD(4) [OF inv] in
      \<open>auto dest: ainv_small [OF inv] ainv_large(1-3) [OF inv] split: if_splits\<close>)
  moreover have "lists_ok ?g'"
  proof (rule lists_okI)
    fix c' :: nat assume c': "1 \<le> c'" "c' < 40"
    show "distinct (a_part ?g' c')"
      using ainv_part(1) [OF inv c'] by (auto simp: distinct_tl)
    show "j \<in> set (a_part ?g' c') \<longleftrightarrow> sb_valid ?g' j \<and> a_kind ?g' j = Small c' \<and> a_free ?g' j \<noteq> []" for j
      using ainv_part(2) [OF inv c', of j] part k by auto
  qed (use ainv_avail [OF inv] k in auto)
  moreover have "caches_ok ?g'"
  proof (rule caches_okI)
    fix t c' j i :: nat assume c': "1 \<le> c'" "c' < 40" and in_c: "(j, i) \<in> set (a_cache ?g' t c')"
    then have "j \<noteq> k" using nc [OF c'] by auto
    then show "sb_valid ?g' j \<and> a_kind ?g' j = Small c' \<and> i < bnum c' \<and> i \<notin> set (a_free ?g' j)"
      using ainv_cache(3) [OF inv c'] in_c by simp
  qed (simp_all add: ainv_cache(1,2,4) [OF inv])
  ultimately show "ainv ?g'" by (simp add: ainv_def)
  have "(k, i) \<notin> alive g" for i
    using full_free [OF inv k(1,2) full] k(2) by (simp add: alive_iff)
  moreover have "(k, i) \<notin> alive ?g'" for i by (simp add: alive_iff)
  moreover have "(j, i) \<in> alive ?g' \<longleftrightarrow> (j, i) \<in> alive g" if "j \<noteq> k" for j i
    using that by (simp add: alive_iff)
  moreover have "a_kind ?g' j = a_kind g j" if "j \<noteq> k" for j using that by simp
  ultimately show "same_live g ?g'" by (intro same_liveI) metis+
qed

subsection \<open>Filling a cache\<close>

lemma set_a_cache_simps [simp]:
  "a_num (set_a_cache t c bs g) = a_num g" "sb_valid (set_a_cache t c bs g) = sb_valid g"
  "a_kind (set_a_cache t c bs g) = a_kind g" "a_free (set_a_cache t c bs g) = a_free g"
  "a_avail (set_a_cache t c bs g) = a_avail g" "a_part (set_a_cache t c bs g) = a_part g"
  "a_cache (set_a_cache t c bs g) t' c' = (if t' = t \<and> c' = c then bs else a_cache g t' c')"
  by (simp_all add: set_a_cache_def fun_eq_iff sb_valid_def)

lemma a_take_partial_simps [simp]:
  "a_num (a_take_partial t c k g) = a_num g" "sb_valid (a_take_partial t c k g) = sb_valid g"
  "a_kind (a_take_partial t c k g) = a_kind g"
  "a_free (a_take_partial t c k g) = (a_free g)(k := [])"
  "a_avail (a_take_partial t c k g) = a_avail g"
  "a_part (a_take_partial t c k g) = (a_part g)(c := tl (a_part g c))"
  "a_cache (a_take_partial t c k g) t' c' =
     (if t' = t \<and> c' = c then map (Pair k) (a_free g k) else a_cache g t' c')"
  by (simp_all add: a_take_partial_def fun_eq_iff sb_valid_def)

text \<open>The caches other than that of class \<open>c\<close> of thread \<open>t\<close>.\<close>

definition cached_but :: "nat \<Rightarrow> nat \<Rightarrow> aheap \<Rightarrow> nat \<times> nat \<Rightarrow> bool" where
  "cached_but t c g b = (\<exists>t' c'. 1 \<le> c' \<and> c' < 40 \<and> (t', c') \<noteq> (t, c) \<and> b \<in> set (a_cache g t' c'))"

lemma cached_split:
  "1 \<le> c \<Longrightarrow> c < 40 \<Longrightarrow> cached g b \<longleftrightarrow> b \<in> set (a_cache g t c) \<or> cached_but t c g b"
  unfolding cached_def cached_but_def by (metis prod.inject)

lemma cached_but_cong:
  assumes "\<And>t' c'. (t', c') \<noteq> (t, c) \<Longrightarrow> a_cache g' t' c' = a_cache g t' c'"
  shows "cached_but t c g' = cached_but t c g"
  by (rule ext) (unfold cached_but_def, metis assms)

lemma cached_but_disjoint:
  assumes inv: "ainv g" and "1 \<le> c" "c < 40" and "b \<in> set (a_cache g t c)"
  shows "\<not> cached_but t c g b"
proof
  assume "cached_but t c g b"
  then obtain t' c' where o: "1 \<le> c'" "c' < 40" "(t', c') \<noteq> (t, c)" "b \<in> set (a_cache g t' c')"
    by (auto simp: cached_but_def)
  obtain k i where b: "b = (k, i)" by (cases b)
  have "c' = c"
    using ainv_cache(3) [OF inv assms(2,3), of k i t] ainv_cache(3) [OF inv o(1,2), of k i t'] o(4) assms(4) b
    by simp
  then show False using ainv_cache(4) [OF inv assms(2,3), of t' t] o(3,4) assms(4) by auto
qed

text \<open>Blocks that move between a free list and the caches were not live and are not live.\<close>

lemma same_live_moved:
  assumes "sb_valid g' = sb_valid g" and "a_kind g' = a_kind g"
    and "\<And>k i c. sb_valid g k \<Longrightarrow> a_kind g k = Small c \<Longrightarrow>
      (i \<in> set (a_free g' k) \<or> cached g' (k, i)) \<longleftrightarrow> (i \<in> set (a_free g k) \<or> cached g (k, i))"
  shows "same_live g g'"
proof -
  have "(i \<notin> set (a_free g' k) \<and> \<not> cached g' (k, i)) \<longleftrightarrow> (i \<notin> set (a_free g k) \<and> \<not> cached g (k, i))"
    if "sb_valid g k" "a_kind g k = Small c" for k i c
    using assms(3) [OF that] by blast
  then show ?thesis using assms(1,2) by (intro same_liveI; simp add: alive_iff; metis)
qed

lemma a_take_partial_ok:
  assumes inv: "ainv g" and c: "1 \<le> c" "c < 40" and part: "a_part g c = k # ks"
    and empty: "a_cache g t c = []"
  shows "ainv (a_take_partial t c k g)" and "same_live g (a_take_partial t c k g)"
proof -
  let ?g' = "a_take_partial t c k g" and ?fs = "a_free g k"
  have k: "sb_valid g k" "a_kind g k = Small c" "k \<notin> set ks"
    using ainv_part [OF inv c] part by auto
  have fs: "distinct ?fs" "set ?fs \<subseteq> {..<bnum c}" using ainv_small [OF inv k(1,2)] by simp_all
  have len: "length ?fs \<le> bnum c"
    using card_mono [OF _ fs(2)] distinct_card [OF fs(1)] by simp
  have sep: "i \<notin> set ?fs" if "(k, i) \<in> set (a_cache g t' c)" for i t'
    using ainv_cache(3) [OF inv c that] by simp
  have "kinds_ok ?g'"
    using ainvD(4) [OF inv]
    by (intro kinds_okI)
      (auto dest: ainv_small [OF inv] ainv_large [OF inv] ainv_not_small [OF inv] split: if_splits)
  moreover have "lists_ok ?g'"
  proof (rule lists_okI)
    fix c' :: nat assume c': "1 \<le> c'" "c' < 40"
    show "distinct (a_part ?g' c')" using ainv_part(1) [OF inv c'] by (auto simp: distinct_tl)
    show "j \<in> set (a_part ?g' c') \<longleftrightarrow> sb_valid ?g' j \<and> a_kind ?g' j = Small c' \<and> a_free ?g' j \<noteq> []" for j
      using ainv_part(2) [OF inv c', of j] part k by auto
  qed (use ainv_avail [OF inv] in simp_all)
  moreover have "caches_ok ?g'"
  proof (rule caches_okI)
    fix t' c' j i :: nat assume c': "1 \<le> c'" "c' < 40" and i: "(j, i) \<in> set (a_cache ?g' t' c')"
    show "sb_valid ?g' j \<and> a_kind ?g' j = Small c' \<and> i < bnum c' \<and> i \<notin> set (a_free ?g' j)"
      using ainv_cache(3) [OF inv c'] i k fs by (auto split: if_splits)
  next
    fix t1 t2 c' :: nat assume "1 \<le> c'" "c' < 40" "t2 \<noteq> t1"
    then show "set (a_cache ?g' t1 c') \<inter> set (a_cache ?g' t2 c') = {}"
      using ainv_cache(4) [OF inv, of c' t2 t1] sep by auto
  qed (simp_all add: ainv_cache(1,2) [OF inv] fs len distinct_map inj_on_def)
  ultimately show "ainv ?g'" by (simp add: ainv_def)
  have "cached_but t c ?g' = cached_but t c g" by (rule cached_but_cong) auto
  then have "cached ?g' (j, i) \<longleftrightarrow> cached g (j, i) \<or> (j = k \<and> i \<in> set ?fs)" for j i
    using cached_split [OF c, of _ "(j, i)" t] empty by auto
  then show "same_live g ?g'" by (intro same_live_moved) auto
qed

subsection \<open>A new superblock\<close>

lemma a_organize_simps [simp]:
  "a_num (a_organize j n g) = a_num g" "sb_valid (a_organize j n g) = sb_valid g"
  "a_kind (a_organize j n g) i = (if j \<le> i \<and> i < j + n then Unused else a_kind g i)"
  "a_free (a_organize j n g) i = (if j \<le> i \<and> i < j + n then [] else a_free g i)"
  "a_avail (a_organize j n g) = [j..<j + n] @ a_avail g"
  "a_part (a_organize j n g) = a_part g" "a_cache (a_organize j n g) = a_cache g"
  by (simp_all add: a_organize_def fun_eq_iff sb_valid_def)

lemma a_grow_simps [simp]:
  "a_num (a_grow n g) = a_num g + n"
  "a_kind (a_grow n g) i = (if a_num g \<le> i \<and> i < a_num g + n then Tail else a_kind g i)"
  "a_free (a_grow n g) i = (if a_num g \<le> i \<and> i < a_num g + n then [] else a_free g i)"
  "a_avail (a_grow n g) = a_avail g"
  "a_part (a_grow n g) = a_part g" "a_cache (a_grow n g) = a_cache g"
  by (simp_all add: a_grow_def)

lemma a_take_sb_props:
  assumes inv: "ainv g" and take: "a_take_sb g = (k, g1)"
  shows "sb_valid g1 k" and "a_num g \<le> a_num g1" and "a_part g1 = a_part g" and "a_cache g1 = a_cache g"
    and "\<And>j. sb_valid g j \<Longrightarrow> a_kind g1 j = a_kind g j \<and> a_free g1 j = a_free g j"
    and "\<And>j. sb_valid g1 j \<Longrightarrow> \<not> sb_valid g j \<Longrightarrow> a_kind g1 j = Unused \<and> a_free g1 j = []"
    and "a_kind g1 k = Unused" and "distinct (a_avail g1)"
    and "\<And>j. j \<in> set (a_avail g1) \<longleftrightarrow> sb_valid g1 j \<and> a_kind g1 j = Unused \<and> j \<noteq> k"
proof -
  have "sb_valid g1 k \<and> a_num g \<le> a_num g1 \<and> a_part g1 = a_part g \<and> a_cache g1 = a_cache g
    \<and> (\<forall>j. sb_valid g j \<longrightarrow> a_kind g1 j = a_kind g j \<and> a_free g1 j = a_free g j)
    \<and> (\<forall>j. sb_valid g1 j \<and> \<not> sb_valid g j \<longrightarrow> a_kind g1 j = Unused \<and> a_free g1 j = [])
    \<and> a_kind g1 k = Unused \<and> distinct (a_avail g1)
    \<and> (\<forall>j. j \<in> set (a_avail g1) \<longleftrightarrow> sb_valid g1 j \<and> a_kind g1 j = Unused \<and> j \<noteq> k)"
  proof (cases "a_avail g")
    case (Cons j js)
    then have "k = j" "g1 = g\<lparr>a_avail := js\<rparr>" using take by (auto simp: a_take_sb_def)
    then show ?thesis using Cons ainv_avail [OF inv] by (auto simp: sb_valid_def)
  next
    case Nil
    have none: "a_kind g j \<noteq> Unused" if "sb_valid g j" for j using ainv_avail(2) [OF inv, of j] Nil that by simp
    have g1: "k = a_num g" "a_num g1 = a_num g + 16384" "a_part g1 = a_part g" "a_cache g1 = a_cache g"
      "a_avail g1 = [Suc k..<k + 16384]"
      "\<And>i. a_kind g1 i = (if a_num g \<le> i \<and> i < a_num g + 16384 then Unused else a_kind g i)"
      "\<And>i. a_free g1 i = (if a_num g \<le> i \<and> i < a_num g + 16384 then [] else a_free g i)"
      using take Nil by (auto simp: a_take_sb_def Let_def add.commute)
    then show ?thesis using ainvD(4) [OF inv] none by (auto simp: sb_valid_def)
  qed
  then show "sb_valid g1 k" and "a_num g \<le> a_num g1" and "a_part g1 = a_part g" and "a_cache g1 = a_cache g"
    and "\<And>j. sb_valid g j \<Longrightarrow> a_kind g1 j = a_kind g j \<and> a_free g1 j = a_free g j"
    and "\<And>j. sb_valid g1 j \<Longrightarrow> \<not> sb_valid g j \<Longrightarrow> a_kind g1 j = Unused \<and> a_free g1 j = []"
    and "a_kind g1 k = Unused" and "distinct (a_avail g1)"
    and "\<And>j. j \<in> set (a_avail g1) \<longleftrightarrow> sb_valid g1 j \<and> a_kind g1 j = Unused \<and> j \<noteq> k"
    by simp_all
qed

lemma a_new_sb_ok:
  assumes inv: "ainv g" and c: "1 \<le> c" "c < 40" and empty: "a_cache g t c = []"
  shows "ainv (a_new_sb t c g)" and "same_live g (a_new_sb t c g)"
proof -
  obtain k g1 where take: "a_take_sb g = (k, g1)" by (cases "a_take_sb g")
  note p = a_take_sb_props [OF inv take]
  let ?g' = "a_new_sb t c g"
  have g': "a_num ?g' = a_num g1" "sb_valid ?g' = sb_valid g1" "a_kind ?g' = (a_kind g1)(k := Small c)"
    "a_free ?g' = a_free g1" "a_avail ?g' = a_avail g1" "a_part ?g' = a_part g"
    "\<And>t' c'. a_cache ?g' t' c' = (if t' = t \<and> c' = c then map (Pair k) [0..<bnum c] else a_cache g t' c')"
    using p(3,4) by (simp_all add: a_new_sb_def take fun_eq_iff sb_valid_def)
  have v1: "sb_valid g1 j" if "sb_valid g j" for j using that p(2) by (simp add: sb_valid_def)
  have kk: "a_kind g j = Unused" if "sb_valid g j" "j = k" for j using p(5) [OF that(1)] p(7) that(2) by simp
  have fk: "a_free g1 k = []"
    using p(1) p(5) [of k] p(6) [of k] kk [of k] ainv_not_small [OF inv, of k] by (cases "sb_valid g k") auto
  have other: "a_kind g1 j = a_kind g j \<and> a_free g1 j = a_free g j \<and> sb_valid g j
      \<or> a_kind g1 j = Unused \<and> a_free g1 j = []" if "sb_valid g1 j" for j
    using p(5) [of j] p(6) [of j] that by blast
  have big: "a_kind g1 j = a_kind g j" "a_kind g j \<noteq> Unused \<Longrightarrow> j \<noteq> k" if "sb_valid g j" for j
    using p(5) [OF that] kk [OF that] by auto
  have "kinds_ok ?g'"
  proof (rule kinds_okI)
    fix j m i assume a: "sb_valid ?g' j" "a_kind ?g' j = Large m" "j < i" "i < j + m"
    then have j: "sb_valid g j" "a_kind g j = Large m"
      using other [of j] by (auto simp: g' split: if_splits)
    have "sb_valid g i" using a(3,4) ainv_large(3) [OF inv j] by (simp add: sb_valid_def)
    then show "a_kind ?g' i = Tail"
      using ainv_large(4) [OF inv j a(3,4)] big [of i] by (simp add: g')
  next
    fix j c' assume "sb_valid ?g' j" "a_kind ?g' j = Small c'"
    then show "1 \<le> c' \<and> c' < 40 \<and> distinct (a_free ?g' j) \<and> set (a_free ?g' j) \<subseteq> {..<bnum c'}"
      using c fk other [of j] ainv_small [OF inv, of j c'] by (auto simp: g' split: if_splits)
  next
    fix j m assume "sb_valid ?g' j" "a_kind ?g' j = Large m"
    then show "1 \<le> m \<and> m < 65536 \<and> j + m \<le> a_num ?g'"
      using other [of j] ainv_large(1-3) [OF inv, of j m] p(2) by (auto simp: g' split: if_splits)
  next
    fix j assume a: "sb_valid ?g' j" "\<And>c. a_kind ?g' j \<noteq> Small c"
    have "j \<noteq> k" using a(2) [of c] by (auto simp: g')
    then have "a_kind g1 j \<noteq> Small c'" for c' using a(2) [of c'] by (simp add: g')
    then show "a_free ?g' j = []"
      using a(1) other [of j] ainv_not_small [OF inv, of j] by (auto simp: g')
  qed (use ainvD(4) [OF inv] p(2) in \<open>simp add: g'\<close>)
  moreover have "lists_ok ?g'"
  proof (rule lists_okI)
    fix c' :: nat assume c': "1 \<le> c'" "c' < 40"
    show "distinct (a_part ?g' c')" using ainv_part(1) [OF inv c'] by (simp add: g')
    show "j \<in> set (a_part ?g' c') \<longleftrightarrow> sb_valid ?g' j \<and> a_kind ?g' j = Small c' \<and> a_free ?g' j \<noteq> []" for j
      using ainv_part(2) [OF inv c', of j] other [of j] big [of j] v1 [of j] fk p(5) [of j]
      by (auto simp: g')
  qed (use p(8,9) in \<open>auto simp: g'\<close>)
  moreover have "caches_ok ?g'"
  proof (rule caches_okI)
    fix t' c' j i :: nat assume c': "1 \<le> c'" "c' < 40" and i: "(j, i) \<in> set (a_cache ?g' t' c')"
    show "sb_valid ?g' j \<and> a_kind ?g' j = Small c' \<and> i < bnum c' \<and> i \<notin> set (a_free ?g' j)"
      using ainv_cache(3) [OF inv c', of j i t'] i p(1) fk v1 [of j] big [of j] p(5) [of j]
      by (auto simp: g' split: if_splits)
  next
    fix t1 t2 c' :: nat assume a: "1 \<le> c'" "c' < 40" "t2 \<noteq> t1"
    have "k \<noteq> j" if "(j, i) \<in> set (a_cache g t' c')" for j i t'
      using ainv_cache(3) [OF inv a(1,2) that] big(2) [of j] by auto
    then show "set (a_cache ?g' t1 c') \<inter> set (a_cache ?g' t2 c') = {}"
      using ainv_cache(4) [OF inv a(1,2), of t2 t1] a(3) by (auto simp: g')
  qed (simp_all add: g' ainv_cache(1,2) [OF inv] distinct_map inj_on_def)
  ultimately show "ainv ?g'" by (simp add: ainv_def)
  have "cached_but t c ?g' = cached_but t c g" by (rule cached_but_cong) (auto simp: g')
  then have ca: "cached ?g' (j, i) \<longleftrightarrow> cached g (j, i) \<or> (j = k \<and> i < bnum c)" for j i
    using cached_split [OF c, of _ "(j, i)" t] empty by (auto simp: g')
  show "same_live g ?g'"
  proof (rule same_liveI)
    fix j i
    show "(j, i) \<in> alive ?g' \<longleftrightarrow> (j, i) \<in> alive g"
    proof (cases "sb_valid g j \<and> j \<noteq> k")
      case True
      then show ?thesis using v1 [of j] p(5) [of j] by (simp add: alive_iff g' ca)
    next
      case False
      then have "\<not> sb_valid g j \<or> a_kind g j = Unused" using kk [of j] by blast
      then have "(j, i) \<notin> alive g" by (elim disjE) (simp_all add: alive_iff)
      moreover have "(j, i) \<notin> alive ?g'"
        using False p(6) [of j] by (cases "j = k") (simp_all add: alive_iff g' ca)
      ultimately show ?thesis by simp
    qed
    show "a_kind ?g' j = a_kind g j" if "(j, i) \<in> alive g"
      using that big [of j] by (auto simp: alive_iff g')
  qed
qed

subsection \<open>Flushing a cache\<close>

text \<open>The run goes to the free list; the superblock joins its partial list unless it is there.\<close>

definition a_return :: "nat \<Rightarrow> nat \<Rightarrow> nat \<Rightarrow> nat list \<Rightarrow> (nat \<times> nat) list \<Rightarrow> aheap \<Rightarrow> aheap" where
  "a_return t c k bs rest g =
     set_a_cache t c rest
       (g\<lparr>a_free := (a_free g)(k := bs @ a_free g k),
          a_part := (if a_free g k = [] then (a_part g)(c := k # a_part g c) else a_part g)\<rparr>)"

lemma a_return_simps [simp]:
  "a_num (a_return t c k bs rest g) = a_num g" "sb_valid (a_return t c k bs rest g) = sb_valid g"
  "a_kind (a_return t c k bs rest g) = a_kind g"
  "a_free (a_return t c k bs rest g) = (a_free g)(k := bs @ a_free g k)"
  "a_avail (a_return t c k bs rest g) = a_avail g"
  "a_part (a_return t c k bs rest g) = (if a_free g k = [] then (a_part g)(c := k # a_part g c) else a_part g)"
  "a_cache (a_return t c k bs rest g) t' c' = (if t' = t \<and> c' = c then rest else a_cache g t' c')"
  by (simp_all add: a_return_def fun_eq_iff sb_valid_def)

lemma a_return_ok:
  assumes inv: "ainv g" and c: "1 \<le> c" "c < 40" and cache: "a_cache g t c = map (Pair k) bs @ rest"
    and ne: "bs \<noteq> []"
  shows "ainv (a_return t c k bs rest g)" and "same_live g (a_return t c k bs rest g)"
proof -
  let ?g' = "a_return t c k bs rest g"
  have inb: "(k, i) \<in> set (a_cache g t c)" if "i \<in> set bs" for i using that cache by auto
  have k: "sb_valid g k" "a_kind g k = Small c"
    using ainv_cache(3) [OF inv c inb [of "hd bs"]] ne by simp_all
  have bs: "set bs \<subseteq> {..<bnum c}" "set bs \<inter> set (a_free g k) = {}"
    using ainv_cache(3) [OF inv c inb] by auto
  have br: "(k, i) \<notin> set rest" if "i \<in> set bs" for i
    using ainv_cache(1) [OF inv c, of t] that by (auto simp: cache distinct_map)
  have db': "distinct bs" "distinct rest"
    using ainv_cache(1) [OF inv c, of t] by (auto simp: cache distinct_map)
  have fs: "distinct (a_free g k)" "set (a_free g k) \<subseteq> {..<bnum c}"
    using ainv_small [OF inv k] by simp_all
  have other: "i \<notin> set bs" if "(k, i) \<in> set (a_cache g t' c')" "1 \<le> c'" "c' < 40" "(t', c') \<noteq> (t, c)" for i t' c'
  proof
    assume "i \<in> set bs"
    from cached_but_disjoint [OF inv c inb [OF this]] show False
      using that unfolding cached_but_def by metis
  qed
  have "kinds_ok ?g'"
  proof (rule kinds_okI)
    fix j c' assume a: "sb_valid ?g' j" "a_kind ?g' j = Small c'"
    show "1 \<le> c' \<and> c' < 40 \<and> distinct (a_free ?g' j) \<and> set (a_free ?g' j) \<subseteq> {..<bnum c'}"
      using a ainv_small [OF inv, of j c'] bs db' fs k by (cases "j = k") auto
  next
    fix j assume "sb_valid ?g' j" "\<And>c. a_kind ?g' j \<noteq> Small c"
    then show "a_free ?g' j = []" using k(2) ainv_not_small [OF inv, of j] by (cases "j = k") auto
  qed (use ainvD(4) [OF inv] in \<open>auto dest: ainv_large [OF inv]\<close>)
  moreover have "lists_ok ?g'"
  proof (rule lists_okI)
    fix c' :: nat assume c': "1 \<le> c'" "c' < 40"
    have p: "k \<in> set (a_part g c') \<longleftrightarrow> c' = c \<and> a_free g k \<noteq> []"
      using ainv_part(2) [OF inv c', of k] k by auto
    show "distinct (a_part ?g' c')" using ainv_part(1) [OF inv c'] p by auto
    show "j \<in> set (a_part ?g' c') \<longleftrightarrow> sb_valid ?g' j \<and> a_kind ?g' j = Small c' \<and> a_free ?g' j \<noteq> []" for j
      using ainv_part(2) [OF inv c', of j] k ne by (cases "j = k") auto
  qed (use ainv_avail [OF inv] in simp_all)
  moreover have "caches_ok ?g'"
  proof (rule caches_okI)
    fix t' c' j i :: nat assume c': "1 \<le> c'" "c' < 40" and i: "(j, i) \<in> set (a_cache ?g' t' c')"
    then have "(j, i) \<in> set (a_cache g t' c')" using cache by (auto split: if_splits)
    moreover from this have "j = k \<Longrightarrow> i \<notin> set bs"
      using other [of i t' c'] c' br [of i] i by (auto split: if_splits)
    ultimately show "sb_valid ?g' j \<and> a_kind ?g' j = Small c' \<and> i < bnum c' \<and> i \<notin> set (a_free ?g' j)"
      using ainv_cache(3) [OF inv c', of j i t'] by auto
  next
    fix t1 t2 c' :: nat assume a: "1 \<le> c'" "c' < 40" "t2 \<noteq> t1"
    then show "set (a_cache ?g' t1 c') \<inter> set (a_cache ?g' t2 c') = {}"
      using ainv_cache(4) [OF inv a] cache by auto
  next
    fix t' c' :: nat assume c': "1 \<le> c'" "c' < 40"
    show "distinct (a_cache ?g' t' c')" using ainv_cache(1) [OF inv c'] db' by simp
    show "length (a_cache ?g' t' c') \<le> bnum c'"
      using ainv_cache(2) [OF inv c', of t'] ainv_cache(2) [OF inv c, of t] cache by auto
  qed
  ultimately show "ainv ?g'" by (simp add: ainv_def)
  have "cached_but t c ?g' = cached_but t c g" by (rule cached_but_cong) auto
  then have "cached g (j, i) \<longleftrightarrow> cached ?g' (j, i) \<or> (j = k \<and> i \<in> set bs)" for j i
    using cached_split [OF c, of _ "(j, i)" t] cache by auto
  then show "same_live g ?g'" by (intro same_live_moved) auto
qed

lemma run_split:
  assumes "xs \<noteq> []"
  shows "xs = map (Pair (fst (hd xs))) (map snd (takeWhile (\<lambda>b. fst b = fst (hd xs)) xs))
      @ dropWhile (\<lambda>b. fst b = fst (hd xs)) xs"
    and "takeWhile (\<lambda>b. fst b = fst (hd xs)) xs \<noteq> []"
proof -
  let ?r = "takeWhile (\<lambda>b. fst b = fst (hd xs)) xs"
  have "map (Pair (fst (hd xs))) (map snd ?r) = ?r"
    by (induction xs) (auto dest: set_takeWhileD intro!: map_idI)
  then show "xs = map (Pair (fst (hd xs))) (map snd ?r) @ dropWhile (\<lambda>b. fst b = fst (hd xs)) xs"
    by simp
  show "?r \<noteq> []" using assms by (cases xs) auto
qed

lemma a_flush_run_eq:
  "a_flush_run t c g =
     (let k = fst (hd (a_cache g t c));
          run = takeWhile (\<lambda>b. fst b = k) (a_cache g t c);
          rest = dropWhile (\<lambda>b. fst b = k) (a_cache g t c);
          g2 = a_return t c k (map snd run) rest g
      in if a_free g k = [] \<and> length run = bnum c then a_drop_empty c k g2 else g2)"
  by (simp add: a_flush_run_def a_return_def a_drop_empty_def a_retire_def set_a_cache_def Let_def)

lemma a_flush_run_ok:
  assumes inv: "ainv g" and c: "1 \<le> c" "c < 40" and ne: "a_cache g t c \<noteq> []"
  shows "ainv (a_flush_run t c g)" and "same_live g (a_flush_run t c g)"
    and "length (a_cache (a_flush_run t c g) t c) < length (a_cache g t c)"
    and "\<And>t' c'. (t', c') \<noteq> (t, c) \<Longrightarrow> a_cache (a_flush_run t c g) t' c' = a_cache g t' c'"
proof -
  let ?k = "fst (hd (a_cache g t c))"
  let ?run = "takeWhile (\<lambda>b. fst b = ?k) (a_cache g t c)"
  let ?rest = "dropWhile (\<lambda>b. fst b = ?k) (a_cache g t c)"
  let ?g2 = "a_return t c ?k (map snd ?run) ?rest g"
  have "map snd ?run \<noteq> []" using run_split(2) [OF ne] by simp
  note ret = a_return_ok [OF inv c run_split(1) [OF ne] this]
  have "ainv (a_drop_empty c ?k ?g2) \<and> same_live ?g2 (a_drop_empty c ?k ?g2)"
    if "a_free g ?k = []" "length ?run = bnum c"
    using a_drop_empty_ok [OF ret(1) c, of ?k "a_part g c"] that by simp
  then show "ainv (a_flush_run t c g)" "same_live g (a_flush_run t c g)"
    using ret same_live_trans [OF ret(2)] unfolding a_flush_run_eq Let_def by (auto split: if_splits)
  have "length ?rest < length (a_cache g t c)"
    using ne by (cases "a_cache g t c") (auto simp: le_imp_less_Suc length_dropWhile_le)
  then show "length (a_cache (a_flush_run t c g) t c) < length (a_cache g t c)"
    unfolding a_flush_run_eq Let_def by simp
  show "a_cache (a_flush_run t c g) t' c' = a_cache g t' c'" if "(t', c') \<noteq> (t, c)" for t' c'
    using that unfolding a_flush_run_eq Let_def by auto
qed

subsection \<open>Blocks handed to the program and taken back\<close>

lemma set_a_cache_ok:
  assumes inv: "ainv g" and "distinct bs" and "length bs \<le> bnum c"
    and "\<And>k i. (k, i) \<in> set bs \<Longrightarrow> sb_valid g k \<and> a_kind g k = Small c \<and> i < bnum c \<and> i \<notin> set (a_free g k)"
    and "\<And>t'. t' \<noteq> t \<Longrightarrow> set bs \<inter> set (a_cache g t' c) = {}"
  shows "ainv (set_a_cache t c bs g)"
proof -
  have "kinds_ok (set_a_cache t c bs g)" "lists_ok (set_a_cache t c bs g)"
    using ainvD(1,2) [OF inv] by (simp_all add: kinds_ok_def lists_ok_def)
  moreover have "caches_ok (set_a_cache t c bs g)"
  proof (rule caches_okI)
    fix t1 t2 c' :: nat assume a: "1 \<le> c'" "c' < 40" "t2 \<noteq> t1"
    show "set (a_cache (set_a_cache t c bs g) t1 c') \<inter> set (a_cache (set_a_cache t c bs g) t2 c') = {}"
      using ainv_cache(4) [OF inv a] assms(5) [of t1] assms(5) [of t2] a(3) by auto
  next
    fix t' c' k i :: nat assume a: "1 \<le> c'" "c' < 40" "(k, i) \<in> set (a_cache (set_a_cache t c bs g) t' c')"
    then show "sb_valid (set_a_cache t c bs g) k \<and> a_kind (set_a_cache t c bs g) k = Small c'
        \<and> i < bnum c' \<and> i \<notin> set (a_free (set_a_cache t c bs g) k)"
      using ainv_cache(3) [OF inv a(1,2), of k i t'] assms(4) [of k i] by (auto split: if_splits)
  qed (use assms(2,3) in \<open>simp_all add: ainv_cache(1,2) [OF inv]\<close>)
  ultimately show ?thesis by (simp add: ainv_def)
qed

lemma alive_set_a_cache:
  assumes c: "1 \<le> c" "c < 40"
    and "\<And>b. b \<in> set bs \<or> cached_but t c g b \<longleftrightarrow> P b"
  shows "(k, i) \<in> alive (set_a_cache t c bs g) \<longleftrightarrow> sb_valid g k \<and>
     ((\<exists>c. a_kind g k = Small c \<and> i < bnum c \<and> i \<notin> set (a_free g k) \<and> \<not> P (k, i))
      \<or> (\<exists>m. a_kind g k = Large m \<and> i = 0))"
proof -
  have "cached_but t c (set_a_cache t c bs g) = cached_but t c g" by (rule cached_but_cong) auto
  then have "cached (set_a_cache t c bs g) (k, i) \<longleftrightarrow> P (k, i)"
    using cached_split [OF c, of "set_a_cache t c bs g" "(k, i)" t] assms(3) [of "(k, i)"] by simp
  then show ?thesis by (simp add: alive_iff)
qed

lemma a_pop_ok:
  assumes inv: "ainv g" and c: "1 \<le> c" "c < 40" and cache: "a_cache g t c = b # bs"
  shows "ainv (set_a_cache t c bs g)" and "b \<notin> alive g" and "alive (set_a_cache t c bs g) = insert b (alive g)"
proof -
  have b: "sb_valid g (fst b)" "a_kind g (fst b) = Small c" "snd b < bnum c" "snd b \<notin> set (a_free g (fst b))"
    using ainv_cache(3) [OF inv c, of "fst b" "snd b" t] cache by simp_all
  have d: "b \<notin> set bs" "distinct bs" using ainv_cache(1) [OF inv c, of t] cache by simp_all
  have nb: "\<not> cached_but t c g b" by (rule cached_but_disjoint [OF inv c]) (simp add: cache)
  show "ainv (set_a_cache t c bs g)"
  proof (rule set_a_cache_ok [OF inv d(2)])
    show "length bs \<le> bnum c" using ainv_cache(2) [OF inv c, of t] cache by simp
    show "set bs \<inter> set (a_cache g t' c) = {}" if "t' \<noteq> t" for t'
      using ainv_cache(4) [OF inv c that] cache by auto
  qed (use ainv_cache(3) [OF inv c, of _ _ t] cache in auto)
  show "b \<notin> alive g" using cached_split [OF c, of g b t] cache b(2) by (cases b) (simp add: alive_iff)
  have "(k, i) \<in> alive (set_a_cache t c bs g) \<longleftrightarrow> (k, i) \<in> insert b (alive g)" for k i
  proof (cases "(k, i) = b")
    case True
    then show ?thesis using alive_set_a_cache [OF c, of bs t g, OF refl] b d(1) nb by auto
  next
    case False
    then have "(k, i) \<in> set bs \<or> cached_but t c g (k, i) \<longleftrightarrow> cached g (k, i)"
      using cached_split [OF c, of g "(k, i)" t] cache by auto
    then show ?thesis using False alive_set_a_cache [OF c, of bs t g, OF refl, of k i] by (simp add: alive_iff)
  qed
  then show "alive (set_a_cache t c bs g) = insert b (alive g)" by (metis subrelI subset_antisym)
qed

lemma a_push_ok:
  assumes inv: "ainv g" and c: "1 \<le> c" "c < 40" and b: "(k, i) \<in> alive g" "a_kind g k = Small c"
    and len: "length (a_cache g t c) < bnum c"
  shows "ainv (set_a_cache t c ((k, i) # a_cache g t c) g)"
    and "alive (set_a_cache t c ((k, i) # a_cache g t c) g) = alive g - {(k, i)}"
proof -
  let ?bs = "(k, i) # a_cache g t c"
  have k: "sb_valid g k" "i < bnum c" "i \<notin> set (a_free g k)" "\<not> cached g (k, i)"
    using b by (auto simp: alive_iff)
  have nc: "(k, i) \<notin> set (a_cache g t' c)" for t' using k(4) c unfolding cached_def by blast
  show "ainv (set_a_cache t c ?bs g)"
  proof (rule set_a_cache_ok [OF inv])
    show "set ?bs \<inter> set (a_cache g t' c) = {}" if "t' \<noteq> t" for t'
      using ainv_cache(4) [OF inv c that] nc by auto
  qed (use ainv_cache(1) [OF inv c] ainv_cache(3) [OF inv c, of _ _ t] nc len k b(2) in auto)
  have "(k', i') \<in> alive (set_a_cache t c ?bs g) \<longleftrightarrow> (k', i') \<in> alive g - {(k, i)}" for k' i'
  proof (cases "(k', i') = (k, i)")
    case True
    then show ?thesis using alive_set_a_cache [OF c, of ?bs t g, OF refl] b(2) by auto
  next
    case False
    then have "(k', i') \<in> set ?bs \<or> cached_but t c g (k', i') \<longleftrightarrow> cached g (k', i')"
      using cached_split [OF c, of g "(k', i')" t] by auto
    then show ?thesis using False alive_set_a_cache [OF c, of ?bs t g, OF refl, of k' i'] by (simp add: alive_iff)
  qed
  then show "alive (set_a_cache t c ?bs g) = alive g - {(k, i)}" by (metis subrelI subset_antisym)
qed

subsection \<open>Large blocks\<close>

lemma a_large_alloc_simps [simp]:
  "a_num (a_large_alloc m g) = a_num g + m"
  "a_kind (a_large_alloc m g) j =
     (if j = a_num g then Large m else if a_num g \<le> j \<and> j < a_num g + m then Tail else a_kind g j)"
  "a_free (a_large_alloc m g) j = (if a_num g \<le> j \<and> j < a_num g + m then [] else a_free g j)"
  "a_avail (a_large_alloc m g) = a_avail g" "a_part (a_large_alloc m g) = a_part g"
  "a_cache (a_large_alloc m g) = a_cache g" "cached (a_large_alloc m g) = cached g"
  by (simp_all add: a_large_alloc_def fun_eq_iff cached_def)

lemma a_large_alloc_ok:
  assumes inv: "ainv g" and m: "1 \<le> m" "m < 65536"
  shows "ainv (a_large_alloc m g)" and "(a_num g, 0) \<notin> alive g"
    and "alive (a_large_alloc m g) = insert (a_num g, 0) (alive g)"
proof -
  let ?g' = "a_large_alloc m g" and ?n = "a_num g"
  have v: "sb_valid ?g' j \<longleftrightarrow> sb_valid g j \<or> (?n \<le> j \<and> j < ?n + m)" for j
    using ainvD(4) [OF inv] m by (auto simp: sb_valid_def)
  have old: "j < ?n" if "sb_valid g j" for j using that by (simp add: sb_valid_def)
  have cv: "1 \<le> c \<Longrightarrow> c < 40 \<Longrightarrow> (j, i) \<in> set (a_cache g t c) \<Longrightarrow> j < ?n" for t c j i
    using ainv_cache(3) [OF inv, of c j i t] old by blast
  have "kinds_ok ?g'"
  proof (rule kinds_okI)
    fix j l i assume a: "sb_valid ?g' j" "a_kind ?g' j = Large l" "j < i" "i < j + l"
    show "a_kind ?g' i = Tail"
    proof (cases "j = ?n")
      case False
      then have j: "sb_valid g j" "a_kind g j = Large l" using a(1,2) by (auto simp: v split: if_splits)
      then show ?thesis using ainv_large(3) [OF inv j] ainv_large(4) [OF inv j a(3,4)] a(4) by simp
    qed (use a in simp)
  next
    fix j l assume a: "sb_valid ?g' j" "a_kind ?g' j = Large l"
    show "1 \<le> l \<and> l < 65536 \<and> j + l \<le> a_num ?g'"
    proof (cases "j = ?n")
      case False
      then have j: "sb_valid g j" "a_kind g j = Large l" using a(1,2) by (auto simp: v split: if_splits)
      then show ?thesis using ainv_large(1-3) [OF inv j] by simp
    qed (use a m in simp)
  next
    fix j c assume "sb_valid ?g' j" "a_kind ?g' j = Small c"
    then show "1 \<le> c \<and> c < 40 \<and> distinct (a_free ?g' j) \<and> set (a_free ?g' j) \<subseteq> {..<bnum c}"
      using ainv_small [OF inv, of j c] by (auto simp: v split: if_splits)
  next
    fix j assume a: "sb_valid ?g' j" "\<And>c. a_kind ?g' j \<noteq> Small c"
    show "a_free ?g' j = []"
    proof (cases "sb_valid g j")
      case True
      then have "a_kind g j \<noteq> Small c" for c using a(2) [of c] old [OF True] by simp
      then show ?thesis using ainv_not_small [OF inv True] by simp
    qed (use a(1) in \<open>simp add: v\<close>)
  qed (use ainvD(4) [OF inv] in simp)
  moreover have "lists_ok ?g'"
  proof (rule lists_okI)
    have same: "sb_valid ?g' j \<and> P (a_kind ?g' j) (a_free ?g' j) \<longleftrightarrow> sb_valid g j \<and> P (a_kind g j) (a_free g j)"
      if "\<not> P Tail []" "\<not> P (Large m) []" for j and P :: "sb_kind \<Rightarrow> nat list \<Rightarrow> bool"
      using that old [of j] m(1) by (cases "j < ?n") (auto simp: v)
    show "distinct (a_avail ?g')" using ainv_avail(1) [OF inv] by simp
    show "j \<in> set (a_avail ?g') \<longleftrightarrow> sb_valid ?g' j \<and> a_kind ?g' j = Unused" for j
      using same [of "\<lambda>kd fs. kd = Unused" j] ainv_avail(2) [OF inv, of j] by simp
    fix c :: nat assume c: "1 \<le> c" "c < 40"
    show "distinct (a_part ?g' c)" using ainv_part(1) [OF inv c] by simp
    show "j \<in> set (a_part ?g' c) \<longleftrightarrow> sb_valid ?g' j \<and> a_kind ?g' j = Small c \<and> a_free ?g' j \<noteq> []" for j
      using same [of "\<lambda>kd fs. kd = Small c \<and> fs \<noteq> []" j] ainv_part(2) [OF inv c, of j] by simp
  qed
  moreover have "caches_ok ?g'"
  proof (rule caches_okI)
    fix t c k i :: nat assume a: "1 \<le> c" "c < 40" "(k, i) \<in> set (a_cache ?g' t c)"
    then show "sb_valid ?g' k \<and> a_kind ?g' k = Small c \<and> i < bnum c \<and> i \<notin> set (a_free ?g' k)"
      using ainv_cache(3) [OF inv a(1,2), of k i t] cv [OF a(1,2), of k i t] by (simp add: v)
  qed (simp_all add: ainv_cache(1,2,4) [OF inv])
  ultimately show "ainv ?g'" by (simp add: ainv_def)
  show "(?n, 0) \<notin> alive g" by (simp add: alive_iff sb_valid_def)
  have "(j, i) \<in> alive ?g' \<longleftrightarrow> (j, i) \<in> insert (?n, 0) (alive g)" for j i
  proof (cases "j < ?n")
    case True
    then show ?thesis by (simp add: alive_iff v)
  next
    case False
    then have "(j, i) \<notin> alive g" using old by (auto simp: alive_iff)
    then show ?thesis using False m old [of j] by (auto simp: alive_iff [of _ _ ?g'] v split: if_splits)
  qed
  then show "alive ?g' = insert (?n, 0) (alive g)" by (metis subrelI subset_antisym)
qed

lemma a_large_free_ok:
  assumes inv: "ainv g" and k: "sb_valid g k" "a_kind g k = Large m"
  shows "ainv (a_organize k m g)" and "(k, 0) \<in> alive g" and "alive (a_organize k m g) = alive g - {(k, 0)}"
proof -
  let ?g' = "a_organize k m g"
  note lg = ainv_large [OF inv k]
  have inr: "sb_valid g j \<and> (a_kind g j = Tail \<or> a_kind g j = Large m \<and> j = k)" if "k \<le> j" "j < k + m" for j
    using that lg(3) lg(4) [of j] k by (cases "j = k") (auto simp: sb_valid_def)
  have "kinds_ok ?g'"
  proof (rule kinds_okI)
    fix j l i assume a: "sb_valid ?g' j" "a_kind ?g' j = Large l" "j < i" "i < j + l"
    then have j: "sb_valid g j" "a_kind g j = Large l" "\<not> (k \<le> j \<and> j < k + m)" by (auto split: if_splits)
    have "a_kind g i = Tail" by (rule ainv_large(4) [OF inv j(1,2) a(3,4)])
    moreover have "\<not> (k \<le> i \<and> i < k + m)"
    proof
      assume "k \<le> i \<and> i < k + m"
      then have "j < k" using j(3) a(3) by simp
      moreover have "k < j + l" using \<open>k \<le> i \<and> i < k + m\<close> a(4) by simp
      ultimately show False using ainv_large(4) [OF inv j(1,2), of k] k(2) by simp
    qed
    ultimately show "a_kind ?g' i = Tail" by simp
  next
    fix j assume a: "sb_valid ?g' j" "\<And>c. a_kind ?g' j \<noteq> Small c"
    show "a_free ?g' j = []"
    proof (cases "k \<le> j \<and> j < k + m")
      case False
      then have "a_kind ?g' j = a_kind g j" "a_free ?g' j = a_free g j" by auto
      then show ?thesis using ainv_not_small [OF inv, of j] a by simp
    qed simp
  qed (use ainvD(4) [OF inv] in \<open>auto dest: ainv_small [OF inv] ainv_large(1-3) [OF inv] split: if_splits\<close>)
  moreover have "lists_ok ?g'"
  proof (rule lists_okI)
    have "j \<notin> set (a_avail g)" if "k \<le> j" "j < k + m" for j
      using inr [OF that] ainv_avail(2) [OF inv, of j] by auto
    then show "distinct (a_avail ?g')" using ainv_avail(1) [OF inv] by auto
    show "j \<in> set (a_avail ?g') \<longleftrightarrow> sb_valid ?g' j \<and> a_kind ?g' j = Unused" for j
      using inr [of j] ainv_avail(2) [OF inv, of j] by auto
    fix c :: nat assume c: "1 \<le> c" "c < 40"
    show "distinct (a_part ?g' c)" using ainv_part(1) [OF inv c] by simp
    show "j \<in> set (a_part ?g' c) \<longleftrightarrow> sb_valid ?g' j \<and> a_kind ?g' j = Small c \<and> a_free ?g' j \<noteq> []" for j
      using inr [of j] ainv_part(2) [OF inv c, of j] by auto
  qed
  moreover have "caches_ok ?g'"
  proof (rule caches_okI)
    fix t c j i :: nat assume a: "1 \<le> c" "c < 40" "(j, i) \<in> set (a_cache ?g' t c)"
    then show "sb_valid ?g' j \<and> a_kind ?g' j = Small c \<and> i < bnum c \<and> i \<notin> set (a_free ?g' j)"
      using ainv_cache(3) [OF inv a(1,2), of j i t] inr [of j] by auto
  qed (simp_all add: ainv_cache(1,2,4) [OF inv])
  ultimately show "ainv ?g'" by (simp add: ainv_def)
  show "(k, 0) \<in> alive g" using k by (simp add: alive_iff)
  have "cached ?g' = cached g" by (simp add: fun_eq_iff cached_def)
  then have "(j, i) \<in> alive ?g' \<longleftrightarrow> (j, i) \<in> alive g - {(k, 0)}" for j i
  proof (cases "k \<le> j \<and> j < k + m")
    case True
    then show ?thesis using inr [of j] by (auto simp: alive_iff)
  next
    case False
    then show ?thesis using \<open>cached ?g' = cached g\<close> lg(1) by (auto simp: alive_iff)
  qed
  then show "alive ?g' = alive g - {(k, 0)}" by (metis subrelI subset_antisym)
qed

end
