(* ===== verification/HeapRep.thy ===== *)
theory HeapRep
  imports HeapLayout AHeap
begin

text \<open>
  The relation that says how a state of \<^verbatim>\<open>BaseMeta\<close> represents an abstract heap: heads and
  links of the descriptor lists, anchors and free lists of the superblocks, thread caches,
  and what is durable. The frame rules say which parts of a state each piece reads.
\<close>

subsection \<open>Representation\<close>

fun head_opt :: "'a list \<Rightarrow> 'a option" where
  "head_opt [] = None"
| "head_opt (x # xs) = Some x"

text \<open>The link words of a descriptor, as the code stores them.\<close>

definition next_free_is :: "ralloc_state \<Rightarrow> addr \<Rightarrow> addr \<Rightarrow> bool" where
  "next_free_is s d v = (d_next_free (descs s d) = to_pptr_off v d)"

definition next_partial_is :: "ralloc_state \<Rightarrow> addr \<Rightarrow> addr \<Rightarrow> bool" where
  "next_partial_is s d v = (d_next_partial (descs s d) = to_pptr_off v (d + 8))"

lemma next_is_load:
  "next_free_is s d v \<Longrightarrow> near v d \<Longrightarrow> load_next_free s d = v"
  "next_partial_is s d v \<Longrightarrow> near v (d + 8) \<Longrightarrow> load_next_partial s d = v"
  by (simp_all add: next_free_is_def next_partial_is_def load_next_free_def load_next_partial_def atomic_pptr_load_def)

text \<open>Descriptors linked in the order of a list, the last one to null.\<close>

fun dlinked :: "(nat \<Rightarrow> addr \<Rightarrow> bool) \<Rightarrow> ralloc_state \<Rightarrow> nat list \<Rightarrow> bool" where
  "dlinked nx s [] = True"
| "dlinked nx s (k # ks) = (nx k (desc_ptr s (head_opt ks)) \<and> dlinked nx s ks)"

definition avail_rep :: "aheap \<Rightarrow> ralloc_state \<Rightarrow> bool" where
  "avail_rep g s \<longleftrightarrow> (\<forall>k \<in> set (a_avail g). sb_valid g k)
     \<and> head_is (rgs s) (avail_sb s) (desc_ptr s (head_opt (a_avail g)))
     \<and> dlinked (\<lambda>k. next_free_is s (desc_at s k)) s (a_avail g)"

definition part_rep :: "aheap \<Rightarrow> ralloc_state \<Rightarrow> nat \<Rightarrow> bool" where
  "part_rep g s c \<longleftrightarrow> (\<forall>k \<in> set (a_part g c). sb_valid g k)
     \<and> head_is (rgs s) (h_partial_list (heaps s (heap_addr (base_md s) c)))
         (desc_ptr s (head_opt (a_part g c)))
     \<and> dlinked (\<lambda>k. next_partial_is s (desc_at s k)) s (a_part g c)"

definition anchor_rep :: "nat \<Rightarrow> nat list \<Rightarrow> Anchor \<Rightarrow> bool" where
  "anchor_rep n fs a \<longleftrightarrow>
     (if fs = [] then sb_state a = SB_FULL \<and> count a = 0
      else unat (avail a) = hd fs \<and>
        (if length fs = n then sb_state a = SB_EMPTY \<and> unat (count a) = n - 1
         else sb_state a = SB_PARTIAL \<and> unat (count a) = length fs))"

text \<open>The fields a descriptor keeps for a superblock in use.\<close>

definition desc_static :: "ralloc_state \<Rightarrow> nat \<Rightarrow> nat \<Rightarrow> nat \<Rightarrow> nat \<Rightarrow> Descriptor \<Rightarrow> bool" where
  "desc_static s k c bs n v \<longleftrightarrow>
     d_heap v = cross_assign (rgs s) META_IDX (heap_addr (base_md s) c)
     \<and> d_superblock v = cross_assign (rgs s) SB_IDX (sb_at s k)
     \<and> unat (d_block_size v) = bs \<and> unat (d_maxcount v) = n"

definition desc_rep :: "aheap \<Rightarrow> ralloc_state \<Rightarrow> nat \<Rightarrow> bool" where
  "desc_rep g s k \<longleftrightarrow> (case a_kind g k of
       Small c \<Rightarrow> desc_static s k c (bsz c) (bnum c) (descs s (desc_at s k))
         \<and> anchor_rep (bnum c) (a_free g k) (d_anchor (descs s (desc_at s k)))
         \<and> linked (mem s) (map (block_at s c k) (a_free g k))
     | Large m \<Rightarrow> desc_static s k 0 (65536 * m) 1 (descs s (desc_at s k))
     | Unused \<Rightarrow> d_heap (descs s (desc_at s k)) = 0
     | Tail \<Rightarrow> True)"

definition caches_rep :: "aheap \<Rightarrow> ralloc_state \<Rightarrow> nat \<Rightarrow> nat \<Rightarrow> bool" where
  "caches_rep g s t c = cache_rep (mem s, t_caches s t c) (map (\<lambda>(k, i). block_at s c k i) (a_cache g t c))"

text \<open>
  What is durable: nothing waits to be written back, the descriptors of small superblocks
  are in persistent memory, and so is the fact that an unused superblock is unused.
\<close>

definition durable_rep :: "aheap \<Rightarrow> ralloc_state \<Rightarrow> nat \<Rightarrow> bool" where
  "durable_rep g s k \<longleftrightarrow> (case a_kind g k of
       Small c \<Rightarrow> desc_static s k c (bsz c) (bnum c) (pm_descs (pm s) (desc_at s k))
     | Unused \<Rightarrow> d_heap (pm_descs (pm s) (desc_at s k)) = 0
     | _ \<Rightarrow> True)"

definition rep :: "aheap \<Rightarrow> ralloc_state \<Rightarrow> bool" where
  "rep g s \<longleftrightarrow> layout_ok s \<and> sb_num s = a_num g \<and> wb s = []
     \<and> (\<forall>i < 40. h_sc_idx (heaps s (heap_addr (base_md s) i)) = of_nat i)
     \<and> avail_rep g s
     \<and> (\<forall>c. 1 \<le> c \<and> c < 40 \<longrightarrow> part_rep g s c)
     \<and> (\<forall>k. sb_valid g k \<longrightarrow> desc_rep g s k \<and> durable_rep g s k)
     \<and> (\<forall>t c. 1 \<le> c \<and> c < 40 \<longrightarrow> caches_rep g s t c)"

definition heap_rep :: "aheap \<Rightarrow> ralloc_state \<Rightarrow> bool" where
  "heap_rep g s \<longleftrightarrow> ainv g \<and> rep g s"

subsection \<open>Live blocks and their bytes\<close>

definition block_addr_of :: "aheap \<Rightarrow> ralloc_state \<Rightarrow> nat \<times> nat \<Rightarrow> addr" where
  "block_addr_of g s b = sb_at s (fst b) + of_nat (snd b * block_size_of g (fst b))"

text \<open>The live blocks as pairs of address and size.\<close>

definition live :: "aheap \<Rightarrow> ralloc_state \<Rightarrow> (addr \<times> nat) set" where
  "live g s = (\<lambda>b. (block_addr_of g s b, block_size_of g (fst b))) ` alive g"

definition live_bytes :: "aheap \<Rightarrow> ralloc_state \<Rightarrow> addr set" where
  "live_bytes g s = (\<Union>b \<in> live g s. bytes b)"

subsection \<open>Addresses only depend on the regions\<close>

lemma geometry_cong:
  assumes "rgs s' = rgs s"
  shows "desc_at s' = desc_at s" "sb_at s' = sb_at s" "block_at s' = block_at s"
    "base_md s' = base_md s" "sb_region s' = sb_region s" "sb_cap s' = sb_cap s"
    "sb_num s' = sb_num s" "layout_ok s' = layout_ok s" "desc_ptr s' = desc_ptr s"
    "desc_lookup s' = desc_lookup s" "sb_lookup s' = sb_lookup s"
  using assms
  by (auto simp: fun_eq_iff desc_at_def sb_at_def block_at_def base_md_def sb_region_def sb_cap_def
      sb_num_def layout_ok_def desc_ptr_def desc_lookup_def sb_lookup_def split: option.splits)

lemma rgs_updates [simp]:
  "rgs (set_desc d f s) = rgs s" "rgs (FLUSHFENCE s) = rgs s" "rgs (flush_desc d s) = rgs s"
  "rgs (construct_desc d s) = rgs s" "rgs (store_next_free d v s) = rgs s"
  "rgs (store_next_partial d v s) = rgs s" "rgs (set_cache t c b s) = rgs s"
  by (simp_all add: set_desc_def FLUSHFENCE_def flush_desc_def construct_desc_def
      store_next_free_def store_next_partial_def set_cache_def)

lemma live_cong:
  assumes "rgs s' = rgs s"
  shows "live g s' = live g s" "live_bytes g s' = live_bytes g s"
  by (simp_all add: live_bytes_def live_def block_addr_of_def geometry_cong [OF assms])

subsection \<open>Frame rules\<close>

lemma dlinked_cong:
  assumes "\<And>k. k \<in> set ks \<Longrightarrow> nx k = nx' k" and "desc_ptr s = desc_ptr s'"
  shows "dlinked nx s ks = dlinked nx' s' ks"
  using assms by (induction ks) auto

lemma avail_rep_frame:
  assumes "avail_rep g s" and r: "rgs s' = rgs s" and "avail_sb s' = avail_sb s"
    and "a_avail g' = a_avail g" and "a_num g \<le> a_num g'"
    and "\<And>k. k \<in> set (a_avail g) \<Longrightarrow>
       d_next_free (descs s' (desc_at s k)) = d_next_free (descs s (desc_at s k))"
  shows "avail_rep g' s'"
proof -
  have "dlinked (\<lambda>k. next_free_is s' (desc_at s' k)) s' (a_avail g)
      = dlinked (\<lambda>k. next_free_is s (desc_at s k)) s (a_avail g)"
    by (rule dlinked_cong) (simp_all add: next_free_is_def fun_eq_iff geometry_cong [OF r] assms)
  then show ?thesis
    using assms by (auto simp: avail_rep_def geometry_cong [OF r] sb_valid_def)
qed

lemma part_rep_frame:
  assumes "part_rep g s c" and r: "rgs s' = rgs s"
    and "h_partial_list (heaps s' (heap_addr (base_md s) c)) = h_partial_list (heaps s (heap_addr (base_md s) c))"
    and "a_part g' c = a_part g c" and "a_num g \<le> a_num g'"
    and "\<And>k. k \<in> set (a_part g c) \<Longrightarrow>
       d_next_partial (descs s' (desc_at s k)) = d_next_partial (descs s (desc_at s k))"
  shows "part_rep g' s' c"
proof -
  have "dlinked (\<lambda>k. next_partial_is s' (desc_at s' k)) s' (a_part g c)
      = dlinked (\<lambda>k. next_partial_is s (desc_at s k)) s (a_part g c)"
    by (rule dlinked_cong) (simp_all add: next_partial_is_def fun_eq_iff geometry_cong [OF r] assms)
  then show ?thesis
    using assms by (auto simp: part_rep_def geometry_cong [OF r] sb_valid_def)
qed

lemma desc_static_cong: "rgs s' = rgs s \<Longrightarrow> desc_static s' = desc_static s"
  by (simp add: fun_eq_iff desc_static_def geometry_cong [of s' s])

text \<open>The parts of a descriptor the representation reads.\<close>

definition desc_same :: "Descriptor \<Rightarrow> Descriptor \<Rightarrow> bool" where
  "desc_same v w \<longleftrightarrow> d_heap v = d_heap w \<and> d_superblock v = d_superblock w
     \<and> d_block_size v = d_block_size w \<and> d_maxcount v = d_maxcount w \<and> d_anchor v = d_anchor w"

lemma desc_rep_frame:
  assumes "desc_rep g s k" and r: "rgs s' = rgs s"
    and "desc_same (descs s' (desc_at s k)) (descs s (desc_at s k))"
    and "a_kind g' k = a_kind g k" and "a_free g' k = a_free g k"
    and m: "\<And>c i. a_kind g k = Small c \<Longrightarrow> i \<in> set (a_free g k) \<Longrightarrow>
       load_pptr (mem s') (block_at s c k i) = load_pptr (mem s) (block_at s c k i)"
  shows "desc_rep g' s' k"
proof (cases "a_kind g k")
  case (Small c)
  have "linked (mem s') (map (block_at s c k) (a_free g k)) = linked (mem s) (map (block_at s c k) (a_free g k))"
    by (rule linked_cong) (use m [OF Small] in \<open>auto dest!: in_set_butlastD\<close>)
  then show ?thesis
    using assms(1,3-5) Small
    by (simp add: desc_rep_def desc_static_cong [OF r] geometry_cong [OF r] desc_static_def desc_same_def)
next
  case (Large n)
  then show ?thesis
    using assms(1,3-5)
    by (simp add: desc_rep_def desc_static_cong [OF r] geometry_cong [OF r] desc_static_def desc_same_def)
qed (use assms(1,3,4) in \<open>simp_all add: desc_rep_def desc_same_def geometry_cong [OF r]\<close>)

lemma durable_rep_frame:
  assumes "durable_rep g s k" and r: "rgs s' = rgs s"
    and "pm_descs (pm s') (desc_at s k) = pm_descs (pm s) (desc_at s k)"
    and "a_kind g' k = a_kind g k"
  shows "durable_rep g' s' k"
  using assms(1,3,4)
  by (simp add: durable_rep_def desc_static_cong [OF r] geometry_cong [OF r] split: sb_kind.splits)

lemma caches_rep_frame:
  assumes "caches_rep g s t c" and r: "rgs s' = rgs s" and "t_caches s' t c = t_caches s t c"
    and "a_cache g' t c = a_cache g t c"
    and m: "\<And>k i. (k, i) \<in> set (a_cache g t c) \<Longrightarrow>
       load_pptr (mem s') (block_at s c k i) = load_pptr (mem s) (block_at s c k i)"
  shows "caches_rep g' s' t c"
  unfolding caches_rep_def assms(3,4) geometry_cong [OF r]
  by (rule cache_rep_frame [OF assms(1) [unfolded caches_rep_def]]) (auto simp: m)

lemma repD:
  assumes "rep g s"
  shows "layout_ok s" and "sb_num s = a_num g" and "wb s = []"
    and "\<And>i. i < 40 \<Longrightarrow> h_sc_idx (heaps s (heap_addr (base_md s) i)) = of_nat i"
    and "avail_rep g s" and "\<And>c. 1 \<le> c \<Longrightarrow> c < 40 \<Longrightarrow> part_rep g s c"
    and "\<And>k. sb_valid g k \<Longrightarrow> desc_rep g s k" and "\<And>k. sb_valid g k \<Longrightarrow> durable_rep g s k"
    and "\<And>t c. 1 \<le> c \<Longrightarrow> c < 40 \<Longrightarrow> caches_rep g s t c"
  using assms by (auto simp: rep_def)

lemma repI:
  assumes "layout_ok s" and "sb_num s = a_num g" and "wb s = []"
    and "\<And>i. i < 40 \<Longrightarrow> h_sc_idx (heaps s (heap_addr (base_md s) i)) = of_nat i"
    and "avail_rep g s" and "\<And>c. 1 \<le> c \<Longrightarrow> c < 40 \<Longrightarrow> part_rep g s c"
    and "\<And>k. sb_valid g k \<Longrightarrow> desc_rep g s k" and "\<And>k. sb_valid g k \<Longrightarrow> durable_rep g s k"
    and "\<And>t c. 1 \<le> c \<Longrightarrow> c < 40 \<Longrightarrow> caches_rep g s t c"
  shows "rep g s"
  using assms by (auto simp: rep_def)

lemma sb_valid_cap:
  assumes "rep g s" and "sb_valid g k"
  shows "k < sb_cap s" and "1 \<le> k"
  using repD(1,2) [OF assms(1)] sb_num_le_cap [of s] assms(2) by (auto simp: sb_valid_def)

lemma head_opt_ok:
  assumes "rep g s" and "\<forall>k \<in> set ks. sb_valid g k"
  shows "desc_idx_ok s (head_opt ks)"
  using assms sb_valid_cap by (cases ks) auto

lemma desc_ptr_zero:
  assumes "rep g s" and "\<forall>k \<in> set ks. sb_valid g k"
  shows "desc_ptr s (head_opt ks) = 0 \<longleftrightarrow> ks = []"
proof (cases ks)
  case (Cons k ks')
  then have "k < sb_cap s" using assms sb_valid_cap(1) [of g s k] by auto
  then show ?thesis using Cons desc_at_less(2) [OF repD(1) [OF assms(1)], of k] by simp
qed simp

lemma desc_ptr_near:
  assumes "rep g s" and "\<forall>k \<in> set ks. sb_valid g k" and "k < sb_cap s"
  shows "near (desc_ptr s (head_opt ks)) (desc_at s k)" "near (desc_ptr s (head_opt ks)) (desc_at s k + 8)"
proof -
  note lay = repD(1) [OF assms(1)]
  have l: "unat (desc_at s k) < 140737488355328" using desc_at_less(1) [OF lay, of k] assms(3) by simp
  have "unat (desc_at s k + of_nat 8) = unat (desc_at s k) + 8" using l by (intro unat_offset) simp
  then have "unat (desc_at s k + 8) = unat (desc_at s k) + 8" by simp
  with l have z: "near 0 (desc_at s k)" "near 0 (desc_at s k + 8)" by (simp_all add: near_iff)
  have "desc_ptr s (head_opt ks) = 0 \<or> (\<exists>j \<le> sb_cap s. desc_ptr s (head_opt ks) = desc_at s j)"
  proof (cases ks)
    case (Cons j js)
    then have "j < sb_cap s" using assms(2) sb_valid_cap(1) [OF assms(1), of j] by simp
    with Cons show ?thesis by (intro disjI2 exI [of _ j]) simp
  qed simp
  then show "near (desc_ptr s (head_opt ks)) (desc_at s k)" "near (desc_ptr s (head_opt ks)) (desc_at s k + 8)"
    using z desc_near [OF lay, of _ k] assms(3) by (metis less_imp_le)+
qed

text \<open>
  Steps that change lists and descriptors but neither the blocks nor the caches: the
  superblocks whose descriptors change otherwise are unused afterwards.
\<close>

definition same_rest :: "ralloc_state \<Rightarrow> ralloc_state \<Rightarrow> bool" where
  "same_rest s s' \<longleftrightarrow> rgs s' = rgs s \<and> mem s' = mem s \<and> t_caches s' = t_caches s \<and> roots s' = roots s
     \<and> dirty_mtx s' = dirty_mtx s"

lemma same_rest_trans: "same_rest s s1 \<Longrightarrow> same_rest s1 s2 \<Longrightarrow> same_rest s s2"
  by (simp add: same_rest_def)

lemma rep_meta_frame:
  assumes rep: "rep g s" and rest: "same_rest s s'" and wb: "wb s' = []"
    and sc: "\<And>h. h_sc_idx (heaps s' h) = h_sc_idx (heaps s h)"
    and g': "a_num g' = a_num g" "a_cache g' = a_cache g"
    and av: "avail_rep g' s'" and part: "\<And>c. 1 \<le> c \<Longrightarrow> c < 40 \<Longrightarrow> part_rep g' s' c"
    and desc: "\<And>j. sb_valid g j \<Longrightarrow>
      (a_kind g' j = Unused \<and> d_heap (descs s' (desc_at s j)) = 0 \<and> d_heap (pm_descs (pm s') (desc_at s j)) = 0)
      \<or> (a_kind g' j = a_kind g j \<and> a_free g' j = a_free g j
         \<and> desc_same (descs s' (desc_at s j)) (descs s (desc_at s j))
         \<and> pm_descs (pm s') (desc_at s j) = pm_descs (pm s) (desc_at s j))"
  shows "rep g' s'"
proof (rule repI)
  have r: "rgs s' = rgs s" using rest by (simp add: same_rest_def)
  have v: "sb_valid g' j = sb_valid g j" for j by (simp add: sb_valid_def g')
  show "layout_ok s'" "sb_num s' = a_num g'" "wb s' = []"
    using repD(1,2) [OF rep] wb g' by (simp_all add: geometry_cong [OF r])
  show "h_sc_idx (heaps s' (heap_addr (base_md s') i)) = of_nat i" if "i < 40" for i
    using repD(4) [OF rep that] by (simp add: geometry_cong [OF r] sc)
  show "avail_rep g' s'" by (rule av)
  show "part_rep g' s' c" if "1 \<le> c" "c < 40" for c using that by (rule part)
  show "desc_rep g' s' j" if "sb_valid g' j" for j
    using desc [of j] that rest desc_rep_frame [OF repD(7) [OF rep] r, of j g']
    by (auto simp: v desc_rep_def [of g'] same_rest_def geometry_cong [OF r])
  show "durable_rep g' s' j" if "sb_valid g' j" for j
    using desc [of j] that durable_rep_frame [OF repD(8) [OF rep] r, of j g']
    by (auto simp: v durable_rep_def [of g'] geometry_cong [OF r])
  show "caches_rep g' s' t c" if "1 \<le> c" "c < 40" for t c
    using rest by (intro caches_rep_frame [OF repD(9) [OF rep that] r]) (simp_all add: g' same_rest_def)
qed

subsection \<open>Taking from a partial list\<close>

lemma pop_partial_empty:
  assumes "rep g s" and "1 \<le> c" and "c < 40" and "a_part g c = []"
  shows "heap_pop_partial (heap_addr (base_md s) c) s = Inr (0, s)"
proof -
  have "head_is (rgs s) (h_partial_list (heaps s (heap_addr (base_md s) c))) (desc_ptr s None)"
    using repD(6) [OF assms(1-3)] assms(4) by (simp add: part_rep_def)
  from head_is_load(1) [OF repD(1) [OF assms(1)] _ this] show ?thesis
    by (simp add: heap_pop_partial_def CAS_FUEL_def numeral_2_eq_2 partial_list_load_def Let_def)
qed

lemma pop_partial_rep:
  assumes rep: "rep g s" and c: "1 \<le> c" "c < 40" and part: "a_part g c = k # ks"
  shows "\<exists>s'. heap_pop_partial (heap_addr (base_md s) c) s = Inr (desc_at s k, s')
    \<and> rep (g\<lparr>a_part := (a_part g)(c := ks)\<rparr>) s'
    \<and> same_rest s s' \<and> descs s' = descs s"
proof -
  let ?h = "heap_addr (base_md s) c"
  let ?w = "h_partial_list (heaps s ?h)"
  note lay = repD(1) [OF rep]
  have pr: "\<forall>j \<in> set (k # ks). sb_valid g j" "head_is (rgs s) ?w (desc_ptr s (Some k))"
    "next_partial_is s (desc_at s k) (desc_ptr s (head_opt ks))"
    "dlinked (\<lambda>k. next_partial_is s (desc_at s k)) s ks"
    using repD(6) [OF rep c] part by (simp_all add: part_rep_def)
  have kok: "desc_idx_ok s (Some k)" using head_opt_ok [OF rep pr(1)] by simp
  have nx: "load_next_partial s (desc_at s k) = desc_ptr s (head_opt ks)"
    using desc_ptr_near(2) [OF rep, of ks k] pr(1) kok by (intro next_is_load(2) [OF pr(3)]) simp
  note ld = head_is_load [OF lay kok pr(2)]
  have nz: "desc_at s k \<noteq> 0" using desc_ptr_zero [OF rep pr(1)] by simp
  let ?new = "\<lparr>pc_ptr = desc_ptr s (head_opt ks), pc_cnt = pc_cnt (acp_load (rgs s) DESC_IDX ?w)\<rparr>"
  let ?s' = "s\<lparr>heaps := (heaps s)(?h := (heaps s ?h)\<lparr>h_partial_list := acp_pack (rgs s) DESC_IDX ?new\<rparr>)\<rparr>"
  have eq: "heap_pop_partial ?h s = Inr (desc_at s k, ?s')"
    using ld nz nx
    by (simp add: heap_pop_partial_def CAS_FUEL_def numeral_2_eq_2 partial_list_load_def Let_def
        partial_list_cas_def)
  have hd: "head_is (rgs s) (acp_pack (rgs s) DESC_IDX ?new) (desc_ptr s (head_opt ks))"
    using head_is_pack [of "rgs s" ?new] by simp
  have r: "rgs ?s' = rgs s" by simp
  have "part_rep (g\<lparr>a_part := (a_part g)(c := ks)\<rparr>) ?s' c'" (is "part_rep ?g' _ _")
    if c': "1 \<le> c'" "c' < 40" for c'
  proof (cases "c' = c")
    case True
    have "dlinked (\<lambda>k. next_partial_is ?s' (desc_at ?s' k)) ?s' ks"
      using pr(4) by (rule dlinked_cong [THEN iffD1, rotated -1])
        (simp_all add: next_partial_is_def fun_eq_iff geometry_cong [OF r])
    with True pr(1) hd show ?thesis
      by (auto simp: part_rep_def geometry_cong [OF r] sb_valid_def)
  next
    case False
    then show ?thesis
      using heap_addr_inj [OF lay c'(2) c(2)]
      by (intro part_rep_frame [OF repD(6) [OF rep c']]) simp_all
  qed
  moreover have "avail_rep ?g' ?s'" by (rule avail_rep_frame [OF repD(5) [OF rep]]) simp_all
  ultimately have "rep ?g' ?s'"
    using repD(3) [OF rep] by (intro rep_meta_frame [OF rep]) (simp_all add: same_rest_def desc_same_def)
  with eq show ?thesis by (intro exI [of _ ?s']) (simp add: same_rest_def)
qed

end
