(* ===== verification/HeapLists.thy ===== *)
theory HeapLists
  imports HeapRep
begin

text \<open>
  The list operations of \<^verbatim>\<open>BaseMeta\<close> on represented states: pushing onto a partial list,
  retiring a superblock, taking one from the list of unused ones, linking a range of new
  ones. Each lemma names the abstract heap the resulting state represents and the parts of
  the state that are unchanged.
\<close>

subsection \<open>Effects of the primitives\<close>

lemma set_desc_simps [simp]:
  "descs (set_desc d f s) = (descs s)(d := f (descs s d))"
  "avail_sb (set_desc d f s) = avail_sb s" "heaps (set_desc d f s) = heaps s"
  "roots (set_desc d f s) = roots s" "mem (set_desc d f s) = mem s"
  "t_caches (set_desc d f s) = t_caches s" "pm (set_desc d f s) = pm s" "wb (set_desc d f s) = wb s"
  "dirty_mtx (set_desc d f s) = dirty_mtx s"
  by (simp_all add: set_desc_def)

lemma construct_desc_simps [simp]:
  "descs (construct_desc d s) = (descs s)(d := new_Descriptor d)"
  "avail_sb (construct_desc d s) = avail_sb s" "heaps (construct_desc d s) = heaps s"
  "roots (construct_desc d s) = roots s" "mem (construct_desc d s) = mem s"
  "t_caches (construct_desc d s) = t_caches s" "wb (construct_desc d s) = []"
  "dirty_mtx (construct_desc d s) = dirty_mtx s"
  "wb s = [] \<Longrightarrow> pm (construct_desc d s) = (pm s)\<lparr>pm_descs := (pm_descs (pm s))(d := new_Descriptor d)\<rparr>"
  by (simp_all add: construct_desc_def FLUSHFENCE_def flush_desc_def)

lemma store_next_descs [simp]:
  "descs (store_next_free d v s) = (descs s)(d := (descs s d)\<lparr>d_next_free := to_pptr_off v d\<rparr>)"
  "descs (store_next_partial d v s) = (descs s)(d := (descs s d)\<lparr>d_next_partial := to_pptr_off v (d + 8)\<rparr>)"
  by (simp_all add: store_next_free_def store_next_partial_def atomic_pptr_store_def)

lemma store_next_simps [simp]:
  "avail_sb (store_next_free d v s) = avail_sb s" "avail_sb (store_next_partial d v s) = avail_sb s"
  "heaps (store_next_free d v s) = heaps s" "heaps (store_next_partial d v s) = heaps s"
  "mem (store_next_free d v s) = mem s" "mem (store_next_partial d v s) = mem s"
  "t_caches (store_next_free d v s) = t_caches s" "t_caches (store_next_partial d v s) = t_caches s"
  "pm (store_next_free d v s) = pm s" "pm (store_next_partial d v s) = pm s"
  "wb (store_next_free d v s) = wb s" "wb (store_next_partial d v s) = wb s"
  "roots (store_next_free d v s) = roots s" "roots (store_next_partial d v s) = roots s"
  "dirty_mtx (store_next_free d v s) = dirty_mtx s" "dirty_mtx (store_next_partial d v s) = dirty_mtx s"
  by (simp_all add: store_next_free_def store_next_partial_def atomic_pptr_store_def)

lemma set_cache_simps [simp]:
  "descs (set_cache t c b s) = descs s" "avail_sb (set_cache t c b s) = avail_sb s"
  "heaps (set_cache t c b s) = heaps s" "mem (set_cache t c b s) = mem s"
  "pm (set_cache t c b s) = pm s" "wb (set_cache t c b s) = wb s" "roots (set_cache t c b s) = roots s"
  "dirty_mtx (set_cache t c b s) = dirty_mtx s"
  "t_caches (set_cache t c b s) t' c' = (if t' = t \<and> c' = c then b else t_caches s t' c')"
  by (simp_all add: set_cache_def)

lemma new_Descriptor_simps [simp]:
  "d_heap (new_Descriptor d) = 0" "d_superblock (new_Descriptor d) = 0"
  "d_next_free (new_Descriptor d) = to_pptr_off 0 d"
  by (simp_all add: new_Descriptor_def atomic_pptr_store_def)

subsection \<open>Partial lists\<close>

lemma push_partial_rep:
  assumes rep: "rep g s" and c: "1 \<le> c" "c < 40" and k: "sb_valid g k" "a_kind g k = Small c"
    and fresh: "\<And>c'. 1 \<le> c' \<Longrightarrow> c' < 40 \<Longrightarrow> k \<notin> set (a_part g c')"
  shows "\<exists>s'. heap_push_partial (desc_at s k) s = Inr s'
    \<and> rep (g\<lparr>a_part := (a_part g)(c := k # a_part g c)\<rparr>) s' \<and> same_rest s s'"
proof -
  let ?d = "desc_at s k" and ?h = "heap_addr (base_md s) c"
  let ?w = "h_partial_list (heaps s ?h)" and ?ks = "a_part g c"
  note lay = repD(1) [OF rep]
  have pr: "\<forall>j \<in> set ?ks. sb_valid g j" "head_is (rgs s) ?w (desc_ptr s (head_opt ?ks))"
    "dlinked (\<lambda>k. next_partial_is s (desc_at s k)) s ?ks"
    using repD(6) [OF rep c] by (simp_all add: part_rep_def)
  note ld = head_is_load [OF lay head_opt_ok [OF rep pr(1)] pr(2)]
  have kc: "k < sb_cap s" by (rule sb_valid_cap [OF rep k(1)])
  have heap: "cross_get (rgs s) META_IDX (d_heap (descs s ?d)) = ?h"
    using repD(7) [OF rep k(1)] k(2) cross_heap_addr(1) [OF lay c(2)]
    by (simp add: desc_rep_def desc_static_def)
  have ne: "desc_ptr s (head_opt ?ks) \<noteq> ?d"
  proof (cases ?ks)
    case (Cons j js)
    then have "j \<noteq> k" "j < sb_cap s" using fresh [OF c] pr(1) sb_valid_cap(1) [OF rep, of j] by auto
    then show ?thesis using Cons desc_at_inj [OF lay, of j k] kc by simp
  qed (use desc_at_less(2) [OF lay, of k] kc in simp)
  let ?new = "\<lparr>pc_ptr = ?d, pc_cnt = pc_cnt (acp_load (rgs s) DESC_IDX ?w) + 1\<rparr>"
  let ?s1 = "store_next_partial ?d (desc_ptr s (head_opt ?ks)) s"
  let ?s' = "?s1\<lparr>heaps := (heaps s)(?h := (heaps s ?h)\<lparr>h_partial_list := acp_pack (rgs s) DESC_IDX ?new\<rparr>)\<rparr>"
  have eq: "heap_push_partial ?d s = Inr ?s'"
    using ld ne
    by (simp add: heap_push_partial_def CAS_FUEL_def numeral_2_eq_2 partial_list_load_def Let_def
        partial_list_cas_def heap)
  have hd: "head_is (rgs s) (acp_pack (rgs s) DESC_IDX ?new) (desc_at s k)"
    using head_is_pack [of "rgs s" ?new] by simp
  have r: "rgs ?s' = rgs s" by simp
  have nx: "d_next_partial (descs ?s' (desc_at s j)) = d_next_partial (descs s (desc_at s j))"
    if "1 \<le> c'" "c' < 40" "j \<in> set (a_part g c')" for c' j
  proof -
    have "j \<noteq> k" using fresh that by blast
    moreover have "j < sb_cap s"
      using repD(6) [OF rep that(1,2)] that(3) sb_valid_cap(1) [OF rep] by (auto simp: part_rep_def)
    ultimately show ?thesis using desc_at_inj [OF lay, of j k] kc by simp
  qed
  have "part_rep (g\<lparr>a_part := (a_part g)(c := k # ?ks)\<rparr>) ?s' c'" (is "part_rep ?g' _ _")
    if c': "1 \<le> c'" "c' < 40" for c'
  proof (cases "c' = c")
    case True
    have "dlinked (\<lambda>k. next_partial_is ?s' (desc_at ?s' k)) ?s' ?ks"
      using pr(3) by (rule dlinked_cong [THEN iffD1, rotated -1])
        (use nx [OF c] in \<open>simp_all add: next_partial_is_def fun_eq_iff geometry_cong [OF r]\<close>)
    moreover have "next_partial_is ?s' (desc_at s k) (desc_ptr s (head_opt ?ks))"
      by (simp add: next_partial_is_def)
    ultimately show ?thesis using True pr(1) hd k(1)
      by (auto simp: part_rep_def geometry_cong [OF r] sb_valid_def)
  next
    case False
    then show ?thesis
      using heap_addr_inj [OF lay c'(2) c(2)] nx [OF c']
      by (intro part_rep_frame [OF repD(6) [OF rep c']]) simp_all
  qed
  moreover have "avail_rep ?g' ?s'" by (rule avail_rep_frame [OF repD(5) [OF rep]]) simp_all
  ultimately have "rep ?g' ?s'"
    using repD(3) [OF rep] by (intro rep_meta_frame [OF rep]) (simp_all add: same_rest_def desc_same_def)
  with eq show ?thesis by (intro exI [of _ ?s']) (simp add: same_rest_def)
qed

subsection \<open>Unused superblocks\<close>

text \<open>A partial list none of whose descriptors changes.\<close>

lemma part_rep_other:
  assumes "rep g s" and "1 \<le> c" and "c < 40" and r: "rgs s' = rgs s" and "heaps s' = heaps s"
    and "a_part g' = a_part g" and "a_num g' = a_num g"
    and "\<And>j. j \<in> set (a_part g c) \<Longrightarrow> sb_valid g j \<Longrightarrow> descs s' (desc_at s j) = descs s (desc_at s j)"
  shows "part_rep g' s' c"
proof (rule part_rep_frame [OF repD(6) [OF assms(1-3)] r])
  fix j assume "j \<in> set (a_part g c)"
  moreover from this have "sb_valid g j" using repD(6) [OF assms(1-3)] by (auto simp: part_rep_def)
  ultimately show "d_next_partial (descs s' (desc_at s j)) = d_next_partial (descs s (desc_at s j))"
    using assms(8) by simp
qed (simp_all add: assms)

text \<open>The push loop shared by \<^verbatim>\<open>small_sb_retire\<close> and \<^verbatim>\<open>organize_sb_list\<close>.\<close>

lemma avail_push_eq:
  assumes lay: "layout_ok s" and h: "desc_idx_ok s h" "head_is (rgs s) (avail_sb s) (desc_ptr s h)"
  shows "\<exists>w. cas_loop CAS_FUEL
      (\<lambda>oldhead s. Inr (\<lparr>pc_ptr = p, pc_cnt = pc_cnt oldhead + 1\<rparr>, store_next_free d (pc_ptr oldhead) s))
      avail_sb_cas (avail_sb_load s) s
    = Inr (avail_sb_load s, \<lparr>pc_ptr = p, pc_cnt = pc_cnt (avail_sb_load s) + 1\<rparr>,
           (store_next_free d (desc_ptr s h) s)\<lparr>avail_sb := w\<rparr>)
    \<and> head_is (rgs s) w p"
proof -
  let ?new = "\<lparr>pc_ptr = p, pc_cnt = pc_cnt (avail_sb_load s) + 1\<rparr>"
  note ld = head_is_load [OF lay h]
  have "head_is (rgs s) (acp_pack (rgs s) DESC_IDX ?new) p"
    using head_is_pack [of "rgs s" ?new] by simp
  then show ?thesis
    using ld by (intro exI [of _ "acp_pack (rgs s) DESC_IDX ?new"])
      (simp add: CAS_FUEL_def numeral_2_eq_2 avail_sb_load_def avail_sb_cas_def)
qed

lemma retire_rep:
  assumes rep: "rep g s" and k: "sb_valid g k" "k \<notin> set (a_avail g)"
    and fresh: "\<And>c'. 1 \<le> c' \<Longrightarrow> c' < 40 \<Longrightarrow> k \<notin> set (a_part g c')"
  shows "\<exists>s'. small_sb_retire (sb_at s k) SBSIZE s = Inr s' \<and> rep (a_retire k g) s' \<and> same_rest s s'"
proof -
  let ?d = "desc_at s k" and ?ks = "a_avail g"
  note lay = repD(1) [OF rep]
  have kc: "k < sb_cap s" by (rule sb_valid_cap [OF rep k(1)])
  let ?s1 = "construct_desc ?d s"
  have r1: "rgs ?s1 = rgs s" by simp
  have av: "\<forall>j \<in> set ?ks. sb_valid g j" "head_is (rgs s) (avail_sb s) (desc_ptr s (head_opt ?ks))"
    "dlinked (\<lambda>k. next_free_is s (desc_at s k)) s ?ks"
    using repD(5) [OF rep] by (simp_all add: avail_rep_def)
  obtain w where w: "cas_loop CAS_FUEL
      (\<lambda>oldhead s. Inr (\<lparr>pc_ptr = ?d, pc_cnt = pc_cnt oldhead + 1\<rparr>, store_next_free ?d (pc_ptr oldhead) s))
      avail_sb_cas (avail_sb_load ?s1) ?s1
    = Inr (avail_sb_load ?s1, \<lparr>pc_ptr = ?d, pc_cnt = pc_cnt (avail_sb_load ?s1) + 1\<rparr>,
           (store_next_free ?d (desc_ptr s (head_opt ?ks)) ?s1)\<lparr>avail_sb := w\<rparr>)"
    "head_is (rgs s) w ?d"
    using avail_push_eq [of ?s1 "head_opt ?ks" ?d ?d] lay head_opt_ok [OF rep av(1)] av(2)
    by (auto simp: geometry_cong [OF r1] desc_idx_ok_def split: option.splits)
  let ?s' = "(store_next_free ?d (desc_ptr s (head_opt ?ks)) ?s1)\<lparr>avail_sb := w\<rparr>"
  have eq: "small_sb_retire (sb_at s k) SBSIZE s = Inr ?s'"
    using w(1) by (simp add: small_sb_retire_def desc_lookup_sb [OF lay kc] Let_def)
  have other: "descs ?s' (desc_at s j) = descs s (desc_at s j)"
    "pm_descs (pm ?s') (desc_at s j) = pm_descs (pm s) (desc_at s j)"
    if "j \<noteq> k" "sb_valid g j" for j
    using desc_at_inj [OF lay, of j k] sb_valid_cap(1) [OF rep that(2)] kc that(1) repD(3) [OF rep]
    by simp_all
  have r: "rgs ?s' = rgs s" by simp
  have in_av: "descs ?s' (desc_at s j) = descs s (desc_at s j)" if "j \<in> set ?ks" for j
    using other(1) av(1) k(2) that by metis
  have "dlinked (\<lambda>k. next_free_is ?s' (desc_at ?s' k)) ?s' ?ks"
    using av(3) by (rule dlinked_cong [THEN iffD1, rotated -1])
      (use in_av in \<open>simp_all add: next_free_is_def fun_eq_iff geometry_cong [OF r] del: store_next_descs\<close>)
  moreover have "next_free_is ?s' ?d (desc_ptr s (head_opt ?ks))"
    by (simp add: next_free_is_def)
  ultimately have "avail_rep (a_retire k g) ?s'" (is "avail_rep ?g' _")
    using av(1) w(2) k(1) by (auto simp: avail_rep_def a_retire_def geometry_cong [OF r] sb_valid_def)
  moreover have "part_rep ?g' ?s' c'" if "1 \<le> c'" "c' < 40" for c'
    using fresh [OF that] other(1) by (intro part_rep_other [OF rep that r]) (simp_all add: a_retire_def, metis)
  moreover have "d_heap (pm_descs (pm ?s') ?d) = 0" using repD(3) [OF rep] by simp
  ultimately have "rep ?g' ?s'"
    using repD(3) [OF rep] other
    by (intro rep_meta_frame [OF rep]) (auto simp: same_rest_def desc_same_def a_retire_def)
  with eq show ?thesis by (intro exI [of _ ?s']) (simp add: same_rest_def)
qed

subsection \<open>Ranges of new superblocks\<close>

lemma desc_at_Suc: "desc_at s k + 64 = desc_at s (Suc k)"
  by (simp add: desc_at_def algebra_simps)

lemma organize_loop_effect:
  assumes "layout_ok s" and "j + n < sb_cap s" and "wb s = []"
    and "descs s (desc_at s j) = new_Descriptor (desc_at s j)"
  shows "\<exists>s'. organize_loop n (desc_at s j) s = (desc_at s (j + n), s')
    \<and> same_rest s s' \<and> avail_sb s' = avail_sb s \<and> heaps s' = heaps s \<and> wb s' = []
    \<and> (\<forall>i. j \<le> i \<and> i < j + n \<longrightarrow> descs s' (desc_at s i) =
          (new_Descriptor (desc_at s i))\<lparr>d_next_free := to_pptr_off (desc_at s (Suc i)) (desc_at s i)\<rparr>)
    \<and> descs s' (desc_at s (j + n)) = new_Descriptor (desc_at s (j + n))
    \<and> (\<forall>a. a \<notin> desc_at s ` {j..j + n} \<longrightarrow> descs s' a = descs s a)
    \<and> (\<forall>a. a \<notin> desc_at s ` {j<..j + n} \<longrightarrow> pm_descs (pm s') a = pm_descs (pm s) a)
    \<and> (\<forall>i. j < i \<and> i \<le> j + n \<longrightarrow> pm_descs (pm s') (desc_at s i) = new_Descriptor (desc_at s i))"
  using assms
proof (induction n arbitrary: j s)
  case 0
  then show ?case by (auto simp: same_rest_def)
next
  case (Suc n)
  let ?t = "construct_desc (desc_at s (Suc j)) (store_next_free (desc_at s j) (desc_at s (Suc j)) s)"
  have r: "rgs ?t = rgs s" by simp
  note geo = geometry_cong [OF r]
  have inj: "desc_at s a = desc_at s b \<longleftrightarrow> a = b" if "a < sb_cap s" "b < sb_cap s" for a b
    using desc_at_inj [OF Suc.prems(1), of a b] that by simp
  obtain s' where s': "organize_loop n (desc_at s (Suc j)) ?t = (desc_at s (Suc j + n), s')"
    "same_rest ?t s'" "avail_sb s' = avail_sb ?t" "heaps s' = heaps ?t" "wb s' = []"
    "\<forall>i. Suc j \<le> i \<and> i < Suc j + n \<longrightarrow> descs s' (desc_at s i) =
          (new_Descriptor (desc_at s i))\<lparr>d_next_free := to_pptr_off (desc_at s (Suc i)) (desc_at s i)\<rparr>"
    "descs s' (desc_at s (Suc j + n)) = new_Descriptor (desc_at s (Suc j + n))"
    "\<forall>a. a \<notin> desc_at s ` {Suc j..Suc j + n} \<longrightarrow> descs s' a = descs ?t a"
    "\<forall>a. a \<notin> desc_at s ` {Suc j<..Suc j + n} \<longrightarrow> pm_descs (pm s') a = pm_descs (pm ?t) a"
    "\<forall>i. Suc j < i \<and> i \<le> Suc j + n \<longrightarrow> pm_descs (pm s') (desc_at s i) = new_Descriptor (desc_at s i)"
    using Suc.IH [of ?t "Suc j"] Suc.prems by (auto simp: geo)
  have "descs s' (desc_at s j) =
      (new_Descriptor (desc_at s j))\<lparr>d_next_free := to_pptr_off (desc_at s (Suc j)) (desc_at s j)\<rparr>"
  proof -
    have "desc_at s j \<notin> desc_at s ` {Suc j..Suc j + n}" using inj Suc.prems(2) by auto
    then show ?thesis using s'(8) inj [of j "Suc j"] Suc.prems by simp
  qed
  then have lk: "\<forall>i. j \<le> i \<and> i < j + Suc n \<longrightarrow> descs s' (desc_at s i) =
      (new_Descriptor (desc_at s i))\<lparr>d_next_free := to_pptr_off (desc_at s (Suc i)) (desc_at s i)\<rparr>"
    using s'(6) by (metis Suc_leI add_Suc add_Suc_right le_neq_implies_less)
  have "descs s' a = descs s a" if "a \<notin> desc_at s ` {j..j + Suc n}" for a
  proof -
    have "a \<notin> desc_at s ` {Suc j..Suc j + n}" "a \<noteq> desc_at s j" "a \<noteq> desc_at s (Suc j)"
      using that by auto
    then show ?thesis using s'(8) by simp
  qed
  moreover have "pm_descs (pm s') a = pm_descs (pm s) a" if "a \<notin> desc_at s ` {j<..j + Suc n}" for a
  proof -
    have "a \<notin> desc_at s ` {Suc j<..Suc j + n}" "a \<noteq> desc_at s (Suc j)" using that by auto
    then show ?thesis using s'(9) Suc.prems(3) by simp
  qed
  moreover have "pm_descs (pm s') (desc_at s (Suc j)) = new_Descriptor (desc_at s (Suc j))"
  proof -
    have "desc_at s (Suc j) \<notin> desc_at s ` {Suc j<..Suc j + n}" using inj Suc.prems(2) by auto
    then show ?thesis using s'(9) Suc.prems(3) by simp
  qed
  then have "\<forall>i. j < i \<and> i \<le> j + Suc n \<longrightarrow> pm_descs (pm s') (desc_at s i) = new_Descriptor (desc_at s i)"
    using s'(10) by (metis Suc_leI add_Suc add_Suc_right le_neq_implies_less)
  moreover have "same_rest s s'" using s'(2) by (simp add: same_rest_def)
  ultimately show ?case
    using s'(1,3,4,5,7) lk by (intro exI [of _ s']) (auto simp: desc_at_Suc)
qed

lemma dlinked_upt:
  assumes "\<And>i. j \<le> i \<Longrightarrow> Suc i < j + n \<Longrightarrow> nx i (desc_at s (Suc i))"
    and "0 < n" and "nx (j + n - 1) (desc_ptr s (head_opt ks))" and "dlinked nx s ks"
  shows "dlinked nx s ([j..<j + n] @ ks)"
  using assms
proof (induction n arbitrary: j)
  case (Suc n)
  have up: "[j..<j + Suc n] = j # [Suc j..<Suc j + n]" by (simp add: upt_conv_Cons)
  show ?case
  proof (cases n)
    case 0
    then show ?thesis using Suc.prems by simp
  next
    case (Suc m)
    have "nx j (desc_at s (Suc j))" using Suc.prems(1) [of j] Suc by simp
    moreover have "dlinked nx s ([Suc j..<Suc j + n] @ ks)"
      using Suc.prems Suc by (intro Suc.IH) simp_all
    moreover have "head_opt ([Suc j..<Suc j + n] @ ks) = Some (Suc j)"
      using Suc by (simp add: upt_conv_Cons del: upt_Suc)
    ultimately show ?thesis unfolding up by simp
  qed
qed simp

end
