(* ===== verification/HeapSuper.thy ===== *)
theory HeapSuper
  imports HeapLists
begin

text \<open>
  Superblocks on represented states: linking a range of them into the list of unused ones,
  moving the frontier of the region, and the two ways \<^verbatim>\<open>small_sb_alloc\<close> obtains one.
\<close>

subsection \<open>Linking a range\<close>

lemma organize_rep:
  assumes rep: "rep g s" and n: "0 < n" "unat cnt = n"
    and range: "\<And>i. j \<le> i \<Longrightarrow> i < j + n \<Longrightarrow> sb_valid g i \<and> i \<notin> set (a_avail g)"
    and fresh: "\<And>i c. j \<le> i \<Longrightarrow> i < j + n \<Longrightarrow> 1 \<le> c \<Longrightarrow> c < 40 \<Longrightarrow> i \<notin> set (a_part g c)"
  shows "\<exists>s'. organize_sb_list (sb_at s j) cnt s = Inr s' \<and> rep (a_organize j n g) s' \<and> same_rest s s'"
proof -
  note lay = repD(1) [OF rep]
  let ?ks = "a_avail g"
  obtain n1 where n1: "n = Suc n1" using n(1) by (cases n) auto
  define e where "e = j + n1"
  have en: "j \<le> e" "Suc e = j + n" and ee: "j + n - Suc 0 = e" by (simp_all add: e_def n1)
  have je: "sb_valid g j" "sb_valid g e" using range [of j] range [of e] en by auto
  have jc: "j < sb_cap s" "e < sb_cap s"
    using sb_valid_cap(1) [OF rep je(1)] sb_valid_cap(1) [OF rep je(2)] by simp_all
  let ?s1 = "construct_desc (desc_at s j) s"
  have r1: "rgs ?s1 = rgs s" by simp
  obtain s2 where s2: "organize_loop n1 (desc_at s j) ?s1 = (desc_at s e, s2)"
    "same_rest ?s1 s2" "avail_sb s2 = avail_sb s" "heaps s2 = heaps s" "wb s2 = []"
    "\<forall>i. j \<le> i \<and> i < e \<longrightarrow> descs s2 (desc_at s i) =
        (new_Descriptor (desc_at s i))\<lparr>d_next_free := to_pptr_off (desc_at s (Suc i)) (desc_at s i)\<rparr>"
    "descs s2 (desc_at s e) = new_Descriptor (desc_at s e)"
    "\<forall>a. a \<notin> desc_at s ` {j..e} \<longrightarrow> descs s2 a = descs ?s1 a"
    "\<forall>a. a \<notin> desc_at s ` {j<..e} \<longrightarrow> pm_descs (pm s2) a = pm_descs (pm ?s1) a"
    "\<forall>i. j < i \<and> i \<le> e \<longrightarrow> pm_descs (pm s2) (desc_at s i) = new_Descriptor (desc_at s i)"
    using organize_loop_effect [of ?s1 j n1] lay jc(2) by (auto simp: geometry_cong [OF r1] e_def)
  have r2: "rgs s2 = rgs s" using s2(2) by (simp add: same_rest_def)
  note geo2 = geometry_cong [OF r2]
  have av: "\<forall>j \<in> set ?ks. sb_valid g j" "head_is (rgs s) (avail_sb s) (desc_ptr s (head_opt ?ks))"
    "dlinked (\<lambda>k. next_free_is s (desc_at s k)) s ?ks"
    using repD(5) [OF rep] by (simp_all add: avail_rep_def)
  obtain w where w: "cas_loop CAS_FUEL
      (\<lambda>oldhead s. Inr (\<lparr>pc_ptr = desc_at s2 j, pc_cnt = pc_cnt oldhead + 1\<rparr>,
                         store_next_free (desc_at s2 e) (pc_ptr oldhead) s))
      avail_sb_cas (avail_sb_load s2) s2
    = Inr (avail_sb_load s2, \<lparr>pc_ptr = desc_at s2 j, pc_cnt = pc_cnt (avail_sb_load s2) + 1\<rparr>,
           (store_next_free (desc_at s2 e) (desc_ptr s2 (head_opt ?ks)) s2)\<lparr>avail_sb := w\<rparr>)"
    "head_is (rgs s2) w (desc_at s2 j)"
    using avail_push_eq [of s2 "head_opt ?ks" "desc_at s2 j" "desc_at s2 e"] lay
      head_opt_ok [OF rep av(1)] av(2) s2(3)
    by (auto simp: geo2 r2 desc_idx_ok_def split: option.splits)
  let ?s' = "(store_next_free (desc_at s e) (desc_ptr s (head_opt ?ks)) s2)\<lparr>avail_sb := w\<rparr>"
  have eq: "organize_sb_list (sb_at s j) cnt s = Inr ?s'"
    using w(1) s2(1) n(2) n1 by (simp add: organize_sb_list_def desc_lookup_sb [OF lay jc(1)] Let_def geo2)
  have inj: "desc_at s a = desc_at s b \<longleftrightarrow> a = b" if "a < sb_cap s" "b < sb_cap s" for a b
    using desc_at_inj [OF lay, of a b] that by simp
  have other: "descs ?s' (desc_at s i) = descs s (desc_at s i)"
    "pm_descs (pm ?s') (desc_at s i) = pm_descs (pm s) (desc_at s i)"
    if "\<not> (j \<le> i \<and> i < j + n)" "sb_valid g i" for i
  proof -
    have ic: "i < sb_cap s" using sb_valid_cap(1) [OF rep that(2)] .
    have no: "desc_at s i \<notin> desc_at s ` {j..e}" "desc_at s i \<notin> desc_at s ` {j<..e}"
      "desc_at s i \<noteq> desc_at s e" "desc_at s i \<noteq> desc_at s j"
      using inj ic jc that(1) en by (auto simp: image_iff)
    show "descs ?s' (desc_at s i) = descs s (desc_at s i)" using s2(8) no by simp
    show "pm_descs (pm ?s') (desc_at s i) = pm_descs (pm s) (desc_at s i)"
      using s2(9) no repD(3) [OF rep] by simp
  qed
  have r: "rgs ?s' = rgs s" using r2 by simp
  have rest: "same_rest s ?s'" using s2(2) by (simp add: same_rest_def)
  have pmj: "d_heap (pm_descs (pm ?s') (desc_at s i)) = 0" if "j \<le> i" "i < j + n" for i
  proof (cases "i = j")
    case True
    have "desc_at s j \<notin> desc_at s ` {j<..e}" using inj jc by (auto simp: image_iff)
    then show ?thesis using True s2(9) repD(3) [OF rep] by simp
  qed (use s2(10) that en in simp)
  have vj: "d_heap (descs ?s' (desc_at s i)) = 0" if "j \<le> i" "i < j + n" for i
  proof (cases "i = e")
    case False
    then have "i < e" using that(2) en by simp
    then show ?thesis using s2(6) that inj [of i e] jc(2) by simp
  qed (use s2(7) in simp)
  have nx1: "next_free_is ?s' (desc_at s i) (desc_at s (Suc i))" if "j \<le> i" "Suc i < j + n" for i
  proof -
    have "i < sb_cap s" "Suc i < sb_cap s" using jc(2) that en by simp_all
    then show ?thesis
      using s2(6) that inj [of i e] jc(2) en
      by (simp add: next_free_is_def)
  qed
  have nx2: "next_free_is ?s' (desc_at s e) (desc_ptr s (head_opt ?ks))"
    by (simp add: next_free_is_def)
  have in_av: "descs ?s' (desc_at s k) = descs s (desc_at s k)" if "k \<in> set ?ks" for k
    using other(1) [of k] range [of k] av(1) that by blast
  have nx3: "dlinked (\<lambda>k. next_free_is ?s' (desc_at ?s' k)) ?s' ?ks"
    using av(3) by (rule dlinked_cong [THEN iffD1, rotated -1])
      (use in_av in \<open>simp_all add: next_free_is_def fun_eq_iff geometry_cong [OF r] del: store_next_descs\<close>)
  have "dlinked (\<lambda>k. next_free_is ?s' (desc_at ?s' k)) ?s' ([j..<j + n] @ ?ks)"
    using nx1 nx2 n(1) nx3 by (intro dlinked_upt) (simp_all add: geometry_cong [OF r] ee)
  moreover have "head_opt ([j..<j + n] @ ?ks) = Some j" using n(1) by (simp add: upt_conv_Cons)
  ultimately have "avail_rep (a_organize j n g) ?s'" (is "avail_rep ?g' _")
    using w(2) range av(1)
    by (auto simp: avail_rep_def a_organize_def geometry_cong [OF r] geo2 r2 sb_valid_def)
  moreover have "part_rep ?g' ?s' c'" if "1 \<le> c'" "c' < 40" for c'
    using fresh [OF _ _ that] other(1) s2(4)
    by (intro part_rep_other [OF rep that r]) (simp_all add: a_organize_def, metis)
  moreover have "(a_kind ?g' i = Unused \<and> d_heap (descs ?s' (desc_at s i)) = 0
      \<and> d_heap (pm_descs (pm ?s') (desc_at s i)) = 0)
    \<or> (a_kind ?g' i = a_kind g i \<and> a_free ?g' i = a_free g i
       \<and> desc_same (descs ?s' (desc_at s i)) (descs s (desc_at s i))
       \<and> pm_descs (pm ?s') (desc_at s i) = pm_descs (pm s) (desc_at s i))" if "sb_valid g i" for i
  proof (cases "j \<le> i \<and> i < j + n")
    case True
    then show ?thesis using vj [of i] pmj [of i] by (simp add: a_organize_def)
  next
    case False
    then show ?thesis using other [OF False that] by (auto simp: desc_same_def a_organize_def)
  qed
  ultimately have "rep ?g' ?s'"
    using s2(4,5) by (intro rep_meta_frame [OF rep rest]) (simp_all add: a_organize_def)
  with eq rest show ?thesis by (intro exI [of _ ?s']) simp
qed

text \<open>Constructing the descriptor of a superblock that is on no list.\<close>

lemma construct_rep:
  assumes rep: "rep g s" and k: "sb_valid g k" "k \<notin> set (a_avail g)"
    and fresh: "\<And>c'. 1 \<le> c' \<Longrightarrow> c' < 40 \<Longrightarrow> k \<notin> set (a_part g c')"
  shows "rep (g\<lparr>a_kind := (a_kind g)(k := Unused), a_free := (a_free g)(k := [])\<rparr>)
    (construct_desc (desc_at s k) s)" (is "rep ?g' ?s'")
proof -
  note lay = repD(1) [OF rep]
  have kc: "k < sb_cap s" by (rule sb_valid_cap [OF rep k(1)])
  have r: "rgs ?s' = rgs s" by simp
  have other: "descs ?s' (desc_at s j) = descs s (desc_at s j)"
    "pm_descs (pm ?s') (desc_at s j) = pm_descs (pm s) (desc_at s j)"
    if "j \<noteq> k" "sb_valid g j" for j
    using desc_at_inj [OF lay, of j k] sb_valid_cap(1) [OF rep that(2)] kc that(1) repD(3) [OF rep]
    by simp_all
  have "avail_rep ?g' ?s'"
  proof (rule avail_rep_frame [OF repD(5) [OF rep] r])
    fix j assume j: "j \<in> set (a_avail g)"
    moreover from this have "sb_valid g j" using repD(5) [OF rep] by (auto simp: avail_rep_def)
    ultimately show "d_next_free (descs ?s' (desc_at s j)) = d_next_free (descs s (desc_at s j))"
      using other(1) [of j] k(2) by metis
  qed simp_all
  moreover have "part_rep ?g' ?s' c'" if "1 \<le> c'" "c' < 40" for c'
    using fresh [OF that] other(1) by (intro part_rep_other [OF rep that r]) (simp_all, metis)
  moreover have "d_heap (pm_descs (pm ?s') (desc_at s k)) = 0" using repD(3) [OF rep] by simp
  ultimately show ?thesis
    using other by (intro rep_meta_frame [OF rep]) (auto simp: same_rest_def desc_same_def)
qed

end
