(* ===== verification/HeapAlloc.thy ===== *)
theory HeapAlloc
  imports HeapSuper
begin

text \<open>
  Obtaining superblocks on represented states: the frontier of the superblock region, the
  two cases of \<^verbatim>\<open>small_sb_alloc\<close>, and the region growth behind a large block.
\<close>

subsection \<open>Moving the frontier\<close>

text \<open>
  The regions stay where they are and keep their files; only the frontier of the superblocks
  may move. The dirty flag is as it was.
\<close>

definition same_geom :: "ralloc_state \<Rightarrow> ralloc_state \<Rightarrow> bool" where
  "same_geom s s' \<longleftrightarrow> regions_address (rgs s') = regions_address (rgs s)
     \<and> base_addr (sb_region s') = base_addr (sb_region s) \<and> FILESIZE (sb_region s') = FILESIZE (sb_region s)
     \<and> cur_idx (rgs s') = cur_idx (rgs s) \<and> (\<forall>i. i \<noteq> ridx SB_IDX \<longrightarrow> regions (rgs s') i = regions (rgs s) i)
     \<and> HEAPFILE (sb_region s') = HEAPFILE (sb_region s) \<and> persist (sb_region s') = persist (sb_region s)
     \<and> h_start (hdr (sb_region s')) = h_start (hdr (sb_region s)) \<and> dirty_mtx s' = dirty_mtx s"

lemma same_geom_trans: "same_geom s s1 \<Longrightarrow> same_geom s1 s2 \<Longrightarrow> same_geom s s2"
  by (simp add: same_geom_def)

lemma same_rest_geom: "same_rest s s' \<Longrightarrow> same_geom s s'"
  by (simp add: same_geom_def same_rest_def sb_region_def)

lemma same_geomD:
  assumes "same_geom s s'"
  shows "lookup (rgs s') = lookup (rgs s)" "desc_at s' = desc_at s" "sb_at s' = sb_at s"
    "block_at s' = block_at s" "base_md s' = base_md s" "sb_cap s' = sb_cap s" "desc_ptr s' = desc_ptr s"
    "desc_lookup s' = desc_lookup s" "acp_pack (rgs s') = acp_pack (rgs s)"
    "cross_assign (rgs s') = cross_assign (rgs s)" "head_is (rgs s') = head_is (rgs s)"
    "desc_static s' = desc_static s" "live g s' = live g s" "live_bytes g s' = live_bytes g s"
proof -
  show l: "lookup (rgs s') = lookup (rgs s)"
    using assms by (simp add: fun_eq_iff lookup_def same_geom_def)
  show a: "acp_pack (rgs s') = acp_pack (rgs s)" "cross_assign (rgs s') = cross_assign (rgs s)"
    using assms unfolding same_geom_def
    by (intro ext; simp add: acp_pack_def cross_assign_def untranslate_def Let_def)+
  show "head_is (rgs s') = head_is (rgs s)" by (simp add: fun_eq_iff head_is_def a)
  show sb: "sb_at s' = sb_at s" and d: "desc_at s' = desc_at s" and md: "base_md s' = base_md s"
    by (simp_all add: fun_eq_iff sb_at_def desc_at_def base_md_def l)
  show "block_at s' = block_at s" by (simp add: fun_eq_iff block_at_def sb)
  show "desc_ptr s' = desc_ptr s" by (simp add: fun_eq_iff desc_ptr_def d split: option.splits)
  show "desc_lookup s' = desc_lookup s" by (simp add: fun_eq_iff desc_lookup_def l)
  show "sb_cap s' = sb_cap s" using assms l by (simp add: sb_cap_def same_geom_def)
  show "desc_static s' = desc_static s" by (simp add: fun_eq_iff desc_static_def a sb md)
  show "live g s' = live g s" "live_bytes g s' = live_bytes g s"
    by (simp_all add: live_bytes_def live_def block_addr_of_def sb)
qed

lemma set_sb_region_simps [simp]:
  "sb_region (set_sb_region rm s) = rm" "descs (set_sb_region rm s) = descs s"
  "avail_sb (set_sb_region rm s) = avail_sb s" "heaps (set_sb_region rm s) = heaps s"
  "mem (set_sb_region rm s) = mem s" "t_caches (set_sb_region rm s) = t_caches s"
  "pm (set_sb_region rm s) = pm s" "wb (set_sb_region rm s) = wb s" "roots (set_sb_region rm s) = roots s"
  "regions_address (rgs (set_sb_region rm s)) = regions_address (rgs s)"
  by (simp_all add: set_sb_region_def sb_region_def)

lemma curr_addr_num:
  assumes "layout_ok s"
  shows "curr_addr (sb_region s) = sb_at s (sb_num s)"
    and "unat (curr_addr (sb_region s)) = unat (lookup (rgs s) SB_IDX) + 65536 * sb_num s"
proof -
  let ?c = "unat (curr_addr (sb_region s))" and ?b = "unat (lookup (rgs s) SB_IDX)"
  have "65536 dvd ?c - ?b"
    using layout_okD(2,5) [OF assms] by (intro dvd_diff_nat) (simp_all add: mod_0_imp_dvd)
  then have "65536 * sb_num s = ?c - ?b" by (simp add: sb_num_def)
  then show "?c = ?b + 65536 * sb_num s" using layout_okD(4) [OF assms] by simp
  then have "?c = unat (sb_at s (sb_num s))" using unat_sb_at [OF assms sb_num_le_cap [OF assms]] by simp
  then show "curr_addr (sb_region s) = sb_at s (sb_num s)" by (simp add: word_unat_eq_iff)
qed

definition frontier :: "nat \<Rightarrow> ralloc_state \<Rightarrow> ralloc_state" where
  "frontier n s = set_sb_region (advance (sb_at s (sb_num s + n)) (sb_region s)) s"

lemma frontier_layout:
  assumes lay: "layout_ok s" and room: "sb_num s + n \<le> sb_cap s"
  shows "layout_ok (frontier n s)" and "sb_num (frontier n s) = sb_num s + n" and "same_geom s (frontier n s)"
proof -
  let ?c = "sb_at s (sb_num s + n)"
  note ok = layout_okD(1) [OF lay]
  have u: "unat ?c = unat (lookup (rgs s) SB_IDX) + 65536 * (sb_num s + n)"
    by (rule unat_sb_at [OF lay room])
  have "65536 * (sb_num s + n) \<le> 65536 * sb_cap s" using room by simp
  then have le: "unat ?c \<le> unat (base_addr (sb_region s)) + unat (FILESIZE (sb_region s))"
    using u sb_cap_bound(1) [OF lay] by simp
  have ge: "unat (base_addr (sb_region s)) + 4096 \<le> unat ?c" using u layout_okD(3) [OF lay] by simp
  have near: "near ?c (base_addr (sb_region s))" using ge le by (intro region_near [OF ok]) simp_all
  show geom: "same_geom s (frontier n s)" by (simp add: same_geom_def frontier_def) (simp add: set_sb_region_def)
  have curr: "curr_addr (sb_region (frontier n s)) = ?c" using near by (simp add: frontier_def)
  show "sb_num (frontier n s) = sb_num s + n"
    unfolding sb_num_def [of "frontier n s"] curr u same_geomD(1) [OF geom] by simp
  have "region_ok (sb_region (frontier n s))"
    using region_ok_advance [OF ok ge le] by (simp add: frontier_def)
  moreover have "unat ?c mod 65536 = 0" unfolding u mod_mult_self2 by (rule layout_okD(2) [OF lay])
  moreover have "desc_end_ok (rgs (frontier n s))"
    using layout_okD(13) [OF lay] by (simp add: desc_end_ok_def same_geomD [OF geom]) (simp add: frontier_def set_sb_region_def)
  ultimately show "layout_ok (frontier n s)"
    unfolding layout_ok_def curr u same_geomD [OF geom]
    using layout_okD [OF lay] u by (simp add: frontier_def)
qed

lemma frontier_rep:
  assumes rep: "rep g s" and room: "a_num g + n \<le> sb_cap s"
  shows "rep (a_grow n g) (frontier n s)"
proof (rule repI)
  have room': "sb_num s + n \<le> sb_cap s" using room repD(2) [OF rep] by simp
  note lay = frontier_layout [OF repD(1) [OF rep] room']
  note geo = same_geomD [OF lay(3)]
  let ?g' = "a_grow n g" and ?s' = "frontier n s"
  have same: "descs ?s' = descs s" "avail_sb ?s' = avail_sb s" "heaps ?s' = heaps s" "mem ?s' = mem s"
    "t_caches ?s' = t_caches s" "pm ?s' = pm s" "wb ?s' = wb s"
    by (simp_all add: frontier_def)
  have old: "a_kind ?g' k = a_kind g k" "a_free ?g' k = a_free g k" if "sb_valid g k" for k
    using that by (auto simp: a_grow_def sb_valid_def)
  have new: "a_kind ?g' k = Tail" if "sb_valid ?g' k" "\<not> sb_valid g k" for k
    using that by (auto simp: a_grow_def sb_valid_def)
  have gf: "a_cache ?g' = a_cache g" by (simp add: a_grow_def)
  have nx: "next_free_is ?s' = next_free_is s" "next_partial_is ?s' = next_partial_is s"
    by (simp_all add: fun_eq_iff next_free_is_def next_partial_is_def same)
  have dl: "dlinked nx ?s' ks = dlinked nx s ks" for nx ks
    by (rule dlinked_cong) (simp_all add: geo)
  show "layout_ok ?s'" "sb_num ?s' = a_num ?g'" "wb ?s' = []"
    using lay repD(2,3) [OF rep] by (simp_all add: a_grow_def same)
  show "h_sc_idx (heaps ?s' (heap_addr (base_md ?s') i)) = of_nat i" if "i < 40" for i
    using repD(4) [OF rep that] by (simp add: geo same)
  show "avail_rep ?g' ?s'"
    using repD(5) [OF rep]
    by (auto simp: avail_rep_def geo same dl nx a_grow_def sb_valid_def)
  show "part_rep ?g' ?s' c" if "1 \<le> c" "c < 40" for c
    using repD(6) [OF rep that]
    by (auto simp: part_rep_def geo same dl nx a_grow_def sb_valid_def)
  show "desc_rep ?g' ?s' k" if "sb_valid ?g' k" for k
  proof (cases "sb_valid g k")
    case True
    then show ?thesis using repD(7) [OF rep True] old [OF True]
      by (simp add: desc_rep_def geo same gf del: a_grow_simps split: sb_kind.splits)
  qed (use new [OF that] in \<open>simp add: desc_rep_def del: a_grow_simps\<close>)
  show "durable_rep ?g' ?s' k" if "sb_valid ?g' k" for k
  proof (cases "sb_valid g k")
    case True
    then show ?thesis using repD(8) [OF rep True] old [OF True] by (simp add: durable_rep_def geo same del: a_grow_simps split: sb_kind.splits)
  qed (use new [OF that] in \<open>simp add: durable_rep_def del: a_grow_simps\<close>)
  show "caches_rep ?g' ?s' t c" if "1 \<le> c" "c < 40" for t c
    using repD(9) [OF rep that] by (simp add: caches_rep_def geo same gf)
qed

subsection \<open>Small superblocks\<close>

definition sb_room :: "aheap \<Rightarrow> ralloc_state \<Rightarrow> bool" where
  "sb_room g s \<longleftrightarrow> a_avail g \<noteq> [] \<or> a_num g + 16384 \<le> sb_cap s"

lemma sb_at_Suc: "sb_at s k + 65536 = sb_at s (Suc k)"
  by (simp add: sb_at_def algebra_simps)

lemma sb_at_grow: "sb_at s k + 1073741824 = sb_at s (k + 16384)"
  by (simp add: sb_at_def algebra_simps)

lemma aligned_mask:
  assumes "unat (a :: u64) mod 65536 = 0"
  shows "a AND 4095 = 0"
proof -
  have "4096 dvd unat a"
    by (rule dvd_trans [of 4096 65536]) (use assms in \<open>simp_all add: mod_0_imp_dvd\<close>)
  then have "unat (a AND mask 12) = 0" by (simp add: and_mask_unat)
  then show ?thesis by (simp add: mask_eq_exp_minus_1 unsigned_eq_0_iff)
qed

lemma region_space:
  assumes lay: "layout_ok s" and n: "n \<le> 16777216"
  shows "base_addr (sb_region s) + FILESIZE (sb_region s) < sb_at s (sb_num s + n) \<longleftrightarrow> sb_cap s < sb_num s + n"
proof -
  let ?e = "unat (base_addr (sb_region s)) + unat (FILESIZE (sb_region s))"
  let ?b = "unat (lookup (rgs s) SB_IDX)"
  have m: "sb_num s \<le> 16777216" using sb_num_le_cap [OF lay] layout_okD(12) [OF lay] by simp
  have "?b < 140737488355328" using sb_cap_bound(2) [OF lay] by simp
  then have u: "unat (sb_at s (sb_num s + n)) = ?b + 65536 * (sb_num s + n)"
    unfolding sb_at_def using m n by (intro unat_offset) simp
  have le: "?b \<le> ?e" using layout_okD(4) [OF lay] region_okD(6) [OF layout_okD(1) [OF lay]] by simp
  have "sb_cap s < sb_num s + n \<longleftrightarrow> ?e - ?b < 65536 * (sb_num s + n)"
    unfolding sb_cap_def by (rule div_less_iff_less_mult [THEN trans]) (simp_all add: mult.commute)
  then show ?thesis
    using le unfolding word_less_nat_alt region_end_unat [OF layout_okD(1) [OF lay]] u by linarith
qed

lemma small_sb_alloc_list:
  assumes rep: "rep g s" and av: "a_avail g = k # ks"
  shows "\<exists>s'. small_sb_alloc SBSIZE s = Inr (sb_at s k, s') \<and> rep (g\<lparr>a_avail := ks\<rparr>) s' \<and> same_rest s s'
    \<and> descs s' = descs s"
proof -
  note lay = repD(1) [OF rep]
  have pr: "\<forall>j \<in> set (k # ks). sb_valid g j" "head_is (rgs s) (avail_sb s) (desc_ptr s (Some k))"
    "next_free_is s (desc_at s k) (desc_ptr s (head_opt ks))"
    "dlinked (\<lambda>k. next_free_is s (desc_at s k)) s ks"
    using repD(5) [OF rep] av by (simp_all add: avail_rep_def)
  have kok: "desc_idx_ok s (Some k)" using head_opt_ok [OF rep pr(1)] by simp
  have nx: "load_next_free s (desc_at s k) = desc_ptr s (head_opt ks)"
    using desc_ptr_near(1) [OF rep, of ks k] pr(1) kok by (intro next_is_load(1) [OF pr(3)]) simp
  note ld = head_is_load [OF lay kok pr(2)]
  have nz: "desc_at s k \<noteq> 0" using desc_ptr_zero [OF rep pr(1)] by simp
  let ?new = "\<lparr>pc_ptr = desc_ptr s (head_opt ks), pc_cnt = pc_cnt (avail_sb_load s)\<rparr>"
  let ?s' = "s\<lparr>avail_sb := acp_pack (rgs s) DESC_IDX ?new\<rparr>"
  have r: "rgs ?s' = rgs s" by simp
  have "sb_lookup ?s' (desc_at s k) = sb_at s k"
    using sb_lookup_desc [OF lay, of k] kok by (simp add: geometry_cong [OF r])
  then have eq: "small_sb_alloc SBSIZE s = Inr (sb_at s k, ?s')"
    using ld nz nx
    by (simp add: small_sb_alloc_def CAS_FUEL_def numeral_2_eq_2 avail_sb_load_def avail_sb_cas_def Let_def)
  have "head_is (rgs s) (acp_pack (rgs s) DESC_IDX ?new) (desc_ptr s (head_opt ks))"
    using head_is_pack [of "rgs s" ?new] by simp
  moreover have "dlinked (\<lambda>k. next_free_is ?s' (desc_at ?s' k)) ?s' ks"
    using pr(4) by (rule dlinked_cong [THEN iffD1, rotated -1])
      (simp_all add: next_free_is_def fun_eq_iff geometry_cong [OF r])
  ultimately have "avail_rep (g\<lparr>a_avail := ks\<rparr>) ?s'" (is "avail_rep ?g' _")
    using pr(1) by (auto simp: avail_rep_def geometry_cong [OF r] sb_valid_def)
  moreover have "part_rep ?g' ?s' c" if "1 \<le> c" "c < 40" for c
    by (rule part_rep_other [OF rep that r]) simp_all
  ultimately have "rep ?g' ?s'"
    using repD(3) [OF rep] by (intro rep_meta_frame [OF rep]) (simp_all add: same_rest_def desc_same_def)
  with eq show ?thesis by (intro exI [of _ ?s']) (simp add: same_rest_def)
qed

lemma avail_empty_load:
  assumes "rep g s" and "a_avail g = []"
  shows "pc_ptr (avail_sb_load s) = 0"
proof -
  have "head_is (rgs s) (avail_sb s) (desc_ptr s None)"
    using repD(5) [OF assms(1)] assms(2) by (simp add: avail_rep_def)
  from head_is_load(1) [OF repD(1) [OF assms(1)] _ this] show ?thesis by (simp add: avail_sb_load_def)
qed

lemma small_sb_alloc_expand_eq:
  assumes rep: "rep g s" and av: "a_avail g = []"
  shows "small_sb_alloc SBSIZE s =
    (if a_num g + 16384 \<le> sb_cap s then
       rbind (organize_sb_list (sb_at s (Suc (a_num g))) 16383 (frontier 16384 s))
         (\<lambda>s'. Inr (sb_at s (a_num g), construct_desc (desc_lookup s' (sb_at s (a_num g))) s'))
     else Inl (AssertFail ''out of space''))"
proof -
  note lay = repD(1) [OF rep]
  have num: "sb_num s = a_num g" by (rule repD(2) [OF rep])
  have curr: "curr_addr (sb_region s) = sb_at s (a_num g)" using curr_addr_num(1) [OF lay] num by simp
  have mask: "sb_at s (a_num g) AND 4095 = 0"
    using layout_okD(5) [OF lay] by (intro aligned_mask) (simp add: curr)
  have near: "near (sb_at s (a_num g)) (base_addr (sb_region s))"
    using region_ok_curr_near [OF layout_okD(1) [OF lay]] by (simp add: curr)
  have cm: "region_commit (sb_at s (a_num g), sb_at s (a_num g), nxt) (sb_region s) = (True, advance nxt (sb_region s))" for nxt
    using region_commit_eq [OF layout_okD(1) [OF lay] near] by (simp add: curr)
  have room: "base_addr (sb_region s) + FILESIZE (sb_region s) < sb_at s (a_num g + 16384)
      \<longleftrightarrow> \<not> a_num g + 16384 \<le> sb_cap s"
    using region_space [OF lay, of 16384] by (simp add: num not_le)
  have cnt: "SB_REGION_EXPAND_SIZE div SBSIZE - 1 = 16383" by simp
  have fr: "set_sb_region (advance (sb_at s (a_num g + 16384)) (sb_region s)) s = frontier 16384 s"
    by (simp add: frontier_def num)
  show ?thesis
    unfolding small_sb_alloc_def CAS_FUEL_def numeral_2_eq_2 small_sb_alloc_loop.simps Let_def cnt
    by (simp add: avail_empty_load [OF rep av] curr mask sb_at_grow cm check_def room sb_at_Suc fr)
qed

lemma small_sb_alloc_rep:
  assumes rep: "rep g s" and num: "1 \<le> a_num g" and room: "sb_room g s" and take: "a_take_sb g = (k, g')"
  shows "\<exists>s'. small_sb_alloc SBSIZE s = Inr (sb_at s k, s') \<and> rep g' s' \<and> same_geom s s'
    \<and> mem s' = mem s \<and> t_caches s' = t_caches s \<and> roots s' = roots s"
proof (cases "a_avail g")
  case (Cons j ks)
  then show ?thesis
    using small_sb_alloc_list [OF rep Cons] take same_rest_geom
    by (auto simp: a_take_sb_def same_rest_def)
next
  case Nil
  let ?n = "a_num g" and ?s1 = "frontier 16384 s" and ?g1 = "a_grow 16384 g"
  have room': "?n + 16384 \<le> sb_cap s" using room Nil by (simp add: sb_room_def)
  have room2: "sb_num s + 16384 \<le> sb_cap s" using room' repD(2) [OF rep] by simp
  have rep1: "rep ?g1 ?s1" by (rule frontier_rep [OF rep room'])
  have geo: "same_geom s ?s1" by (rule frontier_layout [OF repD(1) [OF rep] room2])
  have part: "i \<notin> set (a_part g c)" if "?n \<le> i" "1 \<le> c" "c < 40" for i c
    using repD(6) [OF rep that(2,3)] that(1) by (auto simp: part_rep_def sb_valid_def)
  have v: "sb_valid ?g1 i" if "Suc ?n \<le> i" "i < Suc ?n + 16383" for i
    using that by (simp add: sb_valid_def a_grow_def)
  obtain s2 where s2: "organize_sb_list (sb_at ?s1 (Suc ?n)) 16383 ?s1 = Inr s2"
    "rep (a_organize (Suc ?n) 16383 ?g1) s2" "same_rest ?s1 s2"
    using organize_rep [OF rep1, of 16383 16383 "Suc ?n"] v part Nil by (auto simp: a_grow_def)
  note geo2 = same_geom_trans [OF geo same_rest_geom [OF s2(3)]]
  let ?g2 = "a_organize (Suc ?n) 16383 ?g1"
  have tk: "k = ?n" "g' = ?g2\<lparr>a_kind := (a_kind ?g2)(?n := Unused), a_free := (a_free ?g2)(?n := [])\<rparr>"
    using take Nil by (auto simp: a_take_sb_def Let_def)
  have "rep g' (construct_desc (desc_at s2 ?n) s2)"
    unfolding tk(2)
  proof (rule construct_rep [OF s2(2)])
    show "sb_valid ?g2 ?n" "?n \<notin> set (a_avail ?g2)"
      using num Nil by (simp_all add: sb_valid_def a_organize_def a_grow_def)
    show "?n \<notin> set (a_part ?g2 c)" if "1 \<le> c" "c < 40" for c
      using part [OF _ that] by (simp add: a_organize_def a_grow_def)
  qed
  moreover have "desc_lookup s2 (sb_at s ?n) = desc_at s2 ?n"
    using desc_lookup_sb [OF repD(1) [OF s2(2)], of ?n] room' by (simp add: same_geomD [OF geo2])
  moreover have "small_sb_alloc SBSIZE s = Inr (sb_at s ?n, construct_desc (desc_lookup s2 (sb_at s ?n)) s2)"
    using small_sb_alloc_expand_eq [OF rep Nil] room' s2(1) by (simp add: same_geomD [OF geo])
  moreover have "same_geom s2 (construct_desc d s2)" for d by (simp add: same_geom_def sb_region_def)
  ultimately show ?thesis
    using s2(3) same_geom_trans [OF geo2] tk(1) by (auto simp: same_rest_def frontier_def)
qed

end
