(* ===== verification/HeapBlocks.thy ===== *)
theory HeapBlocks
  imports HeapAlloc
begin

text \<open>
  Moving blocks between superblocks and thread caches on represented states: what a write to
  one block leaves alone, and the two sources \<^verbatim>\<open>fill_cache\<close> has, a partial superblock and a new
  one.
\<close>

subsection \<open>Changing one superblock and one cache\<close>

lemma rep_block_frame:
  assumes rep: "rep g s"
    and st: "rgs s' = rgs s" "avail_sb s' = avail_sb s" "heaps s' = heaps s" "wb s' = []"
    and ds: "\<And>j. j \<noteq> k \<Longrightarrow> sb_valid g j \<Longrightarrow> descs s' (desc_at s j) = descs s (desc_at s j)
      \<and> pm_descs (pm s') (desc_at s j) = pm_descs (pm s) (desc_at s j)"
    and nk: "d_next_free (descs s' (desc_at s k)) = d_next_free (descs s (desc_at s k))"
      "d_next_partial (descs s' (desc_at s k)) = d_next_partial (descs s (desc_at s k))"
    and cs: "\<And>t' c'. (t', c') \<noteq> (t, c) \<Longrightarrow> t_caches s' t' c' = t_caches s t' c'
      \<and> a_cache g' t' c' = a_cache g t' c'"
    and lists: "a_num g' = a_num g" "a_avail g' = a_avail g" "a_part g' = a_part g"
    and gs: "\<And>j. j \<noteq> k \<Longrightarrow> a_kind g' j = a_kind g j \<and> a_free g' j = a_free g j"
    and mf: "\<And>j c' i. j \<noteq> k \<Longrightarrow> sb_valid g j \<Longrightarrow> a_kind g j = Small c' \<Longrightarrow> i \<in> set (a_free g j) \<Longrightarrow>
      load_pptr (mem s') (block_at s c' j i) = load_pptr (mem s) (block_at s c' j i)"
    and mc: "\<And>t' c' j i. 1 \<le> c' \<Longrightarrow> c' < 40 \<Longrightarrow> (t', c') \<noteq> (t, c) \<Longrightarrow> (j, i) \<in> set (a_cache g t' c') \<Longrightarrow>
      load_pptr (mem s') (block_at s c' j i) = load_pptr (mem s) (block_at s c' j i)"
    and dk: "sb_valid g k \<Longrightarrow> desc_rep g' s' k \<and> durable_rep g' s' k"
    and ck: "1 \<le> c \<Longrightarrow> c < 40 \<Longrightarrow> caches_rep g' s' t c"
  shows "rep g' s'"
proof (rule repI)
  have v: "sb_valid g' = sb_valid g" by (simp add: fun_eq_iff sb_valid_def lists)
  show "layout_ok s'" "sb_num s' = a_num g'" "wb s' = []"
    using repD(1,2) [OF rep] st(4) lists by (simp_all add: geometry_cong [OF st(1)])
  show "h_sc_idx (heaps s' (heap_addr (base_md s') i)) = of_nat i" if "i < 40" for i
    using repD(4) [OF rep that] by (simp add: geometry_cong [OF st(1)] st(3))
  have nf: "d_next_free (descs s' (desc_at s j)) = d_next_free (descs s (desc_at s j))"
    "d_next_partial (descs s' (desc_at s j)) = d_next_partial (descs s (desc_at s j))" if "sb_valid g j" for j
    using ds [OF _ that] nk by (cases "j = k"; simp)+
  show "avail_rep g' s'"
    by (rule avail_rep_frame [OF repD(5) [OF rep] st(1,2)])
      (use repD(5) [OF rep] in \<open>auto simp: lists avail_rep_def nf\<close>)
  show "part_rep g' s' c'" if c': "1 \<le> c'" "c' < 40" for c'
    by (rule part_rep_frame [OF repD(6) [OF rep c'] st(1)])
      (use repD(6) [OF rep c'] in \<open>auto simp: lists part_rep_def nf st(3)\<close>)
  show "desc_rep g' s' j" if "sb_valid g' j" for j
  proof (cases "j = k")
    case False
    with that v show ?thesis
      by (intro desc_rep_frame [OF repD(7) [OF rep] st(1)]) (simp_all add: ds gs mf desc_same_def)
  qed (use dk that v in simp)
  show "durable_rep g' s' j" if "sb_valid g' j" for j
  proof (cases "j = k")
    case False
    with that v show ?thesis
      by (intro durable_rep_frame [OF repD(8) [OF rep] st(1)]) (simp_all add: ds gs)
  qed (use dk that v in simp)
  show "caches_rep g' s' t' c'" if c': "1 \<le> c'" "c' < 40" for t' c'
  proof (cases "(t', c') = (t, c)")
    case False
    then show ?thesis
      by (intro caches_rep_frame [OF repD(9) [OF rep c'] st(1)]) (use cs [OF False] mc [OF c' False] in simp_all)
  qed (use ck c' in simp)
qed

subsection \<open>Steps that keep the live blocks\<close>

text \<open>What the program can see of the step of an operation: its blocks, their bytes and the roots.\<close>

definition quiet :: "aheap \<Rightarrow> ralloc_state \<Rightarrow> aheap \<Rightarrow> ralloc_state \<Rightarrow> bool" where
  "quiet g s g' s' \<longleftrightarrow> heap_rep g' s' \<and> same_live g g' \<and> same_geom s s' \<and> roots s' = roots s
     \<and> (\<forall>a \<in> live_bytes g s. mem s' a = mem s a)"

lemma same_live_live:
  assumes "same_live g g'" and "same_geom s s'"
  shows "live g' s' = live g s" and "live_bytes g' s' = live_bytes g s"
proof -
  have "(block_addr_of g' s' b, block_size_of g' (fst b)) = (block_addr_of g s b, block_size_of g (fst b))"
    if "b \<in> alive g" for b
    using same_live_size [OF assms(1), of "fst b" "snd b"] that
    by (simp add: block_addr_of_def same_geomD [OF assms(2)])
  moreover have "alive g' = alive g" using assms(1) by (simp add: same_live_def)
  ultimately show "live g' s' = live g s" unfolding live_def by (intro image_cong) simp_all
  then show "live_bytes g' s' = live_bytes g s" by (simp add: live_bytes_def)
qed

lemma quiet_refl: "heap_rep g s \<Longrightarrow> quiet g s g s"
  by (simp add: quiet_def same_live_refl same_geom_def)

lemma quiet_trans:
  assumes "quiet g s g1 s1" and "quiet g1 s1 g2 s2"
  shows "quiet g s g2 s2"
  using assms same_live_live [of g g1 s s1] same_live_trans [of g g1 g2] same_geom_trans [of s s1 s2]
  by (simp add: quiet_def)

lemma quietD:
  assumes "quiet g s g' s'"
  shows "heap_rep g' s'" and "ainv g'" and "rep g' s'" and "same_geom s s'" and "same_live g g'"
    and "live g' s' = live g s" and "live_bytes g' s' = live_bytes g s" and "roots s' = roots s"
    and "\<And>a. a \<in> live_bytes g s \<Longrightarrow> mem s' a = mem s a"
  using assms same_live_live [of g g' s s'] by (simp_all add: quiet_def heap_rep_def)

lemma quiet_rest:
  assumes "ainv g'" and "rep g' s'" and "same_live g g'" and "same_rest s s'"
  shows "quiet g s g' s'"
  using assms same_rest_geom [OF assms(4)] by (simp add: quiet_def heap_rep_def same_rest_def)

subsection \<open>Fields of a descriptor in use\<close>

lemma ucast_32_64: "(ucast (x :: u32) :: u64) = of_nat (unat x)"
  by (simp add: word_unat_eq_iff unsigned_ucast_eq)

lemma desc_static_get:
  assumes lay: "layout_ok s" and k: "1 \<le> k" "k < sb_cap s" and c: "c < 40" and v: "desc_static s k c bs n v"
  shows "cross_get (rgs s) SB_IDX (d_superblock v) = sb_at s k"
    and "cross_deref (rgs s) META_IDX (d_heap v) = heap_addr (base_md s) c"
  using v cross_sb_at [OF lay k(1)] cross_heap_addr [OF lay c] k by (simp_all add: desc_static_def)

lemma block_word:
  fixes av bs :: u32
  assumes "1 \<le> c" and "c < 40" and "unat av = i" and "unat bs = bsz c" and "i < bnum c"
  shows "sb_at s k + ucast (av * bs) = block_at s c k i"
proof -
  have "i * bsz c < 2 ^ 32" using block_end_le [OF assms(1,2,5)] by simp
  then have "unat (av * bs) = i * bsz c" using assms(3,4) by (simp add: unat_word_ariths)
  then show ?thesis by (simp add: ucast_32_64 block_at_def)
qed

lemma small_desc:
  assumes rep: "rep g s" and inv: "ainv g" and k: "sb_valid g k" "a_kind g k = Small c"
  shows "1 \<le> c" and "c < 40" and "k < sb_cap s" and "1 \<le> k"
    and "cross_get (rgs s) SB_IDX (d_superblock (descs s (desc_at s k))) = sb_at s k"
    and "cross_deref (rgs s) META_IDX (d_heap (descs s (desc_at s k))) = heap_addr (base_md s) c"
    and "unat (d_block_size (descs s (desc_at s k))) = bsz c"
    and "unat (d_maxcount (descs s (desc_at s k))) = bnum c"
    and "anchor_rep (bnum c) (a_free g k) (d_anchor (descs s (desc_at s k)))"
    and "linked (mem s) (map (block_at s c k) (a_free g k))"
    and "desc_static s k c (bsz c) (bnum c) (descs s (desc_at s k))"
    and "desc_lookup s (sb_at s k) = desc_at s k"
proof -
  show c: "1 \<le> c" "c < 40" using ainv_small [OF inv k] by simp_all
  show kc: "k < sb_cap s" "1 \<le> k" using sb_valid_cap [OF rep k(1)] by simp_all
  have d: "desc_static s k c (bsz c) (bnum c) (descs s (desc_at s k))"
    "anchor_rep (bnum c) (a_free g k) (d_anchor (descs s (desc_at s k)))"
    "linked (mem s) (map (block_at s c k) (a_free g k))"
    using repD(7) [OF rep k(1)] k(2) by (simp_all add: desc_rep_def)
  then show "anchor_rep (bnum c) (a_free g k) (d_anchor (descs s (desc_at s k)))"
    "linked (mem s) (map (block_at s c k) (a_free g k))"
    "desc_static s k c (bsz c) (bnum c) (descs s (desc_at s k))" by simp_all
  show "cross_get (rgs s) SB_IDX (d_superblock (descs s (desc_at s k))) = sb_at s k"
    "cross_deref (rgs s) META_IDX (d_heap (descs s (desc_at s k))) = heap_addr (base_md s) c"
    using desc_static_get [OF repD(1) [OF rep] kc(2,1) c(2) d(1)] by simp_all
  show "unat (d_block_size (descs s (desc_at s k))) = bsz c" "unat (d_maxcount (descs s (desc_at s k))) = bnum c"
    using d(1) by (simp_all add: desc_static_def)
  show "desc_lookup s (sb_at s k) = desc_at s k" by (rule desc_lookup_sb [OF repD(1) [OF rep] kc(1)])
qed

lemma free_blocks:
  assumes rep: "rep g s" and inv: "ainv g" and k: "sb_valid g k" "a_kind g k = Small c"
    and bs: "distinct bs" "set bs \<subseteq> {..<bnum c}"
  shows "distinct (map (block_at s c k) bs)" and "\<forall>x \<in> set (map (block_at s c k) bs). block_addr x"
    and "length bs \<le> bnum c" and "length bs < 2 ^ 31"
proof -
  note sd = small_desc [OF rep inv k]
  show "distinct (map (block_at s c k) bs)"
    using block_at_inj [OF repD(1) [OF rep] sd(3,1,2) _ sd(3,1,2)] bs
    by (auto simp: distinct_map inj_on_def)
  show "\<forall>x \<in> set (map (block_at s c k) bs). block_addr x"
    using block_at_props(1) [OF repD(1) [OF rep] sd(3,1,2)] bs(2) by auto
  show "length bs \<le> bnum c" using card_mono [OF _ bs(2)] distinct_card [OF bs(1)] by simp
  then show "length bs < 2 ^ 31" using bnum_le [OF sd(1,2)] by simp
qed

subsection \<open>Filling from a partial superblock\<close>

lemma malloc_from_partial_none:
  assumes "rep g s" and "1 \<le> c" and "c < 40" and "a_part g c = []"
  shows "malloc_from_partial (Suc n) t c bn s = Inr (bn, s)"
  by (simp add: pop_partial_empty [OF assms])

lemma malloc_from_partial_empty:
  assumes hr: "heap_rep g s" and c: "1 \<le> c" "c < 40" and part: "a_part g c = k # ks"
    and full: "length (a_free g k) = bnum c"
  shows "\<exists>s'. malloc_from_partial (Suc n) t c bn s = malloc_from_partial n t c bn s'
    \<and> quiet g s (a_drop_empty c k g) s' \<and> same_rest s s'"
proof -
  have inv: "ainv g" and rep: "rep g s" using hr by (simp_all add: heap_rep_def)
  have k: "sb_valid g k" "a_kind g k = Small c" using ainv_part(2) [OF inv c, of k] part by simp_all
  note sd = small_desc [OF rep inv k]
  obtain s1 where s1: "heap_pop_partial (heap_addr (base_md s) c) s = Inr (desc_at s k, s1)"
    "rep (g\<lparr>a_part := (a_part g)(c := ks)\<rparr>) s1" "same_rest s s1" "descs s1 = descs s"
    using pop_partial_rep [OF rep c part] by blast
  have r: "rgs s1 = rgs s" using s1(3) by (simp add: same_rest_def)
  have "4 \<le> bnum c" by (rule class_facts(4) [OF c])
  then have st: "sb_state (d_anchor (descs s (desc_at s k))) = SB_EMPTY"
    using sd(9) full by (auto simp: anchor_rep_def split: if_splits)
  have un: "k \<notin> set (a_avail g)" using ainv_avail(2) [OF inv, of k] k by simp
  have fr: "k \<notin> set (if c' = c then ks else a_part g c')" if "1 \<le> c'" "c' < 40" for c'
    using ainv_part [OF inv that] part k by (auto simp: ainv_part(1) [OF inv c, unfolded part])
  obtain s2 where s2: "small_sb_retire (sb_at s1 k) SBSIZE s1 = Inr s2"
    "rep (a_retire k (g\<lparr>a_part := (a_part g)(c := ks)\<rparr>)) s2" "same_rest s1 s2"
    using retire_rep [OF s1(2), of k] k(1) un fr by (auto simp: sb_valid_def)
  have sz: "ucast (sc_sb_size (heap_get_sizeclass (heap_addr (base_md s) c) s1)) = (SBSIZE :: u64)"
  proof -
    have "h_sc_idx (heaps s1 (heap_addr (base_md s) c)) = of_nat c"
      using repD(4) [OF s1(2) c(2)] by (simp add: geometry_cong [OF r])
    then have "unat (h_sc_idx (heaps s1 (heap_addr (base_md s) c))) = c"
      using c by (simp add: unat_of_nat64)
    then show ?thesis using class_uniform(1) [OF c] by (simp add: heap_get_sizeclass_def)
  qed
  have nz: "desc_at s k \<noteq> 0" using desc_at_less(2) [OF repD(1) [OF rep], of k] sd(3) by simp
  have "malloc_from_partial (Suc n) t c bn s = malloc_from_partial n t c bn s2"
    using s2(1) sz st nz sd(5)
    by (simp add: s1(1,4) r CAS_FUEL_def numeral_2_eq_2 Let_def geometry_cong [OF r])
  moreover have eq: "a_drop_empty c k g = a_retire k (g\<lparr>a_part := (a_part g)(c := ks)\<rparr>)"
    by (simp add: a_drop_empty_def part)
  moreover have "quiet g s (a_drop_empty c k g) s2"
    using a_drop_empty_ok [OF inv c part full] s2(2) same_rest_trans [OF s1(3) s2(3)]
    by (intro quiet_rest) (simp_all add: eq)
  ultimately show ?thesis using same_rest_trans [OF s1(3) s2(3)] by blast
qed

lemma reserve_loop_partial:
  assumes "sb_state a = SB_PARTIAL" and "d_anchor (descs s d) = a"
  shows "reserve_loop CAS_FUEL d mc a s = Inr (Some a,
    set_desc d (d_anchor_update (\<lambda>_. a\<lparr>count := 0, avail := ucast mc, sb_state := SB_FULL\<rparr>)) s)"
  using assms by (simp add: CAS_FUEL_def numeral_2_eq_2 anchor_cas_def Let_def)

lemma malloc_from_partial_take:
  assumes hr: "heap_rep g s" and c: "1 \<le> c" "c < 40" and part: "a_part g c = k # ks"
    and full: "length (a_free g k) \<noteq> bnum c" and empty: "a_cache g t c = []"
  shows "\<exists>s'. malloc_from_partial (Suc n) t c bn s = Inr (bn + of_nat (length (a_free g k)), s')
    \<and> quiet g s (a_take_partial t c k g) s' \<and> mem s' = mem s"
proof -
  have inv: "ainv g" and rep: "rep g s" using hr by (simp_all add: heap_rep_def)
  have k: "sb_valid g k" "a_kind g k = Small c" "a_free g k \<noteq> []" using ainv_part(2) [OF inv c, of k] part by simp_all
  note sd = small_desc [OF rep inv k(1,2)]
  let ?d = "desc_at s k" and ?fs = "a_free g k" and ?g1 = "g\<lparr>a_part := (a_part g)(c := ks)\<rparr>"
  let ?a = "d_anchor (descs s ?d)"
  let ?an = "?a\<lparr>count := 0, avail := ucast (d_maxcount (descs s ?d)), sb_state := SB_FULL\<rparr>"
  obtain s1 where s1: "heap_pop_partial (heap_addr (base_md s) c) s = Inr (?d, s1)"
    "rep ?g1 s1" "same_rest s s1" "descs s1 = descs s"
    using pop_partial_rep [OF rep c part] by blast
  have r: "rgs s1 = rgs s" and m: "mem s1 = mem s" and tc: "t_caches s1 = t_caches s"
    using s1(3) by (simp_all add: same_rest_def)
  note geo = geometry_cong [OF r]
  have a: "sb_state ?a = SB_PARTIAL" "unat (avail ?a) = hd ?fs" "unat (count ?a) = length ?fs"
    using sd(9) k(3) full by (simp_all add: anchor_rep_def)
  have fs: "distinct ?fs" "set ?fs \<subseteq> {..<bnum c}" using ainv_small [OF inv k(1,2)] by simp_all
  note fb = free_blocks [OF rep inv k(1,2) fs]
  have hd: "hd ?fs < bnum c" using fs(2) k(3) by (cases ?fs) auto
  have cr: "cache_rep (mem s, t_caches s t c) []"
    using repD(9) [OF rep c, of t] empty by (simp add: caches_rep_def)
  obtain b where b: "push_list (hd (map (block_at s c k) ?fs)) (ucast (count ?a)) (t_caches s t c) = Inr b"
    "cache_rep (mem s, b) (map (block_at s c k) ?fs)"
    using cache_rep_take_all [OF cr _ sd(10) fb(1) _ fb(2), of "ucast (count ?a)"] fb(4) k(3) a(3) by auto
  let ?s2 = "set_cache t c b (set_desc ?d (d_anchor_update (\<lambda>_. ?an)) s1)"
  have nz: "?d \<noteq> 0" using desc_at_less(2) [OF repD(1) [OF rep], of k] sd(3) by simp
  have av: "ucast (avail ?a) < d_maxcount (descs s ?d)"
    using hd a(2) sd(8) by (simp add: word_less_nat_alt)
  have blk: "sb_at s k + ucast (ucast (avail ?a) * d_block_size (descs s ?d)) = hd (map (block_at s c k) ?fs)"
    using block_word [OF c _ sd(7), of "ucast (avail ?a)" "hd ?fs"] a(2) hd k(3) by (simp add: hd_map)
  have num: "get_cache_block_num (t_caches s t c) = 0" using cr by (simp add: get_cache_block_num_def)
  have cnt: "ucast (ucast (count ?a) :: u32) = (of_nat (length ?fs) :: u64)"
    using a(3) by (simp add: ucast_32_64)
  have eq: "malloc_from_partial (Suc n) t c bn s = Inr (bn + of_nat (length ?fs), ?s2)"
    using nz av num b(1) reserve_loop_partial [OF a(1), of s1 ?d]
    by (simp add: s1(1,4) tc Let_def sd(5) r blk cnt)
  have r2: "rgs ?s2 = rgs s" by (simp add: r)
  have an: "anchor_rep (bnum c) [] ?an" by (simp add: anchor_rep_def)
  have "rep (a_take_partial t c k g) ?s2"
  proof (rule rep_block_frame [OF s1(2), where k = k and t = t and c = c])
    show "desc_rep (a_take_partial t c k g) ?s2 k \<and> durable_rep (a_take_partial t c k g) ?s2 k"
      using sd(11) an k(2) repD(8) [OF s1(2), of k] k(1)
      by (simp add: desc_rep_def durable_rep_def desc_static_cong [OF r2] desc_static_def s1(4)
          geometry_cong [OF r2] geo r sb_valid_def)
    show "caches_rep (a_take_partial t c k g) ?s2 t c"
      using b(2) by (simp add: caches_rep_def geometry_cong [OF r2] m comp_def)
  qed (use desc_at_inj [OF repD(1) [OF rep]] sd(3) sb_valid_cap [OF rep] repD(3) [OF s1(2)] part in
      \<open>auto simp: s1(4) geo sb_valid_def less_imp_le\<close>)
  then have "quiet g s (a_take_partial t c k g) ?s2"
    using a_take_partial_ok [OF inv c part empty] s1(3) same_rest_geom [of s ?s2]
    by (simp add: quiet_def heap_rep_def same_rest_def same_geom_def sb_region_def)
  with eq show ?thesis using m by (intro exI [of _ ?s2]) simp
qed

lemma malloc_from_partial_rep:
  assumes "heap_rep g s" and c: "1 \<le> c" "c < 40" and "a_cache g t c = []" and "length (a_part g c) < n"
  shows "\<exists>g' s' m. malloc_from_partial n t c 0 s = Inr (of_nat m, s') \<and> quiet g s g' s' \<and> mem s' = mem s
    \<and> length (a_cache g' t c) = m \<and> a_num g' = a_num g
    \<and> (m = 0 \<longrightarrow> (a_avail g' = [] \<longleftrightarrow> a_avail g = [] \<and> a_part g c = []))"
  using assms(1,4,5)
proof (induction "a_part g c" arbitrary: g s n)
  case Nil
  then obtain n' where n: "n = Suc n'" by (cases n) auto
  have rep: "rep g s" using Nil.prems by (simp add: heap_rep_def)
  have "malloc_from_partial n t c 0 s = Inr (of_nat 0, s)"
    using malloc_from_partial_none [OF rep c Nil.hyps [symmetric]] n by simp
  then show ?case using Nil quiet_refl by (intro exI [of _ g] exI [of _ s] exI [of _ 0]) simp
next
  case (Cons k ks)
  note part = Cons.hyps(2) [symmetric]
  obtain n' where n: "n = Suc n'" and n': "length ks < n'" using Cons.prems part by (cases n) auto
  have inv: "ainv g" using Cons.prems by (simp add: heap_rep_def)
  show ?case
  proof (cases "length (a_free g k) = bnum c")
    case True
    obtain s1 where s1: "malloc_from_partial n t c 0 s = malloc_from_partial n' t c 0 s1"
      "quiet g s (a_drop_empty c k g) s1" "same_rest s s1"
      using malloc_from_partial_empty [OF Cons.prems(1) c part True] n by blast
    have "\<exists>g' s' m. malloc_from_partial n' t c 0 s1 = Inr (of_nat m, s') \<and> quiet (a_drop_empty c k g) s1 g' s'
      \<and> mem s' = mem s1 \<and> length (a_cache g' t c) = m \<and> a_num g' = a_num (a_drop_empty c k g)
      \<and> (m = 0 \<longrightarrow> (a_avail g' = [] \<longleftrightarrow> a_avail (a_drop_empty c k g) = [] \<and> a_part (a_drop_empty c k g) c = []))"
      by (rule Cons.hyps(1)) (use part quietD(1) [OF s1(2)] Cons.prems(2) n' in simp_all)
    then show ?thesis
      using s1(1,3) quiet_trans [OF s1(2)] part by (auto simp: same_rest_def)
  next
    case False
    then show ?thesis
      using malloc_from_partial_take [OF Cons.prems(1) c part False Cons.prems(2), of n' 0] n part
        ainv_part(2) [OF inv c, of k]
      by (fastforce intro: exI [of _ "a_take_partial t c k g"])
  qed
qed

lemma part_length:
  assumes "heap_rep g s" and c: "1 \<le> c" "c < 40"
  shows "length (a_part g c) < PARTIAL_FUEL"
proof -
  have inv: "ainv g" and rep: "rep g s" using assms(1) by (simp_all add: heap_rep_def)
  have "set (a_part g c) \<subseteq> {..<a_num g}"
    by (auto simp: ainv_part(2) [OF inv c] sb_valid_def)
  then have "length (a_part g c) \<le> a_num g"
    using card_mono [of "{..<a_num g}" "set (a_part g c)"] distinct_card [OF ainv_part(1) [OF inv c]] by simp
  also have "\<dots> \<le> 16777216"
    using repD(2) [OF rep] sb_num_le_cap [OF repD(1) [OF rep]] layout_okD(12) [OF repD(1) [OF rep]] by simp
  finally show ?thesis by (simp add: PARTIAL_FUEL_def)
qed

subsection \<open>Where live bytes are\<close>

lemma live_byte_sb:
  assumes hr: "heap_rep g s" and q: "q < sb_cap s" "off < 65536"
    and a: "sb_at s q + of_nat off \<in> live_bytes g s"
  shows "sb_valid g q \<and> (case a_kind g q of Small c \<Rightarrow> (q, off div bsz c) \<in> alive g | Unused \<Rightarrow> False | _ \<Rightarrow> True)"
proof -
  have inv: "ainv g" and rep: "rep g s" using hr by (simp_all add: heap_rep_def)
  note lay = repD(1) [OF rep]
  obtain k i j where b: "(k, i) \<in> alive g" "j < block_size_of g k"
    "sb_at s q + of_nat off = sb_at s k + of_nat (i * block_size_of g k) + of_nat j"
    using a by (auto simp: live_bytes_def live_def bytes_def block_addr_of_def)
  let ?x = "i * block_size_of g k + j" and ?B = "unat (lookup (rgs s) SB_IDX)"
  have eq: "sb_at s q + of_nat off = sb_at s k + of_nat ?x" using b(3) by (simp add: add.assoc)
  have uq: "unat (sb_at s q + of_nat off) = ?B + 65536 * q + off"
    using unat_sb_off [OF lay q(1)] q(2) by simp
  have kv: "sb_valid g k" using b(1) by (simp add: alive_iff)
  note kc = sb_valid_cap [OF rep kv]
  consider (small) c where "a_kind g k = Small c" "i < bnum c" | (large) m where "a_kind g k = Large m" "i = 0"
    using b(1) by (auto simp: alive_iff)
  then show ?thesis
  proof cases
    case small
    have c: "1 \<le> c" "c < 40" using ainv_small [OF inv kv small(1)] by simp_all
    have j: "j < bsz c" and x: "?x = i * bsz c + j" using b(2) small(1) by (simp_all add: block_size_of_def)
    have x': "?x < 65536" using block_end_le [OF c small(2)] j unfolding x by linarith
    have "unat (sb_at s k + of_nat ?x) = ?B + 65536 * k + ?x"
      using unat_sb_off [OF lay kc(1), of ?x] x' by simp
    then have e: "65536 * q + off = 65536 * k + ?x" using uq eq by simp
    have "(65536 * q + off) div 65536 = q" "(65536 * k + ?x) div 65536 = k" using q(2) x' by simp_all
    then have qk: "q = k" using e by simp
    then have "off div bsz c = i" using e x j by simp
    then show ?thesis using qk small(1) b(1) kv by simp
  next
    case large
    note lg = ainv_large [OF inv kv large(1)]
    have j: "j < 65536 * m" and x: "?x = j" using b(2) large by (simp_all add: block_size_of_def)
    have "k + m \<le> sb_cap s" using lg(3) repD(2) [OF rep] sb_num_le_cap [OF lay] by simp
    then have "65536 * (k + m) \<le> 65536 * sb_cap s" by simp
    then have bound: "?B + 65536 * k + j < 140737488355328" using sb_cap_bound(2) [OF lay] j by simp
    have uk: "unat (sb_at s k) = ?B + 65536 * k" using unat_sb_at [OF lay, of k] kc(1) by simp
    have "unat (sb_at s k + of_nat j) = unat (sb_at s k) + j"
      by (rule unat_offset) (use bound uk in simp)
    then have e: "65536 * q + off = 65536 * k + j" using uq eq x uk by simp
    then have "k \<le> q" "q < k + m" using j q(2) by linarith+
    then show ?thesis
      using large(1) lg(3,4) kv kc(2) by (cases "q = k") (auto simp: sb_valid_def)
  qed
qed

lemma cell_not_live:
  assumes hr: "heap_rep g s" and k: "sb_valid g k" "a_kind g k = Small c" "i < bnum c"
    and dead: "(k, i) \<notin> alive g" and j: "j < bsz c"
  shows "block_at s c k i + of_nat j \<notin> live_bytes g s"
proof
  assume a: "block_at s c k i + of_nat j \<in> live_bytes g s"
  have inv: "ainv g" and rep: "rep g s" using hr by (simp_all add: heap_rep_def)
  have c: "1 \<le> c" "c < 40" using ainv_small [OF inv k(1,2)] by simp_all
  have eq: "block_at s c k i + of_nat j = sb_at s k + of_nat (i * bsz c + j)" by (simp add: block_at_def)
  have off: "i * bsz c + j < 65536" using block_end_le [OF c k(3)] j by linarith
  show False
    using live_byte_sb [OF hr sb_valid_cap(1) [OF rep k(1)] off] a dead k(2) j by (simp add: eq)
qed

end
