(* ===== verification/HeapFill.thy ===== *)
theory HeapFill
  imports HeapBlocks
begin

text \<open>
  Filling a thread cache: the blocks of a new superblock are linked and handed to the cache,
  and \<^verbatim>\<open>fill_cache\<close> as a whole succeeds unless the region is exhausted.
\<close>

subsection \<open>Linking the blocks of a superblock\<close>

lemma store_pptr_other:
  assumes "\<And>i. i < 8 \<Longrightarrow> b \<noteq> a + of_nat i"
  shows "store_pptr m a v b = m b"
  using store64_other [OF assms] by (simp add: store_pptr_def)

lemma fold_link:
  assumes lay: "layout_ok s" and k: "k < sb_cap s" and c: "1 \<le> c" "c < 40" and n: "n < bnum c"
  shows "(\<forall>i < n. load_pptr (fold (\<lambda>i m. store_pptr m (block_at s c k i) (block_at s c k (Suc i))) [0..<n] m)
        (block_at s c k i) = block_at s c k (Suc i))
    \<and> (\<forall>a. (\<forall>j < 65536. a \<noteq> sb_at s k + of_nat j) \<longrightarrow>
        fold (\<lambda>i m. store_pptr m (block_at s c k i) (block_at s c k (Suc i))) [0..<n] m a = m a)"
  using n
proof (induction n)
  case (Suc n)
  let ?m = "fold (\<lambda>i m. store_pptr m (block_at s c k i) (block_at s c k (Suc i))) [0..<n] m"
  have n: "n < bnum c" using Suc.prems by simp
  have ba: "block_addr (block_at s c k i)" if "i < bnum c" for i by (rule block_at_props(1) [OF lay k c that])
  have "near (block_at s c k (Suc n)) (block_at s c k n)"
    using block_addr_near [OF ba [OF Suc.prems] ba [OF n]] .
  then have last: "load_pptr (store_pptr ?m (block_at s c k n) (block_at s c k (Suc n))) (block_at s c k n)
      = block_at s c k (Suc n)"
    by (rule load_store_pptr_same)
  have other: "load_pptr (store_pptr ?m (block_at s c k n) (block_at s c k (Suc n))) (block_at s c k i)
      = load_pptr ?m (block_at s c k i)" if "i < n" for i
  proof (rule load_store_pptr_other)
    show "block_at s c k n \<noteq> block_at s c k i"
      using block_at_inj [OF lay k c n k c, of i] that n by auto
  qed (use ba [of n] ba [of i] that n in \<open>simp_all add: block_addr_def\<close>)
  have "store_pptr ?m (block_at s c k n) (block_at s c k (Suc n)) a = ?m a"
    if a: "\<forall>j < 65536. a \<noteq> sb_at s k + of_nat j" for a
  proof (rule store_pptr_other)
    fix i :: nat assume "i < 8"
    then have "n * bsz c + i < 65536"
      using block_end_le [OF c n] class_facts(1) [OF c] by linarith
    then have "a \<noteq> sb_at s k + of_nat (n * bsz c + i)" using a by blast
    then show "a \<noteq> block_at s c k n + of_nat i" by (simp add: block_at_def add.assoc)
  qed
  then show ?case using Suc.IH [OF n] last other by (auto simp: less_Suc_eq)
qed simp

lemma linked_map_upt:
  assumes "\<And>i. Suc i < n \<Longrightarrow> load_pptr m (f i) = f (Suc i)"
  shows "linked m (map f [0..<n])"
  using assms
proof (induction n)
  case (Suc n)
  have "linked m (map f [0..<n] @ [f n])"
    using Suc.IH Suc.prems [of "n - 1"] Suc.prems
    by (cases n) (simp_all add: linked_append linked_Cons)
  then show ?case by simp
qed simp

lemma link_blocks_effect:
  fixes bs mc :: u32
  assumes lay: "layout_ok s" and k: "k < sb_cap s" and c: "1 \<le> c" "c < 40"
    and bs: "unat bs = bsz c" and mc: "unat mc = bnum c"
  shows "linked (link_blocks (sb_at s k) bs mc m) (map (block_at s c k) [0..<bnum c])"
    and "\<And>a. (\<And>j. j < 65536 \<Longrightarrow> a \<noteq> sb_at s k + of_nat j) \<Longrightarrow> link_blocks (sb_at s k) bs mc m a = m a"
proof -
  let ?f = "\<lambda>i m. store_pptr m (block_at s c k i) (block_at s c k (Suc i))"
  have pos: "4 \<le> bnum c" by (rule class_facts(4) [OF c])
  then have "mc \<noteq> 0" using mc by auto
  then have n: "unat (mc - 1) = bnum c - 1" using mc unat_minus_one [of mc] by simp
  have b: "sb_at s k + ucast (of_nat i * bs) = block_at s c k i" if "i < bnum c" for i
    using block_word [OF c _ bs that, of "of_nat i" s k] that bnum_le [OF c] by (simp add: unat_of_nat32)
  have e: "link_blocks (sb_at s k) bs mc m = fold ?f [0..<bnum c - 1] m"
    unfolding link_blocks_def n
  proof (intro fold_cong refl)
    fix i assume "i \<in> set [0..<bnum c - 1]"
    then have "i < bnum c" "Suc i < bnum c" by auto
    then show "(\<lambda>m. store_pptr m (sb_at s k + ucast (of_nat i * bs)) (sb_at s k + ucast ((of_nat i + 1) * bs))) = ?f i"
      using b [of i] b [of "Suc i"] by (simp add: add.commute)
  qed
  note fl = fold_link [OF lay k c, of "bnum c - 1" m]
  show "linked (link_blocks (sb_at s k) bs mc m) (map (block_at s c k) [0..<bnum c])"
    unfolding e by (rule linked_map_upt) (use fl pos in auto)
  show "link_blocks (sb_at s k) bs mc m a = m a" if "\<And>j. j < 65536 \<Longrightarrow> a \<noteq> sb_at s k + of_nat j" for a
    unfolding e using fl pos that by auto
qed

subsection \<open>A new superblock\<close>

lemma block_not_unused:
  assumes rep: "rep g s" and inv: "ainv g" and j: "sb_valid g j" "a_kind g j = Small c" "i < bnum c"
    and k: "k < sb_cap s" "k \<noteq> j" and x: "x < 65536" and l: "l < 8"
  shows "block_at s c j i + of_nat l \<noteq> sb_at s k + of_nat x"
proof
  assume e: "block_at s c j i + of_nat l = sb_at s k + of_nat x"
  note sd = small_desc [OF rep inv j(1,2)]
  note lay = repD(1) [OF rep]
  have y: "i * bsz c + l < 65536" using block_end_le [OF sd(1,2) j(3)] class_facts(1) [OF sd(1,2)] l by linarith
  have "sb_at s j + of_nat (i * bsz c + l) = sb_at s k + of_nat x" using e by (simp add: block_at_def add.assoc)
  then have "65536 * j + (i * bsz c + l) = 65536 * k + x"
    using unat_sb_off [OF lay sd(3), of "i * bsz c + l"] unat_sb_off [OF lay k(1), of x] y x by simp
  moreover have "(65536 * j + (i * bsz c + l)) div 65536 = j" "(65536 * k + x) div 65536 = k" using y x by simp_all
  ultimately show False using k(2) by simp
qed

lemma link_blocks_frame:
  fixes bs mc :: u32
  assumes rep: "rep g s" and inv: "ainv g" and c: "1 \<le> c" "c < 40" and k: "k < sb_cap s"
    and bs: "unat bs = bsz c" "unat mc = bnum c"
    and j: "sb_valid g j" "a_kind g j = Small c'" "i < bnum c'" "k \<noteq> j"
  shows "load_pptr (link_blocks (sb_at s k) bs mc m) (block_at s c' j i) = load_pptr m (block_at s c' j i)"
proof (rule load_pptr_cong)
  fix l :: nat assume l: "l < 8"
  show "link_blocks (sb_at s k) bs mc m (block_at s c' j i + of_nat l) = m (block_at s c' j i + of_nat l)"
    by (rule link_blocks_effect(2) [OF repD(1) [OF rep] k c bs])
      (rule block_not_unused [OF rep inv j(1-3) k j(4) _ l])
qed

lemma malloc_from_newsb_rep:
  assumes hr: "heap_rep g s" and c: "1 \<le> c" "c < 40" and empty: "a_cache g t c = []" and room: "sb_room g s"
  shows "\<exists>s'. malloc_from_newsb t c 0 s = Inr (of_nat (bnum c), s') \<and> quiet g s (a_new_sb t c g) s'"
proof -
  have inv: "ainv g" and rep: "rep g s" using hr by (simp_all add: heap_rep_def)
  obtain k g1 where take: "a_take_sb g = (k, g1)" by (cases "a_take_sb g")
  note tp = a_take_sb_props [OF inv take]
  obtain s1 where s1: "small_sb_alloc SBSIZE s = Inr (sb_at s k, s1)" "rep g1 s1" "same_geom s s1"
    "mem s1 = mem s" "t_caches s1 = t_caches s" "roots s1 = roots s"
    using small_sb_alloc_rep [OF rep ainvD(4) [OF inv] room take] by blast
  note geo = same_geomD [OF s1(3)] and lay1 = repD(1) [OF s1(2)]
  have kc: "k < sb_cap s" "1 \<le> k" using sb_valid_cap [OF s1(2) tp(1)] by (simp_all add: geo)
  let ?sc = "get_sizeclass_by_idx c" and ?d = "desc_at s k" and ?g' = "a_new_sb t c g"
  have bs: "unat (sc_block_size ?sc) = bsz c" "unat (get_block_num ?sc) = bnum c"
    by (simp_all add: bsz_def bnum_def get_block_num_def)
  let ?m = "link_blocks (sb_at s k) (sc_block_size ?sc) (get_block_num ?sc) (mem s)"
  note le = link_blocks_effect [OF repD(1) [OF rep] kc(1) c bs, where m = "mem s"]
  have cr: "cache_rep (mem s, t_caches s t c) []" using repD(9) [OF rep c, of t] empty by (simp add: caches_rep_def)
  have "cache_rep (?m, t_caches s t c) []" using cr by simp
  moreover have "distinct (map (block_at s c k) [0..<bnum c])" "\<forall>x \<in> set (map (block_at s c k) [0..<bnum c]). block_addr x"
    using block_at_inj [OF repD(1) [OF rep] kc(1) c _ kc(1) c] block_at_props(1) [OF repD(1) [OF rep] kc(1) c]
    by (auto simp: distinct_map inj_on_def)
  moreover have len: "bnum c < 2 ^ 31" "0 < bnum c" using bnum_le [OF c] class_facts(4) [OF c] by simp_all
  ultimately obtain b where b: "push_list (hd (map (block_at s c k) [0..<bnum c])) (get_block_num ?sc) (t_caches s t c) = Inr b"
    "cache_rep (?m, b) (map (block_at s c k) [0..<bnum c])"
    using cache_rep_take_all [OF _ _ le(1), of "t_caches s t c" "get_block_num ?sc"] bs(2) by auto
  have hd: "hd (map (block_at s c k) [0..<bnum c]) = sb_at s k" using len by (simp add: hd_map block_at_def)
  let ?f = "\<lambda>v. v\<lparr>d_heap := cross_assign (rgs s1) META_IDX (heap_addr (base_md s) c),
     d_block_size := sc_block_size ?sc, d_maxcount := get_block_num ?sc,
     d_superblock := cross_assign (rgs s1) SB_IDX (sb_at s k)\<rparr>"
  let ?an = "\<lparr>avail = ucast (get_block_num ?sc), count = 0, sb_state = SB_FULL\<rparr>"
  let ?s4 = "set_desc ?d (d_anchor_update (\<lambda>_. ?an)) (set_cache t c b ((set_desc ?d ?f s1)\<lparr>mem := ?m\<rparr>))"
  define s' where "s' = FLUSHFENCE (flush_desc ?d ?s4)"
  have sb: "sb_at s k \<noteq> 0" using block_at_props(1) [OF repD(1) [OF rep] kc(1) c, of 0] len by (simp add: block_at_def block_addr_def)
  have "0 < get_block_num ?sc" using len bs(2) by (simp add: word_less_nat_alt)
  moreover have "ucast (get_block_num ?sc) = (of_nat (bnum c) :: u64)" using ucast_32_64 bs(2) by metis
  ultimately have eq: "malloc_from_newsb t c 0 s = Inr (of_nat (bnum c), s')"
    using b(1) sb desc_lookup_sb [OF lay1, of k] kc s1(1)
    unfolding malloc_from_newsb_def s'_def
    by (simp add: class_uniform(1) [OF c] s1(4-6) hd Let_def geo)
  have r: "rgs s' = rgs s1" by (simp add: s'_def)
  have up: "descs s' = (descs s1)(?d := (?f (descs s1 ?d))\<lparr>d_anchor := ?an\<rparr>)"
    "pm_descs (pm s') = (pm_descs (pm s1))(?d := (?f (descs s1 ?d))\<lparr>d_anchor := ?an\<rparr>)"
    "avail_sb s' = avail_sb s1" "heaps s' = heaps s1" "mem s' = ?m" "wb s' = []" "roots s' = roots s1"
    "t_caches s' t' c' = (if t' = t \<and> c' = c then b else t_caches s1 t' c')" for t' c'
    using repD(3) [OF s1(2)] by (simp_all add: s'_def FLUSHFENCE_def flush_desc_def)
  have ne: "desc_at s j \<noteq> ?d" if "sb_valid g1 j" "j \<noteq> k" for j
    using desc_at_inj [OF lay1, of j k] sb_valid_cap(1) [OF s1(2) that(1)] kc(1) that(2) by (simp add: geo)
  have small: "sb_valid g j" if "sb_valid g1 j" "a_kind g1 j = Small c'" for j c'
    using tp(6) [OF that(1)] that(2) by auto
  have "rep ?g' s'"
  proof (rule rep_block_frame [OF s1(2), where k = k and t = t and c = c])
    show "d_next_free (descs s' (desc_at s1 k)) = d_next_free (descs s1 (desc_at s1 k))"
      "d_next_partial (descs s' (desc_at s1 k)) = d_next_partial (descs s1 (desc_at s1 k))" by (simp_all add: geo up)
    fix j assume j: "j \<noteq> k" and v: "sb_valid g1 j"
    show "descs s' (desc_at s1 j) = descs s1 (desc_at s1 j) \<and> pm_descs (pm s') (desc_at s1 j) = pm_descs (pm s1) (desc_at s1 j)"
      using ne [OF v j] by (simp add: geo up)
    fix c' i assume kd: "a_kind g1 j = Small c'" and i: "i \<in> set (a_free g1 j)"
    have v': "sb_valid g j" by (rule small [OF v kd])
    have kd': "a_kind g j = Small c'" and "i < bnum c'"
      using tp(5) [OF v'] kd i ainv_small(4) [OF inv v', of c'] by auto
    then show "load_pptr (mem s') (block_at s1 c' j i) = load_pptr (mem s1) (block_at s1 c' j i)"
      using link_blocks_frame [OF rep inv c kc(1) bs v' kd', of i] j by (simp add: geo up s1(4))
  next
    fix t' c' j i :: nat assume c': "1 \<le> c'" "c' < 40" "(t', c') \<noteq> (t, c)" and j: "(j, i) \<in> set (a_cache g1 t' c')"
    have cj: "sb_valid g j" "a_kind g j = Small c'" "i < bnum c'"
      using ainv_cache(3) [OF inv c'(1,2), of j i t'] j by (simp_all add: tp(4))
    then have "k \<noteq> j" using tp(5,7) by auto
    then show "load_pptr (mem s') (block_at s1 c' j i) = load_pptr (mem s1) (block_at s1 c' j i)"
      using link_blocks_frame [OF rep inv c kc(1) bs cj] by (simp add: geo up s1(4))
  next
    have "a_free g1 k = []" using tp(5) [of k] tp(6) [of k] tp(7) ainv_not_small [OF inv, of k] tp(1) by (cases "sb_valid g k") auto
    then show "desc_rep ?g' s' k \<and> durable_rep ?g' s' k"
      by (simp add: desc_rep_def durable_rep_def a_new_sb_def take desc_static_cong [OF r] desc_static_def
          geometry_cong [OF r] geo up bs anchor_rep_def)
    show "caches_rep ?g' s' t c"
      using b(2) by (simp add: caches_rep_def a_new_sb_def take geometry_cong [OF r] geo up comp_def)
  qed (auto simp: r up a_new_sb_def take)
  moreover have "dirty_mtx s' = dirty_mtx s1" by (simp add: s'_def FLUSHFENCE_def flush_desc_def)
  then have "same_geom s s'" using s1(3) by (simp add: same_geom_def sb_region_def r)
  moreover have "mem s' a = mem s a" if a: "a \<in> live_bytes g s" for a
  proof -
    have "a \<noteq> sb_at s k + of_nat j" if "j < 65536" for j
      using live_byte_sb [OF hr kc(1) that] a tp(5) [of k] tp(7) by auto
    then show ?thesis unfolding up by (rule le(2))
  qed
  ultimately have "quiet g s ?g' s'"
    using a_new_sb_ok [OF inv c empty] by (simp add: quiet_def heap_rep_def up s1(6))
  with eq show ?thesis by blast
qed

subsection \<open>Filling\<close>

lemma fill_checks:
  assumes c: "1 \<le> c" "c < 40" and m: "0 < m" "m \<le> bnum c"
  shows "(of_nat m :: u64) \<noteq> 0" and "(0 :: u64) < of_nat m"
    and "(of_nat m :: u64) \<le> ucast (sc_cache_block_num (get_sizeclass_by_idx c))"
proof -
  have u: "unat (of_nat m :: u64) = m" using m(2) bnum_le [OF c] by (intro unat_of_nat64) simp
  show ne: "(of_nat m :: u64) \<noteq> 0" using u m(1) by (metis less_numeral_extra(3) unsigned_0)
  then show "(0 :: u64) < of_nat m" by (simp add: word_neq_0_conv)
  have "unat (ucast (sc_cache_block_num (get_sizeclass_by_idx c)) :: u64) = bnum c"
    unfolding ucast_32_64 class_uniform(2) [OF c] bnum_def by (rule unat_of_nat64) (simp add: order.strict_trans [OF unat_lt32])
  then show "(of_nat m :: u64) \<le> ucast (sc_cache_block_num (get_sizeclass_by_idx c))"
    using u m(2) by (simp add: word_le_nat_alt)
qed

lemma fill_cache_rep:
  assumes hr: "heap_rep g s" and c: "1 \<le> c" "c < 40" and empty: "a_cache g t c = []"
    and src: "a_part g c \<noteq> [] \<or> sb_room g s"
  shows "\<exists>g' s'. fill_cache t c s = Inr s' \<and> quiet g s g' s' \<and> a_cache g' t c \<noteq> []"
proof -
  obtain g1 s1 m where s1: "malloc_from_partial PARTIAL_FUEL t c 0 s = Inr (of_nat m, s1)" "quiet g s g1 s1"
    "length (a_cache g1 t c) = m" "a_num g1 = a_num g"
    "m = 0 \<Longrightarrow> a_avail g1 = [] \<longleftrightarrow> a_avail g = [] \<and> a_part g c = []"
    using malloc_from_partial_rep [OF hr c empty part_length [OF hr c]] by blast
  have m: "m \<le> bnum c" using ainv_cache(2) [OF quietD(2) [OF s1(2)] c, of t] s1(3) by simp
  show ?thesis
  proof (cases "m = 0")
    case False
    note fc = fill_checks [OF c _ m]
    have "fill_cache t c s = Inr s1" using False fc s1(1) by (simp add: fill_cache_def)
    then show ?thesis using s1(2,3) False by auto
  next
    case True
    have "sb_room g1 s1"
      using src s1(4) s1(5) [OF True] same_geomD(6) [OF quietD(4) [OF s1(2)]] by (auto simp: sb_room_def)
    moreover have "a_cache g1 t c = []" using s1(3) True by simp
    ultimately obtain s2 where s2: "malloc_from_newsb t c 0 s1 = Inr (of_nat (bnum c), s2)" "quiet g1 s1 (a_new_sb t c g1) s2"
      using malloc_from_newsb_rep [OF quietD(1) [OF s1(2)] c] by blast
    have pos: "0 < bnum c" using class_facts(4) [OF c] by simp
    have "fill_cache t c s = Inr s2" using fill_checks [OF c pos order_refl] s1(1) s2(1) True by (simp add: fill_cache_def)
    moreover have "a_cache (a_new_sb t c g1) t c \<noteq> []" using pos by (simp add: a_new_sb_def split: prod.splits)
    ultimately show ?thesis using quiet_trans [OF s1(2) s2(2)] by blast
  qed
qed

lemma fill_cache_exhausted:
  assumes hr: "heap_rep g s" and c: "1 \<le> c" "c < 40" and "a_part g c = []" and "\<not> sb_room g s"
  shows "fill_cache t c s = Inl (AssertFail ''out of space'')"
proof -
  have rep: "rep g s" using hr by (simp add: heap_rep_def)
  have av: "a_avail g = []" and room: "\<not> a_num g + 16384 \<le> sb_cap s" using assms(5) by (simp_all add: sb_room_def)
  have "malloc_from_partial PARTIAL_FUEL t c 0 s = Inr (0, s)"
    using malloc_from_partial_none [OF rep c assms(4), of "2 ^ 24"] by (simp add: PARTIAL_FUEL_def)
  moreover have "malloc_from_newsb t c 0 s = Inl (AssertFail ''out of space'')"
    using small_sb_alloc_expand_eq [OF rep av] room
    by (simp add: malloc_from_newsb_def class_uniform(1) [OF c] Let_def)
  ultimately show ?thesis by (simp add: fill_cache_def)
qed

end
