(* ===== verification/HeapFlush.thy ===== *)
theory HeapFlush
  imports HeapFill
begin

text \<open>
  Returning cached blocks to their superblocks: one iteration of \<^verbatim>\<open>flush_cache\<close> moves the first
  run of blocks that lie in one superblock, and the loop ends with an empty cache.
\<close>

subsection \<open>The position of a block\<close>

lemma cases_0: "concat (map SIZE_CLASS_case SIZE_CLASSES_0) = zip [1..<40] (map (of_nat \<circ> fst) class_table)"
proof -
  have "[1..<40] = [1, 2, 3, 4, 5, 6, 7, 8, 9, 10, 11, 12, 13, 14, 15, 16, 17, 18, 19, 20, 21, 22, 23, 24,
    25, 26, 27, 28, 29, 30, 31, 32, 33, 34, 35, 36, 37, 38, 39 :: nat]" by (simp add: upt_rec)
  then show ?thesis unfolding SIZE_CLASSES_0_def class_table_def by simp
qed

lemma cases_12: "concat (map SIZE_CLASS_case SIZE_CLASSES_1) = []" "concat (map SIZE_CLASS_case SIZE_CLASSES_2) = []"
  unfolding SIZE_CLASSES_1_def SIZE_CLASSES_2_def by simp_all

lemma switch_entry:
  assumes c: "1 \<le> c" "c < 40"
  shows "map_of (concat (map SIZE_CLASS_case SIZE_CLASSES)) c = Some (sc_block_size (get_sizeclass_by_idx c))"
proof -
  have "map_of (zip [1..<40] (map (of_nat \<circ> fst) class_table)) ([1..<40] ! (c - 1))
      = Some (map (of_nat \<circ> fst) class_table ! (c - 1) :: u32)"
    using c by (intro map_of_zip_nth) (simp_all add: length_class_table)
  moreover have "[1..<40] ! (c - 1) = c" using c by simp
  moreover have "map (of_nat \<circ> fst) class_table ! (c - 1) = sc_block_size (get_sizeclass_by_idx c)"
    using c by (simp add: class_entry [OF c] SC_entry_def length_class_table)
  ultimately show ?thesis by (simp add: SIZE_CLASSES_def cases_0 cases_12)
qed

lemma compute_idx_eq:
  assumes c: "1 \<le> c" "c < 40" and off: "off < 65536" and sb: "unat sb + 65536 < 2 ^ 64"
  shows "compute_idx sb (sb + of_nat off) c = Inr (of_nat (off div bsz c))"
proof -
  let ?bs = "sc_block_size (get_sizeclass_by_idx c)"
  have u: "unat (sb + of_nat off) = unat sb + off" using off sb by (intro unat_offset) simp
  have e: "unat (sb + 65536) = unat sb + 65536" using sb by (subst unat_plus64) simp_all
  have range: "sb \<le> sb + of_nat off" "sb + of_nat off < sb + 65536"
    using u e off by (simp_all add: word_le_nat_alt word_less_nat_alt)
  have "unat (ucast (sb + of_nat off - sb) :: u32) = off"
    using off unat_of_nat64 [of off] by (simp add: unsigned_ucast_eq take_bit_nat_eq_self)
  then have "unat (ucast (sb + of_nat off - sb) div ?bs) = off div bsz c" by (simp add: unat_div bsz_def)
  moreover have "off div bsz c < 2 ^ 32" using off by (intro order.strict_trans1 [OF div_le_dividend]) simp
  ultimately have "ucast (sb + of_nat off - sb) div ?bs = (of_nat (off div bsz c) :: u32)"
    by (simp add: word_unat_eq_iff unat_of_nat32)
  then show ?thesis
    using range by (simp add: compute_idx_def switch_entry [OF c] class_uniform(1) [OF c] Let_def)
qed

lemma compute_idx_block:
  assumes lay: "layout_ok s" and k: "k < sb_cap s" and c: "1 \<le> c" "c < 40" and i: "i < bnum c"
  shows "\<exists>idx. compute_idx (sb_at s k) (block_at s c k i) c = Inr idx \<and> unat idx = i"
proof -
  have off: "i * bsz c < 65536" using block_end_le [OF c i] class_facts(1) [OF c] by linarith
  have "unat (sb_at s k) + 65536 < 2 ^ 64"
    using unat_sb_off [OF lay k, of 65536] unat_sb_at [OF lay, of k] k sb_cap_bound(2) [OF lay] by simp
  then have "compute_idx (sb_at s k) (block_at s c k i) c = Inr (of_nat (i * bsz c div bsz c))"
    unfolding block_at_def by (rule compute_idx_eq [OF c off])
  moreover have "i * bsz c div bsz c = i" using class_facts(1) [OF c] by simp
  moreover have "unat (of_nat i :: u32) = i" using i bnum_le [OF c] by (intro unat_of_nat32) simp
  ultimately show ?thesis by simp
qed

subsection \<open>The first run of a cache\<close>

lemma flush_run_linked:
  fixes num bc sz :: u32
  assumes "linked m (x # ys @ zs)" and "unat num = unat bc + length (ys @ zs)"
    and "\<And>y. y \<in> set ys \<Longrightarrow> sb \<le> y \<and> y < sb + ucast sz"
    and "zs \<noteq> [] \<Longrightarrow> hd zs < sb \<or> sb + ucast sz \<le> hd zs"
  shows "flush_run m sb sz num bc x = (bc + of_nat (length ys), last (x # ys))"
  using assms
proof (induction ys arbitrary: bc x)
  case Nil
  have "load_pptr m x = hd zs" if "zs \<noteq> []" using Nil.prems(1) that by (simp add: linked_Cons)
  moreover have "bc < num \<longleftrightarrow> zs \<noteq> []" using Nil.prems(2) by (simp add: word_less_nat_alt)
  ultimately show ?case
    using Nil.prems(4) by (subst flush_run.simps) (auto simp: Let_def)
next
  case (Cons y ys)
  have lt: "bc < num" using Cons.prems(2) by (simp add: word_less_nat_alt)
  then have "unat bc < unat num" by (simp add: word_less_nat_alt)
  then have "unat bc < 4294967295" using unat_lt32 [of num] by linarith
  then have suc: "unat (bc + 1) = unat bc + 1" by (intro unat_suc32) simp
  have ld: "load_pptr m x = y" "linked m (y # ys @ zs)" using Cons.prems(1) by (simp_all add: linked_Cons)
  have "\<not> (y < sb \<or> sb + ucast sz \<le> y)" using Cons.prems(3) [of y] by auto
  then have "flush_run m sb sz num bc x = flush_run m sb sz num (bc + 1) y"
    using lt ld by (subst flush_run.simps) (simp add: Let_def)
  also have "\<dots> = (bc + 1 + of_nat (length ys), last (y # ys))"
    by (rule Cons.IH) (use Cons.prems suc ld(2) in simp_all)
  finally show ?case by simp
qed

subsection \<open>The anchor after a return\<close>

lemma flush_anchor_rep:
  fixes idx bc :: u32
  assumes mc: "unat (d_maxcount (descs s d)) = n" "n \<le> 8192" and a: "anchor_rep n fs a" "length fs < n"
    and bs: "bs \<noteq> []" "length fs + length bs \<le> n" "hd bs < n" "unat idx = hd bs" "unat bc = length bs"
  shows "\<exists>a'. flush_anchor d sb bsize tail idx bc a s
      = Inr (a', s\<lparr>mem := store_pptr (mem s) tail (sb + ucast (ucast (avail a) * bsize))\<rparr>)
    \<and> anchor_rep n (bs @ fs) a' \<and> (sb_state a' = SB_EMPTY \<longleftrightarrow> length fs + length bs = n)
    \<and> unat (avail a') = hd bs \<and> unat (count a') < n"
proof -
  let ?mc = "d_maxcount (descs s d)"
  have cnt: "unat (count a) = length fs" using a by (auto simp: anchor_rep_def split: if_splits)
  have u: "unat (ucast (count a) + bc) = length fs + length bs"
    using cnt bs(2,5) mc(2) by (simp add: unat_word_ariths)
  have e: "ucast (count a) + bc = ?mc \<longleftrightarrow> length fs + length bs = n"
    using u mc(1) by (simp add: word_unat_eq_iff)
  have lt: "ucast (count a) < ?mc" using cnt a(2) mc(1) by (simp add: word_less_nat_alt)
  have av: "unat (ucast idx :: 31 word) = hd bs"
    using bs(3,4) mc(2) by (simp add: unsigned_ucast_eq take_bit_nat_eq_self)
  have bc31: "unat (ucast bc :: 31 word) = length bs"
    using bs(2,5) mc(2) by (simp add: unsigned_ucast_eq take_bit_nat_eq_self)
  have add31: "unat (count a + ucast bc) = length fs + length bs"
    using cnt bc31 bs(2) mc(2) by (simp add: unat_word_ariths)
  have n0: "?mc \<noteq> 0" using mc(1) bs(3) by auto
  have max1: "unat (ucast (?mc - 1) :: 31 word) = n - 1"
    using mc unat_minus_one [OF n0] by (simp add: unsigned_ucast_eq take_bit_nat_eq_self)
  have ne: "length bs \<noteq> 0" using bs(1) by simp
  show ?thesis
  proof (cases "length fs + length bs = n")
    case True
    let ?a' = "a\<lparr>avail := ucast idx, count := ucast (?mc - 1), sb_state := SB_EMPTY\<rparr>"
    have "flush_anchor d sb bsize tail idx bc a s
        = Inr (?a', s\<lparr>mem := store_pptr (mem s) tail (sb + ucast (ucast (avail a) * bsize))\<rparr>)"
      using e True lt by (auto simp: flush_anchor_def Let_def)
    moreover have "anchor_rep n (bs @ fs) ?a'" using True bs(1) av max1 by (simp add: anchor_rep_def add.commute)
    ultimately show ?thesis using True av max1 ne by (intro exI [of _ ?a']) auto
  next
    case False
    let ?a' = "a\<lparr>avail := ucast idx, count := count a + ucast bc, sb_state := SB_PARTIAL\<rparr>"
    have st: "sb_state a = SB_FULL \<or> sb_state a = SB_PARTIAL"
      using a by (auto simp: anchor_rep_def split: if_splits)
    have "flush_anchor d sb bsize tail idx bc a s
        = Inr (?a', s\<lparr>mem := store_pptr (mem s) tail (sb + ucast (ucast (avail a) * bsize))\<rparr>)"
      using e False lt st by (cases a) (auto simp: flush_anchor_def Let_def)
    moreover have "anchor_rep n (bs @ fs) ?a'" using False bs(1) av add31 by (simp add: anchor_rep_def add.commute)
    ultimately show ?thesis using False av add31 bs(2) by (intro exI [of _ ?a']) auto
  qed
qed

lemma anchor_rep_full: "anchor_rep n fs a \<Longrightarrow> length fs < n \<Longrightarrow> sb_state a = SB_FULL \<longleftrightarrow> fs = []"
  by (auto simp: anchor_rep_def split: if_splits)

lemma anchor_rep_avail: "anchor_rep n fs a \<Longrightarrow> fs \<noteq> [] \<Longrightarrow> unat (avail a) = hd fs"
  by (simp add: anchor_rep_def)

subsection \<open>Writing one cell\<close>

lemma store_cell_other:
  assumes rep: "rep g s" and inv: "ainv g" and k: "sb_valid g k" "a_kind g k = Small c" "i < bnum c"
    and j: "sb_valid g j" "a_kind g j = Small c'" "l < bnum c'" and ne: "(k, i) \<noteq> (j, l)"
  shows "load_pptr (store_pptr m (block_at s c k i) v) (block_at s c' j l) = load_pptr m (block_at s c' j l)"
proof (rule load_store_pptr_other)
  note sk = small_desc [OF rep inv k(1,2)] and sj = small_desc [OF rep inv j(1,2)]
  show "aligned8 (block_at s c k i)" "aligned8 (block_at s c' j l)"
    using block_at_props(1) [OF repD(1) [OF rep] sk(3,1,2) k(3)] block_at_props(1) [OF repD(1) [OF rep] sj(3,1,2) j(3)]
    by (simp_all add: block_addr_def)
  have "k = j \<Longrightarrow> c = c'" using k(2) j(2) by simp
  then show "block_at s c k i \<noteq> block_at s c' j l"
    using block_at_inj [OF repD(1) [OF rep] sk(3,1,2) k(3) sj(3,1,2) j(3)] ne by auto
qed

lemma store_cell_live:
  assumes hr: "heap_rep g s" and k: "sb_valid g k" "a_kind g k = Small c" "i < bnum c"
    and dead: "(k, i) \<notin> alive g" and a: "a \<in> live_bytes g s"
  shows "store_pptr m (block_at s c k i) v a = m a"
proof (rule store_pptr_other)
  fix l :: nat assume l: "l < 8"
  have c: "1 \<le> c" "c < 40" using ainv_small [of g k c] hr k by (simp_all add: heap_rep_def)
  show "a \<noteq> block_at s c k i + of_nat l"
    using cell_not_live [OF hr k dead, of l] a l class_facts(1) [OF c] by auto
qed

subsection \<open>One iteration\<close>

text \<open>The blocks \<open>bs\<close> of superblock \<open>k\<close> are at the front of a cache and go back to it.\<close>

definition a_give :: "nat \<Rightarrow> nat \<Rightarrow> nat \<Rightarrow> nat list \<Rightarrow> (nat \<times> nat) list \<Rightarrow> aheap \<Rightarrow> aheap" where
  "a_give t c k bs rest g = set_a_cache t c rest (g\<lparr>a_free := (a_free g)(k := bs @ a_free g k)\<rparr>)"

lemma front_run:
  assumes inv: "ainv g" and c: "1 \<le> c" "c < 40" and cache: "a_cache g t c = map (Pair k) bs @ rest" and ne: "bs \<noteq> []"
  shows "sb_valid g k" and "a_kind g k = Small c" and "distinct bs" and "set bs \<subseteq> {..<bnum c}"
    and "set bs \<inter> set (a_free g k) = {}" and "length (a_free g k) + length bs \<le> bnum c"
    and "length (a_free g k) < bnum c" and "\<And>i. i \<in> set bs \<Longrightarrow> (k, i) \<notin> set rest"
    and "\<And>i. i \<in> set bs \<Longrightarrow> (k, i) \<notin> alive g" and "last bs \<in> set bs" and "hd bs \<in> set bs"
proof -
  have in_cache: "(k, i) \<in> set (a_cache g t c)" if "i \<in> set bs" for i using that cache by auto
  note cp = ainv_cache(3) [OF inv c in_cache]
  show lb: "last bs \<in> set bs" "hd bs \<in> set bs" using ne by simp_all
  show k: "sb_valid g k" "a_kind g k = Small c" using cp [OF lb(1)] by simp_all
  show sub: "set bs \<subseteq> {..<bnum c}" "set bs \<inter> set (a_free g k) = {}" using cp by auto
  show db: "distinct bs" "\<And>i. i \<in> set bs \<Longrightarrow> (k, i) \<notin> set rest"
    using ainv_cache(1) [OF inv c, of t] cache by (auto simp: distinct_map)
  show "(k, i) \<notin> alive g" if "i \<in> set bs" for i
    using in_cache [OF that] c k by (auto simp: alive_iff cached_def)
  have fs: "distinct (a_free g k)" "set (a_free g k) \<subseteq> {..<bnum c}" using ainv_small [OF inv k] by simp_all
  have "distinct (bs @ a_free g k)" "set (bs @ a_free g k) \<subseteq> {..<bnum c}" using db fs sub by auto
  then have "length (bs @ a_free g k) \<le> bnum c" by (metis card_lessThan card_mono distinct_card finite_lessThan)
  then show "length (a_free g k) + length bs \<le> bnum c" "length (a_free g k) < bnum c"
    using ne by (cases bs; simp)+
qed

lemma give_rep:
  assumes hr: "heap_rep g s" and c: "1 \<le> c" "c < 40" and cache: "a_cache g t c = map (Pair k) bs @ rest" and ne: "bs \<noteq> []"
    and b: "cache_rep (mem s, b) (map (\<lambda>(k, i). block_at s c k i) rest)"
    and an: "anchor_rep (bnum c) (bs @ a_free g k) a'"
    and nxt: "a_free g k \<noteq> [] \<longrightarrow> nxt = block_at s c k (hd (a_free g k))"
    and s': "s' = set_desc (desc_at s k) (d_anchor_update (\<lambda>_. a'))
      ((set_cache t c b s)\<lparr>mem := store_pptr (mem s) (block_at s c k (last bs)) nxt\<rparr>)"
  shows "rep (a_give t c k bs rest g) s'" and "same_geom s s'" and "roots s' = roots s"
    and "\<And>a. a \<in> live_bytes g s \<Longrightarrow> mem s' a = mem s a"
proof -
  have inv: "ainv g" and rep: "rep g s" using hr by (simp_all add: heap_rep_def)
  note fr = front_run [OF inv c cache ne] and lay = repD(1) [OF rep]
  note sd = small_desc [OF rep inv fr(1,2)]
  let ?m = "store_pptr (mem s) (block_at s c k (last bs)) nxt" and ?fs = "a_free g k"
  have fsub: "set ?fs \<subseteq> {..<bnum c}" using ainv_small(4) [OF inv fr(1,2)] .
  have lt: "last bs < bnum c" using fr(4,10) by auto
  note other = store_cell_other [OF rep inv fr(1,2) lt, where m = "mem s" and v = nxt]
  have ldk: "load_pptr ?m (block_at s c k i) = load_pptr (mem s) (block_at s c k i)" if "i < bnum c" "i \<noteq> last bs" for i
    using other [OF fr(1,2) that(1)] that(2) by simp
  have r: "rgs s' = rgs s" by (simp add: s')
  have up: "descs s' = (descs s)(desc_at s k := (descs s (desc_at s k))\<lparr>d_anchor := a'\<rparr>)" "pm s' = pm s" "wb s' = wb s"
    "mem s' = ?m" "avail_sb s' = avail_sb s" "heaps s' = heaps s" "roots s' = roots s"
    "t_caches s' t' c' = (if t' = t \<and> c' = c then b else t_caches s t' c')" for t' c'
    by (simp_all add: s')
  have bl: "i < bnum c \<and> i \<noteq> last bs" if "i \<in> set (butlast bs)" for i
    using that fr(3,4) by (cases bs rule: rev_cases) auto
  have fl: "i < bnum c \<and> i \<noteq> last bs" if "i \<in> set (butlast ?fs)" for i
    using in_set_butlastD [OF that] fsub fr(5,10) by auto
  have lb: "linked (mem s) (map (block_at s c k) bs)"
  proof -
    have "cache_rep (mem s, t_caches s t c) (map (\<lambda>(k, i). block_at s c k i) (a_cache g t c))"
      using repD(9) [OF rep c, of t] by (simp add: caches_rep_def)
    then show ?thesis by (simp add: cache_rep_def cache linked_append comp_def)
  qed
  have "linked ?m (map (block_at s c k) bs)"
    using lb by (rule linked_cong [THEN iffD1, rotated]) (auto simp: map_butlast [symmetric] ldk bl)
  moreover have "linked ?m (map (block_at s c k) ?fs)"
    using sd(10) by (rule linked_cong [THEN iffD1, rotated])
      (auto simp: map_butlast [symmetric] ldk fl)
  moreover have "load_pptr ?m (block_at s c k (last bs)) = hd (map (block_at s c k) ?fs)" if "?fs \<noteq> []"
  proof -
    have hd: "hd ?fs < bnum c" using fsub that by (cases ?fs) auto
    have "near (block_at s c k (hd ?fs)) (block_at s c k (last bs))"
      by (intro block_addr_near block_at_props(1) [OF lay sd(3) c] hd lt)
    then show ?thesis using that by (simp add: nxt load_store_pptr_same hd_map)
  qed
  ultimately have lk: "linked ?m (map (block_at s c k) (bs @ ?fs))"
    using ne by (simp add: linked_append last_map)
  show "rep (a_give t c k bs rest g) s'"
  proof (rule rep_block_frame [OF rep, where k = k and t = t and c = c])
    fix j c' i assume j: "j \<noteq> k" "sb_valid g j" "a_kind g j = Small c'" "i \<in> set (a_free g j)"
    then have "i < bnum c'" using ainv_small(4) [OF inv j(2,3)] by auto
    then show "load_pptr (mem s') (block_at s c' j i) = load_pptr (mem s) (block_at s c' j i)"
      using other [OF j(2,3)] j(1) by (simp add: up)
  next
    fix t' c' j i :: nat assume c': "1 \<le> c'" "c' < 40" "(t', c') \<noteq> (t, c)" and j: "(j, i) \<in> set (a_cache g t' c')"
    have "(k, last bs) \<in> set (a_cache g t c)" using cache ne by simp
    then have "\<not> cached_but t c g (k, last bs)" by (rule cached_but_disjoint [OF inv c])
    moreover have "cached_but t c g (j, i)"
      unfolding cached_but_def by (intro exI [of _ t'] exI [of _ c'] conjI c' j)
    ultimately have "(k, last bs) \<noteq> (j, i)" by metis
    then show "load_pptr (mem s') (block_at s c' j i) = load_pptr (mem s) (block_at s c' j i)"
      using other [of j c' i] ainv_cache(3) [OF inv c'(1,2) j] by (simp add: up)
  next
    show "desc_rep (a_give t c k bs rest g) s' k \<and> durable_rep (a_give t c k bs rest g) s' k"
      using lk an sd(11) repD(8) [OF rep fr(1)] fr(2)
      by (simp add: desc_rep_def durable_rep_def a_give_def desc_static_cong [OF r] geometry_cong [OF r] desc_static_def up)
    show "caches_rep (a_give t c k bs rest g) s' t c"
      unfolding caches_rep_def geometry_cong [OF r]
    proof (simp add: up a_give_def, rule cache_rep_frame [OF b])
      fix x assume "x \<in> set (map (\<lambda>(k, i). block_at s c k i) rest)"
      then obtain j i where x: "x = block_at s c j i" "(j, i) \<in> set rest" by auto
      have "sb_valid g j \<and> a_kind g j = Small c \<and> i < bnum c"
        using ainv_cache(3) [OF inv c, of j i t] cache x(2) by auto
      moreover have "(k, last bs) \<noteq> (j, i)" using fr(8,10) x(2) by auto
      ultimately show "load_pptr ?m x = load_pptr (mem s) x" using other [of j c i] x(1) by simp
    qed
  qed (use desc_at_inj [OF lay] sd(3) sb_valid_cap [OF rep] repD(3) [OF rep] in
      \<open>auto simp: up r a_give_def less_imp_le\<close>)
  have "dirty_mtx s' = dirty_mtx s" by (simp add: s')
  then show "same_geom s s'" "roots s' = roots s" by (simp_all add: up r same_geom_def sb_region_def)
  show "mem s' a = mem s a" if "a \<in> live_bytes g s" for a
    using store_cell_live [OF hr fr(1,2) lt fr(9) [OF fr(10)] that] by (simp add: up)
qed

lemma front_flush_run:
  assumes hr: "heap_rep g s" and c: "1 \<le> c" "c < 40" and cache: "a_cache g t c = map (Pair k) bs @ rest" and ne: "bs \<noteq> []"
    and stop: "\<And>j i rest'. rest = (j, i) # rest' \<Longrightarrow> j \<noteq> k"
  shows "\<exists>bc. flush_run (mem s) (sb_at s k) 65536 (get_cache_block_num (t_caches s t c)) 1 (block_at s c k (hd bs))
      = (bc, block_at s c k (last bs)) \<and> unat bc = length bs"
proof -
  have inv: "ainv g" and rep: "rep g s" using hr by (simp_all add: heap_rep_def)
  note lay = repD(1) [OF rep] and fr = front_run [OF inv c cache ne]
  note kc = sb_valid_cap(1) [OF rep fr(1)]
  let ?f = "\<lambda>(k, i). block_at s c k i"
  obtain i bs' where bs: "bs = i # bs'" using ne by (cases bs) auto
  let ?ys = "map (block_at s c k) bs'" and ?zs = "map ?f rest"
  have cr: "cache_rep (mem s, t_caches s t c) (map (block_at s c k) bs @ ?zs)"
    using repD(9) [OF rep c, of t] by (simp add: caches_rep_def cache comp_def)
  have l: "linked (mem s) (block_at s c k i # ?ys @ ?zs)"
    "unat (get_cache_block_num (t_caches s t c)) = unat (1 :: u32) + length (?ys @ ?zs)"
    using cr by (simp_all add: cache_rep_def bs get_cache_block_num_def)
  have "flush_run (mem s) (sb_at s k) 65536 (get_cache_block_num (t_caches s t c)) 1 (block_at s c k i)
      = (1 + of_nat (length ?ys), last (block_at s c k i # ?ys))"
  proof (rule flush_run_linked [OF l])
    show "sb_at s k \<le> y \<and> y < sb_at s k + ucast (65536 :: u32)" if "y \<in> set ?ys" for y
      using block_at_range [OF lay kc c _ kc] that fr(4) bs by auto
    assume "?zs \<noteq> []"
    then obtain j i rest' where rest: "rest = (j, i) # rest'" by (cases rest) auto
    have "sb_valid g j" "i < bnum c" using ainv_cache(3) [OF inv c, of j i t] cache rest by auto
    then show "hd ?zs < sb_at s k \<or> sb_at s k + ucast (65536 :: u32) \<le> hd ?zs"
      using block_at_range [OF lay sb_valid_cap(1) [OF rep, of j] c, of i k] kc stop [OF rest] rest by auto
  qed
  moreover have "length bs \<le> 8192" using fr(6) bnum_le [OF c] by simp
  then have "unat (of_nat (length bs) :: u32) = length bs" by (intro unat_of_nat32) simp
  ultimately show ?thesis by (simp add: bs last_map)
qed

lemma flush_iter_rep:
  assumes hr: "heap_rep g s" and c: "1 \<le> c" "c < 40" and cne: "a_cache g t c \<noteq> []"
  shows "\<exists>s'. flush_iter t c s = Inr s' \<and> quiet g s (a_flush_run t c g) s'"
proof -
  have inv: "ainv g" and rep: "rep g s" using hr by (simp_all add: heap_rep_def)
  note lay = repD(1) [OF rep]
  define k where "k = fst (hd (a_cache g t c))"
  define bs where "bs = map snd (takeWhile (\<lambda>b. fst b = k) (a_cache g t c))"
  define rest where "rest = dropWhile (\<lambda>b. fst b = k) (a_cache g t c)"
  have cache: "a_cache g t c = map (Pair k) bs @ rest" and ne: "bs \<noteq> []"
    using run_split [OF cne] by (simp_all add: k_def bs_def rest_def)
  note fr = front_run [OF inv c cache ne]
  note sd = small_desc [OF rep inv fr(1,2)]
  let ?f = "\<lambda>(k, i). block_at s c k i" and ?xs = "map (block_at s c k) bs" and ?fs = "a_free g k"
  let ?d = "desc_at s k" and ?b = "t_caches s t c" and ?sc = "get_sizeclass_by_idx c"
  let ?a = "d_anchor (descs s ?d)"
  have cr: "cache_rep (mem s, ?b) (?xs @ map ?f rest)"
    using repD(9) [OF rep c, of t] by (simp add: caches_rep_def cache comp_def)
  have hdb: "hd bs < bnum c" "last bs < bnum c" using fr(4,10,11) by auto
  have head: "peek_block ?b = block_at s c k (hd bs)"
    using cr ne by (simp add: cache_rep_def peek_block_def hd_append hd_map)
  have dl: "desc_lookup s (block_at s c k (hd bs)) = ?d" by (rule block_at_props(2) [OF lay sd(3) c hdb(1)])
  have "j \<noteq> k" if "rest = (j, l) # rest'" for j l rest'
    using hd_dropWhile [of "\<lambda>b. fst b = k" "a_cache g t c"] that by (auto simp: rest_def [symmetric])
  then obtain bc where run: "flush_run (mem s) (sb_at s k) 65536 (get_cache_block_num ?b) 1 (block_at s c k (hd bs))
      = (bc, block_at s c k (last bs))" and bc: "unat bc = length bs"
    using front_flush_run [OF hr c cache ne] by blast
  obtain b where b: "pop_list (load_pptr (mem s) (block_at s c k (last bs))) bc ?b = Inr b"
    "cache_rep (mem s, b) (map ?f rest)"
    using cache_rep_pop_list [OF cr, of bc] ne bc by (auto simp: last_map)
  obtain idx where idx: "compute_idx (sb_at s k) (block_at s c k (hd bs)) c = Inr idx" "unat idx = hd bs"
    using compute_idx_block [OF lay sd(3) c hdb(1)] by blast
  let ?s1 = "set_cache t c b s"
  have mc: "unat (d_maxcount (descs ?s1 ?d)) = bnum c" using sd(8) by simp
  obtain a' where a': "flush_anchor ?d (sb_at s k) (sc_block_size ?sc) (block_at s c k (last bs)) idx bc ?a ?s1
      = Inr (a', ?s1\<lparr>mem := store_pptr (mem ?s1) (block_at s c k (last bs))
          (sb_at s k + ucast (ucast (avail ?a) * sc_block_size ?sc))\<rparr>)"
    "anchor_rep (bnum c) (bs @ ?fs) a'" "sb_state a' = SB_EMPTY \<longleftrightarrow> length ?fs + length bs = bnum c"
    "unat (avail a') = hd bs" "unat (count a') < bnum c"
    using flush_anchor_rep [OF mc bnum_le [OF c] sd(9) fr(7) ne fr(6) hdb(1) idx(2) bc] by blast
  define nxt where "nxt = sb_at s k + ucast (ucast (avail ?a) * sc_block_size ?sc)"
  have nxt: "?fs \<noteq> [] \<longrightarrow> nxt = block_at s c k (hd ?fs)"
  proof
    assume fs: "?fs \<noteq> []"
    then have "hd ?fs < bnum c" using ainv_small(4) [OF inv fr(1,2)] by (cases ?fs) auto
    then show "nxt = block_at s c k (hd ?fs)" unfolding nxt_def
      using anchor_rep_avail [OF sd(9) fs] by (intro block_word [OF c]) (simp_all add: bsz_def)
  qed
  define s2 where "s2 = set_desc ?d (d_anchor_update (\<lambda>_. a')) (?s1\<lparr>mem := store_pptr (mem s) (block_at s c k (last bs)) nxt\<rparr>)"
  note gr = give_rep [OF hr c cache ne b(2) a'(2) nxt s2_def]
  let ?g1 = "a_give t c k bs rest g"
  note geo = same_geomD [OF gr(2)]
  have loop: "cas_loop CAS_FUEL (flush_anchor ?d (sb_at s k) (sc_block_size ?sc) (block_at s c k (last bs)) idx bc)
      (anchor_cas ?d) ?a ?s1 = Inr (?a, a', s2)"
    by (rule cas_loop_CAS_FUEL, rule a'(1)) (simp add: anchor_cas_def s2_def nxt_def)
  have full: "sb_state ?a = SB_FULL \<longleftrightarrow> ?fs = []" by (rule anchor_rep_full [OF sd(9) fr(7)])
  have av: "ucast (avail ?a) < get_block_num ?sc \<or> sb_state ?a = SB_FULL"
    using full anchor_rep_avail [OF sd(9)] ainv_small(4) [OF inv fr(1,2)]
    by (cases ?fs) (auto simp: word_less_nat_alt get_block_num_def bnum_def)
  have eq: "flush_iter t c s = (if ?fs = [] then if length bs = bnum c then small_sb_retire (sb_at s k) SBSIZE s2
      else heap_push_partial ?d s2 else Inr s2)"
    using run b(1) idx(1) loop av a'(4,5) hdb(1) full a'(3)
    by (simp add: flush_iter_def head dl sd(5) class_uniform(1) [OF c] Let_def word_less_nat_alt
        get_block_num_def bnum_def)
  have fresh: "k \<notin> set (a_part g c')" if "1 \<le> c'" "c' < 40" "?fs = []" for c'
    using ainv_part(2) [OF inv that(1,2), of k] that(3) by simp
  have un: "k \<notin> set (a_avail g)" using ainv_avail(2) [OF inv, of k] fr(2) by simp
  have gv: "sb_valid ?g1 = sb_valid g" "a_part ?g1 = a_part g" "a_avail ?g1 = a_avail g" "a_kind ?g1 = a_kind g"
    by (simp_all add: a_give_def fun_eq_iff sb_valid_def)
  have afr: "a_flush_run t c g = (if ?fs = [] then if length bs = bnum c then a_retire k ?g1
      else ?g1\<lparr>a_part := (a_part ?g1)(c := k # a_part ?g1 c)\<rparr> else ?g1)"
    by (simp add: a_flush_run_def Let_def k_def [symmetric] bs_def rest_def a_give_def)
  have "\<exists>s'. flush_iter t c s = Inr s' \<and> rep (a_flush_run t c g) s' \<and> same_rest s2 s'"
  proof (cases "?fs = []")
    case True
    show ?thesis
      using retire_rep [OF gr(1), of k] push_partial_rep [OF gr(1) c, of k] fr(1,2) un fresh True
      by (simp add: eq afr gv geo)
  qed (use gr(1) eq afr in \<open>simp add: same_rest_def\<close>)
  then obtain s' where s': "flush_iter t c s = Inr s'" "rep (a_flush_run t c g) s'" "same_rest s2 s'" by blast
  have "quiet g s (a_flush_run t c g) s'"
    using a_flush_run_ok [OF inv c cne] s'(2,3) gr(3,4) same_geom_trans [OF gr(2) same_rest_geom [OF s'(3)]]
    by (simp add: quiet_def heap_rep_def same_rest_def)
  with s'(1) show ?thesis by blast
qed

subsection \<open>The whole cache\<close>

lemma cache_count:
  assumes "heap_rep g s" and "1 \<le> c" and "c < 40"
  shows "unat (get_cache_block_num (t_caches s t c)) = length (a_cache g t c)"
    and "0 < get_cache_block_num (t_caches s t c) \<longleftrightarrow> a_cache g t c \<noteq> []"
    and "get_cache_block_num (t_caches s t c) = 0 \<longleftrightarrow> a_cache g t c = []"
proof -
  show u: "unat (get_cache_block_num (t_caches s t c)) = length (a_cache g t c)"
    using repD(9) [of g s c t] assms by (simp add: heap_rep_def caches_rep_def cache_rep_def get_cache_block_num_def)
  show "0 < get_cache_block_num (t_caches s t c) \<longleftrightarrow> a_cache g t c \<noteq> []"
    unfolding word_less_nat_alt u by simp
  then show "get_cache_block_num (t_caches s t c) = 0 \<longleftrightarrow> a_cache g t c = []"
    by (metis word_neq_0_conv)
qed

text \<open>Each iteration shortens the cache, so one more unit of fuel than it has blocks is enough.\<close>

lemma flush_loop_rep:
  assumes "heap_rep g s" and c: "1 \<le> c" "c < 40" and "length (a_cache g t c) < n"
  shows "\<exists>g' s'. flush_loop n t c s = Inr s' \<and> quiet g s g' s' \<and> a_cache g' t c = []
    \<and> (\<forall>t' c'. (t', c') \<noteq> (t, c) \<longrightarrow> a_cache g' t' c' = a_cache g t' c')"
  using assms(1,4)
proof (induction n arbitrary: g s)
  case (Suc n)
  note hr = Suc.prems(1)
  have inv: "ainv g" using hr by (simp add: heap_rep_def)
  show ?case
  proof (cases "a_cache g t c = []")
    case True
    then show ?thesis
      using cache_count(2) [OF hr c, of t] quiet_refl [OF hr] by (intro exI [of _ g] exI [of _ s]) simp
  next
    case False
    note ok = a_flush_run_ok [OF inv c False]
    obtain s1 where s1: "flush_iter t c s = Inr s1" "quiet g s (a_flush_run t c g) s1"
      using flush_iter_rep [OF hr c False] by blast
    obtain g' s' where s': "flush_loop n t c s1 = Inr s'" "quiet (a_flush_run t c g) s1 g' s'" "a_cache g' t c = []"
      "\<forall>t' c'. (t', c') \<noteq> (t, c) \<longrightarrow> a_cache g' t' c' = a_cache (a_flush_run t c g) t' c'"
      using Suc.IH [OF quietD(1) [OF s1(2)]] ok(3) Suc.prems(2) by fastforce
    have "flush_loop (Suc n) t c s = Inr s'"
      using cache_count(2) [OF hr c, of t] False s1(1) s'(1) by simp
    moreover have "a_cache g' t' c' = a_cache g t' c'" if "(t', c') \<noteq> (t, c)" for t' c'
      using s'(4) ok(4) [OF that] that by simp
    ultimately show ?thesis using quiet_trans [OF s1(2) s'(2)] s'(3) by blast
  qed
qed simp

lemma flush_cache_rep:
  assumes "heap_rep g s" and "1 \<le> c" "c < 40"
  shows "\<exists>g' s'. flush_cache t c s = Inr s' \<and> quiet g s g' s' \<and> a_cache g' t c = []
    \<and> (\<forall>t' c'. (t', c') \<noteq> (t, c) \<longrightarrow> a_cache g' t' c' = a_cache g t' c')"
  unfolding flush_cache_def cache_count(1) [OF assms, of t] by (rule flush_loop_rep [OF assms]) simp

lemma flush_classes_rep:
  assumes "heap_rep g s" and "\<forall>c \<in> set cs. 1 \<le> c \<and> c < 40"
  shows "\<exists>g' s'. flush_classes cs t s = Inr s' \<and> quiet g s g' s' \<and> (\<forall>c \<in> set cs. a_cache g' t c = [])
    \<and> (\<forall>t' c'. t' \<noteq> t \<or> c' \<notin> set cs \<longrightarrow> a_cache g' t' c' = a_cache g t' c')"
  using assms
proof (induction cs arbitrary: g s)
  case Nil
  then show ?case using quiet_refl by auto
next
  case (Cons c cs)
  then have c: "1 \<le> c" "c < 40" by auto
  obtain g1 s1 where s1: "flush_cache t c s = Inr s1" "quiet g s g1 s1" "a_cache g1 t c = []"
    "\<And>t' c'. (t', c') \<noteq> (t, c) \<Longrightarrow> a_cache g1 t' c' = a_cache g t' c'"
    using flush_cache_rep [OF Cons.prems(1) c, of t] by blast
  obtain g' s' where s': "flush_classes cs t s1 = Inr s'" "quiet g1 s1 g' s'" "\<And>c. c \<in> set cs \<Longrightarrow> a_cache g' t c = []"
    "\<And>t' c'. t' \<noteq> t \<or> c' \<notin> set cs \<Longrightarrow> a_cache g' t' c' = a_cache g1 t' c'"
    using Cons.IH [OF quietD(1) [OF s1(2)]] Cons.prems(2) by auto
  have "a_cache g' t c = []" using s'(3,4) s1(3) by (cases "c \<in> set cs") auto
  moreover have "a_cache g' t' c' = a_cache g t' c'" if "t' \<noteq> t \<or> c' \<notin> set (c # cs)" for t' c'
    using s'(4) [of t' c'] s1(4) [of t' c'] that by auto
  ultimately show ?case
    using s1(1) s'(1,3) quiet_trans [OF s1(2) s'(2)] by (intro exI [of _ g'] exI [of _ s']) auto
qed

end
