(* ===== verification/HeapLive.thy ===== *)
theory HeapLive
  imports HeapFlush
begin

text \<open>
  The live blocks as address ranges: each is an interval of the superblock region, different
  blocks are disjoint, and the steps that make one block live or dead change the set of
  ranges by exactly that one. Writes of the program to its own blocks keep the heap
  well-formed.
\<close>

subsection \<open>Ranges\<close>

definition lo :: "aheap \<Rightarrow> ralloc_state \<Rightarrow> nat \<times> nat \<Rightarrow> nat" where
  "lo g s b = unat (lookup (rgs s) SB_IDX) + 65536 * fst b + snd b * block_size_of g (fst b)"

text \<open>The number of superblocks a superblock in use extends over.\<close>

definition sb_span :: "aheap \<Rightarrow> nat \<Rightarrow> nat" where
  "sb_span g k = (case a_kind g k of Large m \<Rightarrow> m | _ \<Rightarrow> 1)"

lemma alive_bounds:
  assumes hr: "heap_rep g s" and b: "(k, i) \<in> alive g"
  shows "i * block_size_of g k + block_size_of g k \<le> 65536 * sb_span g k" and "k + sb_span g k \<le> sb_cap s"
    and "0 < block_size_of g k" and "block_size_of g k mod 8 = 0"
    and "\<And>j. k < j \<Longrightarrow> j < k + sb_span g k \<Longrightarrow> a_kind g j = Tail"
proof -
  have inv: "ainv g" and rep: "rep g s" using hr by (simp_all add: heap_rep_def)
  have kv: "sb_valid g k" using b by (simp add: alive_iff)
  have cap: "a_num g \<le> sb_cap s" using repD(2) [OF rep] sb_num_le_cap [OF repD(1) [OF rep]] by simp
  consider (small) c where "a_kind g k = Small c" "i < bnum c" | (large) m where "a_kind g k = Large m" "i = 0"
    using b by (auto simp: alive_iff)
  then have "i * block_size_of g k + block_size_of g k \<le> 65536 * sb_span g k \<and> k + sb_span g k \<le> sb_cap s
    \<and> 0 < block_size_of g k \<and> block_size_of g k mod 8 = 0 \<and> (\<forall>j. k < j \<and> j < k + sb_span g k \<longrightarrow> a_kind g j = Tail)"
  proof cases
    case small
    have c: "1 \<le> c" "c < 40" using ainv_small [OF inv kv small(1)] by simp_all
    show ?thesis
      using small block_end_le [OF c small(2)] class_facts(1,3) [OF c] sb_valid_cap(1) [OF rep kv]
      by (auto simp: block_size_of_def sb_span_def)
  next
    case large
    then show ?thesis
      using ainv_large [OF inv kv large(1)] cap by (simp add: block_size_of_def sb_span_def)
  qed
  then show "i * block_size_of g k + block_size_of g k \<le> 65536 * sb_span g k" "k + sb_span g k \<le> sb_cap s"
    "0 < block_size_of g k" "block_size_of g k mod 8 = 0"
    "\<And>j. k < j \<Longrightarrow> j < k + sb_span g k \<Longrightarrow> a_kind g j = Tail" by auto
qed

lemma unat_block_addr_of:
  assumes hr: "heap_rep g s" and b: "b \<in> alive g" and j: "j \<le> block_size_of g (fst b)"
  shows "unat (block_addr_of g s b + of_nat j) = lo g s b + j" and "lo g s b + j < 2 ^ 47"
proof -
  have lay: "layout_ok s" using hr by (simp add: heap_rep_def rep_def)
  obtain k i where bk: "b = (k, i)" by (cases b)
  note bd = alive_bounds [OF hr b [unfolded bk]]
  let ?x = "i * block_size_of g k + j" and ?B = "unat (lookup (rgs s) SB_IDX)"
  have "65536 * (k + sb_span g k) \<le> 65536 * sb_cap s" using bd(2) by simp
  moreover have "?x \<le> 65536 * sb_span g k" using bd(1) j by (simp add: bk)
  ultimately have le: "?B + 65536 * k + ?x < 140737488355328" using sb_cap_bound(2) [OF lay] by simp
  have u: "unat (sb_at s k) = ?B + 65536 * k" using bd(2) by (intro unat_sb_at [OF lay]) simp
  have "unat (sb_at s k + of_nat ?x) = unat (sb_at s k) + ?x" by (rule unat_offset) (use le u in simp)
  then show "unat (block_addr_of g s b + of_nat j) = lo g s b + j"
    by (simp add: block_addr_of_def lo_def bk u add.assoc)
  show "lo g s b + j < 2 ^ 47" using le by (simp add: lo_def bk)
qed

lemma bytes_iff:
  assumes hr: "heap_rep g s" and b: "b \<in> alive g"
  shows "a \<in> bytes (block_addr_of g s b, block_size_of g (fst b)) \<longleftrightarrow>
    lo g s b \<le> unat a \<and> unat a < lo g s b + block_size_of g (fst b)"
proof
  assume "a \<in> bytes (block_addr_of g s b, block_size_of g (fst b))"
  then show "lo g s b \<le> unat a \<and> unat a < lo g s b + block_size_of g (fst b)"
    using unat_block_addr_of(1) [OF assms] by (auto simp: bytes_def)
next
  assume a: "lo g s b \<le> unat a \<and> unat a < lo g s b + block_size_of g (fst b)"
  define j where "j = unat a - lo g s b"
  have j: "j < block_size_of g (fst b)" "lo g s b + j = unat a" using a by (auto simp: j_def)
  then have "unat (block_addr_of g s b + of_nat j) = unat a" using unat_block_addr_of(1) [OF assms, of j] by simp
  then have "a = block_addr_of g s b + of_nat j" by (metis word_unat_eq_iff)
  then show "a \<in> bytes (block_addr_of g s b, block_size_of g (fst b))" using j by (auto simp: bytes_def)
qed

lemma sb_order:
  assumes hr: "heap_rep g s" and b: "(k, i) \<in> alive g" "(k', i') \<in> alive g" and lt: "k < k'"
  shows "k + sb_span g k \<le> k'"
  using alive_bounds(5) [OF hr b(1), of k'] b(2) lt by (force simp: alive_iff)

lemma lo_apart:
  assumes hr: "heap_rep g s" and b: "(k, i) \<in> alive g" "(k', i') \<in> alive g" "(k, i) \<noteq> (k', i')" and le: "k \<le> k'"
  shows "lo g s (k, i) + block_size_of g k \<le> lo g s (k', i') \<or> lo g s (k', i') + block_size_of g k' \<le> lo g s (k, i)"
proof (cases "k = k'")
  case True
  let ?n = "block_size_of g k"
  have "i < i' \<or> i' < i" using b(3) True by auto
  then have "Suc i \<le> i' \<or> Suc i' \<le> i" by linarith
  then have "Suc i * ?n \<le> i' * ?n \<or> Suc i' * ?n \<le> i * ?n" using mult_le_mono1 by blast
  then show ?thesis using True by (auto simp: lo_def)
next
  case False
  then have "65536 * (k + sb_span g k) \<le> 65536 * k'" using sb_order [OF hr b(1,2)] le by simp
  moreover have "i * block_size_of g k + block_size_of g k \<le> 65536 * sb_span g k" by (rule alive_bounds(1) [OF hr b(1)])
  ultimately show ?thesis by (simp add: lo_def)
qed

lemma blocks_disjoint:
  assumes hr: "heap_rep g s" and b: "b \<in> alive g" "b' \<in> alive g" "b \<noteq> b'"
  shows "bytes (block_addr_of g s b, block_size_of g (fst b)) \<inter> bytes (block_addr_of g s b', block_size_of g (fst b')) = {}"
proof -
  obtain k i k' i' where bk: "b = (k, i)" "b' = (k', i')" by (cases b, cases b')
  have "lo g s b + block_size_of g (fst b) \<le> lo g s b' \<or> lo g s b' + block_size_of g (fst b') \<le> lo g s b"
    using lo_apart [OF hr, of k i k' i'] lo_apart [OF hr, of k' i' k i] b bk by (cases "k \<le> k'") auto
  then show ?thesis using bytes_iff [OF hr b(1)] bytes_iff [OF hr b(2)] by fastforce
qed

lemma bytes_self:
  assumes "heap_rep g s" and "b \<in> alive g"
  shows "block_addr_of g s b \<in> bytes (block_addr_of g s b, block_size_of g (fst b))"
  using alive_bounds(3) [of g s "fst b" "snd b"] assms by (auto simp: bytes_def intro: exI [of _ 0])

text \<open>The blocks of the program are disjoint, so their addresses name them.\<close>

lemma live_disjoint:
  assumes hr: "heap_rep g s" and "x \<in> live g s" and "y \<in> live g s" and "x \<noteq> y"
  shows "bytes x \<inter> bytes y = {}"
proof -
  obtain b b' where "b \<in> alive g" "x = (block_addr_of g s b, block_size_of g (fst b))"
    "b' \<in> alive g" "y = (block_addr_of g s b', block_size_of g (fst b'))"
    using assms(2,3) by (auto simp: live_def)
  then show ?thesis using blocks_disjoint [OF hr, of b b'] assms(4) by auto
qed

lemma live_address_inj:
  assumes hr: "heap_rep g s" and "(p, n) \<in> live g s" and "(p, n') \<in> live g s"
  shows "n' = n"
proof (rule ccontr)
  assume "n' \<noteq> n"
  then have d: "bytes (p, n) \<inter> bytes (p, n') = {}" using live_disjoint [OF hr assms(2,3)] by auto
  obtain b b' where b: "b \<in> alive g" "(p, n) = (block_addr_of g s b, block_size_of g (fst b))"
    and b': "b' \<in> alive g" "(p, n') = (block_addr_of g s b', block_size_of g (fst b'))"
    using assms(2,3) by (auto simp: live_def)
  have "p \<in> bytes (p, n)" "p \<in> bytes (p, n')" using bytes_self [OF hr b(1)] bytes_self [OF hr b'(1)] b(2) b'(2) by simp_all
  then show False using d by auto
qed

lemma live_props:
  assumes hr: "heap_rep g s" and "(p, n) \<in> live g s"
  shows "0 < n" and "unat p mod 8 = 0" and "unat p + n < 2 ^ 47" and "p \<noteq> 0" and "in_range (rgs s) SB_IDX p"
    and "bytes (p, n) = {a. unat p \<le> unat a \<and> unat a < unat p + n}"
proof -
  have rep: "rep g s" using hr by (simp add: heap_rep_def)
  note lay = repD(1) [OF rep]
  obtain k i where b: "(k, i) \<in> alive g" "p = block_addr_of g s (k, i)" "n = block_size_of g k"
    using assms(2) by (auto simp: live_def)
  note bd = alive_bounds [OF hr b(1)]
  have u: "unat p = lo g s (k, i)" using unat_block_addr_of(1) [OF hr b(1), of 0] b(2) by simp
  show "0 < n" using bd(3) b(3) by simp
  have "8 dvd unat (lookup (rgs s) SB_IDX)"
    by (rule dvd_trans [of 8 65536]) (use layout_okD(2) [OF lay] in \<open>simp_all add: mod_0_imp_dvd\<close>)
  moreover have "8 dvd i * block_size_of g k" using bd(4) by (simp add: mod_0_imp_dvd)
  moreover have "8 dvd 65536 * k" by (rule dvd_mult2) simp
  ultimately show "unat p mod 8 = 0" unfolding u lo_def fst_conv snd_conv by (intro dvd_imp_mod_0 dvd_add)
  show "unat p + n < 2 ^ 47" using unat_block_addr_of(2) [OF hr b(1), of n] u b(3) by simp
  have lo: "unat (lookup (rgs s) SB_IDX) \<le> unat p" using u by (simp add: lo_def)
  have "4096 \<le> unat p" using lo layout_okD(3) [OF lay] by linarith
  then show "p \<noteq> 0" by auto
  have kv: "sb_valid g k" using b(1) by (simp add: alive_iff)
  have inv: "ainv g" using hr by (simp add: heap_rep_def)
  have "k + sb_span g k \<le> a_num g"
    using kv ainv_large(3) [OF inv kv] by (cases "a_kind g k") (simp_all add: sb_span_def sb_valid_def)
  then have "65536 * (k + sb_span g k) \<le> 65536 * sb_num s" using repD(2) [OF rep] by simp
  moreover have "i * block_size_of g k < 65536 * sb_span g k" using bd(1,3) by linarith
  ultimately have "unat p < unat (curr_addr (sb_region s))"
    unfolding u lo_def curr_addr_num(2) [OF lay] by simp
  with lo show "in_range (rgs s) SB_IDX p"
    by (simp add: in_range_def lookup_def sb_region_def word_le_nat_alt word_less_nat_alt)
  show "bytes (p, n) = {a. unat p \<le> unat a \<and> unat a < unat p + n}"
    using bytes_iff [OF hr b(1)] u b(2,3) by auto
qed

lemma live_below:
  assumes hr: "heap_rep g s" and "(p, n) \<in> live g s"
  shows "unat (lookup (rgs s) SB_IDX) \<le> unat p" and "unat p + n \<le> unat (curr_addr (sb_region s))"
proof -
  have inv: "ainv g" and rep: "rep g s" using hr by (simp_all add: heap_rep_def)
  obtain k i where b: "(k, i) \<in> alive g" "p = block_addr_of g s (k, i)" "n = block_size_of g k"
    using assms(2) by (auto simp: live_def)
  have u: "unat p = lo g s (k, i)" using unat_block_addr_of(1) [OF hr b(1), of 0] b(2) by simp
  show "unat (lookup (rgs s) SB_IDX) \<le> unat p" using u by (simp add: lo_def)
  have kv: "sb_valid g k" using b(1) by (simp add: alive_iff)
  have "k + sb_span g k \<le> a_num g"
    using kv ainv_large(3) [OF inv kv] by (cases "a_kind g k") (simp_all add: sb_span_def sb_valid_def)
  then have "65536 * (k + sb_span g k) \<le> 65536 * sb_num s" using repD(2) [OF rep] by simp
  then show "unat p + n \<le> unat (curr_addr (sb_region s))"
    using alive_bounds(1) [OF hr b(1)] unfolding u lo_def curr_addr_num(2) [OF repD(1) [OF rep]] b(3) by simp
qed

subsection \<open>One block more, one block less\<close>

lemma live_insert:
  assumes "alive g' = insert b (alive g)" and "\<And>k i. (k, i) \<in> alive g \<Longrightarrow> a_kind g' k = a_kind g k"
    and geo: "same_geom s s'"
  shows "live g' s' = insert (block_addr_of g' s b, block_size_of g' (fst b)) (live g s)"
proof -
  have "(block_addr_of g' s b, block_size_of g' (fst b)) = (block_addr_of g s b, block_size_of g (fst b))"
    if "b \<in> alive g" for b
    using assms(2) [of "fst b" "snd b"] that by (simp add: block_addr_of_def block_size_of_def)
  then have "(\<lambda>b. (block_addr_of g' s b, block_size_of g' (fst b))) ` alive g = live g s"
    unfolding live_def by (intro image_cong) simp_all
  moreover have "live g' s' = (\<lambda>b. (block_addr_of g' s b, block_size_of g' (fst b))) ` alive g'"
    by (simp add: live_def block_addr_of_def same_geomD [OF geo])
  ultimately show ?thesis by (simp add: assms(1))
qed

lemma live_remove:
  assumes hr: "heap_rep g s" and "alive g' = alive g - {b}" and "b \<in> alive g"
    and "\<And>k i. (k, i) \<in> alive g' \<Longrightarrow> a_kind g' k = a_kind g k" and geo: "same_geom s s'"
  shows "live g' s' = live g s - {(block_addr_of g s b, block_size_of g (fst b))}"
proof -
  let ?f = "\<lambda>b. (block_addr_of g s b, block_size_of g (fst b))"
  have "?f b' \<noteq> ?f b" if "b' \<in> alive g" "b' \<noteq> b" for b'
    using blocks_disjoint [OF hr that(1) assms(3) that(2)] bytes_self [OF hr that(1)] by auto
  then have "?f ` (alive g - {b}) = live g s - {?f b}" using assms(3) by (auto simp: live_def)
  moreover have "live g' s' = ?f ` alive g'"
    unfolding live_def
  proof (rule image_cong [OF refl])
    fix b' assume "b' \<in> alive g'"
    then show "(block_addr_of g' s' b', block_size_of g' (fst b')) = ?f b'"
      using assms(4) [of "fst b'" "snd b'"] by (simp add: block_addr_of_def block_size_of_def same_geomD [OF geo])
  qed
  ultimately show ?thesis by (simp add: assms(2))
qed

subsection \<open>Writes of the program\<close>

text \<open>Bytes of live blocks and bytes behind the frontier are free for any use.\<close>

lemma outside_write:
  assumes hr: "heap_rep g s"
    and m: "\<And>a. a \<notin> live_bytes g s \<Longrightarrow> unat a < unat (curr_addr (sb_region s)) \<Longrightarrow> m a = mem s a"
  shows "heap_rep g (s\<lparr>mem := m\<rparr>)"
proof -
  have inv: "ainv g" and rep: "rep g s" using hr by (simp_all add: heap_rep_def)
  have ld: "load_pptr m (block_at s c k i) = load_pptr (mem s) (block_at s c k i)"
    if k: "sb_valid g k" "a_kind g k = Small c" "i < bnum c" and dead: "(k, i) \<notin> alive g" for k c i
  proof (rule load_pptr_cong)
    fix j :: nat assume "j < 8"
    then have j: "j < bsz c" using class_facts(1) [OF ainv_small(1,2) [OF inv k(1,2)]] by simp
    note c = ainv_small(1,2) [OF inv k(1,2)] and kc = sb_valid_cap [OF rep k(1)]
    have le: "i * bsz c + j < 65536" using block_end_le [OF c k(3)] j by simp
    have "k < sb_num s" using k(1) repD(2) [OF rep] by (simp add: sb_valid_def)
    then have "65536 * k + 65536 \<le> 65536 * sb_num s" by simp
    then have "unat (block_at s c k i + of_nat j) < unat (curr_addr (sb_region s))"
      using unat_sb_off [OF repD(1) [OF rep] kc(1) less_imp_le [OF le]] le curr_addr_num(2) [OF repD(1) [OF rep]]
      by (simp add: block_at_def add.assoc)
    then show "m (block_at s c k i + of_nat j) = mem s (block_at s c k i + of_nat j)"
      using m cell_not_live [OF hr k dead] j by simp
  qed
  have "rep g (s\<lparr>mem := m\<rparr>)"
  proof (rule rep_block_frame [OF rep, where k = 0 and t = 0 and c = 0])
    fix j c' i assume j: "sb_valid g j" "a_kind g j = Small c'" "i \<in> set (a_free g j)"
    then show "load_pptr (mem (s\<lparr>mem := m\<rparr>)) (block_at s c' j i) = load_pptr (mem s) (block_at s c' j i)"
      using ld [OF j(1,2), of i] ainv_small(4) [OF inv j(1,2)] by (auto simp: alive_iff)
  next
    fix t' c' j i :: nat assume c': "1 \<le> c'" "c' < 40" and j: "(j, i) \<in> set (a_cache g t' c')"
    then show "load_pptr (mem (s\<lparr>mem := m\<rparr>)) (block_at s c' j i) = load_pptr (mem s) (block_at s c' j i)"
      using ld [of j c' i] ainv_cache(3) [OF inv c' j] by (auto simp: alive_iff cached_def)
  qed (use repD(3) [OF rep] in \<open>simp_all add: sb_valid_def\<close>)
  then show ?thesis using inv by (simp add: heap_rep_def)
qed

lemma user_write:
  assumes "heap_rep g s" and "\<And>a. a \<notin> live_bytes g s \<Longrightarrow> m a = mem s a"
  shows "heap_rep g (s\<lparr>mem := m\<rparr>)"
  using assms by (intro outside_write)

end
