(* ===== verification/HeapOps.thy ===== *)
theory HeapOps
  imports HeapLive
begin

text \<open>
  \<^verbatim>\<open>do_malloc\<close> and \<^verbatim>\<open>do_free\<close> on represented states: which block becomes live or dead, when an
  allocation fails, and that no byte of another live block changes.
\<close>

subsection \<open>What an allocation and a deallocation promise\<close>

definition malloc_post :: "aheap \<Rightarrow> ralloc_state \<Rightarrow> nat \<Rightarrow> addr \<Rightarrow> aheap \<Rightarrow> ralloc_state \<Rightarrow> bool" where
  "malloc_post g s n p g' s' \<longleftrightarrow> heap_rep g' s' \<and> live g' s' = insert (p, n) (live g s)
     \<and> bytes (p, n) \<inter> live_bytes g s = {} \<and> same_geom s s' \<and> roots s' = roots s
     \<and> (\<forall>a \<in> live_bytes g s. mem s' a = mem s a)"

definition free_post :: "aheap \<Rightarrow> ralloc_state \<Rightarrow> nat \<Rightarrow> addr \<Rightarrow> aheap \<Rightarrow> ralloc_state \<Rightarrow> bool" where
  "free_post g s n p g' s' \<longleftrightarrow> heap_rep g' s' \<and> live g' s' = live g s - {(p, n)}
     \<and> same_geom s s' \<and> roots s' = roots s \<and> (\<forall>a \<in> live_bytes g' s'. mem s' a = mem s a)"

lemma malloc_postI:
  assumes hr': "heap_rep g' s'" and al: "alive g' = insert b (alive g)" "b \<notin> alive g"
    and kd: "\<And>k i. (k, i) \<in> alive g \<Longrightarrow> a_kind g' k = a_kind g k"
    and geo: "same_geom s s'" and "roots s' = roots s" and "\<And>a. a \<in> live_bytes g s \<Longrightarrow> mem s' a = mem s a"
  shows "malloc_post g s (block_size_of g' (fst b)) (block_addr_of g' s b) g' s'"
proof -
  let ?f = "\<lambda>b. (block_addr_of g' s' b, block_size_of g' (fst b))"
  have bs: "block_addr_of g' s b = block_addr_of g' s' b" by (simp add: block_addr_of_def same_geomD [OF geo])
  have "bytes (?f b) \<inter> bytes (?f b') = {}" if "b' \<in> alive g" for b'
    using blocks_disjoint [OF hr', of b b'] that al by auto
  moreover have "live g s = ?f ` alive g"
    unfolding live_def
  proof (rule image_cong [OF refl])
    fix b' assume "b' \<in> alive g"
    then show "(block_addr_of g s b', block_size_of g (fst b')) = ?f b'"
      using kd [of "fst b'" "snd b'"] by (simp add: block_addr_of_def block_size_of_def same_geomD [OF geo])
  qed
  ultimately have "bytes (?f b) \<inter> live_bytes g s = {}" by (auto simp: live_bytes_def)
  then show ?thesis
    using assms live_insert [OF al(1) kd geo] by (simp add: malloc_post_def bs)
qed

lemma quiet_malloc:
  assumes q: "quiet g s g1 s1" and post: "malloc_post g1 s1 n p g' s'"
  shows "malloc_post g s n p g' s'"
  using post quietD(4,6-9) [OF q] same_geom_trans [of s s1 s'] by (simp add: malloc_post_def)

lemma quiet_free:
  assumes q: "quiet g s g1 s1" and post: "free_post g1 s1 n p g' s'"
  shows "free_post g s n p g' s'"
proof -
  have "live_bytes g' s' \<subseteq> live_bytes g s"
    using post quietD(6) [OF q] by (auto simp: free_post_def live_bytes_def)
  then show ?thesis
    using post quietD(4,6-9) [OF q] same_geom_trans [of s s1 s'] by (auto simp: free_post_def)
qed

subsection \<open>Small blocks\<close>

lemma set_cache_rep:
  assumes hr: "heap_rep g s" and b: "cache_rep (m, b) (map (\<lambda>(k, i). block_at s c k i) bs)"
    and mf: "\<And>j c' i. sb_valid g j \<Longrightarrow> a_kind g j = Small c' \<Longrightarrow> i \<in> set (a_free g j) \<Longrightarrow>
      load_pptr m (block_at s c' j i) = load_pptr (mem s) (block_at s c' j i)"
    and mc: "\<And>t' c' j i. 1 \<le> c' \<Longrightarrow> c' < 40 \<Longrightarrow> (t', c') \<noteq> (t, c) \<Longrightarrow> (j, i) \<in> set (a_cache g t' c') \<Longrightarrow>
      load_pptr m (block_at s c' j i) = load_pptr (mem s) (block_at s c' j i)"
  shows "rep (set_a_cache t c bs g) (set_cache t c b (s\<lparr>mem := m\<rparr>))" (is "rep _ ?s'")
proof -
  have rep: "rep g s" using hr by (simp add: heap_rep_def)
  have r: "rgs ?s' = rgs s" by simp
  show ?thesis
  proof (rule rep_block_frame [OF rep, where k = 0 and t = t and c = c])
    show "caches_rep (set_a_cache t c bs g) ?s' t c"
      unfolding caches_rep_def geometry_cong [OF r] using b by simp
  qed (use repD(3) [OF rep] mf mc in \<open>auto simp: sb_valid_def\<close>)
qed

lemma pop_rep:
  assumes hr: "heap_rep g s" and c: "1 \<le> c" "c < 40" and cache: "a_cache g t c = (k, i) # bs"
  shows "\<exists>b. pop_block (mem s) (t_caches s t c) = Inr (block_at s c k i, b)
    \<and> malloc_post g s (bsz c) (block_at s c k i) (set_a_cache t c bs g) (set_cache t c b s)"
proof -
  have inv: "ainv g" and rep: "rep g s" using hr by (simp_all add: heap_rep_def)
  note ok = a_pop_ok [OF inv c cache]
  have kd: "a_kind g k = Small c" using ainv_cache(3) [OF inv c, of k i t] cache by simp
  have "cache_rep (mem s, t_caches s t c) (block_at s c k i # map (\<lambda>(k, i). block_at s c k i) bs)"
    using repD(9) [OF rep c, of t] cache by (simp add: caches_rep_def)
  then obtain b where b: "pop_block (mem s) (t_caches s t c) = Inr (block_at s c k i, b)"
    "cache_rep (mem s, b) (map (\<lambda>(k, i). block_at s c k i) bs)"
    using cache_rep_pop by blast
  have "rep (set_a_cache t c bs g) (set_cache t c b s)"
    using set_cache_rep [OF hr b(2), of t] by simp
  then have "heap_rep (set_a_cache t c bs g) (set_cache t c b s)" using ok(1) by (simp add: heap_rep_def)
  then have "malloc_post g s (block_size_of (set_a_cache t c bs g) (fst (k, i)))
      (block_addr_of (set_a_cache t c bs g) s (k, i)) (set_a_cache t c bs g) (set_cache t c b s)"
    by (rule malloc_postI [OF _ ok(3,2)]) (simp_all add: same_geom_def sb_region_def)
  then show ?thesis using b(1) kd by (simp add: block_size_of_def block_addr_of_def block_at_def)
qed

lemma get_sizeclass_small:
  assumes "sz \<le> MAX_SZ"
  shows "1 \<le> get_sizeclass sz" and "get_sizeclass sz < 40" and "unat sz \<le> bsz (get_sizeclass sz)"
  using sizeclass_lookup_best [of "unat sz"] assms by (simp_all add: get_sizeclass_def word_le_nat_alt)

lemma malloc_small:
  assumes hr: "heap_rep g s" and sz: "sz \<le> MAX_SZ"
    and src: "a_cache g t (get_sizeclass sz) \<noteq> [] \<or> a_part g (get_sizeclass sz) \<noteq> [] \<or> sb_room g s"
  shows "\<exists>p g' s'. do_malloc t sz s = Inr (p, s') \<and> malloc_post g s (bsz (get_sizeclass sz)) p g' s'"
proof -
  define c where "c = get_sizeclass sz"
  have c: "1 \<le> c" "c < 40" using get_sizeclass_small [OF sz] by (simp_all add: c_def)
  have "\<exists>g1 s1. (if get_cache_block_num (t_caches s t c) = 0 then fill_cache t c s else Inr s) = Inr s1
      \<and> quiet g s g1 s1 \<and> a_cache g1 t c \<noteq> []"
    using fill_cache_rep [OF hr c, of t] src quiet_refl [OF hr] cache_count(3) [OF hr c, of t]
    by (auto simp: c_def)
  then obtain g1 s1 where s1: "(if get_cache_block_num (t_caches s t c) = 0 then fill_cache t c s else Inr s) = Inr s1"
    "quiet g s g1 s1" "a_cache g1 t c \<noteq> []" by blast
  obtain k i bs where cache: "a_cache g1 t c = (k, i) # bs" using s1(3) by (cases "a_cache g1 t c") auto
  obtain b where b: "pop_block (mem s1) (t_caches s1 t c) = Inr (block_at s1 c k i, b)"
    "malloc_post g1 s1 (bsz c) (block_at s1 c k i) (set_a_cache t c bs g1) (set_cache t c b s1)"
    using pop_rep [OF quietD(1) [OF s1(2)] c cache] by blast
  have "do_malloc t sz s = Inr (block_at s1 c k i, set_cache t c b s1)"
    using leD [OF sz] s1(1) b(1) by (simp add: do_malloc_def c_def [symmetric] Let_def)
  then show ?thesis using quiet_malloc [OF s1(2) b(2)] by (auto simp: c_def)
qed

text \<open>The first allocation of a class takes the first block of the first unused superblock.\<close>

lemma malloc_first:
  assumes hr: "heap_rep g s" and sz: "sz \<le> MAX_SZ" and av: "a_avail g = k # ks"
    and none: "a_cache g t (get_sizeclass sz) = []" "a_part g (get_sizeclass sz) = []"
  shows "\<exists>g' s'. do_malloc t sz s = Inr (sb_at s k, s') \<and> malloc_post g s (bsz (get_sizeclass sz)) (sb_at s k) g' s'"
proof -
  define c where "c = get_sizeclass sz"
  have c: "1 \<le> c" "c < 40" using get_sizeclass_small [OF sz] by (simp_all add: c_def)
  note none = none [folded c_def]
  have rep: "rep g s" using hr by (simp add: heap_rep_def)
  have pos: "0 < bnum c" using class_facts(4) [OF c] by simp
  have "malloc_from_partial PARTIAL_FUEL t c 0 s = Inr (0, s)"
    using malloc_from_partial_none [OF rep c none(2), of "2 ^ 24"] by (simp add: PARTIAL_FUEL_def)
  moreover obtain s1 where s1: "malloc_from_newsb t c 0 s = Inr (of_nat (bnum c), s1)" "quiet g s (a_new_sb t c g) s1"
    using malloc_from_newsb_rep [OF hr c none(1)] av by (auto simp: sb_room_def)
  ultimately have fc: "fill_cache t c s = Inr s1" using fill_checks [OF c pos order_refl] by (simp add: fill_cache_def)
  have "[0..<bnum c] = 0 # [1..<bnum c]" using pos by (simp add: upt_conv_Cons)
  then have cache: "a_cache (a_new_sb t c g) t c = (k, 0) # map (Pair k) [1..<bnum c]"
    using av by (simp add: a_new_sb_def a_take_sb_def)
  have at: "block_at s1 c k 0 = sb_at s k" using same_geomD [OF quietD(4) [OF s1(2)]] by (simp add: block_at_def)
  obtain b where b: "pop_block (mem s1) (t_caches s1 t c) = Inr (sb_at s k, b)"
    "malloc_post (a_new_sb t c g) s1 (bsz c) (sb_at s k) (set_a_cache t c (map (Pair k) [1..<bnum c]) (a_new_sb t c g)) (set_cache t c b s1)"
    using pop_rep [OF quietD(1) [OF s1(2)] c cache] unfolding at by blast
  have "get_cache_block_num (t_caches s t c) = 0" using cache_count(3) [OF hr c, of t] none(1) by simp
  then have "do_malloc t sz s = Inr (sb_at s k, set_cache t c b s1)"
    using leD [OF sz] fc b(1) by (simp add: do_malloc_def c_def [symmetric] Let_def)
  then show ?thesis using quiet_malloc [OF s1(2) b(2)] by (auto simp: c_def)
qed

lemma malloc_small_exhausted:
  assumes hr: "heap_rep g s" and sz: "sz \<le> MAX_SZ"
    and "a_cache g t (get_sizeclass sz) = []" and "a_part g (get_sizeclass sz) = []" and "\<not> sb_room g s"
  shows "do_malloc t sz s = Inl (AssertFail ''out of space'')"
proof -
  note c = get_sizeclass_small [OF sz]
  have "get_cache_block_num (t_caches s t (get_sizeclass sz)) = 0"
    using cache_count(3) [OF hr c(1,2), of t] assms(3) by simp
  then show ?thesis
    using fill_cache_exhausted [OF hr c(1,2) assms(4,5), of t] leD [OF sz] by (simp add: do_malloc_def Let_def)
qed

lemma push_rep:
  assumes hr: "heap_rep g s" and b: "(k, i) \<in> alive g" "a_kind g k = Small c"
    and len: "length (a_cache g t c) < bnum c"
  shows "case push_block (block_at s c k i) (mem s, t_caches s t c) of (m, b) \<Rightarrow>
    free_post g s (bsz c) (block_at s c k i) (set_a_cache t c ((k, i) # a_cache g t c) g) (set_cache t c b (s\<lparr>mem := m\<rparr>))"
proof -
  have inv: "ainv g" and rep: "rep g s" using hr by (simp_all add: heap_rep_def)
  have k: "sb_valid g k" "i < bnum c" "i \<notin> set (a_free g k)" "\<not> cached g (k, i)" using b by (auto simp: alive_iff)
  note sd = small_desc [OF rep inv k(1) b(2)]
  note c = sd(1,2) and lay = repD(1) [OF rep]
  let ?x = "block_at s c k i" and ?xs = "map (\<lambda>(k, i). block_at s c k i) (a_cache g t c)"
  let ?g' = "set_a_cache t c ((k, i) # a_cache g t c) g"
  note ok = a_push_ok [OF inv c b len]
  obtain m bin where pb: "push_block ?x (mem s, t_caches s t c) = (m, bin)" by (cases "push_block ?x (mem s, t_caches s t c)")
  have m: "m = store_pptr (mem s) ?x (tc_block (t_caches s t c))" using pb by (simp add: push_block_def)
  note other = store_cell_other [OF rep inv k(1) b(2) k(2), where m = "mem s" and v = "tc_block (t_caches s t c)", folded m]
  have nc: "(k, i) \<notin> set (a_cache g t' c')" if "1 \<le> c'" "c' < 40" for t' c' using k(4) that by (auto simp: cached_def)
  have "?x \<notin> set ?xs"
  proof
    assume "?x \<in> set ?xs"
    then obtain j l where jl: "(j, l) \<in> set (a_cache g t c)" "?x = block_at s c j l" by auto
    have "sb_valid g j" "l < bnum c" using ainv_cache(3) [OF inv c jl(1)] by simp_all
    then have "k = j \<and> i = l"
      using block_at_inj [OF lay sd(3) c k(2) sb_valid_cap(1) [OF rep] c _ jl(2)] by simp
    then show False using nc [OF c] jl(1) by auto
  qed
  then have "cache_ok ?x ?xs (mem s, t_caches s t c)"
    using block_at_props(1) [OF lay sd(3) c k(2)] ainv_cache(2) [OF inv c, of t] bnum_le [OF c]
    by (simp add: cache_ok_def)
  then have cr: "cache_rep (m, bin) (map (\<lambda>(k, i). block_at s c k i) ((k, i) # a_cache g t c))"
    using cache_rep_push [of "mem s" "t_caches s t c" ?xs ?x] repD(9) [OF rep c, of t] pb by (simp add: caches_rep_def)
  have "rep ?g' (set_cache t c bin (s\<lparr>mem := m\<rparr>))"
  proof (rule set_cache_rep [OF hr cr])
    fix j c' l assume j: "sb_valid g j" "a_kind g j = Small c'" "l \<in> set (a_free g j)"
    show "load_pptr m (block_at s c' j l) = load_pptr (mem s) (block_at s c' j l)"
      using other [OF j(1,2), of l] ainv_small(4) [OF inv j(1,2)] j(3) k(3) by auto
  next
    fix t' c' j l :: nat assume c': "1 \<le> c'" "c' < 40" and j: "(j, l) \<in> set (a_cache g t' c')"
    show "load_pptr m (block_at s c' j l) = load_pptr (mem s) (block_at s c' j l)"
      using other [of j c' l] ainv_cache(3) [OF inv c' j] nc [OF c', of t'] j by auto
  qed
  then have hr': "heap_rep ?g' (set_cache t c bin (s\<lparr>mem := m\<rparr>))" using ok(1) by (simp add: heap_rep_def)
  have geo: "same_geom s (set_cache t c bin (s\<lparr>mem := m\<rparr>))" by (simp add: same_geom_def sb_region_def)
  have lv: "live ?g' (set_cache t c bin (s\<lparr>mem := m\<rparr>)) = live g s - {(?x, bsz c)}"
    using live_remove [OF hr ok(2) b(1) _ geo] b(2)
    by (simp add: block_addr_of_def block_size_of_def block_at_def)
  have "m a = mem s a" if a: "a \<in> live_bytes ?g' (set_cache t c bin (s\<lparr>mem := m\<rparr>))" for a
  proof -
    have "a \<notin> bytes (?x, bsz c)"
    proof -
      obtain y where y: "y \<in> live g s" "y \<noteq> (?x, bsz c)" "a \<in> bytes y" using a by (auto simp: live_bytes_def lv)
      have "(?x, bsz c) \<in> live g s"
        using b by (force simp: live_def block_addr_of_def block_size_of_def block_at_def)
      then show ?thesis using live_disjoint [OF hr y(1)] y(2,3) by blast
    qed
    then have "a \<noteq> ?x + of_nat l" if "l < 8" for l
      using that class_facts(1) [OF c] by (auto simp: bytes_def)
    then show ?thesis unfolding m by (rule store_pptr_other)
  qed
  then show ?thesis using hr' lv geo by (simp add: pb free_post_def)
qed

lemma free_small:
  assumes hr: "heap_rep g s" and b: "(k, i) \<in> alive g" "a_kind g k = Small c"
  shows "\<exists>g' s' bs. do_free t (block_at s c k i) s = Inr s' \<and> free_post g s (bsz c) (block_at s c k i) g' s'
    \<and> a_cache g' t c = (k, i) # bs"
proof -
  have inv: "ainv g" and rep: "rep g s" using hr by (simp_all add: heap_rep_def)
  have k: "sb_valid g k" "i < bnum c" using b by (auto simp: alive_iff)
  note sd = small_desc [OF rep inv k(1) b(2)]
  note c = sd(1,2)
  let ?x = "block_at s c k i" and ?sc = "get_sizeclass_by_idx c"
  have lv: "(?x, bsz c) \<in> live g s" using b by (force simp: live_def block_addr_of_def block_size_of_def block_at_def)
  note lp = live_props [OF hr lv]
  have idx: "unat (h_sc_idx (heaps s (heap_addr (base_md s) c))) = c"
    using repD(4) [OF rep c(2)] c by (simp add: unat_of_nat64)
  have full: "sc_cache_block_num ?sc \<le> get_cache_block_num (t_caches s t c) \<longleftrightarrow> bnum c \<le> length (a_cache g t c)"
    using cache_count(1) [OF hr c, of t] class_uniform(2) [OF c] by (simp add: word_le_nat_alt bnum_def)
  have "\<exists>g1 s1. (if sc_cache_block_num ?sc \<le> get_cache_block_num (t_caches s t c) then flush_cache t c s else Inr s) = Inr s1
      \<and> quiet g s g1 s1 \<and> length (a_cache g1 t c) < bnum c"
  proof (cases "bnum c \<le> length (a_cache g t c)")
    case True
    then obtain g1 s1 where "flush_cache t c s = Inr s1" "quiet g s g1 s1" "a_cache g1 t c = []"
      using flush_cache_rep [OF hr c, of t] by blast
    then show ?thesis using True class_facts(4) [OF c] by (intro exI [of _ g1] exI [of _ s1]) (simp add: full)
  next
    case False
    then show ?thesis using quiet_refl [OF hr] by (intro exI [of _ g] exI [of _ s]) (simp add: full)
  qed
  then obtain g1 s1 where s1: "(if sc_cache_block_num ?sc \<le> get_cache_block_num (t_caches s t c) then flush_cache t c s else Inr s) = Inr s1"
    "quiet g s g1 s1" "length (a_cache g1 t c) < bnum c" by blast
  have b1: "(k, i) \<in> alive g1" "a_kind g1 k = Small c"
    using quietD(5) [OF s1(2)] b by (auto simp: same_live_def)
  have x: "block_at s1 c k i = ?x" by (simp add: same_geomD [OF quietD(4) [OF s1(2)]])
  obtain m bin where pb: "push_block ?x (mem s1, t_caches s1 t c) = (m, bin)" by (cases "push_block ?x (mem s1, t_caches s1 t c)")
  have "do_free t ?x s = Inr (set_cache t c bin (s1\<lparr>mem := m\<rparr>))"
    using lp(4,5) s1(1) pb c block_at_props(2) [OF repD(1) [OF rep] sd(3) c k(2)]
    by (simp add: do_free_def sd(6) idx Let_def split: if_splits)
  moreover have "free_post g1 s1 (bsz c) ?x (set_a_cache t c ((k, i) # a_cache g1 t c) g1) (set_cache t c bin (s1\<lparr>mem := m\<rparr>))"
    using push_rep [OF quietD(1) [OF s1(2)] b1 s1(3)] by (simp add: x pb)
  ultimately show ?thesis using quiet_free [OF s1(2)] by (intro exI conjI) (assumption, blast, simp)
qed

subsection \<open>Large blocks\<close>

lemma round_up_SBSIZE:
  assumes "unat sz < 2 ^ 47"
  shows "\<exists>r. round_up sz SBSIZE = Inr r \<and> unat r = 65536 * ((unat sz + 65535) div 65536)"
proof -
  have "unat ((sz + 65535) AND NOT 65535) = (unat sz + 65535) div 65536 * 65536"
    using round_up_mask_unat [of 16 sz] assms by (simp add: mask_eq_exp_minus_1)
  then show ?thesis by (simp add: round_up_def add.commute [of sz 65535])
qed

lemma expand_large:
  fixes sz :: u64
  assumes rep: "rep g s" and m: "unat sz = 65536 * m" "1 \<le> m" "m < 65536"
  shows "expand_loop CAS_FUEL PAGESIZE sz msg s =
    (if a_num g + m \<le> sb_cap s then Inr (sb_at s (a_num g), frontier m s) else Inl (AssertFail msg))"
proof -
  note lay = repD(1) [OF rep]
  let ?rm = "sb_region s" and ?b = "unat (lookup (rgs s) SB_IDX)"
  let ?e = "unat (base_addr ?rm) + unat (FILESIZE ?rm)"
  have num: "sb_num s = a_num g" by (rule repD(2) [OF rep])
  have al: "align_up 12 (unat (curr_addr ?rm)) = unat (curr_addr ?rm)"
    by (rule align_up_id, rule dvd_trans [of _ 65536]) (use layout_okD(5) [OF lay] in \<open>simp_all add: mod_0_imp_dvd\<close>)
  have pg: "PAGESIZE = 2 ^ 12" by simp
  have le: "?b \<le> ?e" using layout_okD(4) [OF lay] region_okD(6) [OF layout_okD(1) [OF lay]] by simp
  have "sb_cap s < a_num g + m \<longleftrightarrow> ?e - ?b < 65536 * (a_num g + m)"
    unfolding sb_cap_def by (rule div_less_iff_less_mult [THEN trans]) (simp_all add: mult.commute)
  then have full: "?e < unat (curr_addr ?rm) + unat sz \<longleftrightarrow> \<not> a_num g + m \<le> sb_cap s"
    using m(1) num unfolding curr_addr_num(2) [OF lay] less_diff_conv2 [OF le] by (auto simp: algebra_simps not_le)
  note nr = nvm_region_allocator_eq [OF layout_okD(1) [OF lay], of 12 sz]
  show ?thesis
  proof (cases "a_num g + m \<le> sb_cap s")
    case True
    then obtain res where res: "nvm_region_allocator ?rm (2 ^ 12) sz = (1, Some res, advance (res + sz) ?rm)"
      "unat res = unat (curr_addr ?rm)"
      using nr m full al by auto
    have r: "res = sb_at s (a_num g)" using res(2) curr_addr_num(1) [OF lay] num by (simp add: word_unat_eq_iff)
    have "of_nat (unat sz) = sz" by simp
    then have "sz = of_nat (65536 * m)" unfolding m(1) by (rule sym)
    then have "res + sz = sb_at s (sb_num s + m)" unfolding r num by (simp add: sb_at_def algebra_simps)
    then have "s\<lparr>rgs := (rgs s)\<lparr>regions := (regions (rgs s))(ridx SB_IDX := advance (res + sz) ?rm)\<rparr>\<rparr> = frontier m s"
      by (simp add: frontier_def set_sb_region_def)
    then show ?thesis
      using True res(1) r by (simp add: CAS_FUEL_def numeral_2_eq_2 expand_def sb_region_def)
  next
    case False
    then have "nvm_region_allocator ?rm (2 ^ 12) sz = (-1, None, ?rm)" using nr m full al by auto
    then show ?thesis using False by (simp add: CAS_FUEL_def numeral_2_eq_2 expand_def sb_region_def check_def)
  qed
qed

lemma large_rep:
  assumes hr: "heap_rep g s" and m: "1 \<le> m" "m < 65536" and room: "a_num g + m \<le> sb_cap s"
    and v: "desc_static s (a_num g) 0 (65536 * m) 1 v" "d_next_free v = d_next_free w" "d_next_partial v = d_next_partial w"
    and w: "w = new_Descriptor (desc_at s (a_num g))"
  shows "rep (a_large_alloc m g)
    (set_desc (desc_at s (a_num g)) (\<lambda>_. v) (construct_desc (desc_at s (a_num g)) (frontier m s)))" (is "rep _ ?s'")
proof -
  have inv: "ainv g" and rep: "rep g s" using hr by (simp_all add: heap_rep_def)
  let ?n = "a_num g" and ?s1 = "frontier m s" and ?g1 = "a_grow m g"
  have room': "sb_num s + m \<le> sb_cap s" using room repD(2) [OF rep] by simp
  note geo = same_geomD [OF frontier_layout(3) [OF repD(1) [OF rep] room']]
  have rep1: "rep ?g1 ?s1" by (rule frontier_rep [OF rep room])
  have nv: "sb_valid ?g1 ?n" using m(1) ainvD(4) [OF inv] by (simp add: sb_valid_def)
  have "?n \<notin> set (a_avail ?g1)" using ainv_avail(2) [OF inv, of ?n] by (simp add: sb_valid_def)
  moreover have "?n \<notin> set (a_part ?g1 c)" if "1 \<le> c" "c < 40" for c
    using ainv_part(2) [OF inv that, of ?n] by (simp add: sb_valid_def)
  ultimately have rep2: "rep (?g1\<lparr>a_kind := (a_kind ?g1)(?n := Unused), a_free := (a_free ?g1)(?n := [])\<rparr>)
      (construct_desc (desc_at s ?n) ?s1)" (is "rep ?g2 ?s2")
    using construct_rep [OF rep1 nv] by (simp add: geo)
  have r: "rgs ?s' = rgs ?s2" by simp
  have g2: "desc_at ?s2 = desc_at s" "sb_cap ?s2 = sb_cap s" "sb_at ?s2 = sb_at s" "desc_static ?s2 = desc_static s"
    by (simp_all add: geometry_cong [of ?s2 ?s1] desc_static_cong [of ?s2 ?s1] geo)
  show ?thesis
  proof (rule rep_block_frame [OF rep2, where k = ?n and t = 0 and c = 0])
    fix j assume j: "j \<noteq> ?n" "sb_valid ?g2 j"
    have "desc_at s j \<noteq> desc_at s ?n"
      using desc_at_inj [OF repD(1) [OF rep2], of j ?n] sb_valid_cap(1) [OF rep2 j(2)] j(1) room m(1) by (simp add: g2)
    then show "descs ?s' (desc_at ?s2 j) = descs ?s2 (desc_at ?s2 j)
        \<and> pm_descs (pm ?s') (desc_at ?s2 j) = pm_descs (pm ?s2) (desc_at ?s2 j)" by (simp add: g2)
  next
    show "desc_rep (a_large_alloc m g) ?s' ?n \<and> durable_rep (a_large_alloc m g) ?s' ?n"
      using v(1) by (simp add: desc_rep_def durable_rep_def geometry_cong [OF r] desc_static_cong [OF r] g2)
  qed (use v w in \<open>auto simp: g2\<close>)
qed

lemma malloc_large:
  assumes hr: "heap_rep g s" and sz: "MAX_SZ < sz" "unat sz \<le> 65535 * 65536"
  defines "m \<equiv> (unat sz + 65535) div 65536"
  shows "if a_num g + m \<le> sb_cap s
    then \<exists>g' s'. do_malloc t sz s = Inr (sb_at s (a_num g), s') \<and> malloc_post g s (65536 * m) (sb_at s (a_num g)) g' s'
      \<and> pm_descs (pm s') (desc_lookup s' (sb_at s (a_num g))) = new_Descriptor (desc_lookup s' (sb_at s (a_num g)))
      \<and> g' = a_large_alloc m g
    else do_malloc t sz s = Inl (AssertFail ''space runs out!'')"
proof -
  have inv: "ainv g" and rep: "rep g s" using hr by (simp_all add: heap_rep_def)
  have m: "1 \<le> m" "m < 65536"
    using sz by (auto simp: m_def word_less_nat_alt div_less_iff_less_mult less_eq_div_iff_mult_less_eq)
  obtain sbs where sbs: "round_up sz SBSIZE = Inr sbs" "unat sbs = 65536 * m"
    using round_up_SBSIZE [of sz] sz(2) by (auto simp: m_def)
  note ex = expand_large [OF rep sbs(2) m, of "''space runs out!''"]
  show ?thesis
  proof (cases "a_num g + m \<le> sb_cap s")
    case False
    then show ?thesis
      using sz(1) sbs(1) ex
      by (simp add: do_malloc_def alloc_large_block_def large_sb_alloc_def expand_get_large_sb_def)
  next
    case True
    let ?n = "a_num g" and ?s1 = "frontier m s" and ?g' = "a_large_alloc m g"
    let ?d = "desc_at s ?n"
    have room': "sb_num s + m \<le> sb_cap s" using True repD(2) [OF rep] by simp
    note fl = frontier_layout [OF repD(1) [OF rep] room'] and ok = a_large_alloc_ok [OF inv m]
    note geo = same_geomD [OF fl(3)]
    let ?v = "(new_Descriptor ?d)\<lparr>d_heap := cross_assign (rgs s) META_IDX (heap_addr (base_md s) 0),
       d_block_size := ucast sbs, d_maxcount := 1, d_superblock := cross_assign (rgs s) SB_IDX (sb_at s ?n),
       d_anchor := \<lparr>avail = 0, count = 0, sb_state = SB_FULL\<rparr>\<rparr>"
    define s' where "s' = set_desc ?d (\<lambda>_. ?v) (construct_desc ?d ?s1)"
    have dl: "desc_lookup s (sb_at s ?n) = ?d" by (rule desc_lookup_sb [OF repD(1) [OF rep]]) (use True m in simp)
    moreover have "base_md (construct_desc ?d ?s1) = base_md s" by (simp add: base_md_def geo)
    moreover have "desc_lookup (construct_desc ?d ?s1) (sb_at s ?n) = desc_lookup s (sb_at s ?n)"
      by (simp add: desc_lookup_def geo)
    moreover have "FLUSHFENCE x = x" if "wb x = []" for x :: ralloc_state using that by (simp add: FLUSHFENCE_def)
    moreover have nz: "sb_at s ?n \<noteq> 0"
    proof -
      have "4096 \<le> unat (sb_at s ?n)" using unat_sb_at [OF repD(1) [OF rep], of ?n] True layout_okD(3) [OF repD(1) [OF rep]] by simp
      then show ?thesis by auto
    qed
    ultimately have eq: "do_malloc t sz s = Inr (sb_at s ?n, s')"
      using sz(1) sbs(1) ex True
      by (simp add: do_malloc_def alloc_large_block_def large_sb_alloc_def expand_get_large_sb_def s'_def
          geo set_desc_def Let_def)
    have "unat (ucast sbs :: u32) = 65536 * m"
      using sbs(2) m(2) by (simp add: unsigned_ucast_eq take_bit_nat_eq_self)
    then have st: "desc_static s ?n 0 (65536 * m) 1 ?v" by (simp add: desc_static_def)
    have rep': "rep ?g' s'" unfolding s'_def by (rule large_rep [OF hr m True st]) simp_all
    have g': "same_geom s s'" using fl(3) by (simp add: s'_def same_geom_def sb_region_def)
    have "malloc_post g s (block_size_of ?g' (fst (?n, 0 :: nat))) (block_addr_of ?g' s (?n, 0)) ?g' s'"
    proof (rule malloc_postI [OF _ ok(3,2) _ g'])
      show "heap_rep ?g' s'" using ok(1) rep' by (simp add: heap_rep_def)
      show "a_kind ?g' k = a_kind g k" if "(k, i) \<in> alive g" for k i
        using that by (auto simp: alive_iff sb_valid_def)
    qed (simp_all add: s'_def frontier_def)
    moreover have "pm_descs (pm s') (desc_lookup s' (sb_at s ?n)) = new_Descriptor (desc_lookup s' (sb_at s ?n))"
      using repD(3) [OF rep] by (simp add: same_geomD [OF g'] dl) (simp add: s'_def frontier_def)
    ultimately show ?thesis using True eq by (auto simp: block_size_of_def block_addr_of_def)
  qed
qed

lemma free_large:
  assumes hr: "heap_rep g s" and b: "(k, 0) \<in> alive g" "a_kind g k = Large m"
  shows "\<exists>g' s'. do_free t (sb_at s k) s = Inr s' \<and> free_post g s (65536 * m) (sb_at s k) g' s'"
proof -
  have inv: "ainv g" and rep: "rep g s" using hr by (simp_all add: heap_rep_def)
  note lay = repD(1) [OF rep]
  have k: "sb_valid g k" using b(1) by (simp add: alive_iff)
  note kc = sb_valid_cap [OF rep k] and lg = ainv_large [OF inv k b(2)] and ok = a_large_free_ok [OF inv k b(2)]
  let ?v = "descs s (desc_at s k)"
  have st: "desc_static s k 0 (65536 * m) 1 ?v" using repD(7) [OF rep k] b(2) by (simp add: desc_rep_def)
  note get = desc_static_get [OF lay kc(2,1) _ st, simplified]
  have lv: "(sb_at s k, 65536 * m) \<in> live g s" using b by (force simp: live_def block_addr_of_def block_size_of_def)
  note lp = live_props [OF hr lv]
  have idx: "h_sc_idx (heaps s (heap_addr (base_md s) 0)) = 0" using repD(4) [OF rep, of 0] by simp
  have bs: "unat (ucast (d_block_size ?v) :: u64) = 65536 * m"
    using st lg(2) unat_of_nat64 [of "65536 * m"] by (simp add: desc_static_def ucast_32_64 del: of_nat_mult)
  have "unat (ucast (d_block_size ?v) mod 65536 :: u64) = 0" using bs by (simp add: unat_mod)
  then have chk: "ucast (d_block_size ?v) mod 65536 = (0 :: u64)" by (simp add: unsigned_eq_0_iff)
  have cnt: "unat (ucast (d_block_size ?v) div 65536 :: u64) = m" using bs by (simp add: unat_div)
  have inside: "sb_valid g i \<and> i \<notin> set (a_avail g)" if "k \<le> i" "i < k + m" for i
    using that lg(3,4) b(2) ainv_avail(2) [OF inv, of i] kc(2) by (cases "i = k") (auto simp: sb_valid_def)
  have fresh: "i \<notin> set (a_part g c)" if "k \<le> i" "i < k + m" "1 \<le> c" "c < 40" for i c
    using that lg(4) b(2) ainv_part(2) [OF inv that(3,4), of i] by (cases "i = k") auto
  obtain s' where s': "organize_sb_list (sb_at s k) (ucast (d_block_size ?v) div 65536) s = Inr s'"
    "rep (a_organize k m g) s'" "same_rest s s'"
    using organize_rep [OF rep _ cnt inside fresh] lg(1) by auto
  have "do_free t (sb_at s k) s = Inr s'"
    using lp(4,5) get idx chk s'(1) desc_lookup_sb [OF lay kc(1)]
    by (simp add: do_free_def large_sb_retire_def Let_def)
  moreover have "heap_rep (a_organize k m g) s'" using ok(1) s'(2) by (simp add: heap_rep_def)
  moreover have "live (a_organize k m g) s' = live g s - {(block_addr_of g s (k, 0), block_size_of g (fst (k, 0 :: nat)))}"
  proof (rule live_remove [OF hr ok(3,2) _ same_rest_geom [OF s'(3)]])
    show "a_kind (a_organize k m g) j = a_kind g j" if "(j, i) \<in> alive (a_organize k m g)" for j i
      using that by (auto simp: alive_iff split: if_splits)
  qed
  ultimately show ?thesis
    using s'(3) same_rest_geom [OF s'(3)] b(2)
    by (intro exI [of _ "a_organize k m g"] exI [of _ s'])
      (simp add: free_post_def same_rest_def block_addr_of_def block_size_of_def)
qed

end
