(* ===== verification/HeapInit.thy ===== *)
theory HeapInit
  imports HeapOps
begin

text \<open>
  The constructor of \<^verbatim>\<open>BaseMeta\<close> on new regions establishes the representation relation: all
  superblocks of the first extension but the first are unused, and nothing is live.
\<close>

subsection \<open>The address of the metadata region\<close>

text \<open>
  The constructor runs before the address of the metadata region is entered in the table of
  regions. Building the list of superblocks does not depend on that entry.
\<close>

definition set_meta :: "addr \<Rightarrow> ralloc_state \<Rightarrow> ralloc_state" where
  "set_meta a s = s\<lparr>rgs := (rgs s)\<lparr>regions_address := (regions_address (rgs s))(ridx META_IDX := a)\<rparr>\<rparr>"

lemma set_meta_simps [simp]:
  "descs (set_meta a s) = descs s" "avail_sb (set_meta a s) = avail_sb s" "heaps (set_meta a s) = heaps s"
  "roots (set_meta a s) = roots s" "mem (set_meta a s) = mem s" "t_caches (set_meta a s) = t_caches s"
  "pm (set_meta a s) = pm s" "wb (set_meta a s) = wb s" "dirty_mtx (set_meta a s) = dirty_mtx s"
  "sb_region (set_meta a s) = sb_region s" "base_md (set_meta a s) = a"
  "regions (rgs (set_meta a s)) = regions (rgs s)" "cur_idx (rgs (set_meta a s)) = cur_idx (rgs s)"
  by (simp_all add: set_meta_def sb_region_def base_md_def lookup_def)

lemma set_meta_rgs [simp]:
  "lookup (rgs (set_meta a s)) DESC_IDX = lookup (rgs s) DESC_IDX"
  "lookup (rgs (set_meta a s)) SB_IDX = lookup (rgs s) SB_IDX"
  "acp_load (rgs (set_meta a s)) DESC_IDX w = acp_load (rgs s) DESC_IDX w"
  "acp_pack (rgs (set_meta a s)) DESC_IDX p = acp_pack (rgs s) DESC_IDX p"
  "desc_lookup (set_meta a s) d = desc_lookup s d"
  by (simp_all add: set_meta_def lookup_def acp_load_def acp_pack_def translate_def untranslate_def desc_lookup_def Let_def)

lemma set_meta_commute:
  "construct_desc d (set_meta a s) = set_meta a (construct_desc d s)"
  "store_next_free d v (set_meta a s) = set_meta a (store_next_free d v s)"
  "avail_sb_cas old new (set_meta a s) = (case avail_sb_cas old new s of (ok, old', s') \<Rightarrow> (ok, old', set_meta a s'))"
  by (simp_all add: construct_desc_def store_next_free_def FLUSHFENCE_def flush_desc_def set_desc_def
      avail_sb_cas_def acp_cas_def Let_def) (simp_all add: set_meta_def)

text \<open>
  Building the list of superblocks commutes with every update of the state that the steps it
  is made of commute with.
\<close>

locale organize_frame =
  fixes upd :: "ralloc_state \<Rightarrow> ralloc_state"
  assumes upd_construct: "construct_desc d (upd s) = upd (construct_desc d s)"
    and upd_store: "store_next_free d v (upd s) = upd (store_next_free d v s)"
    and upd_cas: "avail_sb_cas old new (upd s) = (case avail_sb_cas old new s of (ok, old', s') \<Rightarrow> (ok, old', upd s'))"
    and upd_load: "avail_sb_load (upd s) = avail_sb_load s"
    and upd_lookup: "desc_lookup (upd s) d = desc_lookup s d"
begin

lemma organize_loop_upd: "organize_loop n d (upd s) = map_prod id upd (organize_loop n d s)"
  by (induction n arbitrary: d s) (simp_all add: upd_construct upd_store)

lemma cas_loop_upd:
  assumes "\<And>old s. body old (upd s) = map_sum id (map_prod id upd) (body old s)"
  shows "cas_loop n body avail_sb_cas old (upd s)
    = map_sum id (map_prod id (map_prod id upd)) (cas_loop n body avail_sb_cas old s)"
  by (induction n arbitrary: old s) (auto simp: assms upd_cas rbind_def split: sum.splits prod.splits)

lemma organize_upd: "organize_sb_list p n (upd s) = map_sum id upd (organize_sb_list p n s)"
proof -
  obtain d s2 where l: "organize_loop (unat n - 1) (desc_lookup s p) (construct_desc (desc_lookup s p) s) = (d, s2)"
    by (cases "organize_loop (unat n - 1) (desc_lookup s p) (construct_desc (desc_lookup s p) s)")
  define q where "q = desc_lookup s p"
  let ?body = "\<lambda>oldhead s. Inr (\<lparr>pc_ptr = q, pc_cnt = pc_cnt oldhead + 1\<rparr>, store_next_free d (pc_ptr oldhead) s)"
  have "cas_loop CAS_FUEL ?body avail_sb_cas (avail_sb_load s2) (upd s2)
      = map_sum id (map_prod id (map_prod id upd)) (cas_loop CAS_FUEL ?body avail_sb_cas (avail_sb_load s2) s2)"
    by (rule cas_loop_upd) (simp add: upd_store)
  then show ?thesis
    using l unfolding organize_sb_list_def Let_def upd_lookup q_def [symmetric] upd_construct organize_loop_upd
    by (cases "cas_loop CAS_FUEL ?body avail_sb_cas (avail_sb_load s2) s2") (auto simp: q_def upd_load)
qed

end

interpretation meta_upd: organize_frame "set_meta a" for a
  by unfold_locales (simp_all add: set_meta_commute avail_sb_load_def)

interpretation mem_upd: organize_frame "mem_update (\<lambda>_. m)" for m
  by unfold_locales
    (simp_all add: construct_desc_def store_next_free_def FLUSHFENCE_def flush_desc_def set_desc_def
      avail_sb_cas_def acp_cas_def Let_def avail_sb_load_def desc_lookup_def)

text \<open>Building the list starts with a fence, so write-backs in flight are completed first.\<close>

lemma construct_desc_fence: "construct_desc d (FLUSHFENCE s) = construct_desc d s"
  by (simp add: construct_desc_def FLUSHFENCE_def flush_desc_def set_desc_def)

lemma organize_fence: "organize_sb_list p n (FLUSHFENCE s) = organize_sb_list p n s"
proof -
  have "desc_lookup (FLUSHFENCE s) = desc_lookup s" by (simp add: fun_eq_iff desc_lookup_def)
  then show ?thesis by (simp add: organize_sb_list_def construct_desc_fence)
qed

subsection \<open>The loops of the constructor\<close>

lemma heap_addr_inject: "i < 40 \<Longrightarrow> j < 40 \<Longrightarrow> heap_addr this i = heap_addr this j \<longleftrightarrow> i = j"
  using offset_inject [of "64 * i" "64 * j" "this + 64"] by (simp add: heap_addr_def)

lemma init_heap_simps [simp]:
  "rgs (init_heap this i s) = rgs s" "descs (init_heap this i s) = descs s" "avail_sb (init_heap this i s) = avail_sb s"
  "roots (init_heap this i s) = roots s" "dirty_mtx (init_heap this i s) = dirty_mtx s" "mem (init_heap this i s) = mem s"
  "t_caches (init_heap this i s) = t_caches s" "pm (init_heap this i s) = pm s"
  "heaps (init_heap this i s) = (heaps s)(heap_addr this i := \<lparr>h_partial_list = 0, h_sc_idx = of_nat i\<rparr>)"
  "wb (init_heap this i s) = WHeap (heap_addr this i) \<lparr>h_partial_list = 0, h_sc_idx = of_nat i\<rparr> # wb s"
  by (simp_all add: init_heap_def flush_heap_def acp_store_def acp_pack_def Let_def)

lemma init_heaps:
  assumes "n \<le> 40"
  shows "rgs (fold (init_heap this) [0..<n] s) = rgs s" "descs (fold (init_heap this) [0..<n] s) = descs s"
    "avail_sb (fold (init_heap this) [0..<n] s) = avail_sb s" "dirty_mtx (fold (init_heap this) [0..<n] s) = dirty_mtx s"
    "mem (fold (init_heap this) [0..<n] s) = mem s" "t_caches (fold (init_heap this) [0..<n] s) = t_caches s"
    "\<And>i. i < n \<Longrightarrow> heaps (fold (init_heap this) [0..<n] s) (heap_addr this i) = \<lparr>h_partial_list = 0, h_sc_idx = of_nat i\<rparr>"
  using assms
proof (induction n)
  case (Suc n)
  {
    case 7
    then show ?case using Suc.IH(7) by (cases "i = n") (auto simp: heap_addr_inject)
  }
qed simp_all

lemma init_root_simps [simp]:
  "rgs (init_root i s) = rgs s" "descs (init_root i s) = descs s" "avail_sb (init_root i s) = avail_sb s"
  "heaps (init_root i s) = heaps s" "dirty_mtx (init_root i s) = dirty_mtx s" "mem (init_root i s) = mem s"
  "t_caches (init_root i s) = t_caches s" "pm (init_root i s) = pm s" "roots (init_root i s) = (roots s)(i := 0)"
  "wb (init_root i s) = WRoots (i div 8) ((roots s)(i := 0)) # wb s"
  by (simp_all add: init_root_def flush_root_def cross_assign_null_def)

lemma init_roots:
  shows "rgs (fold init_root [0..<n] s) = rgs s" "descs (fold init_root [0..<n] s) = descs s"
    "avail_sb (fold init_root [0..<n] s) = avail_sb s" "heaps (fold init_root [0..<n] s) = heaps s"
    "dirty_mtx (fold init_root [0..<n] s) = dirty_mtx s" "mem (fold init_root [0..<n] s) = mem s"
    "t_caches (fold init_root [0..<n] s) = t_caches s" "pm (fold init_root [0..<n] s) = pm s"
    "\<And>i. i < n \<Longrightarrow> roots (fold init_root [0..<n] s) i = 0"
proof (induction n)
  case (Suc n)
  {
    case 9
    then show ?case using Suc.IH(9) by (cases "i = n") auto
  }
qed simp_all

subsection \<open>The heap the constructor builds\<close>

definition a_bare :: aheap where
  "a_bare = \<lparr>a_num = 16384, a_kind = (\<lambda>_. Tail), a_avail = [], a_part = (\<lambda>_. []), a_free = (\<lambda>_. []), a_cache = (\<lambda>_ _. [])\<rparr>"

definition a_init :: aheap where
  "a_init = a_organize 1 16383 a_bare"

lemma a_init_simps:
  "a_num a_init = 16384" "sb_valid a_init k \<longleftrightarrow> 1 \<le> k \<and> k < 16384" "a_part a_init c = []" "a_cache a_init t c = []"
  "a_avail a_init = [1..<16384]" "a_free a_init k = []" "sb_valid a_init k \<Longrightarrow> a_kind a_init k = Unused"
  by (simp_all add: a_init_def a_bare_def sb_valid_def)

lemma a_init_ok: "ainv a_init" "alive a_init = {}"
proof -
  have "kinds_ok a_init" by (rule kinds_okI) (auto simp: a_init_simps)
  moreover have "lists_ok a_init" by (rule lists_okI) (auto simp: a_init_simps)
  moreover have "caches_ok a_init" by (rule caches_okI) (auto simp: a_init_simps)
  ultimately show "ainv a_init" by (simp add: ainv_def)
  show "alive a_init = {}" by (auto simp: alive_iff a_init_simps)
qed

text \<open>
  What the constructor needs of the regions: the superblock region has room for the first
  extension after alignment, and no more superblocks than offsets of descriptors can count;
  the descriptor region and the metadata region have addresses.
\<close>

definition init_ready :: "addr \<Rightarrow> ralloc_state \<Rightarrow> bool" where
  "init_ready this s \<longleftrightarrow> region_ok (sb_region s)
     \<and> align_up 16 (unat (curr_addr (sb_region s))) + 2 ^ 30 \<le> unat (base_addr (sb_region s)) + unat (FILESIZE (sb_region s))
     \<and> unat (FILESIZE (sb_region s)) div 65536 \<le> 2 ^ 24
     \<and> lookup (rgs s) DESC_IDX \<noteq> 0 \<and> unat (lookup (rgs s) DESC_IDX) mod 64 = 0
     \<and> unat (lookup (rgs s) DESC_IDX) + 64 * (unat (FILESIZE (sb_region s)) div 65536) < 2 ^ 47
     \<and> this \<noteq> 0 \<and> unat this mod 64 = 0 \<and> unat this + 10816 < 2 ^ 47
     \<and> (\<forall>t c. tc_block_num (t_caches s t c) = 0) \<and> desc_end_ok (rgs s)"

lemma init_readyD:
  assumes "init_ready this s"
  shows "region_ok (sb_region s)"
    and "align_up 16 (unat (curr_addr (sb_region s))) + 1073741824 \<le> unat (base_addr (sb_region s)) + unat (FILESIZE (sb_region s))"
    and "unat (FILESIZE (sb_region s)) div 65536 \<le> 16777216"
    and "lookup (rgs s) DESC_IDX \<noteq> 0" and "unat (lookup (rgs s) DESC_IDX) mod 64 = 0"
    and "unat (lookup (rgs s) DESC_IDX) + 64 * (unat (FILESIZE (sb_region s)) div 65536) < 140737488355328"
    and "this \<noteq> 0" and "unat this mod 64 = 0" and "unat this + 10816 < 140737488355328"
    and "tc_block_num (t_caches s t c) = 0" and "desc_end_ok (rgs s)"
  using assms by (simp_all add: init_ready_def)

text \<open>The superblock region after the first extension.\<close>

definition warm_rgs :: "addr \<Rightarrow> Regions \<Rightarrow> Regions" where
  "warm_rgs p r = r\<lparr>regions := (regions r)(ridx SB_IDX := store_heap_start p (advance (p + 1073741824) (regions r (ridx SB_IDX)))),
     regions_address := (regions_address r)(ridx SB_IDX := p)\<rparr>"

lemma warm_layout:
  assumes rd: "init_ready this s" and p: "unat p = align_up 16 (unat (curr_addr (sb_region s)))"
    and s': "rgs s' = warm_rgs p (rgs s)"
  shows "layout_ok (set_meta this s')" and "sb_num (set_meta this s') = 16384" and "sb_at (set_meta this s') 1 = p + 65536"
    and "sb_cap (set_meta this s') = (unat (base_addr (sb_region s)) + unat (FILESIZE (sb_region s)) - unat p) div 65536"
proof -
  note d = init_readyD [OF rd]
  let ?rm = "sb_region s" and ?e = "unat (base_addr (sb_region s)) + unat (FILESIZE (sb_region s))"
  let ?t = "set_meta this s'"
  have ap: "2 ^ 16 dvd unat p" "unat (curr_addr ?rm) \<le> unat p" unfolding p by (simp_all only: align_up_props)
  have le: "unat (base_addr ?rm) + 4096 \<le> unat p" using ap(2) region_okD(5) [OF d(1)] by simp
  have u: "unat (p + 1073741824) = unat p + 1073741824"
    using d(2) p region_okD(3) [OF d(1)] by (subst unat_plus64) simp_all
  have near: "near (p + 1073741824) (base_addr ?rm)" using u le d(2) p by (intro region_near [OF d(1)]) simp_all
  have ok: "region_ok (advance (p + 1073741824) ?rm)" using u le d(2) p by (intro region_ok_advance [OF d(1)]) simp_all
  have rm: "sb_region s' = store_heap_start p (advance (p + 1073741824) ?rm)"
    by (simp add: sb_region_def s' warm_rgs_def)
  have lk: "lookup (rgs s') SB_IDX = p" "lookup (rgs s') DESC_IDX = lookup (rgs s) DESC_IDX"
    by (simp_all add: lookup_def s' warm_rgs_def)
  show cap: "sb_cap ?t = (?e - unat p) div 65536" by (simp add: sb_cap_def rm lk)
  have "(?e - unat p) div 65536 \<le> unat (FILESIZE ?rm) div 65536" using le by (intro div_le_mono) simp
  then have cle: "sb_cap ?t \<le> unat (FILESIZE ?rm) div 65536" by (simp add: cap)
  have m: "unat p mod 65536 = 0" using ap(1) by (simp add: dvd_imp_mod_0)
  then have m': "(unat p + 1073741824) mod 65536 = 0" by (simp add: mod_add_eq [symmetric])
  have "desc_end_ok (rgs ?t)"
    using d(11) lk(2) by (simp add: desc_end_ok_def) (simp add: s' warm_rgs_def set_meta_def)
  then show "layout_ok ?t"
    unfolding layout_ok_def set_meta_simps rm
    using ok near lk le m m' d(3-9) cle u by simp
  show "sb_num ?t = 16384" using near u by (simp add: sb_num_def rm lk)
  show "sb_at ?t 1 = p + 65536" by (simp add: sb_at_def lk)
qed

lemma bare_rep:
  assumes rd: "init_ready this s" and p: "unat p = align_up 16 (unat (curr_addr (sb_region s)))"
    and s': "rgs s' = warm_rgs p (rgs s)" "wb s' = []" "avail_sb s' = 0" "t_caches s' = t_caches s"
    and h: "\<And>i. i < 40 \<Longrightarrow> heaps s' (heap_addr this i) = \<lparr>h_partial_list = 0, h_sc_idx = of_nat i\<rparr>"
  shows "rep a_bare (set_meta this s')"
proof (rule repI)
  note w = warm_layout [OF rd p s'(1)]
  show "layout_ok (set_meta this s')" "sb_num (set_meta this s') = a_num a_bare" "wb (set_meta this s') = []"
    using w s'(2) by (simp_all add: a_bare_def)
  show "avail_rep a_bare (set_meta this s')" by (simp add: avail_rep_def a_bare_def s'(3) head_is_zero)
  show "part_rep a_bare (set_meta this s') c" if "1 \<le> c" "c < 40" for c
    using h [OF that(2)] by (simp add: part_rep_def a_bare_def head_is_zero)
  show "caches_rep a_bare (set_meta this s') t c" for t c
    using init_readyD(10) [OF rd, of t c] by (simp add: caches_rep_def a_bare_def s'(4))
qed (simp_all add: h a_bare_def desc_rep_def durable_rep_def)

lemma warm_up:
  assumes rd: "init_ready this s"
  shows "\<exists>p. expand_loop CAS_FUEL SBSIZE SB_REGION_EXPAND_SIZE msg s
      = Inr (p, s\<lparr>rgs := (rgs s)\<lparr>regions := (regions (rgs s))(ridx SB_IDX := advance (p + 1073741824) (sb_region s))\<rparr>\<rparr>)
    \<and> unat p = align_up 16 (unat (curr_addr (sb_region s)))"
proof -
  note d = init_readyD [OF rd]
  obtain p where "nvm_region_allocator (sb_region s) (2 ^ 16) 1073741824 = (1, Some p, advance (p + 1073741824) (sb_region s))"
    "unat p = align_up 16 (unat (curr_addr (sb_region s)))"
    using nvm_region_allocator_eq [OF d(1), of 16 1073741824] d(2) by auto
  then show ?thesis by (simp add: CAS_FUEL_def numeral_2_eq_2 expand_def sb_region_def)
qed

lemma new_BaseMeta_rep:
  assumes rd: "init_ready this s"
  shows "\<exists>s'. new_BaseMeta this s = Inr s' \<and> heap_rep a_init (set_meta this s')
    \<and> (\<forall>i < 1024. roots s' i = 0) \<and> dirty_mtx s' = Mtx_held \<and> cur_idx (rgs s') = cur_idx (rgs s)
    \<and> sb_cap (set_meta this s') = (unat (base_addr (sb_region s)) + unat (FILESIZE (sb_region s))
        - align_up 16 (unat (curr_addr (sb_region s)))) div 65536
    \<and> (\<exists>p. unat p = align_up 16 (unat (curr_addr (sb_region s)))
         \<and> rgs (set_meta this s') = rgs (set_meta this (s\<lparr>rgs := warm_rgs p (rgs s)\<rparr>)))"
proof -
  let ?s1 = "s\<lparr>avail_sb := 0, dirty_mtx := Mtx_held\<rparr>"
  define s4 where "s4 = fold init_root [0..<1024] (fold (init_heap this) [0..<40] (flush_avail (flush_avail ?s1)))"
  have dirty: "set_dirty (s\<lparr>avail_sb := acp_pack (rgs s) DESC_IDX \<lparr>pc_ptr = 0, pc_cnt = 0\<rparr>, dirty_mtx := Mtx_free\<rparr>) = Inr ?s1"
    by (simp add: set_dirty_def acp_pack_def)
  have s4: "rgs s4 = rgs s" "avail_sb s4 = 0" "t_caches s4 = t_caches s" "dirty_mtx s4 = Mtx_held"
    "\<And>i. i < 40 \<Longrightarrow> heaps s4 (heap_addr this i) = \<lparr>h_partial_list = 0, h_sc_idx = of_nat i\<rparr>"
    "\<And>i. i < 1024 \<Longrightarrow> roots s4 i = 0"
    by (simp_all add: s4_def init_roots init_heaps flush_avail_def)
  have rd4: "init_ready this s4" using rd by (simp add: init_ready_def sb_region_def s4)
  obtain p where p: "expand_loop CAS_FUEL SBSIZE SB_REGION_EXPAND_SIZE ''warmup sb allocation fails!'' s4
      = Inr (p, s4\<lparr>rgs := (rgs s4)\<lparr>regions := (regions (rgs s4))(ridx SB_IDX := advance (p + 1073741824) (sb_region s4))\<rparr>\<rparr>)"
    "unat p = align_up 16 (unat (curr_addr (sb_region s4)))"
    using warm_up [OF rd4] by blast
  define s6 where "s6 = s4\<lparr>rgs := warm_rgs p (rgs s4)\<rparr>"
  have "rep a_bare (set_meta this (FLUSHFENCE s6))"
    by (rule bare_rep [OF rd4 p(2)]) (simp_all add: s6_def s4 FLUSHFENCE_def)
  moreover have "sb_at (set_meta this (FLUSHFENCE s6)) 1 = p + 65536"
    by (rule warm_layout [OF rd4 p(2)]) (simp add: s6_def)
  moreover have "unat (16383 :: u64) = 16383" by simp
  ultimately obtain s7 where s7: "organize_sb_list (p + 65536) 16383 (set_meta this (FLUSHFENCE s6)) = Inr s7"
    "rep a_init s7" "same_rest (set_meta this (FLUSHFENCE s6)) s7"
    using organize_rep [of a_bare "set_meta this (FLUSHFENCE s6)" 16383 16383 1]
    unfolding a_init_def by (auto simp: a_bare_def sb_valid_def)
  have "map_sum id (set_meta this) (organize_sb_list (p + 65536) 16383 s6) = Inr s7"
    using s7(1) by (simp only: meta_upd.organize_upd organize_fence)
  then obtain s8 where s8: "organize_sb_list (p + 65536) 16383 s6 = Inr s8" "s7 = set_meta this s8"
    by (cases "organize_sb_list (p + 65536) 16383 s6") auto
  have wb: "FLUSHFENCE s8 = s8" using repD(3) [OF s7(2)] by (simp add: s8(2) FLUSHFENCE_def)
  have "new_BaseMeta this s = Inr s8"
    using dirty p(1) s8(1) wb
    by (simp add: new_BaseMeta_def s4_def [symmetric] Let_def s6_def warm_rgs_def sb_region_def)
  moreover have "heap_rep a_init (set_meta this s8)" using s7(2) s8(2) a_init_ok(1) by (simp add: heap_rep_def)
  moreover have r8: "rgs (set_meta this s8) = rgs (set_meta this (FLUSHFENCE s6))" using s7(3) s8(2) by (simp add: same_rest_def)
  then have "cur_idx (rgs (set_meta this s8)) = cur_idx (rgs (set_meta this (FLUSHFENCE s6)))" by (rule arg_cong)
  then have "cur_idx (rgs s8) = cur_idx (rgs s4)" by (simp add: s6_def warm_rgs_def)
  moreover have "roots s8 = roots s4" "dirty_mtx s8 = dirty_mtx s4"
    using s7(3) s8(2) by (simp_all add: same_rest_def s6_def FLUSHFENCE_def)
  moreover have "sb_cap (set_meta this s8) = sb_cap (set_meta this (FLUSHFENCE s6))"
    using same_geomD(6) [OF same_rest_geom [OF s7(3)]] s8(2) by simp
  moreover have "sb_cap (set_meta this (FLUSHFENCE s6))
      = (unat (base_addr (sb_region s4)) + unat (FILESIZE (sb_region s4)) - unat p) div 65536"
    by (rule warm_layout [OF rd4 p(2)]) (simp add: s6_def)
  moreover have "rgs (set_meta this s8) = rgs (set_meta this (s\<lparr>rgs := warm_rgs p (rgs s)\<rparr>))"
    using r8 by (simp add: set_meta_def s6_def s4(1))
  ultimately show ?thesis using s4 p(2) by (intro exI [of _ s8]) (auto simp: sb_region_def)
qed

subsection \<open>A concrete heap\<close>

text \<open>Four gibibytes for superblocks, mapped at fixed addresses.\<close>

definition sample_sb :: RegionManager where
  "sample_sb = \<lparr>FILESIZE = 0x100002000, HEAPFILE = ''heap_sb'', base_addr = 0x7f0000000000,
     hdr = \<lparr>h_curr = to_pptr_off 0x7f0000001000 0x7f0000000000, h_start = 0, h_size = 0x100002000\<rparr>,
     phdr = \<lparr>h_curr = to_pptr_off 0x7f0000001000 0x7f0000000000, h_start = 0, h_size = 0x100002000\<rparr>, persist = True\<rparr>"

definition sample_desc :: RegionManager where
  "sample_desc = \<lparr>FILESIZE = 0x403000, HEAPFILE = ''heap_desc'', base_addr = 0x600000000000,
     hdr = \<lparr>h_curr = to_pptr_off 0x600000402000 0x600000000000, h_start = 0, h_size = 0x403000\<rparr>,
     phdr = \<lparr>h_curr = to_pptr_off 0x600000402000 0x600000000000, h_start = 0, h_size = 0x403000\<rparr>, persist = True\<rparr>"

definition sample_state :: ralloc_state where
  "sample_state = \<lparr>rgs = \<lparr>regions = (\<lambda>i. if i = 0 then sample_desc else sample_sb), regions_address = (\<lambda>i. if i = 0 then 0x600000001000 else 0), cur_idx = 2\<rparr>,
     descs = (\<lambda>_. new_Descriptor 0), avail_sb = 0, heaps = (\<lambda>_. \<lparr>h_partial_list = 0, h_sc_idx = 0\<rparr>), roots = (\<lambda>_. 0),
     dirty_mtx = Mtx_free, mem = (\<lambda>_. 0), t_caches = (\<lambda>_ _. new_TCacheBin), roots_filter_func = (\<lambda>_. None),
     pm = \<lparr>pm_descs = (\<lambda>_. new_Descriptor 0), pm_avail = 0, pm_heaps = (\<lambda>_. \<lparr>h_partial_list = 0, h_sc_idx = 0\<rparr>), pm_roots = (\<lambda>_. 0)\<rparr>,
     wb = []\<rparr>"

definition sample_meta :: addr where
  "sample_meta = 0x610000001000"

definition sample_heap :: ralloc_state where
  "sample_heap = set_meta sample_meta (case new_BaseMeta sample_meta sample_state of Inr s \<Rightarrow> s | Inl _ \<Rightarrow> sample_state)"

lemma sample_curr: "curr_addr sample_sb = 0x7f0000001000"
  by (simp add: curr_addr_def sample_sb_def atomic_pptr_load_def near_iff)

lemma sample_desc_end: "curr_addr sample_desc = 0x600000402000"
  by (simp add: curr_addr_def sample_desc_def atomic_pptr_load_def near_iff)

lemma sample_ready: "init_ready sample_meta sample_state"
proof -
  have "region_ok sample_sb" unfolding region_ok_def sample_curr by (simp add: sample_sb_def)
  moreover have "align_up 16 (unat (curr_addr sample_sb)) = 0x7f0000010000" by (simp add: sample_curr align_up_def)
  ultimately show ?thesis
    by (simp add: init_ready_def sample_state_def sb_region_def lookup_def sample_meta_def new_TCacheBin_def
        desc_end_ok_def sample_desc_end) (simp add: sample_sb_def)
qed

lemma sample_heap_rep:
  "heap_rep a_init sample_heap" "\<And>i. i < 1024 \<Longrightarrow> roots sample_heap i = 0" "sb_cap sample_heap = 65535"
proof -
  obtain s' where s': "new_BaseMeta sample_meta sample_state = Inr s'" "heap_rep a_init (set_meta sample_meta s')"
    "\<forall>i < 1024. roots s' i = 0"
    "sb_cap (set_meta sample_meta s') = (unat (base_addr sample_sb) + unat (FILESIZE sample_sb)
        - align_up 16 (unat (curr_addr sample_sb))) div 65536"
    using new_BaseMeta_rep [OF sample_ready] by (auto simp: sample_state_def sb_region_def)
  then show "heap_rep a_init sample_heap" "\<And>i. i < 1024 \<Longrightarrow> roots sample_heap i = 0" by (simp_all add: sample_heap_def)
  show "sb_cap sample_heap = 65535"
    using s'(1,4) unfolding sample_curr by (simp add: sample_heap_def align_up_def) (simp add: sample_sb_def)
qed

end
