(* ===== verification/HeapSpec.thy ===== *)
theory HeapSpec
  imports HeapInit
begin

text \<open>
  What the allocator promises its clients: the properties of \<^verbatim>\<open>do_malloc\<close>, \<^verbatim>\<open>do_free\<close>, the
  thread caches and the constructor, stated on the blocks the program holds and their
  bytes.
\<close>

subsection \<open>When an allocation has a source\<close>

definition can_malloc :: "aheap \<Rightarrow> ralloc_state \<Rightarrow> nat \<Rightarrow> u64 \<Rightarrow> bool" where
  "can_malloc g s t sz \<longleftrightarrow>
     (if sz \<le> MAX_SZ then a_cache g t (get_sizeclass sz) \<noteq> [] \<or> a_part g (get_sizeclass sz) \<noteq> [] \<or> sb_room g s
      else a_num g + (unat sz + 65535) div 65536 \<le> sb_cap s)"

definition block_size_for :: "u64 \<Rightarrow> nat" where
  "block_size_for sz = (if sz \<le> MAX_SZ then bsz (get_sizeclass sz) else 65536 * ((unat sz + 65535) div 65536))"

lemma block_size_for_le: "unat sz \<le> block_size_for sz"
proof (cases "sz \<le> MAX_SZ")
  case True
  then show ?thesis using get_sizeclass_small(3) [OF True] by (simp add: block_size_for_def)
next
  case False
  have "unat sz + 65535 < 65536 * ((unat sz + 65535) div 65536) + 65536"
    using mult_div_mod_eq [of 65536 "unat sz + 65535"] mod_less_divisor [of 65536 "unat sz + 65535"] by linarith
  then show ?thesis using False by (simp add: block_size_for_def)
qed

lemma malloc_result:
  assumes hr: "heap_rep g s" and sz: "unat sz \<le> 65535 * 65536" and src: "can_malloc g s t sz"
  shows "\<exists>p g' s'. do_malloc t sz s = Inr (p, s') \<and> malloc_post g s (block_size_for sz) p g' s'"
proof (cases "sz \<le> MAX_SZ")
  case True
  then show ?thesis
    using malloc_small [OF hr True] src by (simp add: can_malloc_def block_size_for_def)
next
  case False
  then show ?thesis
    using malloc_large [OF hr _ sz, of t] src by (auto simp: can_malloc_def block_size_for_def not_le)
qed

lemma malloc_fails:
  assumes hr: "heap_rep g s" and sz: "unat sz \<le> 65535 * 65536" and src: "\<not> can_malloc g s t sz"
  shows "\<exists>msg \<in> {''out of space'', ''space runs out!''}. do_malloc t sz s = Inl (AssertFail msg)"
proof (cases "sz \<le> MAX_SZ")
  case True
  then show ?thesis
    using malloc_small_exhausted [OF hr True] src by (simp add: can_malloc_def)
next
  case False
  then show ?thesis
    using malloc_large [OF hr _ sz, of t] src by (auto simp: can_malloc_def not_le split: if_splits)
qed

lemma free_result:
  assumes hr: "heap_rep g s" and p: "(p, n) \<in> live g s"
  shows "\<exists>g' s'. do_free t p s = Inr s' \<and> free_post g s n p g' s'"
proof -
  obtain k i where b: "(k, i) \<in> alive g" "p = block_addr_of g s (k, i)" "n = block_size_of g k"
    using p by (auto simp: live_def)
  consider (small) c where "a_kind g k = Small c" | (large) m where "a_kind g k = Large m" "i = 0"
    using b(1) by (auto simp: alive_iff)
  then show ?thesis
  proof cases
    case small
    then show ?thesis
      using free_small [OF hr b(1) small, of t] b by (auto simp: block_addr_of_def block_size_of_def block_at_def)
  next
    case large
    then show ?thesis
      using free_large [OF hr _ large(1), of t] b by (simp add: block_addr_of_def block_size_of_def)
  qed
qed

subsection \<open>Classes are told apart by their block sizes\<close>

lemma bsz_inject:
  assumes "1 \<le> c" "c < 40" "1 \<le> c'" "c' < 40" and "bsz c = bsz c'"
  shows "c = c'"
proof -
  have "distinct (map fst class_table)" by (simp add: class_table_def)
  moreover have "map fst class_table ! (c - 1) = map fst class_table ! (c' - 1)"
    using class_facts(6) [OF assms(1,2)] class_facts(6) [OF assms(3,4)] assms
    by (simp add: length_class_table) (metis fst_conv)
  ultimately have "c - 1 = c' - 1"
    using assms nth_eq_iff_index_eq [of "map fst class_table" "c - 1" "c' - 1"] by (simp add: length_class_table)
  then show ?thesis using assms(1,3) by simp
qed

lemma live_small:
  assumes hr: "heap_rep g s" and "(p, bsz c) \<in> live g s" and c: "1 \<le> c" "c < 40"
  shows "\<exists>k i. (k, i) \<in> alive g \<and> a_kind g k = Small c \<and> p = block_at s c k i"
proof -
  have inv: "ainv g" using hr by (simp add: heap_rep_def)
  obtain k i where b: "(k, i) \<in> alive g" "p = block_addr_of g s (k, i)" "bsz c = block_size_of g k"
    using assms(2) by (auto simp: live_def)
  have kv: "sb_valid g k" using b(1) by (simp add: alive_iff)
  have "a_kind g k \<noteq> Large m" for m
  proof
    assume k: "a_kind g k = Large m"
    then show False
      using b(3) class_facts(2) [OF c] ainv_large(1) [OF inv kv k] by (simp add: block_size_of_def)
  qed
  then obtain c' where c': "a_kind g k = Small c'" using b(1) by (auto simp: alive_iff)
  then have "c' = c"
    using bsz_inject [OF ainv_small(1,2) [OF inv kv c'] c] b(3) by (simp add: block_size_of_def)
  then have k: "a_kind g k = Small c" using c' by simp
  then have "p = block_at s c k i" using b(2) by (simp add: block_addr_of_def block_size_of_def block_at_def)
  then show ?thesis using b(1) k by blast
qed

subsection \<open>Properties\<close>

text \<open>
  C1. Allocation. On a well-formed heap a request of up to \<open>2 ^ 32 - 2 ^ 16\<close> bytes, of a thread
  whose cache, partial list or region can serve it, succeeds. The block it returns is
  aligned to 8 bytes, not null, at least as large as the request, and does not overlap any
  live block; it becomes live and nothing else does; no byte of a live block and no root
  changes; and the heap is well-formed again.
\<close>

theorem do_malloc_correct:
  assumes "heap_rep g s" and "unat sz \<le> 65535 * 65536" and "can_malloc g s t sz"
  shows "\<exists>p n g' s'. do_malloc t sz s = Inr (p, s')
    \<and> p \<noteq> 0 \<and> unat p mod 8 = 0 \<and> unat sz \<le> n \<and> bytes (p, n) \<inter> live_bytes g s = {}
    \<and> heap_rep g' s' \<and> live g' s' = insert (p, n) (live g s)
    \<and> (\<forall>a \<in> live_bytes g s. mem s' a = mem s a) \<and> roots s' = roots s"
proof -
  obtain p g' s' where p: "do_malloc t sz s = Inr (p, s')" "malloc_post g s (block_size_for sz) p g' s'"
    using malloc_result [OF assms] by blast
  have "heap_rep g' s'" "(p, block_size_for sz) \<in> live g' s'" using p(2) by (simp_all add: malloc_post_def)
  from live_props(2,4) [OF this] show ?thesis
    using p block_size_for_le [of sz]
    by (intro exI [of _ p] exI [of _ "block_size_for sz"] exI [of _ g'] exI [of _ s']) (auto simp: malloc_post_def)
qed

lemma sample_can_malloc: "sz \<le> MAX_SZ \<Longrightarrow> can_malloc a_init sample_heap t sz"
  by (simp add: can_malloc_def sb_room_def a_init_simps)

lemma sample_live [simp]: "live a_init s = {}" "live_bytes a_init s = {}"
  by (simp_all add: live_def live_bytes_def a_init_ok(2))

theorem do_malloc_correct_witness:
  "\<exists>p n g' s'. do_malloc 0 100 sample_heap = Inr (p, s') \<and> p \<noteq> 0 \<and> unat p mod 8 = 0
    \<and> 100 \<le> n \<and> heap_rep g' s' \<and> live g' s' = {(p, n)} \<and> roots s' = roots sample_heap"
  using do_malloc_correct [OF sample_heap_rep(1) _ sample_can_malloc, of 100 0] by auto

text \<open>
  C2. Deallocation. Freeing a live block always succeeds, whatever the state of the cache: that
  block is no longer live, every other one still is, none of their bytes and no root changes,
  and the heap is well-formed again.
\<close>

theorem do_free_correct:
  assumes "heap_rep g s" and "(p, n) \<in> live g s"
  shows "\<exists>g' s'. do_free t p s = Inr s' \<and> heap_rep g' s' \<and> live g' s' = live g s - {(p, n)}
    \<and> (\<forall>a \<in> live_bytes g' s'. mem s' a = mem s a) \<and> roots s' = roots s"
  using free_result [OF assms, of t] by (auto simp: free_post_def)

lemma sample_block: "\<exists>p n g s. do_malloc 0 100 sample_heap = Inr (p, s) \<and> heap_rep g s \<and> live g s = {(p, n)} \<and> 100 \<le> n"
proof -
  obtain p g s where "do_malloc 0 100 sample_heap = Inr (p, s)" "malloc_post a_init sample_heap (block_size_for 100) p g s"
    using malloc_result [OF sample_heap_rep(1) _ sample_can_malloc, of 100 0] by auto
  then show ?thesis using block_size_for_le [of 100] by (auto simp: malloc_post_def)
qed

theorem do_free_correct_witness:
  "\<exists>p n g s g' s'. do_malloc 0 100 sample_heap = Inr (p, s) \<and> live g s = {(p, n)}
    \<and> do_free 1 p s = Inr s' \<and> heap_rep g' s' \<and> live g' s' = {}"
proof -
  obtain p n g s where s: "do_malloc 0 100 sample_heap = Inr (p, s)" "heap_rep g s" "live g s = {(p, n)}"
    using sample_block by blast
  then show ?thesis using do_free_correct [OF s(2), of p n 1] by fastforce
qed

text \<open>
  C10. Exhaustion. When none of the sources has memory for a request of up to \<open>2 ^ 32 - 2 ^ 16\<close>
  bytes, allocation stops with one of the two out-of-space assertions; no other assertion of
  the allocator fails and no loop runs out of fuel. Larger requests are outside: the size of
  their block does not fit the 32 bits of the descriptor, and rounding a size close to \<open>2 ^ 64\<close>
  up to whole superblocks wraps around to a small one.
\<close>

theorem do_malloc_exhausted:
  assumes "heap_rep g s" and "unat sz \<le> 65535 * 65536" and "\<not> can_malloc g s t sz"
  shows "do_malloc t sz s = Inl (AssertFail (if sz \<le> MAX_SZ then ''out of space'' else ''space runs out!''))"
proof (cases "sz \<le> MAX_SZ")
  case True
  then show ?thesis using malloc_small_exhausted [OF assms(1) True] assms(3) by (simp add: can_malloc_def)
next
  case False
  then show ?thesis
    using malloc_large [OF assms(1) _ assms(2), of t] assms(3) by (auto simp: can_malloc_def not_le split: if_splits)
qed

theorem do_malloc_exhausted_witness:
  "do_malloc 0 4294901760 sample_heap = Inl (AssertFail ''space runs out!'')"
  using do_malloc_exhausted [OF sample_heap_rep(1), of 4294901760 0]
  by (simp add: can_malloc_def sample_heap_rep(3) a_init_simps)

text \<open>
  C25. Reuse. After a thread has freed a small block, its next request that falls into the same
  class gets that block back, without any other source of memory.
\<close>

theorem free_then_malloc:
  assumes "heap_rep g s" and "(p, block_size_for sz) \<in> live g s" and "sz \<le> MAX_SZ"
  shows "\<exists>s' s''. do_free t p s = Inr s' \<and> do_malloc t sz s' = Inr (p, s'')"
proof -
  define c where "c = get_sizeclass sz"
  have c: "1 \<le> c" "c < 40" using get_sizeclass_small [OF assms(3)] by (simp_all add: c_def)
  have "(p, bsz c) \<in> live g s" using assms(2,3) by (simp add: block_size_for_def c_def)
  then obtain k i where b: "(k, i) \<in> alive g" "a_kind g k = Small c" "p = block_at s c k i"
    using live_small [OF assms(1) _ c] by blast
  obtain g' s' bs where s': "do_free t p s = Inr s'" "free_post g s (bsz c) p g' s'" "a_cache g' t c = (k, i) # bs"
    using free_small [OF assms(1) b(1,2), of t] b(3) by blast
  have hr': "heap_rep g' s'" and geo: "same_geom s s'" using s'(2) by (simp_all add: free_post_def)
  obtain bin where "pop_block (mem s') (t_caches s' t c) = Inr (block_at s' c k i, bin)"
    using pop_rep [OF hr' c s'(3)] by blast
  moreover have "get_cache_block_num (t_caches s' t c) \<noteq> 0" using cache_count(3) [OF hr' c, of t] s'(3) by simp
  ultimately have "do_malloc t sz s' = Inr (p, set_cache t c bin s')"
    using leD [OF assms(3)] by (simp add: do_malloc_def c_def [symmetric] Let_def b(3) same_geomD [OF geo])
  with s'(1) show ?thesis by blast
qed

theorem free_then_malloc_witness:
  "\<exists>p s s' s''. do_malloc 0 100 sample_heap = Inr (p, s) \<and> do_free 0 p s = Inr s' \<and> do_malloc 0 100 s' = Inr (p, s'')"
proof -
  obtain p g s where s: "do_malloc 0 100 sample_heap = Inr (p, s)" "malloc_post a_init sample_heap (block_size_for 100) p g s"
    using malloc_result [OF sample_heap_rep(1) _ sample_can_malloc, of 100 0] by auto
  then have "heap_rep g s" "(p, block_size_for 100) \<in> live g s" by (simp_all add: malloc_post_def)
  from free_then_malloc [OF this, of 0] s(1) show ?thesis by auto
qed

text \<open>
  C11. Thread exit. Flushing all caches of a thread terminates and succeeds: the caches are
  empty, those of other threads are untouched, and the program's blocks, their bytes and
  the roots are as before.
\<close>

theorem public_flush_cache_correct:
  assumes "heap_rep g s"
  shows "\<exists>g' s'. public_flush_cache True t s = Inr s' \<and> heap_rep g' s' \<and> live g' s' = live g s
    \<and> (\<forall>a \<in> live_bytes g s. mem s' a = mem s a) \<and> roots s' = roots s
    \<and> (\<forall>c. 1 \<le> c \<and> c < MAX_SZ_IDX \<longrightarrow> get_cache_block_num (t_caches s' t c) = 0)
    \<and> (\<forall>t' c. t' \<noteq> t \<longrightarrow> a_cache g' t' c = a_cache g t' c)"
proof -
  obtain g' s' where s': "flush_classes [1..<40] t s = Inr s'" "quiet g s g' s'"
    "\<And>c. c \<in> set [1..<40] \<Longrightarrow> a_cache g' t c = []"
    "\<And>t' c'. t' \<noteq> t \<or> c' \<notin> set [1..<40] \<Longrightarrow> a_cache g' t' c' = a_cache g t' c'"
    using flush_classes_rep [OF assms, of "[1..<40]" t] by auto
  have "get_cache_block_num (t_caches s' t c) = 0" if "1 \<le> c" "c < 40" for c
    using cache_count(3) [OF quietD(1) [OF s'(2)] that, of t] s'(3) [of c] that by simp
  then show ?thesis
    using s' quietD [OF s'(2)] by (intro exI [of _ g'] exI [of _ s']) (simp add: public_flush_cache_def)
qed

theorem public_flush_cache_correct_witness:
  "\<exists>g' s'. public_flush_cache True 0 sample_heap = Inr s' \<and> heap_rep g' s' \<and> live g' s' = {}"
  using public_flush_cache_correct [OF sample_heap_rep(1), of 0] by auto

text \<open>
  C26. The jump table of \<^verbatim>\<open>compute_idx\<close> is integer division: for every small size class and every
  byte of a superblock it returns the position of the block that byte belongs to, and its
  assertions hold.
\<close>

theorem compute_idx_correct:
  assumes "1 \<le> c" and "c < MAX_SZ_IDX" and "off < unat SBSIZE" and "unat sb + unat SBSIZE < 2 ^ 64"
  shows "compute_idx sb (sb + of_nat off) c = Inr (of_nat (off div unat (sc_block_size (get_sizeclass_by_idx c))))"
  using compute_idx_eq [of c off sb] assms by (simp add: bsz_def)

theorem compute_idx_correct_witness:
  "compute_idx 0x7f0000010000 (0x7f0000010000 + of_nat 1000) 3 = Inr (of_nat (1000 div unat (sc_block_size (get_sizeclass_by_idx 3))))"
  by (rule compute_idx_correct) simp_all

lemma heap_rep_wb: "heap_rep g s \<Longrightarrow> wb s = []"
  by (simp add: heap_rep_def rep_def)

text \<open>The persistent descriptor of a live small block locates it.\<close>

lemma small_block_durable:
  assumes "heap_rep g s" and "(p, n) \<in> live g s" and "n \<le> unat MAX_SZ"
  shows "let v = pm_descs (pm s) (desc_lookup s p);
             sb = cross_get (rgs s) SB_IDX (d_superblock v) in
    unat (d_block_size v) = n \<and> unat sb \<le> unat p \<and> (unat p - unat sb) mod n = 0
    \<and> (unat p - unat sb) div n < unat (d_maxcount v)
    \<and> (\<exists>c. 1 \<le> c \<and> c < MAX_SZ_IDX \<and> n = unat (sc_block_size (get_sizeclass_by_idx c))
         \<and> cross_deref (rgs s) META_IDX (d_heap v) = heap_addr (base_md s) c)"
proof -
  have inv: "ainv g" and rep: "rep g s" using assms(1) by (simp_all add: heap_rep_def)
  note lay = repD(1) [OF rep]
  obtain k i where b: "(k, i) \<in> alive g" "p = block_addr_of g s (k, i)" "n = block_size_of g k"
    using assms(2) by (auto simp: live_def)
  have kv: "sb_valid g k" using b(1) by (simp add: alive_iff)
  have "a_kind g k \<noteq> Large m" for m
    using b(3) assms(3) ainv_large(1) [OF inv kv, of m] by (auto simp: block_size_of_def)
  then obtain c where c: "a_kind g k = Small c" "i < bnum c" using b(1) by (auto simp: alive_iff)
  note sd = small_desc [OF rep inv kv c(1)]
  have p: "p = block_at s c k i" "n = bsz c" using b c by (simp_all add: block_addr_of_def block_size_of_def block_at_def)
  have d: "desc_lookup s p = desc_at s k" unfolding p by (rule block_at_props(2) [OF lay sd(3,1,2) c(2)])
  have st: "desc_static s k c (bsz c) (bnum c) (pm_descs (pm s) (desc_at s k))"
    using repD(8) [OF rep kv] c(1) by (simp add: durable_rep_def)
  note get = desc_static_get [OF lay sd(4,3,2) st]
  have u: "unat p = unat (sb_at s k) + i * bsz c"
    using unat_block_at [OF lay sd(3,1,2) c(2)] unat_sb_at [OF lay, of k] sd(3) p by simp
  show ?thesis
    unfolding Let_def d get
    using st u sd(1,2) c(2) class_facts(1) [OF sd(1,2)]
    by (auto simp: desc_static_def p(2) bsz_def intro!: exI [of _ c])
qed

text \<open>
  C22. Small blocks are durable. When \<^verbatim>\<open>do_malloc\<close> returns a block for a request of up to
  \<^verbatim>\<open>MAX_SZ\<close> bytes, whichever source it came from, what recovery needs of it is in persistent
  memory: the durable copy of its descriptor names the superblock it lies in, the heap of the
  request's size class, the block size and the number of blocks, so that the block's position
  can be computed after a crash; and no flush is still waiting for a fence.
\<close>

theorem do_malloc_small_durable:
  assumes "heap_rep g s" and "sz \<le> MAX_SZ" and "do_malloc t sz s = Inr (p, s')"
  shows "let v = pm_descs (pm s') (desc_lookup s' p);
             sb = cross_get (rgs s') SB_IDX (d_superblock v);
             n = unat (sc_block_size (get_sizeclass_by_idx (get_sizeclass sz))) in
    unat (d_block_size v) = n \<and> unat sz \<le> n \<and> unat sb \<le> unat p \<and> (unat p - unat sb) mod n = 0
    \<and> (unat p - unat sb) div n < unat (d_maxcount v)
    \<and> cross_deref (rgs s') META_IDX (d_heap v) = heap_addr (base_md s') (get_sizeclass sz) \<and> wb s' = []"
proof -
  have can: "can_malloc g s t sz"
    using assms(3) malloc_small_exhausted [OF assms(1,2), of t] assms(2) by (auto simp: can_malloc_def)
  have "unat sz \<le> 65535 * 65536" using assms(2) by (simp add: word_le_nat_alt)
  then obtain g' where post: "malloc_post g s (block_size_for sz) p g' s'"
    using malloc_result [OF assms(1) _ can] assms(3) by auto
  have hr: "heap_rep g' s'" and lv: "(p, block_size_for sz) \<in> live g' s'" using post by (simp_all add: malloc_post_def)
  let ?c = "get_sizeclass sz"
  have c: "1 \<le> ?c" "?c < 40" using get_sizeclass_small [OF assms(2)] by simp_all
  have n: "block_size_for sz = bsz ?c" using assms(2) by (simp add: block_size_for_def)
  have "bsz ?c \<le> 14336" using class_facts(2) [OF c] by simp
  then obtain d where d: "1 \<le> d" "d < 40" "bsz ?c = bsz d"
    "cross_deref (rgs s') META_IDX (d_heap (pm_descs (pm s') (desc_lookup s' p))) = heap_addr (base_md s') d"
    using small_block_durable [OF hr lv] n by (auto simp: Let_def bsz_def)
  have "d = ?c" using bsz_inject [OF d(1,2) c] d(3) by simp
  then show ?thesis
    using small_block_durable [OF hr lv] n d(4) \<open>bsz ?c \<le> 14336\<close> block_size_for_le [of sz] heap_rep_wb [OF hr]
    by (simp add: Let_def bsz_def)
qed

theorem do_malloc_small_durable_witness:
  "\<exists>p s. do_malloc 0 100 sample_heap = Inr (p, s)
    \<and> unat (d_block_size (pm_descs (pm s) (desc_lookup s p))) = unat (sc_block_size (get_sizeclass_by_idx (get_sizeclass 100)))"
proof -
  obtain p n g s where s: "do_malloc 0 100 sample_heap = Inr (p, s)" using sample_block by blast
  then show ?thesis using do_malloc_small_durable [OF sample_heap_rep(1) _ s] by (auto simp: Let_def)
qed

text \<open>
  C23. A large block is not durable: when \<^verbatim>\<open>do_malloc\<close> returns one, for a request of up to
  \<open>2 ^ 32 - 2 ^ 16\<close> bytes, the persistent copy of its descriptor is still the empty one the constructor wrote, because \<^verbatim>\<open>FLUSH(&desc)\<close> flushes
  the line of the local variable. The volatile descriptor does describe the block.
\<close>

theorem large_block_not_durable:
  assumes "heap_rep g s" and "MAX_SZ < sz" and "unat sz \<le> 65535 * 65536" and "do_malloc t sz s = Inr (p, s')"
  shows "cross_is_null (d_heap (pm_descs (pm s') (desc_lookup s' p)))
    \<and> d_block_size (pm_descs (pm s') (desc_lookup s' p)) = 0 \<and> wb s' = []"
proof -
  obtain g' where "pm_descs (pm s') (desc_lookup s' p) = new_Descriptor (desc_lookup s' p)" "heap_rep g' s'"
    using malloc_large [OF assms(1-3), of t] assms(4) by (auto simp: malloc_post_def split: if_splits)
  then show ?thesis by (simp add: new_Descriptor_def cross_is_null_def heap_rep_def rep_def)
qed

theorem large_block_not_durable_witness:
  "\<exists>p s'. do_malloc 0 100000 sample_heap = Inr (p, s') \<and> cross_is_null (d_heap (pm_descs (pm s') (desc_lookup s' p)))"
proof -
  have "can_malloc a_init sample_heap 0 100000" by (simp add: can_malloc_def sample_heap_rep(3) a_init_simps)
  then obtain p s' where "do_malloc 0 100000 sample_heap = Inr (p, s')"
    using malloc_result [OF sample_heap_rep(1), of 100000 0] by auto
  then show ?thesis using large_block_not_durable [OF sample_heap_rep(1), of 100000 0 p s'] by auto
qed

text \<open>
  C24. Construction. On new regions with room for the first extension the constructor of
  \<^verbatim>\<open>BaseMeta\<close> succeeds and, once the address of the metadata is entered in the table of
  regions, gives a well-formed heap without live blocks, with null roots and marked dirty.
\<close>

theorem new_BaseMeta_correct:
  assumes "init_ready this s"
  shows "\<exists>g s'. new_BaseMeta this s = Inr s' \<and> heap_rep g (set_meta this s') \<and> live g (set_meta this s') = {}
    \<and> (\<forall>i < MAX_ROOTS. cross_is_null (roots s' i)) \<and> dirty_mtx s' = Mtx_held"
proof -
  obtain s' where "new_BaseMeta this s = Inr s'" "heap_rep a_init (set_meta this s')"
    "\<forall>i < 1024. roots s' i = 0" "dirty_mtx s' = Mtx_held" using new_BaseMeta_rep [OF assms] by blast
  then show ?thesis by (intro exI [of _ a_init] exI [of _ s']) (simp add: cross_is_null_def)
qed

theorem new_BaseMeta_correct_witness:
  "\<exists>g s'. new_BaseMeta sample_meta sample_state = Inr s' \<and> heap_rep g (set_meta sample_meta s') \<and> dirty_mtx s' = Mtx_held"
  using new_BaseMeta_correct [OF sample_ready] by blast

end
