(* ===== verification/AllocSpec.thy ===== *)
theory AllocSpec
  imports Memory
begin

text \<open>
  The contract between an allocator and its clients. The specification knows the blocks a program
  holds and the contents of memory; a step allocates, is refused, frees, writes or ends a thread.
  An implementation is a step relation on states of its own, and the locale \<open>allocator\<close> is the
  simulation it owes: a program that keeps to the specification cannot tell the two apart.
\<close>

subsection \<open>Specification\<close>

datatype event = EMalloc u64 addr | ERefuse u64 | EFree addr | EWrite addr byte | EExit

record spec =
  owned :: "(addr \<times> nat) set"
  content :: memory

definition held :: "spec \<Rightarrow> addr set" where
  "held A = (\<Union>b \<in> owned A. bytes b)"

inductive spec_step :: "spec \<Rightarrow> event \<Rightarrow> spec \<Rightarrow> bool" where
  malloc: "spec_step A (EMalloc sz p) \<lparr>owned = insert (p, n) (owned A), content = m\<rparr>"
    if "unat sz \<le> n" and "p \<noteq> 0" and "unat p mod 8 = 0" and "bytes (p, n) \<inter> held A = {}"
      and "\<And>a. a \<in> held A \<Longrightarrow> m a = content A a"
| refuse: "spec_step A (ERefuse sz) (A\<lparr>content := m\<rparr>)" if "\<And>a. a \<in> held A \<Longrightarrow> m a = content A a"
| free_null: "spec_step A (EFree 0) A"
| free: "spec_step A (EFree p) \<lparr>owned = owned A - {(p, n)}, content = m\<rparr>"
    if "(p, n) \<in> owned A" and "\<And>a b. b \<in> owned A - {(p, n)} \<Longrightarrow> a \<in> bytes b \<Longrightarrow> m a = content A a"
| store: "spec_step A (EWrite a v) (A\<lparr>content := (content A)(a := v)\<rparr>)" if "a \<in> held A"
| leave: "spec_step A EExit (A\<lparr>content := m\<rparr>)" if "\<And>a. a \<in> held A \<Longrightarrow> m a = content A a"

text \<open>What a program may do in a state of the specification.\<close>

fun allowed :: "spec \<Rightarrow> event \<Rightarrow> bool" where
  "allowed A (EMalloc sz p) = (unat sz \<le> 65535 * 65536)"
| "allowed A (ERefuse sz) = (unat sz \<le> 65535 * 65536)"
| "allowed A (EFree p) = (p = 0 \<or> (\<exists>n. (p, n) \<in> owned A))"
| "allowed A (EWrite a v) = (a \<in> held A)"
| "allowed A EExit = True"

inductive spec_run :: "spec \<Rightarrow> event list \<Rightarrow> spec \<Rightarrow> bool" where
  start: "spec_run A [] A"
| step: "spec_run A (es @ [e]) A2" if "spec_run A es A1" and "spec_step A1 e A2"

text \<open>A program is correct for the specification when whatever it does next is allowed.\<close>

definition correct_client :: "spec \<Rightarrow> event list \<Rightarrow> bool" where
  "correct_client A es \<longleftrightarrow> (\<forall>es1 e es2 A'. es = es1 @ e # es2 \<and> spec_run A es1 A' \<longrightarrow> allowed A' e)"

lemma correct_client_snoc:
  assumes "correct_client A (es @ [e])"
  shows "correct_client A es" and "\<And>A'. spec_run A es A' \<Longrightarrow> allowed A' e"
  using assms by (auto simp: correct_client_def)

lemma spec_run_Nil: "spec_run A [] A' \<longleftrightarrow> A' = A"
  by (auto elim: spec_run.cases intro: spec_run.start)

lemma spec_run_single: "spec_run A [e] A' \<longleftrightarrow> spec_step A e A'"
proof
  assume "spec_run A [e] A'"
  then show "spec_step A e A'" by (cases rule: spec_run.cases) (auto simp: spec_run_Nil)
qed (use spec_run.step [of A "[]" A e A'] spec_run.start in simp)

lemma malloc_free_correct:
  assumes "unat sz \<le> 65535 * 65536"
  shows "correct_client A [EMalloc sz p, EFree p]"
  unfolding correct_client_def
proof (intro allI impI, elim conjE)
  fix es1 e es2 A' assume es: "[EMalloc sz p, EFree p] = es1 @ e # es2" and run: "spec_run A es1 A'"
  from es consider "es1 = []" "e = EMalloc sz p" | "es1 = [EMalloc sz p]" "e = EFree p"
    by (cases es1; cases "tl es1") auto
  then show "allowed A' e"
  proof cases
    case 2
    then have "spec_step A (EMalloc sz p) A'" using run by (simp add: spec_run_single)
    then show ?thesis using 2 by (cases rule: spec_step.cases) auto
  qed (use assms in simp)
qed

subsection \<open>Implementations\<close>

inductive steps :: "('s \<Rightarrow> event \<Rightarrow> 's \<Rightarrow> bool) \<Rightarrow> 's \<Rightarrow> event list \<Rightarrow> 's \<Rightarrow> bool" for stp where
  start: "steps stp s [] s"
| step: "steps stp s (es @ [e]) s2" if "steps stp s es s1" and "stp s1 e s2"

lemma steps_pair:
  assumes "stp s e1 s1" and "stp s1 e2 s2"
  shows "steps stp s [e1, e2] s2"
proof -
  have "steps stp s ([] @ [e1]) s1" by (rule steps.step, rule steps.start, rule assms(1))
  then have "steps stp s (([] @ [e1]) @ [e2]) s2" by (rule steps.step) (rule assms(2))
  then show ?thesis by simp
qed

locale allocator =
  fixes stp :: "'s \<Rightarrow> event \<Rightarrow> 's \<Rightarrow> bool"
    and sim :: "'s \<Rightarrow> spec \<Rightarrow> bool"
  assumes sim_step: "sim s A \<Longrightarrow> allowed A e \<Longrightarrow> stp s e s' \<Longrightarrow> \<exists>A'. spec_step A e A' \<and> sim s' A'"
begin

lemma sim_run:
  assumes "steps stp s es s'" and "sim s A" and "correct_client A es"
  shows "\<exists>A'. spec_run A es A' \<and> sim s' A'"
  using assms
proof (induction rule: steps.induct)
  case (start s)
  then show ?case using spec_run.start by blast
next
  case (step s es s1 e s2)
  note cc = correct_client_snoc [OF step.prems(2)]
  obtain A1 where 1: "spec_run A es A1" "sim s1 A1" using step.IH [OF step.prems(1) cc(1)] by blast
  show ?case
    using sim_step [OF 1(2) cc(2) [OF 1(1)] step.hyps(2)] spec_run.step [OF 1(1)] by blast
qed

end

end
