(* ===== verification/Client.thy ===== *)
theory Client
  imports HeapSpec AllocSpec
begin

text \<open>
  ralloc as its clients see it: a step runs \<^verbatim>\<open>do_malloc\<close>, \<^verbatim>\<open>do_free\<close> or the flush at thread exit on
  the state of the heap, or writes into memory. A forward simulation shows that it implements the
  contract of an allocator.
\<close>

subsection \<open>Implementation\<close>

inductive heap_step :: "ralloc_state \<Rightarrow> event \<Rightarrow> ralloc_state \<Rightarrow> bool" where
  call_malloc: "heap_step s (EMalloc sz p) s'" if "do_malloc t sz s = Inr (p, s')"
| call_free: "heap_step s (EFree p) s'" if "do_free t p s = Inr s'"
| program_write: "heap_step s (EWrite a v) (s\<lparr>mem := (mem s)(a := v)\<rparr>)"
| thread_exit: "heap_step s EExit s'" if "public_flush_cache True t s = Inr s'"

inductive_cases heap_step_malloc: "heap_step s (EMalloc sz p) s'"
inductive_cases heap_step_free: "heap_step s (EFree p) s'"
inductive_cases heap_step_write: "heap_step s (EWrite a v) s'"
inductive_cases heap_step_exit: "heap_step s EExit s'"

abbreviation heap_run :: "ralloc_state \<Rightarrow> event list \<Rightarrow> ralloc_state \<Rightarrow> bool" where
  "heap_run \<equiv> steps heap_step"

subsection \<open>Simulation\<close>

definition sim :: "aheap \<Rightarrow> ralloc_state \<Rightarrow> spec \<Rightarrow> bool" where
  "sim g s A \<longleftrightarrow> heap_rep g s \<and> owned A = live g s \<and> (\<forall>a \<in> live_bytes g s. content A a = mem s a)"

lemma sim_held: "sim g s A \<Longrightarrow> held A = live_bytes g s"
  by (simp add: sim_def held_def live_bytes_def)

lemma sim_malloc:
  assumes sim: "sim g s A" and sz: "unat sz \<le> 65535 * 65536" and m: "do_malloc t sz s = Inr (p, s')"
  shows "\<exists>g' A'. spec_step A (EMalloc sz p) A' \<and> sim g' s' A'"
proof -
  have hr: "heap_rep g s" using sim by (simp add: sim_def)
  have "can_malloc g s t sz" using malloc_fails [OF hr sz] m by fastforce
  then obtain g' where g': "malloc_post g s (block_size_for sz) p g' s'"
    using malloc_result [OF hr sz] m by fastforce
  then have hr': "heap_rep g' s'" and lv: "live g' s' = insert (p, block_size_for sz) (live g s)" by (simp_all add: malloc_post_def)
  note lp = live_props [OF hr', of p "block_size_for sz"]
  let ?A' = "\<lparr>owned = insert (p, block_size_for sz) (owned A), content = mem s'\<rparr>"
  have "spec_step A (EMalloc sz p) ?A'"
    using g' lp lv block_size_for_le [of sz] sim sim_held [OF sim]
    by (intro spec_step.malloc) (auto simp: malloc_post_def sim_def)
  moreover have "sim g' s' ?A'" using hr' lv sim by (simp add: sim_def)
  ultimately show ?thesis by blast
qed

lemma sim_free:
  assumes sim: "sim g s A" and p: "p = 0 \<or> (\<exists>n. (p, n) \<in> owned A)" and f: "do_free t p s = Inr s'"
  shows "\<exists>g' A'. spec_step A (EFree p) A' \<and> sim g' s' A'"
proof (cases "p = 0")
  case True
  then show ?thesis using f sim spec_step.free_null by (auto simp: do_free_def)
next
  case False
  have hr: "heap_rep g s" using sim by (simp add: sim_def)
  obtain n where n: "(p, n) \<in> live g s" using p False sim by (auto simp: sim_def)
  obtain g' where g': "free_post g s n p g' s'" using free_result [OF hr n, of t] f by auto
  let ?A' = "\<lparr>owned = owned A - {(p, n)}, content = mem s'\<rparr>"
  have "spec_step A (EFree p) ?A'"
  proof (rule spec_step.free)
    fix a b assume b: "b \<in> owned A - {(p, n)}" "a \<in> bytes b"
    then have "a \<in> live_bytes g' s'" "a \<in> live_bytes g s"
      using g' sim by (auto simp: free_post_def sim_def live_bytes_def)
    then show "mem s' a = content A a" using g' sim by (simp add: free_post_def sim_def)
  qed (use n sim in \<open>simp add: sim_def\<close>)
  moreover have "sim g' s' ?A'" using g' sim by (simp add: sim_def free_post_def)
  ultimately show ?thesis by blast
qed

lemma sim_write:
  assumes sim: "sim g s A" and a: "a \<in> held A"
  shows "spec_step A (EWrite a v) (A\<lparr>content := (content A)(a := v)\<rparr>)"
    and "sim g (s\<lparr>mem := (mem s)(a := v)\<rparr>) (A\<lparr>content := (content A)(a := v)\<rparr>)"
proof -
  show "spec_step A (EWrite a v) (A\<lparr>content := (content A)(a := v)\<rparr>)" using a by (rule spec_step.store)
  have "heap_rep g (s\<lparr>mem := (mem s)(a := v)\<rparr>)"
    using sim sim_held [OF sim] a by (intro user_write) (auto simp: sim_def)
  then show "sim g (s\<lparr>mem := (mem s)(a := v)\<rparr>) (A\<lparr>content := (content A)(a := v)\<rparr>)"
    using sim live_cong [of "s\<lparr>mem := (mem s)(a := v)\<rparr>" s g] by (simp add: sim_def)
qed

lemma sim_exit:
  assumes sim: "sim g s A" and f: "public_flush_cache True t s = Inr s'"
  shows "\<exists>g' A'. spec_step A EExit A' \<and> sim g' s' A'"
proof -
  have hr: "heap_rep g s" using sim by (simp add: sim_def)
  obtain g' where g': "quiet g s g' s'"
    using flush_classes_rep [OF hr, of "[1..<40]" t] f by (auto simp: public_flush_cache_def)
  have "spec_step A EExit (A\<lparr>content := mem s'\<rparr>)"
    using quietD(9) [OF g'] sim sim_held [OF sim] by (intro spec_step.leave) (simp add: sim_def)
  moreover have "sim g' s' (A\<lparr>content := mem s'\<rparr>)" using quietD(1,6) [OF g'] sim by (simp add: sim_def)
  ultimately show ?thesis by blast
qed

lemma sim_step:
  assumes "sim g s A" and "allowed A e" and "heap_step s e s'"
  shows "\<exists>g' A'. spec_step A e A' \<and> sim g' s' A'"
  using assms(3)
proof cases
  case (call_malloc t sz p)
  then show ?thesis using sim_malloc [OF assms(1)] assms(2) by auto
next
  case (call_free t p)
  then show ?thesis using sim_free [OF assms(1)] assms(2) by auto
next
  case (program_write a v)
  then show ?thesis using sim_write [OF assms(1), of a v] assms(2) by auto
next
  case (thread_exit t)
  then show ?thesis using sim_exit [OF assms(1)] by auto
qed

interpretation ralloc_client: allocator heap_step "\<lambda>s A. \<exists>g. sim g s A"
  by unfold_locales (use sim_step in blast)

subsection \<open>Properties\<close>

text \<open>
  C5. Refinement. Every run of the allocator from a new heap, for a program that is correct
  against the specification (it frees and writes its own blocks only, and asks for at most
  \<open>2 ^ 32 - 2 ^ 16\<close> bytes at a time), is a run of the specification that ends with the same blocks
  and the same contents in them, whatever threads the calls come from.
\<close>

theorem heap_refines_spec:
  assumes "init_ready this s0" and "new_BaseMeta this s0 = Inr s1" and "heap_run (set_meta this s1) es s"
    and "correct_client \<lparr>owned = {}, content = mem (set_meta this s1)\<rparr> es"
  shows "\<exists>g A. spec_run \<lparr>owned = {}, content = mem (set_meta this s1)\<rparr> es A
    \<and> heap_rep g s \<and> owned A = live g s \<and> (\<forall>a \<in> held A. content A a = mem s a)"
proof -
  have "heap_rep a_init (set_meta this s1)" using new_BaseMeta_rep [OF assms(1)] assms(2) by auto
  then have "\<exists>g. sim g (set_meta this s1) \<lparr>owned = {}, content = mem (set_meta this s1)\<rparr>"
    by (intro exI [of _ a_init]) (simp add: sim_def)
  from ralloc_client.sim_run [OF assms(3) this assms(4)] show ?thesis using sim_held by (fastforce simp: sim_def)
qed

lemma sample_run:
  "\<exists>s1 p s. new_BaseMeta sample_meta sample_state = Inr s1
    \<and> heap_run (set_meta sample_meta s1) [EMalloc 100 p, EFree p] s"
proof -
  obtain s1 where s1: "new_BaseMeta sample_meta sample_state = Inr s1" using new_BaseMeta_rep [OF sample_ready] by blast
  then have sh: "set_meta sample_meta s1 = sample_heap" by (simp add: sample_heap_def)
  obtain p n g s where s: "do_malloc 0 100 sample_heap = Inr (p, s)" "heap_rep g s" "live g s = {(p, n)}"
    using sample_block by blast
  obtain s' where s': "do_free 1 p s = Inr s'" using free_result [OF s(2), of p n 1] s(3) by auto
  have "heap_run (set_meta sample_meta s1) [EMalloc 100 p, EFree p] s'"
    unfolding sh by (rule steps_pair [where stp = heap_step, OF heap_step.call_malloc [OF s(1)] heap_step.call_free [OF s']])
  then show ?thesis using s1 by blast
qed

theorem heap_refines_spec_witness:
  "\<exists>s1 p s g A. new_BaseMeta sample_meta sample_state = Inr s1
    \<and> heap_run (set_meta sample_meta s1) [EMalloc 100 p, EFree p] s
    \<and> spec_run \<lparr>owned = {}, content = mem (set_meta sample_meta s1)\<rparr> [EMalloc 100 p, EFree p] A
    \<and> heap_rep g s \<and> owned A = live g s"
proof -
  obtain s1 p s where s: "new_BaseMeta sample_meta sample_state = Inr s1"
    "heap_run (set_meta sample_meta s1) [EMalloc 100 p, EFree p] s" using sample_run by blast
  from heap_refines_spec [OF sample_ready s malloc_free_correct] s show ?thesis by auto
qed

text \<open>
  C6. Progress. In every state such a program reaches, a free of a block it holds returns, the
  end of a thread returns, and an allocation of up to \<open>2 ^ 32 - 2 ^ 16\<close> bytes returns or stops
  for lack of space: no other assertion fails and no loop of the allocator runs out of its bound.
\<close>

theorem client_progress:
  assumes "init_ready this s0" and "new_BaseMeta this s0 = Inr s1" and "heap_run (set_meta this s1) es s"
    and "correct_client \<lparr>owned = {}, content = mem (set_meta this s1)\<rparr> es"
  shows "\<exists>A. spec_run \<lparr>owned = {}, content = mem (set_meta this s1)\<rparr> es A
    \<and> (\<forall>t p n. (p, n) \<in> owned A \<longrightarrow> (\<exists>s'. do_free t p s = Inr s'))
    \<and> (\<forall>t. \<exists>s'. public_flush_cache True t s = Inr s')
    \<and> (\<forall>t sz. unat sz \<le> 65535 * 65536 \<longrightarrow> (\<exists>p s'. do_malloc t sz s = Inr (p, s'))
         \<or> (\<exists>msg \<in> {''out of space'', ''space runs out!''}. do_malloc t sz s = Inl (AssertFail msg)))"
proof -
  have "heap_rep a_init (set_meta this s1)" using new_BaseMeta_rep [OF assms(1)] assms(2) by auto
  then have "\<exists>g. sim g (set_meta this s1) \<lparr>owned = {}, content = mem (set_meta this s1)\<rparr>"
    by (intro exI [of _ a_init]) (simp add: sim_def)
  from ralloc_client.sim_run [OF assms(3) this assms(4)] obtain g A where
    A: "spec_run \<lparr>owned = {}, content = mem (set_meta this s1)\<rparr> es A" and sim: "sim g s A" by blast
  have hr: "heap_rep g s" and bl: "owned A = live g s" using sim by (simp_all add: sim_def)
  have "\<exists>s'. do_free t p s = Inr s'" if "(p, n) \<in> owned A" for t p n
    using free_result [OF hr, of p n t] that bl by auto
  moreover have "\<exists>s'. public_flush_cache True t s = Inr s'" for t
    using flush_classes_rep [OF hr, of "[1..<40]" t] by (auto simp: public_flush_cache_def)
  moreover have "(\<exists>p s'. do_malloc t sz s = Inr (p, s'))
      \<or> (\<exists>msg \<in> {''out of space'', ''space runs out!''}. do_malloc t sz s = Inl (AssertFail msg))"
    if "unat sz \<le> 65535 * 65536" for t sz
    using malloc_result [OF hr that, of t] malloc_fails [OF hr that, of t] by (cases "can_malloc g s t sz") auto
  ultimately show ?thesis using A by blast
qed

theorem client_progress_witness:
  "\<exists>s1 p s s'. new_BaseMeta sample_meta sample_state = Inr s1
    \<and> heap_run (set_meta sample_meta s1) [EMalloc 100 p, EFree p] s \<and> public_flush_cache True 0 s = Inr s'"
proof -
  obtain s1 p s where s: "new_BaseMeta sample_meta sample_state = Inr s1"
    "heap_run (set_meta sample_meta s1) [EMalloc 100 p, EFree p] s" using sample_run by blast
  have "unat (100 :: u64) \<le> 65535 * 65536" by simp
  from client_progress [OF sample_ready s malloc_free_correct [OF this]] obtain s' where
    "public_flush_cache True 0 s = Inr s'" by blast
  then show ?thesis using s by blast
qed

end
