(* ===== verification/RegionConc.thy ===== *)
theory RegionConc
  imports RegionManager
begin

text \<open>
  Concurrent extension of one region. Any number of threads run
  \<^verbatim>\<open>__nvm_region_allocator\<close>; a step is one thread reading the frontier and computing its
  piece (\<open>region_prepare\<close>), or performing its exchange (\<open>region_commit\<close>), which fails when
  another thread has moved the frontier in between. The pieces handed out never overlap, as long
  as no thread asks for \<open>2 ^ 62\<close> bytes or more.
\<close>

record region_conc =
  rc_rm :: RegionManager
  rc_plan :: "nat \<Rightarrow> (addr \<times> addr \<times> addr) option"
  rc_got :: "(addr \<times> addr) list"

datatype region_act = Prepare nat u64 u64 | Exchange nat

inductive region_step :: "region_conc \<Rightarrow> region_act \<Rightarrow> region_conc \<Rightarrow> bool" where
  refuse: "rc_plan s t = None \<Longrightarrow> region_prepare (rc_rm s) alignment sz = None \<Longrightarrow>
     region_step s (Prepare t alignment sz) s"
| prepare: "rc_plan s t = None \<Longrightarrow> region_prepare (rc_rm s) alignment sz = Some plan \<Longrightarrow>
     region_step s (Prepare t alignment sz) (s\<lparr>rc_plan := (rc_plan s)(t := Some plan)\<rparr>)"
| commit: "rc_plan s t = Some (old, res, nxt) \<Longrightarrow>
     region_commit (old, res, nxt) (rc_rm s) = (True, rm') \<Longrightarrow>
     region_step s (Exchange t) (s\<lparr>rc_rm := rm', rc_plan := (rc_plan s)(t := None),
                       rc_got := (res, nxt) # rc_got s\<rparr>)"
| fail: "rc_plan s t = Some (old, res, nxt) \<Longrightarrow>
     region_commit (old, res, nxt) (rc_rm s) = (False, rm') \<Longrightarrow>
     region_step s (Exchange t) (s\<lparr>rc_rm := rm', rc_plan := (rc_plan s)(t := None)\<rparr>)"

inductive region_run :: "RegionManager \<Rightarrow> region_act list \<Rightarrow> region_conc \<Rightarrow> bool" for rm where
  start: "region_run rm [] \<lparr>rc_rm = rm, rc_plan = (\<lambda>_. None), rc_got = []\<rparr>"
| step: "region_run rm as s \<Longrightarrow> region_step s a s' \<Longrightarrow> region_run rm (as @ [a]) s'"

text \<open>The requests for which \<open>next\<close> cannot wrap around.\<close>

fun no_wrap :: "region_act \<Rightarrow> bool" where
  "no_wrap (Prepare t alignment sz) = (unat sz < 2 ^ 62)"
| "no_wrap (Exchange t) = True"

text \<open>
  The invariant: a thread's plan starts at or above a frontier the region once had, which
  is never above the present one; the pieces handed out are listed from the most recent,
  each above the ones before it and below the frontier.
\<close>

definition plan_ok :: "RegionManager \<Rightarrow> addr \<times> addr \<times> addr \<Rightarrow> bool" where
  "plan_ok rm plan = (case plan of (old, res, nxt) \<Rightarrow>
     unat (base_addr rm) + 4096 \<le> unat old \<and> unat old \<le> unat (curr_addr rm)
     \<and> unat old \<le> unat res \<and> unat res < unat nxt
     \<and> unat nxt \<le> unat (base_addr rm) + unat (FILESIZE rm))"

definition above :: "addr \<times> addr \<Rightarrow> addr \<times> addr \<Rightarrow> bool" where
  "above p q = (unat (snd q) \<le> unat (fst p))"

definition region_inv :: "RegionManager \<Rightarrow> region_conc \<Rightarrow> bool" where
  "region_inv rm s \<longleftrightarrow>
     region_ok (rc_rm s) \<and> base_addr (rc_rm s) = base_addr rm \<and> FILESIZE (rc_rm s) = FILESIZE rm
     \<and> (\<forall>t plan. rc_plan s t = Some plan \<longrightarrow> plan_ok (rc_rm s) plan)
     \<and> sorted_wrt above (rc_got s)
     \<and> (\<forall>p \<in> set (rc_got s). unat (base_addr rm) + 4096 \<le> unat (fst p) \<and> unat (fst p) < unat (snd p)
          \<and> unat (snd p) \<le> unat (curr_addr (rc_rm s)))"

text \<open>The test of \<^verbatim>\<open>__nvm_region_allocator\<close> for powers of two bounds the alignment.\<close>

lemma alignment_bound:
  assumes "al AND (NOT al + 1) = (al :: u64)" and "al \<noteq> 0"
  shows "2 * unat al \<le> 2 ^ 64"
proof -
  have "NOT al + 1 = - al" by (simp add: minus_eq_not_plus_1)
  then have "al \<le> - al" using assms(1) word_and_le1 [of al "- al"] by simp
  moreover have "unat (- al) = 2 ^ 64 - unat al"
    using unat_sub_if' [of 0 al] assms(2) by (simp add: unat_eq_zero)
  ultimately show ?thesis using unat_lt64 [of al] by (simp add: word_le_nat_alt)
qed

lemma region_prepare_plan_ok:
  assumes ok: "region_ok rm" and sz: "unat sz < 2 ^ 62" and prep: "region_prepare rm al sz = Some plan"
  shows "plan_ok rm plan"
proof -
  define c adj where "c = curr_addr rm" and "adj = c AND (al - 1)"
  define res where "res = (if adj \<noteq> 0 then c + (al - adj) else c)"
  have g: "0 < sz" "al AND (NOT al + 1) = al" "8 \<le> al" and nxt: "res + sz \<le> base_addr rm + FILESIZE rm"
    and plan: "plan = (c, res, res + sz)"
    using prep by (auto simp: region_prepare_def Let_def c_def adj_def res_def word_neq_0_conv split: if_splits)
  have al: "0 < unat al" "2 * unat al \<le> 2 ^ 64" using alignment_bound [OF g(2)] g(3) by (force simp: word_le_nat_alt)+
  have c47: "unat c < 2 ^ 47" using region_okD(3,6) [OF ok] by (simp add: c_def)
  have "unat adj \<le> unat (al - 1)" using word_and_le1 [of c "al - 1"] by (simp add: adj_def word_le_nat_alt)
  moreover have "unat (al - 1) = unat al - 1" using g(3) by (subst unat_sub) (simp_all add: word_le_nat_alt)
  ultimately have "adj \<le> al" by (simp add: word_le_nat_alt)
  then have "unat (al - adj) \<le> unat al" by (simp add: unat_sub)
  then have r: "unat c \<le> unat res" "unat res < 2 ^ 47 + 2 ^ 63 + 1"
    using c47 al(2) unat_plus64 [of c "al - adj"] by (auto simp: res_def)
  then have "unat (res + sz) = unat res + unat sz" using sz by (intro unat_plus64) simp
  then show ?thesis
    using r(1) g(1) nxt region_okD(5) [OF ok] region_end_unat [OF ok]
    by (simp add: plan_ok_def plan c_def word_le_nat_alt word_less_nat_alt)
qed

lemma region_commit_cases:
  assumes "region_ok rm" and "plan_ok rm (old, res, nxt)"
    and "region_commit (old, res, nxt) rm = (b, rm')"
  shows "region_ok rm' \<and> base_addr rm' = base_addr rm \<and> FILESIZE rm' = FILESIZE rm
    \<and> (if b then old = curr_addr rm \<and> curr_addr rm' = nxt else curr_addr rm' = curr_addr rm)"
proof -
  have near: "near old (base_addr rm)" "near nxt (base_addr rm)"
    using assms(2) region_okD(6) [OF assms(1)]
    by (auto intro!: region_near [OF assms(1)] simp: plan_ok_def)
  have "region_ok (advance nxt rm)"
    using assms(2) by (intro region_ok_advance [OF assms(1)]) (auto simp: plan_ok_def)
  with region_commit_eq [OF assms(1) near(1), of res nxt] near(2) assms(1,3) show ?thesis
    by (auto split: if_splits)
qed

lemma plan_ok_mono:
  assumes "plan_ok rm plan" and "base_addr rm' = base_addr rm" and "FILESIZE rm' = FILESIZE rm"
    and "unat (curr_addr rm) \<le> unat (curr_addr rm')"
  shows "plan_ok rm' plan"
  using assms by (auto simp: plan_ok_def split: prod.splits)

lemma region_step_inv:
  assumes "region_step s a s'" and "region_inv rm s" and "no_wrap a"
  shows "region_inv rm s'"
  using assms
proof (induction rule: region_step.induct)
  case (refuse s t alignment sz)
  then show ?case by simp
next
  case (prepare s t alignment sz plan)
  then show ?case
    using region_prepare_plan_ok [of "rc_rm s" sz alignment plan] by (auto simp: region_inv_def)
next
  case (commit s t old res nxt rm')
  then have plan: "plan_ok (rc_rm s) (old, res, nxt)" and ok: "region_ok (rc_rm s)"
    by (auto simp: region_inv_def)
  from region_commit_cases [OF ok plan commit.hyps(2)]
  have rm': "region_ok rm'" "base_addr rm' = base_addr (rc_rm s)" "FILESIZE rm' = FILESIZE (rc_rm s)"
    "old = curr_addr (rc_rm s)" "curr_addr rm' = nxt" by auto
  have mono: "unat (curr_addr (rc_rm s)) \<le> unat nxt" "unat (curr_addr (rc_rm s)) \<le> unat res"
    using plan rm'(4) by (auto simp: plan_ok_def)
  have "plan_ok rm' p" if "rc_plan s u = Some p" for u p
    using commit.prems that rm' mono
    by (intro plan_ok_mono [of "rc_rm s" p rm']) (auto simp: region_inv_def simp del: split_paired_All)
  then show ?case
    using commit.prems rm' mono plan
    by (fastforce simp: region_inv_def above_def plan_ok_def)
next
  case (fail s t old res nxt rm')
  then have plan: "plan_ok (rc_rm s) (old, res, nxt)" and ok: "region_ok (rc_rm s)"
    by (auto simp: region_inv_def)
  from region_commit_cases [OF ok plan fail.hyps(2)]
  have rm': "region_ok rm'" "base_addr rm' = base_addr (rc_rm s)" "FILESIZE rm' = FILESIZE (rc_rm s)"
    "curr_addr rm' = curr_addr (rc_rm s)" by auto
  then have "plan_ok rm' p" if "rc_plan s u = Some p" for u p
    using fail.prems that
    by (intro plan_ok_mono [of "rc_rm s" p rm']) (auto simp: region_inv_def simp del: split_paired_All)
  then show ?case using fail.prems rm' by (auto simp: region_inv_def)
qed

lemma region_run_inv:
  assumes "region_ok rm" and "region_run rm as s" and "list_all no_wrap as"
  shows "region_inv rm s"
  using assms(2,3)
proof (induction rule: region_run.induct)
  case start
  then show ?case using assms(1) by (simp add: region_inv_def)
next
  case (step as s a s')
  then show ?case by (auto intro: region_step_inv)
qed

subsection \<open>Properties\<close>

text \<open>
  C36. However the threads interleave, and whatever alignments they ask for, the pieces a region
  hands out are pairwise disjoint, lie between the header page and the frontier, and the
  frontier never passes the end of the file. The sizes of all requests must be below \<open>2 ^ 62\<close>
  bytes: the code does not test this, and for sizes close to \<open>2 ^ 64\<close> the sum wraps around and
  pieces can overlap.
\<close>

theorem region_pieces_disjoint:
  assumes "region_ok rm" and "region_run rm as s" and "list_all no_wrap as"
    and "i < j" and "j < length (rc_got s)"
  shows "unat (snd (rc_got s ! j)) \<le> unat (fst (rc_got s ! i))
    \<and> unat (base_addr rm) + 4096 \<le> unat (fst (rc_got s ! j))
    \<and> unat (snd (rc_got s ! i)) \<le> unat (curr_addr (rc_rm s))
    \<and> unat (curr_addr (rc_rm s)) \<le> unat (base_addr rm) + unat (FILESIZE rm)"
proof -
  from region_run_inv [OF assms(1-3)] have inv: "region_inv rm s" .
  then have "above (rc_got s ! i) (rc_got s ! j)"
    using assms(4,5) by (auto simp: region_inv_def intro: sorted_wrt_nth_less)
  moreover have "rc_got s ! i \<in> set (rc_got s)" "rc_got s ! j \<in> set (rc_got s)"
    using assms(4,5) by simp_all
  ultimately show ?thesis
    using inv region_okD(6) [of "rc_rm s"] by (auto simp: region_inv_def above_def)
qed

text \<open>The sample region is extended twice.\<close>

definition sample_piece1 :: "addr \<times> addr" where "sample_piece1 = (0x7f0000021000, 0x7f0000031000)"
definition sample_piece2 :: "addr \<times> addr" where "sample_piece2 = (0x7f0000031000, 0x7f0000041000)"

lemma sample_extend:
  assumes "region_ok rm" and "base_addr rm = 0x7f0000000000" and "FILESIZE rm = 0x40002000"
    and "curr_addr rm = c" and "c AND 4095 = 0" and "c + 65536 \<le> 0x7f0040002000"
    and "near c 0x7f0000000000" and "region_run r as \<lparr>rc_rm = rm, rc_plan = (\<lambda>_. None), rc_got = g\<rparr>"
  shows "region_run r (as @ [Prepare 0 4096 65536, Exchange 0]) \<lparr>rc_rm = advance (c + 65536) rm, rc_plan = (\<lambda>_. None),
           rc_got = (c, c + 65536) # g\<rparr>"
proof -
  let ?s = "\<lparr>rc_rm = rm, rc_plan = (\<lambda>_. None), rc_got = g\<rparr>"
  have prep: "region_prepare rm 4096 65536 = Some (c, c, c + 65536)"
    using assms(2-6) by (simp add: region_prepare_def Let_def)
  let ?s1 = "?s\<lparr>rc_plan := (rc_plan ?s)(0 := Some (c, c, c + 65536))\<rparr>"
  have "region_step ?s (Prepare 0 4096 65536) ?s1" by (rule region_step.prepare) (use prep in simp_all)
  with assms(8) have r1: "region_run r (as @ [Prepare 0 4096 65536]) ?s1" by (rule region_run.step)
  have "region_commit (c, c, c + 65536) rm = (True, advance (c + 65536) rm)"
    using region_commit_eq [OF assms(1), of c c "c + 65536"] assms(2,4,7) by simp
  then have "region_step ?s1 (Exchange 0) (?s1\<lparr>rc_rm := advance (c + 65536) rm,
      rc_plan := (rc_plan ?s1)(0 := None), rc_got := (c, c + 65536) # rc_got ?s1\<rparr>)"
    by (intro region_step.commit) simp_all
  with r1 have "region_run r ((as @ [Prepare 0 4096 65536]) @ [Exchange 0]) (?s1\<lparr>rc_rm := advance (c + 65536) rm,
      rc_plan := (rc_plan ?s1)(0 := None), rc_got := (c, c + 65536) # rc_got ?s1\<rparr>)"
    by (rule region_run.step)
  then show ?thesis by (simp add: fun_upd_idem)
qed

theorem region_pieces_disjoint_witness:
  "\<exists>as s. region_run sample_region as s \<and> rc_got s = [sample_piece2, sample_piece1]
     \<and> unat (snd sample_piece1) \<le> unat (fst sample_piece2)"
proof -
  let ?rm1 = "advance 0x7f0000031000 sample_region"
  let ?rm2 = "advance 0x7f0000041000 ?rm1"
  have base: "base_addr sample_region = 0x7f0000000000" "FILESIZE sample_region = 0x40002000"
    by (simp_all add: sample_region_def)
  have r1: "region_run sample_region ([] @ [Prepare 0 4096 65536, Exchange 0])
      \<lparr>rc_rm = ?rm1, rc_plan = (\<lambda>_. None), rc_got = [(0x7f0000021000, 0x7f0000031000)]\<rparr>"
    using sample_extend [OF sample_region_ok base sample_region_curr _ _ _ region_run.start]
    by (simp add: near_def)
  have ok1: "region_ok ?rm1"
    by (rule region_ok_advance [OF sample_region_ok]) (simp_all add: base)
  have c1: "curr_addr ?rm1 = 0x7f0000031000" by (simp add: base near_def)
  have r2: "region_run sample_region (([] @ [Prepare 0 4096 65536, Exchange 0]) @ [Prepare 0 4096 65536, Exchange 0]) \<lparr>rc_rm = ?rm2, rc_plan = (\<lambda>_. None),
      rc_got = [(0x7f0000031000, 0x7f0000041000), (0x7f0000021000, 0x7f0000031000)]\<rparr>"
    using sample_extend [OF ok1 _ _ c1 _ _ _ r1] by (simp add: near_def base)
  have "unat (snd sample_piece1) \<le> unat (fst sample_piece2)"
    using region_pieces_disjoint [OF sample_region_ok r2, of 0 1] by (simp add: sample_piece1_def sample_piece2_def)
  with r2 show ?thesis by - (intro exI conjI, rule r2, simp_all add: sample_piece1_def sample_piece2_def)
qed

end
