(* ===== verification/GC.thy ===== *)
theory GC
  imports BaseMeta
begin

text \<open>
  Recovery: the class \<^verbatim>\<open>GarbageCollection\<close> of \<^verbatim>\<open>src/src/BaseMeta.hpp\<close> and \<^verbatim>\<open>BaseMeta.cpp\<close>, which
  a restart after a crash runs to find the blocks that are reachable from the roots and to
  rebuild the transient metadata around them, and \<^verbatim>\<open>BaseMeta::restart\<close>. A type argument of a
  template is a tag (\<^verbatim>\<open>char\<close> is 0). A program may specialise \<^verbatim>\<open>filter_func\<close> for its types, so
  the model takes the specialisations as an argument \<open>ff\<close>: for a tag, the calls of
  \<^verbatim>\<open>mark_func\<close> the specialised function makes, in order, or \<open>None\<close> for the default one.
\<close>

type_synonym filters = "nat \<Rightarrow> (memory \<Rightarrow> addr \<Rightarrow> (nat \<times> addr) list) option"

subsection \<open>Marking\<close>

record gc =
  marked_blk :: "addr set"
  to_filter_node :: "addr list"
  to_filter_func :: "nat list"

definition new_gc :: gc where
  "new_gc = \<lparr>marked_blk = {}, to_filter_node = [], to_filter_func = []\<rparr>"

definition mark_func :: "ralloc_state \<Rightarrow> nat \<times> addr \<Rightarrow> gc \<Rightarrow> gc" where
  "mark_func s c gc = (case c of (T, ptr) \<Rightarrow>
     if \<not> in_range (rgs s) SB_IDX ptr then gc
     else if ptr \<in> marked_blk gc then gc
     else \<lparr>marked_blk = insert ptr (marked_blk gc), to_filter_node = ptr # to_filter_node gc,
           to_filter_func = T # to_filter_func gc\<rparr>)"

text \<open>
  The default filter function reads a \<^verbatim>\<open>pptr\<close> at every byte offset of the block and marks what
  is not null as a \<^verbatim>\<open>char*\<close>.
\<close>

definition default_filter :: "ralloc_state \<Rightarrow> addr \<Rightarrow> (nat \<times> addr) list" where
  "default_filter s ptr =
     (let desc = desc_lookup s ptr;
          sz = d_block_size (descs s desc)
      in map (Pair 0) (filter (\<lambda>curr_content. curr_content \<noteq> 0)
           (map (\<lambda>i. load_pptr (mem s) (ptr + of_nat i)) [0..<unat sz])))"

definition filter_func :: "filters \<Rightarrow> ralloc_state \<Rightarrow> nat \<Rightarrow> addr \<Rightarrow> gc \<Rightarrow> gc" where
  "filter_func ff s T ptr gc =
     fold (mark_func s) (case ff T of Some f \<Rightarrow> f (mem s) ptr | None \<Rightarrow> default_filter s ptr) gc"

text \<open>
  The roots; an empty \<^verbatim>\<open>std::function\<close> throws, when a root is set whose type no call of
  \<^verbatim>\<open>get_root\<close> has recorded in this process.
\<close>

fun mark_roots :: "nat list \<Rightarrow> ralloc_state \<Rightarrow> gc \<Rightarrow> gc res" where
  "mark_roots [] s gc = Inr gc"
| "mark_roots (i # is) s gc =
     (if \<not> cross_is_null (roots s i) then
        case roots_filter_func s i of
          None \<Rightarrow> Inl (Uncaught ''std::bad_function_call'')
        | Some T \<Rightarrow> mark_roots is s (mark_func s (T, cross_get (rgs s) SB_IDX (roots s i)) gc)
      else mark_roots is s gc)"

lemma mark_func_cases:
  "mark_func s c gc = gc \<or> (snd c \<notin> marked_blk gc \<and> marked_blk (mark_func s c gc) = insert (snd c) (marked_blk gc))"
  by (auto simp: mark_func_def split: prod.splits)

lemma fold_mark_grows:
  "fold (mark_func s) cs gc = gc \<or> marked_blk gc \<subset> marked_blk (fold (mark_func s) cs gc)"
proof (induction cs arbitrary: gc)
  case (Cons c cs)
  from Cons.IH [of "mark_func s c gc"] mark_func_cases [of s c gc] show ?case
    by (elim disjE) auto
qed simp

text \<open>Every iteration marks a new address or only shortens the stack.\<close>

function mark_loop :: "filters \<Rightarrow> ralloc_state \<Rightarrow> gc \<Rightarrow> gc" where
  "mark_loop ff s gc =
     (if to_filter_node gc = [] then gc
      else
        let func = hd (to_filter_func gc);
            node = hd (to_filter_node gc)
        in mark_loop ff s (filter_func ff s func node
             (gc\<lparr>to_filter_node := tl (to_filter_node gc), to_filter_func := tl (to_filter_func gc)\<rparr>)))"
  by pat_completeness auto
termination
proof (relation "measures [\<lambda>(ff, s, gc). card (- marked_blk gc), \<lambda>(ff, s, gc). length (to_filter_node gc)]")
  fix ff :: filters and s :: ralloc_state and gc :: gc and func :: nat and node :: addr
  assume ne: "to_filter_node gc \<noteq> []"
  let ?g = "gc\<lparr>to_filter_node := tl (to_filter_node gc), to_filter_func := tl (to_filter_func gc)\<rparr>"
  let ?g' = "filter_func ff s func node ?g"
  have "?g' = ?g \<or> marked_blk ?g \<subset> marked_blk ?g'"
    unfolding filter_func_def by (rule fold_mark_grows)
  moreover have "card (- marked_blk ?g') < card (- marked_blk gc)" if "marked_blk ?g \<subset> marked_blk ?g'"
    using that by (intro psubset_card_mono) auto
  ultimately show "((ff, s, ?g'), (ff, s, gc)) \<in> measures [\<lambda>(ff, s, gc). card (- marked_blk gc),
      \<lambda>(ff, s, gc). length (to_filter_node gc)]"
    using ne by auto
qed simp

declare mark_loop.simps [simp del]

subsection \<open>Sweeping\<close>

text \<open>
  The two inner \<^verbatim>\<open>for\<close> loops: the blocks from \<open>free_block\<close> up to \<open>limit\<close> go to the front of the
  free list; \<open>fuel\<close> bounds the iterations.
\<close>

fun link_free :: "nat \<Rightarrow> u32 \<Rightarrow> addr \<Rightarrow> addr \<Rightarrow> memory \<times> addr \<times> 31 word \<Rightarrow> (memory \<times> addr \<times> 31 word) res" where
  "link_free 0 block_size limit free_block r = Inl OutOfFuel"
| "link_free (Suc n) block_size limit free_block r =
     (if free_block < limit then
        case r of (m, free_blocks_head, cnt) \<Rightarrow>
          link_free n block_size limit (free_block + ucast block_size)
            (store_pptr m free_block free_blocks_head, free_block, cnt + 1)
      else Inr r)"

text \<open>A superblock has at most 65536 bytes, and a block at least one.\<close>

definition LINK_FUEL :: nat where
  "LINK_FUEL = Suc 65536"

text \<open>The locals of one iteration of the outer \<^verbatim>\<open>while\<close>.\<close>

record sweep_sb =
  sw_anchor :: Anchor
  sw_head :: addr
  sw_last :: addr

definition desc_heap_idx :: "ralloc_state \<Rightarrow> addr \<Rightarrow> u64" where
  "desc_heap_idx s desc = h_sc_idx (heaps s (cross_deref (rgs s) META_IDX (d_heap (descs s desc))))"

text \<open>The inner \<^verbatim>\<open>while\<close>: the marked blocks of this superblock; the others remain.\<close>

fun sweep_marked ::
    "addr \<Rightarrow> addr \<Rightarrow> addr list \<Rightarrow> sweep_sb \<Rightarrow> ralloc_state \<Rightarrow> (addr list \<times> sweep_sb \<times> ralloc_state) res" where
  "sweep_marked curr_sb curr_desc [] l s = Inr ([], l, s)"
| "sweep_marked curr_sb curr_desc (b # bs) l s =
     (if drop_bit SB_SHIFT curr_sb = drop_bit SB_SHIFT b then
        let d = descs s curr_desc in
        if \<not> cross_is_null (d_heap d) \<and> cross_get (rgs s) SB_IDX (d_superblock d) = curr_sb then
          if desc_heap_idx s curr_desc = 0 then
            check (d_maxcount d = 1) ''curr_desc->maxcount == 1''
              (sweep_marked curr_sb curr_desc bs (l\<lparr>sw_anchor := (sw_anchor l)\<lparr>sb_state := SB_FULL\<rparr>\<rparr>) s)
          else
            rbind (link_free LINK_FUEL (d_block_size d) b (sw_last l) (mem s, sw_head l, count (sw_anchor l)))
              (\<lambda>(m, head, cnt).
                 sweep_marked curr_sb curr_desc bs
                   \<lparr>sw_anchor = (sw_anchor l)\<lparr>sb_state := SB_PARTIAL, count := cnt\<rparr>, sw_head = head,
                    sw_last = b + ucast (d_block_size d)\<rparr>
                   (s\<lparr>mem := m\<rparr>))
        else sweep_marked curr_sb curr_desc bs l s
      else Inr (b # bs, l, s))"

text \<open>The second half of an iteration: the descriptor, by what the marked blocks have shown.\<close>

definition sweep_empty :: "addr \<Rightarrow> addr \<Rightarrow> addr \<Rightarrow> ralloc_state \<Rightarrow> addr \<times> addr \<times> addr \<times> ralloc_state" where
  "sweep_empty curr_sb curr_desc avail_head s =
     (curr_sb + SBSIZE, curr_desc + 64, curr_desc,
      store_next_free curr_desc avail_head (construct_desc curr_desc s))"

definition store_anchor :: "addr \<Rightarrow> Anchor \<Rightarrow> ralloc_state \<Rightarrow> ralloc_state" where
  "store_anchor d a = set_desc d (d_anchor_update (\<lambda>_. a))"

definition sweep_large :: "addr \<Rightarrow> addr \<Rightarrow> addr \<Rightarrow> ralloc_state \<Rightarrow> addr \<times> addr \<times> addr \<times> ralloc_state" where
  "sweep_large curr_sb curr_desc avail_head s =
     (let anchor = \<lparr>avail = 0, count = 0, sb_state = SB_FULL\<rparr>;
          s1 = store_anchor curr_desc anchor
                 (store_next_partial curr_desc 0 (store_next_free curr_desc 0 s));
          curr_sb' = curr_sb + ucast (d_block_size (descs s1 curr_desc))
      in (curr_sb', desc_lookup s1 curr_sb', avail_head, s1))"

definition sweep_small ::
    "addr \<Rightarrow> addr \<Rightarrow> addr \<Rightarrow> sweep_sb \<Rightarrow> ralloc_state \<Rightarrow> (addr \<times> addr \<times> addr \<times> ralloc_state) res" where
  "sweep_small curr_sb curr_desc avail_head l s =
     (let d = descs s curr_desc;
          limit = curr_sb + ucast (d_maxcount d * d_block_size d)
      in rbind (link_free LINK_FUEL (d_block_size d) limit (sw_last l) (mem s, sw_head l, count (sw_anchor l)))
          (\<lambda>(m, free_blocks_head, cnt).
       let s1 = s\<lparr>mem := m\<rparr>;
           anchor = (sw_anchor l)\<lparr>count := cnt\<rparr>
       in rbind
         (if cnt = 0 then
            Inr (store_anchor curr_desc (anchor\<lparr>avail := ucast (d_maxcount d), sb_state := SB_FULL\<rparr>)
                   (store_next_partial curr_desc 0 (store_next_free curr_desc 0 s1)))
          else
            check (free_blocks_head \<noteq> 0) ''free_blocks_head != nullptr''
            (check ((free_blocks_head - curr_sb) mod ucast (d_block_size d) = 0)
               ''(uint64_t)(free_blocks_head - curr_sb)%curr_desc->block_size == 0''
            (let anchor' = anchor\<lparr>avail := ucast ((free_blocks_head - curr_sb) div ucast (d_block_size d)),
                                  sb_state := SB_PARTIAL\<rparr>
             in rbind (heap_push_partial curr_desc (store_next_free curr_desc 0 s1))
                  (\<lambda>s2. Inr (store_anchor curr_desc anchor' s2)))))
         (\<lambda>s3. Inr (curr_sb + SBSIZE, curr_desc + 64, avail_head, s3))))"

text \<open>One iteration of the outer \<^verbatim>\<open>while\<close>; the head of the new list of unused superblocks is local.\<close>

definition sweep_iter ::
    "addr \<Rightarrow> addr \<Rightarrow> addr list \<Rightarrow> addr \<Rightarrow> ralloc_state
      \<Rightarrow> (addr list \<times> addr \<times> addr \<times> addr \<times> ralloc_state) res" where
  "sweep_iter curr_sb curr_desc ms avail_head s =
     rbind (sweep_marked curr_sb curr_desc ms
              \<lparr>sw_anchor = \<lparr>avail = 0, count = 0, sb_state = SB_EMPTY\<rparr>, sw_head = 0, sw_last = curr_sb\<rparr> s)
       (\<lambda>(ms', l, s1).
        rbind (if sb_state (sw_anchor l) = SB_EMPTY then Inr (sweep_empty curr_sb curr_desc avail_head s1)
               else if desc_heap_idx s1 curr_desc = 0 then Inr (sweep_large curr_sb curr_desc avail_head s1)
               else sweep_small curr_sb curr_desc avail_head l s1)
          (\<lambda>r. Inr (ms', r)))"

fun sweep_loop ::
    "nat \<Rightarrow> addr \<Rightarrow> addr list \<times> addr \<times> addr \<times> addr \<times> ralloc_state
      \<Rightarrow> (addr list \<times> addr \<times> ralloc_state) res" where
  "sweep_loop 0 sb_end (ms, curr_sb, curr_desc, avail_head, s) = Inl OutOfFuel"
| "sweep_loop (Suc n) sb_end (ms, curr_sb, curr_desc, avail_head, s) =
     (if curr_sb < sb_end
      then rbind (sweep_iter curr_sb curr_desc ms avail_head s) (sweep_loop n sb_end)
      else Inr (ms, avail_head, s))"

text \<open>An iteration advances by at least one superblock, and a region has at most \<open>2 ^ 24\<close>.\<close>

definition SWEEP_FUEL :: nat where
  "SWEEP_FUEL = Suc (2 ^ 24)"

subsection \<open>The collector\<close>

definition gc_init :: "ralloc_state \<Rightarrow> ralloc_state" where
  "gc_init s = fold (\<lambda>i s. let h = heap_addr (base_md s) i in
                       s\<lparr>heaps := (heaps s)(h := (heaps s h)\<lparr>h_partial_list := 0\<rparr>)\<rparr>)
                 [0..<MAX_SZ_IDX] (s\<lparr>avail_sb := 0\<rparr>)"

definition gc_mark :: "filters \<Rightarrow> ralloc_state \<Rightarrow> addr set res" where
  "gc_mark ff s = rbind (mark_roots [0..<MAX_ROOTS] s new_gc) (\<lambda>gc. Inr (marked_blk (mark_loop ff s gc)))"

definition gc_sweep :: "addr set \<Rightarrow> ralloc_state \<Rightarrow> ralloc_state res" where
  "gc_sweep marked s =
     (let curr_sb = translate (rgs s) SB_IDX SBSIZE;
          curr_desc = desc_lookup s curr_sb;
          sb_end = curr_addr (sb_region s)
      in rbind (sweep_loop SWEEP_FUEL sb_end (sorted_list_of_set marked, curr_sb, curr_desc, 0, s))
           (\<lambda>(ms, avail_head, s1).
            let s2 = s1\<lparr>avail_sb := acp_store (rgs s1) DESC_IDX \<lparr>pc_ptr = avail_head, pc_cnt = 0\<rparr>\<rparr>
            in check (ms = []) ''curr_marked_blk == marked_blk.end()'' (Inr s2)))"

text \<open>
  The write-back at the end. The blocks themselves are flushed too, but their durability is
  the program's business and not part of the persistent image.
\<close>

definition FLUSH_FUEL :: nat where
  "FLUSH_FUEL = Suc (2 ^ 34)"

definition gc_flush :: "ralloc_state \<Rightarrow> ralloc_state res" where
  "gc_flush s =
     (case flush_region FLUSH_FUEL (rgs s) DESC_IDX of
        None \<Rightarrow> Inl OutOfFuel
      | Some ds \<Rightarrow>
          let s1 = FLUSHFENCE (fold flush_desc ds s) in
          case flush_region FLUSH_FUEL (rgs s) SB_IDX of
            None \<Rightarrow> Inl OutOfFuel
          | Some _ \<Rightarrow>
              Inr (FLUSHFENCE (writeback_loop (sizeof_BaseMeta div unat CACHELINE_SIZE) (base_md s) (base_md s) s1)))"

definition GarbageCollection :: "filters \<Rightarrow> ralloc_state \<Rightarrow> ralloc_state res" where
  "GarbageCollection ff s =
     (let s1 = gc_init s in
      rbind (gc_mark ff s1) (\<lambda>marked.
      rbind (gc_sweep marked s1) gc_flush))"

subsection \<open>Restart\<close>

definition restart :: "filters \<Rightarrow> ralloc_state \<Rightarrow> (bool \<times> ralloc_state) res" where
  "restart ff s =
     rbind (is_dirty s) (\<lambda>(ret, s1).
     rbind (if ret then GarbageCollection ff s1 else Inr s1) (\<lambda>s2.
     rbind (set_dirty (FLUSHFENCE s2)) (\<lambda>s3. Inr (ret, s3))))"

end
