(* ===== verification/GCSweep.thy ===== *)
theory GCSweep
  imports GC HeapLive
begin

text \<open>
  The sweeping phase on one superblock: the free blocks between the marked ones are linked
  in descending order, and the descriptor gets the anchor that describes them.
\<close>

subsection \<open>Linking free blocks\<close>

text \<open>
  \<open>free_run\<close>: head, memory and counter of a free list with the blocks \<open>fs\<close>. \<open>only_cells\<close>: the
  memory changes at most in the first words of some blocks.
\<close>

definition free_run :: "ralloc_state \<Rightarrow> nat \<Rightarrow> nat \<Rightarrow> nat list \<Rightarrow> memory \<times> addr \<times> 31 word \<Rightarrow> bool" where
  "free_run s c k fs r = (case r of (m, head, cnt) \<Rightarrow>
     linked m (map (block_at s c k) fs) \<and> head = (if fs = [] then 0 else block_at s c k (hd fs))
     \<and> cnt = of_nat (length fs))"

definition only_cells :: "ralloc_state \<Rightarrow> nat \<Rightarrow> nat \<Rightarrow> nat set \<Rightarrow> memory \<Rightarrow> memory \<Rightarrow> bool" where
  "only_cells s c k I m m' \<longleftrightarrow> (\<forall>a. m' a \<noteq> m a \<longrightarrow> (\<exists>i \<in> I. \<exists>l < 8. a = block_at s c k i + of_nat l))"

lemma only_cells_refl: "only_cells s c k I m m"
  by (simp add: only_cells_def)

lemma only_cells_trans:
  assumes "only_cells s c k I m m1" and "only_cells s c k J m1 m2" and "I \<subseteq> I'" and "J \<subseteq> I'"
  shows "only_cells s c k I' m m2"
  unfolding only_cells_def
proof (intro allI impI)
  fix a assume ne: "m2 a \<noteq> m a"
  show "\<exists>i \<in> I'. \<exists>l < 8. a = block_at s c k i + of_nat l"
  proof (cases "m2 a = m1 a")
    case True
    then show ?thesis using assms(1,3) ne unfolding only_cells_def by (metis subsetD)
  next
    case False
    then show ?thesis using assms(2,4) unfolding only_cells_def by (metis subsetD)
  qed
qed

lemma only_cells_store: "i \<in> I \<Longrightarrow> only_cells s c k I m (store_pptr m (block_at s c k i) v)"
  unfolding only_cells_def using store_pptr_other by metis

lemma unat_block_bound:
  assumes "layout_ok s" and "k < sb_cap s" and "1 \<le> c" and "c < 40" and "i \<le> bnum c"
  shows "unat (block_at s c k i) = unat (lookup (rgs s) SB_IDX) + 65536 * k + i * bsz c"
proof -
  have "i * bsz c \<le> bnum c * bsz c" using assms(5) by (rule mult_right_mono) simp
  also have "\<dots> \<le> 65536" using assms(3,4) by (rule bnum_bsz_le)
  finally have "i * bsz c \<le> 65536" .
  from unat_sb_off [OF assms(1,2) this] show ?thesis unfolding block_at_def .
qed

lemma block_at_less:
  assumes "layout_ok s" and "k < sb_cap s" and "1 \<le> c" and "c < 40" and "i \<le> bnum c" and "j \<le> bnum c"
  shows "block_at s c k i < block_at s c k j \<longleftrightarrow> i < j"
  using unat_block_bound [OF assms(1-4)] assms(5,6) class_facts(1) [OF assms(3,4)]
  by (simp add: word_less_nat_alt)

lemma block_at_step: "unat (bs :: u32) = bsz c \<Longrightarrow> block_at s c k i + ucast bs = block_at s c k (Suc i)"
  using ucast_32_64 [of bs] by (simp add: block_at_def algebra_simps)

lemma near_null: "block_addr a \<Longrightarrow> near 0 a"
  by (simp add: block_addr_def near_iff)

lemma link_free_run:
  assumes lay: "layout_ok s" and k: "k < sb_cap s" and c: "1 \<le> c" "c < 40" and bs: "unat bs = bsz c"
    and "i \<le> j" and j: "j \<le> bnum c" and "set fs \<subseteq> {..<i}" and "j - i < fuel"
    and "free_run s c k fs (m, h, n)"
  shows "\<exists>m' h' n'. link_free fuel bs (block_at s c k j) (block_at s c k i) (m, h, n) = Inr (m', h', n')
    \<and> free_run s c k (rev [i..<j] @ fs) (m', h', n') \<and> only_cells s c k {i..<j} m m'"
  using assms(6,8-10)
proof (induction fuel arbitrary: i fs m h n)
  case (Suc fuel)
  show ?case
  proof (cases "i = j")
    case True
    then show ?thesis using Suc.prems(4) by (simp add: only_cells_refl)
  next
    case False
    then have ij: "i < j" "i < bnum c" using Suc.prems(1) j by simp_all
    let ?b = "block_at s c k i" and ?m = "store_pptr m (block_at s c k i) h"
    have ba: "block_addr (block_at s c k x)" if "x < bnum c" for x by (rule block_at_props(1) [OF lay k c that])
    have fr: "linked m (map (block_at s c k) fs)" "h = (if fs = [] then 0 else block_at s c k (hd fs))"
      "n = of_nat (length fs)" using Suc.prems(4) by (simp_all add: free_run_def)
    have fsb: "x < i" "x < bnum c" if "x \<in> set fs" for x using Suc.prems(2) that ij(2) by auto
    have "?b \<notin> block_at s c k ` set fs"
      using block_at_inj [OF lay k c ij(2) k c] fsb by fastforce
    then have "linked ?m (map (block_at s c k) fs)"
      using fr(1) ba fsb(2) ij(2)
      by (subst linked_store_other) (auto simp: block_addr_def dest!: in_set_butlastD)
    moreover have "near h ?b"
      using fr(2) near_null [OF ba [OF ij(2)]] block_addr_near [OF ba ba [OF ij(2)], of "hd fs"] fsb(2)
      by (cases fs) auto
    then have "load_pptr ?m ?b = h" by (rule load_store_pptr_same)
    ultimately have "free_run s c k (i # fs) (?m, ?b, n + 1)"
      using fr(2,3) by (auto simp: free_run_def linked_Cons hd_map)
    moreover have "set (i # fs) \<subseteq> {..<Suc i}" using Suc.prems(2) by auto
    moreover have "Suc i \<le> j" "j - Suc i < fuel" using ij Suc.prems(3) by simp_all
    ultimately obtain m' h' n' where r: "link_free fuel bs (block_at s c k j) (block_at s c k (Suc i)) (?m, ?b, n + 1) = Inr (m', h', n')"
      "free_run s c k (rev [Suc i..<j] @ i # fs) (m', h', n')" "only_cells s c k {Suc i..<j} ?m m'"
      using Suc.IH [of "Suc i" "i # fs" ?m ?b "n + 1"] by blast
    have "rev [Suc i..<j] @ i # fs = rev [i..<j] @ fs" using ij(1) by (simp add: upt_conv_Cons)
    then have "free_run s c k (rev [i..<j] @ fs) (m', h', n')" using r(2) by (simp only:)
    moreover have "only_cells s c k {i..<j} m m'"
      by (rule only_cells_trans [OF only_cells_store r(3)]) (use ij in auto)
    moreover have "?b < block_at s c k j" using block_at_less [OF lay k c, of i j] ij j by simp
    ultimately show ?thesis using r(1) by (simp add: block_at_step [OF bs])
  qed
qed simp

subsection \<open>The marked blocks of one superblock\<close>

lemma drop_bit_sb:
  assumes "layout_ok s" and "k < sb_cap s" and "off < 65536"
  shows "drop_bit 16 (sb_at s k + of_nat off) = of_nat (unat (lookup (rgs s) SB_IDX) div 65536 + k)"
proof -
  let ?B = "lookup (rgs s) SB_IDX"
  have "unat (sb_at s k + of_nat off) = unat ?B + 65536 * k + off"
    using unat_sb_off [OF assms(1,2)] assms(3) by simp
  moreover have "(unat ?B + 65536 * k + off) div 65536 = unat ?B div 65536 + k"
    using layout_okD(2) [OF assms(1)] assms(3) by (intro div_shift) simp_all
  ultimately show ?thesis by (simp add: drop_bit_unat_of_nat)
qed

lemma drop_bit_sb_eq:
  assumes "layout_ok s" and "k < sb_cap s" and "k' < sb_cap s" and "off < 65536" and "off' < 65536"
  shows "drop_bit 16 (sb_at s k + of_nat off) = drop_bit 16 (sb_at s k' + of_nat off') \<longleftrightarrow> k = k'"
proof -
  let ?b = "unat (lookup (rgs s) SB_IDX) div 65536"
  have b: "?b < 281474976710656" using unat_lt64 [of "lookup (rgs s) SB_IDX"] by (simp add: div_less_iff_less_mult)
  have u: "unat (of_nat (?b + x) :: u64) = ?b + x" if "x < sb_cap s" for x
    using that layout_okD(12) [OF assms(1)] b by (intro unat_of_nat64) simp
  show ?thesis
    using u [OF assms(2)] u [OF assms(3)] drop_bit_sb [OF assms(1,2,4)] drop_bit_sb [OF assms(1,3,5)]
    by (metis add_left_cancel)
qed

lemma filter_upt_Cons:
  assumes "filter Q [j..<n] = i # is"
  shows "j \<le> i" and "i < n" and "Q i" and "\<And>x. j \<le> x \<Longrightarrow> x < i \<Longrightarrow> \<not> Q x"
    and "is = filter Q [Suc i..<n]"
proof -
  from assms obtain us vs where e: "[j..<n] = us @ i # vs" "\<forall>u \<in> set us. \<not> Q u" "Q i" "is = filter Q vs"
    by (auto simp: filter_eq_Cons_iff)
  have len: "length us + length vs + 1 = n - j" using arg_cong [OF e(1), of length] by simp
  have i: "i = j + length us" using arg_cong [OF e(1), of "\<lambda>xs. xs ! length us"] len by simp
  have us: "us = take (length us) [j..<n]" using e(1) by simp
  then have us': "us = [j..<i]" using len i by (simp add: take_upt)
  have "vs = drop (Suc (length us)) [j..<n]" using e(1) by simp
  then have "vs = [Suc i..<n]" using i by (simp add: drop_upt)
  then show "is = filter Q [Suc i..<n]" using e(4) by simp
  show "j \<le> i" "i < n" "Q i" using i len e(3) by auto
  show "\<not> Q x" if "j \<le> x" "x < i" for x using e(2) us' that by auto
qed

text \<open>The blocks of a size class, with \<open>P\<close> for the unmarked ones, seen up to block \<open>j\<close>.\<close>

definition swept ::
    "ralloc_state \<Rightarrow> nat \<Rightarrow> nat \<Rightarrow> (nat \<Rightarrow> bool) \<Rightarrow> nat \<Rightarrow> sweep_sb \<Rightarrow> memory \<Rightarrow> bool" where
  "swept s c k P j l m \<longleftrightarrow> sw_last l = block_at s c k j
     \<and> free_run s c k (rev (filter P [0..<j])) (m, sw_head l, count (sw_anchor l))"

lemma sweep_marked_small:
  assumes lay: "layout_ok s" and k: "1 \<le> k" "k < sb_cap s" and c: "1 \<le> c" "c < 40"
    and st: "desc_static s k c (bsz c) (bnum c) (descs s (desc_at s k))"
    and sc: "h_sc_idx (heaps s (heap_addr (base_md s) c)) = of_nat c"
    and rest: "rest = [] \<or> drop_bit SB_SHIFT (sb_at s k) \<noteq> drop_bit SB_SHIFT (hd rest)"
    and "is = filter (\<lambda>i. \<not> P i) [j..<bnum c]" and "j \<le> bnum c" and "swept s c k P j l m"
  shows "\<exists>l' m' j'. sweep_marked (sb_at s k) (desc_at s k) (map (block_at s c k) is @ rest) l (s\<lparr>mem := m\<rparr>)
      = Inr (rest, l', s\<lparr>mem := m'\<rparr>)
    \<and> j' \<le> bnum c \<and> (\<forall>i. j' \<le> i \<and> i < bnum c \<longrightarrow> P i) \<and> swept s c k P j' l' m'
    \<and> sb_state (sw_anchor l') = (if is = [] then sb_state (sw_anchor l) else SB_PARTIAL)
    \<and> only_cells s c k {i. i < bnum c \<and> P i} m m'"
  using assms(9-11)
proof (induction "is" arbitrary: j l m)
  case Nil
  have "sweep_marked (sb_at s k) (desc_at s k) rest l (s\<lparr>mem := m\<rparr>) = Inr (rest, l, s\<lparr>mem := m\<rparr>)"
    using rest by (cases rest) auto
  moreover have "\<forall>i. j \<le> i \<and> i < bnum c \<longrightarrow> P i" using Nil(1) [symmetric] by (auto simp: filter_empty_conv)
  ultimately show ?case using Nil(2,3) by (auto intro!: exI [of _ j] simp: only_cells_refl)
next
  case (Cons i "is")
  note fu = filter_upt_Cons [OF Cons.prems(1) [symmetric]]
  let ?d = "descs s (desc_at s k)" and ?n = "bnum c"
  have dg: "cross_get (rgs s) SB_IDX (d_superblock ?d) = sb_at s k"
    "cross_deref (rgs s) META_IDX (d_heap ?d) = heap_addr (base_md s) c"
    using desc_static_get [OF lay k c(2) st] by simp_all
  have bs: "unat (d_block_size ?d) = bsz c" using st by (simp add: desc_static_def)
  have c0: "(of_nat c :: u64) \<noteq> 0" using c by (simp add: word_unat_eq_iff unat_of_nat64)
  have nz: "d_heap ?d \<noteq> 0"
    using cross_heap_addr(1) [OF lay c(2)] st unat_heap_addr [OF lay c(2)]
    by (auto simp: desc_static_def cross_get_def cross_is_null_def)
  have sb: "drop_bit 16 (sb_at s k) = drop_bit 16 (block_at s c k i)"
    using drop_bit_sb_eq [OF lay k(2,2), of 0 "i * bsz c"] block_end_le [OF c fu(2)] class_facts(1) [OF c]
    by (simp add: block_at_def)
  let ?fs = "rev (filter P [0..<j])"
  have sw: "sw_last l = block_at s c k j" "free_run s c k ?fs (m, sw_head l, count (sw_anchor l))"
    using Cons.prems(3) by (simp_all add: swept_def)
  have fuel: "i - j < LINK_FUEL" using bnum_le [OF c] fu(2) by (simp add: LINK_FUEL_def)
  have sub: "set ?fs \<subseteq> {..<j}" by auto
  obtain m1 h1 n1 where lf: "link_free LINK_FUEL (d_block_size ?d) (block_at s c k i) (block_at s c k j)
      (m, sw_head l, count (sw_anchor l)) = Inr (m1, h1, n1)"
    "free_run s c k (rev [j..<i] @ ?fs) (m1, h1, n1)" "only_cells s c k {j..<i} m m1"
    using link_free_run [OF lay k(2) c bs fu(1) less_imp_le [OF fu(2)] sub fuel sw(2)] by blast
  have "filter P [j..<i] = [j..<i]" using fu(4) by (auto simp: filter_id_conv)
  moreover have "[0..<i] = [0..<j] @ [j..<i]" using fu(1) by (metis le0 le_add_diff_inverse upt_add_eq_append)
  ultimately have "rev [j..<i] @ ?fs = rev (filter P [0..<Suc i])" using fu(3) by simp
  then have fr: "free_run s c k (rev (filter P [0..<Suc i])) (m1, h1, n1)" using lf(2) by simp
  let ?l = "\<lparr>sw_anchor = (sw_anchor l)\<lparr>sb_state := SB_PARTIAL, count := n1\<rparr>, sw_head = h1,
      sw_last = block_at s c k (Suc i)\<rparr>"
  have "swept s c k P (Suc i) ?l m1" using fr by (simp add: swept_def)
  then obtain l' m' j' where ih: "sweep_marked (sb_at s k) (desc_at s k) (map (block_at s c k) is @ rest) ?l (s\<lparr>mem := m1\<rparr>)
      = Inr (rest, l', s\<lparr>mem := m'\<rparr>)" "j' \<le> ?n" "\<forall>i. j' \<le> i \<and> i < ?n \<longrightarrow> P i" "swept s c k P j' l' m'"
    "sb_state (sw_anchor l') = SB_PARTIAL" "only_cells s c k {i. i < ?n \<and> P i} m1 m'"
    using Cons.IH [OF fu(5), of ?l m1] fu(2) by (auto split: if_splits)
  have "only_cells s c k {i. i < ?n \<and> P i} m m'"
    by (rule only_cells_trans [OF lf(3) ih(6)]) (use fu(2,4) in auto)
  moreover have "sweep_marked (sb_at s k) (desc_at s k) (map (block_at s c k) (i # is) @ rest) l (s\<lparr>mem := m\<rparr>)
      = sweep_marked (sb_at s k) (desc_at s k) (map (block_at s c k) is @ rest) ?l (s\<lparr>mem := m1\<rparr>)"
    using sb nz dg sc c0 lf(1) sw(1) by (simp add: cross_is_null_def desc_heap_idx_def base_md_def block_at_step [OF bs])
  ultimately show ?case using ih by auto
qed

end
