(* ===== verification/GCInv.thy ===== *)
theory GCInv
  imports GCSweep HeapInit
begin

text \<open>
  The invariant of the sweep. What the collector finds in the descriptors is a function \<open>K\<close>
  from superblocks to kinds; \<open>M\<close> is the set of marked addresses. The sweep goes from
  superblock to superblock and leaves behind a heap in which exactly the marked blocks are
  not free.
\<close>

subsection \<open>What the collector starts from\<close>

definition in_use :: "ralloc_state \<Rightarrow> nat \<Rightarrow> Descriptor \<Rightarrow> bool" where
  "in_use s k v \<longleftrightarrow> d_heap v \<noteq> 0 \<and> cross_get (rgs s) SB_IDX (d_superblock v) = sb_at s k"

definition kind_rep :: "(nat \<Rightarrow> sb_kind) \<Rightarrow> ralloc_state \<Rightarrow> nat \<Rightarrow> bool" where
  "kind_rep K s k \<longleftrightarrow> (case K k of
       Small c \<Rightarrow> 1 \<le> c \<and> c < 40
         \<and> desc_static s k c (bsz c) (bnum c) (descs s (desc_at s k))
         \<and> desc_static s k c (bsz c) (bnum c) (pm_descs (pm s) (desc_at s k))
     | Large m \<Rightarrow> 1 \<le> m \<and> m < 65536 \<and> k + m \<le> sb_num s
         \<and> desc_static s k 0 (65536 * m) 1 (descs s (desc_at s k))
         \<and> (\<forall>j. k < j \<and> j < k + m \<longrightarrow> K j = Tail)
     | Unused \<Rightarrow> \<not> in_use s k (descs s (desc_at s k))
     | Tail \<Rightarrow> True)"

definition gc_ready :: "(nat \<Rightarrow> sb_kind) \<Rightarrow> ralloc_state \<Rightarrow> bool" where
  "gc_ready K s \<longleftrightarrow> layout_ok s \<and> 1 \<le> sb_num s \<and> wb s = []
     \<and> (\<forall>i < 40. h_sc_idx (heaps s (heap_addr (base_md s) i)) = of_nat i)
     \<and> (\<forall>t c. tc_block_num (t_caches s t c) = 0)
     \<and> (\<forall>k. 1 \<le> k \<and> k < sb_num s \<longrightarrow> kind_rep K s k)"

text \<open>
  The marked addresses are fit for the sweep: in a superblock with small blocks they are
  starts of blocks, and none is in the first superblock or behind the first superblock of a
  large block.
\<close>

definition mark_ok :: "(nat \<Rightarrow> sb_kind) \<Rightarrow> ralloc_state \<Rightarrow> addr \<Rightarrow> bool" where
  "mark_ok K s a \<longleftrightarrow> (\<exists>k off. 1 \<le> k \<and> k < sb_num s \<and> off < 65536 \<and> a = sb_at s k + of_nat off
     \<and> (case K k of Small c \<Rightarrow> \<exists>i < bnum c. off = i * bsz c | Tail \<Rightarrow> False | _ \<Rightarrow> True))"

definition hit :: "ralloc_state \<Rightarrow> addr set \<Rightarrow> nat \<Rightarrow> bool" where
  "hit s M k \<longleftrightarrow> (\<exists>off < 65536. sb_at s k + of_nat off \<in> M)"

text \<open>The kinds and the free blocks that remain, and the blocks that are live afterwards.\<close>

definition kept :: "(nat \<Rightarrow> sb_kind) \<Rightarrow> ralloc_state \<Rightarrow> addr set \<Rightarrow> nat \<Rightarrow> sb_kind" where
  "kept K s M j = (case K j of
       Small c \<Rightarrow> if hit s M j then Small c else Unused
     | Large m \<Rightarrow> if hit s M j then Large m else Unused
     | Unused \<Rightarrow> Unused
     | Tail \<Rightarrow> if \<exists>i m. 1 \<le> i \<and> i < j \<and> j < i + m \<and> K i = Large m \<and> hit s M i then Tail else Unused)"

definition unmarked :: "ralloc_state \<Rightarrow> addr set \<Rightarrow> nat \<Rightarrow> nat \<Rightarrow> nat list" where
  "unmarked s M c k = rev (filter (\<lambda>i. block_at s c k i \<notin> M) [0..<bnum c])"

definition gc_live :: "(nat \<Rightarrow> sb_kind) \<Rightarrow> ralloc_state \<Rightarrow> addr set \<Rightarrow> (addr \<times> nat) set" where
  "gc_live K s M =
     {(block_at s c k i, bsz c) | c k i. 1 \<le> k \<and> k < sb_num s \<and> K k = Small c \<and> i < bnum c \<and> block_at s c k i \<in> M}
     \<union> {(sb_at s k, 65536 * m) | k m. 1 \<le> k \<and> k < sb_num s \<and> K k = Large m \<and> hit s M k}"

subsection \<open>The heap behind the sweep\<close>

definition a_swept ::
    "(nat \<Rightarrow> sb_kind) \<Rightarrow> ralloc_state \<Rightarrow> addr set \<Rightarrow> (nat \<Rightarrow> nat list) \<Rightarrow> nat \<Rightarrow> aheap" where
  "a_swept K s M part k = \<lparr>a_num = sb_num s,
     a_kind = (\<lambda>j. if 1 \<le> j \<and> j < k then kept K s M j else Tail),
     a_avail = [], a_part = part,
     a_free = (\<lambda>j. if 1 \<le> j \<and> j < k then (case kept K s M j of Small c \<Rightarrow> unmarked s M c j | _ \<Rightarrow> []) else []),
     a_cache = (\<lambda>t c. [])\<rparr>"

lemma a_swept_simps [simp]:
  "a_num (a_swept K s M part k) = sb_num s"
  "a_avail (a_swept K s M part k) = []" "a_part (a_swept K s M part k) = part"
  "a_cache (a_swept K s M part k) t c = []"
  "sb_valid (a_swept K s M part k) j \<longleftrightarrow> 1 \<le> j \<and> j < sb_num s"
  by (simp_all add: a_swept_def sb_valid_def)

lemma a_swept_at:
  "1 \<le> j \<Longrightarrow> j < k \<Longrightarrow> a_kind (a_swept K s M part k) j = kept K s M j"
  "1 \<le> j \<Longrightarrow> j < k \<Longrightarrow> a_free (a_swept K s M part k) j = (case kept K s M j of Small c \<Rightarrow> unmarked s M c j | _ \<Rightarrow> [])"
  "k \<le> j \<Longrightarrow> a_kind (a_swept K s M part k) j = Tail"
  "k \<le> j \<Longrightarrow> a_free (a_swept K s M part k) j = []"
  by (simp_all add: a_swept_def)

lemma a_swept_Suc:
  assumes "1 \<le> k"
  shows "a_swept K s M part (Suc k) = (a_swept K s M part k)\<lparr>
    a_kind := (a_kind (a_swept K s M part k))(k := kept K s M k),
    a_free := (a_free (a_swept K s M part k))(k := (case kept K s M k of Small c \<Rightarrow> unmarked s M c k | _ \<Rightarrow> []))\<rparr>"
  using assms by (auto simp: a_swept_def fun_eq_iff less_Suc_eq)

text \<open>A live large block takes its other superblocks with it.\<close>

lemma kept_tail:
  assumes "K k = Large m" and "hit s M k" and "1 \<le> k" and "\<And>j. k < j \<Longrightarrow> j < k + m \<Longrightarrow> K j = Tail"
    and "k < j" and "j < k + m"
  shows "kept K s M j = Tail"
  using assms by (auto simp: kept_def)

lemma a_swept_large:
  assumes "K k = Large m" and "hit s M k" and "1 \<le> k" and "1 \<le> m" and "\<And>j. k < j \<Longrightarrow> j < k + m \<Longrightarrow> K j = Tail"
  shows "a_swept K s M part (k + m) = a_swept K s M part (Suc k)"
proof -
  have "kept K s M j = Tail" if "k < j" "j < k + m" for j
    by (rule kept_tail [of K k m]) (use assms that in auto)
  then show ?thesis using assms(4) by (auto simp: a_swept_def fun_eq_iff)
qed

definition cells_changed :: "(nat \<Rightarrow> sb_kind) \<Rightarrow> ralloc_state \<Rightarrow> addr set \<Rightarrow> nat \<Rightarrow> memory \<Rightarrow> bool" where
  "cells_changed K s M k m \<longleftrightarrow> (\<forall>a. m a \<noteq> mem s a \<longrightarrow> (\<exists>j c i l. 1 \<le> j \<and> j < k \<and> kept K s M j = Small c
     \<and> i < bnum c \<and> block_at s c j i \<notin> M \<and> l < 8 \<and> a = block_at s c j i + of_nat l))"

definition sweep_inv ::
    "(nat \<Rightarrow> sb_kind) \<Rightarrow> ralloc_state \<Rightarrow> addr set \<Rightarrow> nat \<Rightarrow> (nat \<Rightarrow> nat list) \<Rightarrow> nat list \<Rightarrow> ralloc_state \<Rightarrow> bool" where
  "sweep_inv K s0 M k part ks s \<longleftrightarrow> 1 \<le> k \<and> k \<le> sb_num s0
     \<and> rgs s = rgs s0 \<and> roots s = roots s0 \<and> dirty_mtx s = dirty_mtx s0 \<and> rep (a_swept K s0 M part k) s
     \<and> (\<forall>c. 1 \<le> c \<and> c < 40 \<longrightarrow> distinct (part c) \<and>
          set (part c) = {j. 1 \<le> j \<and> j < k \<and> kept K s0 M j = Small c \<and> unmarked s0 M c j \<noteq> []})
     \<and> (\<forall>i m. 1 \<le> i \<and> i < k \<and> K i = Large m \<and> hit s0 M i \<longrightarrow> i + m \<le> k)
     \<and> distinct ks \<and> set ks = {j. 1 \<le> j \<and> j < k \<and> kept K s0 M j = Unused}
     \<and> dlinked (\<lambda>j. next_free_is s (desc_at s0 j)) s0 ks
     \<and> (\<forall>j. k \<le> j \<and> j < sb_num s0 \<longrightarrow> descs s (desc_at s0 j) = descs s0 (desc_at s0 j)
          \<and> pm_descs (pm s) (desc_at s0 j) = pm_descs (pm s0) (desc_at s0 j))
     \<and> cells_changed K s0 M k (mem s)"

subsection \<open>Frame\<close>

lemma sb_block_disjoint:
  assumes "layout_ok s" and "j < sb_cap s" and "k < sb_cap s" and "j \<noteq> k" and "1 \<le> c" and "c < 40"
    and "i < bnum c" and "l < 8" and "off < 65536"
  shows "block_at s c j i + of_nat l \<noteq> sb_at s k + of_nat off"
proof
  have o: "i * bsz c + l < 65536"
    using block_end_le [OF assms(5-7)] class_facts(1) [OF assms(5,6)] assms(8) by linarith
  assume "block_at s c j i + of_nat l = sb_at s k + of_nat off"
  then have "sb_at s j + of_nat (i * bsz c + l) = sb_at s k + of_nat off" by (simp add: block_at_def add.assoc)
  then show False using drop_bit_sb_eq [OF assms(1-3) o assms(9)] assms(4) by metis
qed

text \<open>A superblock on no list gets a new descriptor and new contents.\<close>

lemma sweep_frame:
  assumes rep: "rep g s" and none: "\<And>t c. a_cache g t c = []" "a_avail g = []"
    and k: "sb_valid g k" and fresh: "\<And>c. 1 \<le> c \<Longrightarrow> c < 40 \<Longrightarrow> k \<notin> set (a_part g c)"
    and small: "\<And>j c. sb_valid g j \<Longrightarrow> a_kind g j = Small c \<Longrightarrow> 1 \<le> c \<and> c < 40 \<and> set (a_free g j) \<subseteq> {..<bnum c}"
    and st: "rgs s' = rgs s" "avail_sb s' = avail_sb s" "heaps s' = heaps s" "wb s' = []" "t_caches s' = t_caches s"
    and ds: "\<And>j. j \<noteq> k \<Longrightarrow> sb_valid g j \<Longrightarrow> descs s' (desc_at s j) = descs s (desc_at s j)
      \<and> pm_descs (pm s') (desc_at s j) = pm_descs (pm s) (desc_at s j)"
    and ms: "\<And>a. mem s' a \<noteq> mem s a \<Longrightarrow> \<exists>off < 65536. a = sb_at s k + of_nat off"
    and g': "g' = g\<lparr>a_kind := (a_kind g)(k := K'), a_free := (a_free g)(k := fs)\<rparr>"
    and dk: "desc_rep g' s' k" "durable_rep g' s' k"
  shows "rep g' s'"
proof (rule repI)
  note lay = repD(1) [OF rep]
  have v: "sb_valid g' = sb_valid g" by (simp add: fun_eq_iff sb_valid_def g')
  have gs: "a_kind g' j = a_kind g j" "a_free g' j = a_free g j" if "j \<noteq> k" for j using that by (simp_all add: g')
  show "layout_ok s'" "sb_num s' = a_num g'" "wb s' = []"
    using repD(1,2) [OF rep] st(4) by (simp_all add: geometry_cong [OF st(1)] g')
  show "h_sc_idx (heaps s' (heap_addr (base_md s') i)) = of_nat i" if "i < 40" for i
    using repD(4) [OF rep that] by (simp add: geometry_cong [OF st(1)] st(3))
  show "avail_rep g' s'"
    by (rule avail_rep_frame [OF repD(5) [OF rep] st(1,2)]) (simp_all add: g' none)
  show "part_rep g' s' c" if c: "1 \<le> c" "c < 40" for c
  proof (rule part_rep_other [OF rep c st(1,3)])
    show "descs s' (desc_at s j) = descs s (desc_at s j)" if "j \<in> set (a_part g c)" "sb_valid g j" for j
      using ds [OF _ that(2)] fresh [OF c] that(1) by auto
  qed (simp_all add: g')
  show "desc_rep g' s' j" if "sb_valid g' j" for j
  proof (cases "j = k")
    case False
    have jv: "sb_valid g j" using that v by simp
    show ?thesis
    proof (rule desc_rep_frame [OF repD(7) [OF rep jv] st(1)])
      fix c i assume c: "a_kind g j = Small c" and i: "i \<in> set (a_free g j)"
      show "load_pptr (mem s') (block_at s c j i) = load_pptr (mem s) (block_at s c j i)"
      proof (rule load_pptr_cong, rule ccontr)
        fix l :: nat assume l: "l < 8"
        assume "mem s' (block_at s c j i + of_nat l) \<noteq> mem s (block_at s c j i + of_nat l)"
        then obtain off where "off < 65536" "block_at s c j i + of_nat l = sb_at s k + of_nat off" using ms by blast
        then show False
          using sb_block_disjoint [OF lay sb_valid_cap(1) [OF rep jv] sb_valid_cap(1) [OF rep k] False _ _ _ l]
            small [OF jv c] i by auto
      qed
    qed (use ds [OF False jv] gs [OF False] in \<open>simp_all add: desc_same_def\<close>)
  qed (use dk in simp)
  show "durable_rep g' s' j" if "sb_valid g' j" for j
  proof (cases "j = k")
    case False
    with that v show ?thesis
      by (intro durable_rep_frame [OF repD(8) [OF rep] st(1)]) (simp_all add: ds gs)
  qed (use dk in simp)
  show "caches_rep g' s' t c" if c: "1 \<le> c" "c < 40" for t c
    by (rule caches_rep_frame [OF repD(9) [OF rep c] st(1)]) (simp_all add: st g' none)
qed

subsection \<open>The marked addresses in order\<close>

definition marks_in :: "ralloc_state \<Rightarrow> addr set \<Rightarrow> nat \<Rightarrow> addr set" where
  "marks_in s M k = {a \<in> M. \<exists>off < 65536. a = sb_at s k + of_nat off}"

definition marks_from :: "ralloc_state \<Rightarrow> addr set \<Rightarrow> nat \<Rightarrow> addr set" where
  "marks_from s M k = {a \<in> M. sb_at s k \<le> a}"

definition marks_ok :: "(nat \<Rightarrow> sb_kind) \<Rightarrow> ralloc_state \<Rightarrow> addr set \<Rightarrow> bool" where
  "marks_ok K s M \<longleftrightarrow> (\<forall>a \<in> M. mark_ok K s a)"

lemma marks_okD:
  assumes "marks_ok K s M" and "a \<in> M"
  obtains k off where "1 \<le> k" and "k < sb_num s" and "off < 65536" and "a = sb_at s k + of_nat off"
    and "case K k of Small c \<Rightarrow> \<exists>i < bnum c. off = i * bsz c | Tail \<Rightarrow> False | _ \<Rightarrow> True"
  using assms unfolding marks_ok_def mark_ok_def by blast

lemma sb_le_iff:
  assumes "layout_ok s" and "j \<le> sb_cap s" and "k < sb_cap s" and "off < 65536"
  shows "sb_at s j \<le> sb_at s k + of_nat off \<longleftrightarrow> j \<le> k"
  using unat_sb_at [OF assms(1,2)] unat_sb_off [OF assms(1,3), of off] assms(4)
  by (auto simp: word_le_nat_alt)

lemma sb_addr_inj:
  assumes "layout_ok s" and "j < sb_cap s" and "k < sb_cap s" and "off < 65536" and "off' < 65536"
    and "sb_at s j + of_nat off = sb_at s k + of_nat off'"
  shows "j = k"
  using drop_bit_sb_eq [OF assms(1-5)] assms(6) by metis

lemma sorted_append_sets:
  fixes A B :: "'a :: linorder set"
  assumes "finite A" and "finite B" and "\<And>a b. a \<in> A \<Longrightarrow> b \<in> B \<Longrightarrow> a < b"
  shows "sorted_list_of_set (A \<union> B) = sorted_list_of_set A @ sorted_list_of_set B"
proof (rule sorted_distinct_set_unique)
  show "sorted (sorted_list_of_set A @ sorted_list_of_set B)"
    using assms by (auto simp: sorted_append intro: less_imp_le)
  show "distinct (sorted_list_of_set A @ sorted_list_of_set B)" using assms by fastforce
qed (use assms in simp_all)

lemma marks_next:
  assumes lay: "layout_ok s" and ok: "marks_ok K s M" and k: "k < sb_num s"
  shows "sorted_list_of_set (marks_from s M k) =
    sorted_list_of_set (marks_in s M k) @ sorted_list_of_set (marks_from s M (Suc k))"
proof -
  have cap: "sb_num s \<le> sb_cap s" by (rule sb_num_le_cap [OF lay])
  have cl: "(a \<in> marks_from s M k \<longleftrightarrow> k \<le> j) \<and> (a \<in> marks_from s M (Suc k) \<longleftrightarrow> k < j) \<and> (a \<in> marks_in s M k \<longleftrightarrow> j = k)"
    if a: "a \<in> M" "j < sb_num s" "off < 65536" "a = sb_at s j + of_nat off" for a j off
  proof -
    have jc: "j < sb_cap s" and kc: "k < sb_cap s" using a(2) k cap by simp_all
    have "a \<in> marks_in s M k \<longleftrightarrow> j = k"
    proof
      assume "a \<in> marks_in s M k"
      then obtain off' where "off' < 65536" "a = sb_at s k + of_nat off'" by (auto simp: marks_in_def)
      then show "j = k" using sb_addr_inj [OF lay jc kc a(3), of off'] a(4) by simp
    next
      assume "j = k"
      then show "a \<in> marks_in s M k" using a(1,3,4) unfolding marks_in_def by blast
    qed
    then show ?thesis
      using sb_le_iff [OF lay _ jc a(3)] kc a(1,4) by (auto simp: marks_from_def)
  qed
  have "marks_from s M k = marks_in s M k \<union> marks_from s M (Suc k)"
  proof (rule set_eqI)
    fix a
    show "a \<in> marks_from s M k \<longleftrightarrow> a \<in> marks_in s M k \<union> marks_from s M (Suc k)"
    proof (cases "a \<in> M")
      case True
      then show ?thesis using cl [OF True] by (elim marks_okD [OF ok]) fastforce
    qed (simp add: marks_from_def marks_in_def)
  qed
  moreover have "a < b" if ab: "a \<in> marks_in s M k" "b \<in> marks_from s M (Suc k)" for a b
  proof -
    obtain off where a: "off < 65536" "a = sb_at s k + of_nat off" using ab(1) by (auto simp: marks_in_def)
    have "unat a < unat (sb_at s (Suc k))"
      using unat_sb_off [OF lay, of k off] unat_sb_at [OF lay, of "Suc k"] a k cap by simp
    then show ?thesis using ab(2) by (simp add: marks_from_def word_le_nat_alt word_less_nat_alt)
  qed
  ultimately show ?thesis using sorted_append_sets [of "marks_in s M k" "marks_from s M (Suc k)"] by simp
qed

lemma marks_rest:
  assumes lay: "layout_ok s" and ok: "marks_ok K s M" and k: "k < sb_num s"
    and rest: "rest = sorted_list_of_set (marks_from s M (Suc k))"
  shows "rest = [] \<or> drop_bit SB_SHIFT (sb_at s k) \<noteq> drop_bit SB_SHIFT (hd rest)"
proof (cases rest)
  case (Cons a as)
  have cap: "sb_num s \<le> sb_cap s" by (rule sb_num_le_cap [OF lay])
  have "set rest = marks_from s M (Suc k)" using rest by simp
  then have a: "a \<in> M" "sb_at s (Suc k) \<le> a" using Cons by (auto simp: marks_from_def)
  obtain j off where j: "1 \<le> j" "j < sb_num s" "off < 65536" "a = sb_at s j + of_nat off"
    using a(1) by (rule marks_okD [OF ok])
  have "Suc k \<le> j" using sb_le_iff [OF lay, of "Suc k" j off] a(2) j k cap by simp
  then have "drop_bit 16 (sb_at s k + of_nat 0) \<noteq> drop_bit 16 a"
    using drop_bit_sb_eq [OF lay, of k j 0 off] j k cap by simp
  then show ?thesis using Cons by simp
qed simp

lemma marks_small:
  assumes lay: "layout_ok s" and ok: "marks_ok K s M" and k: "k < sb_num s" and c: "1 \<le> c" "c < 40" "K k = Small c"
  shows "sorted_list_of_set (marks_in s M k) = map (block_at s c k) (filter (\<lambda>i. block_at s c k i \<in> M) [0..<bnum c])"
    and "hit s M k \<longleftrightarrow> (\<exists>i < bnum c. block_at s c k i \<in> M)"
proof -
  have kc: "k < sb_cap s" using sb_num_le_cap [OF lay] k by simp
  have off: "i * bsz c < 65536" if "i < bnum c" for i
    using block_end_le [OF c(1,2) that] class_facts(1) [OF c(1,2)] by linarith
  have in_M: "a \<in> marks_in s M k \<longleftrightarrow> (\<exists>i < bnum c. a = block_at s c k i \<and> a \<in> M)" for a
  proof
    assume a: "a \<in> marks_in s M k"
    then have "a \<in> M" by (simp add: marks_in_def)
    then obtain j o' where j: "1 \<le> j" "j < sb_num s" "o' < 65536" "a = sb_at s j + of_nat o'"
      "case K j of Small c \<Rightarrow> \<exists>i < bnum c. o' = i * bsz c | Tail \<Rightarrow> False | _ \<Rightarrow> True"
      by (rule marks_okD [OF ok])
    obtain o'' where o: "o'' < 65536" "a = sb_at s k + of_nat o''" using a by (auto simp: marks_in_def)
    have "j < sb_cap s" using sb_num_le_cap [OF lay] j(2) by simp
    then have "j = k" using sb_addr_inj [OF lay _ kc j(3) o(1)] j(4) o(2) by metis
    then show "\<exists>i < bnum c. a = block_at s c k i \<and> a \<in> M"
      using j(4,5) c(3) \<open>a \<in> M\<close> unfolding block_at_def by auto
  next
    assume "\<exists>i < bnum c. a = block_at s c k i \<and> a \<in> M"
    then show "a \<in> marks_in s M k" using off unfolding marks_in_def block_at_def by blast
  qed
  let ?is = "filter (\<lambda>i. block_at s c k i \<in> M) [0..<bnum c]"
  have less: "block_at s c k i < block_at s c k j \<longleftrightarrow> i < j" if "i < bnum c" "j < bnum c" for i j
    using block_at_less [OF lay kc c(1,2), of i j] that by simp
  have "sorted_wrt (<) ?is" by (rule sorted_wrt_filter) (rule sorted_wrt_upt)
  then have "sorted_wrt (\<lambda>i j. block_at s c k i < block_at s c k j) ?is"
    by (rule sorted_wrt_mono_rel [rotated]) (use less in auto)
  then have "sorted_wrt (<) (map (block_at s c k) ?is)" by (simp add: sorted_wrt_map)
  then have "sorted (map (block_at s c k) ?is)" "distinct (map (block_at s c k) ?is)"
    by (simp_all add: strict_sorted_iff)
  moreover have "set (map (block_at s c k) ?is) = marks_in s M k" using in_M by auto
  moreover have "finite (marks_in s M k)" by simp
  ultimately show "sorted_list_of_set (marks_in s M k) = map (block_at s c k) ?is"
    by (intro sorted_distinct_set_unique) simp_all
  have "hit s M k \<longleftrightarrow> (\<exists>a. a \<in> marks_in s M k)" by (auto simp: hit_def marks_in_def)
  then show "hit s M k \<longleftrightarrow> (\<exists>i < bnum c. block_at s c k i \<in> M)" unfolding in_M by auto
qed

end
