(* ===== verification/GCRep.thy ===== *)
theory GCRep
  imports GCInv
begin

text \<open>
  Each iteration of the sweep keeps its invariant, for unused superblocks, for large blocks
  and for superblocks with small blocks; the sweep as a whole rebuilds the heap.
\<close>

subsection \<open>Facts of the invariant\<close>

lemma gc_readyD:
  assumes "gc_ready K s"
  shows "layout_ok s" and "1 \<le> sb_num s" and "wb s = []"
    and "\<And>i. i < 40 \<Longrightarrow> h_sc_idx (heaps s (heap_addr (base_md s) i)) = of_nat i"
    and "\<And>t c. tc_block_num (t_caches s t c) = 0"
    and "\<And>k. 1 \<le> k \<Longrightarrow> k < sb_num s \<Longrightarrow> kind_rep K s k"
  using assms by (auto simp: gc_ready_def)

lemma sweep_invD:
  assumes "sweep_inv K s0 M k part ks s"
  shows "1 \<le> k" and "k \<le> sb_num s0" and "rgs s = rgs s0" and "roots s = roots s0" and "dirty_mtx s = dirty_mtx s0"
    and "rep (a_swept K s0 M part k) s"
    and "\<And>c. 1 \<le> c \<Longrightarrow> c < 40 \<Longrightarrow> distinct (part c)"
    and "\<And>c j. 1 \<le> c \<Longrightarrow> c < 40 \<Longrightarrow>
      j \<in> set (part c) \<longleftrightarrow> 1 \<le> j \<and> j < k \<and> kept K s0 M j = Small c \<and> unmarked s0 M c j \<noteq> []"
    and "\<And>i m. 1 \<le> i \<Longrightarrow> i < k \<Longrightarrow> K i = Large m \<Longrightarrow> hit s0 M i \<Longrightarrow> i + m \<le> k"
    and "distinct ks" and "\<And>j. j \<in> set ks \<longleftrightarrow> 1 \<le> j \<and> j < k \<and> kept K s0 M j = Unused"
    and "dlinked (\<lambda>j. next_free_is s (desc_at s0 j)) s0 ks"
    and "\<And>j. k \<le> j \<Longrightarrow> j < sb_num s0 \<Longrightarrow> descs s (desc_at s0 j) = descs s0 (desc_at s0 j)"
    and "\<And>j. k \<le> j \<Longrightarrow> j < sb_num s0 \<Longrightarrow> pm_descs (pm s) (desc_at s0 j) = pm_descs (pm s0) (desc_at s0 j)"
    and "cells_changed K s0 M k (mem s)"
  using assms unfolding sweep_inv_def by auto

lemma kept_small:
  assumes "gc_ready K s" and "1 \<le> j" and "j < sb_num s" and "kept K s M j = Small c"
  shows "K j = Small c" and "hit s M j" and "1 \<le> c" and "c < 40"
proof -
  show K: "K j = Small c" "hit s M j"
    using assms(4) by (auto simp: kept_def split: sb_kind.splits if_splits)
  show "1 \<le> c" "c < 40" using gc_readyD(6) [OF assms(1-3)] K(1) by (simp_all add: kind_rep_def)
qed

lemma sb_at_next: "sb_at s k + SBSIZE = sb_at s (Suc k)"
  by (simp add: sb_at_def algebra_simps)

lemma swept_small:
  assumes "gc_ready K s0" and "sb_valid (a_swept K s0 M part k) j" and "a_kind (a_swept K s0 M part k) j = Small c"
  shows "1 \<le> c \<and> c < 40 \<and> set (a_free (a_swept K s0 M part k) j) \<subseteq> {..<bnum c}"
proof -
  have j: "1 \<le> j" "j < sb_num s0" "kept K s0 M j = Small c" "j < k"
    using assms(2) by simp_all (use assms(3) in \<open>simp_all add: a_swept_def split: if_splits\<close>)
  then show ?thesis using kept_small [OF assms(1) j(1-3)] by (auto simp: a_swept_at unmarked_def)
qed

lemma cells_changed_mono: "cells_changed K s M k m \<Longrightarrow> k \<le> k' \<Longrightarrow> cells_changed K s M k' m"
  unfolding cells_changed_def by (meson less_le_trans)

text \<open>The next invariant after a step that changes only superblock \<open>k\<close>.\<close>

lemma sweep_step_rep:
  assumes ready: "gc_ready K s0" and inv: "sweep_inv K s0 M k part ks s" and k: "k < sb_num s0"
    and st: "rgs s' = rgs s" "avail_sb s' = avail_sb s" "heaps s' = heaps s" "wb s' = []" "t_caches s' = t_caches s"
    and ds: "\<And>a. a \<noteq> desc_at s0 k \<Longrightarrow> descs s' a = descs s a \<and> pm_descs (pm s') a = pm_descs (pm s) a"
    and ms: "\<And>a. mem s' a \<noteq> mem s a \<Longrightarrow> \<exists>off < 65536. a = sb_at s0 k + of_nat off"
    and dk: "desc_rep (a_swept K s0 M part (Suc k)) s' k" "durable_rep (a_swept K s0 M part (Suc k)) s' k"
  shows "rep (a_swept K s0 M part (Suc k)) s'"
    and "\<And>j. j \<noteq> k \<Longrightarrow> j < sb_num s0 \<Longrightarrow> descs s' (desc_at s0 j) = descs s (desc_at s0 j)
      \<and> pm_descs (pm s') (desc_at s0 j) = pm_descs (pm s) (desc_at s0 j)"
proof -
  note iv = sweep_invD [OF inv] and geo = geometry_cong [OF sweep_invD(3) [OF inv]]
  have cap: "sb_num s0 \<le> sb_cap s0" by (rule sb_num_le_cap [OF gc_readyD(1) [OF ready]])
  show other: "descs s' (desc_at s0 j) = descs s (desc_at s0 j)
      \<and> pm_descs (pm s') (desc_at s0 j) = pm_descs (pm s) (desc_at s0 j)" if "j \<noteq> k" "j < sb_num s0" for j
    using ds [of "desc_at s0 j"] desc_at_inj [OF gc_readyD(1) [OF ready], of j k] that k cap by simp
  show "rep (a_swept K s0 M part (Suc k)) s'"
    by (rule sweep_frame [OF iv(6), where k = k and s' = s', OF _ _ _ _ _ st _ _ a_swept_Suc [OF iv(1)] dk])
      (use iv(1,8) k other ms swept_small [OF ready] in \<open>auto simp: geo\<close>)
qed

subsection \<open>Unused superblocks\<close>

lemma sweep_marked_skip:
  assumes "\<And>b. b \<in> set bs \<Longrightarrow> drop_bit SB_SHIFT (sb_at s k) = drop_bit SB_SHIFT b"
    and "\<not> in_use s k (descs s d)" and "rest = [] \<or> drop_bit SB_SHIFT (sb_at s k) \<noteq> drop_bit SB_SHIFT (hd rest)"
  shows "sweep_marked (sb_at s k) d (bs @ rest) l s = Inr (rest, l, s)"
  using assms(1)
proof (induction bs)
  case Nil
  then show ?case using assms(3) by (cases rest) auto
next
  case (Cons b bs)
  then show ?case using assms(2) by (auto simp: in_use_def cross_is_null_def)
qed

lemma marks_in_shift:
  assumes "layout_ok s" and "k < sb_num s" and "b \<in> set (sorted_list_of_set (marks_in s M k))"
  shows "drop_bit SB_SHIFT (sb_at s k) = drop_bit SB_SHIFT b"
proof -
  have kc: "k < sb_cap s" using sb_num_le_cap [OF assms(1)] assms(2) by simp
  obtain off where "off < 65536" "b = sb_at s k + of_nat off" using assms(3) by (auto simp: marks_in_def)
  then show ?thesis using drop_bit_sb_eq [OF assms(1) kc kc, of 0 off] by simp
qed

lemma sweep_marked_empty:
  assumes ready: "gc_ready K s0" and ok: "marks_ok K s0 M" and inv: "sweep_inv K s0 M k part ks s"
    and k: "k < sb_num s0" and no: "\<not> hit s0 M k \<or> K k = Unused"
  shows "sweep_marked (sb_at s0 k) (desc_at s0 k) (sorted_list_of_set (marks_from s0 M k)) l s
    = Inr (sorted_list_of_set (marks_from s0 M (Suc k)), l, s)"
proof -
  note lay = gc_readyD(1) [OF ready] and iv = sweep_invD [OF inv] and geo = geometry_cong [OF sweep_invD(3) [OF inv]]
  note rest = marks_rest [OF lay ok k refl]
  let ?rest = "sorted_list_of_set (marks_from s0 M (Suc k))"
  show ?thesis
  proof (cases "hit s0 M k")
    case False
    then have "marks_in s0 M k = {}" by (auto simp: hit_def marks_in_def)
    then have "sorted_list_of_set (marks_from s0 M k) = ?rest" using marks_next [OF lay ok k] by simp
    then show ?thesis using rest by (cases ?rest) auto
  next
    case True
    then have "\<not> in_use s0 k (descs s0 (desc_at s0 k))"
      using no gc_readyD(6) [OF ready iv(1) k] by (simp add: kind_rep_def)
    then have "\<not> in_use s k (descs s (desc_at s0 k))"
      using iv(13) [of k] k by (simp add: in_use_def iv(3) geo)
    from sweep_marked_skip [OF _ this, of "sorted_list_of_set (marks_in s0 M k)" ?rest l]
    show ?thesis using rest marks_in_shift [OF lay k] by (simp add: geo marks_next [OF lay ok k])
  qed
qed

lemma sweep_iter_empty:
  assumes ready: "gc_ready K s0" and ok: "marks_ok K s0 M" and inv: "sweep_inv K s0 M k part ks s"
    and k: "k < sb_num s0" and no: "\<not> hit s0 M k \<or> K k = Unused"
  shows "\<exists>s'. sweep_iter (sb_at s0 k) (desc_at s0 k) (sorted_list_of_set (marks_from s0 M k)) (desc_ptr s0 (head_opt ks)) s
      = Inr (sorted_list_of_set (marks_from s0 M (Suc k)), sb_at s0 (Suc k), desc_at s0 (Suc k), desc_ptr s0 (head_opt (k # ks)), s')
    \<and> sweep_inv K s0 M (Suc k) part (k # ks) s'"
proof -
  note lay = gc_readyD(1) [OF ready] and iv = sweep_invD [OF inv] and geo = geometry_cong [OF sweep_invD(3) [OF inv]]
  have cap: "sb_num s0 \<le> sb_cap s0" by (rule sb_num_le_cap [OF lay])
  let ?d = "desc_at s0 k"
  let ?s' = "store_next_free ?d (desc_ptr s0 (head_opt ks)) (construct_desc ?d s)"
  have wb: "wb s = []" by (rule repD(3) [OF iv(6)])
  have r: "rgs ?s' = rgs s0" using iv(3) by simp
  have un: "kept K s0 M k = Unused"
  proof (cases "K k")
    case Tail
    have "\<not> (\<exists>i m. 1 \<le> i \<and> i < k \<and> k < i + m \<and> K i = Large m \<and> hit s0 M i)"
      using iv(9) by (metis not_le)
    then show ?thesis using Tail by (simp add: kept_def)
  qed (use no in \<open>auto simp: kept_def\<close>)
  have kind: "a_kind (a_swept K s0 M part (Suc k)) k = Unused" using a_swept_at(1) [of k "Suc k"] iv(1) un by simp
  have dk: "desc_rep (a_swept K s0 M part (Suc k)) ?s' k" "durable_rep (a_swept K s0 M part (Suc k)) ?s' k"
    using kind wb by (simp_all add: desc_rep_def durable_rep_def geometry_cong [OF r])
  have rep': "rep (a_swept K s0 M part (Suc k)) ?s'"
    and other: "\<And>j. j \<noteq> k \<Longrightarrow> j < sb_num s0 \<Longrightarrow> descs ?s' (desc_at s0 j) = descs s (desc_at s0 j)
      \<and> pm_descs (pm ?s') (desc_at s0 j) = pm_descs (pm s) (desc_at s0 j)"
    using sweep_step_rep [OF ready inv k, of ?s'] dk wb by simp_all
  have ksv: "\<forall>j \<in> set ks. sb_valid (a_swept K s0 M part k) j" using iv(2,11) by auto
  have knot: "k \<notin> set ks" using iv(11) by simp
  have nx: "next_free_is ?s' ?d (desc_ptr s0 (head_opt ks))"
    by (simp add: next_free_is_def)
  have dl: "dlinked (\<lambda>j. next_free_is ?s' (desc_at s0 j)) s0 (k # ks)"
  proof -
    have "next_free_is ?s' (desc_at s0 j) = next_free_is s (desc_at s0 j)" if "j \<in> set ks" for j
    proof -
      have "j \<noteq> k" "j < sb_num s0" using that knot iv(11) [of j] k by auto
      then show ?thesis unfolding next_free_is_def fun_eq_iff using other [of j] by (simp del: store_next_descs)
    qed
    then have "dlinked (\<lambda>j. next_free_is ?s' (desc_at s0 j)) s0 ks"
      using dlinked_cong [of ks "\<lambda>j. next_free_is ?s' (desc_at s0 j)" "\<lambda>j. next_free_is s (desc_at s0 j)" s0 s0] iv(12)
      by blast
    then show ?thesis using nx by simp
  qed
  have "sweep_inv K s0 M (Suc k) part (k # ks) ?s'"
    unfolding sweep_inv_def
  proof (intro conjI allI impI)
    show "rep (a_swept K s0 M part (Suc k)) ?s'" by (rule rep')
    show "dlinked (\<lambda>j. next_free_is ?s' (desc_at s0 j)) s0 (k # ks)" by (rule dl)
    show "set (part c) = {j. 1 \<le> j \<and> j < Suc k \<and> kept K s0 M j = Small c \<and> unmarked s0 M c j \<noteq> []}"
      if c: "1 \<le> c \<and> c < 40" for c
    proof (rule set_eqI)
      fix j
      show "j \<in> set (part c) \<longleftrightarrow> j \<in> {j. 1 \<le> j \<and> j < Suc k \<and> kept K s0 M j = Small c \<and> unmarked s0 M c j \<noteq> []}"
        using iv(8) [of c j] c un by (auto simp: less_Suc_eq)
    qed
    show "set (k # ks) = {j. 1 \<le> j \<and> j < Suc k \<and> kept K s0 M j = Unused}"
      using iv(1) un by (auto simp: less_Suc_eq iv(11))
    show "cells_changed K s0 M (Suc k) (mem ?s')"
      using cells_changed_mono [OF iv(15), of "Suc k"] by simp
    show "i + m \<le> Suc k" if "1 \<le> i \<and> i < Suc k \<and> K i = Large m \<and> hit s0 M i" for i m
      using that iv(9) [of i m] no by (cases "i = k") auto
    show "descs ?s' (desc_at s0 j) = descs s0 (desc_at s0 j)"
      "pm_descs (pm ?s') (desc_at s0 j) = pm_descs (pm s0) (desc_at s0 j)" if "Suc k \<le> j \<and> j < sb_num s0" for j
      using other [of j] iv(13,14) [of j] that by simp_all
    show "distinct (part c)" if "1 \<le> c \<and> c < 40" for c using iv(7) that by simp
    show "1 \<le> Suc k" "Suc k \<le> sb_num s0" "distinct (k # ks)" using iv(10) k knot by simp_all
    show "rgs ?s' = rgs s0" "roots ?s' = roots s0" "dirty_mtx ?s' = dirty_mtx s0" using iv(3-5) by simp_all
  qed
  moreover have "sweep_iter (sb_at s0 k) ?d (sorted_list_of_set (marks_from s0 M k)) (desc_ptr s0 (head_opt ks)) s
      = Inr (sorted_list_of_set (marks_from s0 M (Suc k)), sb_at s0 (Suc k), desc_at s0 (Suc k), desc_ptr s0 (head_opt (k # ks)), ?s')"
    unfolding sweep_iter_def sweep_marked_empty [OF assms]
    using sb_at_next [of s0 k] by (simp add: sweep_empty_def desc_at_Suc)
  ultimately show ?thesis by blast
qed

subsection \<open>Superblocks that stay in use\<close>

lemma sweep_inv_used:
  assumes inv: "sweep_inv K s0 M k part ks s" and k': "k < k'" "k' \<le> sb_num s0"
    and used: "\<And>j. k \<le> j \<Longrightarrow> j < k' \<Longrightarrow> kept K s0 M j \<noteq> Unused"
    and rep: "rep (a_swept K s0 M part' k') s'"
    and st: "rgs s' = rgs s" "roots s' = roots s" "dirty_mtx s' = dirty_mtx s"
    and part: "\<And>c. 1 \<le> c \<Longrightarrow> c < 40 \<Longrightarrow> distinct (part' c)"
      "\<And>c j. 1 \<le> c \<Longrightarrow> c < 40 \<Longrightarrow>
        j \<in> set (part' c) \<longleftrightarrow> 1 \<le> j \<and> j < k' \<and> kept K s0 M j = Small c \<and> unmarked s0 M c j \<noteq> []"
    and cover: "\<And>i m. 1 \<le> i \<Longrightarrow> i < k' \<Longrightarrow> K i = Large m \<Longrightarrow> hit s0 M i \<Longrightarrow> i + m \<le> k'"
    and ds: "\<And>j. j \<noteq> k \<Longrightarrow> j < sb_num s0 \<Longrightarrow> descs s' (desc_at s0 j) = descs s (desc_at s0 j)
      \<and> pm_descs (pm s') (desc_at s0 j) = pm_descs (pm s) (desc_at s0 j)"
    and cells: "cells_changed K s0 M k' (mem s')"
  shows "sweep_inv K s0 M k' part' ks s'"
  unfolding sweep_inv_def
proof (intro conjI allI impI)
  note iv = sweep_invD [OF inv]
  show "1 \<le> k'" "k' \<le> sb_num s0" "rgs s' = rgs s0" "roots s' = roots s0" "dirty_mtx s' = dirty_mtx s0"
    using iv(3-5) st k' by simp_all
  show "rep (a_swept K s0 M part' k') s'" "cells_changed K s0 M k' (mem s')" by (rule rep, rule cells)
  show "distinct (part' c)" if "1 \<le> c \<and> c < 40" for c using part(1) that by simp
  show "set (part' c) = {j. 1 \<le> j \<and> j < k' \<and> kept K s0 M j = Small c \<and> unmarked s0 M c j \<noteq> []}"
    if "1 \<le> c \<and> c < 40" for c using part(2) [of c] that by (intro set_eqI) simp
  show "i + m \<le> k'" if "1 \<le> i \<and> i < k' \<and> K i = Large m \<and> hit s0 M i" for i m using cover that by simp
  show "distinct ks" by (rule iv)
  show "set ks = {j. 1 \<le> j \<and> j < k' \<and> kept K s0 M j = Unused}"
  proof (rule set_eqI)
    fix j
    show "j \<in> set ks \<longleftrightarrow> j \<in> {j. 1 \<le> j \<and> j < k' \<and> kept K s0 M j = Unused}"
      using iv(11) [of j] used [of j] k' by (cases "k \<le> j") auto
  qed
  have "next_free_is s' (desc_at s0 j) = next_free_is s (desc_at s0 j)" if "j \<in> set ks" for j
    using ds [of j] iv(2) iv(11) [of j] that by (simp add: next_free_is_def fun_eq_iff)
  then show "dlinked (\<lambda>j. next_free_is s' (desc_at s0 j)) s0 ks"
    using dlinked_cong [of ks "\<lambda>j. next_free_is s' (desc_at s0 j)" "\<lambda>j. next_free_is s (desc_at s0 j)" s0 s0] iv(12)
    by blast
  show "descs s' (desc_at s0 j) = descs s0 (desc_at s0 j)"
    "pm_descs (pm s') (desc_at s0 j) = pm_descs (pm s0) (desc_at s0 j)" if "k' \<le> j \<and> j < sb_num s0" for j
    using ds [of j] iv(13,14) [of j] that k' by simp_all
qed

lemma sweep_marked_large:
  assumes "\<And>b. b \<in> set bs \<Longrightarrow> drop_bit SB_SHIFT (sb_at s k) = drop_bit SB_SHIFT b"
    and "in_use s k (descs s d)" and "desc_heap_idx s d = 0" and "d_maxcount (descs s d) = 1"
    and "rest = [] \<or> drop_bit SB_SHIFT (sb_at s k) \<noteq> drop_bit SB_SHIFT (hd rest)"
  shows "\<exists>l'. sweep_marked (sb_at s k) d (bs @ rest) l s = Inr (rest, l', s)
    \<and> sb_state (sw_anchor l') = (if bs = [] then sb_state (sw_anchor l) else SB_FULL)"
  using assms(1)
proof (induction bs arbitrary: l)
  case Nil
  then show ?case using assms(5) by (cases rest) auto
next
  case (Cons b bs)
  let ?l = "l\<lparr>sw_anchor := (sw_anchor l)\<lparr>sb_state := SB_FULL\<rparr>\<rparr>"
  have "sweep_marked (sb_at s k) d ((b # bs) @ rest) l s = sweep_marked (sb_at s k) d (bs @ rest) ?l s"
    using Cons.prems [of b] assms(2-4) by (simp add: in_use_def cross_is_null_def)
  moreover obtain l' where "sweep_marked (sb_at s k) d (bs @ rest) ?l s = Inr (rest, l', s)"
    "sb_state (sw_anchor l') = (if bs = [] then sb_state (sw_anchor ?l) else SB_FULL)"
    using Cons.IH [of ?l] Cons.prems by force
  ultimately show ?case by (simp del: sweep_marked.simps split: if_splits)
qed

lemma in_use_static:
  assumes "layout_ok s" and "1 \<le> k" and "k < sb_cap s" and "c < 40" and "desc_static s k c bs n v"
  shows "in_use s k v"
proof -
  have "d_heap v \<noteq> 0"
    using cross_heap_addr(1) [OF assms(1,4)] assms(5) unat_heap_addr [OF assms(1,4)]
    by (auto simp: desc_static_def cross_get_def cross_is_null_def)
  then show ?thesis using desc_static_get(1) [OF assms] by (simp add: in_use_def)
qed

lemma marks_in_hit: "hit s M k \<longleftrightarrow> sorted_list_of_set (marks_in s M k) \<noteq> []"
proof -
  have "sorted_list_of_set (marks_in s M k) \<noteq> [] \<longleftrightarrow> marks_in s M k \<noteq> {}" 
    by (metis empty_set finite set_empty set_sorted_list_of_set)
  then show ?thesis by (auto simp: hit_def marks_in_def)
qed

lemma store_anchor_simps [simp]:
  "descs (store_anchor d a s) = (descs s)(d := (descs s d)\<lparr>d_anchor := a\<rparr>)"
  "avail_sb (store_anchor d a s) = avail_sb s" "heaps (store_anchor d a s) = heaps s"
  "roots (store_anchor d a s) = roots s" "mem (store_anchor d a s) = mem s"
  "t_caches (store_anchor d a s) = t_caches s" "pm (store_anchor d a s) = pm s" "wb (store_anchor d a s) = wb s"
  "dirty_mtx (store_anchor d a s) = dirty_mtx s" "rgs (store_anchor d a s) = rgs s"
  by (simp_all add: store_anchor_def)

lemma sweep_iter_large:
  assumes ready: "gc_ready K s0" and ok: "marks_ok K s0 M" and inv: "sweep_inv K s0 M k part ks s"
    and k: "k < sb_num s0" and lg: "K k = Large m" "hit s0 M k"
  shows "\<exists>d' s'. sweep_iter (sb_at s0 k) (desc_at s0 k) (sorted_list_of_set (marks_from s0 M k)) av s
      = Inr (sorted_list_of_set (marks_from s0 M (k + m)), sb_at s0 (k + m), d', av, s')
    \<and> (k + m < sb_num s0 \<longrightarrow> d' = desc_at s0 (k + m)) \<and> 1 \<le> m \<and> sweep_inv K s0 M (k + m) part ks s'"
proof -
  note lay = gc_readyD(1) [OF ready] and iv = sweep_invD [OF inv] and geo = geometry_cong [OF sweep_invD(3) [OF inv]]
  have cap: "sb_num s0 \<le> sb_cap s0" by (rule sb_num_le_cap [OF lay])
  let ?d = "desc_at s0 k" and ?rest = "sorted_list_of_set (marks_from s0 M (Suc k))"
  have m: "1 \<le> m" "m < 65536" "k + m \<le> sb_num s0" and tails: "\<And>j. k < j \<Longrightarrow> j < k + m \<Longrightarrow> K j = Tail"
    and st0: "desc_static s0 k 0 (65536 * m) 1 (descs s0 ?d)"
    using gc_readyD(6) [OF ready iv(1) k] lg(1) by (simp_all add: kind_rep_def)
  have v: "descs s ?d = descs s0 ?d" using iv(13) [of k] k by simp
  have st: "desc_static s k 0 (65536 * m) 1 (descs s ?d)"
    using st0 by (simp add: v desc_static_cong [OF iv(3)])
  note lay1 = repD(1) [OF iv(6)]
  have kc: "k < sb_cap s" using k cap by (simp add: geo)
  have use: "in_use s k (descs s ?d)" by (rule in_use_static [OF lay1 iv(1) kc _ st]) simp
  have idx: "desc_heap_idx s ?d = 0"
    using desc_static_get(2) [OF lay1 iv(1) kc _ st] repD(4) [OF iv(6), of 0] by (simp add: desc_heap_idx_def)
  have mc: "d_maxcount (descs s ?d) = 1" using st by (simp add: desc_static_def word_unat_eq_iff)
  obtain l' where sm: "sweep_marked (sb_at s0 k) ?d (sorted_list_of_set (marks_from s0 M k))
        \<lparr>sw_anchor = \<lparr>avail = 0, count = 0, sb_state = SB_EMPTY\<rparr>, sw_head = 0, sw_last = sb_at s0 k\<rparr> s
      = Inr (?rest, l', s)" "sb_state (sw_anchor l') = SB_FULL"
    using sweep_marked_large [OF _ use idx mc, of "sorted_list_of_set (marks_in s0 M k)" ?rest
        "\<lparr>sw_anchor = \<lparr>avail = 0, count = 0, sb_state = SB_EMPTY\<rparr>, sw_head = 0, sw_last = sb_at s0 k\<rparr>"]
      marks_rest [OF lay ok k refl] marks_in_shift [OF lay k] lg(2)
    by (auto simp: geo marks_next [OF lay ok k] marks_in_hit)
  let ?a = "\<lparr>avail = 0, count = 0, sb_state = SB_FULL\<rparr>"
  let ?s' = "store_anchor ?d ?a (store_next_partial ?d 0 (store_next_free ?d 0 s))"
  have r: "rgs ?s' = rgs s0" using iv(3) by simp
  have kind: "a_kind (a_swept K s0 M part (Suc k)) k = Large m"
    using a_swept_at(1) [of k "Suc k"] iv(1) lg by (simp add: kept_def)
  have dk: "desc_rep (a_swept K s0 M part (Suc k)) ?s' k" "durable_rep (a_swept K s0 M part (Suc k)) ?s' k"
    using kind st0 v by (simp_all add: desc_rep_def durable_rep_def geometry_cong [OF r] desc_static_cong [OF r] desc_static_def)
  have rep1: "rep (a_swept K s0 M part (Suc k)) ?s'"
    and other: "\<And>j. j \<noteq> k \<Longrightarrow> j < sb_num s0 \<Longrightarrow> descs ?s' (desc_at s0 j) = descs s (desc_at s0 j)
      \<and> pm_descs (pm ?s') (desc_at s0 j) = pm_descs (pm s) (desc_at s0 j)"
    using sweep_step_rep [OF ready inv k, of ?s'] dk repD(3) [OF iv(6)] by simp_all
  have tl: "kept K s0 M j = Tail" if "k < j" "j < k + m" for j
    by (rule kept_tail [of K k m]) (use lg iv(1) tails that in auto)
  have "a_swept K s0 M part (k + m) = a_swept K s0 M part (Suc k)"
    by (rule a_swept_large) (use lg iv(1) m(1) tails in auto)
  then have rep': "rep (a_swept K s0 M part (k + m)) ?s'" using rep1 by simp
  have kk: "kept K s0 M k = Large m" using lg by (simp add: kept_def)
  have inv': "sweep_inv K s0 M (k + m) part ks ?s'"
  proof (rule sweep_inv_used [OF inv _ m(3) _ rep'])
    show "kept K s0 M j \<noteq> Unused" if "k \<le> j" "j < k + m" for j
      using tl [of j] kk that by (cases "j = k") auto
    show "j \<in> set (part c) \<longleftrightarrow> 1 \<le> j \<and> j < k + m \<and> kept K s0 M j = Small c \<and> unmarked s0 M c j \<noteq> []"
      if "1 \<le> c" "c < 40" for c j
      using iv(8) [OF that, of j] tl [of j] kk m(1) by (cases "j = k"; cases "k < j") auto
    show "i + m' \<le> k + m" if "1 \<le> i" "i < k + m" "K i = Large m'" "hit s0 M i" for i m'
      using iv(9) [of i m'] tails [of i] lg(1) that by (cases "i = k"; cases "k < i") auto
    show "cells_changed K s0 M (k + m) (mem ?s')" using cells_changed_mono [OF iv(15)] by simp
  qed (use m(1) iv(7) other in simp_all)
  have "marks_from s0 M (Suc k) = marks_from s0 M (k + m)"
  proof (rule set_eqI)
    fix a
    show "a \<in> marks_from s0 M (Suc k) \<longleftrightarrow> a \<in> marks_from s0 M (k + m)"
    proof (cases "a \<in> M")
      case True
      then obtain j off where j: "1 \<le> j" "j < sb_num s0" "off < 65536" "a = sb_at s0 j + of_nat off"
        "case K j of Small c \<Rightarrow> \<exists>i < bnum c. off = i * bsz c | Tail \<Rightarrow> False | _ \<Rightarrow> True"
        by (rule marks_okD [OF ok])
      have "\<not> (k < j \<and> j < k + m)" using tails [of j] j(5) by auto
      then show ?thesis
        using sb_le_iff [OF lay _ _ j(3), of "Suc k" j] sb_le_iff [OF lay _ _ j(3), of "k + m" j] j(2,4) k m cap
        by (auto simp: marks_from_def)
    qed (simp add: marks_from_def)
  qed
  moreover have "sb_at s0 k + ucast (d_block_size (descs s ?d)) = sb_at s0 (k + m)"
    using st ucast_32_64 [of "d_block_size (descs s ?d)"] by (simp add: desc_static_def sb_at_def algebra_simps)
  moreover have "desc_lookup ?s' (sb_at s0 (k + m)) = desc_at s0 (k + m)" if "k + m < sb_num s0"
    using desc_lookup_sb [OF lay, of "k + m"] that cap by (simp add: geometry_cong [OF r])
  ultimately show ?thesis
    using sm idx inv' m(1) by (auto simp: sweep_iter_def sweep_large_def Let_def)
qed

end
