(* ===== verification/GCSmall.thy ===== *)
theory GCSmall
  imports GCRep
begin

text \<open>
  An iteration of the sweep on a superblock with marked small blocks: the unmarked ones
  become its free list, and it goes to the partial list of its class if there are any.
\<close>

subsection \<open>The push, and the anchor that is stored after it\<close>

lemma push_partial_effect:
  assumes "heap_push_partial d s = Inr s'"
  shows "pm s' = pm s" and "\<And>a. a \<noteq> d \<Longrightarrow> descs s' a = descs s a"
  using assms
  by (auto simp: heap_push_partial_def CAS_FUEL_def numeral_2_eq_2 Let_def check_def partial_list_cas_def rbind_def
      split: if_splits prod.splits sum.splits)

lemma update_commute:
  "d_next_partial_update f (d_anchor_update g v) = d_anchor_update g (d_next_partial_update f v)"
  "heaps_update h (descs_update i s) = descs_update i (heaps_update h s)"
  by simp_all

lemma push_partial_anchor:
  assumes "heap_push_partial d (store_anchor d a s) = Inr s'"
  shows "\<exists>s1. heap_push_partial d s = Inr s1 \<and> s' = store_anchor d a s1"
  using assms
  by (auto simp: heap_push_partial_def CAS_FUEL_def numeral_2_eq_2 Let_def check_def partial_list_cas_def rbind_def
      store_anchor_def set_desc_def store_next_partial_def partial_list_load_def update_commute
      split: if_splits prod.splits sum.splits)

subsection \<open>Linking what is not marked\<close>

lemma block_at_0: "block_at s c k 0 = sb_at s k"
  by (simp add: block_at_def)

lemma block_limit:
  fixes mc bs :: u32
  assumes c: "1 \<le> c" "c < 40" and "unat mc = bnum c" and "unat bs = bsz c"
  shows "sb_at s k + ucast (mc * bs) = block_at s c k (bnum c)"
proof -
  have "unat (mc * bs) = bnum c * bsz c"
    using assms(3,4) bnum_bsz_le [OF c] by (simp add: unat_word_ariths)
  then show ?thesis using ucast_32_64 [of "mc * bs"] by (simp add: block_at_def)
qed

lemma sweep_small_link:
  assumes lay: "layout_ok s" and k: "1 \<le> k" "k < sb_cap s" and c: "1 \<le> c" "c < 40"
    and st: "desc_static s k c (bsz c) (bnum c) (descs s (desc_at s k))"
    and sc: "h_sc_idx (heaps s (heap_addr (base_md s) c)) = of_nat c"
    and rest: "rest = [] \<or> drop_bit SB_SHIFT (sb_at s k) \<noteq> drop_bit SB_SHIFT (hd rest)"
    and "is": "is = filter (\<lambda>i. \<not> P i) [0..<bnum c]" "is \<noteq> []"
    and l: "l = \<lparr>sw_anchor = \<lparr>avail = 0, count = 0, sb_state = SB_EMPTY\<rparr>, sw_head = 0, sw_last = sb_at s k\<rparr>"
  shows "\<exists>l' m1 m' h n. sweep_marked (sb_at s k) (desc_at s k) (map (block_at s c k) is @ rest) l s
      = Inr (rest, l', s\<lparr>mem := m1\<rparr>) \<and> sb_state (sw_anchor l') = SB_PARTIAL
    \<and> link_free LINK_FUEL (d_block_size (descs s (desc_at s k))) (block_at s c k (bnum c)) (sw_last l')
        (m1, sw_head l', count (sw_anchor l')) = Inr (m', h, n)
    \<and> free_run s c k (rev (filter P [0..<bnum c])) (m', h, n) \<and> only_cells s c k {i. i < bnum c \<and> P i} (mem s) m'"
proof -
  have bs: "unat (d_block_size (descs s (desc_at s k))) = bsz c" using st by (simp add: desc_static_def)
  have sw0: "swept s c k P 0 l (mem s)" by (simp add: swept_def free_run_def l block_at_0)
  from sweep_marked_small [OF lay k c st sc rest "is"(1) _ sw0]
  obtain l' m1 j where r: "sweep_marked (sb_at s k) (desc_at s k) (map (block_at s c k) is @ rest) l s
      = Inr (rest, l', s\<lparr>mem := m1\<rparr>)" "j \<le> bnum c" "\<forall>i. j \<le> i \<and> i < bnum c \<longrightarrow> P i" "swept s c k P j l' m1"
    "sb_state (sw_anchor l') = SB_PARTIAL" "only_cells s c k {i. i < bnum c \<and> P i} (mem s) m1"
    using "is"(2) by auto
  let ?fs = "rev (filter P [0..<j])"
  have sw: "sw_last l' = block_at s c k j" "free_run s c k ?fs (m1, sw_head l', count (sw_anchor l'))"
    using r(4) by (simp_all add: swept_def)
  have fuel: "bnum c - j < LINK_FUEL" using bnum_le [OF c] by (simp add: LINK_FUEL_def)
  have sub: "set ?fs \<subseteq> {..<j}" by auto
  obtain m' h n where lf: "link_free LINK_FUEL (d_block_size (descs s (desc_at s k))) (block_at s c k (bnum c))
      (block_at s c k j) (m1, sw_head l', count (sw_anchor l')) = Inr (m', h, n)"
    "free_run s c k (rev [j..<bnum c] @ ?fs) (m', h, n)" "only_cells s c k {j..<bnum c} m1 m'"
    using link_free_run [OF lay k(2) c bs r(2) order_refl sub fuel sw(2)] by blast
  have "filter P [j..<bnum c] = [j..<bnum c]" using r(3) by (auto simp: filter_id_conv)
  moreover have "[0..<bnum c] = [0..<j] @ [j..<bnum c]" using r(2) by (metis le0 le_add_diff_inverse upt_add_eq_append)
  ultimately have e: "rev [j..<bnum c] @ ?fs = rev (filter P [0..<bnum c])" by simp
  have "only_cells s c k {i. i < bnum c \<and> P i} (mem s) m'"
    by (rule only_cells_trans [OF r(6) lf(3)]) (use r(3) in auto)
  then show ?thesis using r(1,5) lf(1,2) sw(1) unfolding e by auto
qed

subsection \<open>The iteration\<close>

lemma only_cells_sb:
  assumes c: "1 \<le> c" "c < 40" and "only_cells s c k I m m'" and "I \<subseteq> {..<bnum c}" and "m' a \<noteq> m a"
  shows "\<exists>off < 65536. a = sb_at s k + of_nat off"
proof -
  obtain i l where i: "i \<in> I" "l < 8" "a = block_at s c k i + of_nat l" using assms(3,5) by (auto simp: only_cells_def)
  have "i * bsz c + l < 65536"
    using block_end_le [OF c, of i] class_facts(1) [OF c] i(1,2) assms(4) by fastforce
  moreover have "a = sb_at s k + of_nat (i * bsz c + l)" using i(3) by (simp add: block_at_def)
  ultimately show ?thesis by blast
qed

lemma unmarked_props:
  assumes "1 \<le> c" and "c < 40"
  shows "distinct (unmarked s M c k)" and "set (unmarked s M c k) = {i. i < bnum c \<and> block_at s c k i \<notin> M}"
    and "length (unmarked s M c k) \<le> 8192"
    and "i < bnum c \<Longrightarrow> block_at s c k i \<in> M \<Longrightarrow> length (unmarked s M c k) < bnum c"
proof -
  show "distinct (unmarked s M c k)" "set (unmarked s M c k) = {i. i < bnum c \<and> block_at s c k i \<notin> M}"
    by (auto simp: unmarked_def)
  have "length (unmarked s M c k) \<le> bnum c" unfolding unmarked_def using length_filter_le [of _ "[0..<bnum c]"] by simp
  then show "length (unmarked s M c k) \<le> 8192" using bnum_le [OF assms] by simp
  assume "i < bnum c" "block_at s c k i \<in> M"
  then have "length (filter (\<lambda>i. block_at s c k i \<notin> M) [0..<bnum c]) < length [0..<bnum c]"
    by (intro length_filter_less [of i]) auto
  then show "length (unmarked s M c k) < bnum c" by (simp add: unmarked_def)
qed

text \<open>The descriptor and the new free list represent the superblock.\<close>

lemma swept_desc_rep:
  assumes c: "1 \<le> c" "c < 40" and r: "rgs s' = rgs s0"
    and kind: "kept K s0 M k = Small c" "1 \<le> k"
    and st: "desc_static s0 k c (bsz c) (bnum c) (descs s' (desc_at s0 k))"
      "desc_static s0 k c (bsz c) (bnum c) (pm_descs (pm s') (desc_at s0 k))"
    and an: "anchor_rep (bnum c) (unmarked s0 M c k) (d_anchor (descs s' (desc_at s0 k)))"
    and lk: "linked (mem s') (map (block_at s0 c k) (unmarked s0 M c k))"
  shows "desc_rep (a_swept K s0 M part (Suc k)) s' k" and "durable_rep (a_swept K s0 M part (Suc k)) s' k"
  using assms a_swept_at(1,2) [of k "Suc k" K s0 M part]
  by (simp_all add: desc_rep_def durable_rep_def geometry_cong [OF r] desc_static_cong [OF r])

lemma cells_changed_Suc:
  assumes "cells_changed K s M k m" and "kept K s M k = Small c" and "1 \<le> k"
    and "only_cells s c k {i. i < bnum c \<and> block_at s c k i \<notin> M} m m'"
  shows "cells_changed K s M (Suc k) m'"
  unfolding cells_changed_def
proof (intro allI impI)
  fix a assume ne: "m' a \<noteq> mem s a"
  show "\<exists>j c i l. 1 \<le> j \<and> j < Suc k \<and> kept K s M j = Small c \<and> i < bnum c \<and> block_at s c j i \<notin> M \<and> l < 8
      \<and> a = block_at s c j i + of_nat l"
  proof (cases "m' a = m a")
    case True
    then show ?thesis using assms(1) ne unfolding cells_changed_def by (metis less_SucI)
  next
    case False
    then obtain i l where "i < bnum c" "block_at s c k i \<notin> M" "l < 8" "a = block_at s c k i + of_nat l"
      using assms(4) unfolding only_cells_def by auto
    then show ?thesis using assms(2,3) by blast
  qed
qed

lemma block_index:
  fixes bs :: u32
  assumes lay: "layout_ok s" and k: "k < sb_cap s" and c: "1 \<le> c" "c < 40" and i: "i < bnum c" and bs: "unat bs = bsz c"
  shows "(block_at s c k i - sb_at s k) mod ucast bs = 0"
    and "unat (ucast ((block_at s c k i - sb_at s k) div ucast bs) :: 31 word) = i"
proof -
  have b: "(ucast bs :: u64) = of_nat (bsz c)" using ucast_32_64 [of bs] bs by simp
  have ib: "i < 65536" "i * bsz c < 65536" "0 < bsz c" "bsz c < 65536"
    using bnum_le [OF c] i block_end_le [OF c i] class_facts(1,2) [OF c] by simp_all
  have d: "block_at s c k i - sb_at s k = of_nat (i * bsz c)" by (simp add: block_at_def)
  have u: "unat (of_nat (i * bsz c) :: u64) = i * bsz c" "unat (of_nat (bsz c) :: u64) = bsz c"
    using ib by (simp_all add: unat_of_nat64 del: of_nat_mult)
  have "unat (of_nat (i * bsz c) mod of_nat (bsz c) :: u64) = 0"
    unfolding unat_mod_distrib u by simp
  then show "(block_at s c k i - sb_at s k) mod ucast bs = 0" unfolding d b by (metis unsigned_eq_0_iff)
  have q: "unat (of_nat (i * bsz c) div of_nat (bsz c) :: u64) = i"
    unfolding unat_div_distrib u using ib(3) by simp
  then show "unat (ucast ((block_at s c k i - sb_at s k) div ucast bs) :: 31 word) = i"
    unfolding d b unsigned_ucast_eq using ib(1) by (simp add: take_bit_nat_eq_self)
qed

lemma sweep_iter_small:
  assumes ready: "gc_ready K s0" and ok: "marks_ok K s0 M" and inv: "sweep_inv K s0 M k part ks s"
    and k: "k < sb_num s0" and sm: "K k = Small c" "hit s0 M k"
  shows "\<exists>part' s'. sweep_iter (sb_at s0 k) (desc_at s0 k) (sorted_list_of_set (marks_from s0 M k)) av s
      = Inr (sorted_list_of_set (marks_from s0 M (Suc k)), sb_at s0 (Suc k), desc_at s0 (Suc k), av, s')
    \<and> sweep_inv K s0 M (Suc k) part' ks s'"
proof -
  note lay = gc_readyD(1) [OF ready] and iv = sweep_invD [OF inv] and geo = geometry_cong [OF sweep_invD(3) [OF inv]]
  note lay1 = repD(1) [OF iv(6)]
  have cap: "sb_num s0 \<le> sb_cap s0" by (rule sb_num_le_cap [OF lay])
  let ?d = "desc_at s0 k" and ?rest = "sorted_list_of_set (marks_from s0 M (Suc k))" and ?fs = "unmarked s0 M c k"
  let ?P = "\<lambda>i. block_at s0 c k i \<notin> M" and ?n = "bnum c"
  have c: "1 \<le> c" "c < 40" and st0: "desc_static s0 k c (bsz c) ?n (descs s0 ?d)"
    "desc_static s0 k c (bsz c) ?n (pm_descs (pm s0) ?d)"
    using gc_readyD(6) [OF ready iv(1) k] sm(1) by (simp_all add: kind_rep_def)
  have v: "descs s ?d = descs s0 ?d" "pm_descs (pm s) ?d = pm_descs (pm s0) ?d" using iv(13,14) [of k] k by simp_all
  have kc: "k < sb_cap s0" "k < sb_cap s" using k cap by (simp_all add: geo)
  have st: "desc_static s k c (bsz c) ?n (descs s (desc_at s k))" using st0(1) v by (simp add: desc_static_cong [OF iv(3)] geo)
  have mcbs: "unat (d_maxcount (descs s ?d)) = ?n" "unat (d_block_size (descs s ?d)) = bsz c"
    using st by (simp_all add: desc_static_def geo)
  have sc: "h_sc_idx (heaps s (heap_addr (base_md s) c)) = of_nat c" by (rule repD(4) [OF iv(6) c(2)])
  obtain i0 where i0: "i0 < ?n" "block_at s0 c k i0 \<in> M" using marks_small(2) [OF lay ok k c sm(1)] sm(2) by auto
  define ix where "ix = filter (\<lambda>i. \<not> ?P i) [0..<?n]"
  have isne: "ix \<noteq> []" using i0 by (auto simp: ix_def filter_empty_conv)
  have ms: "sorted_list_of_set (marks_from s0 M k) = map (block_at s0 c k) ix @ ?rest"
    using marks_next [OF lay ok k] marks_small(1) [OF lay ok k c sm(1)] by (simp add: ix_def)
  define l where "l = \<lparr>sw_anchor = \<lparr>avail = 0, count = 0, sb_state = SB_EMPTY\<rparr>, sw_head = 0, sw_last = sb_at s0 k\<rparr>"
  obtain l' m1 m' h n where lk: "sweep_marked (sb_at s0 k) ?d (map (block_at s0 c k) ix @ ?rest) l s
      = Inr (?rest, l', s\<lparr>mem := m1\<rparr>)" "sb_state (sw_anchor l') = SB_PARTIAL"
    "link_free LINK_FUEL (d_block_size (descs s ?d)) (block_at s0 c k ?n) (sw_last l')
        (m1, sw_head l', count (sw_anchor l')) = Inr (m', h, n)"
    "free_run s0 c k ?fs (m', h, n)" "only_cells s0 c k {i. i < ?n \<and> ?P i} (mem s) m'"
    using sweep_small_link [OF lay1 iv(1) kc(2) c st sc, of ?rest ix ?P l] marks_rest [OF lay ok k refl] isne
    by (auto simp: geo ix_def l_def unmarked_def free_run_def only_cells_def)
  note up = unmarked_props [OF c, where s = s0 and M = M and k = k]
  have fr: "linked m' (map (block_at s0 c k) ?fs)" "h = (if ?fs = [] then 0 else block_at s0 c k (hd ?fs))"
    "n = of_nat (length ?fs)" using lk(4) by (simp_all add: free_run_def)
  have un: "unat n = length ?fs" using up(3) by (simp add: fr(3) unat_of_nat take_bit_nat_eq_self)
  have kk: "kept K s0 M k = Small c" using sm by (simp add: kept_def)
  have len: "length ?fs < ?n" by (rule up(4) [OF i0])
  let ?s1 = "s\<lparr>mem := m'\<rparr>" and ?an = "(sw_anchor l')\<lparr>count := n\<rparr>"
  have msb: "\<exists>off < 65536. a = sb_at s0 k + of_nat off" if "m' a \<noteq> mem s a" for a
    by (rule only_cells_sb [OF c lk(5) _ that]) auto
  have cells: "cells_changed K s0 M (Suc k) m'" by (rule cells_changed_Suc [OF iv(15) kk iv(1) lk(5)])
  have wb: "wb s = []" by (rule repD(3) [OF iv(6)])
  have cov: "i + m \<le> Suc k" if "1 \<le> i" "i < Suc k" "K i = Large m" "hit s0 M i" for i m
    using iv(9) [of i m] sm(1) that by (cases "i = k") auto
  have idx: "desc_heap_idx (s\<lparr>mem := m1\<rparr>) ?d \<noteq> 0"
  proof -
    have "(of_nat c :: u64) \<noteq> 0" using c by (simp add: word_unat_eq_iff unat_of_nat64)
    then show ?thesis
      using desc_static_get(2) [OF lay1 iv(1) kc(2) c(2) st] sc by (simp add: desc_heap_idx_def geo)
  qed
  have lim: "sb_at s0 k + ucast (d_maxcount (descs s ?d) * d_block_size (descs s ?d)) = block_at s0 c k ?n"
    by (rule block_limit [OF c mcbs])
  have key: "rep (a_swept K s0 M part (Suc k)) s2 \<and> (\<forall>j. j \<noteq> k \<and> j < sb_num s0 \<longrightarrow> descs s2 (desc_at s0 j) = descs s (desc_at s0 j)
      \<and> pm_descs (pm s2) (desc_at s0 j) = pm_descs (pm s) (desc_at s0 j))"
    if s2: "rgs s2 = rgs s" "avail_sb s2 = avail_sb s" "heaps s2 = heaps s" "wb s2 = []" "t_caches s2 = t_caches s"
      "mem s2 = m'" "pm s2 = pm s" "\<And>a. a \<noteq> ?d \<Longrightarrow> descs s2 a = descs s a"
      "desc_static s0 k c (bsz c) ?n (descs s2 ?d)" "anchor_rep ?n ?fs (d_anchor (descs s2 ?d))" for s2
  proof -
    have "desc_rep (a_swept K s0 M part (Suc k)) s2 k" "durable_rep (a_swept K s0 M part (Suc k)) s2 k"
      using swept_desc_rep [OF c _ kk iv(1) s2(9), of part] s2(1,6,7,10) iv(3) v(2) st0(2) fr(1) by simp_all
    from sweep_step_rep [OF ready inv k s2(1-5) _ _ this] s2(6-8) msb show ?thesis by metis
  qed
  show ?thesis
  proof (cases "?fs = []")
    case True
    let ?a = "?an\<lparr>avail := ucast (d_maxcount (descs s ?d)), sb_state := SB_FULL\<rparr>"
    let ?s2 = "store_anchor ?d ?a (store_next_partial ?d 0 (store_next_free ?d 0 ?s1))"
    have n0: "n = 0" using True fr(3) by simp
    have k2: "rep (a_swept K s0 M part (Suc k)) ?s2 \<and> (\<forall>j. j \<noteq> k \<and> j < sb_num s0 \<longrightarrow> descs ?s2 (desc_at s0 j) = descs s (desc_at s0 j)
      \<and> pm_descs (pm ?s2) (desc_at s0 j) = pm_descs (pm s) (desc_at s0 j))"
      by (rule key) (use wb st0(1) v True n0 in \<open>simp_all add: desc_static_def anchor_rep_def\<close>)
    have "sweep_inv K s0 M (Suc k) part ks ?s2"
    proof (rule sweep_inv_used [OF inv _ _ _ conjunct1 [OF k2]])
      show "j \<in> set (part c') \<longleftrightarrow> 1 \<le> j \<and> j < Suc k \<and> kept K s0 M j = Small c' \<and> unmarked s0 M c' j \<noteq> []"
        if "1 \<le> c'" "c' < 40" for c' j
        using iv(8) [OF that, of j] kk True by (cases "j = k") auto
      show "kept K s0 M j \<noteq> Unused" if "k \<le> j" "j < Suc k" for j using kk that by (cases "j = k") auto
    qed (use k k2 cells cov iv(7) in simp_all)
    moreover have "sweep_iter (sb_at s0 k) ?d (sorted_list_of_set (marks_from s0 M k)) av s
      = Inr (?rest, sb_at s0 (Suc k), desc_at s0 (Suc k), av, ?s2)"
      unfolding ms sweep_iter_def l_def [symmetric] lk(1)
      using idx lk(2,3) n0 sb_at_next [of s0 k]
      by (simp add: sweep_small_def lim Let_def desc_at_Suc)
    ultimately show ?thesis by blast
  next
    case False
    let ?i = "hd ?fs"
    have i: "?i < ?n" using False up(2) hd_in_set [OF False] by auto
    have h: "h = block_at s0 c k ?i" using False fr(2) by simp
    have ba: "block_addr h" unfolding h by (rule block_at_props(1) [OF lay kc(1) c i])
    note bi = block_index [OF lay kc(1) c i mcbs(2)]
    let ?a = "?an\<lparr>avail := ucast ((h - sb_at s0 k) div ucast (d_block_size (descs s ?d))), sb_state := SB_PARTIAL\<rparr>"
    let ?s2 = "store_anchor ?d ?a (store_next_free ?d 0 ?s1)"
    have n0: "n \<noteq> 0" using False un by auto
    have k2: "rep (a_swept K s0 M part (Suc k)) ?s2 \<and> (\<forall>j. j \<noteq> k \<and> j < sb_num s0 \<longrightarrow> descs ?s2 (desc_at s0 j) = descs s (desc_at s0 j)
      \<and> pm_descs (pm ?s2) (desc_at s0 j) = pm_descs (pm s) (desc_at s0 j))"
      by (rule key) (use wb st0(1) v False un len bi(2) h in \<open>simp_all add: desc_static_def anchor_rep_def\<close>)
    have r2: "rgs ?s2 = rgs s0" using iv(3) by simp
    have kind: "a_kind (a_swept K s0 M part (Suc k)) k = Small c" using a_swept_at(1) [of k "Suc k"] iv(1) kk by simp
    have fresh: "k \<notin> set (part c')" if "1 \<le> c'" "c' < 40" for c' using iv(8) [OF that, of k] by simp
    obtain s3 where s3: "heap_push_partial ?d ?s2 = Inr s3" "same_rest ?s2 s3"
      "rep ((a_swept K s0 M part (Suc k))\<lparr>a_part := part(c := k # part c)\<rparr>) s3"
      using push_partial_rep [OF conjunct1 [OF k2] c _ kind] iv(1) k fresh by (auto simp: geometry_cong [OF r2])
    obtain s4 where s4: "heap_push_partial ?d (store_next_free ?d 0 ?s1) = Inr s4" "s3 = store_anchor ?d ?a s4"
      using push_partial_anchor [OF s3(1)] by blast
    have sw: "(a_swept K s0 M part (Suc k))\<lparr>a_part := part(c := k # part c)\<rparr> = a_swept K s0 M (part(c := k # part c)) (Suc k)"
      by (simp add: a_swept_def)
    have pe: "pm s3 = pm ?s2" "\<And>a. a \<noteq> ?d \<Longrightarrow> descs s3 a = descs ?s2 a" using push_partial_effect [OF s3(1)] by simp_all
    have "sweep_inv K s0 M (Suc k) (part(c := k # part c)) ks s3"
    proof (rule sweep_inv_used [OF inv _ _ _ s3(3) [unfolded sw]])
      show "j \<in> set ((part(c := k # part c)) c') \<longleftrightarrow> 1 \<le> j \<and> j < Suc k \<and> kept K s0 M j = Small c' \<and> unmarked s0 M c' j \<noteq> []"
        if "1 \<le> c'" "c' < 40" for c' j
        using iv(8) [OF that, of j] iv(1) kk False by (cases "j = k") auto
      show "kept K s0 M j \<noteq> Unused" if "k \<le> j" "j < Suc k" for j using kk that by (cases "j = k") auto
      show "distinct ((part(c := k # part c)) c')" if "1 \<le> c'" "c' < 40" for c'
        using iv(7) [OF that] fresh [OF that] by auto
      show "descs s3 (desc_at s0 j) = descs s (desc_at s0 j)
        \<and> pm_descs (pm s3) (desc_at s0 j) = pm_descs (pm s) (desc_at s0 j)" if "j \<noteq> k" "j < sb_num s0" for j
        using pe k2 that desc_at_inj [OF lay, of j k] k cap by simp
    qed (use k s3(2) cells cov in \<open>simp_all add: same_rest_def\<close>)
    moreover have "sweep_iter (sb_at s0 k) ?d (sorted_list_of_set (marks_from s0 M k)) av s
      = Inr (?rest, sb_at s0 (Suc k), desc_at s0 (Suc k), av, s3)"
      unfolding ms sweep_iter_def l_def [symmetric] lk(1)
      using idx lk(2,3) n0 sb_at_next [of s0 k] ba bi(1) s4 h
      by (simp add: sweep_small_def lim Let_def desc_at_Suc block_addr_def)
    ultimately show ?thesis by blast
  qed
qed

end
