(* ===== verification/GCMark.thy ===== *)
theory GCMark
  imports GC
begin

text \<open>
  The marking phase finds what is reachable from the roots: the worklist invariant of
  \<^verbatim>\<open>mark_func\<close>, and the comparison with the inductive definition of reachability.
\<close>

subsection \<open>Reachability\<close>

text \<open>The calls of \<^verbatim>\<open>mark_func\<close> the filter function of type \<open>T\<close> makes for a block.\<close>

definition filter_calls :: "filters \<Rightarrow> ralloc_state \<Rightarrow> nat \<Rightarrow> addr \<Rightarrow> (nat \<times> addr) list" where
  "filter_calls ff s T p = (case ff T of Some f \<Rightarrow> f (mem s) p | None \<Rightarrow> default_filter s p)"

inductive reach :: "filters \<Rightarrow> ralloc_state \<Rightarrow> nat \<Rightarrow> addr \<Rightarrow> bool" for ff s where
  root: "i < MAX_ROOTS \<Longrightarrow> roots s i \<noteq> 0 \<Longrightarrow> roots_filter_func s i = Some T
    \<Longrightarrow> p = cross_get (rgs s) SB_IDX (roots s i) \<Longrightarrow> in_range (rgs s) SB_IDX p \<Longrightarrow> reach ff s T p"
| step: "reach ff s T p \<Longrightarrow> (T', q) \<in> set (filter_calls ff s T p) \<Longrightarrow> in_range (rgs s) SB_IDX q
    \<Longrightarrow> reach ff s T' q"

definition reachable :: "filters \<Rightarrow> ralloc_state \<Rightarrow> addr set" where
  "reachable ff s = {p. \<exists>T. reach ff s T p}"

text \<open>
  A block is filtered once, with the type it was reached with first. This suffices when the
  types it can be reached with lead to the same calls.
\<close>

definition typed :: "filters \<Rightarrow> ralloc_state \<Rightarrow> bool" where
  "typed ff s \<longleftrightarrow> (\<forall>T T' p. reach ff s T p \<longrightarrow> reach ff s T' p \<longrightarrow> filter_calls ff s T p = filter_calls ff s T' p)"

subsection \<open>The worklist\<close>

definition stack :: "gc \<Rightarrow> (addr \<times> nat) list" where
  "stack gc = zip (to_filter_node gc) (to_filter_func gc)"

text \<open>
  \<open>P\<close> holds of all blocks on the stack; every marked block is on the stack or finished, and
  \<open>Q\<close> holds of the finished ones.
\<close>

definition mark_inv :: "(nat \<Rightarrow> addr \<Rightarrow> bool) \<Rightarrow> (nat \<Rightarrow> addr \<Rightarrow> addr set \<Rightarrow> bool) \<Rightarrow> gc \<Rightarrow> bool" where
  "mark_inv P Q gc \<longleftrightarrow> length (to_filter_node gc) = length (to_filter_func gc)
     \<and> (\<forall>p \<in> marked_blk gc. \<exists>T. P T p \<and> ((p, T) \<in> set (stack gc) \<or> Q T p (marked_blk gc)))
     \<and> (\<forall>p T. (p, T) \<in> set (stack gc) \<longrightarrow> P T p \<and> p \<in> marked_blk gc)"

definition closed :: "filters \<Rightarrow> ralloc_state \<Rightarrow> nat \<Rightarrow> addr \<Rightarrow> addr set \<Rightarrow> bool" where
  "closed ff s T p M \<longleftrightarrow> (\<forall>(T', q) \<in> set (filter_calls ff s T p). in_range (rgs s) SB_IDX q \<longrightarrow> q \<in> M)"

lemma closed_mono: "closed ff s T p M \<Longrightarrow> M \<subseteq> M' \<Longrightarrow> closed ff s T p M'"
  by (auto simp: closed_def)

lemma closed_mono':
  "closed ff s T p M \<or> (T = T0 \<and> p = p0) \<Longrightarrow> M \<subseteq> M' \<Longrightarrow> closed ff s T p M' \<or> (T = T0 \<and> p = p0)"
  using closed_mono by blast

lemma mark_func_marked:
  "marked_blk (mark_func s c gc) = marked_blk gc \<union> {p. p = snd c \<and> in_range (rgs s) SB_IDX p}"
  by (auto simp: mark_func_def split: prod.splits)

lemma mark_func_inv:
  assumes "mark_inv P Q gc" and "in_range (rgs s) SB_IDX (snd c) \<longrightarrow> P (fst c) (snd c)"
    and "\<And>T p M M'. Q T p M \<Longrightarrow> M \<subseteq> M' \<Longrightarrow> Q T p M'"
  shows "mark_inv P Q (mark_func s c gc)"
proof -
  obtain T p where c: "c = (T, p)" by (cases c)
  have sub: "Q T' q (insert p (marked_blk gc))" if "Q T' q (marked_blk gc)" for T' q
    by (rule assms(3) [OF that]) auto
  show ?thesis
  proof (cases "in_range (rgs s) SB_IDX p \<and> p \<notin> marked_blk gc")
    case True
    then have e: "mark_func s c gc = \<lparr>marked_blk = insert p (marked_blk gc),
        to_filter_node = p # to_filter_node gc, to_filter_func = T # to_filter_func gc\<rparr>"
      by (simp add: c mark_func_def)
    have P: "P T p" using True assms(2) c by simp
    have old: "\<exists>T'. P T' q \<and> ((q, T') \<in> set (stack gc) \<or> Q T' q (marked_blk gc))" if "q \<in> marked_blk gc" for q
      using assms(1) that by (simp add: mark_inv_def)
    have "\<exists>T'. P T' q \<and> ((q, T') \<in> insert (p, T) (set (stack gc)) \<or> Q T' q (insert p (marked_blk gc)))"
      if "q \<in> insert p (marked_blk gc)" for q
    proof (cases "q = p")
      case False
      then show ?thesis using old [of q] that sub by blast
    qed (use P in blast)
    then show ?thesis using assms(1) P unfolding e mark_inv_def by (simp add: stack_def)
  next
    case False
    then have "mark_func s c gc = gc" by (auto simp: c mark_func_def)
    then show ?thesis using assms(1) by simp
  qed
qed

lemma fold_mark:
  assumes "mark_inv P Q gc" and "\<And>T p. (T, p) \<in> set cs \<Longrightarrow> in_range (rgs s) SB_IDX p \<Longrightarrow> P T p"
    and "\<And>T p M M'. Q T p M \<Longrightarrow> M \<subseteq> M' \<Longrightarrow> Q T p M'"
  shows "mark_inv P Q (fold (mark_func s) cs gc)"
    and "marked_blk (fold (mark_func s) cs gc) =
      marked_blk gc \<union> {p. in_range (rgs s) SB_IDX p \<and> p \<in> snd ` set cs}"
proof -
  show "mark_inv P Q (fold (mark_func s) cs gc)"
    using assms(1,2)
  proof (induction cs arbitrary: gc)
    case (Cons c cs)
    have "mark_inv P Q (mark_func s c gc)"
      by (rule mark_func_inv [OF Cons.prems(1) _ assms(3)]) (use Cons.prems(2) [of "fst c" "snd c"] in auto)
    then show ?case using Cons.IH Cons.prems(2) by simp
  qed simp
  show "marked_blk (fold (mark_func s) cs gc) =
      marked_blk gc \<union> {p. in_range (rgs s) SB_IDX p \<and> p \<in> snd ` set cs}"
    by (induction cs arbitrary: gc) (auto simp: mark_func_marked)
qed

lemma mark_step:
  assumes inv: "mark_inv (reach ff s) (closed ff s) gc" and ne: "to_filter_node gc \<noteq> []"
    and gc': "gc' = filter_func ff s (hd (to_filter_func gc)) (hd (to_filter_node gc))
      (gc\<lparr>to_filter_node := tl (to_filter_node gc), to_filter_func := tl (to_filter_func gc)\<rparr>)"
  shows "mark_inv (reach ff s) (closed ff s) gc' \<and> marked_blk gc \<subseteq> marked_blk gc'"
proof -
  obtain p ps where p: "to_filter_node gc = p # ps" using ne by (cases "to_filter_node gc") auto
  then obtain T Ts where T: "to_filter_func gc = T # Ts" and len: "length ps = length Ts"
    using inv by (cases "to_filter_func gc") (auto simp: mark_inv_def)
  let ?cs = "filter_calls ff s T p"
  let ?g = "gc\<lparr>to_filter_node := ps, to_filter_func := Ts\<rparr>"
  have gc'_eq: "gc' = fold (mark_func s) ?cs ?g"
    unfolding gc' filter_func_def filter_calls_def by (simp add: p T split: option.split)
  have rp: "reach ff s T p" "p \<in> marked_blk gc" using inv by (auto simp: mark_inv_def stack_def p T)
  let ?Q = "\<lambda>T' q M. closed ff s T' q M \<or> (T' = T \<and> q = p)"
  have "mark_inv (reach ff s) ?Q ?g"
    using inv len by (fastforce simp: mark_inv_def stack_def p T)
  note fm = fold_mark [OF this reach.step [OF rp(1)], of ?cs, OF _ _ closed_mono']
  have inv': "mark_inv (reach ff s) ?Q gc'"
    unfolding gc'_eq by (rule fm(1))
  have marked: "marked_blk gc' = marked_blk gc \<union> {q. in_range (rgs s) SB_IDX q \<and> q \<in> snd ` set ?cs}"
    unfolding gc'_eq using fm(2) by simp
  have "closed ff s T p (marked_blk gc')"
    unfolding marked closed_def by force
  with inv' have "mark_inv (reach ff s) (closed ff s) gc'"
    unfolding mark_inv_def by blast
  then show ?thesis using marked by auto
qed

lemma mark_loop_inv:
  assumes "mark_inv (reach ff s) (closed ff s) gc"
  shows "mark_inv (reach ff s) (closed ff s) (mark_loop ff s gc)
    \<and> to_filter_node (mark_loop ff s gc) = [] \<and> marked_blk gc \<subseteq> marked_blk (mark_loop ff s gc)"
  using assms
proof (induction ff s gc rule: mark_loop.induct)
  case (1 ff s gc)
  show ?case
  proof (cases "to_filter_node gc = []")
    case True
    then show ?thesis using 1(2) by (simp add: mark_loop.simps [of ff s gc])
  next
    case False
    define gc' where "gc' = filter_func ff s (hd (to_filter_func gc)) (hd (to_filter_node gc))
      (gc\<lparr>to_filter_node := tl (to_filter_node gc), to_filter_func := tl (to_filter_func gc)\<rparr>)"
    have e: "mark_loop ff s gc = mark_loop ff s gc'"
      using False by (subst mark_loop.simps) (simp add: gc'_def Let_def)
    have st: "mark_inv (reach ff s) (closed ff s) gc' \<and> marked_blk gc \<subseteq> marked_blk gc'"
      by (rule mark_step [OF 1(2) False gc'_def])
    then show ?thesis using 1(1) [OF False refl refl] unfolding e gc'_def [symmetric] by blast
  qed
qed

subsection \<open>Roots\<close>

lemma mark_roots_ok:
  assumes "mark_inv (reach ff s) (closed ff s) gc" and "set is \<subseteq> {..<MAX_ROOTS}"
    and "\<And>i. i \<in> set is \<Longrightarrow> roots s i \<noteq> 0 \<Longrightarrow> roots_filter_func s i \<noteq> None"
  shows "\<exists>gc'. mark_roots is s gc = Inr gc' \<and> mark_inv (reach ff s) (closed ff s) gc'
    \<and> marked_blk gc \<subseteq> marked_blk gc'
    \<and> (\<forall>i \<in> set is. roots s i \<noteq> 0 \<longrightarrow> in_range (rgs s) SB_IDX (cross_get (rgs s) SB_IDX (roots s i))
        \<longrightarrow> cross_get (rgs s) SB_IDX (roots s i) \<in> marked_blk gc')"
  using assms
proof (induction "is" arbitrary: gc)
  case (Cons i "is")
  show ?case
  proof (cases "roots s i = 0")
    case True
    then show ?thesis using Cons.IH [of gc] Cons.prems by (simp add: cross_is_null_def)
  next
    case False
    then obtain T where T: "roots_filter_func s i = Some T" using Cons.prems(3) by auto
    let ?p = "cross_get (rgs s) SB_IDX (roots s i)"
    let ?g = "mark_func s (T, ?p) gc"
    have "mark_inv (reach ff s) (closed ff s) ?g"
      by (rule mark_func_inv [OF Cons.prems(1)])
        (use reach.root [OF _ False T] Cons.prems(2) closed_mono in auto)
    then obtain gc' where g: "mark_roots is s ?g = Inr gc'" "mark_inv (reach ff s) (closed ff s) gc'"
      "marked_blk ?g \<subseteq> marked_blk gc'"
      "\<forall>i \<in> set is. roots s i \<noteq> 0 \<longrightarrow> in_range (rgs s) SB_IDX (cross_get (rgs s) SB_IDX (roots s i))
        \<longrightarrow> cross_get (rgs s) SB_IDX (roots s i) \<in> marked_blk gc'"
      using Cons.IH [of ?g] Cons.prems by auto
    then show ?thesis
      using False T by (intro exI [of _ gc']) (auto simp: cross_is_null_def mark_func_marked)
  qed
qed simp

lemma mark_roots_throws:
  assumes "i \<in> set is" and "roots s i \<noteq> 0" and "roots_filter_func s i = None"
  shows "mark_roots is s gc = Inl (Uncaught ''std::bad_function_call'')"
  using assms by (induction "is" arbitrary: gc) (auto simp: cross_is_null_def split: option.splits)

lemma gc_mark_sound:
  assumes "\<And>i. i < MAX_ROOTS \<Longrightarrow> roots s i \<noteq> 0 \<Longrightarrow> roots_filter_func s i \<noteq> None"
  shows "\<exists>M. gc_mark ff s = Inr M \<and> M \<subseteq> reachable ff s \<and> (typed ff s \<longrightarrow> M = reachable ff s)"
proof -
  have "mark_inv (reach ff s) (closed ff s) new_gc" by (simp add: mark_inv_def new_gc_def stack_def)
  from mark_roots_ok [OF this, of "[0..<MAX_ROOTS]"] assms
  obtain gc where gc: "mark_roots [0..<MAX_ROOTS] s new_gc = Inr gc"
    "mark_inv (reach ff s) (closed ff s) gc"
    "\<forall>i \<in> set [0..<MAX_ROOTS]. roots s i \<noteq> 0 \<longrightarrow> in_range (rgs s) SB_IDX (cross_get (rgs s) SB_IDX (roots s i))
        \<longrightarrow> cross_get (rgs s) SB_IDX (roots s i) \<in> marked_blk gc"
    by (metis (no_types, lifting) atLeastLessThan_iff atLeast_upt lessThan_iff set_upt subsetI)
  let ?gc = "mark_loop ff s gc"
  let ?M = "marked_blk ?gc"
  have ml: "mark_inv (reach ff s) (closed ff s) ?gc" "to_filter_node ?gc = []" "marked_blk gc \<subseteq> ?M"
    using mark_loop_inv [OF gc(2)] by auto
  have fin: "\<exists>T. reach ff s T p \<and> closed ff s T p ?M" if "p \<in> ?M" for p
    using ml(1,2) that by (auto simp: mark_inv_def stack_def)
  then have sound: "?M \<subseteq> reachable ff s" by (auto simp: reachable_def)
  have "p \<in> ?M" if "typed ff s" and "reach ff s T p" for T p
    using that(2)
  proof induction
    case (root i T p)
    then show ?case using gc(3) ml(3) by auto
  next
    case (step T p T' q)
    obtain T0 where T0: "reach ff s T0 p" "closed ff s T0 p ?M" using fin [OF step(4)] by blast
    have "filter_calls ff s T0 p = filter_calls ff s T p"
      using that(1) T0(1) step(1) unfolding typed_def by blast
    then show ?case using T0(2) step(2,3) by (auto simp: closed_def)
  qed
  then show ?thesis using sound gc(1) by (auto simp: gc_mark_def reachable_def)
qed

end
