(* ===== verification/GCCorrect.thy ===== *)
theory GCCorrect
  imports GCSmall GCMark
begin

text \<open>
  The collector as a whole: from a heap whose descriptors are sound it rebuilds a heap that
  satisfies the representation invariant and in which exactly the marked blocks are live.
\<close>

subsection \<open>The sweep\<close>

lemma sweep_iter_rep:
  assumes ready: "gc_ready K s0" and ok: "marks_ok K s0 M" and inv: "sweep_inv K s0 M k part ks s" and k: "k < sb_num s0"
  shows "\<exists>k' d' part' ks' s'.
    sweep_iter (sb_at s0 k) (desc_at s0 k) (sorted_list_of_set (marks_from s0 M k)) (desc_ptr s0 (head_opt ks)) s
      = Inr (sorted_list_of_set (marks_from s0 M k'), sb_at s0 k', d', desc_ptr s0 (head_opt ks'), s')
    \<and> (k' < sb_num s0 \<longrightarrow> d' = desc_at s0 k') \<and> k < k' \<and> sweep_inv K s0 M k' part' ks' s'"
proof (cases "\<not> hit s0 M k \<or> K k = Unused")
  case True
  then show ?thesis using sweep_iter_empty [OF assms True] by (metis lessI)
next
  case False
  consider (small) c where "K k = Small c" | (large) m where "K k = Large m" | (tail) "K k = Tail"
    using False by (cases "K k") auto
  then show ?thesis
  proof cases
    case small
    then show ?thesis using sweep_iter_small [OF assms small] False by (metis lessI)
  next
    case large
    then obtain d' s' where r: "sweep_iter (sb_at s0 k) (desc_at s0 k) (sorted_list_of_set (marks_from s0 M k)) (desc_ptr s0 (head_opt ks)) s
      = Inr (sorted_list_of_set (marks_from s0 M (k + m)), sb_at s0 (k + m), d', desc_ptr s0 (head_opt ks), s')"
      "k + m < sb_num s0 \<longrightarrow> d' = desc_at s0 (k + m)" "1 \<le> m" "sweep_inv K s0 M (k + m) part ks s'"
      using sweep_iter_large [OF assms large, of "desc_ptr s0 (head_opt ks)"] False by blast
    moreover have "k < k + m" using r(3) by simp
    ultimately show ?thesis by blast
  next
    case tail
    note lay = gc_readyD(1) [OF ready] and cap = sb_num_le_cap [OF gc_readyD(1) [OF ready]]
    obtain off where off: "off < 65536" "sb_at s0 k + of_nat off \<in> M" using False by (auto simp: hit_def)
    obtain j o' where j: "1 \<le> j" "j < sb_num s0" "o' < 65536" "sb_at s0 k + of_nat off = sb_at s0 j + of_nat o'"
      "case K j of Small c \<Rightarrow> \<exists>i < bnum c. o' = i * bsz c | Tail \<Rightarrow> False | _ \<Rightarrow> True"
      by (rule marks_okD [OF ok off(2)])
    have "k = j" using sb_addr_inj [OF lay _ _ off(1) j(3,4)] j(2) k cap by simp
    then show ?thesis using tail j(5) by simp
  qed
qed

lemma sweep_loop_rep:
  assumes ready: "gc_ready K s0" and ok: "marks_ok K s0 M"
    and "sweep_inv K s0 M k part ks s" and "sb_num s0 - k < fuel" and "k < sb_num s0 \<longrightarrow> d = desc_at s0 k"
  shows "\<exists>part' ks' s'. sweep_loop fuel (sb_at s0 (sb_num s0))
      (sorted_list_of_set (marks_from s0 M k), sb_at s0 k, d, desc_ptr s0 (head_opt ks), s)
      = Inr ([], desc_ptr s0 (head_opt ks'), s') \<and> sweep_inv K s0 M (sb_num s0) part' ks' s'"
  using assms(3-5)
proof (induction fuel arbitrary: k part ks s d)
  case (Suc fuel)
  note lay = gc_readyD(1) [OF ready] and cap = sb_num_le_cap [OF gc_readyD(1) [OF ready]]
  have kn: "k \<le> sb_num s0" by (rule sweep_invD(2) [OF Suc.prems(1)])
  show ?case
  proof (cases "k < sb_num s0")
    case True
    obtain k' d' part' ks' s' where it:
      "sweep_iter (sb_at s0 k) (desc_at s0 k) (sorted_list_of_set (marks_from s0 M k)) (desc_ptr s0 (head_opt ks)) s
        = Inr (sorted_list_of_set (marks_from s0 M k'), sb_at s0 k', d', desc_ptr s0 (head_opt ks'), s')"
      "k' < sb_num s0 \<longrightarrow> d' = desc_at s0 k'" "k < k'" "sweep_inv K s0 M k' part' ks' s'"
      using sweep_iter_rep [OF ready ok Suc.prems(1) True] by blast
    have "sb_num s0 - k' < fuel" using it(3) True Suc.prems(2) by simp
    note ih = Suc.IH [OF it(4) this it(2)]
    have "sb_at s0 k < sb_at s0 (sb_num s0)"
      using unat_sb_at [OF lay, of k] unat_sb_at [OF lay cap] True cap by (simp add: word_less_nat_alt)
    then show ?thesis using ih it(1) Suc.prems(3) True by simp
  next
    case False
    then have k: "k = sb_num s0" using kn by simp
    have "marks_from s0 M k = {}"
    proof (rule ccontr)
      assume "marks_from s0 M k \<noteq> {}"
      then obtain a where a: "a \<in> M" "sb_at s0 k \<le> a" by (auto simp: marks_from_def)
      obtain j off where j: "1 \<le> j" "j < sb_num s0" "off < 65536" "a = sb_at s0 j + of_nat off"
        using a(1) by (rule marks_okD [OF ok])
      have "sb_at s0 k \<le> sb_at s0 j + of_nat off \<longleftrightarrow> k \<le> j"
        using sb_le_iff [OF lay, of k j off] j cap k by simp
      then show False using a(2) j k by simp
    qed
    then show ?thesis using Suc.prems(1) k by auto
  qed
qed simp

subsection \<open>Initialization\<close>

definition clear_partial :: "nat \<Rightarrow> ralloc_state \<Rightarrow> ralloc_state" where
  "clear_partial i s = (let h = heap_addr (base_md s) i in s\<lparr>heaps := (heaps s)(h := (heaps s h)\<lparr>h_partial_list := 0\<rparr>)\<rparr>)"

lemma gc_init_heaps:
  "fold clear_partial is s
    = s\<lparr>heaps := (\<lambda>h. if h \<in> heap_addr (base_md s) ` set is then (heaps s h)\<lparr>h_partial_list := 0\<rparr> else heaps s h)\<rparr>"
proof (induction "is" arbitrary: s)
  case (Cons i "is")
  have b: "base_md (clear_partial i s) = base_md s" by (simp add: base_md_def clear_partial_def Let_def)
  have "(\<lambda>h. if h \<in> heap_addr (base_md s) ` set is then (heaps (clear_partial i s) h)\<lparr>h_partial_list := 0\<rparr>
        else heaps (clear_partial i s) h)
    = (\<lambda>h. if h \<in> heap_addr (base_md s) ` set (i # is) then (heaps s h)\<lparr>h_partial_list := 0\<rparr> else heaps s h)"
    by (auto simp: fun_eq_iff clear_partial_def Let_def)
  then show ?case using Cons.IH [of "clear_partial i s"] unfolding b by (simp add: clear_partial_def Let_def)
qed simp

lemma gc_init_eq: "gc_init s = fold clear_partial [0..<MAX_SZ_IDX] (s\<lparr>avail_sb := 0\<rparr>)"
  unfolding gc_init_def clear_partial_def [abs_def] ..

lemma gc_init_simps [simp]:
  "rgs (gc_init s) = rgs s" "descs (gc_init s) = descs s" "mem (gc_init s) = mem s" "roots (gc_init s) = roots s"
  "pm (gc_init s) = pm s" "wb (gc_init s) = wb s" "t_caches (gc_init s) = t_caches s"
  "roots_filter_func (gc_init s) = roots_filter_func s" "dirty_mtx (gc_init s) = dirty_mtx s"
  "avail_sb (gc_init s) = 0" "h_sc_idx (heaps (gc_init s) h) = h_sc_idx (heaps s h)"
  by (simp_all add: gc_init_eq gc_init_heaps)

lemma gc_init_partial:
  assumes "c < 40"
  shows "h_partial_list (heaps (gc_init s) (heap_addr (base_md s) c)) = 0"
proof -
  have "base_md (s\<lparr>avail_sb := 0\<rparr>) = base_md s" by (simp add: base_md_def)
  then show ?thesis using assms by (simp add: gc_init_eq gc_init_heaps)
qed

lemma gc_init_ready: "gc_ready K (gc_init s) = gc_ready K s"
proof -
  have r: "rgs (gc_init s) = rgs s" by simp
  have "kind_rep K (gc_init s) k = kind_rep K s k" for k
    by (simp add: kind_rep_def geometry_cong [OF r] desc_static_cong [OF r] in_use_def split: sb_kind.splits)
  then show ?thesis by (simp add: gc_ready_def geometry_cong [OF r])
qed

lemma sweep_inv_init:
  assumes ready: "gc_ready K s" and "avail_sb s = 0"
    and "\<And>c. c < 40 \<Longrightarrow> h_partial_list (heaps s (heap_addr (base_md s) c)) = 0"
  shows "sweep_inv K s M 1 (\<lambda>c. []) [] s"
proof -
  note rd = gc_readyD [OF ready]
  have kind: "a_kind (a_swept K s M (\<lambda>c. []) 1) j = Tail" for j by (auto simp: a_swept_def)
  have "rep (a_swept K s M (\<lambda>c. []) 1) s"
  proof (rule repI)
    show "h_sc_idx (heaps s (heap_addr (base_md s) i)) = of_nat i" if "i < 40" for i using rd(4) that by simp
  qed (use rd assms(2,3) head_is_zero kind in
      \<open>simp_all add: avail_rep_def part_rep_def desc_rep_def durable_rep_def caches_rep_def\<close>)
  then show ?thesis using rd(2) by (auto simp: sweep_inv_def cells_changed_def)
qed

subsection \<open>The rebuilt heap\<close>

lemma swept_ainv:
  assumes ready: "gc_ready K s0" and ok: "marks_ok K s0 M" and inv: "sweep_inv K s0 M (sb_num s0) part ks s"
  shows "ainv ((a_swept K s0 M part (sb_num s0))\<lparr>a_avail := ks\<rparr>)" (is "ainv ?g")
proof -
  let ?n = "sb_num s0"
  note iv = sweep_invD [OF inv]
  have v: "sb_valid ?g j \<longleftrightarrow> 1 \<le> j \<and> j < ?n" for j by (simp add: sb_valid_def)
  have kind: "a_kind ?g j = kept K s0 M j" and free: "a_free ?g j = (case kept K s0 M j of Small c \<Rightarrow> unmarked s0 M c j | _ \<Rightarrow> [])"
    if "1 \<le> j" "j < ?n" for j using a_swept_at(1,2) [OF that] by simp_all
  have small: "1 \<le> c \<and> c < 40 \<and> a_free ?g j = unmarked s0 M c j" if "sb_valid ?g j" "a_kind ?g j = Small c" for j c
  proof -
    have "kept K s0 M j = Small c" using that kind [of j] by (simp add: v)
    then show ?thesis using that(1) free [of j] kept_small(3,4) [OF ready, of j M c] by (simp add: v)
  qed
  have large: "K j = Large m" "hit s0 M j" "kind_rep K s0 j" if "sb_valid ?g j" "a_kind ?g j = Large m" for j m
    using that kind [of j] gc_readyD(6) [OF ready, of j]
    by (auto simp: v kept_def split: sb_kind.splits if_splits)
  have "kinds_ok ?g"
  proof (rule kinds_okI)
    show "1 \<le> a_num ?g" using gc_readyD(2) [OF ready] by simp
    fix j assume j: "sb_valid ?g j"
    show "1 \<le> c \<and> c < 40 \<and> distinct (a_free ?g j) \<and> set (a_free ?g j) \<subseteq> {..<bnum c}" if "a_kind ?g j = Small c" for c
      using small [OF j that] unmarked_props(1,2) [of c s0 M j] by auto
    show "a_free ?g j = []" if "\<And>c. a_kind ?g j \<noteq> Small c"
      using that kind [of j] free [of j] j by (simp add: v split: sb_kind.splits)
    show "1 \<le> m \<and> m < 65536 \<and> j + m \<le> a_num ?g" if "a_kind ?g j = Large m" for m
      using large [OF j that] by (simp add: kind_rep_def)
    show "a_kind ?g i = Tail" if "a_kind ?g j = Large m" "j < i" "i < j + m" for m i
    proof -
      note lg = large [OF j that(1)]
      have t: "\<And>i. j < i \<Longrightarrow> i < j + m \<Longrightarrow> K i = Tail" and "j + m \<le> ?n" using lg by (simp_all add: kind_rep_def)
      then have "kept K s0 M i = Tail" "i < ?n"
        using kept_tail [of K j m s0 M i] lg(1,2) j that by (auto simp: v)
      then show ?thesis using kind [of i] that(2) by simp
    qed
  qed
  moreover have "lists_ok ?g"
  proof (rule lists_okI)
    show "distinct (a_avail ?g)" using iv(10) by simp
    show "j \<in> set (a_avail ?g) \<longleftrightarrow> sb_valid ?g j \<and> a_kind ?g j = Unused" for j
      using iv(11) [of j] kind [of j] by (auto simp: v)
    fix c assume c: "1 \<le> c" "c < (40 :: nat)"
    show "distinct (a_part ?g c)" using iv(7) [OF c] by simp
    show "j \<in> set (a_part ?g c) \<longleftrightarrow> sb_valid ?g j \<and> a_kind ?g j = Small c \<and> a_free ?g j \<noteq> []" for j
      using iv(8) [OF c, of j] kind [of j] free [of j] by (cases "kept K s0 M j") (auto simp: v)
  qed
  moreover have "caches_ok ?g" by (rule caches_okI) simp_all
  ultimately show ?thesis by (simp add: ainv_def)
qed

lemma swept_rep:
  assumes ready: "gc_ready K s0" and inv: "sweep_inv K s0 M (sb_num s0) part ks s"
    and s': "s' = s\<lparr>avail_sb := acp_store (rgs s) DESC_IDX \<lparr>pc_ptr = desc_ptr s0 (head_opt ks), pc_cnt = 0\<rparr>\<rparr>"
  shows "rep ((a_swept K s0 M part (sb_num s0))\<lparr>a_avail := ks\<rparr>) s'" (is "rep ?g s'")
proof -
  note iv = sweep_invD [OF inv]
  have r: "rgs s' = rgs s" "rgs s' = rgs s0" using iv(3) by (simp_all add: s')
  have "avail_rep ?g s'"
  proof -
    have "\<forall>j \<in> set ks. sb_valid ?g j" using iv(2) by (auto simp: iv(11) sb_valid_def)
    moreover have "head_is (rgs s') (avail_sb s') (desc_ptr s' (head_opt ks))"
      using head_is_pack [of "rgs s'" "\<lparr>pc_ptr = desc_ptr s0 (head_opt ks), pc_cnt = 0\<rparr>"]
      by (simp add: s' acp_store_def geometry_cong [OF r(2)] geometry_cong [OF iv(3)] desc_ptr_def desc_at_def iv(3) cong: option.case_cong)
    moreover have "dlinked (\<lambda>k. next_free_is s' (desc_at s' k)) s' ks"
      using iv(12) by (rule dlinked_cong [THEN iffD1, rotated -1])
        (simp_all add: geometry_cong [OF r(2)], simp add: next_free_is_def fun_eq_iff s')
    ultimately show ?thesis by (simp add: avail_rep_def)
  qed
  moreover have "part_rep ?g s' c" if "1 \<le> c" "c < 40" for c
    by (rule part_rep_frame [OF repD(6) [OF iv(6) that] r(1)]) (simp_all add: s')
  ultimately show ?thesis
    using repD(3) [OF iv(6)]
    by (intro rep_meta_frame [OF iv(6)]) (simp_all add: s' same_rest_def desc_same_def)
qed

end
