(* ===== verification/Recovery.thy ===== *)
theory Recovery
  imports GCCorrect HeapSpec
begin

text \<open>
  Recovery from crashes: the write-back at the end of a collection, the correctness of the
  collector, and \<^verbatim>\<open>restart\<close> after a process has died at a point between operations.
\<close>

subsection \<open>Write-back\<close>

fun desc_line :: "wline \<Rightarrow> bool" where
  "desc_line (WDesc d v) = True"
| "desc_line _ = False"

lemma pm_descs_other_lines:
  "(\<And>l. l \<in> set ls \<Longrightarrow> \<not> desc_line l) \<Longrightarrow> pm_descs (foldr write_line ls p) = pm_descs p"
proof (induction ls)
  case (Cons l ls)
  have "\<not> desc_line l" "pm_descs (foldr write_line ls p) = pm_descs p" using Cons by simp_all
  then show ?case by (cases l) simp_all
qed simp

lemma flush_meta_lines:
  "\<exists>ls. flush_meta_line this a s = s\<lparr>wb := ls @ wb s\<rparr> \<and> (\<forall>l \<in> set ls. \<not> desc_line l)"
proof -
  let ?k = "unat (a - this) div 64"
  let ?ls = "if ?k = 0 then [WAvail (avail_sb s)]
    else if ?k \<le> 40 then [WHeap (heap_addr this (?k - 1)) (heaps s (heap_addr this (?k - 1)))]
    else if ?k \<le> 168 then [WRoots (8 * (?k - 41) div 8) (roots s)] else []"
  have "flush_meta_line this a s = s\<lparr>wb := ?ls @ wb s\<rparr>"
    by (simp add: flush_meta_line_def Let_def flush_avail_def flush_heap_def flush_root_def del: div_mult_self1_is_m)
  moreover have "\<forall>l \<in> set ?ls. \<not> desc_line l" by simp
  ultimately show ?thesis by blast
qed

lemma writeback_loop_lines:
  "\<exists>ls. writeback_loop n this a s = s\<lparr>wb := ls @ wb s\<rparr> \<and> (\<forall>l \<in> set ls. \<not> desc_line l)"
proof (induction n arbitrary: a s)
  case 0
  show ?case by (rule exI [of _ "[]"]) simp
next
  case (Suc n)
  let ?b = "a + CACHELINE_SIZE"
  obtain l1 where l1: "flush_meta_line this ?b s = s\<lparr>wb := l1 @ wb s\<rparr>" "\<forall>l \<in> set l1. \<not> desc_line l"
    using flush_meta_lines by blast
  obtain l2 where l2: "writeback_loop n this ?b (s\<lparr>wb := l1 @ wb s\<rparr>) = s\<lparr>wb := l2 @ l1 @ wb s\<rparr>" "\<forall>l \<in> set l2. \<not> desc_line l"
    using Suc.IH [of ?b "s\<lparr>wb := l1 @ wb s\<rparr>"] by auto
  show ?case using l1 l2 by (intro exI [of _ "l2 @ l1"]) auto
qed

lemma fold_flush_desc:
  "fold flush_desc ds s = s\<lparr>wb := rev (map (\<lambda>d. WDesc d (descs s d)) ds) @ wb s\<rparr>"
  by (induction ds arbitrary: s) (simp_all add: flush_desc_def)

lemma pm_descs_lines:
  "pm_descs (foldr write_line (map (\<lambda>d. WDesc d (f d)) ds) p) a = (if a \<in> set ds then f a else pm_descs p a)"
  by (induction ds) auto

lemma flush_lines_some:
  assumes "unat e < 2 ^ 47" and "unat e - unat a \<le> 64 * n"
  shows "\<exists>xs. flush_lines (Suc n) a e = Some xs"
  using assms(2)
proof (induction n arbitrary: a)
  case 0
  then show ?case by (simp add: word_less_nat_alt)
next
  case (Suc n)
  show ?case
  proof (cases "a < e")
    case True
    then have l: "unat a < unat e" by (simp add: word_less_nat_alt)
    have "unat (a + of_nat 64) = unat a + 64" by (rule unat_offset) (use l assms(1) in simp)
    then have "unat e - unat (a + 64) \<le> 64 * n" using Suc.prems by simp
    then show ?thesis using Suc.IH [of "a + 64"] True by auto
  qed simp
qed

lemma gc_flush_rep:
  assumes rep: "rep g s"
  shows "\<exists>s'. gc_flush s = Inr s' \<and> rep g s' \<and> same_rest s s' \<and> s' = s\<lparr>pm := pm s'\<rparr>"
proof -
  note lay = repD(1) [OF rep] and wb = repD(3) [OF rep]
  have "unat (curr_addr (regions (rgs s) (ridx DESC_IDX))) - unat (lookup (rgs s) DESC_IDX) \<le> 64 * 2 ^ 34"
    "unat (curr_addr (regions (rgs s) (ridx DESC_IDX))) < 2 ^ 47"
    using layout_okD(13) [OF lay] by (simp_all add: desc_end_ok_def le_diff_conv add.commute)
  from flush_lines_some [OF this(2,1)]
  obtain ds where ds: "flush_region FLUSH_FUEL (rgs s) DESC_IDX = Some ds"
    unfolding flush_region_def FLUSH_FUEL_def lookup_def by blast
  have n: "sb_num s \<le> 16777216" using sb_num_le_cap [OF lay] layout_okD(12) [OF lay] by simp
  have e: "unat (curr_addr (sb_region s)) = unat (lookup (rgs s) SB_IDX) + 65536 * sb_num s"
    using curr_addr_num(1) [OF lay] unat_sb_at [OF lay sb_num_le_cap [OF lay]] by simp
  have "unat (curr_addr (sb_region s)) < 2 ^ 47" "unat (curr_addr (sb_region s)) - unat (lookup (rgs s) SB_IDX) \<le> 64 * 2 ^ 34"
    using e n sb_cap_bound(2) [OF lay] mult_le_mono2 [OF sb_num_le_cap [OF lay], of 65536] by simp_all
  from flush_lines_some [OF this] obtain xs where xs: "flush_region FLUSH_FUEL (rgs s) SB_IDX = Some xs"
    unfolding flush_region_def FLUSH_FUEL_def lookup_def sb_region_def by blast
  define s1 where "s1 = FLUSHFENCE (fold flush_desc ds s)"
  have s1: "s1 = s\<lparr>pm := pm s1\<rparr>" by (simp add: s1_def FLUSHFENCE_def fold_flush_desc wb)
  have pm1: "pm_descs (pm s1) a = (if a \<in> set ds then descs s a else pm_descs (pm s) a)" for a
    unfolding s1_def FLUSHFENCE_def fold_flush_desc
    by (simp add: wb rev_map pm_descs_lines)
  obtain ls where ls: "writeback_loop (sizeof_BaseMeta div unat CACHELINE_SIZE) (base_md s) (base_md s) s1 = s1\<lparr>wb := ls @ wb s1\<rparr>"
    "\<forall>l \<in> set ls. \<not> desc_line l"
    using writeback_loop_lines by blast
  let ?s' = "FLUSHFENCE (s1\<lparr>wb := ls @ wb s1\<rparr>)"
  have wb1: "wb s1 = []" by (simp add: s1_def FLUSHFENCE_def)
  have pm': "pm_descs (pm ?s') a = (if a \<in> set ds then descs s a else pm_descs (pm s) a)" for a
    using pm_descs_other_lines [of ls "pm s1"] ls(2) pm1 [of a] by (simp add: FLUSHFENCE_def wb1)
  have s': "?s' = s\<lparr>pm := pm ?s'\<rparr>"
  proof -
    obtain p1 where "s1 = s\<lparr>pm := p1\<rparr>" using s1 by blast
    then show ?thesis using wb by (cases s) (simp add: FLUSHFENCE_def)
  qed
  have r: "rgs ?s' = rgs s" by (subst s') simp
  have "rep g ?s'"
  proof (rule repI)
    show "layout_ok ?s'" "sb_num ?s' = a_num g" using repD(1,2) [OF rep] by (simp_all add: geometry_cong [OF r])
    show "wb ?s' = []" by (simp add: FLUSHFENCE_def)
    have f: "avail_sb ?s' = avail_sb s" "heaps ?s' = heaps s" "descs ?s' = descs s" "mem ?s' = mem s" "t_caches ?s' = t_caches s"
      by (subst s', simp)+
    show "h_sc_idx (heaps ?s' (heap_addr (base_md ?s') i)) = of_nat i" if "i < 40" for i
      using repD(4) [OF rep that] by (simp add: geometry_cong [OF r] f)
    show "avail_rep g ?s'" by (rule avail_rep_frame [OF repD(5) [OF rep] r]) (simp_all add: f)
    show "part_rep g ?s' c" if "1 \<le> c" "c < 40" for c
      by (rule part_rep_frame [OF repD(6) [OF rep that] r]) (simp_all add: f)
    show "caches_rep g ?s' t c" if "1 \<le> c" "c < 40" for t c
      by (rule caches_rep_frame [OF repD(9) [OF rep that] r]) (simp_all add: f)
    fix k assume k: "sb_valid g k"
    show "desc_rep g ?s' k"
      by (rule desc_rep_frame [OF repD(7) [OF rep k] r]) (simp_all add: f desc_same_def)
    show "durable_rep g ?s' k"
      using repD(7,8) [OF rep k]
      by (simp add: durable_rep_def desc_rep_def desc_static_cong [OF r] geometry_cong [OF r] pm' split: sb_kind.splits)
  qed
  moreover have "same_rest s ?s'" unfolding same_rest_def by (subst s', simp)+ 
  moreover have "gc_flush s = Inr ?s'" using ds xs ls(1) by (simp add: gc_flush_def s1_def Let_def)
  ultimately show ?thesis using s' by blast
qed

subsection \<open>The collector\<close>

lemma mark_func_cong: "rgs s' = rgs s \<Longrightarrow> mark_func s' = mark_func s"
  by (simp add: fun_eq_iff mark_func_def)

lemma filter_func_cong:
  assumes "rgs s' = rgs s" and "mem s' = mem s" and "descs s' = descs s"
  shows "filter_func ff s' = filter_func ff s"
proof -
  have "default_filter s' = default_filter s"
    by (rule ext) (simp add: default_filter_def assms geometry_cong(10) [OF assms(1)])
  then show ?thesis
    by (intro ext) (simp add: filter_func_def mark_func_cong [OF assms(1)] assms(2) split: option.split)
qed

lemma gc_mark_cong:
  assumes st: "rgs s' = rgs s" "mem s' = mem s" "descs s' = descs s" and rt: "roots s' = roots s"
    "roots_filter_func s' = roots_filter_func s"
  shows "gc_mark ff s' = gc_mark ff s"
proof -
  have "mark_roots is s' gc = mark_roots is s gc" for "is" gc
    by (induction "is" arbitrary: gc) (simp_all add: st(1) rt mark_func_cong [OF st(1)] split: option.split)
  moreover have "mark_loop ff s' gc = mark_loop ff s gc" for gc
    using st
  proof (induction ff s gc rule: mark_loop.induct)
    case (1 ff s gc)
    show ?case
      using 1(1) [OF _ refl refl 1(2-4)] filter_func_cong [OF 1(2-4), of ff]
      by (subst (1 2) mark_loop.simps) (simp add: Let_def)
  qed
  ultimately show ?thesis by (simp add: gc_mark_def)
qed

lemma marks_cong:
  assumes "rgs s' = rgs s"
  shows "marks_ok K s' M = marks_ok K s M" and "gc_live K s' M = gc_live K s M"
  using geometry_cong [OF assms]
  by (simp_all add: marks_ok_def mark_ok_def gc_live_def hit_def)

lemma swept_live:
  assumes ready: "gc_ready K s0" and ok: "marks_ok K s0 M" and r: "rgs s = rgs s0"
    and g: "g = (a_swept K s0 M part (sb_num s0))\<lparr>a_avail := ks\<rparr>"
  shows "live g s = gc_live K s0 M"
proof -
  let ?n = "sb_num s0"
  note lay = gc_readyD(1) [OF ready]
  have v: "sb_valid g j \<longleftrightarrow> 1 \<le> j \<and> j < ?n" for j by (simp add: sb_valid_def g)
  have kind: "a_kind g j = kept K s0 M j" and free: "a_free g j = (case kept K s0 M j of Small c \<Rightarrow> unmarked s0 M c j | _ \<Rightarrow> [])"
    if "1 \<le> j" "j < ?n" for j using a_swept_at(1,2) [OF that] by (simp_all add: g)
  have nc: "\<not> cached g b" for b by (simp add: cached_def g)
  have alive: "(k, i) \<in> alive g \<longleftrightarrow> 1 \<le> k \<and> k < ?n \<and>
      ((\<exists>c. K k = Small c \<and> i < bnum c \<and> block_at s0 c k i \<in> M) \<or> (\<exists>m. K k = Large m \<and> hit s0 M k \<and> i = 0))" for k i
  proof (cases "1 \<le> k \<and> k < ?n")
    case True
    then show ?thesis
    proof (cases "K k")
      case (Small c)
      have c: "1 \<le> c" "c < 40" using gc_readyD(6) [OF ready, of k] True Small by (simp_all add: kind_rep_def)
      have "hit s0 M k" if "i < bnum c" "block_at s0 c k i \<in> M" using marks_small(2) [OF lay ok _ c Small] True that by auto
      then show ?thesis
        using True Small kind [of k] free [of k] nc unmarked_props(2) [OF c, of s0 M k]
        by (auto simp: alive_def v kept_def)
    qed (use True kind [of k] in \<open>auto simp: alive_def v kept_def\<close>)
  qed (auto simp: alive_def v)
  have size: "block_size_of g k = (case K k of Small c \<Rightarrow> bsz c | Large m \<Rightarrow> 65536 * m | _ \<Rightarrow> 0)" if "(k, i) \<in> alive g" for k i
  proof -
    have k: "1 \<le> k" "k < ?n" and "(\<exists>c. K k = Small c \<and> i < bnum c \<and> block_at s0 c k i \<in> M) \<or> (\<exists>m. K k = Large m \<and> hit s0 M k)"
      using that by (auto simp: alive)
    then have "kept K s0 M k = K k"
      using gc_readyD(6) [OF ready k] marks_small(2) [OF lay ok k(2)] by (auto simp: kept_def kind_rep_def)
    then show ?thesis using kind [OF k] by (simp add: block_size_of_def)
  qed
  show ?thesis
  proof (rule set_eqI)
    fix b
    have "b \<in> live g s \<longleftrightarrow> (\<exists>k i. (k, i) \<in> alive g \<and> b = (sb_at s0 k + of_nat (i * block_size_of g k), block_size_of g k))"
      by (force simp: live_def block_addr_of_def geometry_cong [OF r])
    also have "\<dots> \<longleftrightarrow> b \<in> gc_live K s0 M"
    proof
      assume "\<exists>k i. (k, i) \<in> alive g \<and> b = (sb_at s0 k + of_nat (i * block_size_of g k), block_size_of g k)"
      then obtain k i where ki: "(k, i) \<in> alive g" "b = (sb_at s0 k + of_nat (i * block_size_of g k), block_size_of g k)" by blast
      then show "b \<in> gc_live K s0 M" using size [OF ki(1)] unfolding alive gc_live_def block_at_def by auto
    next
      assume "b \<in> gc_live K s0 M"
      then consider (small) c k i where "b = (block_at s0 c k i, bsz c)" "1 \<le> k" "k < ?n" "K k = Small c" "i < bnum c" "block_at s0 c k i \<in> M"
        | (large) k m where "b = (sb_at s0 k, 65536 * m)" "1 \<le> k" "k < ?n" "K k = Large m" "hit s0 M k"
        by (auto simp: gc_live_def)
      then show "\<exists>k i. (k, i) \<in> alive g \<and> b = (sb_at s0 k + of_nat (i * block_size_of g k), block_size_of g k)"
      proof cases
        case small
        then have "(k, i) \<in> alive g" by (simp add: alive)
        then show ?thesis using size [of k i] small by (intro exI [of _ k] exI [of _ i]) (simp add: block_at_def)
      next
        case large
        then have "(k, 0) \<in> alive g" by (simp add: alive)
        then show ?thesis using size [of k 0] large by (intro exI [of _ k] exI [of _ 0]) simp
      qed
    qed
    finally show "b \<in> live g s \<longleftrightarrow> b \<in> gc_live K s0 M" .
  qed
qed

lemma swept_bytes:
  assumes ready: "gc_ready K s0" and hr: "heap_rep g s" and r: "rgs s = rgs s0"
    and g: "g = (a_swept K s0 M part (sb_num s0))\<lparr>a_avail := ks\<rparr>"
    and cells: "cells_changed K s0 M (sb_num s0) (mem s)" and a: "a \<in> live_bytes g s"
  shows "mem s a = mem s0 a"
proof (rule ccontr)
  assume "mem s a \<noteq> mem s0 a"
  then obtain j c i l where j: "1 \<le> j" "j < sb_num s0" "kept K s0 M j = Small c" "i < bnum c"
    "block_at s0 c j i \<notin> M" "l < 8" "a = block_at s0 c j i + of_nat l"
    using cells unfolding cells_changed_def by blast
  note ks = kept_small [OF ready j(1-3)]
  have kind: "a_kind g j = Small c" "a_free g j = unmarked s0 M c j" "sb_valid g j"
    using a_swept_at(1,2) [OF j(1,2), of K s0 M part] j(1-3) by (simp_all add: g sb_valid_def)
  have "i \<in> set (a_free g j)" using unmarked_props(2) [OF ks(3,4), of s0 M j] j(4,5) kind(2) by simp
  then have "(j, i) \<notin> alive g" using kind by (simp add: alive_def)
  from cell_not_live [OF hr kind(3,1) j(4) this, of l] show False
    using j(6,7) a class_facts(1) [OF ks(3,4)] by (simp add: geometry_cong [OF r])
qed

lemma gc_sweep_correct:
  assumes ready: "gc_ready K s" and ok: "marks_ok K s M" and init: "avail_sb s = 0"
    "\<And>c. c < 40 \<Longrightarrow> h_partial_list (heaps s (heap_addr (base_md s) c)) = 0"
  shows "\<exists>g s'. gc_sweep M s = Inr s' \<and> heap_rep g s' \<and> rgs s' = rgs s \<and> roots s' = roots s
    \<and> dirty_mtx s' = dirty_mtx s \<and> live g s' = gc_live K s M \<and> (\<forall>a \<in> live_bytes g s'. mem s' a = mem s a)"
proof -
  let ?n = "sb_num s"
  note lay = gc_readyD(1) [OF ready] and cap = sb_num_le_cap [OF gc_readyD(1) [OF ready]]
  have all: "marks_from s M 1 = M"
  proof -
    have "sb_at s 1 \<le> a" if a: "a \<in> M" for a
    proof -
      obtain k off where k: "1 \<le> k" "k < ?n" "off < 65536" "a = sb_at s k + of_nat off"
        by (rule marks_okD [OF ok a])
      then show ?thesis using sb_le_iff [OF lay, of 1 k off] cap by simp
    qed
    then show ?thesis by (auto simp: marks_from_def)
  qed
  have first: "translate (rgs s) SB_IDX SBSIZE = sb_at s 1" by (simp add: translate_def lookup_def sb_at_def)
  have d: "1 < ?n \<longrightarrow> desc_lookup s (sb_at s 1) = desc_at s 1" using desc_lookup_sb [OF lay, of 1] cap by simp
  have fuel: "?n - 1 < SWEEP_FUEL" using layout_okD(12) [OF lay] cap by (simp add: SWEEP_FUEL_def)
  obtain part ks s1 where lp: "sweep_loop SWEEP_FUEL (sb_at s ?n) (sorted_list_of_set (marks_from s M 1), sb_at s 1,
      desc_lookup s (sb_at s 1), desc_ptr s (head_opt []), s) = Inr ([], desc_ptr s (head_opt ks), s1)"
    "sweep_inv K s M ?n part ks s1"
    using sweep_loop_rep [OF ready ok sweep_inv_init [OF ready init] fuel d] by blast
  note iv = sweep_invD [OF lp(2)]
  define s' where "s' = s1\<lparr>avail_sb := acp_store (rgs s1) DESC_IDX \<lparr>pc_ptr = desc_ptr s (head_opt ks), pc_cnt = 0\<rparr>\<rparr>"
  define g where "g = (a_swept K s M part ?n)\<lparr>a_avail := ks\<rparr>"
  have hr: "heap_rep g s'"
    using swept_ainv [OF ready ok lp(2)] swept_rep [OF ready lp(2) s'_def] by (simp add: heap_rep_def g_def)
  have r: "rgs s' = rgs s" using iv(3) by (simp add: s'_def)
  have "gc_sweep M s = Inr s'"
    using lp(1) all first by (simp add: gc_sweep_def curr_addr_num(1) [OF lay] s'_def Let_def)
  moreover have "live g s' = gc_live K s M" by (rule swept_live [OF ready ok r g_def])
  moreover have "mem s' a = mem s a" if "a \<in> live_bytes g s'" for a
    by (rule swept_bytes [OF ready hr r g_def _ that]) (use iv(15) in \<open>simp add: s'_def\<close>)
  ultimately show ?thesis using hr r iv(4,5) by (intro exI [of _ g] exI [of _ s']) (simp add: s'_def)
qed

lemma gc_recovers:
  assumes ready: "gc_ready K s" and mark: "gc_mark ff s = Inr M" and ok: "marks_ok K s M"
  shows "\<exists>g s'. GarbageCollection ff s = Inr s' \<and> heap_rep g s' \<and> rgs s' = rgs s \<and> roots s' = roots s
    \<and> dirty_mtx s' = dirty_mtx s \<and> live g s' = gc_live K s M \<and> (\<forall>a \<in> live_bytes g s'. mem s' a = mem s a)"
proof -
  have r: "rgs (gc_init s) = rgs s" by simp
  have ready': "gc_ready K (gc_init s)" using ready by (simp add: gc_init_ready)
  have ok': "marks_ok K (gc_init s) M" using ok marks_cong(1) [OF r] by simp
  have part: "h_partial_list (heaps (gc_init s) (heap_addr (base_md (gc_init s)) c)) = 0" if "c < 40" for c
    using gc_init_partial [OF that, of s] by (simp add: geometry_cong [OF r])
  obtain g s1 where s1: "gc_sweep M (gc_init s) = Inr s1" "heap_rep g s1" "rgs s1 = rgs s" "roots s1 = roots s"
    "dirty_mtx s1 = dirty_mtx s" "live g s1 = gc_live K s M" "\<forall>a \<in> live_bytes g s1. mem s1 a = mem s a"
    using gc_sweep_correct [OF ready' ok' _ part] marks_cong(2) [OF r] by auto
  obtain s' where s': "gc_flush s1 = Inr s'" "rep g s'" "same_rest s1 s'"
    using gc_flush_rep [of g s1] s1(2) by (auto simp: heap_rep_def)
  have r': "rgs s' = rgs s1" using s'(3) by (simp add: same_rest_def)
  have "gc_mark ff (gc_init s) = Inr M" using gc_mark_cong [of "gc_init s" s ff] mark by simp
  then have "GarbageCollection ff s = Inr s'" using s1(1) s'(1) by (simp add: GarbageCollection_def Let_def)
  moreover have "heap_rep g s'" using s1(2) s'(2) by (simp add: heap_rep_def)
  ultimately show ?thesis
    using s1 s'(3) live_cong [OF r', of g] by (intro exI [of _ g] exI [of _ s']) (simp add: same_rest_def)
qed

subsection \<open>Crashes\<close>

text \<open>
  A process dies between two operations: shared memory keeps its contents, the thread caches
  and the recorded types of the roots are gone, and the kernel marks the mutex. The next process
  has the files mapped at the same addresses. A crash inside an operation, and a power failure,
  which loses what was not flushed, are not described by this function.
\<close>

definition process_crash :: "ralloc_state \<Rightarrow> ralloc_state" where
  "process_crash s = s\<lparr>t_caches := (\<lambda>t c. new_TCacheBin), roots_filter_func := (\<lambda>i. None), dirty_mtx := Mtx_owner_dead\<rparr>"

lemma crash_ready:
  assumes hr: "heap_rep g s" and s': "rgs s' = rgs s" "descs s' = descs s" "pm s' = pm s" "heaps s' = heaps s" "wb s' = wb s"
    "\<And>t c. t_caches s' t c = new_TCacheBin"
  shows "gc_ready (a_kind g) s'"
proof -
  have inv: "ainv g" and rep: "rep g s" using hr by (simp_all add: heap_rep_def)
  note geo = geometry_cong [OF s'(1)]
  have "kind_rep (a_kind g) s' k" if k: "1 \<le> k" "k < sb_num s" for k
  proof -
    have v: "sb_valid g k" using k repD(2) [OF rep] by (simp add: sb_valid_def)
    show ?thesis
    proof (cases "a_kind g k")
      case Unused
      then show ?thesis using repD(7) [OF rep v] by (simp add: kind_rep_def desc_rep_def geo s' in_use_def)
    next
      case (Small c)
      then show ?thesis
        using repD(7,8) [OF rep v] ainv_small(1,2) [OF inv v Small]
        by (simp add: kind_rep_def desc_rep_def durable_rep_def geo s' desc_static_cong [OF s'(1)])
    next
      case (Large m)
      note lg = ainv_large [OF inv v Large]
      have "\<forall>j. k < j \<and> j < k + m \<longrightarrow> a_kind g j = Tail" using lg(4) by blast
      then show ?thesis
        using repD(7) [OF rep v] lg(1-3) Large repD(2) [OF rep]
        by (simp add: kind_rep_def desc_rep_def geo s' desc_static_cong [OF s'(1)])
    qed (simp add: kind_rep_def)
  qed
  then show ?thesis
    using repD(1-4) [OF rep] ainvD(4) [OF inv] by (simp add: gc_ready_def geo s' new_TCacheBin_def)
qed

lemma live_cases:
  assumes hr: "heap_rep g s" and b: "b \<in> live g s"
  shows "(\<exists>k i c. sb_valid g k \<and> a_kind g k = Small c \<and> i < bnum c \<and> b = (block_at s c k i, bsz c))
    \<or> (\<exists>k m. sb_valid g k \<and> a_kind g k = Large m \<and> b = (sb_at s k, 65536 * m))"
proof -
  obtain k i where ki: "(k, i) \<in> alive g" "b = (block_addr_of g s (k, i), block_size_of g k)"
    using b by (auto simp: live_def)
  consider c where "sb_valid g k" "a_kind g k = Small c" "i < bnum c" | m where "sb_valid g k" "a_kind g k = Large m" "i = 0"
    using ki(1) by (auto simp: alive_iff)
  then show ?thesis
  proof cases
    case (1 c)
    then show ?thesis using ki(2)
      by (intro disjI1 exI [of _ k] exI [of _ i] exI [of _ c]) (simp add: block_addr_of_def block_size_of_def block_at_def)
  next
    case (2 m)
    then show ?thesis using ki(2)
      by (intro disjI2 exI [of _ k] exI [of _ m]) (simp add: block_addr_of_def block_size_of_def)
  qed
qed

text \<open>Which superblock a live address is in, and where in it.\<close>

lemma live_addr:
  assumes hr: "heap_rep g s" and a: "(a, n) \<in> live g s"
  obtains k off where "sb_valid g k" and "off < 65536" and "a = sb_at s k + of_nat off"
    and "(\<exists>c i. a_kind g k = Small c \<and> i < bnum c \<and> off = i * bsz c \<and> n = bsz c) \<or> (\<exists>m. a_kind g k = Large m \<and> off = 0 \<and> n = 65536 * m)"
proof -
  consider (small) k i c where "sb_valid g k" "a_kind g k = Small c" "i < bnum c" "(a, n) = (block_at s c k i, bsz c)"
    | (large) k m where "sb_valid g k" "a_kind g k = Large m" "(a, n) = (sb_at s k, 65536 * m)"
    using live_cases [OF hr a] by blast
  then show thesis
  proof cases
    case (small k i c)
    have c: "1 \<le> c" "c < 40" using ainv_small [OF _ small(1,2)] hr by (simp_all add: heap_rep_def)
    have "i * bsz c < 65536" using block_end_le [OF c small(3)] class_facts(1) [OF c] by linarith
    then show ?thesis using that [of k "i * bsz c"] small by (auto simp: block_at_def)
  next
    case (large k m)
    then show ?thesis using that [of k 0] by auto
  qed
qed

lemma live_marks_ok:
  assumes hr: "heap_rep g s" and M: "\<And>a. a \<in> M \<Longrightarrow> \<exists>n. (a, n) \<in> live g s"
  shows "marks_ok (a_kind g) s M" and "gc_live (a_kind g) s M = {b \<in> live g s. fst b \<in> M}"
proof -
  have rep: "rep g s" using hr by (simp add: heap_rep_def)
  note lay = repD(1) [OF rep]
  have num: "sb_valid g k \<longleftrightarrow> 1 \<le> k \<and> k < sb_num s" for k using repD(2) [OF rep] by (simp add: sb_valid_def)
  show "marks_ok (a_kind g) s M"
    unfolding marks_ok_def mark_ok_def
  proof
    fix a assume "a \<in> M"
    then obtain n where "(a, n) \<in> live g s" using M by blast
    then obtain k off where k: "sb_valid g k" "off < 65536" "a = sb_at s k + of_nat off"
      "(\<exists>c i. a_kind g k = Small c \<and> i < bnum c \<and> off = i * bsz c \<and> n = bsz c) \<or> (\<exists>m. a_kind g k = Large m \<and> off = 0 \<and> n = 65536 * m)"
      by (rule live_addr [OF hr])
    then show "\<exists>k off. 1 \<le> k \<and> k < sb_num s \<and> off < 65536 \<and> a = sb_at s k + of_nat off
       \<and> (case a_kind g k of Small c \<Rightarrow> \<exists>i < bnum c. off = i * bsz c | Tail \<Rightarrow> False | _ \<Rightarrow> True)"
      unfolding num by (intro exI [of _ k] exI [of _ off]) auto
  qed
  have size: "(a, block_size_of g k) \<in> live g s \<and> (\<forall>m. a_kind g k = Large m \<longrightarrow> a = sb_at s k)"
    if a: "a \<in> M" "a = sb_at s k + of_nat off" "off < 65536" "sb_valid g k" for a k off
  proof -
    obtain n where n: "(a, n) \<in> live g s" using M a(1) by blast
    obtain k' off' where k': "sb_valid g k'" "off' < 65536" "a = sb_at s k' + of_nat off'"
      "(\<exists>c i. a_kind g k' = Small c \<and> i < bnum c \<and> off' = i * bsz c \<and> n = bsz c) \<or> (\<exists>m. a_kind g k' = Large m \<and> off' = 0 \<and> n = 65536 * m)"
      using n by (rule live_addr [OF hr])
    have "sb_at s k + of_nat off = sb_at s k' + of_nat off'" using a(2) k'(3) by simp
    then have "k = k'"
      by (rule sb_addr_inj [OF lay sb_valid_cap(1) [OF rep a(4)] sb_valid_cap(1) [OF rep k'(1)] a(3) k'(2)])
    then show ?thesis using n k'(3,4) by (auto simp: block_size_of_def)
  qed
  show "gc_live (a_kind g) s M = {b \<in> live g s. fst b \<in> M}"
  proof (intro subset_antisym subsetI)
    fix b assume "b \<in> gc_live (a_kind g) s M"
    then consider (small) c k i where "b = (block_at s c k i, bsz c)" "sb_valid g k" "a_kind g k = Small c" "i < bnum c" "block_at s c k i \<in> M"
      | (large) k m where "b = (sb_at s k, 65536 * m)" "sb_valid g k" "a_kind g k = Large m" "hit s M k"
      by (auto simp: gc_live_def num)
    then show "b \<in> {b \<in> live g s. fst b \<in> M}"
    proof cases
      case small
      have c: "1 \<le> c" "c < 40" using ainv_small [OF _ small(2,3)] hr by (simp_all add: heap_rep_def)
      have "i * bsz c < 65536" using block_end_le [OF c small(4)] class_facts(1) [OF c] by linarith
      with size [OF small(5), of k "i * bsz c"] small show ?thesis by (simp add: block_at_def block_size_of_def)
    next
      case large
      then obtain off where off: "off < 65536" "sb_at s k + of_nat off \<in> M" by (auto simp: hit_def)
      note sz = size [OF off(2) refl off(1) large(2)]
      then have e: "sb_at s k + of_nat off = sb_at s k" using large(3) by blast
      show ?thesis using sz off(2) large(1,3) unfolding e by (simp add: block_size_of_def)
    qed
  next
    fix b assume "b \<in> {b \<in> live g s. fst b \<in> M}"
    then have b: "b \<in> live g s" "fst b \<in> M" by simp_all
    consider (small) k i c where "sb_valid g k" "a_kind g k = Small c" "i < bnum c" "b = (block_at s c k i, bsz c)"
      | (large) k m where "sb_valid g k" "a_kind g k = Large m" "b = (sb_at s k, 65536 * m)"
      using live_cases [OF hr b(1)] by blast
    then show "b \<in> gc_live (a_kind g) s M"
    proof cases
      case (small k i c)
      then show ?thesis using b(2) unfolding gc_live_def num by auto
    next
      case (large k m)
      then have "hit s M k" using b(2) unfolding hit_def by (intro exI [of _ 0]) simp
      then show ?thesis using large unfolding gc_live_def num by auto
    qed
  qed
qed

subsection \<open>Restart\<close>

lemma restart_dirty:
  assumes gc: "GarbageCollection ff (s\<lparr>dirty_mtx := Mtx_held\<rparr>) = Inr s'" and s: "dirty_mtx s = Mtx_owner_dead"
    and s': "dirty_mtx s' = Mtx_held" "wb s' = []"
  shows "restart ff s = Inr (True, s')"
proof -
  have "FLUSHFENCE s' = s'" using s'(2) by (simp add: FLUSHFENCE_def)
  moreover have "s'\<lparr>dirty_mtx := Mtx_held\<rparr> = s'" using s'(1) by (cases s') simp
  ultimately show ?thesis using assms by (simp add: restart_def is_dirty_def set_dirty_def)
qed

subsection \<open>Properties\<close>


text \<open>
  A program with one root: it allocates a block, makes it root 0, and dies; its block holds no
  pointers.
\<close>

definition leaf_filter :: filters where
  "leaf_filter T = Some (\<lambda>m p. [])"

lemma leaf_reachable:
  "reachable leaf_filter s = {p. \<exists>i < MAX_ROOTS. roots s i \<noteq> 0 \<and> roots_filter_func s i \<noteq> None
     \<and> p = cross_get (rgs s) SB_IDX (roots s i) \<and> in_range (rgs s) SB_IDX p}"
proof -
  have "reach leaf_filter s T p \<Longrightarrow> \<exists>i < MAX_ROOTS. roots s i \<noteq> 0 \<and> roots_filter_func s i \<noteq> None
     \<and> p = cross_get (rgs s) SB_IDX (roots s i) \<and> in_range (rgs s) SB_IDX p" for T p
    by (induction rule: reach.induct) (auto simp: filter_calls_def leaf_filter_def)
  moreover have "\<exists>T. reach leaf_filter s T p" if "i < MAX_ROOTS" "roots s i \<noteq> 0" "roots_filter_func s i \<noteq> None"
    "p = cross_get (rgs s) SB_IDX (roots s i)" "in_range (rgs s) SB_IDX p" for i p
    using reach.root [OF that(1,2) _ that(4,5)] that(3) by blast
  ultimately show ?thesis unfolding reachable_def by blast
qed

lemma leaf_typed: "typed leaf_filter s"
  by (simp add: typed_def filter_calls_def leaf_filter_def)

lemma cross_live:
  assumes hr: "heap_rep g s" and p: "(p, n) \<in> live g s"
  shows "cross_get (rgs s) SB_IDX (cross_assign (rgs s) SB_IDX p) = p" and "cross_assign (rgs s) SB_IDX p \<noteq> 0"
    and "in_range (rgs s) SB_IDX p"
proof -
  have rep: "rep g s" using hr by (simp add: heap_rep_def)
  note lay = repD(1) [OF rep]
  obtain k off where k: "sb_valid g k" "off < 65536" "p = sb_at s k + of_nat off" using p by (rule live_addr [OF hr])
  note kc = sb_valid_cap [OF rep k(1)]
  have u: "unat p = unat (lookup (rgs s) SB_IDX) + 65536 * k + off" using unat_sb_off [OF lay kc(1), of off] k by simp
  then have ne: "p \<noteq> lookup (rgs s) SB_IDX" using kc(2) by auto
  then show "cross_get (rgs s) SB_IDX (cross_assign (rgs s) SB_IDX p) = p" "cross_assign (rgs s) SB_IDX p \<noteq> 0"
    by (auto simp: cross_get_def cross_assign_def cross_is_null_def translate_def untranslate_def lookup_def)
  have "Suc k \<le> sb_num s" using k(1) repD(2) [OF rep] by (simp add: sb_valid_def)
  then have "65536 * k + 65536 \<le> 65536 * sb_num s" by simp
  then have "unat p < unat (curr_addr (sb_region s))"
    using u k(2) curr_addr_num(2) [OF lay] by linarith
  then show "in_range (rgs s) SB_IDX p" using u
    by (simp add: in_range_def word_less_nat_alt word_le_nat_alt sb_region_def lookup_def)
qed

lemma pm_roots_line: "pm_roots (write_line (WRoots (i div 8) v) p) i = v i"
  by simp

lemma set_root_eq:
  assumes "i < MAX_ROOTS" and "wb s = []"
  shows "set_root p (of_nat i) s = Inr (if roots s i = 0 then 0 else cross_get (rgs s) SB_IDX (roots s i),
    s\<lparr>roots := (roots s)(i := cross_assign (rgs s) SB_IDX p),
      pm := write_line (WRoots (i div 8) ((roots s)(i := cross_assign (rgs s) SB_IDX p))) (pm s)\<rparr>)"
proof -
  have u: "unat (of_nat i :: u64) = i" using assms(1) by (simp add: unat_of_nat64)
  then have "(of_nat i :: u64) < of_nat MAX_ROOTS" using assms(1) by (simp add: word_less_nat_alt)
  moreover have "s\<lparr>wb := []\<rparr> = s" using assms(2) by (cases s) simp
  ultimately show ?thesis
    using u assms(2)
    by (cases s) (simp add: set_root_def Let_def cross_is_null_def FLUSHFENCE_def flush_root_def cong: if_cong)
qed

lemma rep_roots_pm:
  assumes rep: "rep g s" and "pm_descs p = pm_descs (pm s)"
  shows "rep g (s\<lparr>roots := r, pm := p\<rparr>)" (is "rep g ?s")
proof (rule repI)
  have r: "rgs ?s = rgs s" by simp
  show "layout_ok ?s" "sb_num ?s = a_num g" "wb ?s = []" using repD(1-3) [OF rep] by (simp_all add: geometry_cong [OF r])
  show "h_sc_idx (heaps ?s (heap_addr (base_md ?s) i)) = of_nat i" if "i < 40" for i
    using repD(4) [OF rep that] by (simp add: geometry_cong [OF r])
  show "avail_rep g ?s" by (rule avail_rep_frame [OF repD(5) [OF rep] r]) simp_all
  show "part_rep g ?s c" if "1 \<le> c" "c < 40" for c by (rule part_rep_frame [OF repD(6) [OF rep that] r]) simp_all
  show "desc_rep g ?s k" if "sb_valid g k" for k
    by (rule desc_rep_frame [OF repD(7) [OF rep that] r]) (simp_all add: desc_same_def)
  show "durable_rep g ?s k" if "sb_valid g k" for k
    by (rule durable_rep_frame [OF repD(8) [OF rep that] r]) (simp_all add: assms(2))
  show "caches_rep g ?s t c" if "1 \<le> c" "c < 40" for t c
    by (rule caches_rep_frame [OF repD(9) [OF rep that] r]) simp_all
qed

text \<open>
  C19. Roots. Making a live block a root returns the previous value of that root, leaves the
  heap, its blocks and the other roots as they are, and is durable when it returns;
  \<^verbatim>\<open>get_root\<close> then returns the block.
\<close>

theorem set_root_correct:
  assumes "heap_rep g s" and "(p, n) \<in> live g s" and "i < MAX_ROOTS"
  shows "\<exists>s'. set_root p (of_nat i) s = Inr (cross_get (rgs s) SB_IDX (roots s i), s')
    \<and> heap_rep g s' \<and> live g s' = live g s \<and> mem s' = mem s
    \<and> (\<forall>j. j \<noteq> i \<longrightarrow> roots s' j = roots s j) \<and> pm_roots (pm s') i = roots s' i
    \<and> (\<exists>s''. get_root T (of_nat i) s' = Inr (p, s'') \<and> roots_filter_func s'' i = Some T)"
proof -
  have rep: "rep g s" using assms(1) by (simp add: heap_rep_def)
  let ?r = "(roots s)(i := cross_assign (rgs s) SB_IDX p)"
  let ?s' = "s\<lparr>roots := ?r, pm := write_line (WRoots (i div 8) ?r) (pm s)\<rparr>"
  have u: "unat (of_nat i :: u64) = i" using assms(3) by (simp add: unat_of_nat64)
  have lt: "(of_nat i :: u64) < of_nat MAX_ROOTS" using u assms(3) by (simp add: word_less_nat_alt)
  have r: "rgs ?s' = rgs s" by simp
  have "rep g ?s'" by (rule rep_roots_pm [OF rep]) simp
  moreover have "set_root p (of_nat i) s = Inr (cross_get (rgs s) SB_IDX (roots s i), ?s')"
    using set_root_eq [OF assms(3) repD(3) [OF rep], of p] by (simp add: cross_get_def cross_is_null_def)
  moreover have "\<exists>s''. get_root T (of_nat i) ?s' = Inr (p, s'') \<and> roots_filter_func s'' i = Some T"
    using lt u cross_live(1) [OF assms(1,2)] by (simp add: get_root_def Let_def)
  ultimately show ?thesis
    using assms(1) live_cong(1) [OF r, of g] by (intro exI [of _ ?s']) (simp add: heap_rep_def)
qed

text \<open>The program of the examples up to the point where its block is root 0.\<close>

lemma sample_root: "\<exists>p n g s. heap_rep g s \<and> live g s = {(p, n)} \<and> 100 \<le> n \<and> roots s 0 = cross_assign (rgs s) SB_IDX p
    \<and> (\<forall>i < MAX_ROOTS. i \<noteq> 0 \<longrightarrow> roots s i = 0)"
proof -
  obtain p g s where s: "do_malloc 0 100 sample_heap = Inr (p, s)" "malloc_post a_init sample_heap (block_size_for 100) p g s"
    using malloc_result [OF sample_heap_rep(1) _ sample_can_malloc, of 100 0] by auto
  then have g: "heap_rep g s" "live g s = {(p, block_size_for 100)}" "roots s = roots sample_heap"
    by (simp_all add: malloc_post_def)
  have rep: "rep g s" using g(1) by (simp add: heap_rep_def)
  let ?r = "(roots s)(0 := cross_assign (rgs s) SB_IDX p)"
  let ?s' = "s\<lparr>roots := ?r, pm := write_line (WRoots 0 ?r) (pm s)\<rparr>"
  have r: "rgs ?s' = rgs s" by simp
  have "rep g ?s'" by (rule rep_roots_pm [OF rep]) simp
  then show ?thesis
    using g block_size_for_le [of 100] live_cong(1) [OF r, of g] sample_heap_rep(2)
    by (intro exI [of _ p] exI [of _ "block_size_for 100"] exI [of _ g] exI [of _ ?s']) (simp add: heap_rep_def)
qed

theorem set_root_correct_witness:
  "\<exists>p n g s s'. live g s = {(p, n)} \<and> set_root p 3 s = Inr (0, s') \<and> heap_rep g s' \<and> pm_roots (pm s') 3 = roots s' 3"
proof -
  obtain p n g s where s: "heap_rep g s" "live g s = {(p, n)}" "\<forall>i < MAX_ROOTS. i \<noteq> 0 \<longrightarrow> roots s i = 0"
    using sample_root by blast
  have "roots s 3 = 0" using s(3) by simp
  then obtain s' where "set_root p 3 s = Inr (0, s')" "heap_rep g s'" "pm_roots (pm s') 3 = roots s' 3"
    using set_root_correct [OF s(1), of p n 3 0] s(2) by (auto simp: cross_get_def cross_is_null_def)
  then show ?thesis using s(2) by blast
qed


text \<open>
  C18. Marking. When the type of every root that is set is known, the marking phase of the
  collector ends and only marks addresses that are reachable from the roots. It marks all of
  them under a condition on the program's types: all types an address can be reached with
  make the same calls of \<^verbatim>\<open>mark_func\<close> for it. Without it an address may be missed, because a block
  is filtered once, with the type it was reached with first.
\<close>

theorem gc_mark_correct:
  assumes "\<And>i. i < MAX_ROOTS \<Longrightarrow> roots s i \<noteq> 0 \<Longrightarrow> roots_filter_func s i \<noteq> None"
  shows "\<exists>M. gc_mark ff s = Inr M \<and> M \<subseteq> reachable ff s \<and> (typed ff s \<longrightarrow> M = reachable ff s)"
  using gc_mark_sound [OF assms] .

text \<open>
  A list of two nodes, each a block whose first word points to the next one; root 0 is the first
  node.
\<close>

definition list_filter :: filters where
  "list_filter T = Some (\<lambda>m p. [(1, load_pptr m p)])"

definition two_nodes :: ralloc_state where
  "two_nodes = sample_heap
     \<lparr>roots := (roots sample_heap)(0 := cross_assign (rgs sample_heap) SB_IDX (sb_at sample_heap 1)),
      roots_filter_func := (\<lambda>_. Some 1),
      mem := store_pptr (store_pptr (mem sample_heap) (sb_at sample_heap 1) (sb_at sample_heap 2)) (sb_at sample_heap 2) 0\<rparr>"

lemma list_calls: "filter_calls list_filter s T p = [(1, load_pptr (mem s) p)]"
  by (simp add: filter_calls_def list_filter_def)

lemma sample_superblock:
  assumes "1 \<le> k" and "k < 16384"
  shows "block_addr (sb_at sample_heap k)" and "in_range (rgs sample_heap) SB_IDX (sb_at sample_heap k)"
    and "unat (sb_at sample_heap k) = unat (lookup (rgs sample_heap) SB_IDX) + 65536 * k"
proof -
  have rep: "rep a_init sample_heap" using sample_heap_rep(1) by (simp add: heap_rep_def)
  note lay = repD(1) [OF rep]
  have kc: "k < sb_cap sample_heap" using assms sample_heap_rep(3) by simp
  show "block_addr (sb_at sample_heap k)" using block_at_props(1) [OF lay kc, of 1 0] class_facts(4) [of 1] by (simp add: block_at_def)
  show u: "unat (sb_at sample_heap k) = unat (lookup (rgs sample_heap) SB_IDX) + 65536 * k" using unat_sb_at [OF lay] kc by simp
  then have "unat (sb_at sample_heap k) < unat (curr_addr (sb_region sample_heap))"
    using curr_addr_num(2) [OF lay] repD(2) [OF rep] assms by (simp add: a_init_simps)
  then show "in_range (rgs sample_heap) SB_IDX (sb_at sample_heap k)" using u
    by (simp add: in_range_def word_less_nat_alt word_le_nat_alt sb_region_def lookup_def)
qed

lemma two_nodes_links:
  "load_pptr (mem two_nodes) (sb_at sample_heap 1) = sb_at sample_heap 2" "load_pptr (mem two_nodes) (sb_at sample_heap 2) = 0"
proof -
  note a = sample_superblock [of 1] and b = sample_superblock [of 2]
  have near: "near (sb_at sample_heap 2) (sb_at sample_heap 1)" "near 0 (sb_at sample_heap 2)"
    using a(1) b(1) by (simp_all add: near_iff block_addr_def)
  have "unat (sb_at sample_heap 1) \<noteq> unat (sb_at sample_heap 2)" using a(3) b(3) by simp
  then have "sb_at sample_heap 2 \<noteq> sb_at sample_heap 1" by metis
  then show "load_pptr (mem two_nodes) (sb_at sample_heap 1) = sb_at sample_heap 2" "load_pptr (mem two_nodes) (sb_at sample_heap 2) = 0"
    using near a(1) b(1) by (simp_all add: two_nodes_def load_store_pptr_same load_store_pptr_other block_addr_def)
qed

lemma two_nodes_reach: "reachable list_filter two_nodes = {sb_at sample_heap 1, sb_at sample_heap 2}"
proof -
  let ?p = "sb_at sample_heap 1" and ?q = "sb_at sample_heap 2"
  have r: "rgs two_nodes = rgs sample_heap" "roots_filter_func two_nodes = (\<lambda>_. Some 1)" by (simp_all add: two_nodes_def)
  note a = sample_superblock [of 1] and b = sample_superblock [of 2]
  have "?p \<noteq> lookup (rgs sample_heap) SB_IDX" using a(3) by auto
  then have root: "cross_get (rgs sample_heap) SB_IDX (roots two_nodes 0) = ?p" "roots two_nodes 0 \<noteq> 0"
    by (auto simp: two_nodes_def cross_get_def cross_assign_def cross_is_null_def translate_def untranslate_def lookup_def)
  have none: "\<not> in_range (rgs sample_heap) SB_IDX 0"
    using layout_okD(3) [OF repD(1), of a_init sample_heap] sample_heap_rep(1)
    by (auto simp: in_range_def heap_rep_def lookup_def word_le_nat_alt)
  have "reach list_filter two_nodes T x \<Longrightarrow> x = ?p \<or> x = ?q" for T x
  proof (induction rule: reach.induct)
    case (root i T p)
    then have "i = 0" using sample_heap_rep(2) [of i] by (auto simp: two_nodes_def split: if_splits)
    then show ?case using root \<open>cross_get (rgs sample_heap) SB_IDX (roots two_nodes 0) = ?p\<close> by (simp add: r)
  next
    case (step T p T' q)
    then show ?case using two_nodes_links none by (auto simp: list_calls r)
  qed
  moreover have 1: "reach list_filter two_nodes 1 ?p" using root a(2) by (intro reach.root [of 0]) (simp_all add: r)
  moreover have "reach list_filter two_nodes 1 ?q"
    by (rule reach.step [OF 1]) (use two_nodes_links b(2) in \<open>simp_all add: list_calls r\<close>)
  ultimately show ?thesis unfolding reachable_def by blast
qed

theorem gc_mark_correct_witness: "gc_mark list_filter two_nodes = Inr {sb_at sample_heap 1, sb_at sample_heap 2}"
proof -
  have "typed list_filter two_nodes" by (simp add: typed_def list_calls)
  moreover have "roots_filter_func two_nodes i \<noteq> None" for i by (simp add: two_nodes_def)
  ultimately show ?thesis
    using gc_mark_correct [of two_nodes list_filter] by (auto simp: two_nodes_reach)
qed

text \<open>
  A root that is set and whose type has not been recorded since the process started stops
  the collector with an exception, after the lists have been reset.
\<close>

theorem gc_unknown_root:
  assumes "i < MAX_ROOTS" and "roots s i \<noteq> 0" and "roots_filter_func s i = None"
  shows "GarbageCollection ff s = Inl (Uncaught ''std::bad_function_call'')"
  using mark_roots_throws [of i "[0..<MAX_ROOTS]" "gc_init s" new_gc] assms
  by (simp add: GarbageCollection_def gc_mark_def)

theorem gc_unknown_root_witness:
  "GarbageCollection leaf_filter (sample_heap\<lparr>roots := (\<lambda>i. if i = 7 then 65536 else 0), roots_filter_func := (\<lambda>_. None)\<rparr>)
    = Inl (Uncaught ''std::bad_function_call'')"
  by (rule gc_unknown_root [of 7]) simp_all

end
