(* ===== verification/Shutdown.thy ===== *)
theory Shutdown
  imports Recovery
begin

text \<open>
  The end of a session: what \<^verbatim>\<open>writeback\<close> makes durable; and which marked addresses the sweep of
  the collector does not survive.
\<close>

subsection \<open>The lines of \<^verbatim>\<open>BaseMeta\<close>\<close>

definition meta_line :: "addr \<Rightarrow> ralloc_state \<Rightarrow> nat \<Rightarrow> wline list" where
  "meta_line this s k =
     (if k = 0 then [WAvail (avail_sb s)]
      else if k \<le> 40 then [WHeap (heap_addr this (k - 1)) (heaps s (heap_addr this (k - 1)))]
      else if k \<le> 168 then [WRoots (k - 41) (roots s)] else [])"

lemma flush_meta_line_eq:
  assumes "k < 2 ^ 58"
  shows "flush_meta_line this (this + 64 * of_nat k) s = s\<lparr>wb := meta_line this s k @ wb s\<rparr>"
proof -
  have "unat (64 * of_nat k :: u64) = unat (of_nat (64 * k) :: u64)" by simp
  also have "\<dots> = 64 * k" using assms by (intro unat_of_nat64) simp
  finally have "unat (this + 64 * of_nat k - this) div 64 = k" by simp
  then show ?thesis
    by (simp add: flush_meta_line_def Let_def meta_line_def flush_avail_def flush_heap_def flush_root_def)
qed

lemma meta_line_wb [simp]: "meta_line this (s\<lparr>wb := w\<rparr>) = meta_line this s"
  by (simp add: meta_line_def fun_eq_iff)

lemma writeback_loop_eq:
  assumes "j + n < 2 ^ 58"
  shows "writeback_loop n this (this + 64 * of_nat j) s
    = s\<lparr>wb := rev (concat (map (\<lambda>k. rev (meta_line this s k)) [Suc j..<Suc (j + n)])) @ wb s\<rparr>"
  using assms
proof (induction n arbitrary: j s)
  case (Suc n)
  have a: "this + 64 * of_nat j + CACHELINE_SIZE = this + 64 * of_nat (Suc j)" by (simp add: algebra_simps)
  have "writeback_loop (Suc n) this (this + 64 * of_nat j) s
      = writeback_loop n this (this + 64 * of_nat (Suc j)) (s\<lparr>wb := meta_line this s (Suc j) @ wb s\<rparr>)"
    using Suc.prems by (simp only: writeback_loop.simps a flush_meta_line_eq [of "Suc j"])
  also have "\<dots> = s\<lparr>wb := rev (concat (map (\<lambda>k. rev (meta_line this s k)) [Suc (Suc j)..<Suc (Suc j + n)]))
      @ meta_line this s (Suc j) @ wb s\<rparr>"
    using Suc.IH [of "Suc j" "s\<lparr>wb := meta_line this s (Suc j) @ wb s\<rparr>"] Suc.prems by simp
  also have "\<dots> = s\<lparr>wb := rev (concat (map (\<lambda>k. rev (meta_line this s k)) (Suc j # [Suc (Suc j)..<Suc (Suc j + n)]))) @ wb s\<rparr>"
    by simp
  also have "Suc j # [Suc (Suc j)..<Suc (Suc j + n)] = [Suc j..<Suc (j + Suc n)]" by (simp add: upt_conv_Cons del: upt_Suc)
  finally show ?case .
qed simp

lemma pm_heaps_lines:
  assumes "\<And>h v. WHeap h v \<in> set ls \<Longrightarrow> v = f h"
  shows "pm_heaps (foldr write_line ls p) h = (if \<exists>v. WHeap h v \<in> set ls then f h else pm_heaps p h)"
  using assms
proof (induction ls)
  case (Cons l ls)
  have "pm_heaps (foldr write_line ls p) h = (if \<exists>v. WHeap h v \<in> set ls then f h else pm_heaps p h)"
    by (rule Cons.IH) (use Cons.prems in simp)
  then show ?case using Cons.prems by (cases l) auto
qed simp

lemma pm_roots_lines:
  assumes "\<And>k v. WRoots k v \<in> set ls \<Longrightarrow> v = f"
  shows "pm_roots (foldr write_line ls p) i = (if \<exists>v. WRoots (i div 8) v \<in> set ls then f i else pm_roots p i)"
  using assms
proof (induction ls)
  case (Cons l ls)
  have "pm_roots (foldr write_line ls p) i = (if \<exists>v. WRoots (i div 8) v \<in> set ls then f i else pm_roots p i)"
    by (rule Cons.IH) (use Cons.prems in auto)
  then show ?case using Cons.prems by (cases l) auto
qed simp

lemma pm_avail_lines: "(\<And>v. WAvail v \<notin> set ls) \<Longrightarrow> pm_avail (foldr write_line ls p) = pm_avail p"
proof (induction ls)
  case (Cons l ls)
  then show ?case by (cases l) auto
qed simp

lemma writeback_effect:
  assumes "wb s = []"
  shows "wb (writeback this s) = []"
    and "i < 40 \<Longrightarrow> pm_heaps (pm (writeback this s)) (heap_addr this i) = heaps s (heap_addr this i)"
    and "j < 1024 \<Longrightarrow> pm_roots (pm (writeback this s)) j = roots s j"
    and "pm_avail (pm (writeback this s)) = pm_avail (pm s)"
    and "dirty_mtx (writeback this s) = mutex_unlock (dirty_mtx s)"
proof -
  let ?ls = "rev (concat (map (\<lambda>k. rev (meta_line this s k)) [1..<170]))"
  have e: "writeback this s = set_clean (FLUSHFENCE (s\<lparr>wb := ?ls\<rparr>))"
    using writeback_loop_eq [of 0 169 this s] assms
    by (simp add: writeback_def sizeof_BaseMeta_def del: upt_Suc upt_rec_numeral)
  have mem_ls: "l \<in> set ?ls \<longleftrightarrow> (\<exists>k. 1 \<le> k \<and> k < 170 \<and> l \<in> set (meta_line this s k))" for l by (auto simp del: upt_rec_numeral)
  have pm: "pm (writeback this s) = foldr write_line ?ls (pm s)" unfolding e by (simp add: set_clean_def FLUSHFENCE_def)
  show "wb (writeback this s) = []" "dirty_mtx (writeback this s) = mutex_unlock (dirty_mtx s)"
    unfolding e by (simp_all add: set_clean_def FLUSHFENCE_def)
  have h: "v = heaps s a" if "WHeap a v \<in> set ?ls" for a v
    using that unfolding mem_ls by (auto simp: meta_line_def split: if_splits)
  have r: "v = roots s" if "WRoots k v \<in> set ?ls" for k v
    using that unfolding mem_ls by (auto simp: meta_line_def split: if_splits)
  have av: "WAvail v \<notin> set ?ls" for v unfolding mem_ls by (auto simp: meta_line_def split: if_splits)
  show "pm_avail (pm (writeback this s)) = pm_avail (pm s)" unfolding pm by (rule pm_avail_lines [OF av])
  show "pm_heaps (pm (writeback this s)) (heap_addr this i) = heaps s (heap_addr this i)" if "i < 40"
  proof -
    have "WHeap (heap_addr this i) (heaps s (heap_addr this i)) \<in> set ?ls"
      unfolding mem_ls using that by (intro exI [of _ "Suc i"]) (simp add: meta_line_def)
    then have "\<exists>v. WHeap (heap_addr this i) v \<in> set ?ls" by blast
    then show ?thesis unfolding pm using pm_heaps_lines [OF h, where p = "pm s" and h = "heap_addr this i"] by (simp only: if_True)
  qed
  show "pm_roots (pm (writeback this s)) j = roots s j" if "j < 1024"
  proof -
    have "WRoots (j div 8) (roots s) \<in> set ?ls"
      unfolding mem_ls using that by (intro exI [of _ "j div 8 + 41"]) (auto simp: meta_line_def)
    then have "\<exists>v. WRoots (j div 8) v \<in> set ?ls" by blast
    then show ?thesis unfolding pm using pm_roots_lines [OF r, where p = "pm s" and i = j] by (simp only: if_True)
  qed
qed

text \<open>
  C20. At shutdown all partial lists and all roots become durable and the dirty flag is
  cleared. The first cache line of the metadata, with the head of the list of unused
  superblocks, is not written back: the loop advances the address before it flushes, so it
  starts at the second line and ends with one behind the structure.
\<close>

theorem writeback_durable:
  assumes "wb s = []"
  shows "wb (writeback this s) = []
    \<and> (\<forall>i. i < 40 \<longrightarrow> pm_heaps (pm (writeback this s)) (heap_addr this i) = heaps s (heap_addr this i))
    \<and> (\<forall>j. j < 1024 \<longrightarrow> pm_roots (pm (writeback this s)) j = roots s j)
    \<and> pm_avail (pm (writeback this s)) = pm_avail (pm s)
    \<and> dirty_mtx (writeback this s) = mutex_unlock (dirty_mtx s)"
  using writeback_effect [OF assms] by simp

theorem writeback_durable_witness:
  "pm_roots (pm (writeback sample_meta (sample_state\<lparr>roots := (\<lambda>i. of_nat i), avail_sb := 128\<rparr>))) 5 = 5
    \<and> pm_avail (pm (writeback sample_meta (sample_state\<lparr>roots := (\<lambda>i. of_nat i), avail_sb := 128\<rparr>))) = 0"
  using writeback_durable [of "sample_state\<lparr>roots := (\<lambda>i. of_nat i), avail_sb := 128\<rparr>" sample_meta]
  by (simp add: sample_state_def)

subsection \<open>Marked addresses the sweep cannot place\<close>

lemma sweep_loop_stuck:
  assumes "layout_ok s0" and "1 \<le> k" and "k \<le> sb_num s0" and "rgs s = rgs s0" and "sb_num s0 - k < fuel"
    and a: "unat a < unat (sb_at s0 1)"
  shows "\<exists>av' s'. sweep_loop fuel (sb_at s0 (sb_num s0)) (a # ms, sb_at s0 k, d, av, s) = Inr (a # ms, av', s')"
  using assms(2-5)
proof (induction fuel arbitrary: k d av s)
  case (Suc fuel)
  note lay = assms(1) and cap = sb_num_le_cap [OF assms(1)]
  have less: "sb_at s0 k < sb_at s0 (sb_num s0) \<longleftrightarrow> k < sb_num s0"
    using unat_sb_at [OF lay, of k] unat_sb_at [OF lay cap] Suc.prems(2) cap by (simp add: word_less_nat_alt)
  show ?case
  proof (cases "k < sb_num s0")
    case True
    let ?b = "unat (lookup (rgs s0) SB_IDX)"
    have kc: "k < sb_cap s0" "1 \<le> sb_cap s0" using True cap Suc.prems(1) by simp_all
    have "unat a < ?b + 65536" using a unat_sb_at [OF lay, of 1] kc by simp
    then have "unat a div 65536 < ?b div 65536 + 1"
      using layout_okD(2) [OF lay] by (metis Suc_eq_plus1 add.commute div_less_iff_less_mult
          div_mult_self2 mult.commute mult_Suc_right mod_0_imp_dvd dvd_mult_div_cancel zero_less_numeral)
    then have "unat a div 65536 \<noteq> ?b div 65536 + k" using Suc.prems(1) by simp
    moreover have "unat (drop_bit 16 a) = unat a div 65536"
      by (subst unat_drop_bit_eq) (simp add: drop_bit_eq_div)
    moreover have "unat (drop_bit 16 (sb_at s0 k)) = ?b div 65536 + k"
    proof -
      have "unat (drop_bit 16 (sb_at s0 k)) = (?b + 65536 * k + 0) div 65536"
        using unat_sb_at [OF lay, of k] kc by (subst unat_drop_bit_eq) (simp add: drop_bit_eq_div)
      also have "\<dots> = ?b div 65536 + k" using layout_okD(2) [OF lay] by (intro div_shift) simp_all
      finally show ?thesis .
    qed
    ultimately have ne: "drop_bit 16 (sb_at s0 k) \<noteq> drop_bit 16 a" by metis
    let ?s' = "store_next_free d av (construct_desc d s)"
    have it: "sweep_iter (sb_at s0 k) d (a # ms) av s = Inr (a # ms, sb_at s0 (Suc k), d + 64, d, ?s')"
      using ne sb_at_next [of s0 k] by (simp add: sweep_iter_def sweep_empty_def)
    have "\<exists>av' s'. sweep_loop fuel (sb_at s0 (sb_num s0)) (a # ms, sb_at s0 (Suc k), d + 64, d, ?s') = Inr (a # ms, av', s')"
      by (rule Suc.IH) (use True Suc.prems in simp_all)
    then show ?thesis using True less it by simp
  next
    case False
    then show ?thesis using less by simp
  qed
qed simp

text \<open>
  C21. A marked address below the first superblock in use stops the collector: the sweep
  starts with superblock 1 and goes on only from the smallest marked address, so it treats
  every superblock as unused and then fails the assertion that all marked addresses have
  been seen. The range test of \<^verbatim>\<open>mark_func\<close> admits such addresses.
\<close>

theorem gc_sweep_stuck:
  assumes "layout_ok s" and "1 \<le> sb_num s" and "in_range (rgs s) SB_IDX a" and "a \<in> M" and "a < sb_at s 1"
  shows "gc_sweep M s = Inl (AssertFail ''curr_marked_blk == marked_blk.end()'')"
proof -
  note lay = assms(1)
  obtain b ms where ms: "sorted_list_of_set M = b # ms"
    using assms(4) by (cases "sorted_list_of_set M") (auto simp: sorted_list_of_set_eq_Nil_iff)
  have "a \<in> set (b # ms)" using assms(4) ms [symmetric] by simp
  moreover have "sorted (b # ms)" unfolding ms [symmetric] by simp
  ultimately have "b \<le> a" by auto
  then have b: "unat b < unat (sb_at s 1)" using assms(5) by (simp add: word_le_nat_alt word_less_nat_alt)
  have first: "translate (rgs s) SB_IDX SBSIZE = sb_at s 1" by (simp add: translate_def lookup_def sb_at_def)
  have fuel: "sb_num s - 1 < SWEEP_FUEL" using layout_okD(12) [OF lay] sb_num_le_cap [OF lay] by (simp add: SWEEP_FUEL_def)
  obtain av' s' where "sweep_loop SWEEP_FUEL (sb_at s (sb_num s)) (b # ms, sb_at s 1, desc_lookup s (sb_at s 1), 0, s) = Inr (b # ms, av', s')"
    using sweep_loop_stuck [OF lay order_refl assms(2) refl fuel b] by blast
  then show ?thesis using first by (simp add: gc_sweep_def ms curr_addr_num(1) [OF lay] Let_def check_def)
qed

theorem gc_sweep_stuck_witness:
  "gc_sweep {lookup (rgs sample_heap) SB_IDX + 16} sample_heap = Inl (AssertFail ''curr_marked_blk == marked_blk.end()'')"
proof -
  have rep: "rep a_init sample_heap" using sample_heap_rep(1) by (simp add: heap_rep_def)
  note lay = repD(1) [OF rep]
  let ?b = "lookup (rgs sample_heap) SB_IDX"
  have n: "sb_num sample_heap = 16384" using repD(2) [OF rep] by (simp add: a_init_simps)
  have u: "unat (sb_at sample_heap k) = unat ?b + 65536 * k" if "k \<le> 16384" for k
    using unat_sb_at [OF lay, of k] that sample_heap_rep(3) by simp
  have "unat ?b < 140737488355328" using sb_cap_bound(2) [OF lay] by simp
  then have "unat (?b + of_nat 16) = unat ?b + 16" by (intro unat_offset) simp
  then have b: "unat (?b + 16) = unat ?b + 16" by simp
  have "?b + 16 < sb_at sample_heap 1" using b u [of 1] by (simp add: word_less_nat_alt)
  moreover have "in_range (rgs sample_heap) SB_IDX (?b + 16)"
    using b u [of 16384] curr_addr_num(2) [OF lay] n
    by (simp add: in_range_def word_le_nat_alt word_less_nat_alt sb_region_def lookup_def)
  ultimately show ?thesis using gc_sweep_stuck [OF lay, of "?b + 16"] n by simp
qed

end
