(* ===== verification/Api.thy ===== *)
theory Api
  imports Shutdown
begin

text \<open>
  The public interface of \<^verbatim>\<open>src/src/ralloc.cpp\<close> and \<^verbatim>\<open>ralloc.hpp\<close>. The global variables of the
  library are the fields of \<open>process\<close>: the flag \<^verbatim>\<open>initialized\<close>, the static local \<^verbatim>\<open>_holder\<close> of
  \<^verbatim>\<open>RP_init\<close> (\<open>None\<close> before the first call), and the heap behind \<^verbatim>\<open>_rgs\<close> and \<^verbatim>\<open>base_md\<close>. \<open>files\<close>
  are the headers of the heap files that exist and that no process has mapped; what else the
  files hold is at its place in the heap once they are mapped. The results of the system calls
  for each region are an argument \<open>os\<close>, and so is the content \<open>t\<close> of an uninitialised local of
  the region manager.
\<close>

subsection \<open>Opening and closing a heap\<close>

record process =
  initialized :: bool
  init_ret_val :: "int option"
  heap :: ralloc_state
  files :: "string \<rightharpoonup> region_hdr"

definition HEAPFILE_PREFIX :: string where
  "HEAPFILE_PREFIX = ''/mnt/pmem/''"

definition sizeof_Descriptor :: u64 where
  "sizeof_Descriptor = 64"

definition new_Regions :: Regions where
  "new_Regions =
     \<lparr>regions = (\<lambda>_. \<lparr>FILESIZE = 0, HEAPFILE = [], base_addr = 0, hdr = \<lparr>h_curr = 0, h_start = 0, h_size = 0\<rparr>,
                       phdr = \<lparr>h_curr = 0, h_start = 0, h_size = 0\<rparr>, persist = False\<rparr>),
      regions_address = (\<lambda>_. 0), cur_idx = 0\<rparr>"

text \<open>
  The region managers write a NUL byte at the end of every file before they map it. The last
  byte of the superblock file is in the heap's memory; those of the other two files lie behind
  the descriptors and behind \<^verbatim>\<open>BaseMeta\<close> (lemma \<open>last_bytes_behind\<close>), where there is nothing.
\<close>

definition write_last_byte :: "Regions \<Rightarrow> memory \<Rightarrow> memory" where
  "write_last_byte r m = m(last_byte (regions r (ridx SB_IDX)) := 0)"

text \<open>\<^verbatim>\<open>_RP_init\<close>; the loop over the three region indices is written out.\<close>

definition do_RP_init ::
    "(RegionIndex \<Rightarrow> os_result) \<Rightarrow> addr \<Rightarrow> string \<Rightarrow> u64 \<Rightarrow> process \<Rightarrow> (int \<times> process) res" where
  "do_RP_init os t name sz p =
     (let filepath = HEAPFILE_PREFIX @ name in
      check (sizeof_Descriptor = DESCSIZE) ''sizeof(Descriptor) == DESCSIZE''
      (check (sz < MAX_SB_REGION_SIZE \<and> sz \<ge> MIN_SB_REGION_SIZE)
         ''size < MAX_SB_REGION_SIZE && size >= MIN_SB_REGION_SIZE''
      (let num_sb = sz div SBSIZE;
           restart = (files p (filepath @ ''_basemd'') \<noteq> None)
       in rbind (regions_create (os DESC_IDX) (files p (filepath @ ''_desc'')) t (filepath @ ''_desc'')
                   (num_sb * DESCSIZE) True True new_Regions) (\<lambda>r1.
          rbind (regions_create (os SB_IDX) (files p (filepath @ ''_sb'')) t (filepath @ ''_sb'')
                   (num_sb * SBSIZE) True False r1) (\<lambda>r2.
          rbind (create_for_BaseMeta (os META_IDX) (files p (filepath @ ''_basemd'')) t (filepath @ ''_basemd'')
                   (of_nat sizeof_BaseMeta) True ((heap p)\<lparr>rgs := r2, mem := write_last_byte r2 (mem (heap p))\<rparr>)) (\<lambda>(base_md, s).
          Inr (if restart then 1 else 0, p\<lparr>initialized := True, heap := s\<rparr>)))))))"

definition RP_init ::
    "(RegionIndex \<Rightarrow> os_result) \<Rightarrow> addr \<Rightarrow> string \<Rightarrow> u64 \<Rightarrow> process \<Rightarrow> (int \<times> process) res" where
  "RP_init os t name sz p =
     (case init_ret_val p of
        Some r \<Rightarrow> Inr (r, p)
      | None \<Rightarrow> rbind (do_RP_init os t name sz p) (\<lambda>(r, p'). Inr (r, p'\<lparr>init_ret_val := Some r\<rparr>)))"

text \<open>The destructor of \<^verbatim>\<open>RallocHolder\<close>, which runs when the process exits.\<close>

definition delete_RallocHolder :: "process \<Rightarrow> process res" where
  "delete_RallocHolder p =
     (let s = heap p in
      case flush_region FLUSH_FUEL (rgs s) DESC_IDX of
        None \<Rightarrow> Inl OutOfFuel
      | Some ds \<Rightarrow>
          let s1 = FLUSHFENCE (fold flush_desc ds s) in
          case flush_region FLUSH_FUEL (rgs s) SB_IDX of
            None \<Rightarrow> Inl OutOfFuel
          | Some _ \<Rightarrow>
              let s2 = writeback (base_md s1) (FLUSHFENCE s1);
                  (hs, r) = regions_destroy (rgs s2)
              in Inr (p\<lparr>initialized := False, heap := s2\<lparr>rgs := r\<rparr>,
                        files := fold (\<lambda>i f. f(HEAPFILE (regions (rgs s2) i) := hs i)) [0..<cur_idx (rgs s2)] (files p)\<rparr>))"

definition RP_recover :: "filters \<Rightarrow> process \<Rightarrow> (int \<times> process) res" where
  "RP_recover ff p = rbind (restart ff (heap p)) (\<lambda>(r, s). Inr (if r then 1 else 0, p\<lparr>heap := s\<rparr>))"

definition RP_close :: "process \<Rightarrow> process" where
  "RP_close p = p"

subsection \<open>Blocks\<close>

definition RP_malloc :: "nat \<Rightarrow> u64 \<Rightarrow> process \<Rightarrow> (addr \<times> process) res" where
  "RP_malloc t sz p =
     check (initialized p) ''RPMalloc isn't initialized!''
       (rbind (do_malloc t sz (heap p)) (\<lambda>(q, s). Inr (q, p\<lparr>heap := s\<rparr>)))"

definition RP_free :: "nat \<Rightarrow> addr \<Rightarrow> process \<Rightarrow> process res" where
  "RP_free t ptr p =
     check (initialized p) ''RPMalloc isn't initialized!''
       (rbind (do_free t ptr (heap p)) (\<lambda>s. Inr (p\<lparr>heap := s\<rparr>)))"

definition RP_malloc_size :: "addr \<Rightarrow> process \<Rightarrow> u64" where
  "RP_malloc_size ptr p = (let desc = desc_lookup (heap p) ptr in ucast (d_block_size (descs (heap p) desc)))"

text \<open>
  The functions of the C library, on the blocks of the heap. Both run through the mapping of the
  superblock file: a range that leaves it is an access to memory the region does not own. The
  ranges of \<^verbatim>\<open>memcpy\<close> must not overlap.
\<close>

definition sb_mapped :: "ralloc_state \<Rightarrow> addr \<Rightarrow> u64 \<Rightarrow> bool" where
  "sb_mapped s a n \<longleftrightarrow> unat (base_addr (sb_region s)) \<le> unat a
     \<and> unat a + unat n \<le> unat (base_addr (sb_region s)) + unat (FILESIZE (sb_region s))"

definition apart :: "addr \<Rightarrow> addr \<Rightarrow> u64 \<Rightarrow> bool" where
  "apart a b n \<longleftrightarrow> unat a + unat n \<le> unat b \<or> unat b + unat n \<le> unat a"

definition copied :: "addr \<Rightarrow> addr \<Rightarrow> u64 \<Rightarrow> memory \<Rightarrow> memory" where
  "copied dest src n m = (\<lambda>a. if a - dest < n then m (src + (a - dest)) else m a)"

definition memcpy :: "addr \<Rightarrow> addr \<Rightarrow> u64 \<Rightarrow> ralloc_state \<Rightarrow> ralloc_state res" where
  "memcpy dest src n s =
     (if \<not> sb_mapped s dest n \<or> \<not> sb_mapped s src n then Inl Segfault
      else if \<not> apart dest src n then Inl (Undefined ''memcpy'')
      else Inr (s\<lparr>mem := copied dest src n (mem s)\<rparr>))"

definition memset :: "addr \<Rightarrow> byte \<Rightarrow> u64 \<Rightarrow> ralloc_state \<Rightarrow> ralloc_state res" where
  "memset dest c n s =
     (if sb_mapped s dest n then Inr (s\<lparr>mem := \<lambda>a. if a - dest < n then c else mem s a\<rparr>) else Inl Segfault)"

text \<open>The flush of the first line of a block concerns the program's data only.\<close>

definition RP_realloc :: "nat \<Rightarrow> addr \<Rightarrow> u64 \<Rightarrow> process \<Rightarrow> (addr \<times> process) res" where
  "RP_realloc t ptr new_size p =
     (if ptr = 0 then RP_malloc t new_size p
      else if \<not> in_range (rgs (heap p)) SB_IDX ptr then Inr (0, p)
      else
        let old_size = RP_malloc_size ptr p in
        if old_size = new_size then Inr (ptr, p)
        else rbind (RP_malloc t new_size p) (\<lambda>(new_ptr, p1).
          if new_ptr = 0 then Inr (0, p1)
          else
            rbind (memcpy new_ptr ptr old_size (heap p1)) (\<lambda>s1.
            rbind (RP_free t ptr (p1\<lparr>heap := FLUSHFENCE s1\<rparr>)) (\<lambda>p3. Inr (new_ptr, p3)))))"

definition RP_calloc :: "nat \<Rightarrow> u64 \<Rightarrow> u64 \<Rightarrow> process \<Rightarrow> (addr \<times> process) res" where
  "RP_calloc t num sz p =
     rbind (RP_malloc t (num * sz) p) (\<lambda>(ptr, p1).
       if ptr = 0 then Inr (0, p1)
       else
         let real_size = RP_malloc_size ptr p1 in
         rbind (memset ptr 0 real_size (heap p1)) (\<lambda>s1. Inr (ptr, p1\<lparr>heap := FLUSHFENCE s1\<rparr>)))"

subsection \<open>Roots and ranges\<close>

definition RP_set_root ::
    "(RegionIndex \<Rightarrow> os_result) \<Rightarrow> addr \<Rightarrow> addr \<Rightarrow> u64 \<Rightarrow> process \<Rightarrow> (addr \<times> process) res" where
  "RP_set_root os t ptr i p =
     rbind (if \<not> initialized p
            then rbind (RP_init os t ''no_explicit_init'' (5 * 1024 * 1024 * 1024) p) (\<lambda>(_, p1). Inr p1)
            else Inr p)
       (\<lambda>p1. rbind (set_root ptr i (heap p1)) (\<lambda>(r, s). Inr (r, p1\<lparr>heap := s\<rparr>)))"

definition RP_get_root :: "nat \<Rightarrow> u64 \<Rightarrow> process \<Rightarrow> (addr \<times> process) res" where
  "RP_get_root T i p =
     check (initialized p) ''ralloc::initialized''
       (rbind (get_root T i (heap p)) (\<lambda>(r, s). Inr (r, p\<lparr>heap := s\<rparr>)))"

text \<open>The tag of \<^verbatim>\<open>char\<close> is 0.\<close>

definition RP_get_root_c :: "u64 \<Rightarrow> process \<Rightarrow> (addr \<times> process) res" where
  "RP_get_root_c i p =
     check (initialized p) ''initialized''
       (rbind (get_root 0 i (heap p)) (\<lambda>(r, s). Inr (r, p\<lparr>heap := s\<rparr>)))"

definition RP_in_prange :: "addr \<Rightarrow> process \<Rightarrow> int" where
  "RP_in_prange ptr p = (if in_range (rgs (heap p)) SB_IDX ptr then 1 else 0)"

text \<open>
  \<open>start_given\<close> and \<open>end_given\<close> say that the two result pointers are not null; a negative
  index is not a query the interface defines.
\<close>

definition RP_region_range :: "nat \<Rightarrow> bool \<Rightarrow> bool \<Rightarrow> process \<Rightarrow> int \<times> (addr \<times> addr) option" where
  "RP_region_range idx start_given end_given p =
     (let r = rgs (heap p) in
      if \<not> start_given \<or> \<not> end_given \<or> idx \<ge> cur_idx r then (1, None)
      else (0, Some (regions_address r idx, regions_address r idx + FILESIZE (regions r idx))))"

end
