(* ===== verification/ApiSpec.thy ===== *)
theory ApiSpec
  imports Api
begin

text \<open>
  What \<^verbatim>\<open>RP_calloc\<close> and \<^verbatim>\<open>RP_realloc\<close> promise beyond the operations of \<^verbatim>\<open>BaseMeta\<close> they call, and what
  the copy of \<^verbatim>\<open>RP_realloc\<close> does when the new block is the smaller one.
\<close>

subsection \<open>Block sizes and copies\<close>

lemma live_malloc_size:
  assumes hr: "heap_rep g s" and "(p, n) \<in> live g s"
  shows "unat (d_block_size (descs s (desc_lookup s p))) = n"
proof -
  have inv: "ainv g" and rep: "rep g s" using hr by (simp_all add: heap_rep_def)
  note lay = repD(1) [OF rep]
  obtain k i where b: "(k, i) \<in> alive g" "p = block_addr_of g s (k, i)" "n = block_size_of g k"
    using assms(2) by (auto simp: live_def)
  have kv: "sb_valid g k" using b(1) by (simp add: alive_iff)
  consider (small) c where "a_kind g k = Small c" "i < bnum c" | (large) m where "a_kind g k = Large m" "i = 0"
    using b(1) by (auto simp: alive_iff)
  then show ?thesis
  proof cases
    case small
    note sd = small_desc [OF rep inv kv small(1)]
    have "p = block_at s c k i" using b small by (simp add: block_addr_of_def block_size_of_def block_at_def)
    then have "desc_lookup s p = desc_at s k" using block_at_props(2) [OF lay sd(3,1,2) small(2)] by simp
    then show ?thesis using sd(7) b(3) small(1) by (simp add: block_size_of_def)
  next
    case large
    have "p = sb_at s k" using b large by (simp add: block_addr_of_def)
    then have "desc_lookup s p = desc_at s k" using desc_lookup_sb [OF lay] sb_valid_cap(1) [OF rep kv] by simp
    moreover have "desc_static s k 0 (65536 * m) 1 (descs s (desc_at s k))"
      using repD(7) [OF rep kv] large(1) by (simp add: desc_rep_def)
    ultimately show ?thesis using b(3) large(1) by (simp add: block_size_of_def desc_static_def)
  qed
qed

lemma RP_malloc_size_live:
  assumes "heap_rep g (heap w)" and "(p, n) \<in> live g (heap w)"
  shows "unat (RP_malloc_size p w) = n" and "n < 2 ^ 32"
proof -
  have "unat (d_block_size (descs (heap w) (desc_lookup (heap w) p))) = n" by (rule live_malloc_size [OF assms])
  then show "unat (RP_malloc_size p w) = n" "n < 2 ^ 32"
    using unat_lt32 [of "d_block_size (descs (heap w) (desc_lookup (heap w) p))"]
    by (simp_all add: RP_malloc_size_def Let_def unsigned_ucast_eq take_bit_nat_eq_self)
qed

lemma fence_idle: "wb s = [] \<Longrightarrow> FLUSHFENCE s = s"
  by (simp add: FLUSHFENCE_def)

lemma offset_less_iff:
  assumes "unat (p :: addr) + unat n < 2 ^ 64"
  shows "a - p < n \<longleftrightarrow> unat p \<le> unat a \<and> unat a < unat p + unat n"
proof
  assume l: "a - p < n"
  then have "unat p + unat (a - p) < 2 ^ 64" using assms by (simp add: word_less_nat_alt)
  then have "unat (p + (a - p)) = unat p + unat (a - p)" by (rule unat_plus64)
  then show "unat p \<le> unat a \<and> unat a < unat p + unat n" using l by (simp add: word_less_nat_alt)
next
  assume "unat p \<le> unat a \<and> unat a < unat p + unat n"
  then show "a - p < n" using less_diff_conv2 [of "unat p" "unat a" "unat n"]
    by (simp add: word_less_nat_alt unat_sub word_le_nat_alt add.commute)
qed

lemma bytes_pos: "heap_rep g s \<Longrightarrow> (p, n) \<in> live g s \<Longrightarrow> p \<in> bytes (p, n)"
  using live_props(1) [of g s p n] by (auto simp: bytes_def intro: exI [of _ 0])

lemma live_byteI: "(p, n) \<in> live g s \<Longrightarrow> j < n \<Longrightarrow> p + of_nat j \<in> live_bytes g s"
  by (force simp: live_bytes_def bytes_def)

text \<open>The bytes of a live block, as the range the C functions work on.\<close>

lemma live_range:
  assumes "heap_rep g s" and "(p, unat n) \<in> live g s"
  shows "a - p < n \<longleftrightarrow> a \<in> bytes (p, unat n)"
  using live_props(3,6) [OF assms] by (subst offset_less_iff) auto


lemma RP_malloc_result:
  assumes "initialized w" and "heap_rep g (heap w)" and "unat sz \<le> 65535 * 65536" and "can_malloc g (heap w) t sz"
  shows "\<exists>q g' s'. RP_malloc t sz w = Inr (q, w\<lparr>heap := s'\<rparr>) \<and> malloc_post g (heap w) (block_size_for sz) q g' s'"
proof -
  obtain q g' s' where "do_malloc t sz (heap w) = Inr (q, s')" "malloc_post g (heap w) (block_size_for sz) q g' s'"
    using malloc_result [OF assms(2-4)] by blast
  then show ?thesis using assms(1) by (intro exI [of _ q] exI [of _ g'] exI [of _ s']) (simp add: RP_malloc_def)
qed

lemma RP_free_result:
  assumes "initialized w" and "heap_rep g (heap w)" and "(p, n) \<in> live g (heap w)"
  shows "\<exists>g' s'. RP_free t p w = Inr (w\<lparr>heap := s'\<rparr>) \<and> free_post g (heap w) n p g' s'"
proof -
  obtain g' s' where "do_free t p (heap w) = Inr s'" "free_post g (heap w) n p g' s'"
    using free_result [OF assms(2,3), of t] by blast
  then show ?thesis using assms(1) by (intro exI [of _ g'] exI [of _ s']) (simp add: RP_free_def)
qed

text \<open>Writing into a block that has just been allocated.\<close>

lemma fill_block:
  assumes hr: "heap_rep g s" and q: "(q, n) \<in> live g s" and m: "\<And>a. a \<notin> bytes (q, n) \<Longrightarrow> m a = mem s a"
  shows "FLUSHFENCE (s\<lparr>mem := m\<rparr>) = s\<lparr>mem := m\<rparr>" and "heap_rep g (s\<lparr>mem := m\<rparr>)" and "live g (s\<lparr>mem := m\<rparr>) = live g s"
    and "live_bytes g (s\<lparr>mem := m\<rparr>) = live_bytes g s"
proof -
  show "heap_rep g (s\<lparr>mem := m\<rparr>)" using q m by (intro user_write [OF hr]) (auto simp: live_bytes_def)
  then show "FLUSHFENCE (s\<lparr>mem := m\<rparr>) = s\<lparr>mem := m\<rparr>" by (intro fence_idle heap_rep_wb)
qed (rule live_cong; simp)+

lemma live_sb_mapped:
  assumes "heap_rep g s" and "(p, n) \<in> live g s" and "unat k \<le> n"
  shows "sb_mapped s p k"
proof -
  have "layout_ok s" using assms(1) by (simp add: heap_rep_def rep_def)
  note L = layout_okD [OF this] and b = live_below [OF assms(1,2)]
  show ?thesis using L(3) b assms(3) region_okD(6) [OF L(1)] by (simp add: sb_mapped_def)
qed

lemma live_apart:
  assumes hr: "heap_rep g s" and p: "(p, n) \<in> live g s" and q: "(q, n') \<in> live g s" and "bytes (p, n) \<inter> bytes (q, n') = {}"
    and k: "unat k \<le> n" "unat k \<le> n'"
  shows "apart q p k"
proof -
  note P = live_props(1,6) [OF hr p] and Q = live_props(1,6) [OF hr q]
  have "\<not> (unat q \<le> unat p \<and> unat p < unat q + n')" "\<not> (unat p \<le> unat q \<and> unat q < unat p + n)"
    using assms(4) P Q by (auto simp: disjoint_iff)
  then show ?thesis using k by (auto simp: apart_def)
qed

subsection \<open>Cleared blocks\<close>

text \<open>
  C17. \<^verbatim>\<open>RP_calloc\<close>, when the product of its arguments as a machine word is at most
  \<open>2 ^ 32 - 2 ^ 16\<close> bytes and has a source, returns a new block of which every byte is zero, large
  enough for that word, and changes no byte of another live block. The product is not checked:
  \<open>2 ^ 32\<close> elements of \<open>2 ^ 32\<close> bytes give the block for a request of 0 bytes. The bound is
  needed: the size of a larger block is truncated to the 32 bits of \<^verbatim>\<open>block_size\<close>, and only so
  many bytes would be cleared.
\<close>

theorem RP_calloc_correct:
  assumes "initialized w" and "heap_rep g (heap w)" and "unat (num * sz) \<le> 65535 * 65536" and "can_malloc g (heap w) t (num * sz)"
  shows "\<exists>q n g' w'. RP_calloc t num sz w = Inr (q, w') \<and> heap_rep g' (heap w')
    \<and> live g' (heap w') = insert (q, n) (live g (heap w)) \<and> bytes (q, n) \<inter> live_bytes g (heap w) = {}
    \<and> n = block_size_for (num * sz) \<and> unat (num * sz) \<le> n \<and> (\<forall>a \<in> bytes (q, n). mem (heap w') a = 0)
    \<and> (\<forall>a \<in> live_bytes g (heap w). mem (heap w') a = mem (heap w) a) \<and> roots (heap w') = roots (heap w)"
proof -
  let ?n = "block_size_for (num * sz)"
  obtain q g' s' where q: "RP_malloc t (num * sz) w = Inr (q, w\<lparr>heap := s'\<rparr>)" "malloc_post g (heap w) ?n q g' s'"
    using RP_malloc_result [OF assms] by blast
  have hr: "heap_rep g' s'" and lv: "(q, ?n) \<in> live g' s'" using q(2) by (simp_all add: malloc_post_def)
  let ?r = "RP_malloc_size q (w\<lparr>heap := s'\<rparr>)"
  have r: "unat ?r = ?n" using RP_malloc_size_live(1) [of g' "w\<lparr>heap := s'\<rparr>"] hr lv by simp
  define m where "m = (\<lambda>a. if a - q < ?r then 0 else mem s' a)"
  have m: "m a = (if a \<in> bytes (q, ?n) then 0 else mem s' a)" for a
    using live_range [of g' s' q ?r a] hr lv by (simp add: m_def r)
  note f = fill_block [OF hr lv, of m]
  have "memset q 0 ?r s' = Inr (s'\<lparr>mem := m\<rparr>)" using live_sb_mapped [OF hr lv, of ?r] by (simp add: memset_def m_def r)
  then have "RP_calloc t num sz w = Inr (q, w\<lparr>heap := s'\<lparr>mem := m\<rparr>\<rparr>)"
    using f(1) live_props(4) [OF hr lv] m by (simp add: RP_calloc_def q(1) Let_def)
  then show ?thesis
    using f(2,3) q(2) m block_size_for_le [of "num * sz"]
    by (intro exI [of _ q] exI [of _ ?n] exI [of _ g'] exI [of _ "w\<lparr>heap := s'\<lparr>mem := m\<rparr>\<rparr>"])
      (auto simp: malloc_post_def)
qed

text \<open>A process with one large block, and room for more.\<close>

definition process_of :: "ralloc_state \<Rightarrow> process" where
  "process_of s = \<lparr>initialized = True, init_ret_val = Some 0, heap = s, files = Map.empty\<rparr>"

lemma process_of_simps [simp]: "initialized (process_of s)" "heap (process_of s) = s"
  by (simp_all add: process_of_def)

lemma sample_large:
  "\<exists>s. do_malloc 0 100000 sample_heap = Inr (sb_at sample_heap 16384, s) \<and> heap_rep (a_large_alloc 2 a_init) s
    \<and> live (a_large_alloc 2 a_init) s = {(sb_at sample_heap 16384, 131072)} \<and> same_geom sample_heap s
    \<and> can_malloc (a_large_alloc 2 a_init) s 0 200000"
proof -
  obtain s where "do_malloc 0 100000 sample_heap = Inr (sb_at sample_heap 16384, s)"
    "malloc_post a_init sample_heap 131072 (sb_at sample_heap 16384) (a_large_alloc 2 a_init) s"
    using malloc_large [OF sample_heap_rep(1), of 100000 0] by (auto simp: sample_heap_rep(3) a_init_simps)
  moreover from this(2) have "sb_cap s = 65535" using same_geomD(6) [of sample_heap s] by (simp add: malloc_post_def sample_heap_rep(3))
  ultimately show ?thesis
    by (intro exI [of _ s]) (simp add: malloc_post_def can_malloc_def sb_room_def a_init_simps)
qed

theorem RP_calloc_correct_witness:
  "\<exists>q g' w'. RP_calloc 0 10 10 (process_of sample_heap) = Inr (q, w') \<and> heap_rep g' (heap w') \<and> mem (heap w') q = 0"
proof -
  obtain q n g' w' where "RP_calloc 0 10 10 (process_of sample_heap) = Inr (q, w')" "heap_rep g' (heap w')"
    "(q, n) \<in> live g' (heap w')" "\<forall>a \<in> bytes (q, n). mem (heap w') a = 0"
    using RP_calloc_correct [of "process_of sample_heap" a_init 10 10 0] sample_heap_rep(1) sample_can_malloc [of 100 0] by auto
  then show ?thesis using bytes_pos [of g' "heap w'" q n] by blast
qed

subsection \<open>Resizing\<close>

text \<open>The copy that \<^verbatim>\<open>RP_realloc\<close> makes.\<close>

lemma RP_realloc_copy:
  assumes "initialized w" and "heap_rep g (heap w)" and p: "(p, n) \<in> live g (heap w)" and "n \<noteq> unat sz"
    and "RP_malloc t sz w = Inr (q, w\<lparr>heap := s'\<rparr>)" and "q \<noteq> 0"
    and "sb_mapped s' q (of_nat n)" and "sb_mapped s' p (of_nat n)" and "apart q p (of_nat n)"
  shows "RP_realloc t p sz w = rbind (RP_free t p (w\<lparr>heap := FLUSHFENCE (s'\<lparr>mem := copied q p (of_nat n) (mem s')\<rparr>)\<rparr>))
    (\<lambda>p3. Inr (q, p3))"
proof -
  note sz = RP_malloc_size_live [OF assms(2) p]
  have "RP_malloc_size p w = of_nat n" using sz by (simp add: word_unat_eq_iff unat_of_nat64)
  moreover have "of_nat n \<noteq> sz" using sz assms(4) by (auto simp: word_unat_eq_iff unat_of_nat64)
  ultimately show ?thesis
    using live_props(4,5) [OF assms(2) p] assms(5-9) by (simp add: RP_realloc_def memcpy_def Let_def)
qed

lemma copied_block:
  assumes hr: "heap_rep g s" and q: "(q, n') \<in> live g s" and p: "(p, n) \<in> live g s" and n: "n \<le> n'"
  shows "\<And>a. a \<notin> bytes (q, n') \<Longrightarrow> copied q p (of_nat n) m a = m a"
    and "\<And>j. j < n \<Longrightarrow> copied q p (of_nat n) m (q + of_nat j) = m (p + of_nat j)"
proof -
  note pq = live_props(3) [OF hr q] live_props(3) [OF hr p]
  have u: "unat (of_nat n :: u64) = n" using pq by (intro unat_of_nat64) simp
  have lt: "a - q < of_nat n \<longleftrightarrow> unat q \<le> unat a \<and> unat a < unat q + n" for a
    using offset_less_iff [of q "of_nat n" a] pq n by (simp add: u)
  show "copied q p (of_nat n) m a = m a" if "a \<notin> bytes (q, n')" for a
  proof -
    have "\<not> a - q < of_nat n" using that n lt [of a] unfolding live_props(6) [OF hr q] by simp linarith
    then show ?thesis by (simp add: copied_def)
  qed
  show "copied q p (of_nat n) m (q + of_nat j) = m (p + of_nat j)" if "j < n" for j
  proof -
    have "unat (of_nat j :: u64) = j" using that pq by (intro unat_of_nat64) simp
    then have "(of_nat j :: u64) < of_nat n" using that u by (simp add: word_less_nat_alt)
    then show ?thesis by (simp add: copied_def)
  qed
qed

text \<open>
  C15. Resizing a live block to a size of up to \<open>2 ^ 32 - 2 ^ 16\<close> bytes that has a source and whose
  block is not smaller than the old one returns a block that holds the old contents and is large
  enough. The old block is no longer live, unless it
  is returned itself because its size is the one asked for; no byte of another live block and
  no root changes.
\<close>

theorem RP_realloc_correct:
  assumes "initialized w" and "heap_rep g (heap w)" and "(p, n) \<in> live g (heap w)"
    and "unat sz \<le> 65535 * 65536" and "can_malloc g (heap w) t sz" and "n \<le> block_size_for sz"
  shows "\<exists>q n' g' w'. RP_realloc t p sz w = Inr (q, w') \<and> initialized w' \<and> heap_rep g' (heap w')
    \<and> live g' (heap w') = insert (q, n') (live g (heap w) - {(p, n)}) \<and> unat sz \<le> n'
    \<and> (\<forall>j < n. mem (heap w') (q + of_nat j) = mem (heap w) (p + of_nat j))
    \<and> (\<forall>a \<in> live_bytes g (heap w) - bytes (p, n). mem (heap w') a = mem (heap w) a)
    \<and> roots (heap w') = roots (heap w)"
proof (cases "n = unat sz")
  case True
  then have "RP_malloc_size p w = sz"
    using RP_malloc_size_live(1) [OF assms(2,3)] by (simp add: word_unat_eq_iff)
  then have "RP_realloc t p sz w = Inr (p, w)"
    using live_props(4,5) [OF assms(2,3)] by (simp add: RP_realloc_def)
  then show ?thesis using assms(1-3) True
    by (intro exI [of _ p] exI [of _ n] exI [of _ g] exI [of _ w]) auto
next
  case False
  let ?n = "block_size_for sz"
  obtain q g1 s1 where q: "RP_malloc t sz w = Inr (q, w\<lparr>heap := s1\<rparr>)" "malloc_post g (heap w) ?n q g1 s1"
    using RP_malloc_result [OF assms(1,2,4,5)] by blast
  have hr: "heap_rep g1 s1" and lv: "(q, ?n) \<in> live g1 s1" "(p, n) \<in> live g1 s1"
    and dj: "bytes (q, ?n) \<inter> live_bytes g (heap w) = {}"
    using q(2) assms(3) by (simp_all add: malloc_post_def)
  have km: "\<forall>a \<in> live_bytes g (heap w). mem s1 a = mem (heap w) a" using q(2) by (simp add: malloc_post_def)
  have pq: "(q, ?n) \<noteq> (p, n)" using dj assms(3) bytes_pos [OF assms(2,3)] by (auto simp: live_bytes_def)
  note cp = copied_block [OF hr lv assms(6), where m = "mem s1"]
  define s2 where "s2 = s1\<lparr>mem := copied q p (of_nat n) (mem s1)\<rparr>"
  note f = fill_block [OF hr lv(1), of "copied q p (of_nat n) (mem s1)", OF cp(1), folded s2_def]
  obtain g' s' where s': "RP_free t p (w\<lparr>heap := s2\<rparr>) = Inr (w\<lparr>heap := s'\<rparr>)" "free_post g1 s2 n p g' s'"
    using RP_free_result [of "w\<lparr>heap := s2\<rparr>" g1 p n t] f(2,3) lv(2) assms(1) by auto
  have un: "unat (of_nat n :: u64) = n" using live_props(3) [OF hr lv(2)] by (intro unat_of_nat64) simp
  have mp: "sb_mapped s1 q (of_nat n)" "sb_mapped s1 p (of_nat n)"
    using live_sb_mapped [OF hr lv(1), of "of_nat n"] live_sb_mapped [OF hr lv(2), of "of_nat n"] assms(6) un by simp_all
  have "bytes (p, n) \<inter> bytes (q, ?n) = {}" using dj assms(3) by (auto simp: live_bytes_def)
  then have ap: "apart q p (of_nat n)" using live_apart [OF hr lv(2,1), of "of_nat n"] assms(6) un by simp
  have re: "RP_realloc t p sz w = Inr (q, w\<lparr>heap := s'\<rparr>)"
    using RP_realloc_copy [OF assms(1-3) False q(1) live_props(4) [OF hr lv(1)] mp ap] f(1) s'(1) by (simp add: s2_def)
  have lv': "live g' s' = insert (q, ?n) (live g (heap w) - {(p, n)})"
    using s'(2) f(3) q(2) pq by (auto simp: free_post_def malloc_post_def)
  have keep: "mem s' a = copied q p (of_nat n) (mem s1) a" if "a \<in> live_bytes g' s'" for a
    using s'(2) that by (simp add: free_post_def s2_def)
  have c1: "mem s' (q + of_nat j) = mem (heap w) (p + of_nat j)" if "j < n" for j
  proof -
    have "q + of_nat j \<in> live_bytes g' s'"
      using that assms(6) lv' by (intro live_byteI [of _ ?n]) simp_all
    moreover have "p + of_nat j \<in> live_bytes g (heap w)" by (rule live_byteI [OF assms(3) that])
    ultimately show ?thesis using keep [of "q + of_nat j"] cp(2) [OF that] km by simp
  qed
  have c2: "mem s' a = mem (heap w) a" if a: "a \<in> live_bytes g (heap w) - bytes (p, n)" for a
  proof -
    obtain b where b: "b \<in> live g (heap w)" "a \<in> bytes b" using a by (auto simp: live_bytes_def)
    with a have "b \<in> live g' s'" unfolding lv' by blast
    with b(2) have "a \<in> live_bytes g' s'" unfolding live_bytes_def by blast
    moreover have "a \<notin> bytes (q, ?n)" using a dj by blast
    ultimately show ?thesis using keep [of a] cp(1) [of a] km a by simp
  qed
  show ?thesis
    using re c1 c2 lv' s'(2) q(2) assms(1) block_size_for_le [of sz]
    by (intro exI [of _ q] exI [of _ ?n] exI [of _ g'] exI [of _ "w\<lparr>heap := s'\<rparr>"] conjI ballI allI impI)
      (simp_all add: free_post_def malloc_post_def s2_def)
qed

theorem RP_realloc_correct_witness:
  "\<exists>p s q n g' w'. do_malloc 0 100000 sample_heap = Inr (p, s) \<and> RP_realloc 0 p 200000 (process_of s) = Inr (q, w')
    \<and> heap_rep g' (heap w') \<and> live g' (heap w') = {(q, n)} \<and> 200000 \<le> n \<and> mem (heap w') (q + 5) = mem s (p + 5)"
proof -
  obtain p g s where s: "do_malloc 0 100000 sample_heap = Inr (p, s)" "heap_rep g s" "live g s = {(p, 131072)}" "can_malloc g s 0 200000"
    using sample_large by blast
  then obtain q n g' w' where w: "RP_realloc 0 p 200000 (process_of s) = Inr (q, w')" "heap_rep g' (heap w')"
    "live g' (heap w') = {(q, n)}" "200000 \<le> n" "\<forall>j < 131072. mem (heap w') (q + of_nat j) = mem s (p + of_nat j)"
    using RP_realloc_correct [of "process_of s" g p 131072 200000 0] by (auto simp: block_size_for_def)
  then have "mem (heap w') (q + 5) = mem s (p + 5)" using w(5) [rule_format, of 5] by simp
  with s(1) w show ?thesis by blast
qed

text \<open>Freeing a large block neither reads nor writes the blocks.\<close>

lemma free_large_frame:
  assumes hr: "heap_rep g s" and p: "(p, n) \<in> live g s" and n: "14336 < n"
  shows "do_free t p (s\<lparr>mem := m\<rparr>) = map_sum id (mem_update (\<lambda>_. m)) (do_free t p s)"
proof -
  have inv: "ainv g" and rep: "rep g s" using hr by (simp_all add: heap_rep_def)
  note lay = repD(1) [OF rep]
  obtain k i where b: "(k, i) \<in> alive g" "p = block_addr_of g s (k, i)" "n = block_size_of g k"
    using p by (auto simp: live_def)
  have kv: "sb_valid g k" using b(1) by (simp add: alive_iff)
  have "a_kind g k \<noteq> Small c" for c
    using b(3) n ainv_small(1,2) [OF inv kv, of c] class_facts(2) [of c] by (auto simp: block_size_of_def)
  then obtain k' where large: "a_kind g k = Large k'" "i = 0" using b(1) by (auto simp: alive_iff)
  have "p = sb_at s k" using b large by (simp add: block_addr_of_def)
  then have lk: "desc_lookup s p = desc_at s k" using desc_lookup_sb [OF lay] sb_valid_cap(1) [OF rep kv] by simp
  have "desc_static s k 0 (65536 * k') 1 (descs s (desc_at s k))"
    using repD(7) [OF rep kv] large(1) by (simp add: desc_rep_def)
  from desc_static_get(2) [OF lay sb_valid_cap(2,1) [OF rep kv] _ this]
  have "cross_deref (rgs s) META_IDX (d_heap (descs s (desc_at s k))) = heap_addr (base_md s) 0" by simp
  then have idx: "h_sc_idx (heaps s (cross_deref (rgs s) META_IDX (d_heap (descs s (desc_lookup s p))))) = 0"
    using repD(4) [OF rep, of 0] lk by simp
  have free: "do_free t p (s\<lparr>mem := m'\<rparr>) = large_sb_retire (cross_get (rgs s) SB_IDX (d_superblock (descs s (desc_lookup s p))))
      (ucast (d_block_size (descs s (desc_lookup s p)))) (s\<lparr>mem := m'\<rparr>)" for m'
    using live_props(4,5) [OF hr p] idx by (simp add: do_free_def Let_def mem_upd.upd_lookup)
  note free0 = free [of "mem s", simplified]
  show "do_free t p (s\<lparr>mem := m\<rparr>) = map_sum id (mem_update (\<lambda>_. m)) (do_free t p s)"
    unfolding free free0 by (simp add: large_sb_retire_def check_def mem_upd.organize_upd)
qed

text \<open>
  C16. Resizing to a smaller block copies the old block's whole size. Take a large block and the
  block \<open>q\<close> that \<^verbatim>\<open>RP_malloc\<close> returns for a small size, and let the bytes from \<open>q\<close> on, as many
  as the old block has, lie in the mapping of the superblocks and apart from the old block.
  Then \<^verbatim>\<open>RP_realloc\<close> succeeds and all bytes of the old block are found from \<open>q\<close> on, beyond the end
  of the new block, over whatever blocks of the program or links of free lists are there.
\<close>

theorem RP_realloc_overflow:
  assumes "initialized w" and "heap_rep g (heap w)" and "(p, n) \<in> live g (heap w)" and "unat MAX_SZ < n"
    and "sz \<le> MAX_SZ" and "RP_malloc t sz w = Inr (q, w1)"
    and "sb_mapped (heap w1) q (of_nat n)" and "apart q p (of_nat n)"
  shows "\<exists>w'. RP_realloc t p sz w = Inr (q, w') \<and> block_size_for sz < n
    \<and> (\<forall>j < n. mem (heap w') (q + of_nat j) = mem (heap w) (p + of_nat j))"
proof -
  let ?n = "block_size_for sz"
  have "unat sz \<le> 65535 * 65536" using assms(5) by (simp add: word_le_nat_alt)
  moreover have "can_malloc g (heap w) t sz"
  proof (rule ccontr)
    assume "\<not> can_malloc g (heap w) t sz"
    then have "do_malloc t sz (heap w) = Inl (AssertFail ''out of space'')"
      using malloc_small_exhausted [OF assms(2,5), of t] assms(5) by (simp add: can_malloc_def)
    then show False using assms(1,6) by (simp add: RP_malloc_def)
  qed
  ultimately obtain q' g1 s1 where "RP_malloc t sz w = Inr (q', w\<lparr>heap := s1\<rparr>)" "malloc_post g (heap w) ?n q' g1 s1"
    using RP_malloc_result [OF assms(1,2)] by blast
  then have w1: "w1 = w\<lparr>heap := s1\<rparr>" and q: "malloc_post g (heap w) ?n q g1 s1" using assms(6) by simp_all
  have hr: "heap_rep g1 s1" and lv: "(q, ?n) \<in> live g1 s1" "(p, n) \<in> live g1 s1"
    and km: "\<forall>a \<in> live_bytes g (heap w). mem s1 a = mem (heap w) a"
    using q assms(3) by (simp_all add: malloc_post_def)
  define m where "m = copied q p (of_nat n) (mem s1)"
  obtain g' s' where s': "do_free t p s1 = Inr s'" "free_post g1 s1 n p g' s'" using free_result [OF hr lv(2)] by blast
  have n: "?n < n" "n \<noteq> unat sz"
    using assms(4,5) get_sizeclass_small [OF assms(5)] class_facts(2) [of "get_sizeclass sz"]
    by (auto simp: block_size_for_def word_le_nat_alt)
  have un: "unat (of_nat n :: u64) = n" using live_props(3) [OF hr lv(2)] by (intro unat_of_nat64) simp
  then have mp: "sb_mapped s1 q (of_nat n)" "sb_mapped s1 p (of_nat n)"
    using assms(7) w1 live_sb_mapped [OF hr lv(2), of "of_nat n"] by simp_all
  have fence: "FLUSHFENCE (s1\<lparr>mem := m\<rparr>) = s1\<lparr>mem := m\<rparr>" using heap_rep_wb [OF hr] by (intro fence_idle) simp
  have "do_free t p (s1\<lparr>mem := m\<rparr>) = Inr (s'\<lparr>mem := m\<rparr>)"
    using free_large_frame [OF hr lv(2), of t m] assms(4) s'(1) by simp
  then have "RP_realloc t p sz w = Inr (q, w\<lparr>heap := s'\<lparr>mem := m\<rparr>\<rparr>)"
    using RP_realloc_copy [OF assms(1-3) n(2) assms(6) [unfolded w1] live_props(4) [OF hr lv(1)] mp assms(8)] assms(1) fence
    by (simp add: m_def [symmetric] RP_free_def)
  moreover have "m (q + of_nat j) = mem (heap w) (p + of_nat j)" if "j < n" for j
  proof -
    have "unat (of_nat j :: u64) < unat (of_nat n :: u64)"
      using that RP_malloc_size_live(2) [OF assms(2,3)] by (simp add: unat_of_nat64)
    then show ?thesis using live_byteI [OF assms(3) that] km by (simp add: m_def copied_def word_less_nat_alt)
  qed
  ultimately show ?thesis using n(1) by (intro exI [of _ "w\<lparr>heap := s'\<lparr>mem := m\<rparr>\<rparr>"]) simp
qed

text \<open>
  In the sample heap the large block is the superblocks 16384 and 16385, and the small one the
  beginning of the first superblock.
\<close>

theorem RP_realloc_overflow_witness:
  "\<exists>p s q w'. do_malloc 0 100000 sample_heap = Inr (p, s) \<and> RP_realloc 0 p 100 (process_of s) = Inr (q, w')
    \<and> block_size_for 100 < 131072 \<and> mem (heap w') (q + 131071) = mem s (p + 131071)"
proof -
  let ?p = "sb_at sample_heap 16384" and ?g = "a_large_alloc 2 a_init"
  obtain s where s: "do_malloc 0 100000 sample_heap = Inr (?p, s)" "heap_rep ?g s" "live ?g s = {(?p, 131072)}"
    "same_geom sample_heap s" using sample_large by blast
  note geo = same_geomD [OF s(4)]
  have hr: "rep ?g s" using s(2) by (simp add: heap_rep_def)
  note lay = repD(1) [OF hr]
  have "a_avail ?g = a_avail a_init" by simp
  then have "a_avail ?g = 1 # [Suc 1..<16384]" unfolding a_init_simps(5) by (simp only: upt_conv_Cons [of 1 16384])
  from malloc_first [OF s(2) _ this, of 100 0] obtain g1 s1 where
    q: "do_malloc 0 100 s = Inr (sb_at s 1, s1)" "same_geom s s1"
    by (auto simp: a_init_simps malloc_post_def)
  have cap: "sb_cap s = 65535" by (simp add: geo sample_heap_rep(3))
  have u: "unat (sb_at s 1) = unat (lookup (rgs s) SB_IDX) + 65536" "unat ?p = unat (lookup (rgs s) SB_IDX) + 65536 * 16384"
    using unat_sb_at [OF lay, of 1] unat_sb_at [OF lay, of 16384] cap geo by simp_all
  have "unat ?p + 131072 \<le> unat (curr_addr (sb_region s))" using live_below [OF s(2), of ?p 131072] s(3) by simp
  then have "sb_mapped s (sb_at s 1) 131072"
    using u layout_okD(3) [OF lay] region_okD(6) [OF layout_okD(1) [OF lay]] by (simp add: sb_mapped_def)
  then have mp: "sb_mapped s1 (sb_at s 1) (of_nat 131072)" using q(2) by (simp add: sb_mapped_def same_geom_def)
  have ap: "apart (sb_at s 1) ?p (of_nat 131072)" using u by (simp add: apart_def)
  obtain w' where w: "RP_realloc 0 ?p 100 (process_of s) = Inr (sb_at s 1, w')" "block_size_for 100 < 131072"
    "\<forall>j < 131072. mem (heap w') (sb_at s 1 + of_nat j) = mem s (?p + of_nat j)"
    using RP_realloc_overflow [of "process_of s" ?g ?p 131072 100 0 "sb_at s 1" "process_of s1"] s mp ap q(1)
    by (auto simp: RP_malloc_def process_of_def)
  then have "mem (heap w') (sb_at s 1 + 131071) = mem s (?p + 131071)" using w(3) [rule_format, of 131071] by simp
  with s(1) w show ?thesis by blast
qed

end
