(* ===== verification/Reloc.thy ===== *)
theory Reloc
  imports HeapSpec
begin

text \<open>
  Position independence. Every pointer that lives in a region is an offset: from the start of
  a region (\<^verbatim>\<open>CrossPtr\<close>, \<^verbatim>\<open>AtomicCrossPtrCnt\<close>) or from its own address (\<^verbatim>\<open>pptr\<close>). So when the three
  files are mapped at other addresses, with the same bytes, the words in them describe the
  same heap at its new place.
\<close>

subsection \<open>The same contents at other addresses\<close>

definition relocated :: "ralloc_state \<Rightarrow> ralloc_state \<Rightarrow> bool" where
  "relocated s s' \<longleftrightarrow> avail_sb s' = avail_sb s \<and> roots s' = roots s
     \<and> (\<forall>x. descs s' (lookup (rgs s') DESC_IDX + x) = descs s (lookup (rgs s) DESC_IDX + x))
     \<and> (\<forall>x. pm_descs (pm s') (lookup (rgs s') DESC_IDX + x) = pm_descs (pm s) (lookup (rgs s) DESC_IDX + x))
     \<and> (\<forall>x. heaps s' (base_md s' + x) = heaps s (base_md s + x))
     \<and> (\<forall>x. mem s' (lookup (rgs s') SB_IDX + x) = mem s (lookup (rgs s) SB_IDX + x))"

lemma relocated_at:
  assumes "relocated s s'"
  shows "descs s' (desc_at s' k) = descs s (desc_at s k)" and "pm_descs (pm s') (desc_at s' k) = pm_descs (pm s) (desc_at s k)"
    and "heaps s' (heap_addr (base_md s') i) = heaps s (heap_addr (base_md s) i)"
    and "mem s' (lookup (rgs s') SB_IDX + x) = mem s (lookup (rgs s) SB_IDX + x)"
    and "avail_sb s' = avail_sb s" and "roots s' = roots s"
  using assms by (simp_all add: relocated_def desc_at_def heap_addr_def add.assoc)

subsection \<open>Words that encode a distance\<close>

lemma to_pptr_off_shift:
  assumes "v \<noteq> 0" and "v' \<noteq> 0" and "v' - p' = v - p" and "v' > p' \<longleftrightarrow> v > p"
  shows "to_pptr_off v' p' = to_pptr_off v p"
proof -
  have "p' - v' = p - v" using arg_cong [OF assms(3), of uminus] by simp
  then show ?thesis using assms by (simp add: to_pptr_off_def)
qed

lemma relocated_acp:
  assumes "layout_ok s" and "layout_ok s'" and "desc_idx_ok s k" and "desc_idx_ok s' k" and "head_is (rgs s) w (desc_ptr s k)"
  shows "head_is (rgs s') w (desc_ptr s' k)"
proof -
  have "acp_pack (rgs s') DESC_IDX \<lparr>pc_ptr = desc_ptr s' k, pc_cnt = c\<rparr> = acp_pack (rgs s) DESC_IDX \<lparr>pc_ptr = desc_ptr s k, pc_cnt = c\<rparr>" for c
  proof (cases k)
    case (Some j)
    then have "desc_at s j \<noteq> 0" "desc_at s' j \<noteq> 0"
      using desc_at_less(2) [OF assms(1), of j] desc_at_less(2) [OF assms(2), of j] assms(3,4) by simp_all
    moreover have "untranslate (rgs s') DESC_IDX (desc_at s' j) = untranslate (rgs s) DESC_IDX (desc_at s j)"
      by (simp add: untranslate_def desc_at_def lookup_def)
    ultimately show ?thesis using Some by (simp add: acp_pack_def)
  qed (simp add: acp_pack_def)
  then show ?thesis using assms(5) by (simp add: head_is_def)
qed

lemma relocated_link:
  assumes "layout_ok s" and "layout_ok s'" and "desc_idx_ok s k" and "desc_idx_ok s' k" and "j < sb_cap s" and "j < sb_cap s'"
  shows "to_pptr_off (desc_ptr s' k) (desc_at s' j) = to_pptr_off (desc_ptr s k) (desc_at s j)"
    and "to_pptr_off (desc_ptr s' k) (desc_at s' j + 8) = to_pptr_off (desc_ptr s k) (desc_at s j + 8)"
proof -
  have u8: "unat (desc_at t j + 8) = unat (desc_at t j) + 8" if "layout_ok t" "j < sb_cap t" for t
    using desc_at_less(1) [OF that(1), of j] that(2) by (subst unat_plus64) simp_all
  note u = unat_desc_at [OF assms(1)] unat_desc_at [OF assms(2)] u8 [OF assms(1,5)] u8 [OF assms(2,6)]
  have "to_pptr_off (desc_ptr s' k) (desc_at s' j) = to_pptr_off (desc_ptr s k) (desc_at s j)
    \<and> to_pptr_off (desc_ptr s' k) (desc_at s' j + 8) = to_pptr_off (desc_ptr s k) (desc_at s j + 8)"
  proof (cases k)
    case (Some i)
    then have i: "i < sb_cap s" "i < sb_cap s'" using assms(3,4) by simp_all
    then have nz: "desc_at s i \<noteq> 0" "desc_at s' i \<noteq> 0"
      using desc_at_less(2) [OF assms(1), of i] desc_at_less(2) [OF assms(2), of i] by simp_all
    have "(desc_at s' i > desc_at s' j) = (desc_at s i > desc_at s j)"
      "(desc_at s' i > desc_at s' j + 8) = (desc_at s i > desc_at s j + 8)"
      using u(1) [of i] u(1) [of j] u(2) [of i] u(2) [of j] u(3,4) i assms(5,6) by (auto simp: word_less_nat_alt)
    then show ?thesis using nz Some by (auto intro!: to_pptr_off_shift simp: desc_at_def)
  qed (simp add: to_pptr_off_def)
  then show "to_pptr_off (desc_ptr s' k) (desc_at s' j) = to_pptr_off (desc_ptr s k) (desc_at s j)"
    "to_pptr_off (desc_ptr s' k) (desc_at s' j + 8) = to_pptr_off (desc_ptr s k) (desc_at s j + 8)" by simp_all
qed

lemma relocated_block: "block_at s' c k i = block_at s c k i + (lookup (rgs s') SB_IDX - lookup (rgs s) SB_IDX)"
  by (simp add: block_at_def sb_at_def)

lemma relocated_load:
  assumes "relocated s s'" and "load_pptr (mem s) (block_at s c k i) = block_at s c k j" and "block_at s c k j \<noteq> 0"
  shows "load_pptr (mem s') (block_at s' c k i) = block_at s' c k j"
proof -
  let ?b = "lookup (rgs s) SB_IDX" and ?b' = "lookup (rgs s') SB_IDX"
  define x where "x = block_at s c k i - ?b"
  have b: "block_at s c k i = ?b + x" "block_at s' c k i = ?b' + x"
    by (simp_all add: x_def relocated_block [of s' c k i s])
  have w: "load64 (mem s') (?b' + x) = load64 (mem s) (?b + x)"
    using relocated_at(4) [OF assms(1)] by (simp add: load64_def add.assoc)
  have "from_pptr_off (load64 (mem s) (?b + x)) (?b + x) \<noteq> 0" using assms(2,3) b by (simp add: load_pptr_def pptr_get_def)
  moreover have "?b' + x = (?b + x) + (?b' - ?b)" by simp
  ultimately have "from_pptr_off (load64 (mem s) (?b + x)) (?b' + x)
      = from_pptr_off (load64 (mem s) (?b + x)) (?b + x) + (?b' - ?b)"
    by (metis from_pptr_off_def from_pptr_off_shift)
  then show ?thesis
    using assms(2) b w by (simp add: load_pptr_def pptr_get_def relocated_block [of s' c k j s])
qed

subsection \<open>The heap at its new place\<close>

text \<open>
  \<open>moved g s s'\<close>: the contents of \<open>s\<close>, a state that represents \<open>g\<close> with empty thread caches, at
  the addresses of \<open>s'\<close>.
\<close>

definition moved :: "aheap \<Rightarrow> ralloc_state \<Rightarrow> ralloc_state \<Rightarrow> bool" where
  "moved g s s' \<longleftrightarrow> heap_rep g s \<and> relocated s s' \<and> layout_ok s' \<and> sb_num s' = sb_num s \<and> wb s' = []
     \<and> (\<forall>t c. a_cache g t c = []) \<and> (\<forall>t c. 1 \<le> c \<and> c < 40 \<longrightarrow> tc_block_num (t_caches s' t c) = 0)"

lemma movedD:
  assumes "moved g s s'"
  shows "heap_rep g s" and "rep g s" and "ainv g" and "relocated s s'" and "layout_ok s" and "layout_ok s'"
    and "sb_num s' = a_num g" and "wb s' = []" and "a_cache g t c = []" and "1 \<le> c \<Longrightarrow> c < 40 \<Longrightarrow> tc_block_num (t_caches s' t c) = 0"
    and "sb_valid g k \<Longrightarrow> k < sb_cap s" and "sb_valid g k \<Longrightarrow> k < sb_cap s'"
    and "\<forall>k \<in> set ks. sb_valid g k \<Longrightarrow> desc_idx_ok s (head_opt ks)"
    and "\<forall>k \<in> set ks. sb_valid g k \<Longrightarrow> desc_idx_ok s' (head_opt ks)"
proof -
  show rep: "heap_rep g s" "rep g s" "ainv g" "relocated s s'" "layout_ok s" and lay: "layout_ok s'"
    and num: "sb_num s' = a_num g" and "wb s' = []" "a_cache g t c = []" "1 \<le> c \<Longrightarrow> c < 40 \<Longrightarrow> tc_block_num (t_caches s' t c) = 0"
    using assms by (simp_all add: moved_def heap_rep_def rep_def)
  show "k < sb_cap s" if "sb_valid g k" for k by (rule sb_valid_cap(1) [OF rep(2) that])
  show cap': "k < sb_cap s'" if "sb_valid g k" for k using that sb_num_le_cap [OF lay] num by (simp add: sb_valid_def)
  show "desc_idx_ok s (head_opt ks)" if "\<forall>k \<in> set ks. sb_valid g k" by (rule head_opt_ok [OF rep(2) that])
  show "desc_idx_ok s' (head_opt ks)" if "\<forall>k \<in> set ks. sb_valid g k"
    using that cap' by (cases ks) (auto simp: sb_valid_def)
qed

lemma moved_dlinked:
  assumes mv: "moved g s s'" and "\<forall>k \<in> set ks. sb_valid g k"
  shows "dlinked (\<lambda>k. next_free_is s' (desc_at s' k)) s' ks = dlinked (\<lambda>k. next_free_is s (desc_at s k)) s ks"
    and "dlinked (\<lambda>k. next_partial_is s' (desc_at s' k)) s' ks = dlinked (\<lambda>k. next_partial_is s (desc_at s k)) s ks"
proof -
  note d = movedD [OF mv]
  have step: "to_pptr_off (desc_ptr s' (head_opt js)) (desc_at s' k) = to_pptr_off (desc_ptr s (head_opt js)) (desc_at s k)"
    "to_pptr_off (desc_ptr s' (head_opt js)) (desc_at s' k + 8) = to_pptr_off (desc_ptr s (head_opt js)) (desc_at s k + 8)"
    if "\<forall>j \<in> set js. sb_valid g j" "sb_valid g k" for js k
    using relocated_link [OF d(5,6) d(13,14) [OF that(1)] d(11,12) [OF that(2)]] .
  have "dlinked (\<lambda>k. next_free_is s' (desc_at s' k)) s' ks = dlinked (\<lambda>k. next_free_is s (desc_at s k)) s ks
    \<and> dlinked (\<lambda>k. next_partial_is s' (desc_at s' k)) s' ks = dlinked (\<lambda>k. next_partial_is s (desc_at s k)) s ks"
    using assms(2)
    by (induction ks) (simp_all add: next_free_is_def next_partial_is_def step relocated_at [OF d(4)])
  then show "dlinked (\<lambda>k. next_free_is s' (desc_at s' k)) s' ks = dlinked (\<lambda>k. next_free_is s (desc_at s k)) s ks"
    and "dlinked (\<lambda>k. next_partial_is s' (desc_at s' k)) s' ks = dlinked (\<lambda>k. next_partial_is s (desc_at s k)) s ks"
    by simp_all
qed

lemma moved_lists:
  assumes mv: "moved g s s'"
  shows "avail_rep g s'" and "1 \<le> c \<Longrightarrow> c < 40 \<Longrightarrow> part_rep g s' c"
proof -
  note d = movedD [OF mv]
  have av: "\<forall>k \<in> set (a_avail g). sb_valid g k" "head_is (rgs s) (avail_sb s) (desc_ptr s (head_opt (a_avail g)))"
    "dlinked (\<lambda>k. next_free_is s (desc_at s k)) s (a_avail g)"
    using repD(5) [OF d(2)] by (simp_all add: avail_rep_def)
  show "avail_rep g s'"
    using av(1,3) relocated_acp [OF d(5,6) d(13,14) [OF av(1)] av(2)] moved_dlinked(1) [OF mv av(1)]
    by (simp add: avail_rep_def relocated_at [OF d(4)])
  show "part_rep g s' c" if c: "1 \<le> c" "c < 40"
  proof -
    have p: "\<forall>k \<in> set (a_part g c). sb_valid g k"
      "head_is (rgs s) (h_partial_list (heaps s (heap_addr (base_md s) c))) (desc_ptr s (head_opt (a_part g c)))"
      "dlinked (\<lambda>k. next_partial_is s (desc_at s k)) s (a_part g c)"
      using repD(6) [OF d(2) c] by (simp_all add: part_rep_def)
    show ?thesis
      using p(1,3) relocated_acp [OF d(5,6) d(13,14) [OF p(1)] p(2)] moved_dlinked(2) [OF mv p(1)]
      by (simp add: part_rep_def relocated_at [OF d(4)])
  qed
qed

lemma moved_linked:
  assumes mv: "moved g s s'" and k: "k < sb_cap s" and c: "1 \<le> c" "c < 40" and "set fs \<subseteq> {..<bnum c}"
    and "linked (mem s) (map (block_at s c k) fs)"
  shows "linked (mem s') (map (block_at s' c k) fs)"
  using assms(5,6)
proof (induction fs rule: induct_list012)
  case (3 i j fs)
  then have "block_addr (block_at s c k j)" using block_at_props(1) [OF movedD(5) [OF mv] k c, of j] by simp
  then have "block_at s c k j \<noteq> 0" by (auto simp: block_addr_def)
  with 3 relocated_load [OF movedD(4) [OF mv], of c k i j] show ?case by simp
qed simp_all

lemma moved_static: "desc_static s' k c bs n v = desc_static s k c bs n v"
  by (simp add: desc_static_def cross_assign_def untranslate_def base_md_def heap_addr_def sb_at_def lookup_def)

lemma moved_rep:
  assumes mv: "moved g s s'"
  shows "heap_rep g s'"
proof -
  note d = movedD [OF mv]
  have "rep g s'"
  proof (rule repI)
    show "layout_ok s'" "sb_num s' = a_num g" "wb s' = []" "avail_rep g s'" by (rule d moved_lists [OF mv])+
    show "part_rep g s' c" if "1 \<le> c" "c < 40" for c using that by (rule moved_lists(2) [OF mv])
    show "h_sc_idx (heaps s' (heap_addr (base_md s') i)) = of_nat i" if "i < 40" for i
      using repD(4) [OF d(2) that] by (simp add: relocated_at [OF d(4)])
    show "desc_rep g s' k" if k: "sb_valid g k" for k
    proof (cases "a_kind g k")
      case (Small c)
      note sm = ainv_small [OF d(3) k Small]
      have "linked (mem s) (map (block_at s c k) (a_free g k))" using repD(7) [OF d(2) k] Small by (simp add: desc_rep_def)
      from moved_linked [OF mv d(11) [OF k] sm(1,2,4) this] show ?thesis
        using repD(7) [OF d(2) k] Small by (simp add: desc_rep_def moved_static [of s' _ _ _ _ _ s] relocated_at [OF d(4)])
    qed (use repD(7) [OF d(2) k] in \<open>simp_all add: desc_rep_def moved_static [of s' _ _ _ _ _ s] relocated_at [OF d(4)]\<close>)
    show "durable_rep g s' k" if k: "sb_valid g k" for k
      using repD(8) [OF d(2) k]
      by (simp add: durable_rep_def moved_static [of s' _ _ _ _ _ s] relocated_at [OF d(4)] split: sb_kind.splits)
    show "caches_rep g s' t c" if "1 \<le> c" "c < 40" for t c
      using d(9) [of t c] d(10) [OF that, of t] by (simp add: caches_rep_def)
  qed
  then show ?thesis using d(3) by (simp add: heap_rep_def)
qed

lemma moved_live:
  "live g s' = (\<lambda>(p, n). (p + (lookup (rgs s') SB_IDX - lookup (rgs s) SB_IDX), n)) ` live g s"
  unfolding live_def image_image by (rule image_cong) (simp_all add: block_addr_of_def sb_at_def)

end
