(* ===== verification/ApiOpen.thy ===== *)
theory ApiOpen
  imports ApiSpec Reloc
begin

text \<open>
  Opening and closing a heap: \<^verbatim>\<open>RP_init\<close> on files that do not exist yet, the shutdown of
  \<^verbatim>\<open>RallocHolder\<close>, and \<^verbatim>\<open>RP_init\<close> on the files it leaves behind, mapped at any other addresses.
\<close>

subsection \<open>The three files of a heap\<close>

fun region_file :: "string \<Rightarrow> RegionIndex \<Rightarrow> string" where
  "region_file name DESC_IDX = (HEAPFILE_PREFIX @ name) @ ''_desc''"
| "region_file name SB_IDX = (HEAPFILE_PREFIX @ name) @ ''_sb''"
| "region_file name META_IDX = (HEAPFILE_PREFIX @ name) @ ''_basemd''"

fun region_size :: "u64 \<Rightarrow> RegionIndex \<Rightarrow> u64" where
  "region_size sz DESC_IDX = sz div SBSIZE * DESCSIZE"
| "region_size sz SB_IDX = sz div SBSIZE * SBSIZE"
| "region_size sz META_IDX = of_nat sizeof_BaseMeta"

text \<open>
  The operating system does what it is asked to: every file is mapped at a page boundary, with
  a tebibyte below the end of user space.
\<close>

definition os_maps :: "(RegionIndex \<Rightarrow> os_result) \<Rightarrow> (RegionIndex \<Rightarrow> addr) \<Rightarrow> bool" where
  "os_maps os a \<longleftrightarrow> (\<forall>i. os_lseek_ok (os i) \<and> os_write_ok (os i) \<and> os_mmap (os i) = Some (a i)
     \<and> a i \<noteq> 0 \<and> unat (a i) mod 4096 = 0 \<and> unat (a i) + 2 ^ 40 + 2 ^ 20 < 2 ^ 47)"

text \<open>What the regions of an open heap have in common.\<close>

definition heap_files :: "string \<Rightarrow> u64 \<Rightarrow> Regions \<Rightarrow> bool" where
  "heap_files name sz r \<longleftrightarrow> cur_idx r = 3 \<and> (\<forall>i. region_ok (regions r (ridx i)) \<and> persist (regions r (ridx i))
     \<and> HEAPFILE (regions r (ridx i)) = region_file name i \<and> FILESIZE (regions r (ridx i)) = region_FILESIZE (region_size sz i)
     \<and> fetch_heap_start (regions r (ridx i)) = regions_address r (ridx i)
     \<and> (i \<noteq> SB_IDX \<longrightarrow> regions_address r (ridx i) = base_addr (regions r (ridx i)) + 4096))"

lemma os_mapsD:
  assumes "os_maps os a"
  shows "os_lseek_ok (os i)" and "os_write_ok (os i)" and "os_mmap (os i) = Some (a i)"
    and "a i \<noteq> 0" and "unat (a i) mod 4096 = 0" and "unat (a i) + 1099512676352 < 140737488355328"
  using assms by (simp_all add: os_maps_def)

lemma heap_filesD:
  assumes "heap_files name sz r"
  shows "cur_idx r = 3" and "region_ok (regions r (ridx i))" and "persist (regions r (ridx i))"
    and "HEAPFILE (regions r (ridx i)) = region_file name i" and "FILESIZE (regions r (ridx i)) = region_FILESIZE (region_size sz i)"
    and "fetch_heap_start (regions r (ridx i)) = regions_address r (ridx i)"
    and "i \<noteq> SB_IDX \<Longrightarrow> regions_address r (ridx i) = base_addr (regions r (ridx i)) + 4096"
  using assms by (simp_all add: heap_files_def)

lemma region_sizes:
  assumes "MIN_SB_REGION_SIZE \<le> sz" and "sz < MAX_SB_REGION_SIZE"
  shows "16384 \<le> unat sz div 65536" and "unat sz div 65536 < 16777216"
    and "unat (region_size sz DESC_IDX) = 64 * (unat sz div 65536)" and "unat (region_size sz SB_IDX) = 65536 * (unat sz div 65536)"
    and "unat (region_size sz META_IDX) = 10816" and "region_size sz i mod CACHELINE_SIZE = 0" and "0 < unat (region_size sz i)"
    and "unat (region_size sz i) < 1099511627776"
proof -
  have b: "1073741824 \<le> unat sz" "unat sz < 1099511627776"
    using assms by (simp_all add: word_le_nat_alt word_less_nat_alt)
  show n: "16384 \<le> unat sz div 65536" "unat sz div 65536 < 16777216"
    using div_le_mono [OF b(1), of 65536] b(2) by (simp_all add: div_less_iff_less_mult less_mult_imp_div_less)
  have q: "unat (sz div 65536) = unat sz div 65536" by (simp add: unat_div)
  show d: "unat (region_size sz DESC_IDX) = 64 * (unat sz div 65536)"
    using n(2) q by (simp add: unat_word_ariths)
  show s: "unat (region_size sz SB_IDX) = 65536 * (unat sz div 65536)"
    using n(2) q by (simp add: unat_word_ariths)
  show m: "unat (region_size sz META_IDX) = 10816" by (simp add: sizeof_BaseMeta_def)
  show "region_size sz i mod CACHELINE_SIZE = 0"
    using d s m by (cases i) (simp_all only: word_unat_eq_iff unat_mod CACHELINE_SIZE_val, simp_all)
  show "0 < unat (region_size sz i)" using d s m n(1) by (cases i) simp_all
  show "unat (region_size sz i) < 1099511627776" using d s m n(2) by (cases i) simp_all
qed

subsection \<open>A new heap\<close>

text \<open>The regions that \<^verbatim>\<open>_RP_init\<close> has built when it constructs \<^verbatim>\<open>BaseMeta\<close>.\<close>

declare region_file.simps [simp del] region_size.simps [simp del]

lemma create_regions:
  assumes os: "os_maps os a" and sz: "MIN_SB_REGION_SIZE \<le> sz" "sz < MAX_SB_REGION_SIZE"
  shows "\<exists>d r1. regions_create (os DESC_IDX) None t (region_file name DESC_IDX) (region_size sz DESC_IDX) True True new_Regions = Inr r1
    \<and> regions_create (os SB_IDX) None t (region_file name SB_IDX) (region_size sz SB_IDX) True False r1
        = Inr \<lparr>regions = (regions new_Regions)(0 := d, 1 := mapped_region (region_file name SB_IDX) (region_size sz SB_IDX) True (a SB_IDX)),
               regions_address = (\<lambda>i. if i = 0 then a DESC_IDX + 4096 else 0), cur_idx = 2\<rparr>
    \<and> region_ok d \<and> persist d \<and> HEAPFILE d = region_file name DESC_IDX \<and> FILESIZE d = region_FILESIZE (region_size sz DESC_IDX)
    \<and> base_addr d = a DESC_IDX \<and> fetch_heap_start d = a DESC_IDX + 4096 \<and> curr_addr d = a DESC_IDX + 4096 + region_size sz DESC_IDX"
proof -
  note o = os_mapsD [OF os] and rs = region_sizes [OF sz]
  obtain d where d: "new_RegionManager (os DESC_IDX) None t (region_file name DESC_IDX) (region_size sz DESC_IDX) True True = Inr d"
    "region_ok d" "FILESIZE d = region_FILESIZE (region_size sz DESC_IDX)" "fetch_heap_start d = a DESC_IDX + 4096"
    "curr_addr d = a DESC_IDX + 4096 + region_size sz DESC_IDX" "HEAPFILE d = region_file name DESC_IDX" "persist d" "base_addr d = a DESC_IDX"
    using new_region [of "os DESC_IDX" "a DESC_IDX" "region_size sz DESC_IDX" t "region_file name DESC_IDX" True]
      o [of DESC_IDX] rs(6-8) [of DESC_IDX] by auto
  let ?r1 = "\<lparr>regions = (regions new_Regions)(0 := d), regions_address = (\<lambda>i. if i = 0 then a DESC_IDX + 4096 else 0), cur_idx = 1\<rparr>"
  have "regions_create (os DESC_IDX) None t (region_file name DESC_IDX) (region_size sz DESC_IDX) True True new_Regions = Inr ?r1"
    using d(1,4) by (auto simp: regions_create_def new_Regions_def)
  moreover have "regions_create (os SB_IDX) None t (region_file name SB_IDX) (region_size sz SB_IDX) True False ?r1
      = Inr \<lparr>regions = (regions new_Regions)(0 := d, 1 := mapped_region (region_file name SB_IDX) (region_size sz SB_IDX) True (a SB_IDX)),
             regions_address = (\<lambda>i. if i = 0 then a DESC_IDX + 4096 else 0), cur_idx = 2\<rparr>"
    using new_region_mapped [of "os SB_IDX" "a SB_IDX" "region_size sz SB_IDX" t "region_file name SB_IDX" True False]
      o(1-3) [of SB_IDX] rs(6) [of SB_IDX]
    by (auto simp: regions_create_def)
  ultimately show ?thesis using d by blast
qed

lemma align_up_page:
  assumes "x mod 4096 = 0"
  shows "align_up 16 (x + 4096) \<le> x + 65536"
proof (cases "(x + 4096) mod 65536 = 0")
  case False
  have "4096 dvd x" using assms by (simp only: dvd_eq_mod_eq_0)
  then obtain q where q: "x = 4096 * q" by (rule dvdE)
  have "4096 \<le> (x + 4096) mod 65536"
  proof -
    have x: "x + 4096 = 4096 * (q + 1)" by (simp add: q)
    have m: "(65536 :: nat) = 4096 * 16" by simp
    have e: "(x + 4096) mod 65536 = 4096 * ((q + 1) mod 16)"
      unfolding x m by (rule mult_mod_right [symmetric])
    with False have "1 \<le> (q + 1) mod 16" by (metis mult_0_right not_less_eq_eq One_nat_def le_zero_eq)
    then show ?thesis unfolding e by linarith
  qed
  then show ?thesis using False by (simp add: align_up_def)
qed (simp add: align_up_def)

text \<open>Neither the number of regions nor the dirty flag matters for the representation.\<close>

lemma same_regions_rep:
  assumes "heap_rep g s" and r: "regions (rgs s') = regions (rgs s)" "regions_address (rgs s') = regions_address (rgs s)"
    and f: "descs s' = descs s" "pm s' = pm s" "heaps s' = heaps s" "mem s' = mem s" "avail_sb s' = avail_sb s"
    "roots s' = roots s" "wb s' = wb s" "t_caches s' = t_caches s" and "\<And>t c. a_cache g t c = []"
  shows "heap_rep g s'"
proof (rule moved_rep)
  have lk: "lookup (rgs s') = lookup (rgs s)" "sb_region s' = sb_region s" "base_md s' = base_md s"
    by (simp_all add: fun_eq_iff lookup_def sb_region_def base_md_def r)
  have rep: "rep g s" using assms(1) by (simp add: heap_rep_def)
  have "layout_ok s'"
    using repD(1) [OF rep] unfolding layout_ok_def sb_cap_def desc_end_ok_def by (simp add: lk r)
  moreover have "tc_block_num (t_caches s t c) = 0" if "1 \<le> c" "c < 40" for t c
    using repD(9) [OF rep that, of t] assms(12) [of t c] by (simp add: caches_rep_def)
  ultimately show "moved g s s'"
    using assms(1,12) repD(3) [OF rep] by (simp add: moved_def relocated_def f lk sb_num_def)
qed

lemma do_RP_init_fresh:
  assumes os: "os_maps os a" and sz: "2 ^ 30 + 2 ^ 16 \<le> unat sz" "sz < MAX_SB_REGION_SIZE"
    and new: "\<And>i. files p (region_file name i) = None" and caches: "\<And>t c. tc_block_num (t_caches (heap p) t c) = 0"
  shows "\<exists>s'. do_RP_init os t name sz p = Inr (0, p\<lparr>initialized := True, heap := s'\<rparr>) \<and> heap_rep a_init s'
    \<and> (\<forall>i < 1024. roots s' i = 0) \<and> dirty_mtx s' = Mtx_held \<and> heap_files name sz (rgs s')
    \<and> (\<forall>i. base_addr (regions (rgs s') (ridx i)) = a i) \<and> unat (lookup (rgs s') SB_IDX) = align_up 16 (unat (a SB_IDX) + 4096)"
proof -
  have sz0: "MIN_SB_REGION_SIZE \<le> sz" using sz(1) by (simp add: word_le_nat_alt)
  note o = os_mapsD [OF os] and rs = region_sizes [OF sz0 sz(2)]
  define sb where "sb = mapped_region (region_file name SB_IDX) (region_size sz SB_IDX) True (a SB_IDX)"
  obtain d r1 where r1: "regions_create (os DESC_IDX) None t (region_file name DESC_IDX) (region_size sz DESC_IDX) True True new_Regions = Inr r1"
    "regions_create (os SB_IDX) None t (region_file name SB_IDX) (region_size sz SB_IDX) True False r1
      = Inr \<lparr>regions = (regions new_Regions)(0 := d, 1 := sb), regions_address = (\<lambda>i. if i = 0 then a DESC_IDX + 4096 else 0), cur_idx = 2\<rparr>"
    and d: "region_ok d" "persist d" "HEAPFILE d = region_file name DESC_IDX" "FILESIZE d = region_FILESIZE (region_size sz DESC_IDX)"
    "fetch_heap_start d = a DESC_IDX + 4096" "curr_addr d = a DESC_IDX + 4096 + region_size sz DESC_IDX" "base_addr d = a DESC_IDX"
    using create_regions [OF os sz0 sz(2), of t name] unfolding sb_def [symmetric] by blast
  obtain m where m: "new_RegionManager (os META_IDX) None t (region_file name META_IDX) (region_size sz META_IDX) True True = Inr m"
    "region_ok m" "FILESIZE m = region_FILESIZE (region_size sz META_IDX)" "fetch_heap_start m = a META_IDX + 4096"
    "HEAPFILE m = region_file name META_IDX" "persist m" "base_addr m = a META_IDX"
    using new_region [of "os META_IDX" "a META_IDX" "region_size sz META_IDX" t "region_file name META_IDX" True]
      o [of META_IDX] rs(6-8) [of META_IDX] by auto
  define this where "this = a META_IDX + 4096"
  let ?m = "(mem (heap p))(last_byte sb := 0)"
  define s1 where "s1 = (heap p)\<lparr>mem := ?m, rgs := \<lparr>regions = (regions new_Regions)(0 := d, 1 := sb, 2 := m),
      regions_address = (\<lambda>i. if i = 0 then a DESC_IDX + 4096 else 0), cur_idx = 2\<rparr>\<rparr>"
  have page: "unat (a i + 4096) = unat (a i) + 4096" for i using o(6) [of i] by (subst unat_plus64) simp_all
  have nz: "a i + 4096 \<noteq> 0" for i using page [of i] by auto
  have m64: "(unat (a i) + 4096) mod 64 = 0" for i
  proof -
    have "64 dvd unat (a i)" using o(5) [of i] dvd_trans [of 64 4096 "unat (a i)"] by (simp add: dvd_eq_mod_eq_0)
    then have "64 dvd unat (a i) + 4096" by (intro dvd_add) simp_all
    then show ?thesis by (simp add: dvd_eq_mod_eq_0)
  qed
  have sb: "region_ok sb" "curr_addr sb = a SB_IDX + 4096" "base_addr sb = a SB_IDX"
    "unat (FILESIZE sb) = 65536 * (unat sz div 65536) + 8192"
    using mapped_region_ok(2,3) [OF o(4,5), of SB_IDX "region_size sz SB_IDX"] o(6) [of SB_IDX] rs(8) [of SB_IDX] rs(4)
      region_FILESIZE_unat [of "region_size sz SB_IDX"] by (simp_all add: sb_def)
  have n: "16385 \<le> unat sz div 65536" using div_le_mono [OF sz(1), of 65536] by simp
  have "init_ready this s1"
  proof -
    have "sb_region s1 = sb" "lookup (rgs s1) DESC_IDX = a DESC_IDX + 4096" "regions (rgs s1) 0 = d"
      "t_caches s1 = t_caches (heap p)"
      by (simp_all add: sb_region_def s1_def lookup_def)
    moreover have "align_up 16 (unat (curr_addr sb)) + 2 ^ 30 \<le> unat (base_addr sb) + unat (FILESIZE sb)"
      using align_up_page [OF o(5), of SB_IDX] n unfolding sb page by simp
    moreover have "unat (curr_addr d) = unat (a DESC_IDX) + 4096 + 64 * (unat sz div 65536)"
      unfolding d(6) using page [of DESC_IDX] rs(2,3) o(6) [of DESC_IDX] by (subst unat_plus64) simp_all
    ultimately show ?thesis
      using sb page nz m64 o(6) [of DESC_IDX] o(6) [of META_IDX] rs(2) caches
      unfolding init_ready_def by (simp add: this_def desc_end_ok_def)
  qed
  then obtain s2 q where s2: "new_BaseMeta this s1 = Inr s2" "heap_rep a_init (set_meta this s2)" "\<forall>i < 1024. roots s2 i = 0"
    "dirty_mtx s2 = Mtx_held" "cur_idx (rgs s2) = 2" "unat q = align_up 16 (unat (curr_addr (sb_region s1)))"
    "rgs (set_meta this s2) = rgs (set_meta this (s1\<lparr>rgs := warm_rgs q (rgs s1)\<rparr>))"
    using new_BaseMeta_rep [of this s1] by (auto simp: s1_def)
  define s' where "s' = s2\<lparr>rgs := (rgs s2)\<lparr>regions_address := (regions_address (rgs s2))(2 := this), cur_idx := 3\<rparr>\<rparr>"
  have "create_for_BaseMeta (os META_IDX) None t (region_file name META_IDX) (region_size sz META_IDX) True
      ((heap p)\<lparr>rgs := \<lparr>regions = (regions new_Regions)(0 := d, 1 := sb), regions_address = (\<lambda>i. if i = 0 then a DESC_IDX + 4096 else 0), cur_idx = 2\<rparr>, mem := ?m\<rparr>)
    = Inr (this, s')"
    using m(1,4) s2(1,5) by (simp add: create_for_BaseMeta_def Let_def this_def s1_def s'_def numeral_3_eq_3)
  then have "do_RP_init os t name sz p = Inr (0, p\<lparr>initialized := True, heap := s'\<rparr>)"
    using r1 new [of DESC_IDX] new [of SB_IDX] new [of META_IDX] sz(2) sz0
    by (simp add: do_RP_init_def sizeof_Descriptor_def region_file.simps region_size.simps write_last_byte_def)
  moreover have hr: "heap_rep a_init s'"
    using s2(2) by (rule same_regions_rep) (simp_all add: s'_def set_meta_def a_init_simps)
  moreover have "heap_files name sz (rgs s') \<and> (\<forall>i. base_addr (regions (rgs s') (ridx i)) = a i)
    \<and> unat (lookup (rgs s') SB_IDX) = align_up 16 (unat (a SB_IDX) + 4096)"
  proof -
    have r: "regions (rgs s') = (regions new_Regions)(0 := d, 1 := store_heap_start q (advance (q + 1073741824) sb), 2 := m)"
      "regions_address (rgs s') = (\<lambda>i. if i = 0 then a DESC_IDX + 4096 else 0)(1 := q, 2 := this)"
      using arg_cong [OF s2(7), of regions] arg_cong [OF s2(7), of regions_address]
      by (auto simp: s'_def set_meta_def warm_rgs_def s1_def fun_eq_iff)
    have "region_ok (regions (rgs s') 1)"
      using layout_okD(1) [OF repD(1), of a_init s'] hr by (simp add: heap_rep_def sb_region_def)
    then have "region_ok (regions (rgs s') (ridx i)) \<and> persist (regions (rgs s') (ridx i))
        \<and> HEAPFILE (regions (rgs s') (ridx i)) = region_file name i \<and> FILESIZE (regions (rgs s') (ridx i)) = region_FILESIZE (region_size sz i)
        \<and> fetch_heap_start (regions (rgs s') (ridx i)) = regions_address (rgs s') (ridx i)
        \<and> (i \<noteq> SB_IDX \<longrightarrow> regions_address (rgs s') (ridx i) = base_addr (regions (rgs s') (ridx i)) + 4096)" for i
      using d m(2-7) by (cases i) (simp_all add: r this_def sb_def)
    moreover have "base_addr (regions (rgs s') (ridx i)) = a i" for i
      using d m(7) sb by (cases i) (simp_all add: r)
    moreover have "unat (lookup (rgs s') SB_IDX) = align_up 16 (unat (a SB_IDX) + 4096)"
      using s2(6) sb(2) page [of SB_IDX] by (simp add: lookup_def r sb_region_def s1_def)
    ultimately show ?thesis by (simp add: heap_files_def s'_def)
  qed
  moreover have "roots s' = roots s2" "dirty_mtx s' = dirty_mtx s2" by (simp_all add: s'_def)
  ultimately show ?thesis using s2(3,4) by (intro exI [of _ s']) simp
qed

text \<open>
  The bytes that \<^verbatim>\<open>RP_init\<close> clears at the end of the descriptor file and of the metadata file lie
  behind the descriptors of all superblocks and behind \<^verbatim>\<open>BaseMeta\<close>.
\<close>

lemma last_byte_unat:
  assumes "region_ok rm" and "0 < unat (FILESIZE rm)"
  shows "unat (last_byte rm) = unat (base_addr rm) + unat (FILESIZE rm) - 1"
proof -
  have "unat (FILESIZE rm - 1) = unat (FILESIZE rm) - 1" using assms(2) by (subst unat_sub) (simp_all add: word_le_nat_alt)
  then show ?thesis unfolding last_byte_def using region_okD(3) [OF assms(1)] assms(2) by (subst unat_plus64) simp_all
qed

lemma last_bytes_behind:
  assumes "heap_files name sz (rgs s)" and "layout_ok s" and "MIN_SB_REGION_SIZE \<le> sz" and "sz < MAX_SB_REGION_SIZE"
  shows "unat (lookup (rgs s) DESC_IDX) + 64 * sb_cap s \<le> unat (last_byte (regions (rgs s) (ridx DESC_IDX)))"
    and "unat (lookup (rgs s) META_IDX) + sizeof_BaseMeta \<le> unat (last_byte (regions (rgs s) (ridx META_IDX)))"
proof -
  note rs = region_sizes [OF assms(3,4)]
  have fs: "unat (FILESIZE (regions (rgs s) (ridx i))) = (unat (region_size sz i) div 4096 + 2) * 4096" for i
    unfolding heap_filesD(5) [OF assms(1)] using rs(8) [of i] by (intro region_FILESIZE_unat) simp
  have lb: "unat (last_byte (regions (rgs s) (ridx i)))
      = unat (base_addr (regions (rgs s) (ridx i))) + (unat (region_size sz i) div 4096 * 4096 + 8191)" for i
    using last_byte_unat [OF heap_filesD(2) [OF assms(1)], of i] unfolding fs by simp
  have lk: "unat (lookup (rgs s) i) = unat (base_addr (regions (rgs s) (ridx i))) + 4096" if "i \<noteq> SB_IDX" for i
    unfolding lookup_def heap_filesD(7) [OF assms(1) that]
    using region_okD(3) [OF heap_filesD(2) [OF assms(1)], of i] by (subst unat_plus64) simp_all
  note L = layout_okD [OF assms(2)]
  have "sb_cap s \<le> (unat (FILESIZE (sb_region s)) - 4096) div 65536"
    unfolding sb_cap_def using L(3) by (intro div_le_mono) simp
  also have "unat (FILESIZE (sb_region s)) = 65536 * (unat sz div 65536) + 8192"
    using fs [of SB_IDX] rs(4) by (simp add: sb_region_def)
  finally have "sb_cap s \<le> unat sz div 65536" by simp
  moreover have "64 * (unat sz div 65536) < 64 * (unat sz div 65536) div 4096 * 4096 + 4096"
    using div_mult_mod_eq [of "64 * (unat sz div 65536)" 4096] mod_less_divisor [of 4096 "64 * (unat sz div 65536)"] by linarith
  ultimately show "unat (lookup (rgs s) DESC_IDX) + 64 * sb_cap s \<le> unat (last_byte (regions (rgs s) (ridx DESC_IDX)))"
    unfolding lb using lk [of DESC_IDX] rs(3) by simp
  show "unat (lookup (rgs s) META_IDX) + sizeof_BaseMeta \<le> unat (last_byte (regions (rgs s) (ridx META_IDX)))"
    unfolding lb using lk [of META_IDX] rs(5) by (simp add: sizeof_BaseMeta_def)
qed

text \<open>Operations keep the files of the heap.\<close>

lemma heap_files_keep:
  assumes "heap_files name sz (rgs s)" and geo: "same_geom s s'" and "layout_ok s'"
  shows "heap_files name sz (rgs s')"
proof -
  note f = heap_filesD [OF assms(1)] and g = geo [unfolded same_geom_def sb_region_def]
  have r: "regions (rgs s') (ridx i) = regions (rgs s) (ridx i)" if "i \<noteq> SB_IDX" for i using g that by (cases i) auto
  have sb: "region_ok (regions (rgs s') (ridx SB_IDX))" using layout_okD(1) [OF assms(3)] by (simp add: sb_region_def)
  have "region_ok (regions (rgs s') (ridx i)) \<and> persist (regions (rgs s') (ridx i))
      \<and> HEAPFILE (regions (rgs s') (ridx i)) = region_file name i \<and> FILESIZE (regions (rgs s') (ridx i)) = region_FILESIZE (region_size sz i)
      \<and> fetch_heap_start (regions (rgs s') (ridx i)) = regions_address (rgs s') (ridx i)
      \<and> (i \<noteq> SB_IDX \<longrightarrow> regions_address (rgs s') (ridx i) = base_addr (regions (rgs s') (ridx i)) + 4096)" for i
  proof (cases "i = SB_IDX")
    case True
    then show ?thesis using sb g f(3-6) [of SB_IDX] by (simp add: fetch_heap_start_def)
  next
    case False
    then show ?thesis using r [OF False] f(2-7) [of i] g by simp
  qed
  then show ?thesis using f(1) g by (simp add: heap_files_def)
qed

subsection \<open>Shutdown\<close>

lemma delete_RallocHolder_ok:
  assumes hr: "heap_rep g (heap w)" and files: "heap_files name sz (rgs (heap w))" and none: "\<And>t c. a_cache g t c = []"
  shows "\<exists>w1 s. delete_RallocHolder w = Inr w1 \<and> heap_rep g s \<and> rgs s = rgs (heap w) \<and> mem s = mem (heap w)
    \<and> roots s = roots (heap w) \<and> dirty_mtx s = mutex_unlock (dirty_mtx (heap w)) \<and> wb s = [] \<and> heap w1 = s\<lparr>rgs := rgs (heap w1)\<rparr>
    \<and> (\<forall>i. files w1 (region_file name i) = Some (hdr (regions (rgs (heap w)) (ridx i))))"
proof -
  let ?s = "heap w" and ?r = "rgs (heap w)"
  have rep: "rep g ?s" and inv: "ainv g" using hr by (simp_all add: heap_rep_def)
  obtain s1 where s1: "gc_flush ?s = Inr s1" "rep g s1" "same_rest ?s s1" "s1 = ?s\<lparr>pm := pm s1\<rparr>"
    using gc_flush_rep [OF rep] by blast
  obtain ds xs where fl: "flush_region FLUSH_FUEL ?r DESC_IDX = Some ds" "flush_region FLUSH_FUEL ?r SB_IDX = Some xs"
    and s1': "s1 = FLUSHFENCE (writeback_loop (sizeof_BaseMeta div unat CACHELINE_SIZE) (base_md ?s) (base_md ?s)
      (FLUSHFENCE (fold flush_desc ds ?s)))"
    using s1(1) by (auto simp: gc_flush_def Let_def split: option.splits)
  have three: "[0..<3] = [0, 1, 2 :: nat]" by (simp add: upt_rec)
  define s where "s = set_clean s1"
  have "FLUSHFENCE (FLUSHFENCE x) = FLUSHFENCE x" for x by (simp add: FLUSHFENCE_def)
  moreover have "rgs (fold flush_desc xs x) = rgs x" for xs x by (simp add: fold_flush_desc)
  ultimately have wr: "writeback (base_md (FLUSHFENCE (fold flush_desc ds ?s))) (FLUSHFENCE (FLUSHFENCE (fold flush_desc ds ?s))) = s"
    by (simp add: writeback_def s_def s1' base_md_def)
  have s: "rgs s = ?r" "mem s = mem ?s" "roots s = roots ?s" "dirty_mtx s = mutex_unlock (dirty_mtx ?s)" "wb s = []"
    using s1(3) repD(3) [OF s1(2)] by (simp_all add: s_def set_clean_def same_rest_def)
  have "heap_rep g s1" using s1(2) inv by (simp add: heap_rep_def)
  then have "heap_rep g s" by (rule same_regions_rep) (simp_all add: s_def set_clean_def none)
  moreover have "delete_RallocHolder w = Inr (w\<lparr>initialized := False, heap := s\<lparr>rgs := snd (regions_destroy ?r)\<rparr>,
      files := fold (\<lambda>i f. f(HEAPFILE (regions ?r i) := fst (regions_destroy ?r) i)) [0..<3] (files w)\<rparr>)"
    using fl wr s(1) heap_filesD(1) [OF files] by (simp add: delete_RallocHolder_def Let_def split: prod.splits)
  moreover have "fold (\<lambda>i f. f(HEAPFILE (regions ?r i) := fst (regions_destroy ?r) i)) [0..<3] (files w) (region_file name i)
      = Some (hdr (regions ?r (ridx i)))" for i
    using heap_filesD(1,3,4) [OF files] heap_filesD(3,4) [OF files, of DESC_IDX] heap_filesD(3,4) [OF files, of SB_IDX]
      heap_filesD(3,4) [OF files, of META_IDX]
    by (cases i) (simp_all add: regions_destroy_def delete_RegionManager_def close_persistent_region_def region_file.simps three)
  ultimately show ?thesis using s by (intro exI [of _ "w\<lparr>initialized := False, heap := s\<lparr>rgs := snd (regions_destroy ?r)\<rparr>,
      files := fold (\<lambda>i f. f(HEAPFILE (regions ?r i) := fst (regions_destroy ?r) i)) [0..<3] (files w)\<rparr>"] exI [of _ s]) simp
qed

end
