(* ===== verification/Reopen.thy ===== *)
theory Reopen
  imports ApiOpen
begin

text \<open>
  The next process. The operating system maps the files that an orderly shutdown has left at
  addresses of its choice; \<^verbatim>\<open>RP_init\<close> finds them, clears the last byte of each and changes nothing
  else. The heap is the old one at its new place when that byte was not in use and the superblocks
  keep their alignment; both conditions are needed.
\<close>

subsection \<open>The files at other addresses\<close>

text \<open>
  \<open>remapped a r s\<close>: the bytes of the files, which \<open>s\<close> has at the addresses of the regions \<open>r\<close>, at
  the addresses \<open>a\<close>; the thread caches and the recorded types of the roots belong to the
  process that has gone.
\<close>

definition remapped :: "(RegionIndex \<Rightarrow> addr) \<Rightarrow> Regions \<Rightarrow> ralloc_state \<Rightarrow> ralloc_state" where
  "remapped a r s =
     (let old = (\<lambda>i x. x + (base_addr (regions r (ridx i)) - a i)) in
      s\<lparr>descs := descs s \<circ> old DESC_IDX, heaps := heaps s \<circ> old META_IDX, mem := mem s \<circ> old SB_IDX,
        pm := (pm s)\<lparr>pm_descs := pm_descs (pm s) \<circ> old DESC_IDX, pm_heaps := pm_heaps (pm s) \<circ> old META_IDX\<rparr>,
        t_caches := (\<lambda>_ _. new_TCacheBin), roots_filter_func := (\<lambda>_. None)\<rparr>)"

definition next_process :: "(RegionIndex \<Rightarrow> addr) \<Rightarrow> Regions \<Rightarrow> process \<Rightarrow> process" where
  "next_process a r w = \<lparr>initialized = False, init_ret_val = None, heap = remapped a r (heap w), files = files w\<rparr>"

definition reopened_region :: "addr \<Rightarrow> RegionManager \<Rightarrow> RegionManager" where
  "reopened_region a rm = rm\<lparr>base_addr := a, phdr := hdr rm\<rparr>"

definition reopened :: "(RegionIndex \<Rightarrow> addr) \<Rightarrow> Regions \<Rightarrow> Regions" where
  "reopened a r =
     \<lparr>regions = (regions new_Regions)(0 := reopened_region (a DESC_IDX) (regions r 0),
        1 := reopened_region (a SB_IDX) (regions r 1), 2 := reopened_region (a META_IDX) (regions r 2)),
      regions_address = (\<lambda>_. 0)(0 := fetch_heap_start (reopened_region (a DESC_IDX) (regions r 0)),
        1 := fetch_heap_start (reopened_region (a SB_IDX) (regions r 1)),
        2 := fetch_heap_start (reopened_region (a META_IDX) (regions r 2))), cur_idx = 3\<rparr>"

lemma reopened_simps:
  "regions (reopened a r) (ridx i) = reopened_region (a i) (regions r (ridx i))"
  "lookup (reopened a r) i = h_start (hdr (regions r (ridx i))) + a i"
  "regions_address (reopened a r) (ridx i) = h_start (hdr (regions r (ridx i))) + a i"
  by (cases i; simp add: reopened_def lookup_def fetch_heap_start_def reopened_region_def)+

lemma reopened_region_simps [simp]:
  "hdr (reopened_region a rm) = hdr rm" "FILESIZE (reopened_region a rm) = FILESIZE rm" "base_addr (reopened_region a rm) = a"
  "HEAPFILE (reopened_region a rm) = HEAPFILE rm" "persist (reopened_region a rm) = persist rm"
  by (simp_all add: reopened_region_def)

lemma reopen_manager:
  assumes os: "os_maps os a" and files: "heap_files name sz r" and sz: "MIN_SB_REGION_SIZE \<le> sz" "sz < MAX_SB_REGION_SIZE"
  shows "new_RegionManager (os i) (Some (hdr (regions r (ridx i)))) t (region_file name i) (region_size sz i) True imm
    = Inr (reopened_region (a i) (regions r (ridx i)))"
proof -
  note f = heap_filesD(1) [OF files] heap_filesD(2-6) [OF files, of i]
  have "\<lparr>FILESIZE = region_FILESIZE (region_size sz i), HEAPFILE = region_file name i, base_addr = a i,
      hdr = hdr (regions r (ridx i)), phdr = hdr (regions r (ridx i)), persist = True\<rparr> = reopened_region (a i) (regions r (ridx i))"
    using f(3-5) by (cases "regions r (ridx i)") (simp add: reopened_region_def)
  then show ?thesis
    using os_mapsD(1-3) [OF os, of i] region_sizes(6) [OF sz, of i] region_okD(7) [OF f(2)] f(5)
    by (simp add: new_RegionManager_def remap_persistent_region_def Let_def)
qed

lemma do_RP_init_reopen:
  assumes os: "os_maps os a" and files: "heap_files name sz r" and sz: "MIN_SB_REGION_SIZE \<le> sz" "sz < MAX_SB_REGION_SIZE"
    and hs: "\<And>i. files p (region_file name i) = Some (hdr (regions r (ridx i)))"
  shows "do_RP_init os t name sz p = Inr (1, p\<lparr>initialized := True,
    heap := (heap p)\<lparr>mem := (mem (heap p))(last_byte (reopened_region (a SB_IDX) (regions r 1)) := 0), rgs := reopened a r\<rparr>\<rparr>)"
proof -
  note m = reopen_manager [OF os files sz]
  let ?d = "reopened_region (a DESC_IDX) (regions r 0)" and ?s = "reopened_region (a SB_IDX) (regions r 1)"
  let ?r1 = "\<lparr>regions = (regions new_Regions)(0 := ?d), regions_address = (\<lambda>_. 0)(0 := fetch_heap_start ?d), cur_idx = 1\<rparr>"
  let ?r2 = "\<lparr>regions = (regions new_Regions)(0 := ?d, 1 := ?s),
    regions_address = (\<lambda>_. 0)(0 := fetch_heap_start ?d, 1 := fetch_heap_start ?s), cur_idx = 2\<rparr>"
  let ?m = "(mem (heap p))(last_byte ?s := 0)"
  have "regions_create (os DESC_IDX) (files p (region_file name DESC_IDX)) t (region_file name DESC_IDX) (region_size sz DESC_IDX) True True new_Regions
      = Inr ?r1"
    using m [of DESC_IDX t True] by (simp add: regions_create_def hs new_Regions_def)
  moreover have "regions_create (os SB_IDX) (files p (region_file name SB_IDX)) t (region_file name SB_IDX) (region_size sz SB_IDX) True False ?r1 = Inr ?r2"
    using m [of SB_IDX t False] by (simp add: regions_create_def hs)
  moreover have "create_for_BaseMeta (os META_IDX) (files p (region_file name META_IDX)) t (region_file name META_IDX) (region_size sz META_IDX) True
      ((heap p)\<lparr>rgs := ?r2, mem := ?m\<rparr>)
    = Inr (fetch_heap_start (reopened_region (a META_IDX) (regions r 2)), (heap p)\<lparr>mem := ?m, rgs := reopened a r\<rparr>)"
    using m [of META_IDX t True] by (simp add: create_for_BaseMeta_def Let_def hs reopened_def)
  moreover have "files p (region_file name META_IDX) \<noteq> None" by (simp add: hs)
  ultimately show ?thesis
    using sz by (simp add: do_RP_init_def sizeof_Descriptor_def region_file.simps region_size.simps write_last_byte_def)
qed

subsection \<open>Layout\<close>

text \<open>
  The superblocks keep their alignment only when the file is mapped at an address that agrees
  with the old one modulo the size of a superblock; \<^verbatim>\<open>mmap\<close> promises this for pages only.
\<close>

definition same_alignment :: "(RegionIndex \<Rightarrow> addr) \<Rightarrow> Regions \<Rightarrow> bool" where
  "same_alignment a r \<longleftrightarrow> unat (a SB_IDX) mod 65536 = unat (base_addr (regions r (ridx SB_IDX))) mod 65536"

lemma reopened_region_ok:
  fixes i :: RegionIndex
  assumes os: "os_maps os a" and files: "heap_files name sz r" and sz: "MIN_SB_REGION_SIZE \<le> sz" "sz < MAX_SB_REGION_SIZE"
  defines "rm \<equiv> regions r (ridx i)"
  shows "region_ok (reopened_region (a i) rm)"
    and "unat (curr_addr (reopened_region (a i) rm)) = unat (a i) + (unat (curr_addr rm) - unat (base_addr rm))"
    and "unat (a i) + unat (FILESIZE rm) < 2 ^ 47" and "unat (FILESIZE rm) \<le> unat (region_size sz i) + 8192"
proof -
  note f = heap_filesD(2,5) [OF files, of i, folded rm_def]
  have "unat (region_FILESIZE (region_size sz i)) = (unat (region_size sz i) div 4096 + 2) * 4096"
    using region_sizes(8) [OF sz, of i] by (intro region_FILESIZE_unat) simp
  moreover have "unat (region_size sz i) div 4096 * 4096 \<le> unat (region_size sz i)" by simp
  ultimately show fs: "unat (FILESIZE rm) \<le> unat (region_size sz i) + 8192" using f(2) by simp
  show b: "unat (a i) + unat (FILESIZE rm) < 2 ^ 47" using os_mapsD(6) [OF os, of i] fs region_sizes(8) [OF sz, of i] by simp
  show "region_ok (reopened_region (a i) rm)"
    "unat (curr_addr (reopened_region (a i) rm)) = unat (a i) + (unat (curr_addr rm) - unat (base_addr rm))"
    using region_moved(2,3) [OF f(1), of "reopened_region (a i) rm"] os_mapsD(4,5) [OF os, of i] b by simp_all
qed

lemma shift_mod:
  assumes "x mod 65536 = (y :: nat) mod 65536"
  shows "(x + d) mod 65536 = (y + d) mod 65536"
  using assms by (metis mod_add_left_eq)

lemma page_mod: "x mod 4096 = 0 \<Longrightarrow> (x + 4096) mod 64 = (0 :: nat)"
proof -
  assume "x mod 4096 = 0"
  then have "64 dvd x" using dvd_trans [of 64 4096 x] by (simp add: dvd_eq_mod_eq_0)
  then have "64 dvd x + 4096" by (intro dvd_add) simp_all
  then show "(x + 4096) mod 64 = 0" by (simp add: dvd_eq_mod_eq_0)
qed

text \<open>The start of the superblocks in the old and in the new mapping.\<close>

lemma reopened_start:
  assumes os: "os_maps os a" and files: "heap_files name sz (rgs s)" and sz: "MIN_SB_REGION_SIZE \<le> sz" "sz < MAX_SB_REGION_SIZE"
    and lay: "layout_ok s"
  defines "h \<equiv> unat (h_start (hdr (sb_region s)))"
  shows "unat (lookup (rgs s) SB_IDX) = unat (base_addr (sb_region s)) + h"
    and "unat (lookup (reopened a (rgs s)) SB_IDX) = unat (a SB_IDX) + h"
proof -
  note L = layout_okD [OF lay] and f = heap_filesD(6) [OF files, of SB_IDX]
  have "h_start (hdr (sb_region s)) = lookup (rgs s) SB_IDX - base_addr (sb_region s)"
    using f [symmetric] by (simp add: fetch_heap_start_def lookup_def sb_region_def)
  then have h: "h = unat (lookup (rgs s) SB_IDX) - unat (base_addr (sb_region s))"
    using L(3) by (simp add: h_def unat_sub word_le_nat_alt)
  then show "unat (lookup (rgs s) SB_IDX) = unat (base_addr (sb_region s)) + h" using L(3) by simp
  have "unat (a SB_IDX) + h < 2 ^ 64"
    using h L(4) region_okD(6) [OF L(1)] reopened_region_ok(3) [OF os files sz, of SB_IDX] by (simp add: sb_region_def)
  then show "unat (lookup (reopened a (rgs s)) SB_IDX) = unat (a SB_IDX) + h"
    unfolding reopened_simps(2) h_def by (simp add: sb_region_def add.commute unat_plus64)
qed

lemma reopened_moved:
  assumes os: "os_maps os a" and files: "heap_files name sz r" and sz: "MIN_SB_REGION_SIZE \<le> sz" "sz < MAX_SB_REGION_SIZE"
    and al: "same_alignment a r" and hr: "heap_rep g s" and s: "rgs s = r" and none: "\<And>t c. a_cache g t c = []"
  defines "s' \<equiv> (remapped a r s)\<lparr>rgs := reopened a r\<rparr>"
  shows "moved g s s'"
proof -
  have rep: "rep g s" using hr by (simp add: heap_rep_def)
  note lay = repD(1) [OF rep] and o = os_mapsD [OF os] and ok = reopened_region_ok [OF os files sz]
  note L = layout_okD [OF lay]
  have lk: "lookup r i = h_start (hdr (regions r (ridx i))) + base_addr (regions r (ridx i))"
    "lookup (rgs s') i = h_start (hdr (regions r (ridx i))) + a i" for i
    using heap_filesD(6) [OF files, of i] by (simp_all add: lookup_def fetch_heap_start_def s'_def reopened_simps)
  have start: "lookup (rgs s') i = a i + 4096" if "i \<noteq> SB_IDX" for i
    using heap_filesD(7) [OF files that] lk [of i] by (simp add: lookup_def)
  have page: "unat (a i + 4096) = unat (a i) + 4096" for i using o(6) [of i] by (subst unat_plus64) simp_all
  define h where "h = h_start (hdr (regions r (ridx SB_IDX)))"
  let ?sb = "sb_region s" and ?b = "unat (base_addr (sb_region s))"
  have sb: "regions r (ridx SB_IDX) = ?sb" "sb_region s' = reopened_region (a SB_IDX) ?sb"
    using reopened_simps(1) [of a r SB_IDX] by (simp_all add: sb_region_def s s'_def)
  have st: "unat (lookup r SB_IDX) = ?b + unat h" "unat (lookup (rgs s') SB_IDX) = unat (a SB_IDX) + unat h"
    using reopened_start [OF os _ sz lay] files sb(1) by (simp_all add: s h_def s'_def)
  note bl = st(1) and ls = st(2)
  have curr: "unat (curr_addr (sb_region s')) = unat (a SB_IDX) + (unat (curr_addr ?sb) - ?b)" using ok(2) [of SB_IDX] sb by simp
  have le: "unat h \<le> unat (curr_addr ?sb) - ?b" using bl L(4) s by simp
  have "?b + unat (FILESIZE ?sb) - unat (lookup r SB_IDX) = unat (FILESIZE ?sb) - unat h" using bl by simp
  moreover have "unat (base_addr (sb_region s')) + unat (FILESIZE (sb_region s')) - unat (lookup (rgs s') SB_IDX) = unat (FILESIZE ?sb) - unat h"
    using ls sb(2) by simp
  ultimately have cap: "sb_cap s' = sb_cap s" by (simp add: sb_cap_def s)
  have num: "sb_num s' = sb_num s"
    using bl ls curr le by (simp add: sb_num_def s)
  have al': "unat (a SB_IDX) mod 65536 = ?b mod 65536" using al sb(1) by (simp add: same_alignment_def)
  have fs: "unat (FILESIZE (regions r (ridx DESC_IDX))) \<le> 1073750016"
    using ok(4) [of DESC_IDX] region_sizes(2,3) [OF sz] by simp
  have "layout_ok s'"
    unfolding layout_ok_def
  proof (intro conjI)
    show "region_ok (sb_region s')" using ok(1) [of SB_IDX] sb by simp
    show "unat (base_addr (sb_region s')) + 4096 \<le> unat (lookup (rgs s') SB_IDX)" using ls sb(2) bl L(3) s by simp
    show "unat (lookup (rgs s') SB_IDX) \<le> unat (curr_addr (sb_region s'))" using ls curr le by simp
    show "unat (lookup (rgs s') SB_IDX) mod 65536 = 0"
      using shift_mod [OF al', of "unat h"] L(2) bl ls s by simp
    have "?b + (unat (curr_addr ?sb) - ?b) = unat (curr_addr ?sb)" using region_okD(5) [OF L(1)] by simp
    then show "unat (curr_addr (sb_region s')) mod 65536 = 0"
      unfolding curr shift_mod [OF al'] using L(5) by simp
    show "lookup (rgs s') DESC_IDX \<noteq> 0" "base_md s' \<noteq> 0"
      using start [of DESC_IDX] start [of META_IDX] page [of DESC_IDX] page [of META_IDX] by (auto simp: base_md_def)
    show "unat (lookup (rgs s') DESC_IDX) mod 64 = 0" "unat (base_md s') mod 64 = 0"
      using page_mod [OF o(5)] start page by (simp_all add: base_md_def)
    show "unat (lookup (rgs s') DESC_IDX) + 64 * sb_cap s' < 2 ^ 47" "unat (base_md s') + 10816 < 2 ^ 47"
      using start page o(6) [of DESC_IDX] o(6) [of META_IDX] L(12) cap by (simp_all add: base_md_def)
    show "sb_cap s' \<le> 2 ^ 24" using L(12) cap by simp
    have "regions (rgs s') (ridx DESC_IDX) = reopened_region (a DESC_IDX) (regions r (ridx DESC_IDX))"
      using reopened_simps(1) [of a r DESC_IDX] by (simp add: s'_def)
    then show "desc_end_ok (rgs s')"
      using ok(2,3) [of DESC_IDX] region_okD(6) [OF heap_filesD(2) [OF files], of DESC_IDX] start [of DESC_IDX] page [of DESC_IDX] fs
      unfolding desc_end_ok_def by simp linarith
  qed
  moreover have "relocated s s'"
    using lk by (simp add: relocated_def s'_def remapped_def Let_def s base_md_def algebra_simps)
  ultimately show ?thesis
    using hr repD(3) [OF rep] num none by (simp add: moved_def s'_def remapped_def Let_def new_TCacheBin_def)
qed

subsection \<open>Properties\<close>

text \<open>
  C12. A new heap. When none of its files exists and the operating system maps them, \<^verbatim>\<open>RP_init\<close>
  with a size from \<open>2 ^ 30 + 2 ^ 16\<close> to \<open>2 ^ 40\<close> bytes returns 0 and leaves a well-formed heap
  without live blocks and with null roots, ready for use and marked dirty; a second call
  changes nothing and returns the same value.
\<close>

theorem RP_init_new:
  assumes "os_maps os a" and "2 ^ 30 + 2 ^ 16 \<le> unat sz" and "sz < MAX_SB_REGION_SIZE" and "init_ret_val p = None"
    and "\<And>i. files p (region_file name i) = None" and "\<And>t c. tc_block_num (t_caches (heap p) t c) = 0"
  shows "\<exists>g p'. RP_init os t name sz p = Inr (0, p') \<and> initialized p' \<and> heap_rep g (heap p') \<and> live g (heap p') = {}
    \<and> (\<forall>t c. a_cache g t c = []) \<and> (\<forall>i < MAX_ROOTS. cross_is_null (roots (heap p') i)) \<and> dirty_mtx (heap p') = Mtx_held
    \<and> heap_files name sz (rgs (heap p')) \<and> (\<forall>i. base_addr (regions (rgs (heap p')) (ridx i)) = a i)
    \<and> RP_init os' t' name' sz' p' = Inr (0, p')"
proof -
  obtain s' where s': "do_RP_init os t name sz p = Inr (0, p\<lparr>initialized := True, heap := s'\<rparr>)" "heap_rep a_init s'"
    "\<forall>i < 1024. roots s' i = 0" "dirty_mtx s' = Mtx_held" "heap_files name sz (rgs s')" "\<forall>i. base_addr (regions (rgs s') (ridx i)) = a i"
    using do_RP_init_fresh [OF assms(1-3,5,6), of t] by blast
  then show ?thesis
    using assms(4)
    by (intro exI [of _ a_init] exI [of _ "p\<lparr>initialized := True, heap := s', init_ret_val := Some 0\<rparr>"])
      (simp add: RP_init_def cross_is_null_def a_init_simps)
qed

text \<open>Five gibibytes, at the addresses of the sample heap.\<close>

definition sample_process :: process where
  "sample_process = \<lparr>initialized = False, init_ret_val = None, heap = sample_state, files = Map.empty\<rparr>"

fun sample_addr :: "RegionIndex \<Rightarrow> addr" where
  "sample_addr DESC_IDX = 0x600000000000"
| "sample_addr SB_IDX = 0x550000000000"
| "sample_addr META_IDX = 0x610000000000"

definition sample_os_at :: "(RegionIndex \<Rightarrow> addr) \<Rightarrow> RegionIndex \<Rightarrow> os_result" where
  "sample_os_at a i = \<lparr>os_lseek_ok = True, os_write_ok = True, os_mmap = Some (a i)\<rparr>"

lemma sample_os_maps: "os_maps (sample_os_at sample_addr) sample_addr"
proof -
  have "sample_addr i \<noteq> 0 \<and> unat (sample_addr i) mod 4096 = 0 \<and> unat (sample_addr i) + 2 ^ 40 + 2 ^ 20 < 2 ^ 47" for i
    by (cases i) simp_all
  then show ?thesis by (simp add: os_maps_def sample_os_at_def)
qed

lemma sample_process_simps:
  "init_ret_val sample_process = None" "files sample_process f = None" "tc_block_num (t_caches (heap sample_process) t c) = 0"
  by (simp_all add: sample_process_def sample_state_def new_TCacheBin_def)

theorem RP_init_new_witness:
  "\<exists>g p'. RP_init (sample_os_at sample_addr) 0 ''app'' 0x140000000 sample_process = Inr (0, p') \<and> initialized p'
    \<and> heap_rep g (heap p') \<and> live g (heap p') = {}"
  using RP_init_new [OF sample_os_maps, where sz = "0x140000000" and p = sample_process and name = "''app''" and t = 0
      and os' = "sample_os_at sample_addr" and t' = 0 and name' = "''app''" and sz' = 0] sample_process_simps by auto

subsection \<open>Restart after an orderly shutdown\<close>

text \<open>The heap after \<^verbatim>\<open>RP_init\<close>: moved, and with the last byte of the superblock file cleared.\<close>

definition reopened_heap :: "(RegionIndex \<Rightarrow> addr) \<Rightarrow> ralloc_state \<Rightarrow> ralloc_state" where
  "reopened_heap a s = (remapped a (rgs s) s)\<lparr>rgs := reopened a (rgs s)\<rparr>"

abbreviation clear_byte :: "addr \<Rightarrow> ralloc_state \<Rightarrow> ralloc_state" where
  "clear_byte b s \<equiv> s\<lparr>mem := (mem s)(b := 0)\<rparr>"

lemma last_byte_reopened: "last_byte (reopened_region a rm) = last_byte rm + (a - base_addr rm)"
  by (simp add: last_byte_def)

lemma reopen_state:
  assumes hr: "heap_rep g (heap w)" and files: "heap_files name sz (rgs (heap w))" and none: "\<And>t c. a_cache g t c = []"
    and os: "os_maps os a" and sz: "MIN_SB_REGION_SIZE \<le> sz" "sz < MAX_SB_REGION_SIZE"
  shows "\<exists>w1 s w2. delete_RallocHolder w = Inr w1 \<and> heap_rep g s \<and> rgs s = rgs (heap w) \<and> mem s = mem (heap w)
    \<and> roots s = roots (heap w) \<and> dirty_mtx s = mutex_unlock (dirty_mtx (heap w))
    \<and> RP_init os t name sz (next_process a (rgs (heap w)) w1) = Inr (1, w2) \<and> initialized w2
    \<and> heap w2 = clear_byte (last_byte (reopened_region (a SB_IDX) (sb_region s))) (reopened_heap a s)"
proof -
  obtain w1 s where s: "delete_RallocHolder w = Inr w1" "heap_rep g s" "rgs s = rgs (heap w)" "mem s = mem (heap w)"
    "roots s = roots (heap w)" "dirty_mtx s = mutex_unlock (dirty_mtx (heap w))" "heap w1 = s\<lparr>rgs := rgs (heap w1)\<rparr>"
    and hs: "\<forall>i. files w1 (region_file name i) = Some (hdr (regions (rgs (heap w)) (ridx i)))"
    using delete_RallocHolder_ok [OF hr files none] by blast
  let ?p = "next_process a (rgs (heap w)) w1"
  let ?b = "last_byte (reopened_region (a SB_IDX) (regions (rgs (heap w)) 1))"
  let ?h = "(heap ?p)\<lparr>mem := (mem (heap ?p))(?b := 0), rgs := reopened a (rgs (heap w))\<rparr>"
  have "do_RP_init os t name sz ?p = Inr (1, ?p\<lparr>initialized := True, heap := ?h\<rparr>)"
    using hs by (intro do_RP_init_reopen [OF os files sz]) (simp add: next_process_def)
  moreover have "(heap ?p)\<lparr>rgs := reopened a (rgs (heap w))\<rparr> = reopened_heap a s"
    using arg_cong [OF s(7), of "\<lambda>x. (remapped a (rgs (heap w)) x)\<lparr>rgs := reopened a (rgs (heap w))\<rparr>"] s(3)
    by (simp add: next_process_def remapped_def reopened_heap_def)
  moreover have "?h = clear_byte ?b ((heap ?p)\<lparr>rgs := reopened a (rgs (heap w))\<rparr>)" by (cases "heap ?p") simp
  ultimately have "do_RP_init os t name sz ?p = Inr (1, ?p\<lparr>initialized := True, heap := ?h\<rparr>)"
    "?h = clear_byte (last_byte (reopened_region (a SB_IDX) (sb_region s))) (reopened_heap a s)"
    using s(3) by (simp_all add: sb_region_def)
  then show ?thesis
    using s by (intro exI [of _ w1] exI [of _ s]
        exI [of _ "?p\<lparr>initialized := True, heap := ?h, init_ret_val := Some 1\<rparr>"])
      (simp add: RP_init_def, simp add: next_process_def)
qed

text \<open>\<^verbatim>\<open>RP_recover\<close> on a heap that was shut down takes the mutex and does nothing else.\<close>

lemma recover_clean:
  assumes "dirty_mtx (heap w) = Mtx_free" and "wb (heap w) = []"
  shows "RP_recover ff w = Inr (0, w\<lparr>heap := (heap w)\<lparr>dirty_mtx := Mtx_held\<rparr>\<rparr>)"
  using assms by (cases w; cases "heap w") (simp add: RP_recover_def restart_def is_dirty_def set_dirty_def FLUSHFENCE_def)

lemma reopened_heap_simps:
  "rgs (reopened_heap a s) = reopened a (rgs s)" "dirty_mtx (reopened_heap a s) = dirty_mtx s" "wb (reopened_heap a s) = wb s"
  "roots (reopened_heap a s) = roots s"
  by (simp_all add: reopened_heap_def remapped_def Let_def)

lemma reopened_distance:
  assumes "heap_files name sz (rgs s)"
  shows "lookup (reopened a (rgs s)) SB_IDX - lookup (rgs s) SB_IDX = a SB_IDX - base_addr (sb_region s)"
proof -
  have "lookup (rgs s) SB_IDX = h_start (hdr (regions (rgs s) (ridx SB_IDX))) + base_addr (sb_region s)"
    using heap_filesD(6) [OF assms, of SB_IDX] by (simp add: lookup_def fetch_heap_start_def sb_region_def)
  then show ?thesis unfolding reopened_simps(2) by simp
qed

text \<open>
  C4. A clean restart. The process exits with all thread caches flushed and the superblock file not
  used up to its very end; the next process finds the files mapped elsewhere, every region at an
  address of its own that keeps the alignment of superblocks. Then \<^verbatim>\<open>RP_init\<close> reports a restart,
  \<^verbatim>\<open>RP_recover\<close> finds the heap clean, and the heap is the old one moved: the same blocks are live,
  every root that is set leads to the same block, and all bytes of the superblock file are the
  same, except that \<^verbatim>\<open>RP_init\<close> has cleared the last one, which is in no live block.
\<close>

theorem heap_reopen:
  assumes "heap_rep g (heap w)" and "heap_files name sz (rgs (heap w))" and "\<And>t c. a_cache g t c = []"
    and "os_maps os a" and "MIN_SB_REGION_SIZE \<le> sz" and "sz < MAX_SB_REGION_SIZE"
    and "same_alignment a (rgs (heap w))" and "dirty_mtx (heap w) = Mtx_held"
    and "unat (curr_addr (sb_region (heap w))) < unat (base_addr (sb_region (heap w))) + unat (FILESIZE (sb_region (heap w)))"
  shows "\<exists>w1 w2 w3. delete_RallocHolder w = Inr w1 \<and> RP_init os t name sz (next_process a (rgs (heap w)) w1) = Inr (1, w2)
    \<and> RP_recover ff w2 = Inr (0, w3) \<and> initialized w3 \<and> heap_rep g (heap w3) \<and> dirty_mtx (heap w3) = Mtx_held
    \<and> (let d = lookup (rgs (heap w3)) SB_IDX - lookup (rgs (heap w)) SB_IDX in
       live g (heap w3) = (\<lambda>(p, n). (p + d, n)) ` live g (heap w)
       \<and> (\<forall>x. x \<noteq> last_byte (sb_region (heap w)) \<longrightarrow> mem (heap w3) (x + d) = mem (heap w) x)
       \<and> last_byte (sb_region (heap w)) \<notin> live_bytes g (heap w)
       \<and> (\<forall>i. \<not> cross_is_null (roots (heap w) i) \<longrightarrow>
            cross_get (rgs (heap w3)) SB_IDX (roots (heap w3) i) = cross_get (rgs (heap w)) SB_IDX (roots (heap w) i) + d))"
proof -
  let ?r = "rgs (heap w)" and ?sb = "sb_region (heap w)" and ?lb = "last_byte (sb_region (heap w))"
  define d where "d = a SB_IDX - base_addr ?sb"
  obtain w1 s w2 where s: "delete_RallocHolder w = Inr w1" "heap_rep g s" "rgs s = ?r" "mem s = mem (heap w)"
    "roots s = roots (heap w)" "dirty_mtx s = mutex_unlock (dirty_mtx (heap w))"
    "RP_init os t name sz (next_process a ?r w1) = Inr (1, w2)" "initialized w2"
    and w2: "heap w2 = clear_byte (last_byte (reopened_region (a SB_IDX) (sb_region s))) (reopened_heap a s)"
    using reopen_state [OF assms(1-6)] by blast
  have sbs: "sb_region s = ?sb" by (simp add: sb_region_def s(3))
  have lb: "last_byte (reopened_region (a SB_IDX) (sb_region s)) = ?lb + d" by (simp add: last_byte_reopened d_def sbs)
  define X where "X = reopened_heap a s"
  have mv: "moved g s X"
    unfolding X_def reopened_heap_def using reopened_moved [OF assms(4,2,5-7) s(2,3) assms(3)] by (simp add: s(3))
  note D = movedD [OF mv]
  have rX: "rgs X = reopened a ?r" by (simp add: X_def reopened_heap_simps s(3))
  have dist: "lookup (reopened a ?r) SB_IDX - lookup ?r SB_IDX = d"
    using reopened_distance [of name sz "heap w" a] assms(2) by (simp add: d_def)
  have ok: "region_ok ?sb" using assms(1) layout_okD(1) [of "heap w"] by (simp add: heap_rep_def rep_def)
  note rr = reopened_region_ok [OF assms(4,2,5,6), of SB_IDX, folded sb_region_def]
  have sbX: "sb_region X = reopened_region (a SB_IDX) ?sb"
    using reopened_simps(1) [of a ?r SB_IDX] by (simp add: sb_region_def rX)
  have pos: "0 < unat (FILESIZE ?sb)" using assms(9) region_okD(5) [OF ok] by linarith
  have ulb: "unat (?lb + d) = unat (a SB_IDX) + unat (FILESIZE ?sb) - 1"
    using last_byte_unat [OF rr(1)] pos lb sbs by (simp add: sb_region_def)
  have below: "unat (curr_addr (sb_region X)) \<le> unat (?lb + d)"
    unfolding sbX ulb using rr(2) assms(9) region_okD(5) [OF ok] pos by (simp add: sb_region_def)
  have hrX: "heap_rep g (clear_byte (?lb + d) X)"
    by (rule outside_write [OF moved_rep [OF mv]]) (use below in auto)
  have h2: "heap w2 = clear_byte (?lb + d) X" using w2 lb by (simp add: X_def)
  let ?s3 = "(heap w2)\<lparr>dirty_mtx := Mtx_held\<rparr>"
  have rc: "RP_recover ff w2 = Inr (0, w2\<lparr>heap := ?s3\<rparr>)"
    using D(8) s(6) assms(8) by (intro recover_clean) (simp_all add: h2, simp add: X_def reopened_heap_simps)
  have hr: "heap_rep g ?s3" unfolding h2 by (rule same_regions_rep [OF hrX]) (simp_all add: assms(3))
  have mem: "mem (heap w2) (x + d) = mem (heap w) x" if "x \<noteq> ?lb" for x
    using relocated_at(4) [OF D(4), of "x - lookup ?r SB_IDX"] that dist s(3,4) rX by (simp add: h2 algebra_simps)
  have "live g ?s3 = (\<lambda>(p, n). (p + d, n)) ` live g (heap w)"
    using moved_live [of g X s] live_cong(1) [of ?s3 X g] live_cong(1) [of s "heap w" g] dist s(3) rX by (simp add: h2)
  moreover have "roots (heap w2) = roots (heap w)" using s(5) by (simp add: h2 X_def reopened_heap_simps)
  moreover have "?lb \<notin> live_bytes g (heap w)"
  proof
    assume "?lb \<in> live_bytes g (heap w)"
    then obtain p n where p: "(p, n) \<in> live g (heap w)" "?lb \<in> bytes (p, n)" by (auto simp: live_bytes_def)
    then show False
      using live_below(2) [OF assms(1) p(1)] live_props(6) [OF assms(1) p(1)] last_byte_unat [OF ok pos] assms(9) by auto
  qed
  moreover have rg: "rgs (heap w2) = reopened a ?r" by (simp add: h2 rX)
  moreover have "cross_get (reopened a ?r) SB_IDX v = cross_get ?r SB_IDX v + d" if "\<not> cross_is_null v" for v
    using that dist by (simp add: cross_get_def cross_is_null_def translate_def lookup_def algebra_simps)
  ultimately show ?thesis
    using s rc hr mem by (intro exI [of _ w1] exI [of _ w2] exI [of _ "w2\<lparr>heap := ?s3\<rparr>"]) (simp add: Let_def dist)
qed

lemma sample_open:
  "\<exists>w. RP_init (sample_os_at sample_addr) 0 ''app'' 0x140000000 sample_process = Inr (0, w) \<and> heap_rep a_init (heap w)
    \<and> dirty_mtx (heap w) = Mtx_held \<and> heap_files ''app'' 0x140000000 (rgs (heap w))
    \<and> (\<forall>i. base_addr (regions (rgs (heap w)) (ridx i)) = sample_addr i)"
proof -
  obtain s' where s': "do_RP_init (sample_os_at sample_addr) 0 ''app'' 0x140000000 sample_process
      = Inr (0, sample_process\<lparr>initialized := True, heap := s'\<rparr>)" "heap_rep a_init s'"
    "dirty_mtx s' = Mtx_held" "heap_files ''app'' 0x140000000 (rgs s')"
    "\<forall>i. base_addr (regions (rgs s') (ridx i)) = sample_addr i"
    using do_RP_init_fresh [OF sample_os_maps, where sz = "0x140000000" and p = sample_process and name = "''app''" and t = 0]
      sample_process_simps by auto
  then show ?thesis
    using sample_process_simps(1)
    by (intro exI [of _ "sample_process\<lparr>initialized := True, heap := s', init_ret_val := Some 0\<rparr>"]) (simp add: RP_init_def)
qed

text \<open>A new heap, from which one large block is allocated.\<close>

lemma open_and_malloc:
  assumes os: "os_maps os a" and sz: "2 ^ 30 + 2 ^ 16 \<le> unat sz" "sz < MAX_SB_REGION_SIZE"
    and m: "MAX_SZ < m" "unat m \<le> 65535 * 65536"
    and room: "align_up 16 (unat (a SB_IDX) + 4096) + 65536 * (16384 + (unat m + 65535) div 65536)
      \<le> unat (a SB_IDX) + (65536 * (unat sz div 65536) + 8192)"
  shows "\<exists>w p w'. RP_init os 0 ''app'' sz sample_process = Inr (0, w) \<and> RP_malloc 0 m w = Inr (p, w')
    \<and> heap_rep (a_large_alloc ((unat m + 65535) div 65536) a_init) (heap w')
    \<and> live (a_large_alloc ((unat m + 65535) div 65536) a_init) (heap w') = {(p, 65536 * ((unat m + 65535) div 65536))}
    \<and> unat p = align_up 16 (unat (a SB_IDX) + 4096) + 65536 * 16384 \<and> dirty_mtx (heap w') = Mtx_held
    \<and> heap_files ''app'' sz (rgs (heap w')) \<and> (\<forall>i. base_addr (regions (rgs (heap w')) (ridx i)) = a i)
    \<and> unat (FILESIZE (sb_region (heap w'))) = 65536 * (unat sz div 65536) + 8192
    \<and> unat (curr_addr (sb_region (heap w'))) = unat p + 65536 * ((unat m + 65535) div 65536)"
proof -
  let ?k = "(unat m + 65535) div 65536"
  obtain s where s: "do_RP_init os 0 ''app'' sz sample_process = Inr (0, sample_process\<lparr>initialized := True, heap := s\<rparr>)"
    "heap_rep a_init s" "dirty_mtx s = Mtx_held" "heap_files ''app'' sz (rgs s)" "\<forall>i. base_addr (regions (rgs s) (ridx i)) = a i"
    "unat (lookup (rgs s) SB_IDX) = align_up 16 (unat (a SB_IDX) + 4096)"
    using do_RP_init_fresh [OF os sz, of sample_process "''app''" 0] sample_process_simps by auto
  have sz0: "MIN_SB_REGION_SIZE \<le> sz" using sz(1) by (simp add: word_le_nat_alt)
  note rs = region_sizes [OF sz0 sz(2)]
  have fs: "unat (FILESIZE (sb_region s)) = 65536 * (unat sz div 65536) + 8192"
    using heap_filesD(5) [OF s(4), of SB_IDX] region_FILESIZE_unat [of "region_size sz SB_IDX"] rs(4) rs(8) [of SB_IDX]
    by (simp add: sb_region_def)
  have base: "base_addr (sb_region s) = a SB_IDX" using s(5) [rule_format, of SB_IDX] by (simp add: sb_region_def)
  have "65536 * (16384 + ?k) \<le> unat (a SB_IDX) + unat (FILESIZE (sb_region s)) - unat (lookup (rgs s) SB_IDX)"
    using room fs s(6) by linarith
  then have cap: "16384 + ?k \<le> sb_cap s" unfolding sb_cap_def base using div_le_mono [of "65536 * (16384 + ?k)" _ 65536] by simp
  obtain s' where s': "do_malloc 0 m s = Inr (sb_at s 16384, s')"
    "malloc_post a_init s (65536 * ?k) (sb_at s 16384) (a_large_alloc ?k a_init) s'"
    using malloc_large [OF s(2) m, of 0] cap by (auto simp: a_init_simps)
  have lay: "layout_ok s" and hr: "heap_rep (a_large_alloc ?k a_init) s'" and geo: "same_geom s s'"
    using s(2) s'(2) by (simp_all add: heap_rep_def rep_def malloc_post_def)
  have rep': "rep (a_large_alloc ?k a_init) s'" using hr by (simp add: heap_rep_def)
  note g = geo [unfolded same_geom_def sb_region_def] and lay' = repD(1) [OF rep']
  have u: "unat (sb_at s 16384) = align_up 16 (unat (a SB_IDX) + 4096) + 65536 * 16384"
    using unat_sb_at [OF lay, of 16384] cap s(6) by simp
  have "unat (curr_addr (sb_region s')) = unat (sb_at s 16384) + 65536 * ?k"
    using curr_addr_num(2) [OF lay'] repD(2) [OF rep'] u s(6) same_geomD(1) [OF geo] by (simp add: a_init_simps)
  moreover have "base_addr (regions (rgs s') (ridx i)) = a i" for i using s(5) [rule_format, of i] g by (cases i) auto
  moreover have "heap_files ''app'' sz (rgs s')" by (rule heap_files_keep [OF s(4) geo lay'])
  moreover have "FILESIZE (sb_region s') = FILESIZE (sb_region s)" "dirty_mtx s' = Mtx_held" using geo s(3) by (simp_all add: same_geom_def)
  moreover have "live (a_large_alloc ?k a_init) s' = {(sb_at s 16384, 65536 * ?k)}" using s'(2) by (simp add: malloc_post_def)
  ultimately show ?thesis
    using s(1) s'(1) hr u fs sample_process_simps(1)
    by (intro exI [of _ "sample_process\<lparr>initialized := True, heap := s, init_ret_val := Some 0\<rparr>"] exI [of _ "sb_at s 16384"]
        exI [of _ "sample_process\<lparr>initialized := True, heap := s', init_ret_val := Some 0\<rparr>"])
      (simp add: RP_init_def RP_malloc_def)
qed

text \<open>The three files at other addresses, the superblocks with the alignment they had.\<close>

fun sample_addr2 :: "RegionIndex \<Rightarrow> addr" where
  "sample_addr2 DESC_IDX = 0x700000003000"
| "sample_addr2 SB_IDX = 0x660000010000"
| "sample_addr2 META_IDX = 0x710000005000"

lemma sample_os_maps2: "os_maps (sample_os_at sample_addr2) sample_addr2"
proof -
  have "sample_addr2 i \<noteq> 0 \<and> unat (sample_addr2 i) mod 4096 = 0 \<and> unat (sample_addr2 i) + 2 ^ 40 + 2 ^ 20 < 2 ^ 47" for i
    by (cases i) simp_all
  then show ?thesis by (simp add: os_maps_def sample_os_at_def)
qed

theorem heap_reopen_witness:
  "\<exists>g w0 w p w1 w2 w3. RP_init (sample_os_at sample_addr) 0 ''app'' 0x140000000 sample_process = Inr (0, w0)
    \<and> RP_malloc 0 100000 w0 = Inr (p, w) \<and> live g (heap w) = {(p, 131072)} \<and> delete_RallocHolder w = Inr w1
    \<and> RP_init (sample_os_at sample_addr2) 0 ''app'' 0x140000000 (next_process sample_addr2 (rgs (heap w)) w1) = Inr (1, w2)
    \<and> RP_recover (\<lambda>_. None) w2 = Inr (0, w3) \<and> heap_rep g (heap w3)
    \<and> live g (heap w3) = {(p + (lookup (rgs (heap w3)) SB_IDX - lookup (rgs (heap w)) SB_IDX), 131072)}"
proof -
  let ?g = "a_large_alloc 2 a_init"
  have al: "align_up 16 (unat (sample_addr SB_IDX) + 4096) = 0x550000010000" by (simp add: align_up_def)
  obtain w0 p w where w: "RP_init (sample_os_at sample_addr) 0 ''app'' 0x140000000 sample_process = Inr (0, w0)"
    "RP_malloc 0 100000 w0 = Inr (p, w)" "heap_rep ?g (heap w)" "live ?g (heap w) = {(p, 131072)}"
    "unat p = 0x550000010000 + 65536 * 16384" "dirty_mtx (heap w) = Mtx_held" "heap_files ''app'' 0x140000000 (rgs (heap w))"
    "\<forall>i. base_addr (regions (rgs (heap w)) (ridx i)) = sample_addr i"
    "unat (FILESIZE (sb_region (heap w))) = 65536 * 81920 + 8192" "unat (curr_addr (sb_region (heap w))) = unat p + 131072"
    using open_and_malloc [OF sample_os_maps, of "0x140000000" 100000, unfolded al] by auto
  have base: "base_addr (sb_region (heap w)) = 0x550000000000" using w(8) [rule_format, of SB_IDX] by (simp add: sb_region_def)
  have al2: "same_alignment sample_addr2 (rgs (heap w))" using w(8) [rule_format, of SB_IDX] by (simp add: same_alignment_def)
  have none: "a_cache ?g t c = []" for t c by (simp add: a_init_simps)
  have "unat (curr_addr (sb_region (heap w))) < unat (base_addr (sb_region (heap w))) + unat (FILESIZE (sb_region (heap w)))"
    unfolding base w(5,9,10) by simp
  from heap_reopen [OF w(3,7) none sample_os_maps2 _ _ al2 w(6) this, of 0 "\<lambda>_. None"]
  obtain w1 w2 w3 where "delete_RallocHolder w = Inr w1" "RP_recover (\<lambda>_. None) w2 = Inr (0, w3)"
    "RP_init (sample_os_at sample_addr2) 0 ''app'' 0x140000000 (next_process sample_addr2 (rgs (heap w)) w1) = Inr (1, w2)"
    "heap_rep ?g (heap w3)"
    "live ?g (heap w3) = (\<lambda>(p, n). (p + (lookup (rgs (heap w3)) SB_IDX - lookup (rgs (heap w)) SB_IDX), n)) ` live ?g (heap w)"
    by (auto simp: Let_def)
  then show ?thesis using w(1,2,4)
    by (intro exI [of _ ?g] exI [of _ w0] exI [of _ w] exI [of _ p] exI [of _ w1] exI [of _ w2] exI [of _ w3]) simp
qed

subsection \<open>A restart writes into the last block\<close>

text \<open>
  C14. A restart clears the last byte of the superblock file even when a live block reaches it: the
  process exits in good order, and when the next one has opened and recovered the heap, the last
  byte of that block is zero, whatever the program had stored there.
\<close>

theorem reopen_clears_byte:
  assumes "heap_rep g (heap w)" and "heap_files name sz (rgs (heap w))" and "\<And>t c. a_cache g t c = []"
    and "os_maps os a" and "MIN_SB_REGION_SIZE \<le> sz" and "sz < MAX_SB_REGION_SIZE" and "same_alignment a (rgs (heap w))"
    and "dirty_mtx (heap w) = Mtx_held" and "(p, n) \<in> live g (heap w)"
    and "unat p + n = unat (base_addr (sb_region (heap w))) + unat (FILESIZE (sb_region (heap w)))"
  shows "\<exists>w1 w2 w3. delete_RallocHolder w = Inr w1 \<and> RP_init os t name sz (next_process a (rgs (heap w)) w1) = Inr (1, w2)
    \<and> RP_recover ff w2 = Inr (0, w3)
    \<and> mem (heap w3) (p + of_nat (n - 1) + (lookup (rgs (heap w3)) SB_IDX - lookup (rgs (heap w)) SB_IDX)) = 0"
proof -
  let ?r = "rgs (heap w)" and ?sb = "sb_region (heap w)" and ?lb = "last_byte (sb_region (heap w))"
  obtain w1 s w2 where s: "delete_RallocHolder w = Inr w1" "heap_rep g s" "rgs s = ?r"
    "dirty_mtx s = mutex_unlock (dirty_mtx (heap w))" "RP_init os t name sz (next_process a ?r w1) = Inr (1, w2)"
    and w2: "heap w2 = clear_byte (last_byte (reopened_region (a SB_IDX) (sb_region s))) (reopened_heap a s)"
    using reopen_state [OF assms(1-6)] by blast
  note lp = live_props [OF assms(1,9)]
  have ok: "region_ok ?sb" using assms(1) layout_okD(1) [of "heap w"] by (simp add: heap_rep_def rep_def)
  have pos: "0 < unat (FILESIZE ?sb)" using region_okD(5,6) [OF ok] by linarith
  have "unat (p + of_nat (n - 1)) = unat p + (n - 1)" using lp(1,3) by (intro unat_offset) simp
  also have "\<dots> = unat ?lb" using last_byte_unat [OF ok pos] assms(10) lp(1) by simp
  finally have pb: "p + of_nat (n - 1) = ?lb" by (simp add: word_unat_eq_iff)
  have wb: "wb s = []" using s(2) by (simp add: heap_rep_def rep_def)
  have rc: "RP_recover ff w2 = Inr (0, w2\<lparr>heap := (heap w2)\<lparr>dirty_mtx := Mtx_held\<rparr>\<rparr>)"
    using wb s(4) assms(8) by (intro recover_clean) (simp_all add: w2 reopened_heap_simps)
  have "lookup (reopened a ?r) SB_IDX - lookup ?r SB_IDX = a SB_IDX - base_addr ?sb"
    by (rule reopened_distance [OF assms(2)])
  then have "mem (heap w2) (p + of_nat (n - 1) + (lookup (rgs (heap w2)) SB_IDX - lookup ?r SB_IDX)) = 0"
    unfolding pb using s(3) by (simp add: w2 reopened_heap_simps last_byte_reopened sb_region_def)
  then show ?thesis using s(1,5) rc by (intro exI [of _ w1] exI [of _ w2] exI [of _ "w2\<lparr>heap := (heap w2)\<lparr>dirty_mtx := Mtx_held\<rparr>\<rparr>"]) simp
qed

text \<open>
  The smallest heap for which the space behind the first extension is not empty, with its superblock
  file mapped eight kibibytes below a multiple of 64 KiB: one large block fills it.
\<close>

fun full_addr :: "RegionIndex \<Rightarrow> addr" where
  "full_addr DESC_IDX = 0x600000000000"
| "full_addr SB_IDX = 0x55000000e000"
| "full_addr META_IDX = 0x610000000000"

lemma full_os_maps: "os_maps (sample_os_at full_addr) full_addr"
proof -
  have "full_addr i \<noteq> 0 \<and> unat (full_addr i) mod 4096 = 0 \<and> unat (full_addr i) + 2 ^ 40 + 2 ^ 20 < 2 ^ 47" for i
    by (cases i) simp_all
  then show ?thesis by (simp add: os_maps_def sample_os_at_def)
qed

theorem reopen_clears_byte_witness:
  "\<exists>w0 w p w1 w2 w3. RP_init (sample_os_at full_addr) 0 ''app'' 0x40010000 sample_process = Inr (0, w0)
    \<and> RP_malloc 0 65536 w0 = Inr (p, w) \<and> delete_RallocHolder w = Inr w1
    \<and> RP_init (sample_os_at full_addr) 0 ''app'' 0x40010000 (next_process full_addr (rgs (heap w)) w1) = Inr (1, w2)
    \<and> RP_recover (\<lambda>_. None) w2 = Inr (0, w3)
    \<and> mem (heap w3) (p + of_nat (65536 - 1) + (lookup (rgs (heap w3)) SB_IDX - lookup (rgs (heap w)) SB_IDX)) = 0"
proof -
  let ?g = "a_large_alloc 1 a_init"
  have al: "align_up 16 (unat (full_addr SB_IDX) + 4096) = 0x550000010000" by (simp add: align_up_def)
  obtain w0 p w where w: "RP_init (sample_os_at full_addr) 0 ''app'' 0x40010000 sample_process = Inr (0, w0)"
    "RP_malloc 0 65536 w0 = Inr (p, w)" "heap_rep ?g (heap w)" "live ?g (heap w) = {(p, 65536)}"
    "unat p = 0x550000010000 + 65536 * 16384" "dirty_mtx (heap w) = Mtx_held" "heap_files ''app'' 0x40010000 (rgs (heap w))"
    "\<forall>i. base_addr (regions (rgs (heap w)) (ridx i)) = full_addr i"
    "unat (FILESIZE (sb_region (heap w))) = 65536 * 16385 + 8192"
    using open_and_malloc [OF full_os_maps, of "0x40010000" 65536, unfolded al] by auto
  have base: "base_addr (sb_region (heap w)) = 0x55000000e000" using w(8) [rule_format, of SB_IDX] by (simp add: sb_region_def)
  have al2: "same_alignment full_addr (rgs (heap w))" using w(8) [rule_format, of SB_IDX] by (simp add: same_alignment_def)
  have none: "a_cache ?g t c = []" for t c by (simp add: a_init_simps)
  have "unat p + 65536 = unat (base_addr (sb_region (heap w))) + unat (FILESIZE (sb_region (heap w)))"
    unfolding base w(5,9) by simp
  from reopen_clears_byte [OF w(3,7) none full_os_maps _ _ al2 w(6) _ this, of 0 "\<lambda>_. None"] w(4)
  obtain w1 w2 w3 where "delete_RallocHolder w = Inr w1" "RP_recover (\<lambda>_. None) w2 = Inr (0, w3)"
    "RP_init (sample_os_at full_addr) 0 ''app'' 0x40010000 (next_process full_addr (rgs (heap w)) w1) = Inr (1, w2)"
    "mem (heap w3) (p + of_nat (65536 - 1) + (lookup (rgs (heap w3)) SB_IDX - lookup (rgs (heap w)) SB_IDX)) = 0"
    by auto
  then show ?thesis using w(1,2) by blast
qed

subsection \<open>A restart at another alignment\<close>

lemma mod_cancel:
  assumes "(x + h) mod 65536 = 0" and "(y + h) mod 65536 = (0 :: nat)"
  shows "x mod 65536 = y mod 65536"
proof -
  obtain p q where "x + h = 65536 * p" "y + h = 65536 * q" using assms by (auto simp: mod_eq_0_iff_dvd elim!: dvdE)
  then have "x + 65536 * q = y + 65536 * p" by simp
  then have "(x + 65536 * q) mod 65536 = (y + 65536 * p) mod 65536" by simp
  then show ?thesis by simp
qed

text \<open>Looking up the descriptor of an address, wherever the superblocks start.\<close>

lemma desc_lookup_shift:
  assumes "unat (lookup (rgs s) SB_IDX) < 2 ^ 47" and "65536 * k + x < 2 ^ 46" and "x < 65536"
  shows "desc_lookup s (sb_at s k + of_nat x)
    = desc_at s (if x < 65536 - unat (lookup (rgs s) SB_IDX) mod 65536 then k else Suc k)"
proof -
  let ?b = "lookup (rgs s) SB_IDX"
  define q m where "q = unat ?b div 65536" and "m = unat ?b mod 65536"
  have b: "unat ?b = 65536 * q + m" "m < 65536" by (simp_all add: q_def m_def)
  have "unat (?b + of_nat (65536 * k + x)) = unat ?b + (65536 * k + x)" using assms(1,2) by (intro unat_offset) simp
  then have u: "unat (sb_at s k + of_nat x) = 65536 * (q + k) + (m + x)" using b by (simp add: sb_at_def algebra_simps)
  define j where "j = (if x < 65536 - m then k else Suc k)"
  have "(65536 * (q + k) + (m + x)) div 65536 = q + j"
    using b(2) assms(3) by (auto simp: j_def div_mult_self4 intro!: div_nat_eqI)
  then have "unat (drop_bit 16 (sb_at s k + of_nat x)) = q + j"
    unfolding unat_drop_bit_eq u by (simp add: drop_bit_eq_div)
  moreover have "unat (drop_bit 16 ?b) = q" unfolding unat_drop_bit_eq by (simp add: drop_bit_eq_div q_def)
  ultimately have "unat (drop_bit 16 (sb_at s k + of_nat x) - drop_bit 16 ?b) = j"
    by (subst unat_sub) (simp_all add: word_le_nat_alt)
  then have "drop_bit 16 (sb_at s k + of_nat x) - drop_bit 16 ?b = of_nat j"
    using of_nat_unat [of "drop_bit 16 (sb_at s k + of_nat x) - drop_bit 16 ?b", where 'a = "64 word"] by simp
  then show ?thesis by (simp add: desc_lookup_def desc_at_def j_def m_def)
qed

text \<open>
  C13. Without the alignment a restart damages the heap. \<^verbatim>\<open>mmap\<close> may place the superblock file at
  any page; if the new address differs from the old one modulo 64 KiB, \<^verbatim>\<open>desc_lookup\<close>, which
  shifts addresses before it subtracts them, takes the last \<open>m\<close> bytes of every superblock for
  part of the next one: for blocks there \<^verbatim>\<open>free\<close> reads and writes the wrong descriptor.
\<close>

theorem reopen_misaligned:
  assumes "heap_rep g (heap w)" and "heap_files name sz (rgs (heap w))" and "\<And>t c. a_cache g t c = []"
    and "os_maps os a" and "MIN_SB_REGION_SIZE \<le> sz" and "sz < MAX_SB_REGION_SIZE"
    and "\<not> same_alignment a (rgs (heap w))"
  shows "\<exists>w1 w2 m. delete_RallocHolder w = Inr w1 \<and> RP_init os t name sz (next_process a (rgs (heap w)) w1) = Inr (1, w2)
    \<and> 0 < m \<and> m < 65536 \<and> (\<forall>k < sb_num (heap w). \<forall>x < 65536.
        desc_lookup (heap w2) (sb_at (heap w2) k + of_nat x) = desc_at (heap w2) (if x < 65536 - m then k else Suc k))"
proof -
  let ?r = "rgs (heap w)"
  obtain w1 s w2 where s: "delete_RallocHolder w = Inr w1" "heap_rep g s" "rgs s = ?r"
    "RP_init os t name sz (next_process a ?r w1) = Inr (1, w2)"
    and "heap w2 = clear_byte (last_byte (reopened_region (a SB_IDX) (sb_region s))) (reopened_heap a s)"
    using reopen_state [OF assms(1-6)] by blast
  then have w2: "rgs (heap w2) = reopened a ?r" by (simp add: reopened_heap_simps)
  have lay: "layout_ok (heap w)" using assms(1) by (simp add: heap_rep_def rep_def)
  note L = layout_okD [OF lay] and st = reopened_start [OF assms(4,2,5,6) lay]
  let ?b = "unat (lookup (rgs (heap w2)) SB_IDX)"
  define m where "m = ?b mod 65536"
  have b: "?b = unat (a SB_IDX) + unat (h_start (hdr (sb_region (heap w))))" using st(2) by (simp add: w2)
  have "m \<noteq> 0"
    using mod_cancel [of "unat (a SB_IDX)" "unat (h_start (hdr (sb_region (heap w))))" "unat (base_addr (sb_region (heap w)))"]
      L(2) st(1) b assms(7) by (auto simp: m_def same_alignment_def sb_region_def simp del: mod_eq_0_iff_dvd)
  moreover have "desc_lookup (heap w2) (sb_at (heap w2) k + of_nat x) = desc_at (heap w2) (if x < 65536 - m then k else Suc k)"
    if k: "k < sb_num (heap w)" and x: "x < 65536" for k x
  proof -
    have "65536 * k + x < 2 ^ 46"
      using k x sb_num_le_cap [OF lay] L(12) by simp
    moreover have "?b < 2 ^ 47"
      using b st(1) L(4) region_okD(6) [OF L(1)] reopened_region_ok(3) [OF assms(4,2,5,6), of SB_IDX] by (simp add: sb_region_def)
    ultimately show ?thesis using desc_lookup_shift [of "heap w2" k x] x by (simp add: m_def)
  qed
  ultimately show ?thesis using s by (intro exI [of _ w1] exI [of _ w2] exI [of _ m]) (simp add: m_def)
qed

theorem reopen_misaligned_witness:
  "\<exists>w w1 w2. RP_init (sample_os_at sample_addr) 0 ''app'' 0x140000000 sample_process = Inr (0, w)
    \<and> delete_RallocHolder w = Inr w1
    \<and> RP_init (sample_os_at (\<lambda>i. sample_addr i + 4096)) 0 ''app'' 0x140000000
        (next_process (\<lambda>i. sample_addr i + 4096) (rgs (heap w)) w1) = Inr (1, w2)
    \<and> desc_lookup (heap w2) (sb_at (heap w2) 1 + 65535) = desc_at (heap w2) 2"
proof -
  have os: "os_maps (sample_os_at (\<lambda>i. sample_addr i + 4096)) (\<lambda>i. sample_addr i + 4096)"
  proof -
    have "sample_addr i + 4096 \<noteq> 0 \<and> unat (sample_addr i + 4096) mod 4096 = 0 \<and> unat (sample_addr i + 4096) + 2 ^ 40 + 2 ^ 20 < 2 ^ 47" for i
      by (cases i) simp_all
    then show ?thesis by (simp add: os_maps_def sample_os_at_def)
  qed
  obtain w s' where w: "RP_init (sample_os_at sample_addr) 0 ''app'' 0x140000000 sample_process = Inr (0, w)" "heap w = s'"
    "heap_rep a_init s'" "heap_files ''app'' 0x140000000 (rgs s')" "\<forall>i. base_addr (regions (rgs s') (ridx i)) = sample_addr i"
    using sample_open by blast
  have na: "\<not> same_alignment (\<lambda>i. sample_addr i + 4096) (rgs s')" using w(5) [rule_format, of SB_IDX] by (simp add: same_alignment_def)
  have num: "sb_num s' = 16384" using repD(2) [of a_init s'] w(3) by (simp add: heap_rep_def a_init_simps)
  from reopen_misaligned [of a_init w "''app''" "0x140000000" _ "\<lambda>i. sample_addr i + 4096" 0, OF _ _ _ os] w na num
  obtain w1 w2 m where r: "delete_RallocHolder w = Inr w1" "0 < m" "m < 65536"
    "RP_init (sample_os_at (\<lambda>i. sample_addr i + 4096)) 0 ''app'' 0x140000000
       (next_process (\<lambda>i. sample_addr i + 4096) (rgs (heap w)) w1) = Inr (1, w2)"
    "\<forall>k < 16384. \<forall>x < 65536. desc_lookup (heap w2) (sb_at (heap w2) k + of_nat x) = desc_at (heap w2) (if x < 65536 - m then k else Suc k)"
    by (auto simp: a_init_simps)
  have "desc_lookup (heap w2) (sb_at (heap w2) 1 + 65535) = desc_at (heap w2) 2"
    using r(2,3) r(5) [rule_format, of 1 65535] by (auto simp: numeral_2_eq_2 split: if_splits)
  with w(1) r(1,4) show ?thesis by blast
qed

end
