(* ===== verification/LrSizeClass.thy ===== *)
theory LrSizeClass
  imports SizeClass
begin

text \<open>
  The size classes of lrmalloc, \<^verbatim>\<open>src/ext/lrmalloc/size_classes.h\<close> and \<^verbatim>\<open>size_classes.cpp\<close>: the
  table of rows, the array \<^verbatim>\<open>SizeClasses\<close> it is compiled into, and \<^verbatim>\<open>InitSizeClass\<close>, which at the
  first allocation enlarges the superblocks and fills the block counts and the lookup array.
  The lemmas give the values of the array after the initialisation and show that every
  superblock holds its blocks without a remainder and that the lookup is the best fit. ralloc
  took its table and its lookup from here, which is proved as an equivalence.
\<close>

subsection \<open>Assertions\<close>

text \<open>
  \<^verbatim>\<open>log.h\<close> compiles the assertions away: \<^verbatim>\<open>LFMALLOC_SANITY\<close> is 0. The model keeps them where the
  code has them; with the value of the source they are no operation.
\<close>

definition LFMALLOC_SANITY :: nat where
  "LFMALLOC_SANITY = 0"

definition ASSERT :: "bool \<Rightarrow> string \<Rightarrow> 'a res \<Rightarrow> 'a res" where
  "ASSERT x msg r = (if LFMALLOC_SANITY \<noteq> 0 \<and> \<not> x then Inl (AssertFail msg) else r)"

lemma ASSERT_off [simp]: "ASSERT x msg r = r"
  by (simp add: ASSERT_def LFMALLOC_SANITY_def)

subsection \<open>The table\<close>

definition lr_MAX_SZ_IDX :: nat where
  "lr_MAX_SZ_IDX = 40"

definition lr_MAX_SZ :: u64 where
  "lr_MAX_SZ = push_bit 13 1 + push_bit 11 1 * 3"

definition lr_SIZE_CLASSES_0 :: "sc_row list" where
  "lr_SIZE_CLASSES_0 = [
    SC 0 3 3 0 False True 1 (Some 3), SC 1 3 3 1 False True 1 (Some 3),
    SC 2 3 3 2 False True 3 (Some 3), SC 3 3 3 3 False True 1 (Some 3),
    SC 4 5 3 1 False True 5 (Some 3), SC 5 5 3 2 False True 3 (Some 3),
    SC 6 5 3 3 False True 7 (Some 3), SC 7 5 3 4 False True 1 (Some 3),
    SC 8 6 4 1 False True 5 (Some 4), SC 9 6 4 2 False True 3 (Some 4),
    SC 10 6 4 3 False True 7 (Some 4), SC 11 6 4 4 False True 1 (Some 4),
    SC 12 7 5 1 False True 5 (Some 5), SC 13 7 5 2 False True 3 (Some 5),
    SC 14 7 5 3 False True 7 (Some 5), SC 15 7 5 4 False True 1 (Some 5),
    SC 16 8 6 1 False True 5 (Some 6), SC 17 8 6 2 False True 3 (Some 6),
    SC 18 8 6 3 False True 7 (Some 6), SC 19 8 6 4 False True 1 (Some 6),
    SC 20 9 7 1 False True 5 (Some 7), SC 21 9 7 2 False True 3 (Some 7),
    SC 22 9 7 3 False True 7 (Some 7), SC 23 9 7 4 False True 1 (Some 7),
    SC 24 10 8 1 False True 5 (Some 8), SC 25 10 8 2 False True 3 (Some 8),
    SC 26 10 8 3 False True 7 (Some 8), SC 27 10 8 4 False True 1 (Some 8),
    SC 28 11 9 1 False True 5 (Some 9), SC 29 11 9 2 False True 3 (Some 9),
    SC 30 11 9 3 False True 7 (Some 9), SC 31 11 9 4 True True 1 (Some 9),
    SC 32 12 10 1 False True 5 None, SC 33 12 10 2 False True 3 None,
    SC 34 12 10 3 False True 7 None, SC 35 12 10 4 True True 2 None,
    SC 36 13 11 1 False True 5 None, SC 37 13 11 2 True True 3 None,
    SC 38 13 11 3 False True 7 None, SC 39 13 11 4 True False 0 None]"

definition lr_SIZE_CLASSES_1 :: "sc_row list" where
  "lr_SIZE_CLASSES_1 = [
    SC 40 14 12 1 True False 0 None, SC 41 14 12 2 True False 0 None,
    SC 42 14 12 3 True False 0 None, SC 43 14 12 4 True False 0 None,
    SC 44 15 13 1 True False 0 None, SC 45 15 13 2 True False 0 None,
    SC 46 15 13 3 True False 0 None, SC 47 15 13 4 True False 0 None,
    SC 48 16 14 1 True False 0 None, SC 49 16 14 2 True False 0 None,
    SC 50 16 14 3 True False 0 None, SC 51 16 14 4 True False 0 None,
    SC 52 17 15 1 True False 0 None, SC 53 17 15 2 True False 0 None,
    SC 54 17 15 3 True False 0 None, SC 55 17 15 4 True False 0 None,
    SC 56 18 16 1 True False 0 None, SC 57 18 16 2 True False 0 None,
    SC 58 18 16 3 True False 0 None, SC 59 18 16 4 True False 0 None,
    SC 60 19 17 1 True False 0 None, SC 61 19 17 2 True False 0 None,
    SC 62 19 17 3 True False 0 None, SC 63 19 17 4 True False 0 None,
    SC 64 20 18 1 True False 0 None, SC 65 20 18 2 True False 0 None,
    SC 66 20 18 3 True False 0 None, SC 67 20 18 4 True False 0 None,
    SC 68 21 19 1 True False 0 None, SC 69 21 19 2 True False 0 None,
    SC 70 21 19 3 True False 0 None, SC 71 21 19 4 True False 0 None,
    SC 72 22 20 1 True False 0 None, SC 73 22 20 2 True False 0 None,
    SC 74 22 20 3 True False 0 None, SC 75 22 20 4 True False 0 None,
    SC 76 23 21 1 True False 0 None, SC 77 23 21 2 True False 0 None,
    SC 78 23 21 3 True False 0 None, SC 79 23 21 4 True False 0 None,
    SC 80 24 22 1 True False 0 None, SC 81 24 22 2 True False 0 None,
    SC 82 24 22 3 True False 0 None, SC 83 24 22 4 True False 0 None,
    SC 84 25 23 1 True False 0 None, SC 85 25 23 2 True False 0 None,
    SC 86 25 23 3 True False 0 None, SC 87 25 23 4 True False 0 None,
    SC 88 26 24 1 True False 0 None, SC 89 26 24 2 True False 0 None,
    SC 90 26 24 3 True False 0 None, SC 91 26 24 4 True False 0 None,
    SC 92 27 25 1 True False 0 None, SC 93 27 25 2 True False 0 None,
    SC 94 27 25 3 True False 0 None, SC 95 27 25 4 True False 0 None,
    SC 96 28 26 1 True False 0 None, SC 97 28 26 2 True False 0 None,
    SC 98 28 26 3 True False 0 None, SC 99 28 26 4 True False 0 None,
    SC 100 29 27 1 True False 0 None, SC 101 29 27 2 True False 0 None,
    SC 102 29 27 3 True False 0 None, SC 103 29 27 4 True False 0 None,
    SC 104 30 28 1 True False 0 None, SC 105 30 28 2 True False 0 None,
    SC 106 30 28 3 True False 0 None, SC 107 30 28 4 True False 0 None,
    SC 108 31 29 1 True False 0 None, SC 109 31 29 2 True False 0 None,
    SC 110 31 29 3 True False 0 None, SC 111 31 29 4 True False 0 None,
    SC 112 32 30 1 True False 0 None, SC 113 32 30 2 True False 0 None,
    SC 114 32 30 3 True False 0 None, SC 115 32 30 4 True False 0 None,
    SC 116 33 31 1 True False 0 None, SC 117 33 31 2 True False 0 None,
    SC 118 33 31 3 True False 0 None, SC 119 33 31 4 True False 0 None,
    SC 120 34 32 1 True False 0 None, SC 121 34 32 2 True False 0 None,
    SC 122 34 32 3 True False 0 None, SC 123 34 32 4 True False 0 None,
    SC 124 35 33 1 True False 0 None, SC 125 35 33 2 True False 0 None,
    SC 126 35 33 3 True False 0 None, SC 127 35 33 4 True False 0 None,
    SC 128 36 34 1 True False 0 None, SC 129 36 34 2 True False 0 None,
    SC 130 36 34 3 True False 0 None, SC 131 36 34 4 True False 0 None,
    SC 132 37 35 1 True False 0 None, SC 133 37 35 2 True False 0 None,
    SC 134 37 35 3 True False 0 None, SC 135 37 35 4 True False 0 None,
    SC 136 38 36 1 True False 0 None, SC 137 38 36 2 True False 0 None,
    SC 138 38 36 3 True False 0 None, SC 139 38 36 4 True False 0 None]"

definition lr_SIZE_CLASSES_2 :: "sc_row list" where
  "lr_SIZE_CLASSES_2 = [
    SC 140 39 37 1 True False 0 None, SC 141 39 37 2 True False 0 None,
    SC 142 39 37 3 True False 0 None, SC 143 39 37 4 True False 0 None,
    SC 144 40 38 1 True False 0 None, SC 145 40 38 2 True False 0 None,
    SC 146 40 38 3 True False 0 None, SC 147 40 38 4 True False 0 None,
    SC 148 41 39 1 True False 0 None, SC 149 41 39 2 True False 0 None,
    SC 150 41 39 3 True False 0 None, SC 151 41 39 4 True False 0 None,
    SC 152 42 40 1 True False 0 None, SC 153 42 40 2 True False 0 None,
    SC 154 42 40 3 True False 0 None, SC 155 42 40 4 True False 0 None,
    SC 156 43 41 1 True False 0 None, SC 157 43 41 2 True False 0 None,
    SC 158 43 41 3 True False 0 None, SC 159 43 41 4 True False 0 None,
    SC 160 44 42 1 True False 0 None, SC 161 44 42 2 True False 0 None,
    SC 162 44 42 3 True False 0 None, SC 163 44 42 4 True False 0 None,
    SC 164 45 43 1 True False 0 None, SC 165 45 43 2 True False 0 None,
    SC 166 45 43 3 True False 0 None, SC 167 45 43 4 True False 0 None,
    SC 168 46 44 1 True False 0 None, SC 169 46 44 2 True False 0 None,
    SC 170 46 44 3 True False 0 None, SC 171 46 44 4 True False 0 None,
    SC 172 47 45 1 True False 0 None, SC 173 47 45 2 True False 0 None,
    SC 174 47 45 3 True False 0 None, SC 175 47 45 4 True False 0 None,
    SC 176 48 46 1 True False 0 None, SC 177 48 46 2 True False 0 None,
    SC 178 48 46 3 True False 0 None, SC 179 48 46 4 True False 0 None,
    SC 180 49 47 1 True False 0 None, SC 181 49 47 2 True False 0 None,
    SC 182 49 47 3 True False 0 None, SC 183 49 47 4 True False 0 None,
    SC 184 50 48 1 True False 0 None, SC 185 50 48 2 True False 0 None,
    SC 186 50 48 3 True False 0 None, SC 187 50 48 4 True False 0 None,
    SC 188 51 49 1 True False 0 None, SC 189 51 49 2 True False 0 None,
    SC 190 51 49 3 True False 0 None, SC 191 51 49 4 True False 0 None,
    SC 192 52 50 1 True False 0 None, SC 193 52 50 2 True False 0 None,
    SC 194 52 50 3 True False 0 None, SC 195 52 50 4 True False 0 None,
    SC 196 53 51 1 True False 0 None, SC 197 53 51 2 True False 0 None,
    SC 198 53 51 3 True False 0 None, SC 199 53 51 4 True False 0 None,
    SC 200 54 52 1 True False 0 None, SC 201 54 52 2 True False 0 None,
    SC 202 54 52 3 True False 0 None, SC 203 54 52 4 True False 0 None,
    SC 204 55 53 1 True False 0 None, SC 205 55 53 2 True False 0 None,
    SC 206 55 53 3 True False 0 None, SC 207 55 53 4 True False 0 None,
    SC 208 56 54 1 True False 0 None, SC 209 56 54 2 True False 0 None,
    SC 210 56 54 3 True False 0 None, SC 211 56 54 4 True False 0 None,
    SC 212 57 55 1 True False 0 None, SC 213 57 55 2 True False 0 None,
    SC 214 57 55 3 True False 0 None, SC 215 57 55 4 True False 0 None,
    SC 216 58 56 1 True False 0 None, SC 217 58 56 2 True False 0 None,
    SC 218 58 56 3 True False 0 None, SC 219 58 56 4 True False 0 None,
    SC 220 59 57 1 True False 0 None, SC 221 59 57 2 True False 0 None,
    SC 222 59 57 3 True False 0 None, SC 223 59 57 4 True False 0 None,
    SC 224 60 58 1 True False 0 None, SC 225 60 58 2 True False 0 None,
    SC 226 60 58 3 True False 0 None, SC 227 60 58 4 True False 0 None,
    SC 228 61 59 1 True False 0 None, SC 229 61 59 2 True False 0 None,
    SC 230 61 59 3 True False 0 None, SC 231 61 59 4 True False 0 None,
    SC 232 62 60 1 True False 0 None, SC 233 62 60 2 True False 0 None,
    SC 234 62 60 3 True False 0 None]"

definition lr_SIZE_CLASSES :: "sc_row list" where
  "lr_SIZE_CLASSES = lr_SIZE_CLASSES_0 @ lr_SIZE_CLASSES_1 @ lr_SIZE_CLASSES_2"

record lr_SizeClassData =
  blockSize :: u32
  sbSize :: u32
  blockNum :: u32
  cacheBlockNum :: u32

definition GetBlockNum_sc :: "lr_SizeClassData \<Rightarrow> u64" where
  "GetBlockNum_sc sc = ucast (blockNum sc)"

text \<open>\<^verbatim>\<open>SC\<close> with \<^verbatim>\<open>SIZE_CLASS_bin_yes\<close> yields an element of the array, with \<^verbatim>\<open>SIZE_CLASS_bin_no\<close> none.\<close>

fun lr_SC :: "sc_row \<Rightarrow> lr_SizeClassData list" where
  "lr_SC (SC index lg_grp lg_delta ndelta psz bin pgs lg_delta_lookup) =
     (if bin then [\<lparr>blockSize = push_bit lg_grp 1 + push_bit lg_delta (of_nat ndelta),
                    sbSize = of_nat pgs * 4096, blockNum = 0, cacheBlockNum = 0\<rparr>]
      else [])"

definition SizeClasses_init :: "lr_SizeClassData list" where
  "SizeClasses_init =
     \<lparr>blockSize = 0, sbSize = 0, blockNum = 0, cacheBlockNum = 0\<rparr>
     # concat (map lr_SC lr_SIZE_CLASSES)"

subsection \<open>The initialisation\<close>

text \<open>
  The inner \<^verbatim>\<open>while\<close> of the first two loops adds the superblock size of the class to a
  \<^verbatim>\<open>size_t\<close> as long as it is too small. A superblock has at least one page and the bounds
  are at most sixteen pages, so that \<open>GROW_FUEL\<close> iterations are enough.
\<close>

fun grow_while :: "nat \<Rightarrow> (u64 \<Rightarrow> bool) \<Rightarrow> u32 \<Rightarrow> u64 \<Rightarrow> u64 res" where
  "grow_while 0 small step sb = Inl OutOfFuel"
| "grow_while (Suc n) small step sb =
     (if small sb then grow_while n small step (sb + ucast step) else Inr sb)"

definition GROW_FUEL :: nat where
  "GROW_FUEL = 17"

definition init_several :: "nat \<Rightarrow> lr_SizeClassData list \<Rightarrow> lr_SizeClassData list res" where
  "init_several scIdx tbl =
     (let sc = tbl ! scIdx; bs = ucast (blockSize sc) :: u64; sb = ucast (sbSize sc) :: u64 in
      if sb > bs \<and> sb mod bs = 0 then Inr tbl
      else rbind (grow_while GROW_FUEL (\<lambda>sb. bs \<ge> sb) (sbSize sc) sb)
             (\<lambda>sb'. Inr (tbl[scIdx := sc\<lparr>sbSize := ucast sb'\<rparr>])))"

definition init_64K :: "nat \<Rightarrow> lr_SizeClassData list \<Rightarrow> lr_SizeClassData list res" where
  "init_64K scIdx tbl =
     (let sc = tbl ! scIdx in
      rbind (grow_while GROW_FUEL (\<lambda>sb. sb < 16 * 4096) (sbSize sc) (ucast (sbSize sc)))
        (\<lambda>sb'. Inr (tbl[scIdx := sc\<lparr>sbSize := ucast sb'\<rparr>])))"

text \<open>The assertions of the loop: \<open>2 << 31\<close> is zero in the 32-bit \<^verbatim>\<open>int\<close> it is computed in.\<close>

definition MAX_BLOCK_NUM :: u32 where
  "MAX_BLOCK_NUM = push_bit 31 2"

definition init_blockNum :: "nat \<Rightarrow> lr_SizeClassData list \<Rightarrow> lr_SizeClassData list res" where
  "init_blockNum scIdx tbl =
     (let sc = tbl ! scIdx; n = sbSize sc div blockSize sc;
          sc' = sc\<lparr>blockNum := n, cacheBlockNum := n * 1\<rparr> in
      ASSERT (blockNum sc' > 0) ''sc.blockNum > 0''
      (ASSERT (blockNum sc' < MAX_BLOCK_NUM) ''sc.blockNum < MAX_BLOCK_NUM''
      (ASSERT (blockNum sc' \<ge> cacheBlockNum sc') ''sc.blockNum >= sc.cacheBlockNum''
      (Inr (tbl[scIdx := sc'])))))"

function fill_while :: "nat \<Rightarrow> nat \<Rightarrow> nat \<Rightarrow> (nat \<Rightarrow> nat) \<Rightarrow> nat \<times> (nat \<Rightarrow> nat)" where
  "fill_while bs scIdx lookupIdx tbl =
     (if lookupIdx \<le> bs then fill_while bs scIdx (lookupIdx + 1) (tbl(lookupIdx := scIdx))
      else (lookupIdx, tbl))"
  by pat_completeness auto
termination
  by (relation "measure (\<lambda>(bs, sc, i, t). Suc bs - i)") auto

declare fill_while.simps [simp del]

definition fill_lookup :: "lr_SizeClassData list \<Rightarrow> nat \<Rightarrow> nat \<times> (nat \<Rightarrow> nat) \<Rightarrow> nat \<times> (nat \<Rightarrow> nat)" where
  "fill_lookup tbl scIdx = (\<lambda>(lookupIdx, lk). fill_while (unat (blockSize (tbl ! scIdx))) scIdx lookupIdx lk)"

definition InitSizeClass ::
    "lr_SizeClassData list \<times> (nat \<Rightarrow> nat) \<Rightarrow> (lr_SizeClassData list \<times> (nat \<Rightarrow> nat)) res" where
  "InitSizeClass = (\<lambda>(tbl, lk).
     rbind (rfold init_several [1..<lr_MAX_SZ_IDX] tbl) (\<lambda>tbl1.
     rbind (rfold init_64K [1..<lr_MAX_SZ_IDX] tbl1) (\<lambda>tbl2.
     rbind (rfold init_blockNum [1..<lr_MAX_SZ_IDX] tbl2) (\<lambda>tbl3.
     Inr (tbl3, snd (fold (fill_lookup tbl3) [1..<lr_MAX_SZ_IDX] (0, lk)))))))"

definition GetSizeClass_lookup :: "(nat \<Rightarrow> nat) \<Rightarrow> u64 \<Rightarrow> nat" where
  "GetSizeClass_lookup lk size' = lk (unat size')"

subsection \<open>The values of the table\<close>

definition lr_entry :: "nat \<times> nat \<Rightarrow> lr_SizeClassData" where
  "lr_entry p = \<lparr>blockSize = of_nat (fst p), sbSize = of_nat (snd p),
     blockNum = of_nat (snd p div fst p), cacheBlockNum = of_nat (snd p div fst p)\<rparr>"

text \<open>The block size and the superblock size of the classes from 1 on, once initialised.\<close>

definition lr_class_table :: "(nat \<times> nat) list" where
  "lr_class_table = [
     (8, 65536), (16, 65536), (24, 73728), (32, 65536), (40, 81920), (48, 73728),
     (56, 86016), (64, 65536), (80, 81920), (96, 73728), (112, 86016), (128, 65536),
     (160, 81920), (192, 73728), (224, 86016), (256, 65536), (320, 81920), (384, 73728),
     (448, 86016), (512, 65536), (640, 81920), (768, 73728), (896, 86016), (1024, 65536),
     (1280, 81920), (1536, 73728), (1792, 86016), (2048, 65536), (2560, 81920), (3072, 73728),
     (3584, 86016), (4096, 65536), (5120, 81920), (6144, 73728), (7168, 86016), (8192, 65536),
     (10240, 81920), (12288, 73728), (14336, 86016)]"

text \<open>The pages of a superblock as the table has them, and after the first loop.\<close>

definition lr_pages :: "nat list" where
  "lr_pages = [1, 1, 3, 1, 5, 3, 7, 1, 5, 3, 7, 1, 5, 3, 7, 1, 5, 3, 7, 1, 5, 3, 7, 1, 5, 3, 7, 1,
     5, 3, 7, 1, 5, 3, 7, 2, 5, 3, 7]"

definition lr_pages_several :: "nat list" where
  "lr_pages_several = [1, 1, 3, 1, 5, 3, 7, 1, 5, 3, 7, 1, 5, 3, 7, 1, 5, 3, 7, 1, 5, 3, 7, 1, 5, 3, 7, 1,
     5, 3, 7, 2, 5, 3, 7, 4, 5, 6, 7]"

definition raw_entry :: "nat \<Rightarrow> nat \<Rightarrow> lr_SizeClassData" where
  "raw_entry b sb = \<lparr>blockSize = of_nat b, sbSize = of_nat sb, blockNum = 0, cacheBlockNum = 0\<rparr>"

definition entry_several :: "lr_SizeClassData \<Rightarrow> lr_SizeClassData res" where
  "entry_several sc =
     (let bs = ucast (blockSize sc) :: u64; sb = ucast (sbSize sc) :: u64 in
      if sb > bs \<and> sb mod bs = 0 then Inr sc
      else rbind (grow_while GROW_FUEL (\<lambda>sb. bs \<ge> sb) (sbSize sc) sb)
             (\<lambda>sb'. Inr (sc\<lparr>sbSize := ucast sb'\<rparr>)))"

definition entry_64K :: "lr_SizeClassData \<Rightarrow> lr_SizeClassData res" where
  "entry_64K sc =
     rbind (grow_while GROW_FUEL (\<lambda>sb. sb < 16 * 4096) (sbSize sc) (ucast (sbSize sc)))
       (\<lambda>sb'. Inr (sc\<lparr>sbSize := ucast sb'\<rparr>))"

definition entry_blockNum :: "lr_SizeClassData \<Rightarrow> lr_SizeClassData res" where
  "entry_blockNum sc =
     Inr (sc\<lparr>blockNum := sbSize sc div blockSize sc, cacheBlockNum := sbSize sc div blockSize sc\<rparr>)"

text \<open>A loop that updates one element after the other is a map over the array.\<close>

lemma rfold_elements:
  assumes f: "\<And>i tbl. i < length tbl \<Longrightarrow> f i tbl = rbind (g (tbl ! i)) (\<lambda>x. Inr (tbl[i := x]))"
    and "list_all2 (\<lambda>x y. g x = Inr y) xs ys"
  shows "rfold f [length us..<length us + length xs] (us @ xs) = Inr (us @ ys)"
  using assms(2)
proof (induction xs ys arbitrary: us rule: list_all2_induct)
  case (Cons x xs y ys)
  have "f (length us) (us @ x # xs) = Inr ((us @ [y]) @ xs)" using Cons.hyps(1) by (simp add: f)
  moreover have "[length us..<length us + length (x # xs)] =
      length us # [length (us @ [y])..<length (us @ [y]) + length xs]"
    by (simp add: upt_conv_Cons del: upt_Suc)
  ultimately show ?case using Cons.IH [of "us @ [y]"] by simp
qed simp

lemma init_elements:
  assumes "i < length tbl"
  shows "init_several i tbl = rbind (entry_several (tbl ! i)) (\<lambda>x. Inr (tbl[i := x]))"
    and "init_64K i tbl = rbind (entry_64K (tbl ! i)) (\<lambda>x. Inr (tbl[i := x]))"
    and "init_blockNum i tbl = rbind (entry_blockNum (tbl ! i)) (\<lambda>x. Inr (tbl[i := x]))"
  by (simp_all add: init_several_def entry_several_def init_64K_def entry_64K_def
      init_blockNum_def entry_blockNum_def Let_def rbind_def split: sum.split)

lemma grow_while_numeral: "grow_while (numeral k) small step sb =
    (if small sb then grow_while (pred_numeral k) small step (sb + ucast step) else Inr sb)"
  by (simp add: numeral_eq_Suc)

lemma lr_bins_0: "concat (map lr_SC lr_SIZE_CLASSES_0) =
    map2 raw_entry (map fst lr_class_table) (map (\<lambda>p. p * 4096) lr_pages)"
  unfolding lr_SIZE_CLASSES_0_def lr_class_table_def lr_pages_def raw_entry_def by simp

lemma lr_bins_1: "concat (map lr_SC lr_SIZE_CLASSES_1) = []"
  unfolding lr_SIZE_CLASSES_1_def by simp

lemma lr_bins_2: "concat (map lr_SC lr_SIZE_CLASSES_2) = []"
  unfolding lr_SIZE_CLASSES_2_def by simp

lemma several_entries: "list_all2 (\<lambda>x y. entry_several x = Inr y)
    (map2 raw_entry (map fst lr_class_table) (map (\<lambda>p. p * 4096) lr_pages))
    (map2 raw_entry (map fst lr_class_table) (map (\<lambda>p. p * 4096) lr_pages_several))"
  unfolding lr_class_table_def lr_pages_def lr_pages_several_def raw_entry_def entry_several_def
    GROW_FUEL_def
  by (simp add: Let_def grow_while_numeral)

lemma K64_entries: "list_all2 (\<lambda>x y. entry_64K x = Inr y)
    (map2 raw_entry (map fst lr_class_table) (map (\<lambda>p. p * 4096) lr_pages_several))
    (map (\<lambda>(b, sb). raw_entry b sb) lr_class_table)"
  unfolding lr_class_table_def lr_pages_several_def raw_entry_def entry_64K_def GROW_FUEL_def
  by (simp add: Let_def grow_while_numeral)

lemma blockNum_entries: "list_all2 (\<lambda>x y. entry_blockNum x = Inr y)
    (map (\<lambda>(b, sb). raw_entry b sb) lr_class_table) (map lr_entry lr_class_table)"
  unfolding lr_class_table_def raw_entry_def entry_blockNum_def lr_entry_def
  by (simp add: Let_def)

definition SizeClasses_ready :: "lr_SizeClassData list" where
  "SizeClasses_ready =
     \<lparr>blockSize = 0, sbSize = 0, blockNum = 0, cacheBlockNum = 0\<rparr> # map lr_entry lr_class_table"

lemma length_lr_class_table [simp]: "length lr_class_table = 39"
  by (simp add: lr_class_table_def)

lemma length_SizeClasses_ready [simp]: "length SizeClasses_ready = 40"
  by (simp add: SizeClasses_ready_def)

lemma rfold_classes:
  assumes "\<And>i tbl. i < length tbl \<Longrightarrow> f i tbl = rbind (g (tbl ! i)) (\<lambda>x. Inr (tbl[i := x]))"
    and "list_all2 (\<lambda>x y. g x = Inr y) xs ys" and "length ys = 39"
  shows "rfold f [1..<40] (h # xs) = Inr (h # ys)"
  using rfold_elements [of f g xs ys "[h]"] assms list_all2_lengthD [OF assms(2)] by simp

text \<open>The numbers of a class: the size of a block and of a superblock, and the blocks of a superblock.\<close>

definition lbs :: "nat \<Rightarrow> nat" where
  "lbs c = fst (lr_class_table ! (c - 1))"

definition lsb :: "nat \<Rightarrow> nat" where
  "lsb c = snd (lr_class_table ! (c - 1))"

definition lnum :: "nat \<Rightarrow> nat" where
  "lnum c = lsb c div lbs c"

lemma lr_class_table_facts:
  "list_all (\<lambda>(b, sb). 8 \<le> b \<and> b \<le> 14336 \<and> b mod 8 = 0 \<and> 65536 \<le> sb \<and> sb \<le> 86016
     \<and> sb mod 4096 = 0 \<and> sb div b * b = sb \<and> 6 \<le> sb div b \<and> sb div b \<le> 8192) lr_class_table"
  by (simp add: lr_class_table_def)

lemma lr_class_facts:
  assumes "1 \<le> c" and "c < 40"
  shows "8 \<le> lbs c" and "lbs c \<le> 14336" and "lbs c mod 8 = 0" and "65536 \<le> lsb c"
    and "lsb c \<le> 86016" and "lsb c mod 4096 = 0" and "lnum c * lbs c = lsb c"
    and "6 \<le> lnum c" and "lnum c \<le> 8192"
proof -
  have "lr_class_table ! (c - 1) \<in> set lr_class_table" using assms by simp
  then have "(lbs c, lsb c) \<in> set lr_class_table" by (simp add: lbs_def lsb_def)
  then show "8 \<le> lbs c" and "lbs c \<le> 14336" and "lbs c mod 8 = 0" and "65536 \<le> lsb c"
    and "lsb c \<le> 86016" and "lsb c mod 4096 = 0" and "lnum c * lbs c = lsb c"
    and "6 \<le> lnum c" and "lnum c \<le> 8192"
    using lr_class_table_facts by (auto simp: list_all_iff lnum_def)
qed

lemma SizeClasses_ready_nth:
  assumes "1 \<le> c" and "c < 40"
  shows "blockSize (SizeClasses_ready ! c) = of_nat (lbs c)"
    and "sbSize (SizeClasses_ready ! c) = of_nat (lsb c)"
    and "blockNum (SizeClasses_ready ! c) = of_nat (lnum c)"
    and "cacheBlockNum (SizeClasses_ready ! c) = of_nat (lnum c)"
  using assms by (cases c; simp add: SizeClasses_ready_def lr_entry_def lbs_def lsb_def lnum_def)+

lemma unat_class:
  assumes "1 \<le> c" and "c < 40"
  shows "unat (blockSize (SizeClasses_ready ! c)) = lbs c"
    and "unat (sbSize (SizeClasses_ready ! c)) = lsb c"
    and "unat (blockNum (SizeClasses_ready ! c)) = lnum c"
    and "unat (cacheBlockNum (SizeClasses_ready ! c)) = lnum c"
  using lr_class_facts [OF assms] by (simp_all add: SizeClasses_ready_nth [OF assms] unat_of_nat32)

subsection \<open>The lookup array\<close>

lemma fill_while_eq: "fill_while bs sc i t = lookup_while bs sc i t"
  by (induction bs sc i t rule: fill_while.induct)
    (subst fill_while.simps, subst lookup_while.simps, simp add: fun_upd_def)

lemma lr_table_fst: "map fst lr_class_table = map fst class_table"
  by (simp add: lr_class_table_def class_table_def)

lemma lbs_bsz:
  assumes "1 \<le> c" and "c < 40"
  shows "lbs c = bsz c"
proof -
  have "lbs c = map fst lr_class_table ! (c - 1)" using assms by (simp add: lbs_def)
  also have "\<dots> = fst (class_table ! (c - 1))"
    unfolding lr_table_fst using assms by (simp add: length_class_table)
  also have "\<dots> = bsz c" using class_facts(6) [OF assms] by (metis fst_conv)
  finally show ?thesis .
qed

lemma fold_fill_lookup:
  assumes "\<And>c. c \<in> set cs \<Longrightarrow> 1 \<le> c \<and> c < 40"
  shows "fold (fill_lookup SizeClasses_ready) cs st = lookup_for cs st"
  using assms
proof (induction cs arbitrary: st)
  case (Cons c cs)
  obtain i t where st: "st = (i, t)" by (cases st)
  have "fill_lookup SizeClasses_ready c st = lookup_while (bsz c) c i t"
    using Cons.prems [of c] by (simp add: st fill_lookup_def fill_while_eq unat_class lbs_bsz)
  then show ?case using Cons st by (simp add: bsz_def)
qed simp

lemma InitSizeClass_eq:
  "InitSizeClass (SizeClasses_init, \<lambda>_. 0) = Inr (SizeClasses_ready, sizeclass_lookup)"
proof -
  let ?h = "\<lparr>blockSize = 0, sbSize = 0, blockNum = 0, cacheBlockNum = 0\<rparr>"
  note steps = rfold_classes [OF init_elements(1) several_entries, where h = ?h]
    rfold_classes [OF init_elements(2) K64_entries, where h = ?h]
    rfold_classes [OF init_elements(3) blockNum_entries, where h = ?h]
  have "SizeClasses_init = ?h # map2 raw_entry (map fst lr_class_table) (map (\<lambda>p. p * 4096) lr_pages)"
    by (simp add: SizeClasses_init_def lr_SIZE_CLASSES_def lr_bins_0 lr_bins_1 lr_bins_2)
  moreover have "snd (fold (fill_lookup SizeClasses_ready) [1..<40] (0, \<lambda>_. 0)) = sizeclass_lookup"
    by (subst fold_fill_lookup) (auto simp: sizeclass_lookup_def)
  ultimately show ?thesis
    using steps
    by (simp add: InitSizeClass_def lr_MAX_SZ_IDX_def SizeClasses_ready_def lr_pages_several_def
        del: upt_Suc upt_rec_numeral)
qed

lemma lr_lookup_best:
  assumes "n \<le> 14336"
  shows "1 \<le> sizeclass_lookup n" and "sizeclass_lookup n < 40" and "n \<le> lbs (sizeclass_lookup n)"
  using sizeclass_lookup_best [OF assms] by (auto simp: lbs_bsz)

subsection \<open>Properties\<close>

text \<open>
  C39. \<^verbatim>\<open>InitSizeClass\<close> returns, and in the table it leaves every superblock is a whole number of
  pages of at least 64 KB which its blocks fill \<^emph>\<open>perfectly\<close>, with at least six blocks, so that a
  superblock holds several blocks as the comment asks; blocks are multiples of 8 bytes.
\<close>

theorem InitSizeClass_wf:
  "\<exists>tbl lk. InitSizeClass (SizeClasses_init, \<lambda>_. 0) = Inr (tbl, lk) \<and> length tbl = lr_MAX_SZ_IDX
    \<and> (\<forall>c. 1 \<le> c \<and> c < lr_MAX_SZ_IDX \<longrightarrow>
        unat (sbSize (tbl ! c)) mod 4096 = 0 \<and> 65536 \<le> unat (sbSize (tbl ! c))
      \<and> unat (blockNum (tbl ! c)) * unat (blockSize (tbl ! c)) = unat (sbSize (tbl ! c))
      \<and> 6 \<le> unat (blockNum (tbl ! c)) \<and> cacheBlockNum (tbl ! c) = blockNum (tbl ! c)
      \<and> 8 \<le> unat (blockSize (tbl ! c)) \<and> unat (blockSize (tbl ! c)) mod 8 = 0)"
  by (intro exI conjI allI impI, rule InitSizeClass_eq)
    (auto simp: lr_MAX_SZ_IDX_def unat_class lr_class_facts word_unat_eq_iff)

theorem InitSizeClass_wf_witness:
  "\<exists>tbl lk. InitSizeClass (SizeClasses_init, \<lambda>_. 0) = Inr (tbl, lk)
    \<and> unat (blockNum (tbl ! 3)) * unat (blockSize (tbl ! 3)) = unat (sbSize (tbl ! 3))"
  using InitSizeClass_wf by (auto simp: lr_MAX_SZ_IDX_def)

text \<open>
  C40. ralloc's size classes are those of lrmalloc: the two tables have the same rows, the
  initialised lookup array of lrmalloc is the one ralloc's constructor builds, and the classes
  have the same block sizes; only the superblock sizes differ.
\<close>

theorem size_classes_equivalent:
  "lr_SIZE_CLASSES = SIZE_CLASSES
   \<and> (\<exists>tbl lk. InitSizeClass (SizeClasses_init, \<lambda>_. 0) = Inr (tbl, lk)
        \<and> (\<forall>n. GetSizeClass_lookup lk n = get_sizeclass n)
        \<and> (\<forall>c. 1 \<le> c \<and> c < MAX_SZ_IDX \<longrightarrow> blockSize (tbl ! c) = sc_block_size (get_sizeclass_by_idx c)))"
proof -
  have "lr_SIZE_CLASSES = SIZE_CLASSES"
    by (simp add: lr_SIZE_CLASSES_def SIZE_CLASSES_def lr_SIZE_CLASSES_0_def SIZE_CLASSES_0_def
        lr_SIZE_CLASSES_1_def SIZE_CLASSES_1_def lr_SIZE_CLASSES_2_def SIZE_CLASSES_2_def)
  moreover have "blockSize (SizeClasses_ready ! c) = sc_block_size (get_sizeclass_by_idx c)"
    if "1 \<le> c \<and> c < MAX_SZ_IDX" for c
    using that unat_class(1) [of c] by (simp add: word_unat_eq_iff lbs_bsz bsz_def)
  ultimately show ?thesis
    using InitSizeClass_eq by (auto simp: GetSizeClass_lookup_def get_sizeclass_def)
qed

theorem size_classes_equivalent_witness:
  "\<exists>tbl lk. InitSizeClass (SizeClasses_init, \<lambda>_. 0) = Inr (tbl, lk)
    \<and> GetSizeClass_lookup lk 100 = get_sizeclass 100
    \<and> blockSize (tbl ! 11) = sc_block_size (get_sizeclass_by_idx 11)"
  using size_classes_equivalent by auto

end
