(* ===== verification/LrBase.thy ===== *)
theory LrBase
  imports LrSizeClass Memory
begin

text \<open>
  The data of lrmalloc (\<^verbatim>\<open>src/ext/lrmalloc\<close>) and what its operations are built from: the macros of
  \<^verbatim>\<open>defines.h\<close>, the types of \<^verbatim>\<open>lrmalloc.h\<close>, the page map of \<^verbatim>\<open>pagemap.h\<close>, the thread cache of
  \<^verbatim>\<open>tcache.h\<close> and the page functions of \<^verbatim>\<open>pages.cpp\<close>.

  The memory of the process is the list \<open>lr_maps\<close> of its mappings together with two typed views
  of the mapped pages: \<open>lr_bytes\<close> for the blocks and \<open>lr_descs\<close> for the descriptors; \<^verbatim>\<open>mmap\<close>
  clears both on the pages it returns. Every access goes through \<open>touch\<close>, which fails with
  \<open>Segfault\<close> on a page that is not mapped. The kernel is the parameter \<open>os\<close>: the address
  \<^verbatim>\<open>mmap\<close> returns for a size, given the mappings there are; \<open>os_ok\<close> is its documented behaviour.
\<close>

subsection \<open>Macros\<close>

definition LG_PTR :: nat where "LG_PTR = 8"  \<comment> \<open>\<^verbatim>\<open>sizeof(void*)\<close>\<close>
definition lr_PTR_SZ :: u64 where "lr_PTR_SZ = push_bit LG_PTR 1"
definition lr_CACHELINE :: u64 where "lr_CACHELINE = push_bit 6 1"
definition lr_PAGE :: u64 where "lr_PAGE = push_bit 12 1"

definition PTR_MASK :: u64 where "PTR_MASK = lr_PTR_SZ - 1"
definition CACHELINE_MASK :: u64 where "CACHELINE_MASK = lr_CACHELINE - 1"
definition PAGE_MASK :: u64 where "PAGE_MASK = lr_PAGE - 1"

definition lr_ALIGN_VAL :: "u64 \<Rightarrow> u64 \<Rightarrow> u64" where
  "lr_ALIGN_VAL val align = (val + (align - 1)) AND (NOT align + 1)"

abbreviation lr_ALIGN_ADDR :: "addr \<Rightarrow> u64 \<Rightarrow> addr" where
  "lr_ALIGN_ADDR \<equiv> lr_ALIGN_VAL"

definition lr_PAGE_CEILING :: "u64 \<Rightarrow> u64" where
  "lr_PAGE_CEILING s = (s + (lr_PAGE - 1)) AND NOT (lr_PAGE - 1)"

subsection \<open>Types\<close>

datatype lr_SuperblockState = LR_SB_FULL | LR_SB_PARTIAL | LR_SB_EMPTY

record lr_Anchor =
  an_state :: lr_SuperblockState
  an_avail :: "31 word"
  an_count :: "31 word"

text \<open>A \<^verbatim>\<open>DescriptorNode\<close> is one word: a descriptor address with a counter in its low six bits.\<close>

type_synonym DescriptorNode = u64

definition DescriptorNode_Set :: "addr \<Rightarrow> u64 \<Rightarrow> DescriptorNode res" where
  "DescriptorNode_Set desc counter =
     ASSERT (desc AND CACHELINE_MASK = 0) ''((uint64_t)desc & CACHELINE_MASK) == 0''
     (Inr (desc OR (counter AND CACHELINE_MASK)))"

definition GetDesc :: "DescriptorNode \<Rightarrow> addr" where
  "GetDesc n = n AND NOT CACHELINE_MASK"

definition GetCounter :: "DescriptorNode \<Rightarrow> u64" where
  "GetCounter n = n AND CACHELINE_MASK"

text \<open>\<^verbatim>\<open>heap\<close> points into the array \<^verbatim>\<open>Heaps\<close> or is null: it is an index or \<open>None\<close>.\<close>

record lr_Descriptor =
  ds_nextFree :: DescriptorNode
  ds_nextPartial :: DescriptorNode
  ds_anchor :: lr_Anchor
  ds_superblock :: addr
  ds_heap :: "nat option"
  ds_blockSize :: u32
  ds_maxcount :: u32

definition sizeof_lr_Descriptor :: u64 where
  "sizeof_lr_Descriptor = 64"

definition zero_desc :: lr_Descriptor where
  "zero_desc = \<lparr>ds_nextFree = 0, ds_nextPartial = 0,
     ds_anchor = \<lparr>an_state = LR_SB_FULL, an_avail = 0, an_count = 0\<rparr>,
     ds_superblock = 0, ds_heap = None, ds_blockSize = 0, ds_maxcount = 0\<rparr>"

record lr_ProcHeap =
  ph_partialList :: DescriptorNode
  ph_scIdx :: nat

definition DESCRIPTOR_BLOCK_SZ :: u64 where
  "DESCRIPTOR_BLOCK_SZ = 16 * lr_PAGE"

record lr_TCacheBin =
  tc_block :: addr
  tc_blockNum :: u32

record lr_state =
  lr_maps :: "(nat \<times> nat) list"           \<comment> \<open>mapped ranges, from and up to\<close>
  lr_bytes :: memory
  lr_descs :: "addr \<Rightarrow> lr_Descriptor"
  AvailDesc :: DescriptorNode
  MallocInit :: bool
  Heaps :: "nat \<Rightarrow> lr_ProcHeap"
  SizeClasses :: "lr_SizeClassData list"
  SizeClassLookup :: "nat \<Rightarrow> nat"
  pm_base :: addr                          \<comment> \<open>\<^verbatim>\<open>sPageMap._pagemap\<close>\<close>
  pm_entry :: "u64 \<Rightarrow> u64"                \<comment> \<open>the entries of the page map by key\<close>
  lr_TCache :: "nat \<Rightarrow> nat \<Rightarrow> lr_TCacheBin"  \<comment> \<open>by thread and size class\<close>

text \<open>The static initialisers.\<close>

definition lr_start :: lr_state where
  "lr_start = \<lparr>lr_maps = [], lr_bytes = \<lambda>_. 0, lr_descs = \<lambda>_. zero_desc, AvailDesc = 0,
     MallocInit = False, Heaps = \<lambda>_. \<lparr>ph_partialList = 0, ph_scIdx = 0\<rparr>,
     SizeClasses = SizeClasses_init, SizeClassLookup = \<lambda>_. 0, pm_base = 0, pm_entry = \<lambda>_. 0,
     lr_TCache = \<lambda>_ _. \<lparr>tc_block = 0, tc_blockNum = 0\<rparr>\<rparr>"

subsection \<open>Accesses\<close>

definition in_maps :: "(nat \<times> nat) list \<Rightarrow> nat \<Rightarrow> bool" where
  "in_maps ms x = list_ex (\<lambda>(lo, hi). lo \<le> x \<and> x < hi) ms"

definition mapped :: "nat \<Rightarrow> addr \<Rightarrow> lr_state \<Rightarrow> bool" where
  "mapped n a s = (\<forall>i < n. in_maps (lr_maps s) (unat a + i))"

definition touch :: "nat \<Rightarrow> addr \<Rightarrow> lr_state \<Rightarrow> 'a res \<Rightarrow> 'a res" where
  "touch n a s r = (if mapped n a s then r else Inl Segfault)"

definition load_word :: "addr \<Rightarrow> lr_state \<Rightarrow> u64 res" where
  "load_word a s = touch 8 a s (Inr (load64 (lr_bytes s) a))"

definition store_word :: "addr \<Rightarrow> u64 \<Rightarrow> lr_state \<Rightarrow> lr_state res" where
  "store_word a v s = touch 8 a s (Inr (s\<lparr>lr_bytes := store64 (lr_bytes s) a v\<rparr>))"

definition get_desc :: "addr \<Rightarrow> lr_state \<Rightarrow> lr_Descriptor res" where
  "get_desc d s = touch 64 d s (Inr (lr_descs s d))"

definition upd_desc :: "addr \<Rightarrow> (lr_Descriptor \<Rightarrow> lr_Descriptor) \<Rightarrow> lr_state \<Rightarrow> lr_state res" where
  "upd_desc d f s = touch 64 d s (Inr (s\<lparr>lr_descs := (lr_descs s)(d := f (lr_descs s d))\<rparr>))"

subsection \<open>Pages\<close>

type_synonym kernel = "(nat \<times> nat) list \<Rightarrow> u64 \<Rightarrow> addr"

definition MAP_FAILED :: addr where
  "MAP_FAILED = - 1"

text \<open>
  What \<^verbatim>\<open>mmap\<close> promises of an anonymous mapping: a size of 0 is refused, and an address it
  returns is a page boundary other than 0, below \<open>2 ^ 48\<close> with its whole range, and no byte of the
  range was mapped.
\<close>

definition os_ok :: "kernel \<Rightarrow> bool" where
  "os_ok os = (\<forall>ms n. os ms n = MAP_FAILED \<or>
     n \<noteq> 0 \<and> os ms n \<noteq> 0 \<and> unat (os ms n) mod 4096 = 0 \<and> unat (os ms n) + unat n \<le> 2 ^ 48
     \<and> (\<forall>x. unat (os ms n) \<le> x \<and> x < unat (os ms n) + unat n \<longrightarrow> \<not> in_maps ms x))"

definition within :: "addr \<Rightarrow> nat \<Rightarrow> addr \<Rightarrow> bool" where
  "within lo n a = (unat lo \<le> unat a \<and> unat a < unat lo + n)"

definition mmap :: "kernel \<Rightarrow> u64 \<Rightarrow> lr_state \<Rightarrow> addr \<times> lr_state" where
  "mmap os size' s =
     (let p = os (lr_maps s) size' in
      if p = MAP_FAILED then (p, s)
      else (p, s\<lparr>lr_maps := (unat p, unat p + unat size') # lr_maps s,
                  lr_bytes := (\<lambda>a. if within p (unat size') a then 0 else lr_bytes s a),
                  lr_descs := (\<lambda>a. if within p (unat size') a then zero_desc else lr_descs s a)\<rparr>))"

text \<open>\<^verbatim>\<open>munmap\<close> takes a range out of the mappings it overlaps; a length of 0 is an error.\<close>

fun cut_range :: "nat \<Rightarrow> nat \<Rightarrow> nat \<times> nat \<Rightarrow> (nat \<times> nat) list" where
  "cut_range a b (lo, hi) = filter (\<lambda>(l, h). l < h) [(lo, min hi a), (max lo b, hi)]"

definition munmap :: "addr \<Rightarrow> u64 \<Rightarrow> lr_state \<Rightarrow> int \<times> lr_state" where
  "munmap ptr size' s =
     (if size' = 0 then (-1, s)
      else (0, s\<lparr>lr_maps := concat (map (cut_range (unat ptr) (unat ptr + unat size')) (lr_maps s))\<rparr>))"

definition PageAlloc :: "kernel \<Rightarrow> u64 \<Rightarrow> lr_state \<Rightarrow> (addr \<times> lr_state) res" where
  "PageAlloc os size' s =
     ASSERT (size' AND PAGE_MASK = 0) ''(size & PAGE_MASK) == 0''
     (case mmap os size' s of (ptr, s') \<Rightarrow>
        Inr (if ptr = MAP_FAILED then 0 else ptr, s'))"

definition PageAllocOvercommit :: "kernel \<Rightarrow> u64 \<Rightarrow> lr_state \<Rightarrow> (addr \<times> lr_state) res" where
  "PageAllocOvercommit os size' s =
     ASSERT (size' AND PAGE_MASK = 0) ''(size & PAGE_MASK) == 0''
     (case mmap os size' s of (ptr, s') \<Rightarrow>
        Inr (if ptr = MAP_FAILED then 0 else ptr, s'))"

definition PageFree :: "addr \<Rightarrow> u64 \<Rightarrow> lr_state \<Rightarrow> lr_state res" where
  "PageFree ptr size' s =
     ASSERT (size' AND PAGE_MASK = 0) ''(size & PAGE_MASK) == 0''
     (case munmap ptr size' s of (ret, s') \<Rightarrow> ASSERT (ret = 0) ''ret == 0'' (Inr s'))"

subsection \<open>The page map\<close>

definition PM_SB :: nat where "PM_SB = 64 - 14 - 12"
definition PM_KEY_MASK :: u64 where "PM_KEY_MASK = push_bit PM_SB 1 - 1"
definition SC_MASK :: u64 where "SC_MASK = push_bit 6 1 - 1"
definition PM_SZ :: u64 where "PM_SZ = push_bit PM_SB 1 * 8"

type_synonym PageInfo = u64

definition PageInfo_Set :: "addr \<Rightarrow> nat \<Rightarrow> PageInfo res" where
  "PageInfo_Set desc scIdx =
     ASSERT (desc AND SC_MASK = 0) ''((size_t)desc & SC_MASK) == 0''
     (ASSERT (scIdx < lr_MAX_SZ_IDX) ''scIdx < MAX_SZ_IDX''
     (Inr (desc OR of_nat scIdx)))"

definition PageInfo_GetDesc :: "PageInfo \<Rightarrow> addr" where
  "PageInfo_GetDesc i = i AND NOT SC_MASK"

definition PageInfo_GetScIdx :: "PageInfo \<Rightarrow> nat" where
  "PageInfo_GetScIdx i = unat (i AND SC_MASK)"

definition AddrToKey :: "addr \<Rightarrow> u64" where
  "AddrToKey ptr = drop_bit 12 ptr AND PM_KEY_MASK"

definition GetPageInfo :: "addr \<Rightarrow> lr_state \<Rightarrow> PageInfo res" where
  "GetPageInfo ptr s =
     (let key = AddrToKey ptr in touch 8 (pm_base s + 8 * key) s (Inr (pm_entry s key)))"

definition SetPageInfo :: "addr \<Rightarrow> PageInfo \<Rightarrow> lr_state \<Rightarrow> lr_state res" where
  "SetPageInfo ptr info s =
     (let key = AddrToKey ptr in
      touch 8 (pm_base s + 8 * key) s (Inr (s\<lparr>pm_entry := (pm_entry s)(key := info)\<rparr>)))"

text \<open>The pages of the map come from the kernel, which has cleared them.\<close>

definition PageMap_Init :: "kernel \<Rightarrow> lr_state \<Rightarrow> lr_state res" where
  "PageMap_Init os s =
     rbind (PageAllocOvercommit os PM_SZ s) (\<lambda>(p, s1).
       let s2 = s1\<lparr>pm_base := p, pm_entry := \<lambda>_. 0\<rparr> in ASSERT (pm_base s2 \<noteq> 0) ''_pagemap'' (Inr s2))"

subsection \<open>The thread cache\<close>

definition set_bin :: "nat \<Rightarrow> nat \<Rightarrow> lr_TCacheBin \<Rightarrow> lr_state \<Rightarrow> lr_state" where
  "set_bin t c b s = s\<lparr>lr_TCache := (lr_TCache s)(t := (lr_TCache s t)(c := b))\<rparr>"

definition PeekBlock :: "lr_TCacheBin \<Rightarrow> addr" where
  "PeekBlock b = tc_block b"

definition GetBlockNum :: "lr_TCacheBin \<Rightarrow> u32" where
  "GetBlockNum b = tc_blockNum b"

definition PushBlock :: "nat \<Rightarrow> nat \<Rightarrow> addr \<Rightarrow> lr_state \<Rightarrow> lr_state res" where
  "PushBlock t c block s =
     (let b = lr_TCache s t c in
      rbind (store_word block (tc_block b) s) (\<lambda>s1.
        Inr (set_bin t c \<lparr>tc_block = block, tc_blockNum = tc_blockNum b + 1\<rparr> s1)))"

definition PushList :: "nat \<Rightarrow> nat \<Rightarrow> addr \<Rightarrow> u32 \<Rightarrow> lr_state \<Rightarrow> lr_state res" where
  "PushList t c block len s =
     ASSERT (tc_blockNum (lr_TCache s t c) = 0) ''_blockNum == 0''
     (Inr (set_bin t c \<lparr>tc_block = block, tc_blockNum = len\<rparr> s))"

definition PopBlock :: "nat \<Rightarrow> nat \<Rightarrow> lr_state \<Rightarrow> (addr \<times> lr_state) res" where
  "PopBlock t c s =
     (let b = lr_TCache s t c in
      ASSERT (tc_blockNum b > 0) ''_blockNum > 0''
      (rbind (load_word (tc_block b) s) (\<lambda>nxt.
         Inr (tc_block b, set_bin t c \<lparr>tc_block = nxt, tc_blockNum = tc_blockNum b - 1\<rparr> s))))"

definition PopList :: "nat \<Rightarrow> nat \<Rightarrow> addr \<Rightarrow> u32 \<Rightarrow> lr_state \<Rightarrow> lr_state res" where
  "PopList t c block len s =
     (let b = lr_TCache s t c in
      ASSERT (tc_blockNum b \<ge> len) ''_blockNum >= length''
      (Inr (set_bin t c \<lparr>tc_block = block, tc_blockNum = tc_blockNum b - len\<rparr> s)))"

end
