(* ===== verification/LrMalloc.thy ===== *)
theory LrMalloc
  imports LrBase
begin

text \<open>
  The operations of \<^verbatim>\<open>src/ext/lrmalloc/lrmalloc.cpp\<close>, in the order of the file: registering
  superblocks in the page map, the partial lists and the list of free descriptors, filling and
  flushing a thread cache, allocation and deallocation, and the exported functions. \<open>t\<close> is the
  calling thread and \<open>os\<close> the kernel. An operation runs without interference, so that a
  \<^verbatim>\<open>compare_exchange_weak\<close> finds the value it loaded; \<open>CAS_FUEL\<close> bounds the retry loops.
\<close>

subsection \<open>The page map\<close>

definition GetSizeClass_heap :: "nat \<Rightarrow> lr_state \<Rightarrow> lr_SizeClassData" where
  "GetSizeClass_heap h s = SizeClasses s ! ph_scIdx (Heaps s h)"

definition UpdatePageMap :: "nat option \<Rightarrow> addr \<Rightarrow> addr \<Rightarrow> nat \<Rightarrow> lr_state \<Rightarrow> lr_state res" where
  "UpdatePageMap heap ptr desc scIdx s =
     ASSERT (ptr \<noteq> 0) ''ptr''
     (rbind (PageInfo_Set desc scIdx) (\<lambda>info.
      case heap of
        None \<Rightarrow> SetPageInfo ptr info s
      | Some h \<Rightarrow>
          let sz = ucast (sbSize (GetSizeClass_heap h s)) :: u64 in
          ASSERT (sz AND PAGE_MASK = 0) ''(sbSize & PAGE_MASK) == 0''
          (rfold (\<lambda>i. SetPageInfo (ptr + of_nat (i * unat lr_PAGE)) info)
             [0..<(unat sz + (unat lr_PAGE - 1)) div unat lr_PAGE] s)))"

definition RegisterDesc :: "addr \<Rightarrow> lr_state \<Rightarrow> lr_state res" where
  "RegisterDesc desc s =
     rbind (get_desc desc s) (\<lambda>d.
       let heap = ds_heap d; ptr = ds_superblock d;
           scIdx = (case heap of None \<Rightarrow> 0 | Some h \<Rightarrow> ph_scIdx (Heaps s h))
       in UpdatePageMap heap ptr desc scIdx s)"

definition UnregisterDesc :: "nat option \<Rightarrow> addr \<Rightarrow> lr_state \<Rightarrow> lr_state res" where
  "UnregisterDesc heap superblock s = UpdatePageMap heap superblock 0 0 s"

definition GetPageInfoForPtr :: "addr \<Rightarrow> lr_state \<Rightarrow> PageInfo res" where
  "GetPageInfoForPtr ptr s = GetPageInfo ptr s"

text \<open>
  The labels and the divisors of the \<^verbatim>\<open>switch\<close> of \<^verbatim>\<open>ComputeIdx\<close> come from the rows that are bins.
\<close>

fun lr_SC_case :: "sc_row \<Rightarrow> (nat \<times> u32) list" where
  "lr_SC_case (SC index lg_grp lg_delta ndelta psz bin pgs lg_delta_lookup) =
     (if bin then [(index + 1, push_bit lg_grp 1 + push_bit lg_delta (of_nat ndelta))] else [])"

definition ComputeIdx :: "addr \<Rightarrow> addr \<Rightarrow> nat \<Rightarrow> lr_state \<Rightarrow> u32 res" where
  "ComputeIdx superblock block scIdx s =
     (let sc = SizeClasses s ! scIdx; scBlockSize = blockSize sc in
      ASSERT (block \<ge> superblock) ''block >= superblock''
      (ASSERT (block < superblock + ucast (sbSize sc)) ''block < superblock + sc->sbSize''
      (let diff = ucast (block - superblock) :: u32;
           case' = map_of (concat (map lr_SC_case lr_SIZE_CLASSES)) scIdx;
           idx = (case case' of Some bs \<Rightarrow> diff div bs | None \<Rightarrow> 0)
       in ASSERT (case' = Some scBlockSize) ''scBlockSize == blockSize''
          (ASSERT (diff div scBlockSize = idx) ''diff / scBlockSize == idx'' (Inr idx)))))"

subsection \<open>The partial lists\<close>

definition set_heap :: "nat \<Rightarrow> DescriptorNode \<Rightarrow> lr_state \<Rightarrow> lr_state" where
  "set_heap h v s = s\<lparr>Heaps := (Heaps s)(h := (Heaps s h)\<lparr>ph_partialList := v\<rparr>)\<rparr>"

definition partialList_cas ::
    "nat \<Rightarrow> DescriptorNode \<Rightarrow> DescriptorNode \<Rightarrow> lr_state \<Rightarrow> bool \<times> DescriptorNode \<times> lr_state" where
  "partialList_cas h expected desired s =
     (let cur = ph_partialList (Heaps s h) in
      if cur = expected then (True, expected, set_heap h desired s) else (False, cur, s))"

fun ListPopPartial_loop :: "nat \<Rightarrow> nat \<Rightarrow> DescriptorNode \<Rightarrow> lr_state \<Rightarrow> (addr \<times> lr_state) res" where
  "ListPopPartial_loop 0 h oldHead s = Inl OutOfFuel"
| "ListPopPartial_loop (Suc n) h oldHead s =
     (let oldDesc = GetDesc oldHead in
      if oldDesc = 0 then Inr (0, s)
      else rbind (get_desc oldDesc s) (\<lambda>od.
        let desc = GetDesc (ds_nextPartial od); counter = GetCounter oldHead in
        rbind (DescriptorNode_Set desc counter) (\<lambda>newHead.
          case partialList_cas h oldHead newHead s of (ok, oldHead', s') \<Rightarrow>
            if ok then Inr (GetDesc oldHead, s') else ListPopPartial_loop n h oldHead' s')))"

definition ListPopPartial :: "nat \<Rightarrow> lr_state \<Rightarrow> (addr \<times> lr_state) res" where
  "ListPopPartial h s = ListPopPartial_loop CAS_FUEL h (ph_partialList (Heaps s h)) s"

definition push_partial_body ::
    "addr \<Rightarrow> DescriptorNode \<Rightarrow> lr_state \<Rightarrow> (DescriptorNode \<times> lr_state) res" where
  "push_partial_body desc oldHead s =
     rbind (DescriptorNode_Set desc (GetCounter oldHead + 1)) (\<lambda>newHead.
       ASSERT (GetDesc oldHead \<noteq> GetDesc newHead) ''oldHead.GetDesc() != newHead.GetDesc()''
       (rbind (upd_desc (GetDesc newHead) (ds_nextPartial_update (\<lambda>_. oldHead)) s) (\<lambda>s1.
          Inr (newHead, s1))))"

definition ListPushPartial :: "addr \<Rightarrow> lr_state \<Rightarrow> lr_state res" where
  "ListPushPartial desc s =
     rbind (get_desc desc s) (\<lambda>d.
       case ds_heap d of
         None \<Rightarrow> Inl Segfault
       | Some h \<Rightarrow>
           rbind (cas_loop CAS_FUEL (push_partial_body desc) (partialList_cas h)
                    (ph_partialList (Heaps s h)) s)
             (\<lambda>(oldHead, newHead, s'). Inr s'))"

definition HeapPushPartial :: "addr \<Rightarrow> lr_state \<Rightarrow> lr_state res" where
  "HeapPushPartial desc s = ListPushPartial desc s"

definition HeapPopPartial :: "nat \<Rightarrow> lr_state \<Rightarrow> (addr \<times> lr_state) res" where
  "HeapPopPartial heap s = ListPopPartial heap s"

subsection \<open>Descriptors\<close>

definition AvailDesc_cas ::
    "DescriptorNode \<Rightarrow> DescriptorNode \<Rightarrow> lr_state \<Rightarrow> bool \<times> DescriptorNode \<times> lr_state" where
  "AvailDesc_cas expected desired s =
     (if AvailDesc s = expected then (True, expected, s\<lparr>AvailDesc := desired\<rparr>)
      else (False, AvailDesc s, s))"

text \<open>
  The loop that chains the descriptors of a new block of pages; a block has
  \<^verbatim>\<open>DESCRIPTOR_BLOCK_SZ\<close>/64 descriptors, so that \<open>DESC_FUEL\<close> iterations are enough.
\<close>

definition DESC_FUEL :: nat where
  "DESC_FUEL = 1024"

fun chain_descs :: "nat \<Rightarrow> addr \<Rightarrow> addr \<Rightarrow> addr \<Rightarrow> lr_state \<Rightarrow> (addr \<times> lr_state) res" where
  "chain_descs 0 ptr prev currPtr s = Inl OutOfFuel"
| "chain_descs (Suc n) ptr prev currPtr s =
     (if currPtr + sizeof_lr_Descriptor < ptr + DESCRIPTOR_BLOCK_SZ then
        rbind (if prev \<noteq> 0 then upd_desc prev (ds_nextFree_update (\<lambda>_. currPtr)) s else Inr s) (\<lambda>s1.
          chain_descs n ptr currPtr (lr_ALIGN_ADDR (currPtr + sizeof_lr_Descriptor) lr_CACHELINE) s1)
      else Inr (prev, s))"

definition add_descs_body ::
    "addr \<Rightarrow> addr \<Rightarrow> DescriptorNode \<Rightarrow> lr_state \<Rightarrow> (DescriptorNode \<times> lr_state) res" where
  "add_descs_body first prev oldHead s =
     rbind (upd_desc prev (ds_nextFree_update (\<lambda>_. oldHead)) s) (\<lambda>s1.
     rbind (DescriptorNode_Set first (GetCounter oldHead + 1)) (\<lambda>newHead. Inr (newHead, s1)))"

definition new_descs :: "kernel \<Rightarrow> lr_state \<Rightarrow> (addr \<times> lr_state) res" where
  "new_descs os s =
     rbind (PageAlloc os DESCRIPTOR_BLOCK_SZ s) (\<lambda>(ptr, s1).
     let first = lr_ALIGN_ADDR (ptr + sizeof_lr_Descriptor) lr_CACHELINE in
     rbind (chain_descs DESC_FUEL ptr 0 first s1) (\<lambda>(prev, s2).
     rbind (upd_desc prev (ds_nextFree_update (\<lambda>_. 0)) s2) (\<lambda>s3.
     rbind (cas_loop CAS_FUEL (add_descs_body first prev) AvailDesc_cas (AvailDesc s3) s3)
       (\<lambda>(oldHead, newHead, s4). Inr (ptr, s4)))))"

fun DescAlloc_loop :: "nat \<Rightarrow> kernel \<Rightarrow> DescriptorNode \<Rightarrow> lr_state \<Rightarrow> (addr \<times> lr_state) res" where
  "DescAlloc_loop 0 os oldHead s = Inl OutOfFuel"
| "DescAlloc_loop (Suc n) os oldHead s =
     (let desc = GetDesc oldHead in
      if desc \<noteq> 0 then
        rbind (get_desc desc s) (\<lambda>d.
        rbind (DescriptorNode_Set (GetDesc (ds_nextFree d)) (GetCounter oldHead)) (\<lambda>newHead.
          case AvailDesc_cas oldHead newHead s of (ok, oldHead', s') \<Rightarrow>
            if ok then ASSERT (ds_blockSize d = 0) ''desc->blockSize == 0'' (Inr (desc, s'))
            else DescAlloc_loop n os oldHead' s'))
      else new_descs os s)"

definition DescAlloc :: "kernel \<Rightarrow> lr_state \<Rightarrow> (addr \<times> lr_state) res" where
  "DescAlloc os s = DescAlloc_loop CAS_FUEL os (AvailDesc s) s"

definition retire_body ::
    "addr \<Rightarrow> DescriptorNode \<Rightarrow> lr_state \<Rightarrow> (DescriptorNode \<times> lr_state) res" where
  "retire_body desc oldHead s =
     rbind (upd_desc desc (ds_nextFree_update (\<lambda>_. oldHead)) s) (\<lambda>s1.
     rbind (DescriptorNode_Set desc (GetCounter oldHead + 1)) (\<lambda>newHead. Inr (newHead, s1)))"

definition DescRetire :: "addr \<Rightarrow> lr_state \<Rightarrow> lr_state res" where
  "DescRetire desc s =
     rbind (upd_desc desc (ds_blockSize_update (\<lambda>_. 0)) s) (\<lambda>s1.
     rbind (cas_loop CAS_FUEL (retire_body desc) AvailDesc_cas (AvailDesc s1) s1)
       (\<lambda>(oldHead, newHead, s2). Inr s2))"

subsection \<open>Filling a cache\<close>

definition lr_anchor_cas ::
    "addr \<Rightarrow> lr_Anchor \<Rightarrow> lr_Anchor \<Rightarrow> lr_state \<Rightarrow> bool \<times> lr_Anchor \<times> lr_state" where
  "lr_anchor_cas desc expected desired s =
     (let cur = ds_anchor (lr_descs s desc) in
      if cur = expected
      then (True, expected,
            s\<lparr>lr_descs := (lr_descs s)(desc := (lr_descs s desc)\<lparr>ds_anchor := desired\<rparr>)\<rparr>)
      else (False, cur, s))"

text \<open>The loop that reserves the blocks of a partial superblock; \<open>None\<close> when it finds it empty.\<close>

fun reserve_blocks ::
    "nat \<Rightarrow> addr \<Rightarrow> u32 \<Rightarrow> lr_Anchor \<Rightarrow> lr_state \<Rightarrow> (lr_Anchor option \<times> lr_state) res" where
  "reserve_blocks 0 desc maxcount oldAnchor s = Inl OutOfFuel"
| "reserve_blocks (Suc n) desc maxcount oldAnchor s =
     (if an_state oldAnchor = LR_SB_EMPTY then Inr (None, s)
      else ASSERT (an_state oldAnchor = LR_SB_PARTIAL) ''oldAnchor.state == SB_PARTIAL''
        (let newAnchor = oldAnchor\<lparr>an_count := 0, an_avail := ucast maxcount, an_state := LR_SB_FULL\<rparr>
         in case lr_anchor_cas desc oldAnchor newAnchor s of (ok, oldAnchor', s') \<Rightarrow>
              if ok then Inr (Some oldAnchor, s') else reserve_blocks n desc maxcount oldAnchor' s'))"

fun MallocFromPartial :: "nat \<Rightarrow> nat \<Rightarrow> nat \<Rightarrow> u64 \<Rightarrow> lr_state \<Rightarrow> (u64 \<times> lr_state) res" where
  "MallocFromPartial 0 t scIdx blkNum s = Inl OutOfFuel"
| "MallocFromPartial (Suc n) t scIdx blkNum s =
     rbind (HeapPopPartial scIdx s) (\<lambda>(desc, s1).
     if desc = 0 then Inr (blkNum, s1)
     else rbind (get_desc desc s1) (\<lambda>d.
       let maxcount = ds_maxcount d; bs = ds_blockSize d; superblock = ds_superblock d in
       rbind (reserve_blocks CAS_FUEL desc maxcount (ds_anchor d) s1) (\<lambda>(r, s2).
       case r of
         None \<Rightarrow> rbind (DescRetire desc s2) (MallocFromPartial n t scIdx blkNum)
       | Some oldAnchor \<Rightarrow>
           let blocksTaken = ucast (an_count oldAnchor) :: u32;
               avail = ucast (an_avail oldAnchor) :: u32 in
           ASSERT (avail < maxcount) ''avail < maxcount''
           (let block = superblock + ucast (avail * bs) in
            ASSERT (GetBlockNum (lr_TCache s2 t scIdx) = 0) ''cache->GetBlockNum() == 0''
            (rbind (PushList t scIdx block blocksTaken s2) (\<lambda>s3.
               Inr (blkNum + ucast blocksTaken, s3)))))))"

text \<open>The \<^verbatim>\<open>for\<close> loop of \<^verbatim>\<open>MallocFromNewSB\<close> that links the blocks.\<close>

definition prepare_blocks :: "addr \<Rightarrow> u32 \<Rightarrow> u32 \<Rightarrow> lr_state \<Rightarrow> lr_state res" where
  "prepare_blocks superblock bs maxcount s =
     rfold (\<lambda>idx. store_word (superblock + ucast (of_nat idx * bs))
                    (superblock + ucast ((of_nat idx + 1) * bs)))
       [0..<unat (maxcount - 1)] s"

definition MallocFromNewSB ::
    "kernel \<Rightarrow> nat \<Rightarrow> nat \<Rightarrow> u64 \<Rightarrow> lr_state \<Rightarrow> (u64 \<times> lr_state) res" where
  "MallocFromNewSB os t scIdx blkNum s =
     (let sc = SizeClasses s ! scIdx in
      rbind (DescAlloc os s) (\<lambda>(desc, s1).
      ASSERT (desc \<noteq> 0) ''desc''
      (let bs = blockSize sc; maxcount = ucast (GetBlockNum_sc sc) :: u32 in
      rbind (upd_desc desc (\<lambda>d. d\<lparr>ds_heap := Some scIdx, ds_blockSize := bs, ds_maxcount := maxcount\<rparr>) s1) (\<lambda>s2.
      rbind (PageAlloc os (ucast (sbSize sc)) s2) (\<lambda>(superblock, s3).
      rbind (upd_desc desc (ds_superblock_update (\<lambda>_. superblock)) s3) (\<lambda>s4.
      rbind (prepare_blocks superblock bs maxcount s4) (\<lambda>s5.
      rbind (PushList t scIdx superblock maxcount s5) (\<lambda>s6.
      let anchor = \<lparr>an_state = LR_SB_FULL, an_avail = ucast maxcount, an_count = 0\<rparr> in
      rbind (upd_desc desc (ds_anchor_update (\<lambda>_. anchor)) s6) (\<lambda>s7.
      ASSERT (ucast (an_avail anchor) < maxcount \<or> an_state anchor = LR_SB_FULL)
        ''anchor.avail < maxcount || anchor.state == SB_FULL''
      (ASSERT (ucast (an_count anchor) < maxcount) ''anchor.count < maxcount''
      (rbind (RegisterDesc desc s7) (\<lambda>s8.
      ASSERT (an_state anchor = LR_SB_FULL) ''anchor.state == SB_FULL''
      (Inr (blkNum + ucast maxcount, s8))))))))))))))"

text \<open>
  Retries of \<^verbatim>\<open>MallocFromPartial\<close>: each takes a descriptor off the partial list, and there are
  \<open>2 ^ 58\<close> addresses that are multiples of 64.
\<close>

definition LR_PARTIAL_FUEL :: nat where
  "LR_PARTIAL_FUEL = Suc (2 ^ 58)"

definition FillCache :: "kernel \<Rightarrow> nat \<Rightarrow> nat \<Rightarrow> lr_state \<Rightarrow> lr_state res" where
  "FillCache os t scIdx s =
     rbind (MallocFromPartial LR_PARTIAL_FUEL t scIdx 0 s) (\<lambda>(blkNum, s1).
     rbind (if blkNum = 0 then MallocFromNewSB os t scIdx blkNum s1 else Inr (blkNum, s1)) (\<lambda>(blkNum', s2).
     ASSERT (blkNum' > 0) ''blockNum > 0''
     (ASSERT (blkNum' \<le> ucast (cacheBlockNum (SizeClasses s2 ! scIdx))) ''blockNum <= sc->cacheBlockNum''
     (Inr s2))))"

subsection \<open>Flushing a cache\<close>

text \<open>The inner \<^verbatim>\<open>while\<close>: how many of the first blocks lie in one superblock, and the last of them.\<close>

lemma rbind_cong [fundef_cong]:
  "r = r' \<Longrightarrow> (\<And>x. r' = Inr x \<Longrightarrow> k x = k' x) \<Longrightarrow> rbind r k = rbind r' k'"
  by (cases r') auto

function same_superblock ::
    "lr_state \<Rightarrow> addr \<Rightarrow> u32 \<Rightarrow> u32 \<Rightarrow> u32 \<Rightarrow> addr \<Rightarrow> (u32 \<times> addr) res" where
  "same_superblock s superblock sbsize num blockCount tail =
     (if num > blockCount then
        rbind (load_word tail s) (\<lambda>ptr.
          if ptr < superblock \<or> ptr \<ge> superblock + ucast sbsize then Inr (blockCount, tail)
          else same_superblock s superblock sbsize num (blockCount + 1) ptr)
      else Inr (blockCount, tail))"
  by pat_completeness auto
termination
proof (relation "measure (\<lambda>(s, sb, sz, num, bc, tail). unat num - unat bc)")
  fix s :: lr_state and sb :: addr and sz num bc :: u32 and tail ptr :: addr
  assume "bc < num"
  then have "unat bc < unat num" by (simp add: word_less_nat_alt)
  moreover have "unat bc < 4294967295" using calculation unat_lt32 [of num] by linarith
  then have "unat (bc + 1) = unat bc + 1" by (intro unat_suc32) simp
  ultimately show "((s, sb, sz, num, bc + 1, ptr), (s, sb, sz, num, bc, tail))
      \<in> measure (\<lambda>(s, sb, sz, num, bc, tail). unat num - unat bc)" by simp
qed simp

declare same_superblock.simps [simp del]

text \<open>The body of the anchor loop: it links the tail to the free list and computes the new anchor.\<close>

definition flush_body ::
    "addr \<Rightarrow> addr \<Rightarrow> u32 \<Rightarrow> addr \<Rightarrow> u32 \<Rightarrow> u32 \<Rightarrow> lr_Anchor \<Rightarrow> lr_state \<Rightarrow> (lr_Anchor \<times> lr_state) res" where
  "flush_body desc superblock bs tail idx blockCount oldAnchor s =
     (let nxt = superblock + ucast (ucast (an_avail oldAnchor) * bs) in
      rbind (store_word tail nxt s) (\<lambda>s1.
      rbind (get_desc desc s1) (\<lambda>d.
      let new1 = oldAnchor\<lparr>an_avail := ucast idx\<rparr>;
          new2 = (if an_state oldAnchor = LR_SB_FULL then new1\<lparr>an_state := LR_SB_PARTIAL\<rparr> else new1)
      in ASSERT (ucast (an_count oldAnchor) < ds_maxcount d) ''oldAnchor.count < desc->maxcount''
         (Inr (if ucast (an_count oldAnchor) + blockCount = ds_maxcount d
               then new2\<lparr>an_count := ucast (ds_maxcount d - 1), an_state := LR_SB_EMPTY\<rparr>
               else new2\<lparr>an_count := an_count new2 + ucast blockCount\<rparr>, s1)))))"

definition FlushCache_iter :: "nat \<Rightarrow> nat \<Rightarrow> lr_state \<Rightarrow> lr_state res" where
  "FlushCache_iter t scIdx s =
     (let sc = SizeClasses s ! scIdx;
          sbsize = sbSize sc; bs = blockSize sc; maxcount = ucast (GetBlockNum_sc sc) :: u32;
          cache = lr_TCache s t scIdx;
          head = PeekBlock cache in
      rbind (GetPageInfoForPtr head s) (\<lambda>info.
      let desc = PageInfo_GetDesc info in
      rbind (get_desc desc s) (\<lambda>d.
      let superblock = ds_superblock d in
      rbind (same_superblock s superblock sbsize (GetBlockNum cache) 1 head) (\<lambda>(blockCount, tail).
      rbind (load_word tail s) (\<lambda>nxt.
      rbind (PopList t scIdx nxt blockCount s) (\<lambda>s1.
      rbind (ComputeIdx superblock head scIdx s1) (\<lambda>idx.
      rbind (cas_loop CAS_FUEL (flush_body desc superblock bs tail idx blockCount)
               (lr_anchor_cas desc) (ds_anchor (lr_descs s1 desc)) s1)
        (\<lambda>(oldAnchor, newAnchor, s2).
      ASSERT (ucast (an_avail oldAnchor) < maxcount \<or> an_state oldAnchor = LR_SB_FULL)
        ''oldAnchor.avail < maxcount || oldAnchor.state == SB_FULL''
      (ASSERT (ucast (an_avail newAnchor) < maxcount) ''newAnchor.avail < maxcount''
      (ASSERT (ucast (an_count newAnchor) < maxcount) ''newAnchor.count < maxcount''
      (if an_state newAnchor = LR_SB_EMPTY then
         rbind (UnregisterDesc (Some scIdx) superblock s2) (\<lambda>s3.
           PageFree superblock (ucast (sbSize (GetSizeClass_heap scIdx s3))) s3)
       else if an_state oldAnchor = LR_SB_FULL then HeapPushPartial desc s2
       else Inr s2)))))))))))"

text \<open>Every iteration removes at least one block from the cache.\<close>

fun FlushCache_loop :: "nat \<Rightarrow> nat \<Rightarrow> nat \<Rightarrow> lr_state \<Rightarrow> lr_state res" where
  "FlushCache_loop 0 t scIdx s = Inl OutOfFuel"
| "FlushCache_loop (Suc n) t scIdx s =
     (if GetBlockNum (lr_TCache s t scIdx) > 0
      then rbind (FlushCache_iter t scIdx s) (FlushCache_loop n t scIdx)
      else Inr s)"

definition FlushCache :: "nat \<Rightarrow> nat \<Rightarrow> lr_state \<Rightarrow> lr_state res" where
  "FlushCache t scIdx s =
     FlushCache_loop (Suc (unat (GetBlockNum (lr_TCache s t scIdx)))) t scIdx s"

subsection \<open>Allocation and deallocation\<close>

definition init_ProcHeap :: "nat \<Rightarrow> lr_state \<Rightarrow> lr_state" where
  "init_ProcHeap idx s = s\<lparr>Heaps := (Heaps s)(idx := \<lparr>ph_partialList = 0, ph_scIdx = idx\<rparr>)\<rparr>"

definition InitMalloc :: "kernel \<Rightarrow> lr_state \<Rightarrow> lr_state res" where
  "InitMalloc os s =
     (let s1 = s\<lparr>MallocInit := True\<rparr> in
      rbind (InitSizeClass (SizeClasses s1, SizeClassLookup s1)) (\<lambda>(tbl, lk).
      rbind (PageMap_Init os (s1\<lparr>SizeClasses := tbl, SizeClassLookup := lk\<rparr>)) (\<lambda>s2.
      Inr (fold init_ProcHeap [0..<lr_MAX_SZ_IDX] s2))))"

definition GetSizeClass :: "u64 \<Rightarrow> lr_state \<Rightarrow> nat" where
  "GetSizeClass size' s = GetSizeClass_lookup (SizeClassLookup s) size'"

definition ensure_init :: "kernel \<Rightarrow> lr_state \<Rightarrow> lr_state res" where
  "ensure_init os s = (if \<not> MallocInit s then InitMalloc os s else Inr s)"

text \<open>The cached part that \<^verbatim>\<open>do_malloc\<close> and \<^verbatim>\<open>do_aligned_alloc\<close> end with.\<close>

definition lr_malloc_small :: "kernel \<Rightarrow> nat \<Rightarrow> u64 \<Rightarrow> lr_state \<Rightarrow> (addr \<times> lr_state) res" where
  "lr_malloc_small os t size' s =
     (let scIdx = GetSizeClass size' s in
      rbind (if GetBlockNum (lr_TCache s t scIdx) = 0 then FillCache os t scIdx s else Inr s)
        (PopBlock t scIdx))"

definition large_anchor :: lr_Anchor where
  "large_anchor = \<lparr>an_state = LR_SB_FULL, an_avail = 0, an_count = 0\<rparr>"

definition lr_do_malloc :: "kernel \<Rightarrow> nat \<Rightarrow> u64 \<Rightarrow> lr_state \<Rightarrow> (addr \<times> lr_state) res" where
  "lr_do_malloc os t size' s =
     rbind (ensure_init os s) (\<lambda>s0.
     if size' > lr_MAX_SZ then
       let pages = lr_PAGE_CEILING size' in
       rbind (DescAlloc os s0) (\<lambda>(desc, s1).
       ASSERT (desc \<noteq> 0) ''desc''
       (rbind (upd_desc desc (\<lambda>d. d\<lparr>ds_heap := None, ds_blockSize := ucast pages, ds_maxcount := 1\<rparr>) s1) (\<lambda>s2.
       rbind (PageAlloc os pages s2) (\<lambda>(p, s3).
       rbind (upd_desc desc (ds_superblock_update (\<lambda>_. p)) s3) (\<lambda>s4.
       rbind (upd_desc desc (ds_anchor_update (\<lambda>_. large_anchor)) s4) (\<lambda>s5.
       rbind (RegisterDesc desc s5) (\<lambda>s6.
       rbind (get_desc desc s6) (\<lambda>d. Inr (ds_superblock d, s6)))))))))
     else lr_malloc_small os t size' s0)"

definition isPowerOfTwo :: "u64 \<Rightarrow> bool" where
  "isPowerOfTwo x = (x \<noteq> 0 \<and> x AND (x - 1) = 0)"

definition do_aligned_alloc ::
    "kernel \<Rightarrow> nat \<Rightarrow> u64 \<Rightarrow> u64 \<Rightarrow> lr_state \<Rightarrow> (addr \<times> lr_state) res" where
  "do_aligned_alloc os t alignment size0 s =
     (if \<not> isPowerOfTwo alignment then Inr (0, s)
      else
        let size1 = lr_ALIGN_VAL size0 alignment in
        ASSERT (size1 > 0 \<and> alignment > 0 \<and> size1 \<ge> alignment)
          ''size > 0 && alignment > 0 && size >= alignment''
        (rbind (ensure_init os s) (\<lambda>s0.
         if size1 > lr_PAGE then
           let size2 = max size1 (lr_MAX_SZ + 1);
               needsMorePages = alignment > lr_PAGE;
               size3 = (if needsMorePages then size2 + alignment else size2);
               pages = lr_PAGE_CEILING size3 in
           rbind (DescAlloc os s0) (\<lambda>(desc, s1).
           ASSERT (desc \<noteq> 0) ''desc''
           (rbind (PageAlloc os pages s1) (\<lambda>(ptr, s2).
           rbind (upd_desc desc (\<lambda>d. d\<lparr>ds_heap := None, ds_blockSize := ucast pages, ds_maxcount := 1,
                    ds_superblock := ptr\<rparr>) s2) (\<lambda>s3.
           rbind (upd_desc desc (ds_anchor_update (\<lambda>_. large_anchor)) s3) (\<lambda>s4.
           rbind (RegisterDesc desc s4) (\<lambda>s5.
           if needsMorePages then
             let ptr' = lr_ALIGN_ADDR ptr alignment in
             ASSERT (ptr' + size3 \<le> ds_superblock (lr_descs s5 desc) + ucast (ds_blockSize (lr_descs s5 desc)))
               ''(ptr + size) <= (desc->superblock + desc->blockSize)''
             (rbind (UpdatePageMap None ptr' desc 0 s5) (\<lambda>s6. Inr (ptr', s6)))
           else Inr (ptr, s5)))))))
         else ASSERT (size1 \<le> lr_PAGE) ''size <= PAGE'' (lr_malloc_small os t size1 s0))))"

definition lr_do_free :: "nat \<Rightarrow> addr \<Rightarrow> lr_state \<Rightarrow> lr_state res" where
  "lr_do_free t ptr s =
     rbind (GetPageInfoForPtr ptr s) (\<lambda>info.
     let desc = PageInfo_GetDesc info in
     ASSERT (desc \<noteq> 0) ''desc''
     (let scIdx = PageInfo_GetScIdx info in
      if scIdx = 0 then
        rbind (get_desc desc s) (\<lambda>d.
        let superblock = ds_superblock d in
        rbind (UnregisterDesc None superblock s) (\<lambda>s1.
        rbind (if ptr \<noteq> superblock then UnregisterDesc None ptr s1 else Inr s1) (\<lambda>s2.
        rbind (PageFree superblock (ucast (ds_blockSize d)) s2) (DescRetire desc))))
      else
        rbind (if GetBlockNum (lr_TCache s t scIdx) \<ge> cacheBlockNum (SizeClasses s ! scIdx)
               then FlushCache t scIdx s else Inr s)
          (PushBlock t scIdx ptr)))"

subsection \<open>The exported functions\<close>

definition lf_malloc_thread_finalize :: "nat \<Rightarrow> lr_state \<Rightarrow> lr_state res" where
  "lf_malloc_thread_finalize t s = rfold (FlushCache t) [1..<lr_MAX_SZ_IDX] s"

definition lf_malloc :: "kernel \<Rightarrow> nat \<Rightarrow> u64 \<Rightarrow> lr_state \<Rightarrow> (addr \<times> lr_state) res" where
  "lf_malloc os t size' s = lr_do_malloc os t size' s"

definition memset0 :: "addr \<Rightarrow> u64 \<Rightarrow> lr_state \<Rightarrow> lr_state res" where
  "memset0 p n s = touch (unat n) p s
     (Inr (s\<lparr>lr_bytes := \<lambda>a. if unat (a - p) < unat n then 0 else lr_bytes s a\<rparr>))"

definition lr_memcpy :: "addr \<Rightarrow> addr \<Rightarrow> u64 \<Rightarrow> lr_state \<Rightarrow> lr_state res" where
  "lr_memcpy dst src n s = touch (unat n) src s (touch (unat n) dst s
     (Inr (s\<lparr>lr_bytes := \<lambda>a. if unat (a - dst) < unat n then lr_bytes s (src + (a - dst)) else lr_bytes s a\<rparr>)))"

definition lf_calloc :: "kernel \<Rightarrow> nat \<Rightarrow> u64 \<Rightarrow> u64 \<Rightarrow> lr_state \<Rightarrow> (addr \<times> lr_state) res" where
  "lf_calloc os t n size' s =
     (let allocSize = n * size' in
      if n = 0 \<or> allocSize div n \<noteq> size' then Inr (0, s)
      else rbind (lr_do_malloc os t allocSize s) (\<lambda>(ptr, s1).
        rbind (if ptr \<noteq> 0 then memset0 ptr allocSize s1 else Inr s1) (\<lambda>s2. Inr (ptr, s2))))"

definition realloc_move ::
    "kernel \<Rightarrow> nat \<Rightarrow> addr \<Rightarrow> u64 \<Rightarrow> u64 \<Rightarrow> lr_state \<Rightarrow> (addr \<times> lr_state) res" where
  "realloc_move os t ptr blkSize size' s =
     rbind (lr_do_malloc os t size' s) (\<lambda>(newPtr, s1).
     rbind (if ptr \<noteq> 0 \<and> newPtr \<noteq> 0
            then rbind (lr_memcpy newPtr ptr blkSize s1) (lr_do_free t ptr) else Inr s1)
       (\<lambda>s2. Inr (newPtr, s2)))"

definition lf_realloc :: "kernel \<Rightarrow> nat \<Rightarrow> addr \<Rightarrow> u64 \<Rightarrow> lr_state \<Rightarrow> (addr \<times> lr_state) res" where
  "lf_realloc os t ptr size' s =
     (if ptr \<noteq> 0 then
        rbind (GetPageInfoForPtr ptr s) (\<lambda>info.
        let desc = PageInfo_GetDesc info in
        ASSERT (desc \<noteq> 0) ''desc''
        (rbind (get_desc desc s) (\<lambda>d.
         let blkSize = ucast (ds_blockSize d) :: u64 in
         if size' = 0 then rbind (lr_do_free t ptr s) (\<lambda>s1. Inr (0, s1))
         else if size' \<le> blkSize then Inr (ptr, s)
         else realloc_move os t ptr blkSize size' s)))
      else realloc_move os t ptr 0 size' s)"

definition lf_malloc_usable_size :: "addr \<Rightarrow> lr_state \<Rightarrow> u64 res" where
  "lf_malloc_usable_size ptr s =
     (if ptr = 0 then Inr 0
      else rbind (GetPageInfoForPtr ptr s) (\<lambda>info.
        let scIdx = PageInfo_GetScIdx info in
        if scIdx = 0 then
          let desc = PageInfo_GetDesc info in
          ASSERT (desc \<noteq> 0) ''desc'' (rbind (get_desc desc s) (\<lambda>d. Inr (ucast (ds_blockSize d))))
        else Inr (ucast (blockSize (SizeClasses s ! scIdx)))))"

text \<open>The result code, and what is stored in \<^verbatim>\<open>*memptr\<close> when anything is.\<close>

definition lr_EINVAL :: int where "lr_EINVAL = 22"
definition lr_ENOMEM :: int where "lr_ENOMEM = 12"

definition lf_posix_memalign ::
    "kernel \<Rightarrow> nat \<Rightarrow> u64 \<Rightarrow> u64 \<Rightarrow> lr_state \<Rightarrow> (int \<times> addr option \<times> lr_state) res" where
  "lf_posix_memalign os t alignment size' s =
     (if \<not> isPowerOfTwo alignment \<or> alignment AND PTR_MASK \<noteq> 0 then Inr (lr_EINVAL, None, s)
      else rbind (do_aligned_alloc os t alignment size' s) (\<lambda>(ptr, s1).
        if ptr = 0 then Inr (lr_ENOMEM, None, s1) else Inr (0, Some ptr, s1)))"

definition lf_aligned_alloc :: "kernel \<Rightarrow> nat \<Rightarrow> u64 \<Rightarrow> u64 \<Rightarrow> lr_state \<Rightarrow> (addr \<times> lr_state) res" where
  "lf_aligned_alloc os t alignment size' s = do_aligned_alloc os t alignment size' s"

definition lf_valloc :: "kernel \<Rightarrow> nat \<Rightarrow> u64 \<Rightarrow> lr_state \<Rightarrow> (addr \<times> lr_state) res" where
  "lf_valloc os t size' s = do_aligned_alloc os t lr_PAGE size' s"

definition lf_memalign :: "kernel \<Rightarrow> nat \<Rightarrow> u64 \<Rightarrow> u64 \<Rightarrow> lr_state \<Rightarrow> (addr \<times> lr_state) res" where
  "lf_memalign os t alignment size' s = do_aligned_alloc os t alignment size' s"

definition lf_pvalloc :: "kernel \<Rightarrow> nat \<Rightarrow> u64 \<Rightarrow> lr_state \<Rightarrow> (addr \<times> lr_state) res" where
  "lf_pvalloc os t size' s = do_aligned_alloc os t lr_PAGE size' s"

definition lf_free :: "nat \<Rightarrow> addr \<Rightarrow> lr_state \<Rightarrow> lr_state res" where
  "lf_free t ptr s = (if ptr = 0 then Inr s else lr_do_free t ptr s)"

end
