(* ===== verification/LrWords.thy ===== *)
theory LrWords
  imports LrMalloc
begin

text \<open>
  Words of lrmalloc: the counted descriptor pointers and the page map entries are pointer
  representations, page keys identify pages, the rounding macros round up, and mappings and
  accesses in terms of ranges of addresses.
\<close>

subsection \<open>Constants\<close>

lemma lr_constants [simp]:
  "lr_PTR_SZ = 256" "lr_CACHELINE = 64" "lr_PAGE = 4096" "PTR_MASK = 255" "CACHELINE_MASK = 63"
  "PAGE_MASK = 4095" "lr_MAX_SZ_IDX = 40" "lr_MAX_SZ = 14336" "sizeof_lr_Descriptor = 64"
  "DESCRIPTOR_BLOCK_SZ = 65536" "SC_MASK = 63" "PM_SZ = 2199023255552" "MAP_FAILED = - 1"
  by (simp_all add: lr_PTR_SZ_def LG_PTR_def lr_CACHELINE_def lr_PAGE_def PTR_MASK_def CACHELINE_MASK_def
      PAGE_MASK_def lr_MAX_SZ_IDX_def lr_MAX_SZ_def sizeof_lr_Descriptor_def DESCRIPTOR_BLOCK_SZ_def
      SC_MASK_def PM_SZ_def PM_SB_def MAP_FAILED_def)

lemma mask_6: "mask 6 = (63 :: u64)"
  by (simp add: mask_eq_exp_minus_1)

subsection \<open>Descriptor pointers\<close>

definition al64 :: "addr \<Rightarrow> bool" where
  "al64 d = (unat d mod 64 = 0)"

lemma al64_and: "al64 d \<longleftrightarrow> d AND 63 = 0"
  using and_mask_unat [of d 6] by (auto simp: al64_def mask_6 word_unat_eq_iff)

lemma GetDesc_al64 [simp]: "al64 (GetDesc w)"
  unfolding al64_and GetDesc_def lr_constants by (simp add: and.assoc)

lemma GetDesc_0 [simp]: "GetDesc 0 = 0"
  by (simp add: GetDesc_def)

lemma low_bits_clear:
  assumes "d AND 63 = (0 :: u64)"
  shows "(d OR (c AND 63)) AND NOT 63 = d" and "(d OR (c AND 63)) AND 63 = c AND 63"
proof -
  have b: "bit d i \<Longrightarrow> i < 6 \<Longrightarrow> False" for i
    using arg_cong [OF assms, of "\<lambda>w. bit w i"] by (simp add: mask_6 [symmetric] bit_simps)
  show "(d OR (c AND 63)) AND NOT 63 = d"
    unfolding mask_6 [symmetric] by (rule bit_word_eqI) (use b in \<open>auto simp: bit_simps\<close>)
  show "(d OR (c AND 63)) AND 63 = c AND 63"
    unfolding mask_6 [symmetric] by (rule bit_word_eqI) (use b in \<open>auto simp: bit_simps\<close>)
qed

lemma node_Set [simp]: "DescriptorNode_Set d c = Inr (d OR (c AND 63))"
  by (simp add: DescriptorNode_Set_def)

lemma node_get [simp]:
  assumes "al64 d"
  shows "GetDesc (d OR (c AND 63)) = d" and "GetCounter (d OR (c AND 63)) = c AND 63"
    and "GetDesc d = d"
  using low_bits_clear [of d c] low_bits_clear [of d 0] assms
  by (simp_all add: al64_and GetDesc_def GetCounter_def)

interpretation lr_node: ptr_repr "\<lambda>(d, c) (_ :: unit). d OR (c AND 63)"
    "\<lambda>w _. (GetDesc w, GetCounter w)" "\<lambda>(d, c) _. al64 d \<and> c AND 63 = c"
  by unfold_locales (clarsimp, metis node_get(1,2))

lemma info_Set [simp]: "PageInfo_Set d c = Inr (d OR of_nat c)"
  by (simp add: PageInfo_Set_def)

lemma of_nat_and_63: "c < 64 \<Longrightarrow> (of_nat c :: u64) AND 63 = of_nat c"
  using and_mask_unat [of "of_nat c" 6] by (simp add: mask_6 word_unat_eq_iff unat_of_nat64)

lemma info_get [simp]:
  assumes "al64 d" and "c < 64"
  shows "PageInfo_GetDesc (d OR of_nat c) = d" and "PageInfo_GetScIdx (d OR of_nat c) = c"
  using low_bits_clear [of d "of_nat c"] assms
  by (simp_all add: al64_and PageInfo_GetDesc_def PageInfo_GetScIdx_def of_nat_and_63 unat_of_nat64)

interpretation lr_info: ptr_repr "\<lambda>(d, c) (_ :: unit). d OR of_nat c"
    "\<lambda>w _. (PageInfo_GetDesc w, PageInfo_GetScIdx w)" "\<lambda>(d, c) _. al64 d \<and> c < 64"
  by unfold_locales auto

subsection \<open>Page keys\<close>

lemma AddrToKey_mod: "AddrToKey a = of_nat (unat a div 4096 mod 2 ^ 38)"
proof -
  have m: "PM_KEY_MASK = mask 38" by (simp add: PM_KEY_MASK_def PM_SB_def mask_eq_exp_minus_1)
  have "unat (AddrToKey a) = unat (drop_bit 12 a) mod 2 ^ 38"
    unfolding AddrToKey_def m by (rule and_mask_unat)
  also have "unat (drop_bit 12 a) = unat a div 4096"
    unfolding unat_drop_bit_eq by (simp add: drop_bit_eq_div)
  finally show ?thesis by (metis of_nat_unat ucast_id)
qed

lemma unat_AddrToKey_lt: "unat (AddrToKey a) < 2 ^ 38"
  by (simp add: AddrToKey_mod unat_of_nat64 order_less_trans [OF mod_less_divisor])

lemma unat_AddrToKey:
  assumes "unat a < 2 ^ 50"
  shows "unat (AddrToKey a) = unat a div 4096"
proof -
  have "unat a div 4096 < 2 ^ 38" using assms by (simp add: less_mult_imp_div_less)
  then show ?thesis by (simp add: AddrToKey_mod unat_of_nat64)
qed

lemma AddrToKey_eq_iff:
  assumes "unat a < 2 ^ 50" and "unat b < 2 ^ 50"
  shows "AddrToKey a = AddrToKey b \<longleftrightarrow> unat a div 4096 = unat b div 4096"
  using unat_AddrToKey [OF assms(1)] unat_AddrToKey [OF assms(2)] by (metis word_unat_eq_iff)

subsection \<open>Rounding\<close>

lemma lr_PAGE_CEILING_unat:
  assumes "unat n + 4095 < 2 ^ 64"
  shows "unat (lr_PAGE_CEILING n) = (unat n + 4095) div 4096 * 4096"
proof -
  have "mask 12 = (4095 :: u64)" by (simp add: mask_eq_exp_minus_1)
  with round_up_mask_unat [of 12 n] assms show ?thesis by (simp add: lr_PAGE_CEILING_def)
qed

lemma isPowerOfTwo_iff: "isPowerOfTwo x \<longleftrightarrow> (\<exists>k < 64. x = 2 ^ k)"
proof
  assume x: "isPowerOfTwo x"
  then obtain k where k: "bit x k" and least: "\<And>j. bit x j \<Longrightarrow> k \<le> j"
    unfolding isPowerOfTwo_def by (metis bit_0_eq bit_word_eqI bot_apply ex_least_nat_le not_le bot_bool_def)
  have k64: "k < 64" using bit_imp_le_length [OF k] by simp
  define y where "y = x AND NOT (mask (Suc k))"
  have yb: "bit y j \<longleftrightarrow> bit x j \<and> k < j" for j
    by (cases "bit x j") (auto simp: y_def bit_simps dest: bit_imp_le_length)
  have "x = y OR 2 ^ k"
    by (rule bit_word_eqI) (use k least yb in \<open>auto simp: bit_simps intro: le_neq_implies_less\<close>)
  also have "\<dots> = y + 2 ^ k" by (rule disjunctive_add [symmetric]) (auto simp: yb bit_simps)
  finally have "x - 1 = y + mask k" by (simp add: mask_eq_exp_minus_1)
  also have "\<dots> = y OR mask k" by (rule disjunctive_add) (auto simp: yb bit_simps)
  finally have "y = y AND (x AND (x - 1))"
    by (intro bit_word_eqI) (auto simp: yb bit_simps)
  then have "y = 0" using x by (simp add: isPowerOfTwo_def)
  then have "x = 2 ^ k" using \<open>x = y OR 2 ^ k\<close> by simp
  with k64 show "\<exists>k < 64. x = 2 ^ k" by blast
next
  assume "\<exists>k < 64. x = 2 ^ k"
  then obtain k where k: "k < 64" "x = 2 ^ k" by blast
  then have "x - 1 = mask k" by (simp add: mask_eq_exp_minus_1)
  then have "x AND (x - 1) = 0"
    unfolding k(2) by (intro bit_word_eqI) (auto simp: bit_simps)
  moreover have "x \<noteq> 0" using k by simp
  ultimately show "isPowerOfTwo x" by (simp add: isPowerOfTwo_def)
qed

lemma lr_ALIGN_VAL_unat:
  assumes "k < 64" and "unat v + (2 ^ k - 1) < 2 ^ 64"
  shows "unat (lr_ALIGN_VAL v (2 ^ k)) = (unat v + (2 ^ k - 1)) div 2 ^ k * 2 ^ k"
proof -
  have "NOT (mask k) = - (2 ^ k :: u64)" by (simp add: mask_eq_exp_minus_1 not_eq_complement)
  then have "lr_ALIGN_VAL v (2 ^ k) = (v + mask k) AND NOT (mask k)"
    by (simp add: lr_ALIGN_VAL_def mask_eq_exp_minus_1 not_plus_1)
  then show ?thesis using round_up_mask_unat [OF assms] by simp
qed

end
