(* ===== verification/LrInv.thy ===== *)
theory LrInv
  imports LrWords
begin

text \<open>
  The invariant of lrmalloc. A ghost state says what the memory of the process is used for: which
  mapping is the page map, a block of descriptors, a superblock of small blocks or a large block,
  in which place every small block is (a free list, the cache of a thread, or in use by the
  program), and what the lists of the allocator contain. \<open>lr_inv\<close> relates the ghost state to the
  state of the code; each of its parts reads only the fields it is about.
\<close>

subsection \<open>The ghost state\<close>

datatype lr_owner =
    OPageMap
  | ODescs                 \<comment> \<open>a block of pages with descriptors\<close>
  | OLoose nat             \<comment> \<open>mapped, and not yet used\<close>
  | OSmall addr nat        \<comment> \<open>a superblock with its descriptor and its size class\<close>
  | OLarge addr nat addr   \<comment> \<open>a large block: descriptor, size, and the address the program has\<close>

datatype lr_place = InFree | InCache nat | InUse

fun osize :: "lr_owner \<Rightarrow> nat" where
  "osize OPageMap = 2199023255552"
| "osize ODescs = 65536"
| "osize (OLoose n) = n"
| "osize (OSmall d c) = lsb c"
| "osize (OLarge d n u) = n"

type_synonym lr_own = "addr \<rightharpoonup> lr_owner"

record lr_ghost =
  g_own :: lr_own                       \<comment> \<open>by the start of the mapping\<close>
  g_place :: "addr \<Rightarrow> lr_place"
  g_free :: "addr \<Rightarrow> addr list"         \<comment> \<open>free list of the superblock of a descriptor\<close>
  g_cache :: "nat \<Rightarrow> nat \<Rightarrow> addr list"  \<comment> \<open>by thread and class\<close>
  g_avail :: "addr list"                \<comment> \<open>\<^verbatim>\<open>AvailDesc\<close>\<close>
  g_part :: "nat \<Rightarrow> addr list"          \<comment> \<open>partial list of a class\<close>

definition blk :: "nat \<Rightarrow> addr \<Rightarrow> nat \<Rightarrow> addr" where
  "blk c b k = b + of_nat (k * lbs c)"

definition blocks :: "nat \<Rightarrow> addr \<Rightarrow> addr set" where
  "blocks c b = blk c b ` {..<lnum c}"

subsection \<open>Lists\<close>

fun dlist :: "(addr \<Rightarrow> DescriptorNode) \<Rightarrow> DescriptorNode \<Rightarrow> addr list \<Rightarrow> bool" where
  "dlist nx w [] = (GetDesc w = 0)"
| "dlist nx w (d # ds) = (GetDesc w = d \<and> d \<noteq> 0 \<and> dlist nx (nx d) ds)"

lemma dlist_cong: "(\<And>d. d \<in> set ds \<Longrightarrow> nx d = nx' d) \<Longrightarrow> dlist nx w ds = dlist nx' w ds"
  by (induction ds arbitrary: w) auto

lemma dlist_al64: "dlist nx w ds \<Longrightarrow> d \<in> set ds \<Longrightarrow> al64 d \<and> d \<noteq> 0"
  by (induction ds arbitrary: w) (auto dest: sym)

lemma dlist_Nil_iff: "dlist nx w ds \<Longrightarrow> ds = [] \<longleftrightarrow> GetDesc w = 0"
  by (cases ds) auto

fun blist :: "memory \<Rightarrow> addr list \<Rightarrow> bool" where
  "blist m [] = True"
| "blist m [x] = True"
| "blist m (x # y # ys) = (load64 m x = y \<and> blist m (y # ys))"

lemma blist_Cons: "blist m (x # xs) \<longleftrightarrow> (xs = [] \<or> load64 m x = hd xs) \<and> blist m xs"
  by (cases xs) auto

lemma blist_cong:
  assumes "\<And>x. x \<in> set xs \<Longrightarrow> load64 m x = load64 m' x"
  shows "blist m xs = blist m' xs"
  using assms by (induction xs rule: induct_list012) auto

lemma blist_append:
  "blist m (xs @ ys) \<longleftrightarrow>
     blist m xs \<and> blist m ys \<and> (xs \<noteq> [] \<and> ys \<noteq> [] \<longrightarrow> load64 m (last xs) = hd ys)"
proof (induction xs)
  case (Cons x xs)
  then show ?case by (cases xs) (auto simp: blist_Cons)
qed simp

lemma blist_store_other:
  assumes "aligned8 a" and "\<And>x. x \<in> set xs \<Longrightarrow> aligned8 x" and "a \<notin> set xs"
  shows "blist (store64 m a v) xs = blist m xs"
  using assms by (intro blist_cong load64_store64_other) auto

subsection \<open>The invariant\<close>

definition inv_maps :: "lr_own \<Rightarrow> (nat \<times> nat) list \<Rightarrow> bool" where
  "inv_maps own ms \<longleftrightarrow>
     set ms = {(unat b, unat b + osize w) | b w. own b = Some w}
   \<and> (\<forall>b w. own b = Some w \<longrightarrow>
        b \<noteq> 0 \<and> unat b mod 4096 = 0 \<and> 0 < osize w \<and> unat b + osize w \<le> 281474976710656)
   \<and> (\<forall>b w b' w'. own b = Some w \<and> own b' = Some w' \<and> b \<noteq> b' \<longrightarrow>
        unat b + osize w \<le> unat b' \<or> unat b' + osize w' \<le> unat b)"

definition ldesc_at :: "lr_own \<Rightarrow> addr \<Rightarrow> bool" where
  "ldesc_at own d \<longleftrightarrow> (\<exists>b i. own b = Some ODescs \<and> i < 1024 \<and> d = b + of_nat (64 * i))"

definition owns :: "lr_own \<Rightarrow> addr \<Rightarrow> bool" where
  "owns own d \<longleftrightarrow> (\<exists>b c. own b = Some (OSmall d c)) \<or> (\<exists>b n u. own b = Some (OLarge d n u))"

definition inv_init :: "lr_own \<Rightarrow> lr_state \<Rightarrow> bool" where
  "inv_init own s \<longleftrightarrow> MallocInit s \<and> SizeClasses s = SizeClasses_ready
     \<and> SizeClassLookup s = sizeclass_lookup \<and> own (pm_base s) = Some OPageMap
     \<and> (\<forall>c < 40. ph_scIdx (Heaps s c) = c)"

definition inv_avail :: "lr_own \<Rightarrow> addr list \<Rightarrow> DescriptorNode \<Rightarrow> (addr \<Rightarrow> lr_Descriptor) \<Rightarrow> bool" where
  "inv_avail own av w ds \<longleftrightarrow> dlist (\<lambda>d. ds_nextFree (ds d)) w av \<and> distinct av
     \<and> (\<forall>d \<in> set av. ldesc_at own d \<and> \<not> owns own d)"

definition inv_part ::
    "lr_own \<Rightarrow> addr list \<Rightarrow> (nat \<Rightarrow> addr list) \<Rightarrow> (nat \<Rightarrow> lr_ProcHeap) \<Rightarrow> (addr \<Rightarrow> lr_Descriptor) \<Rightarrow> bool" where
  "inv_part own av part hs ds \<longleftrightarrow> (\<forall>c < 40.
     dlist (\<lambda>d. ds_nextPartial (ds d)) (ph_partialList (hs c)) (part c) \<and> distinct (part c)
   \<and> (\<forall>d \<in> set (part c). ldesc_at own d \<and> d \<notin> set av \<and> ds_heap (ds d) = Some c
        \<and> an_state (ds_anchor (ds d)) = (if owns own d then LR_SB_PARTIAL else LR_SB_EMPTY)))"

definition anchor_ok :: "nat \<Rightarrow> addr \<Rightarrow> addr list \<Rightarrow> lr_Anchor \<Rightarrow> bool" where
  "anchor_ok c b F a \<longleftrightarrow>
     (if F = [] then an_state a = LR_SB_FULL \<and> an_count a = 0
      else an_state a = LR_SB_PARTIAL \<and> unat (an_count a) = length F
         \<and> unat (an_avail a) < lnum c \<and> hd F = blk c b (unat (an_avail a)))"

definition small_ok ::
    "lr_own \<Rightarrow> (addr \<Rightarrow> lr_place) \<Rightarrow> addr list \<Rightarrow> (nat \<Rightarrow> addr list) \<Rightarrow> lr_Descriptor \<Rightarrow> memory
     \<Rightarrow> (u64 \<Rightarrow> u64) \<Rightarrow> addr \<Rightarrow> addr \<Rightarrow> nat \<Rightarrow> bool" where
  "small_ok own pl F part v m pm b d c \<longleftrightarrow> 1 \<le> c \<and> c < 40 \<and> ldesc_at own d
     \<and> ds_superblock v = b \<and> ds_heap v = Some c
     \<and> ds_blockSize v = of_nat (lbs c) \<and> ds_maxcount v = of_nat (lnum c)
     \<and> anchor_ok c b F (ds_anchor v) \<and> (F \<noteq> [] \<longrightarrow> d \<in> set (part c)) \<and> length F < lnum c
     \<and> distinct F \<and> set F = {x \<in> blocks c b. pl x = InFree} \<and> blist m F
     \<and> (\<forall>x. within b (lsb c) x \<longrightarrow> pm (AddrToKey x) = d OR of_nat c)"

definition inv_small ::
    "lr_own \<Rightarrow> (addr \<Rightarrow> lr_place) \<Rightarrow> (addr \<Rightarrow> addr list) \<Rightarrow> (nat \<Rightarrow> addr list)
     \<Rightarrow> (addr \<Rightarrow> lr_Descriptor) \<Rightarrow> memory \<Rightarrow> (u64 \<Rightarrow> u64) \<Rightarrow> bool" where
  "inv_small own pl fr part ds m pm \<longleftrightarrow>
     (\<forall>b d c. own b = Some (OSmall d c) \<longrightarrow> small_ok own pl (fr d) part (ds d) m pm b d c)"

definition large_ok ::
    "lr_own \<Rightarrow> lr_Descriptor \<Rightarrow> (u64 \<Rightarrow> u64) \<Rightarrow> addr \<Rightarrow> addr \<Rightarrow> nat \<Rightarrow> addr \<Rightarrow> bool" where
  "large_ok own v pm b d n u \<longleftrightarrow> ldesc_at own d
     \<and> ds_superblock v = b \<and> ds_heap v = None \<and> ds_blockSize v = of_nat n
     \<and> n < 4294967296 \<and> n mod 4096 = 0 \<and> within b n u \<and> unat u mod 4096 = 0
     \<and> pm (AddrToKey b) = d \<and> pm (AddrToKey u) = d"

definition inv_large :: "lr_own \<Rightarrow> (addr \<Rightarrow> lr_Descriptor) \<Rightarrow> (u64 \<Rightarrow> u64) \<Rightarrow> bool" where
  "inv_large own ds pm \<longleftrightarrow>
     (\<forall>b d n u. own b = Some (OLarge d n u) \<longrightarrow> large_ok own (ds d) pm b d n u)"

definition in_small :: "lr_own \<Rightarrow> nat \<Rightarrow> addr \<Rightarrow> bool" where
  "in_small own c x \<longleftrightarrow> (\<exists>b d. own b = Some (OSmall d c) \<and> x \<in> blocks c b)"

definition bin_ok ::
    "lr_own \<Rightarrow> (addr \<Rightarrow> lr_place) \<Rightarrow> addr list \<Rightarrow> lr_TCacheBin \<Rightarrow> memory \<Rightarrow> nat \<Rightarrow> nat \<Rightarrow> bool" where
  "bin_ok own pl L bin m t c \<longleftrightarrow>
     tc_blockNum bin = of_nat (length L) \<and> (L \<noteq> [] \<longrightarrow> tc_block bin = hd L) \<and> length L \<le> lnum c
     \<and> distinct L \<and> set L = {x. in_small own c x \<and> pl x = InCache t} \<and> blist m L"

definition inv_cache ::
    "lr_own \<Rightarrow> (addr \<Rightarrow> lr_place) \<Rightarrow> (nat \<Rightarrow> nat \<Rightarrow> addr list) \<Rightarrow> (nat \<Rightarrow> nat \<Rightarrow> lr_TCacheBin)
     \<Rightarrow> memory \<Rightarrow> bool" where
  "inv_cache own pl cc tc m \<longleftrightarrow>
     (\<forall>t c. 1 \<le> c \<and> c < 40 \<longrightarrow> bin_ok own pl (cc t c) (tc t c) m t c)"

definition lr_inv :: "lr_ghost \<Rightarrow> lr_state \<Rightarrow> bool" where
  "lr_inv g s \<longleftrightarrow> inv_maps (g_own g) (lr_maps s) \<and> inv_init (g_own g) s
     \<and> inv_avail (g_own g) (g_avail g) (AvailDesc s) (lr_descs s)
     \<and> inv_part (g_own g) (g_avail g) (g_part g) (Heaps s) (lr_descs s)
     \<and> inv_small (g_own g) (g_place g) (g_free g) (g_part g) (lr_descs s) (lr_bytes s) (pm_entry s)
     \<and> inv_large (g_own g) (lr_descs s) (pm_entry s)
     \<and> inv_cache (g_own g) (g_place g) (g_cache g) (lr_TCache s) (lr_bytes s)"

text \<open>The blocks the program holds, with the bytes it may use.\<close>

definition lr_held :: "lr_ghost \<Rightarrow> addr \<Rightarrow> nat \<Rightarrow> bool" where
  "lr_held g x n \<longleftrightarrow>
     (\<exists>c. in_small (g_own g) c x \<and> g_place g x = InUse \<and> n = lbs c)
   \<or> (\<exists>b d m. g_own g b = Some (OLarge d m x) \<and> n = m - (unat x - unat b))"

definition lr_keeps :: "lr_ghost \<Rightarrow> memory \<Rightarrow> memory \<Rightarrow> bool" where
  "lr_keeps g m m' \<longleftrightarrow> (\<forall>x n i. lr_held g x n \<and> i < n \<longrightarrow> m' (x + of_nat i) = m (x + of_nat i))"

subsection \<open>Parts of the invariant\<close>

lemma inv_mapsD:
  assumes "inv_maps own ms" and "own b = Some w"
  shows "b \<noteq> 0" and "unat b mod 4096 = 0" and "0 < osize w" and "unat b + osize w \<le> 281474976710656"
    and "(unat b, unat b + osize w) \<in> set ms"
  using assms unfolding inv_maps_def by auto

lemma owner_unique:
  assumes "inv_maps own ms" and "own b = Some w" and "own b' = Some w'"
    and "unat b \<le> x" and "x < unat b + osize w" and "unat b' \<le> x" and "x < unat b' + osize w'"
  shows "b' = b \<and> w' = w"
proof -
  have "b' = b"
  proof (rule ccontr)
    assume "b' \<noteq> b"
    then have "unat b + osize w \<le> unat b' \<or> unat b' + osize w' \<le> unat b"
      using assms(1-3) unfolding inv_maps_def by blast
    with assms(4-7) show False by linarith
  qed
  with assms(2,3) show ?thesis by simp
qed

lemma owner_disjoint:
  assumes "inv_maps own ms" and "own b = Some w" and "own b' = Some w'" and "b \<noteq> b'"
  shows "unat b + osize w \<le> unat b' \<or> unat b' + osize w' \<le> unat b"
  using assms unfolding inv_maps_def by blast

lemma mapped_owner:
  assumes "inv_maps own (lr_maps s)" and "own b = Some w"
    and "unat b \<le> unat a" and "unat a + n \<le> unat b + osize w"
  shows "mapped n a s"
  using inv_mapsD(5) [OF assms(1,2)] assms(3,4) unfolding mapped_def in_maps_def list_ex_iff
  by (intro allI impI bexI [of _ "(unat b, unat b + osize w)"]) auto

lemma unat_desc:
  assumes "inv_maps own ms" and "own b = Some ODescs" and "i < 1024"
  shows "unat (b + of_nat (64 * i)) = unat b + 64 * i"
  using inv_mapsD(4) [OF assms(1,2)] assms(3) by (intro unat_offset) simp

lemma desc_atE:
  assumes "inv_maps own ms" and "ldesc_at own d"
  obtains b where "own b = Some ODescs" and "unat b \<le> unat d" and "unat d + 64 \<le> unat b + 65536"
    and "al64 d" and "d \<noteq> 0"
proof -
  from assms(2) obtain b i where b: "own b = Some ODescs" "i < 1024" "d = b + of_nat (64 * i)"
    unfolding ldesc_at_def by blast
  have d: "unat d = unat b + 64 * i" using unat_desc [OF assms(1) b(1,2)] b(3) by simp
  obtain q where "unat b = 4096 * q"
    using inv_mapsD(2) [OF assms(1) b(1)] by (metis mod_0_imp_dvd dvdE)
  then have "unat d = 64 * (64 * q + i)" using d by simp
  then have "al64 d" unfolding al64_def by simp
  moreover have "d \<noteq> 0" using d inv_mapsD(1) [OF assms(1) b(1)] by (auto simp: unat_eq_0)
  ultimately show thesis using that b d by simp
qed

lemma desc_at_al64: "inv_maps own ms \<Longrightarrow> ldesc_at own d \<Longrightarrow> al64 d \<and> d \<noteq> 0"
  by (erule (1) desc_atE) simp

lemma desc_access:
  assumes "inv_maps own (lr_maps s)" and "ldesc_at own d"
  shows "get_desc d s = Inr (lr_descs s d)"
    and "upd_desc d f s = Inr (s\<lparr>lr_descs := (lr_descs s)(d := f (lr_descs s d))\<rparr>)"
proof -
  from assms obtain b where "own b = Some ODescs" "unat b \<le> unat d" "unat d + 64 \<le> unat b + 65536"
    by (elim desc_atE)
  then have "mapped 64 d s" by (intro mapped_owner [OF assms(1)]) auto
  then show "get_desc d s = Inr (lr_descs s d)"
    and "upd_desc d f s = Inr (s\<lparr>lr_descs := (lr_descs s)(d := f (lr_descs s d))\<rparr>)"
    by (simp_all add: get_desc_def upd_desc_def touch_def)
qed

lemma page_access:
  assumes "inv_maps own (lr_maps s)" and "own (pm_base s) = Some OPageMap"
  shows "GetPageInfo x s = Inr (pm_entry s (AddrToKey x))"
    and "SetPageInfo x i s = Inr (s\<lparr>pm_entry := (pm_entry s)(AddrToKey x := i)\<rparr>)"
proof -
  let ?k = "AddrToKey x"
  have k: "unat ?k < 274877906944" using unat_AddrToKey_lt [of x] by simp
  then have "unat (8 * ?k) = 8 * unat ?k" by (simp add: unat_word_ariths)
  then have "unat (pm_base s + 8 * ?k) = unat (pm_base s) + 8 * unat ?k"
    using k inv_mapsD(4) [OF assms] by (subst unat_plus64) simp_all
  then have "mapped 8 (pm_base s + 8 * ?k) s"
    using k by (intro mapped_owner [OF assms]) simp_all
  then show "GetPageInfo x s = Inr (pm_entry s (AddrToKey x))"
    and "SetPageInfo x i s = Inr (s\<lparr>pm_entry := (pm_entry s)(AddrToKey x := i)\<rparr>)"
    by (simp_all add: GetPageInfo_def SetPageInfo_def touch_def)
qed

subsection \<open>Blocks\<close>

text \<open>The superblock of a class \<open>c\<close> at \<open>b\<close>, wherever it is mapped.\<close>

definition sb_place :: "nat \<Rightarrow> addr \<Rightarrow> bool" where
  "sb_place c b \<longleftrightarrow> 1 \<le> c \<and> c < 40 \<and> b \<noteq> 0 \<and> unat b mod 4096 = 0
     \<and> unat b + lsb c \<le> 281474976710656"

lemma sb_place_class: "sb_place c b \<Longrightarrow> 1 \<le> c \<and> c < 40"
  by (simp add: sb_place_def)

lemma block_end:
  assumes "sb_place c b" and "k < lnum c"
  shows "k * lbs c + lbs c \<le> lsb c"
proof -
  have "Suc k * lbs c \<le> lnum c * lbs c" using assms(2) by (intro mult_right_mono) auto
  then show ?thesis using lr_class_facts(7) [of c] assms(1) by (simp add: sb_place_def add.commute)
qed

lemma unat_blk:
  assumes "sb_place c b" and "k < lnum c"
  shows "unat (blk c b k) = unat b + k * lbs c"
  unfolding blk_def using block_end [OF assms] assms(1) by (intro unat_offset) (simp add: sb_place_def)

lemma lbs_pos: "sb_place c b \<Longrightarrow> 8 \<le> lbs c"
  using lr_class_facts(1) [of c] by (simp add: sb_place_def)

lemma blk_inject:
  assumes "sb_place c b" and "k < lnum c" and "k' < lnum c"
  shows "blk c b k = blk c b k' \<longleftrightarrow> k = k'"
  using unat_blk [OF assms(1,2)] unat_blk [OF assms(1,3)] lbs_pos [OF assms(1)]
  by (metis add_left_cancel mult_cancel2 not_numeral_le_zero)

lemma blocksE:
  assumes "x \<in> blocks c b" and "sb_place c b"
  obtains k where "k < lnum c" and "x = blk c b k" and "unat x = unat b + k * lbs c"
    and "unat x + lbs c \<le> unat b + lsb c"
  using assms unat_blk block_end unfolding blocks_def by fastforce

lemma block_facts:
  assumes "x \<in> blocks c b" and "sb_place c b"
  shows "aligned8 x" and "unat b \<le> unat x" and "unat x + lbs c \<le> unat b + lsb c"
    and "within b (lsb c) x"
proof -
  from assms obtain k where k: "x = blk c b k" "unat x = unat b + k * lbs c"
    "unat x + lbs c \<le> unat b + lsb c" by (elim blocksE)
  obtain q where q: "unat b = 4096 * q"
    using assms(2) unfolding sb_place_def by (metis mod_0_imp_dvd dvdE)
  obtain r where r: "lbs c = 8 * r"
    using lr_class_facts(3) [of c] assms(2) unfolding sb_place_def by (metis mod_0_imp_dvd dvdE)
  have "unat x = 8 * (512 * q + k * r)" unfolding k(2) q r by (simp add: algebra_simps)
  then show "aligned8 x" by (simp add: aligned8_def)
  show "unat b \<le> unat x" and "unat x + lbs c \<le> unat b + lsb c" using k by simp_all
  then show "within b (lsb c) x" using lbs_pos [OF assms(2)] by (simp add: within_def)
qed

lemma same_block:
  assumes "x \<in> blocks c b" and "y \<in> blocks c b" and "sb_place c b" and "x \<noteq> y"
  shows "unat x + lbs c \<le> unat y \<or> unat y + lbs c \<le> unat x"
proof -
  obtain k where k: "x = blk c b k" "unat x = unat b + k * lbs c" using assms(1,3) by (elim blocksE)
  obtain j where j: "y = blk c b j" "unat y = unat b + j * lbs c" using assms(2,3) by (elim blocksE)
  have "k \<noteq> j" using assms(4) k j by auto
  then have "Suc k \<le> j \<or> Suc j \<le> k" by linarith
  then have "Suc k * lbs c \<le> j * lbs c \<or> Suc j * lbs c \<le> k * lbs c" by (metis mult_le_mono1)
  then show ?thesis using k j by auto
qed

lemma card_blocks: "sb_place c b \<Longrightarrow> card (blocks c b) = lnum c"
  unfolding blocks_def by (subst card_image) (auto simp: inj_on_def blk_inject)

lemma finite_blocks [simp]: "finite (blocks c b)"
  by (simp add: blocks_def)

lemma small_place:
  assumes "inv_maps own ms" and "own b = Some (OSmall d c)" and "1 \<le> c" and "c < 40"
  shows "sb_place c b"
  using inv_mapsD [OF assms(1,2)] assms(3,4) by (simp add: sb_place_def)

end
