(* ===== verification/LrFrame.thy ===== *)
theory LrFrame
  imports LrInv
begin

text \<open>
  What keeps the invariant: a change of the memory that no list of the allocator goes through, of
  a descriptor that is in no list, of page map entries of unused pages, a new mapping, and the
  removal of a mapping. The operations are composed of such changes.
\<close>

subsection \<open>Consequences of the invariant\<close>

lemma lr_invD:
  assumes "lr_inv g s"
  shows "inv_maps (g_own g) (lr_maps s)" and "inv_init (g_own g) s"
    and "inv_avail (g_own g) (g_avail g) (AvailDesc s) (lr_descs s)"
    and "inv_part (g_own g) (g_avail g) (g_part g) (Heaps s) (lr_descs s)"
    and "inv_small (g_own g) (g_place g) (g_free g) (g_part g) (lr_descs s) (lr_bytes s) (pm_entry s)"
    and "inv_large (g_own g) (lr_descs s) (pm_entry s)"
    and "inv_cache (g_own g) (g_place g) (g_cache g) (lr_TCache s) (lr_bytes s)"
  using assms by (simp_all add: lr_inv_def)

lemma lr_inv_init:
  assumes "lr_inv g s"
  shows "MallocInit s" and "SizeClasses s = SizeClasses_ready" and "SizeClassLookup s = sizeclass_lookup"
    and "g_own g (pm_base s) = Some OPageMap" and "c < 40 \<Longrightarrow> ph_scIdx (Heaps s c) = c"
  using lr_invD(2) [OF assms] by (simp_all add: inv_init_def)

lemma lr_inv_small:
  assumes "lr_inv g s" and "g_own g b = Some (OSmall d c)"
  shows "small_ok (g_own g) (g_place g) (g_free g d) (g_part g) (lr_descs s d) (lr_bytes s) (pm_entry s) b d c"
    and "sb_place c b" and "ldesc_at (g_own g) d"
proof -
  show ok: "small_ok (g_own g) (g_place g) (g_free g d) (g_part g) (lr_descs s d) (lr_bytes s) (pm_entry s) b d c"
    using lr_invD(5) [OF assms(1)] assms(2) by (simp add: inv_small_def)
  then show "sb_place c b" and "ldesc_at (g_own g) d"
    using small_place [OF lr_invD(1) [OF assms(1)] assms(2)] by (simp_all add: small_ok_def)
qed

lemma lr_inv_large:
  assumes "lr_inv g s" and "g_own g b = Some (OLarge d n u)"
  shows "large_ok (g_own g) (lr_descs s d) (pm_entry s) b d n u"
  using lr_invD(6) [OF assms(1)] assms(2) by (simp add: inv_large_def)

lemma lr_inv_bin:
  assumes "lr_inv g s" and "1 \<le> c" and "c < 40"
  shows "bin_ok (g_own g) (g_place g) (g_cache g t c) (lr_TCache s t c) (lr_bytes s) t c"
  using lr_invD(7) [OF assms(1)] assms(2,3) by (simp add: inv_cache_def)

lemma lr_inv_part:
  assumes "lr_inv g s" and "c < 40"
  shows "dlist (\<lambda>d. ds_nextPartial (lr_descs s d)) (ph_partialList (Heaps s c)) (g_part g c)"
    and "distinct (g_part g c)"
    and "d \<in> set (g_part g c) \<Longrightarrow> ldesc_at (g_own g) d \<and> d \<notin> set (g_avail g)
      \<and> ds_heap (lr_descs s d) = Some c
      \<and> an_state (ds_anchor (lr_descs s d)) = (if owns (g_own g) d then LR_SB_PARTIAL else LR_SB_EMPTY)"
  using lr_invD(4) [OF assms(1)] assms(2) by (simp_all add: inv_part_def)

text \<open>A descriptor has one superblock, and a block is in one superblock.\<close>

lemma small_desc_unique:
  assumes "lr_inv g s" and "g_own g b = Some (OSmall d c)" and "g_own g b' = Some (OSmall d c')"
  shows "b' = b \<and> c' = c"
  using lr_inv_small(1) [OF assms(1,2)] lr_inv_small(1) [OF assms(1,3)] by (simp add: small_ok_def)

lemma large_desc_unique:
  assumes "lr_inv g s" and "g_own g b = Some (OLarge d n u)" and "g_own g b' = Some (OLarge d n' u')"
  shows "b' = b"
  using lr_inv_large [OF assms(1,2)] lr_inv_large [OF assms(1,3)] by (simp add: large_ok_def)

lemma small_large_desc:
  assumes "lr_inv g s" and "g_own g b = Some (OSmall d c)" and "g_own g b' = Some (OLarge d n u)"
  shows False
  using lr_inv_small(1) [OF assms(1,2)] lr_inv_large [OF assms(1,3)]
  by (simp add: small_ok_def large_ok_def)

lemma block_owner_unique:
  assumes "lr_inv g s" and "g_own g b = Some (OSmall d c)" and "x \<in> blocks c b"
    and "g_own g b' = Some (OSmall d' c')" and "x \<in> blocks c' b'"
  shows "b' = b \<and> d' = d \<and> c' = c"
proof -
  have "within b (lsb c) x" and "within b' (lsb c') x"
    using block_facts(4) lr_inv_small(2) assms by blast+
  then show ?thesis
    using owner_unique [OF lr_invD(1) [OF assms(1)] assms(2,4), of "unat x"] by (simp add: within_def)
qed

lemma in_small_class: "lr_inv g s \<Longrightarrow> in_small (g_own g) c x \<Longrightarrow> 1 \<le> c \<and> c < 40 \<and> aligned8 x"
  unfolding in_small_def using lr_inv_small(2) block_facts(1) sb_place_class by metis

lemma in_small_unique:
  assumes "lr_inv g s" and "in_small (g_own g) c x" and "in_small (g_own g) c' x"
  shows "c' = c"
  using assms(2,3) block_owner_unique [OF assms(1)] unfolding in_small_def by metis

subsection \<open>Memory\<close>

definition tracked :: "lr_ghost \<Rightarrow> addr \<Rightarrow> bool" where
  "tracked g x \<longleftrightarrow> (\<exists>c. in_small (g_own g) c x) \<and> g_place g x \<noteq> InUse"

lemma small_ok_mem:
  assumes "small_ok own pl F part v m pm b d c" and "\<And>x. x \<in> set F \<Longrightarrow> load64 m' x = load64 m x"
  shows "small_ok own pl F part v m' pm b d c"
proof -
  have "blist m' F = blist m F" using assms(2) by (rule blist_cong)
  then show ?thesis using assms(1) by (simp add: small_ok_def)
qed

lemma bin_ok_mem:
  assumes "bin_ok own pl L bin m t c" and "\<And>x. x \<in> set L \<Longrightarrow> load64 m' x = load64 m x"
  shows "bin_ok own pl L bin m' t c"
proof -
  have "blist m' L = blist m L" using assms(2) by (rule blist_cong)
  then show ?thesis using assms(1) by (simp add: bin_ok_def)
qed

lemma free_tracked:
  assumes "lr_inv g s" and "g_own g b = Some (OSmall d c)" and "x \<in> set (g_free g d)"
  shows "tracked g x" and "x \<in> blocks c b" and "g_place g x = InFree"
proof -
  show "x \<in> blocks c b" and "g_place g x = InFree"
    using lr_inv_small(1) [OF assms(1,2)] assms(3) by (simp_all add: small_ok_def)
  then show "tracked g x" using assms(2) by (auto simp: tracked_def in_small_def)
qed

lemma cache_tracked:
  assumes "lr_inv g s" and "1 \<le> c" and "c < 40" and "x \<in> set (g_cache g t c)"
  shows "tracked g x" and "in_small (g_own g) c x" and "g_place g x = InCache t"
  using lr_inv_bin [OF assms(1-3), of t] assms(4) by (auto simp: bin_ok_def tracked_def)

lemma lr_inv_mem:
  assumes "lr_inv g s" and "\<And>x. tracked g x \<Longrightarrow> load64 m x = load64 (lr_bytes s) x"
  shows "lr_inv g (s\<lparr>lr_bytes := m\<rparr>)"
proof -
  have "inv_small (g_own g) (g_place g) (g_free g) (g_part g) (lr_descs s) m (pm_entry s)"
    unfolding inv_small_def
    using small_ok_mem [OF lr_inv_small(1) [OF assms(1)]] assms(2) free_tracked(1) [OF assms(1)]
    by blast
  moreover have "inv_cache (g_own g) (g_place g) (g_cache g) (lr_TCache s) m"
    unfolding inv_cache_def
    using bin_ok_mem [OF lr_inv_bin [OF assms(1)]] assms(2) cache_tracked(1) [OF assms(1)]
    by blast
  ultimately show ?thesis using assms(1) by (simp add: lr_inv_def inv_init_def)
qed

subsection \<open>Descriptors in no list\<close>

definition loose :: "lr_ghost \<Rightarrow> addr \<Rightarrow> bool" where
  "loose g d \<longleftrightarrow> ldesc_at (g_own g) d \<and> d \<notin> set (g_avail g) \<and> \<not> owns (g_own g) d
     \<and> (\<forall>c < 40. d \<notin> set (g_part g c))"

lemma owns_small: "own b = Some (OSmall d c) \<Longrightarrow> owns own d"
  and owns_large: "own b = Some (OLarge d n u) \<Longrightarrow> owns own d"
  by (auto simp: owns_def)

lemma lr_inv_descs:
  assumes "lr_inv g s"
    and same: "\<And>d. ldesc_at (g_own g) d \<Longrightarrow> \<not> loose g d \<Longrightarrow> ds d = lr_descs s d"
  shows "lr_inv g (s\<lparr>lr_descs := ds\<rparr>)"
proof -
  have av: "ds d = lr_descs s d" if "d \<in> set (g_avail g)" for d
    using lr_invD(3) [OF assms(1)] that same [of d] by (simp add: inv_avail_def loose_def)
  have pt: "ds d = lr_descs s d" if "d \<in> set (g_part g c)" "c < 40" for d c
    using lr_inv_part(3) [OF assms(1) that(2,1)] that same [of d] by (auto simp: loose_def)
  have sm: "ds d = lr_descs s d" if "g_own g b = Some (OSmall d c)" for b d c
    using lr_inv_small(3) [OF assms(1) that] owns_small [where own = "g_own g", OF that] same [of d] by (simp add: loose_def)
  have la: "ds d = lr_descs s d" if "g_own g b = Some (OLarge d n u)" for b d n u
    using lr_inv_large [OF assms(1) that] owns_large [where own = "g_own g", OF that] same [of d]
    by (simp add: loose_def large_ok_def)
  have "dlist (\<lambda>x. ds_nextFree (ds x)) (AvailDesc s) (g_avail g)
      = dlist (\<lambda>x. ds_nextFree (lr_descs s x)) (AvailDesc s) (g_avail g)"
    using av by (intro dlist_cong) simp
  then have "inv_avail (g_own g) (g_avail g) (AvailDesc s) ds"
    using lr_invD(3) [OF assms(1)] by (simp add: inv_avail_def)
  moreover have "dlist (\<lambda>x. ds_nextPartial (ds x)) (ph_partialList (Heaps s c)) (g_part g c)
      = dlist (\<lambda>x. ds_nextPartial (lr_descs s x)) (ph_partialList (Heaps s c)) (g_part g c)" if "c < 40" for c
    using pt that by (intro dlist_cong) simp
  then have "inv_part (g_own g) (g_avail g) (g_part g) (Heaps s) ds"
    using lr_invD(4) [OF assms(1)] pt by (auto simp: inv_part_def)
  moreover have "inv_small (g_own g) (g_place g) (g_free g) (g_part g) ds (lr_bytes s) (pm_entry s)"
    using lr_invD(5) [OF assms(1)] sm by (simp add: inv_small_def)
  moreover have "inv_large (g_own g) ds (pm_entry s)"
    using lr_invD(6) [OF assms(1)] la by (simp add: inv_large_def)
  ultimately show ?thesis using assms(1) by (simp add: lr_inv_def inv_init_def)
qed

lemma lr_inv_loose_desc:
  assumes "lr_inv g s" and "loose g d"
  shows "lr_inv g (s\<lparr>lr_descs := (lr_descs s)(d := v)\<rparr>)"
  using assms by (intro lr_inv_descs) auto

subsection \<open>Page map entries of unused pages\<close>

lemma key_disjoint:
  assumes "inv_maps own ms" and "own b = Some w" and "own b' = Some w'" and "b \<noteq> b'"
    and "within b (osize w) x" and "within b' (osize w') y"
  shows "AddrToKey x \<noteq> AddrToKey y"
proof
  assume "AddrToKey x = AddrToKey y"
  moreover have "unat x < 2 ^ 50" and "unat y < 2 ^ 50"
    using inv_mapsD(4) [OF assms(1,2)] inv_mapsD(4) [OF assms(1,3)] assms(5,6) by (simp_all add: within_def)
  ultimately have pg: "unat x div 4096 = unat y div 4096" by (simp add: AddrToKey_eq_iff)
  define p where "p = unat x div 4096"
  obtain q q' where q: "unat b = 4096 * q" "unat b' = 4096 * q'"
    using inv_mapsD(2) [OF assms(1,2)] inv_mapsD(2) [OF assms(1,3)] by (metis mod_0_imp_dvd dvdE)
  have "unat b + osize w \<le> unat b' \<or> unat b' + osize w' \<le> unat b"
    using assms(1-4) unfolding inv_maps_def by blast
  moreover have "q \<le> p" and "q' \<le> p" using assms(5,6) pg q by (auto simp: within_def p_def)
  moreover have "4096 * p \<le> unat x" and "4096 * p \<le> unat y" using pg by (auto simp: p_def)
  ultimately show False using assms(5,6) q by (auto simp: within_def)
qed

lemma lr_inv_pm_frame:
  assumes "lr_inv g s"
    and small: "\<And>b d c x. g_own g b = Some (OSmall d c) \<Longrightarrow> within b (lsb c) x \<Longrightarrow> pm (AddrToKey x) = pm_entry s (AddrToKey x)"
    and large: "\<And>b d n u x. g_own g b = Some (OLarge d n u) \<Longrightarrow> within b n x \<Longrightarrow> pm (AddrToKey x) = pm_entry s (AddrToKey x)"
  shows "lr_inv g (s\<lparr>pm_entry := pm\<rparr>)"
proof -
  have "inv_small (g_own g) (g_place g) (g_free g) (g_part g) (lr_descs s) (lr_bytes s) pm"
    unfolding inv_small_def
  proof (intro allI impI)
    fix b d c
    assume b: "g_own g b = Some (OSmall d c)"
    then show "small_ok (g_own g) (g_place g) (g_free g d) (g_part g) (lr_descs s d) (lr_bytes s) pm b d c"
      using lr_inv_small(1) [OF assms(1) b] small [OF b] by (simp add: small_ok_def)
  qed
  moreover have "inv_large (g_own g) (lr_descs s) pm"
    unfolding inv_large_def
  proof (intro allI impI)
    fix b d n u
    assume b: "g_own g b = Some (OLarge d n u)"
    have "within b n b" using inv_mapsD(3) [OF lr_invD(1) [OF assms(1)] b] by (simp add: within_def)
    then show "large_ok (g_own g) (lr_descs s d) pm b d n u"
      using lr_inv_large [OF assms(1) b] large [OF b, of b] large [OF b, of u] by (simp add: large_ok_def)
  qed
  ultimately show ?thesis using assms(1) by (simp add: lr_inv_def inv_init_def)
qed

lemma lr_inv_pm:
  assumes "lr_inv g s" and "g_own g b0 = Some w0"
    and w0: "\<And>d c. w0 \<noteq> OSmall d c" "\<And>d n u. w0 \<noteq> OLarge d n u"
    and pm: "\<And>k. pm k \<noteq> pm_entry s k \<Longrightarrow> \<exists>y. within b0 (osize w0) y \<and> k = AddrToKey y"
  shows "lr_inv g (s\<lparr>pm_entry := pm\<rparr>)"
proof -
  have other: "pm (AddrToKey x) = pm_entry s (AddrToKey x)"
    if "g_own g b = Some w" "b \<noteq> b0" "within b (osize w) x" for b w x
    using pm [of "AddrToKey x"] key_disjoint [OF lr_invD(1) [OF assms(1)] that(1) assms(2) that(2,3)] by auto
  show ?thesis
  proof (rule lr_inv_pm_frame [OF assms(1)])
    fix b d c x
    assume b: "g_own g b = Some (OSmall d c)" "within b (lsb c) x"
    have "b \<noteq> b0" using b(1) assms(2) w0(1) by auto
    then show "pm (AddrToKey x) = pm_entry s (AddrToKey x)" using other [OF b(1)] b(2) by simp
  next
    fix b d n u x
    assume b: "g_own g b = Some (OLarge d n u)" "within b n x"
    have "b \<noteq> b0" using b(1) assms(2) w0(2) by auto
    then show "pm (AddrToKey x) = pm_entry s (AddrToKey x)" using other [OF b(1)] b(2) by simp
  qed
qed

subsection \<open>Mappings\<close>

definition neutral :: "lr_owner option \<Rightarrow> bool" where
  "neutral w \<longleftrightarrow> (case w of None \<Rightarrow> True | Some (OLoose n) \<Rightarrow> True | _ \<Rightarrow> False)"

lemma neutral_simps [simp]:
  "neutral None" "neutral (Some (OLoose n))" "\<not> neutral (Some ODescs)" "\<not> neutral (Some OPageMap)"
  "\<not> neutral (Some (OSmall d c))" "\<not> neutral (Some (OLarge d n u))"
  by (simp_all add: neutral_def)

lemma neutral_own:
  assumes "neutral (own b0)" and "neutral w"
  shows "(own(b0 := w)) b = Some (OSmall d c) \<longleftrightarrow> own b = Some (OSmall d c)"
    and "(own(b0 := w)) b = Some (OLarge d n u) \<longleftrightarrow> own b = Some (OLarge d n u)"
    and "(own(b0 := w)) b = Some ODescs \<longleftrightarrow> own b = Some ODescs"
    and "(own(b0 := w)) b = Some OPageMap \<longleftrightarrow> own b = Some OPageMap"
  using assms by auto

lemma neutral_views:
  assumes "neutral (own b0)" and "neutral w"
  shows "ldesc_at (own(b0 := w)) = ldesc_at own" and "owns (own(b0 := w)) = owns own"
    and "in_small (own(b0 := w)) = in_small own"
  unfolding ldesc_at_def owns_def in_small_def neutral_own [where own = own, OF assms] by auto

lemma lr_inv_neutral:
  assumes "lr_inv g s" and "neutral (g_own g b0)" and "neutral w"
    and "inv_maps ((g_own g)(b0 := w)) ms"
  shows "lr_inv (g\<lparr>g_own := (g_own g)(b0 := w)\<rparr>) (s\<lparr>lr_maps := ms\<rparr>)"
proof -
  note n = neutral_own [where own = "g_own g", OF assms(2,3)] neutral_views [where own = "g_own g", OF assms(2,3)]
  show ?thesis
    using assms(1,4) unfolding lr_inv_def inv_init_def inv_avail_def inv_part_def inv_small_def
      small_ok_def inv_large_def large_ok_def inv_cache_def bin_ok_def
    by (simp add: n del: fun_upd_apply)
qed

lemma held_neutral:
  assumes "neutral (g_own g b0)" and "neutral w"
  shows "lr_held (g\<lparr>g_own := (g_own g)(b0 := w)\<rparr>) = lr_held g"
  unfolding lr_held_def by (simp add: neutral_own [where own = "g_own g", OF assms]
      neutral_views [where own = "g_own g", OF assms] del: fun_upd_apply)

lemma inv_maps_cons:
  assumes "inv_maps own ms" and "own p = None" and "p \<noteq> 0" and "unat p mod 4096 = 0"
    and "0 < osize w" and "unat p + osize w \<le> 281474976710656"
    and "\<And>x. unat p \<le> x \<Longrightarrow> x < unat p + osize w \<Longrightarrow> \<not> in_maps ms x"
  shows "inv_maps (own(p \<mapsto> w)) ((unat p, unat p + osize w) # ms)"
proof -
  have dis: "unat p + osize w \<le> unat b \<or> unat b + osize v \<le> unat p" if "own b = Some v" for b v
  proof (rule ccontr)
    assume *: "\<not> ?thesis"
    let ?x = "max (unat p) (unat b)"
    have "in_maps ms ?x"
      unfolding in_maps_def list_ex_iff using inv_mapsD(3,5) [OF assms(1) that] *
      by (intro bexI [of _ "(unat b, unat b + osize v)"]) auto
    moreover have "unat p \<le> ?x" and "?x < unat p + osize w" using * assms(5) by auto
    ultimately show False using assms(7) by blast
  qed
  have "set ((unat p, unat p + osize w) # ms) = {(unat b, unat b + osize v) | b v. (own(p \<mapsto> w)) b = Some v}"
    using assms(1,2) unfolding inv_maps_def by (auto split: if_splits)
  moreover have "\<forall>b v. (own(p \<mapsto> w)) b = Some v \<longrightarrow>
        b \<noteq> 0 \<and> unat b mod 4096 = 0 \<and> 0 < osize v \<and> unat b + osize v \<le> 281474976710656"
    using assms(3-6) inv_mapsD(1-4) [OF assms(1)] by auto
  moreover have "\<forall>b v b' v'. (own(p \<mapsto> w)) b = Some v \<and> (own(p \<mapsto> w)) b' = Some v' \<and> b \<noteq> b' \<longrightarrow>
        unat b + osize v \<le> unat b' \<or> unat b' + osize v' \<le> unat b"
    using dis assms(1) unfolding inv_maps_def by (auto split: if_splits)
  ultimately show ?thesis unfolding inv_maps_def by blast
qed

lemma inv_maps_cut:
  assumes "inv_maps own ms" and "own b = Some w"
  shows "inv_maps (own(b := None)) (concat (map (cut_range (unat b) (unat b + osize w)) ms))"
proof -
  let ?r = "(unat b, unat b + osize w)"
  have cut: "set (cut_range (unat b) (unat b + osize w) r) = (if r = ?r then {} else {r})" if mem: "r \<in> set ms" for r
  proof -
    obtain b' w' where r: "r = (unat b', unat b' + osize w')" and b': "own b' = Some w'"
      using assms(1) mem unfolding inv_maps_def by blast
    show ?thesis
    proof (cases "b' = b")
      case True
      then show ?thesis using r b' assms(2) by auto
    next
      case False
      then have "unat b + osize w \<le> unat b' \<or> unat b' + osize w' \<le> unat b"
        using assms b' unfolding inv_maps_def by blast
      moreover have "r \<noteq> ?r" using r False by (simp add: word_unat_eq_iff)
      ultimately show ?thesis using r inv_mapsD(3) [OF assms] inv_mapsD(3) [OF assms(1) b'] by auto
    qed
  qed
  have sm: "set ms = {(unat b, unat b + osize w) | b w. own b = Some w}"
    using assms(1) unfolding inv_maps_def by blast
  have "set ms - {?r} = {(unat b', unat b' + osize w') | b' w'. (own(b := None)) b' = Some w'}"
  proof (intro equalityI subsetI)
    fix r
    assume "r \<in> set ms - {?r}"
    then obtain b' w' where r: "r = (unat b', unat b' + osize w')" "own b' = Some w'" "r \<noteq> ?r"
      unfolding sm by blast
    then have "b' \<noteq> b" using assms(2) by auto
    with r show "r \<in> {(unat b', unat b' + osize w') | b' w'. (own(b := None)) b' = Some w'}" by auto
  next
    fix r
    assume "r \<in> {(unat b', unat b' + osize w') | b' w'. (own(b := None)) b' = Some w'}"
    then obtain b' w' where r: "r = (unat b', unat b' + osize w')" "own b' = Some w'" "b' \<noteq> b"
      by (auto split: if_splits)
    then show "r \<in> set ms - {?r}" unfolding sm by (auto simp: word_unat_eq_iff)
  qed
  moreover have "set (concat (map (cut_range (unat b) (unat b + osize w)) ms)) = set ms - {?r}"
    using cut by (simp add: set_eq_iff) blast
  ultimately show ?thesis using assms(1) unfolding inv_maps_def by (simp del: cut_range.simps)
qed

end
