(* ===== verification/LrPages.thy ===== *)
theory LrPages
  imports LrFrame
begin

text \<open>
  New mappings: the blocks the program holds are disjoint ranges of the mappings, and
  \<^verbatim>\<open>PageAlloc\<close> gives pages that no one owns.
\<close>

subsection \<open>Blocks the program holds\<close>

lemma lr_heldE:
  assumes "lr_inv g s" and "lr_held g x n"
  obtains (small) b d c where "g_own g b = Some (OSmall d c)" and "x \<in> blocks c b"
      and "g_place g x = InUse" and "n = lbs c" and "sb_place c b"
    | (large) b d m where "g_own g b = Some (OLarge d m x)" and "n = m - (unat x - unat b)"
      and "large_ok (g_own g) (lr_descs s d) (pm_entry s) b d m x"
  using assms(2) lr_inv_small(2) [OF assms(1)] lr_inv_large [OF assms(1)]
  unfolding lr_held_def in_small_def by blast

lemma held_range:
  assumes "lr_inv g s" and "lr_held g x n"
  shows "\<exists>b w. g_own g b = Some w \<and> unat b \<le> unat x \<and> unat x + n \<le> unat b + osize w \<and> 0 < n
    \<and> ((\<exists>d c. w = OSmall d c \<and> x \<in> blocks c b \<and> n = lbs c \<and> sb_place c b) \<or> (\<exists>d m. w = OLarge d m x))"
  using assms
proof (cases rule: lr_heldE)
  case (small b d c)
  then show ?thesis
    using block_facts(2,3) [of x c b] lbs_pos [of c b] by (intro exI [of _ b] exI [of _ "OSmall d c"]) simp
next
  case (large b d m)
  have "within b m x" using large(3) by (simp add: large_ok_def)
  then show ?thesis
    using large by (intro exI [of _ b] exI [of _ "OLarge d m x"]) (simp add: within_def)
qed

lemma held_byte:
  assumes "lr_inv g s" and "lr_held g x n" and "i < n"
  shows "unat (x + of_nat i) = unat x + i"
proof -
  obtain b w where "g_own g b = Some w" "unat x + n \<le> unat b + osize w"
    using held_range [OF assms(1,2)] by blast
  then show ?thesis using inv_mapsD(4) [OF lr_invD(1) [OF assms(1)]] assms(3)
    by (intro unat_offset) fastforce
qed

text \<open>Two blocks the program holds have no byte in common.\<close>

lemma held_disjoint:
  assumes "lr_inv g s" and "lr_held g x n" and "lr_held g y m" and "x \<noteq> y"
  shows "unat x + n \<le> unat y \<or> unat y + m \<le> unat x"
proof -
  obtain b w where b: "g_own g b = Some w" "unat b \<le> unat x" "unat x + n \<le> unat b + osize w"
    "(\<exists>d c. w = OSmall d c \<and> x \<in> blocks c b \<and> n = lbs c \<and> sb_place c b) \<or> (\<exists>d m. w = OLarge d m x)"
    using held_range [OF assms(1,2)] by blast
  obtain b' w' where b': "g_own g b' = Some w'" "unat b' \<le> unat y" "unat y + m \<le> unat b' + osize w'"
    "(\<exists>d c. w' = OSmall d c \<and> y \<in> blocks c b' \<and> m = lbs c \<and> sb_place c b') \<or> (\<exists>d m. w' = OLarge d m y)"
    using held_range [OF assms(1,3)] by blast
  show ?thesis
  proof (cases "b' = b")
    case True
    then show ?thesis using b b' assms(4) same_block [of x _ b y] by fastforce
  next
    case False
    then have "unat b + osize w \<le> unat b' \<or> unat b' + osize w' \<le> unat b"
      using lr_invD(1) [OF assms(1)] b(1) b'(1) unfolding inv_maps_def by blast
    then show ?thesis using b b' by linarith
  qed
qed

subsection \<open>New pages\<close>

definition fresh_map :: "addr \<Rightarrow> nat \<Rightarrow> lr_state \<Rightarrow> lr_state" where
  "fresh_map p n s = s\<lparr>lr_maps := (unat p, unat p + n) # lr_maps s,
     lr_descs := (\<lambda>a. if within p n a then zero_desc else lr_descs s a),
     lr_bytes := (\<lambda>a. if within p n a then 0 else lr_bytes s a)\<rparr>"

lemma fresh_map_simps [simp]:
  "lr_maps (fresh_map p n s) = (unat p, unat p + n) # lr_maps s"
  "AvailDesc (fresh_map p n s) = AvailDesc s" "MallocInit (fresh_map p n s) = MallocInit s"
  "Heaps (fresh_map p n s) = Heaps s" "SizeClasses (fresh_map p n s) = SizeClasses s"
  "SizeClassLookup (fresh_map p n s) = SizeClassLookup s" "pm_base (fresh_map p n s) = pm_base s"
  "pm_entry (fresh_map p n s) = pm_entry s" "lr_TCache (fresh_map p n s) = lr_TCache s"
  by (simp_all add: fresh_map_def)

lemma os_okD:
  assumes "os_ok os" and "os ms n \<noteq> - 1"
  shows "n \<noteq> 0" and "os ms n \<noteq> 0" and "unat (os ms n) mod 4096 = 0"
    and "unat (os ms n) + unat n \<le> 281474976710656"
    and "unat (os ms n) \<le> x \<Longrightarrow> x < unat (os ms n) + unat n \<Longrightarrow> \<not> in_maps ms x"
  using assms unfolding os_ok_def lr_constants by (force, force, force, force, force)

lemma PageAlloc_eq:
  "PageAlloc os n s = Inr (if os (lr_maps s) n = - 1 then (0, s)
     else (os (lr_maps s) n, fresh_map (os (lr_maps s) n) (unat n) s))"
  by (cases s) (simp add: PageAlloc_def mmap_def fresh_map_def Let_def)

lemma fresh_not_owned:
  assumes "lr_inv g s" and "\<And>x. unat p \<le> x \<Longrightarrow> x < unat p + n \<Longrightarrow> \<not> in_maps (lr_maps s) x" and "0 < n"
    and "g_own g b = Some w"
  shows "unat p + n \<le> unat b \<or> unat b + osize w \<le> unat p"
proof (rule ccontr)
  assume *: "\<not> ?thesis"
  let ?x = "max (unat p) (unat b)"
  note m = inv_mapsD(3,5) [OF lr_invD(1) [OF assms(1)] assms(4)]
  have "in_maps (lr_maps s) ?x"
    unfolding in_maps_def list_ex_iff using m * by (intro bexI [of _ "(unat b, unat b + osize w)"]) auto
  moreover have "unat p \<le> ?x" and "?x < unat p + n" using * assms(3) by auto
  ultimately show False using assms(2) by blast
qed

lemma PageAlloc_new:
  assumes "lr_inv g s" and "os_ok os" and "os (lr_maps s) n \<noteq> - 1"
  defines "p \<equiv> os (lr_maps s) n"
  defines "g' \<equiv> g\<lparr>g_own := (g_own g)(p \<mapsto> OLoose (unat n))\<rparr>"
  shows "PageAlloc os n s = Inr (p, fresh_map p (unat n) s)" and "g_own g p = None"
    and "lr_inv g' (fresh_map p (unat n) s)" and "lr_held g' = lr_held g"
    and "lr_keeps g (lr_bytes s) (lr_bytes (fresh_map p (unat n) s))" and "p \<noteq> 0"
proof -
  note os = os_okD [OF assms(2,3), folded p_def]
  show "p \<noteq> 0" by (rule os(2))
  show "PageAlloc os n s = Inr (p, fresh_map p (unat n) s)" using assms(3) by (simp add: PageAlloc_eq p_def)
  have n: "0 < unat n" using os(1) by (simp add: unat_gt_0)
  have dis: "unat p + unat n \<le> unat b \<or> unat b + osize w \<le> unat p" if "g_own g b = Some w" for b w
    using fresh_not_owned [OF assms(1) os(5) n that] by blast
  then show none: "g_own g p = None"
    using n inv_mapsD(3) [OF lr_invD(1) [OF assms(1)]] by (cases "g_own g p") force+
  then show "lr_held g' = lr_held g" unfolding g'_def by (intro held_neutral) simp_all
  show keeps: "lr_keeps g (lr_bytes s) (lr_bytes (fresh_map p (unat n) s))"
    unfolding lr_keeps_def
  proof (intro allI impI, elim conjE)
    fix x m i
    assume h: "lr_held g x m" "i < m"
    obtain b w where "g_own g b = Some w" "unat b \<le> unat x" "unat x + m \<le> unat b + osize w"
      using held_range [OF assms(1) h(1)] by blast
    then have "\<not> within p (unat n) (x + of_nat i)"
      using dis held_byte [OF assms(1) h] h(2) by (fastforce simp: within_def)
    then show "lr_bytes (fresh_map p (unat n) s) (x + of_nat i) = lr_bytes s (x + of_nat i)"
      by (simp add: fresh_map_def)
  qed
  let ?own = "(g_own g)(p \<mapsto> OLoose (unat n))"
  have views: "ldesc_at ?own = ldesc_at (g_own g)" "in_small ?own = in_small (g_own g)"
    using none by (simp_all add: neutral_views [where own = "g_own g"])
  have "lr_inv g' (s\<lparr>lr_maps := (unat p, unat p + unat n) # lr_maps s\<rparr>)"
    unfolding g'_def
  proof (rule lr_inv_neutral [OF assms(1)])
    show "inv_maps ?own ((unat p, unat p + unat n) # lr_maps s)"
      using inv_maps_cons [OF lr_invD(1) [OF assms(1)] none os(2,3), of "OLoose (unat n)"] os(4,5) n by simp
  qed (use none in simp_all)
  then have "lr_inv g' (s\<lparr>lr_maps := (unat p, unat p + unat n) # lr_maps s,
      lr_descs := (\<lambda>a. if within p (unat n) a then zero_desc else lr_descs s a)\<rparr>)"
  proof (rule lr_inv_descs)
    fix d
    assume "ldesc_at (g_own g') d"
    then have "ldesc_at (g_own g) d" using views by (simp add: g'_def)
    then obtain b where "g_own g b = Some ODescs" "unat b \<le> unat d" "unat d + 64 \<le> unat b + 65536"
      using desc_atE [OF lr_invD(1) [OF assms(1)]] by metis
    then have "\<not> within p (unat n) d" using dis by (fastforce simp: within_def)
    then show "(if within p (unat n) d then zero_desc else lr_descs s d) =
        lr_descs (s\<lparr>lr_maps := (unat p, unat p + unat n) # lr_maps s\<rparr>) d" by simp
  qed
  then have "lr_inv g' (s\<lparr>lr_maps := (unat p, unat p + unat n) # lr_maps s,
      lr_descs := (\<lambda>a. if within p (unat n) a then zero_desc else lr_descs s a),
      lr_bytes := (\<lambda>a. if within p (unat n) a then 0 else lr_bytes s a)\<rparr>)"
  proof (rule lr_inv_mem)
    fix x
    assume "tracked g' x"
    then obtain b d c where b: "g_own g b = Some (OSmall d c)" "x \<in> blocks c b"
      using views by (auto simp: tracked_def g'_def in_small_def)
    note pl = lr_inv_small(2) [OF assms(1) b(1)]
    have "unat b \<le> unat x" "unat x + 8 \<le> unat b + lsb c"
      using block_facts(2,3) [OF b(2) pl] lbs_pos [OF pl] by simp_all
    then have "\<not> within p (unat n) (x + of_nat i)" if "i < 8" for i
      using dis [OF b(1)] aligned8_bytes [OF block_facts(1) [OF b(2) pl] that] that by (auto simp: within_def)
    then show "load64 (\<lambda>a. if within p (unat n) a then 0 else lr_bytes s a) x = load64 (lr_bytes (s\<lparr>lr_maps := (unat p, unat p + unat n) # lr_maps s,
      lr_descs := (\<lambda>a. if within p (unat n) a then zero_desc else lr_descs s a)\<rparr>)) x"
      by (intro load64_cong) simp
  qed
  then show "lr_inv g' (fresh_map p (unat n) s)" by (simp add: fresh_map_def)
qed

end
