(* ===== verification/LrDescs.thy ===== *)
theory LrDescs
  imports LrPages
begin

text \<open>
  The list of free descriptors: \<^verbatim>\<open>DescAlloc\<close> takes a descriptor from the list, or maps a new block
  of pages and chains its descriptors; \<^verbatim>\<open>DescRetire\<close> puts a descriptor back.
\<close>

subsection \<open>A new block of descriptors\<close>

definition dsc :: "addr \<Rightarrow> nat \<Rightarrow> addr" where
  "dsc p i = p + of_nat (64 * i)"

definition desc_block :: "addr \<Rightarrow> bool" where
  "desc_block p \<longleftrightarrow> p \<noteq> 0 \<and> unat p mod 4096 = 0 \<and> unat p + 65536 \<le> 281474976710656"

lemma desc_blockD:
  assumes "desc_block p"
  shows "p \<noteq> 0" and "unat p mod 4096 = 0" and "unat p + 65536 \<le> 281474976710656"
  using assms unfolding desc_block_def by blast+

lemma unat_dsc:
  assumes "desc_block p" and "i \<le> 1024"
  shows "unat (dsc p i) = unat p + 64 * i"
proof -
  have "unat p + 64 * i < 2 ^ 64" using desc_blockD(3) [OF assms(1)] assms(2) by simp
  then show ?thesis unfolding dsc_def by (rule unat_offset)
qed

lemma dsc_inject:
  assumes "desc_block p" and "i \<le> 1024" and "j \<le> 1024"
  shows "dsc p i = dsc p j \<longleftrightarrow> i = j"
  using unat_dsc [OF assms(1,2)] unat_dsc [OF assms(1,3)]
  by (metis add_left_cancel mult_cancel1 zero_neq_numeral)

lemma dsc_al64:
  assumes "desc_block p" and "i \<le> 1024"
  shows "al64 (dsc p i)" and "dsc p i \<noteq> 0"
proof -
  obtain q where "unat p = 4096 * q" using desc_blockD(2) [OF assms(1)] by (metis mod_0_imp_dvd dvdE)
  then have "unat (dsc p i) = 64 * (64 * q + i)" using unat_dsc [OF assms] by simp
  then show "al64 (dsc p i)" by (simp add: al64_def)
  show "dsc p i \<noteq> 0" using unat_dsc [OF assms] desc_blockD(1) [OF assms(1)]
    by (metis add_eq_0_iff_both_eq_0 unat_0 unat_eq_zero)
qed

lemma round_up_64:
  assumes "(n :: nat) mod 64 = 0"
  shows "(n + 63) div 64 * 64 = n"
proof -
  obtain q where "n = 64 * q" using assms by (metis mod_0_imp_dvd dvdE)
  then show ?thesis by simp
qed

lemma align_dsc:
  assumes "desc_block p" and "i \<le> 1024"
  shows "lr_ALIGN_VAL (dsc p i) 64 = dsc p i"
proof -
  have u: "unat (dsc p i) mod 64 = 0" using dsc_al64(1) [OF assms] by (simp add: al64_def)
  have "unat (dsc p i) + 63 < 18446744073709551616"
    using unat_dsc [OF assms] desc_blockD(3) [OF assms(1)] assms(2) by simp
  then have "unat (lr_ALIGN_VAL (dsc p i) 64) = (unat (dsc p i) + 63) div 64 * 64"
    using lr_ALIGN_VAL_unat [of 6 "dsc p i"] by simp
  also have "\<dots> = unat (dsc p i)" using u by (rule round_up_64)
  finally show ?thesis by (simp only: word_unat_eq_iff)
qed

lemma dsc_Suc: "dsc p i + 64 = dsc p (Suc i)"
  by (simp add: dsc_def algebra_simps)

lemma dsc_less:
  assumes "desc_block p" and "i \<le> 1023"
  shows "dsc p i + 64 < p + 65536 \<longleftrightarrow> i < 1023"
proof -
  have "p + 65536 = dsc p 1024" by (simp add: dsc_def)
  then show ?thesis
    using unat_dsc [OF assms(1), of "Suc i"] unat_dsc [OF assms(1), of 1024] assms(2)
    unfolding dsc_Suc by (simp add: word_less_nat_alt)
qed

text \<open>The state of the chaining loop after the descriptors up to \<open>k\<close>.\<close>

lemma desc_at_dsc: "own p = Some ODescs \<Longrightarrow> i < 1024 \<Longrightarrow> ldesc_at own (dsc p i)"
  unfolding ldesc_at_def dsc_def by blast

lemma chain_descs_run:
  assumes "inv_maps own (lr_maps s)" and "own p = Some ODescs" and "desc_block p"
    and "k \<le> 1022" and "1 \<le> k" and "n = 1022 - k"
  shows "\<exists>ds. chain_descs (Suc (m + n)) p (dsc p k) (dsc p (Suc k)) s = Inr (dsc p 1022, s\<lparr>lr_descs := ds\<rparr>)
    \<and> (\<forall>i. k \<le> i \<and> i < 1022 \<longrightarrow> ds_nextFree (ds (dsc p i)) = dsc p (Suc i))
    \<and> (\<forall>d. (\<forall>i. k \<le> i \<and> i < 1022 \<longrightarrow> d \<noteq> dsc p i) \<longrightarrow> ds d = lr_descs s d)"
  using assms
proof (induction n arbitrary: k s)
  case 0
  then have k: "k = 1022" by simp
  have "chain_descs (Suc (m + 0)) p (dsc p k) (dsc p (Suc k)) s = Inr (dsc p 1022, s\<lparr>lr_descs := lr_descs s\<rparr>)"
  proof -
    have "\<not> dsc p (Suc k) + 64 < p + 65536" unfolding k using dsc_less [OF 0(3), of "Suc 1022"] by simp
    then have "chain_descs (Suc (m + 0)) p (dsc p k) (dsc p (Suc k)) s = Inr (dsc p k, s)"
      by (simp only: chain_descs.simps lr_constants if_False)
    then show ?thesis by (simp add: k)
  qed
  with k show ?case by (intro exI [of _ "lr_descs s"]) (auto simp del: chain_descs.simps)
next
  case (Suc n)
  let ?d = "dsc p k"
  let ?v = "ds_nextFree_update (\<lambda>_. dsc p (Suc k)) (lr_descs s ?d)"
  let ?s = "s\<lparr>lr_descs := (lr_descs s)(?d := ?v)\<rparr>"
  have k: "k < 1022" using Suc.prems(4,6) by simp
  have upd: "upd_desc ?d (ds_nextFree_update (\<lambda>_. dsc p (Suc k))) s = Inr ?s"
    using desc_access(2) [OF Suc.prems(1) desc_at_dsc [where own = own, OF Suc.prems(2)]] k by simp
  have step: "chain_descs (Suc (m + Suc n)) p ?d (dsc p (Suc k)) s
      = chain_descs (Suc (m + n)) p (dsc p (Suc k)) (dsc p (Suc (Suc k))) ?s"
    using upd dsc_less [OF Suc.prems(3), of "Suc k"] dsc_al64(2) [OF Suc.prems(3), of k] k
      align_dsc [OF Suc.prems(3), of "Suc (Suc k)"]
    by (simp add: dsc_Suc)
  have im: "inv_maps own (lr_maps ?s)" using Suc.prems(1) by simp
  have ks: "Suc k \<le> 1022" "1 \<le> Suc k" "n = 1022 - Suc k" using k Suc.prems(6) by simp_all
  obtain ds where
    ds: "chain_descs (Suc (m + n)) p (dsc p (Suc k)) (dsc p (Suc (Suc k))) ?s = Inr (dsc p 1022, ?s\<lparr>lr_descs := ds\<rparr>)"
    and nx: "\<forall>i. Suc k \<le> i \<and> i < 1022 \<longrightarrow> ds_nextFree (ds (dsc p i)) = dsc p (Suc i)"
    and fr: "\<forall>d. (\<forall>i. Suc k \<le> i \<and> i < 1022 \<longrightarrow> d \<noteq> dsc p i) \<longrightarrow> ds d = lr_descs ?s d"
    using Suc.IH [OF im Suc.prems(2,3) ks] by blast
  have "ds ?d = ?v" using fr dsc_inject [OF Suc.prems(3)] k by auto
  then have "ds_nextFree (ds ?d) = dsc p (Suc k)" by simp
  then have "\<forall>i. k \<le> i \<and> i < 1022 \<longrightarrow> ds_nextFree (ds (dsc p i)) = dsc p (Suc i)"
    using nx by (metis le_neq_implies_less Suc_leI)
  moreover have "\<forall>d. (\<forall>i. k \<le> i \<and> i < 1022 \<longrightarrow> d \<noteq> dsc p i) \<longrightarrow> ds d = lr_descs s d"
    using fr k by auto
  ultimately show ?case using step ds by (intro exI [of _ ds]) (simp del: chain_descs.simps)
qed

subsection \<open>Giving pages a use\<close>

lemma inv_maps_convert:
  assumes "own p = Some w" and "osize w' = osize w" and "inv_maps own ms"
  shows "inv_maps (own(p \<mapsto> w')) ms"
proof -
  have sz: "\<exists>v0. own b = Some v0 \<and> osize v0 = osize v" if "(own(p \<mapsto> w')) b = Some v" for b v
    using assms(1,2) that by (auto split: if_splits)
  have sz': "\<exists>v0. (own(p \<mapsto> w')) b = Some v0 \<and> osize v0 = osize v" if "own b = Some v" for b v
    using assms(1,2) that by auto
  have "set ms = {(unat b, unat b + osize v) | b v. own b = Some v}"
    using assms(3) unfolding inv_maps_def by blast
  also have "\<dots> = {(unat b, unat b + osize v) | b v. (own(p \<mapsto> w')) b = Some v}"
    (is "?A = ?B")
  proof (intro equalityI subsetI)
    fix r assume "r \<in> ?A"
    then obtain b v where b: "r = (unat b, unat b + osize v)" "own b = Some v" by blast
    obtain v0 where "(own(p \<mapsto> w')) b = Some v0" "osize v0 = osize v" using sz' [OF b(2)] by blast
    then show "r \<in> ?B" using b(1) by (intro CollectI exI [of _ b] exI [of _ v0]) simp
  next
    fix r assume "r \<in> ?B"
    then obtain b v where b: "r = (unat b, unat b + osize v)" "(own(p \<mapsto> w')) b = Some v" by blast
    obtain v0 where "own b = Some v0" "osize v0 = osize v" using sz [OF b(2)] by blast
    then show "r \<in> ?A" using b(1) by (intro CollectI exI [of _ b] exI [of _ v0]) simp
  qed
  finally have "set ms = ?B" .
  moreover have "b \<noteq> 0 \<and> unat b mod 4096 = 0 \<and> 0 < osize v \<and> unat b + osize v \<le> 281474976710656"
    if own': "(own(p \<mapsto> w')) b = Some v" for b v
  proof -
    obtain v0 where v0: "own b = Some v0" "osize v0 = osize v" using sz [OF own'] by blast
    show ?thesis using inv_mapsD(1-4) [OF assms(3) v0(1)] unfolding v0(2) by blast
  qed
  moreover have "unat b + osize v \<le> unat b' \<or> unat b' + osize v' \<le> unat b"
    if own': "(own(p \<mapsto> w')) b = Some v" "(own(p \<mapsto> w')) b' = Some v'" "b \<noteq> b'" for b v b' v'
  proof -
    obtain v0 where v0: "own b = Some v0" "osize v0 = osize v" using sz [OF own'(1)] by blast
    obtain v1 where v1: "own b' = Some v1" "osize v1 = osize v'" using sz [OF own'(2)] by blast
    have "unat b + osize v0 \<le> unat b' \<or> unat b' + osize v1 \<le> unat b"
      using assms(3) v0(1) v1(1) own'(3) unfolding inv_maps_def by blast
    then show ?thesis using v0 v1 by simp
  qed
  ultimately show ?thesis unfolding inv_maps_def by blast
qed

lemma desc_at_convert:
  assumes "own p = Some (OLoose 65536)"
  shows "ldesc_at (own(p \<mapsto> ODescs)) d \<longleftrightarrow> ldesc_at own d \<or> (\<exists>i < 1024. d = dsc p i)"
  using assms unfolding ldesc_at_def dsc_def by auto

lemma loose_page_desc:
  assumes "lr_inv g s" and "g_own g p = Some (OLoose 65536)" and "i < 1024"
  shows "\<not> ldesc_at (g_own g) (dsc p i)" and "desc_block p"
proof -
  note m = lr_invD(1) [OF assms(1)]
  show pb: "desc_block p" using inv_mapsD [OF m assms(2)] unfolding desc_block_def osize.simps by blast
  show "\<not> ldesc_at (g_own g) (dsc p i)"
  proof
    assume "ldesc_at (g_own g) (dsc p i)"
    then obtain b where b: "g_own g b = Some ODescs" "unat b \<le> unat (dsc p i)" "unat (dsc p i) + 64 \<le> unat b + 65536"
      using desc_atE [OF m] by metis
    have "b = p \<and> ODescs = OLoose 65536"
      by (rule owner_unique [OF m assms(2) b(1), of "unat (dsc p i)"]) (use b assms(3) unat_dsc [OF pb, of i] in simp_all)
    then show False by simp
  qed
qed

lemma lr_inv_own_descs:
  assumes "lr_inv g s" and "g_own g p = Some (OLoose 65536)"
  defines "g' \<equiv> g\<lparr>g_own := (g_own g)(p \<mapsto> ODescs)\<rparr>"
  shows "lr_inv g' s" and "lr_held g' = lr_held g" and "i < 1024 \<Longrightarrow> loose g' (dsc p i)"
    and "loose g d \<Longrightarrow> loose g' d"
proof -
  let ?own = "(g_own g)(p \<mapsto> ODescs)"
  have sm: "?own b = Some (OSmall d c) \<longleftrightarrow> g_own g b = Some (OSmall d c)"
    and la: "?own b = Some (OLarge d n u) \<longleftrightarrow> g_own g b = Some (OLarge d n u)"
    and pg: "?own b = Some OPageMap \<longleftrightarrow> g_own g b = Some OPageMap" for b d c n u
    using assms(2) by auto
  have ow: "owns ?own = owns (g_own g)" unfolding owns_def sm la by auto
  have ins: "in_small ?own = in_small (g_own g)" unfolding in_small_def sm by auto
  have da: "ldesc_at (g_own g) d \<Longrightarrow> ldesc_at ?own d" for d using desc_at_convert [where own = "g_own g", OF assms(2)] by blast
  have "inv_maps ?own (lr_maps s)"
    using inv_maps_convert [where own = "g_own g", OF assms(2) _ lr_invD(1) [OF assms(1)], of ODescs] by simp
  moreover have "inv_init ?own s" using lr_invD(2) [OF assms(1)] pg by (simp add: inv_init_def)
  moreover have "inv_avail ?own (g_avail g) (AvailDesc s) (lr_descs s)"
    using lr_invD(3) [OF assms(1)] da by (simp add: inv_avail_def ow)
  moreover have "inv_part ?own (g_avail g) (g_part g) (Heaps s) (lr_descs s)"
    using lr_invD(4) [OF assms(1)] da by (simp add: inv_part_def ow)
  moreover have "inv_small ?own (g_place g) (g_free g) (g_part g) (lr_descs s) (lr_bytes s) (pm_entry s)"
    using lr_invD(5) [OF assms(1)] da unfolding inv_small_def small_ok_def sm by blast
  moreover have "inv_large ?own (lr_descs s) (pm_entry s)"
    using lr_invD(6) [OF assms(1)] da unfolding inv_large_def large_ok_def la by blast
  moreover have "inv_cache ?own (g_place g) (g_cache g) (lr_TCache s) (lr_bytes s)"
    using lr_invD(7) [OF assms(1)] unfolding inv_cache_def bin_ok_def ins .
  ultimately show "lr_inv g' s" by (simp add: lr_inv_def g'_def)
  show "lr_held g' = lr_held g" unfolding lr_held_def g'_def by (simp add: ins la del: fun_upd_apply)
  show "loose g d \<Longrightarrow> loose g' d" using da by (simp add: loose_def g'_def ow del: fun_upd_apply)
  assume i: "i < 1024"
  note no = loose_page_desc(1) [OF assms(1,2) i]
  have "\<not> owns (g_own g) (dsc p i)"
    using no lr_inv_small(3) [OF assms(1)] lr_inv_large [OF assms(1)] unfolding owns_def large_ok_def by blast
  moreover have "dsc p i \<notin> set (g_avail g)" using lr_invD(3) [OF assms(1)] no by (auto simp: inv_avail_def)
  moreover have "\<forall>c < 40. dsc p i \<notin> set (g_part g c)" using lr_inv_part(3) [OF assms(1)] no by blast
  ultimately show "loose g' (dsc p i)"
    using desc_at_dsc [of ?own p i] i by (simp add: loose_def g'_def ow del: fun_upd_apply) simp
qed

subsection \<open>The list of free descriptors\<close>

lemma dlist_head: "GetDesc w = GetDesc w' \<Longrightarrow> dlist nx w ds = dlist nx w' ds"
  by (cases ds) auto

lemma dlist_upt:
  assumes "k < n" and "\<And>i. k \<le> i \<Longrightarrow> i < n \<Longrightarrow> al64 (f i) \<and> f i \<noteq> 0"
    and "\<And>i. k \<le> i \<Longrightarrow> Suc i < n \<Longrightarrow> nx (f i) = f (Suc i)" and "GetDesc (nx (f (n - 1))) = 0"
  shows "dlist nx (f k) (map f [k..<n])"
  using assms
proof (induction "n - k" arbitrary: k)
  case (Suc m)
  have u: "[k..<n] = k # [Suc k..<n]" using Suc.prems(1) by (rule upt_conv_Cons)
  show ?case
  proof (cases "Suc k < n")
    case True
    have "dlist nx (f (Suc k)) (map f [Suc k..<n])"
      by (rule Suc.hyps(1)) (use Suc True in auto)
    then show ?thesis using Suc.prems(2) [of k] Suc.prems(3) [of k] True u by simp
  next
    case False
    then have "n = Suc k" using Suc.prems(1) by simp
    then show ?thesis using Suc.prems(2) [of k] Suc.prems(4) by simp
  qed
qed simp

text \<open>What an operation on descriptors leaves: the blocks of the program and the lists of blocks.\<close>

definition lr_ext :: "lr_ghost \<Rightarrow> lr_state \<Rightarrow> lr_ghost \<Rightarrow> lr_state \<Rightarrow> bool" where
  "lr_ext g s g' s' \<longleftrightarrow> lr_inv g' s' \<and> lr_held g' = lr_held g \<and> lr_keeps g (lr_bytes s) (lr_bytes s')
     \<and> g_cache g' = g_cache g \<and> g_part g' = g_part g \<and> lr_TCache s' = lr_TCache s"

lemma lr_keeps_refl [simp]: "lr_keeps g m m"
  by (simp add: lr_keeps_def)

lemma lr_keeps_trans:
  assumes "lr_keeps g m m'" and "lr_keeps g' m' m''" and "\<And>x n. lr_held g x n \<Longrightarrow> lr_held g' x n"
  shows "lr_keeps g m m''"
  using assms unfolding lr_keeps_def by metis

lemma lr_ext_trans: "lr_ext g s g1 s1 \<Longrightarrow> lr_ext g1 s1 g2 s2 \<Longrightarrow> lr_ext g s g2 s2"
  unfolding lr_ext_def using lr_keeps_trans by metis

text \<open>Any list of descriptors that are in no other list can be the list of free descriptors.\<close>

lemma lr_inv_avail:
  assumes "lr_inv g s" and "dlist (\<lambda>x. ds_nextFree (lr_descs s x)) w L" and "distinct L"
    and L: "\<And>d. d \<in> set L \<Longrightarrow> ldesc_at (g_own g) d \<and> \<not> owns (g_own g) d \<and> (\<forall>c < 40. d \<notin> set (g_part g c))"
  shows "lr_inv (g\<lparr>g_avail := L\<rparr>) (s\<lparr>AvailDesc := w\<rparr>)"
proof -
  have "inv_avail (g_own g) L w (lr_descs s)" using assms(2,3) L by (simp add: inv_avail_def)
  moreover have "inv_part (g_own g) L (g_part g) (Heaps s) (lr_descs s)"
    using lr_invD(4) [OF assms(1)] L unfolding inv_part_def by blast
  ultimately show ?thesis using assms(1) by (simp add: lr_inv_def inv_init_def)
qed

lemma avail_not_listed:
  assumes "lr_inv g s" and "d \<in> set (g_avail g)"
  shows "ldesc_at (g_own g) d \<and> \<not> owns (g_own g) d \<and> (\<forall>c < 40. d \<notin> set (g_part g c))"
  using lr_invD(3) [OF assms(1)] lr_inv_part(3) [OF assms(1)] assms(2) by (auto simp: inv_avail_def)

lemma held_avail [simp]: "lr_held (g\<lparr>g_avail := L\<rparr>) = lr_held g"
  by (simp add: lr_held_def fun_eq_iff)

lemma DescAlloc_pop:
  assumes "lr_inv g s" and "g_avail g = d # ds"
  shows "\<exists>s'. DescAlloc os s = Inr (d, s') \<and> lr_ext g s (g\<lparr>g_avail := ds\<rparr>) s'
    \<and> loose (g\<lparr>g_avail := ds\<rparr>) d \<and> lr_maps s' = lr_maps s"
proof -
  let ?w = "AvailDesc s"
  let ?nw = "GetDesc (ds_nextFree (lr_descs s d)) OR (GetCounter ?w AND 63)"
  let ?s = "s\<lparr>AvailDesc := ?nw\<rparr>"
  note av = lr_invD(3) [OF assms(1), unfolded inv_avail_def assms(2)]
  have d: "GetDesc ?w = d" "d \<noteq> 0" "ldesc_at (g_own g) d" "\<not> owns (g_own g) d" "d \<notin> set ds"
    using av by auto
  have run: "DescAlloc os s = Inr (d, ?s)"
    using d desc_access(1) [OF lr_invD(1) [OF assms(1)] d(3)]
    by (simp add: DescAlloc_def CAS_FUEL_def numeral_2_eq_2 AvailDesc_cas_def)
  have "lr_inv (g\<lparr>g_avail := ds\<rparr>) ?s"
  proof (rule lr_inv_avail [OF assms(1)])
    show "dlist (\<lambda>x. ds_nextFree (lr_descs s x)) ?nw ds"
      using av by (simp add: dlist_head [of ?nw "ds_nextFree (lr_descs s d)"])
  qed (use av avail_not_listed [OF assms(1)] assms(2) in auto)
  moreover have "loose (g\<lparr>g_avail := ds\<rparr>) d"
    using d avail_not_listed [OF assms(1), of d] assms(2) by (simp add: loose_def)
  ultimately show ?thesis using run by (auto simp: lr_ext_def)
qed

lemma new_descs_run:
  assumes "inv_maps own (lr_maps s)" and "own p = Some ODescs" and "desc_block p"
  shows "\<exists>ds. rbind (chain_descs DESC_FUEL p 0 (lr_ALIGN_VAL (p + 64) 64) s) (\<lambda>(prev, s2).
       rbind (upd_desc prev (ds_nextFree_update (\<lambda>_. 0)) s2) (\<lambda>s3.
       rbind (cas_loop CAS_FUEL (add_descs_body (lr_ALIGN_VAL (p + 64) 64) prev) AvailDesc_cas (AvailDesc s3) s3)
         (\<lambda>(oldHead, newHead, s4). Inr (p, s4)))) =
      Inr (p, s\<lparr>lr_descs := ds, AvailDesc := dsc p 1 OR ((GetCounter (AvailDesc s) + 1) AND 63)\<rparr>)
    \<and> (\<forall>i. 1 \<le> i \<and> i < 1022 \<longrightarrow> ds_nextFree (ds (dsc p i)) = dsc p (Suc i))
    \<and> ds_nextFree (ds (dsc p 1022)) = AvailDesc s
    \<and> (\<forall>d. (\<forall>i. i < 1024 \<longrightarrow> d \<noteq> dsc p i) \<longrightarrow> ds d = lr_descs s d)"
proof -
  have "\<exists>ds. chain_descs (Suc (1 + 1021)) p (dsc p 1) (dsc p (Suc 1)) s = Inr (dsc p 1022, s\<lparr>lr_descs := ds\<rparr>)
    \<and> (\<forall>i. 1 \<le> i \<and> i < 1022 \<longrightarrow> ds_nextFree (ds (dsc p i)) = dsc p (Suc i))
    \<and> (\<forall>d. (\<forall>i. 1 \<le> i \<and> i < 1022 \<longrightarrow> d \<noteq> dsc p i) \<longrightarrow> ds d = lr_descs s d)"
    by (rule chain_descs_run [OF assms]) simp_all
  then obtain ds where ch: "chain_descs (Suc (1 + 1021)) p (dsc p 1) (dsc p (Suc 1)) s = Inr (dsc p 1022, s\<lparr>lr_descs := ds\<rparr>)"
    and nx: "\<forall>i. 1 \<le> i \<and> i < 1022 \<longrightarrow> ds_nextFree (ds (dsc p i)) = dsc p (Suc i)"
    and fr: "\<forall>d. (\<forall>i. 1 \<le> i \<and> i < 1022 \<longrightarrow> d \<noteq> dsc p i) \<longrightarrow> ds d = lr_descs s d" by blast
  have first: "lr_ALIGN_VAL (p + 64) 64 = dsc p 1"
    using align_dsc [OF assms(3), of 1] by (simp add: dsc_def)
  have fuel: "DESC_FUEL = Suc (Suc (1 + 1021))" by (simp add: DESC_FUEL_def)
  have chain: "chain_descs DESC_FUEL p 0 (dsc p 1) s = Inr (dsc p 1022, s\<lparr>lr_descs := ds\<rparr>)"
  proof -
    have "dsc p 1 + 64 < p + 65536" using dsc_less [OF assms(3), of 1] by simp
    moreover have "lr_ALIGN_VAL (dsc p 1 + 64) 64 = dsc p (Suc 1)"
      using align_dsc [OF assms(3), of "Suc 1"] by (simp only: dsc_Suc)
    ultimately show ?thesis
      unfolding fuel chain_descs.simps(2) [of "Suc (1 + 1021)"] lr_constants
      by (simp only: if_True ch simp_thms if_False rbind_simps)
  qed
  let ?l = "dsc p 1022"
  let ?ds = "ds(?l := (ds ?l)\<lparr>ds_nextFree := AvailDesc s\<rparr>)"
  have dl: "ldesc_at own ?l" by (rule desc_at_dsc [where own = own, OF assms(2)]) simp
  have acc: "upd_desc ?l f s' = Inr (s'\<lparr>lr_descs := (lr_descs s')(?l := f (lr_descs s' ?l))\<rparr>)"
    if "lr_maps s' = lr_maps s" for f s'
    by (rule desc_access(2) [where own = own, OF _ dl]) (simp only: that assms(1))
  have "?ds (dsc p i) = ds (dsc p i)" if "i < 1022" for i
    using dsc_inject [OF assms(3), of i 1022] that by simp
  then have "\<forall>i. 1 \<le> i \<and> i < 1022 \<longrightarrow> ds_nextFree (?ds (dsc p i)) = dsc p (Suc i)"
    using nx by metis
  moreover have "ds_nextFree (?ds ?l) = AvailDesc s" by simp
  moreover have "\<forall>d. (\<forall>i. i < 1024 \<longrightarrow> d \<noteq> dsc p i) \<longrightarrow> ?ds d = lr_descs s d"
  proof (intro allI impI)
    fix d
    assume d: "\<forall>i. i < 1024 \<longrightarrow> d \<noteq> dsc p i"
    have "d \<noteq> ?l" using d by simp
    moreover have "ds d = lr_descs s d" using fr d by simp
    ultimately show "?ds d = lr_descs s d" by simp
  qed
  ultimately show ?thesis
    by (intro exI [of _ ?ds])
      (simp add: first chain [unfolded One_nat_def] acc add_descs_body_def AvailDesc_cas_def CAS_FUEL_def numeral_2_eq_2)
qed

lemma DescAlloc_empty: "GetDesc (AvailDesc s) = 0 \<Longrightarrow> DescAlloc os s = new_descs os s"
  by (simp add: DescAlloc_def CAS_FUEL_def numeral_2_eq_2)

lemma DescAlloc_new:
  assumes "lr_inv g s" and "g_avail g = []" and "os_ok os" and "os (lr_maps s) 65536 \<noteq> - 1"
  defines "p \<equiv> os (lr_maps s) 65536"
  shows "\<exists>g' s'. DescAlloc os s = Inr (p, s') \<and> lr_ext g s g' s' \<and> loose g' p
    \<and> lr_maps s' = (unat p, unat p + 65536) # lr_maps s"
proof -
  let ?s1 = "fresh_map p 65536 s"
  let ?g2 = "g\<lparr>g_own := (g_own g)(p \<mapsto> ODescs)\<rparr>"
  let ?L = "map (dsc p) [1..<1023]"
  note pa = PageAlloc_new [OF assms(1,3,4), folded p_def, simplified]
  note od = lr_inv_own_descs [OF pa(3), of p, simplified]
  have pb: "desc_block p" using loose_page_desc(2) [OF pa(3), of p 0] by simp
  have im: "inv_maps (g_own ?g2) (lr_maps ?s1)" using lr_invD(1) [OF od(1)] .
  have av: "GetDesc (AvailDesc s) = 0"
    using lr_invD(3) [OF assms(1)] assms(2) by (simp add: inv_avail_def)
  obtain ds where run: "rbind (chain_descs DESC_FUEL p 0 (lr_ALIGN_VAL (p + 64) 64) ?s1) (\<lambda>(prev, s2).
       rbind (upd_desc prev (ds_nextFree_update (\<lambda>_. 0)) s2) (\<lambda>s3.
       rbind (cas_loop CAS_FUEL (add_descs_body (lr_ALIGN_VAL (p + 64) 64) prev) AvailDesc_cas (AvailDesc s3) s3)
         (\<lambda>(oldHead, newHead, s4). Inr (p, s4)))) =
      Inr (p, ?s1\<lparr>lr_descs := ds, AvailDesc := dsc p 1 OR ((GetCounter (AvailDesc ?s1) + 1) AND 63)\<rparr>)"
    and nx: "\<forall>i. 1 \<le> i \<and> i < 1022 \<longrightarrow> ds_nextFree (ds (dsc p i)) = dsc p (Suc i)"
    and la: "ds_nextFree (ds (dsc p 1022)) = AvailDesc ?s1"
    and fr: "\<forall>d. (\<forall>i. i < 1024 \<longrightarrow> d \<noteq> dsc p i) \<longrightarrow> ds d = lr_descs ?s1 d"
    using new_descs_run [OF im _ pb] by auto
  let ?w = "dsc p 1 OR ((GetCounter (AvailDesc ?s1) + 1) AND 63)"
  let ?s2 = "?s1\<lparr>lr_descs := ds, AvailDesc := ?w\<rparr>"
  have "DescAlloc os s = Inr (p, ?s2)"
    unfolding DescAlloc_empty [OF av] new_descs_def lr_constants pa(1) rbind_simps prod.case Let_def
    by (rule run)
  moreover have "lr_inv (?g2\<lparr>g_avail := ?L\<rparr>) ?s2"
  proof (rule lr_inv_avail)
    show "lr_inv ?g2 (?s1\<lparr>lr_descs := ds\<rparr>)"
    proof (rule lr_inv_descs [OF od(1)])
      fix d
      assume "\<not> loose ?g2 d"
      then have "\<forall>i. i < 1024 \<longrightarrow> d \<noteq> dsc p i" using od(3) by metis
      then show "ds d = lr_descs ?s1 d" using fr by metis
    qed
    have "dlist (\<lambda>x. ds_nextFree (ds x)) (dsc p 1) ?L"
    proof (rule dlist_upt)
      show "\<And>i. 1 \<le> i \<Longrightarrow> Suc i < 1023 \<Longrightarrow> ds_nextFree (ds (dsc p i)) = dsc p (Suc i)" using nx by simp
    qed (use la av dsc_al64 [OF pb] in simp_all)
    then show "dlist (\<lambda>x. ds_nextFree (lr_descs (?s1\<lparr>lr_descs := ds\<rparr>) x)) ?w ?L"
      using dsc_al64(1) [OF pb, of 1] dlist_head [of ?w "dsc p 1"] by simp
    show "distinct ?L" using dsc_inject [OF pb] by (auto simp: distinct_map inj_on_def)
    show "ldesc_at (g_own ?g2) d \<and> \<not> owns (g_own ?g2) d \<and> (\<forall>c < 40. d \<notin> set (g_part ?g2 c))"
      if "d \<in> set ?L" for d using od(3) that by (auto simp: loose_def)
  qed
  moreover have "loose (?g2\<lparr>g_avail := ?L\<rparr>) p"
  proof -
    have "dsc p 0 = p" by (simp add: dsc_def)
    then have "loose ?g2 p" using od(3) [of 0] by simp
    moreover have "p \<notin> set ?L" using dsc_inject [OF pb, of 0] \<open>dsc p 0 = p\<close> by auto
    ultimately show ?thesis by (simp add: loose_def)
  qed
  ultimately show ?thesis using pa(4,5) od(2)
    by (intro exI [of _ "?g2\<lparr>g_avail := ?L\<rparr>"] exI [of _ ?s2]) (simp add: lr_ext_def)
qed

text \<open>\<^verbatim>\<open>DescAlloc\<close> needs the kernel only when the list is empty.\<close>

lemma DescAlloc_ok:
  assumes "lr_inv g s" and "os_ok os" and "g_avail g = [] \<Longrightarrow> os (lr_maps s) 65536 \<noteq> - 1"
  shows "\<exists>d g' s'. DescAlloc os s = Inr (d, s') \<and> lr_ext g s g' s' \<and> loose g' d
    \<and> lr_maps s' = (if g_avail g = [] then (unat (os (lr_maps s) 65536), unat (os (lr_maps s) 65536) + 65536) # lr_maps s
                    else lr_maps s)"
proof (cases "g_avail g")
  case Nil
  show ?thesis using DescAlloc_new [OF assms(1) Nil assms(2) assms(3) [OF Nil]] Nil by auto
next
  case (Cons d ds)
  show ?thesis using DescAlloc_pop [OF assms(1) Cons, of os] Cons by auto
qed

lemma DescRetire_ok:
  assumes "lr_inv g s" and "loose g d"
  shows "\<exists>s'. DescRetire d s = Inr s' \<and> lr_ext g s (g\<lparr>g_avail := d # g_avail g\<rparr>) s' \<and> lr_maps s' = lr_maps s
    \<and> lr_bytes s' = lr_bytes s \<and> Heaps s' = Heaps s"
proof -
  note l = assms(2) [unfolded loose_def]
  note m = lr_invD(1) [OF assms(1)]
  have d: "al64 d" "d \<noteq> 0" using desc_at_al64 [OF m] l by blast+
  let ?ds = "(lr_descs s)(d := (lr_descs s d)\<lparr>ds_blockSize := 0, ds_nextFree := AvailDesc s\<rparr>)"
  let ?w = "d OR ((GetCounter (AvailDesc s) + 1) AND 63)"
  let ?s = "s\<lparr>lr_descs := ?ds, AvailDesc := ?w\<rparr>"
  have acc: "upd_desc d f s' = Inr (s'\<lparr>lr_descs := (lr_descs s')(d := f (lr_descs s' d))\<rparr>)"
    if "lr_maps s' = lr_maps s" for f s'
    by (rule desc_access(2) [where own = "g_own g"]) (use that m l in simp_all)
  have "DescRetire d s = Inr ?s"
    by (simp add: DescRetire_def acc retire_body_def AvailDesc_cas_def CAS_FUEL_def numeral_2_eq_2)
  moreover have "lr_inv (g\<lparr>g_avail := d # g_avail g\<rparr>) ?s"
  proof (rule lr_inv_avail)
    show "lr_inv g (s\<lparr>lr_descs := ?ds\<rparr>)" by (rule lr_inv_loose_desc [OF assms])
    have "dlist (\<lambda>x. ds_nextFree (?ds x)) (AvailDesc s) (g_avail g)
        = dlist (\<lambda>x. ds_nextFree (lr_descs s x)) (AvailDesc s) (g_avail g)"
      using l by (intro dlist_cong) auto
    then show "dlist (\<lambda>x. ds_nextFree (lr_descs (s\<lparr>lr_descs := ?ds\<rparr>) x)) ?w (d # g_avail g)"
      using lr_invD(3) [OF assms(1)] d by (simp add: inv_avail_def)
    show "distinct (d # g_avail g)" using lr_invD(3) [OF assms(1)] l by (simp add: inv_avail_def)
    show "ldesc_at (g_own g) e \<and> \<not> owns (g_own g) e \<and> (\<forall>c < 40. e \<notin> set (g_part g c))"
      if "e \<in> set (d # g_avail g)" for e using that l avail_not_listed [OF assms(1), of e] by auto
  qed
  ultimately show ?thesis by (intro exI [of _ ?s]) (simp add: lr_ext_def)
qed

end
