(* ===== verification/LrFill.thy ===== *)
theory LrFill
  imports LrDescs
begin

text \<open>
  Filling an empty cache. The free list of a partial superblock becomes the cache as it is;
  descriptors of superblocks that were emptied meanwhile are taken off the partial list and
  retired. When no partial superblock is left, a new one is mapped, its blocks are linked and its
  pages are registered in the page map.
\<close>

subsection \<open>Moving blocks between places\<close>

lemma small_ok_place:
  assumes "small_ok own pl F part v m pm b d c"
    and "\<And>x. x \<in> blocks c b \<Longrightarrow> pl' x = InFree \<longleftrightarrow> pl x = InFree"
    and "F \<noteq> [] \<Longrightarrow> d \<in> set (part c) \<Longrightarrow> d \<in> set (part' c)"
  shows "small_ok own pl' F part' v m pm b d c"
proof -
  have "{x \<in> blocks c b. pl' x = InFree} = {x \<in> blocks c b. pl x = InFree}" using assms(2) by blast
  then show ?thesis using assms(1,3) by (simp add: small_ok_def)
qed

lemma bin_ok_place:
  assumes "bin_ok own pl L bin m t c"
    and "\<And>x. in_small own c x \<Longrightarrow> pl' x = InCache t \<longleftrightarrow> pl x = InCache t"
  shows "bin_ok own pl' L bin m t c"
proof -
  have "{x. in_small own c x \<and> pl' x = InCache t} = {x. in_small own c x \<and> pl x = InCache t}"
    using assms(2) by blast
  then show ?thesis using assms(1) by (simp add: bin_ok_def)
qed

text \<open>An update of the partial list of one class.\<close>

lemma inv_part_set:
  assumes "lr_inv g s" and c: "c < 40" and "dlist (\<lambda>d. ds_nextPartial (ds d)) w L" and "distinct L"
    and L: "\<And>d. d \<in> set L \<Longrightarrow> ldesc_at (g_own g) d \<and> d \<notin> set (g_avail g) \<and> ds_heap (ds d) = Some c
      \<and> an_state (ds_anchor (ds d)) = (if owns (g_own g) d then LR_SB_PARTIAL else LR_SB_EMPTY)"
    and same: "\<And>d c'. c' < 40 \<Longrightarrow> c' \<noteq> c \<Longrightarrow> d \<in> set (g_part g c') \<Longrightarrow> ds d = lr_descs s d"
  shows "inv_part (g_own g) (g_avail g) ((g_part g)(c := L))
    ((Heaps s)(c := (Heaps s c)\<lparr>ph_partialList := w\<rparr>)) ds"
  unfolding inv_part_def
proof (intro allI impI)
  fix c' :: nat
  assume c': "c' < 40"
  show "dlist (\<lambda>d. ds_nextPartial (ds d))
      (ph_partialList (((Heaps s)(c := (Heaps s c)\<lparr>ph_partialList := w\<rparr>)) c')) (((g_part g)(c := L)) c')
    \<and> distinct (((g_part g)(c := L)) c')
    \<and> (\<forall>d \<in> set (((g_part g)(c := L)) c'). ldesc_at (g_own g) d \<and> d \<notin> set (g_avail g) \<and> ds_heap (ds d) = Some c'
        \<and> an_state (ds_anchor (ds d)) = (if owns (g_own g) d then LR_SB_PARTIAL else LR_SB_EMPTY))"
  proof (cases "c' = c")
    case True
    then show ?thesis using assms(3,4) L by simp
  next
    case False
    have "dlist (\<lambda>d. ds_nextPartial (ds d)) (ph_partialList (Heaps s c')) (g_part g c')
        = dlist (\<lambda>d. ds_nextPartial (lr_descs s d)) (ph_partialList (Heaps s c')) (g_part g c')"
      using same [OF c' False] by (intro dlist_cong) simp
    then show ?thesis using lr_inv_part [OF assms(1) c'] same [OF c' False] False by simp
  qed
qed

lemma part_class_unique:
  assumes "lr_inv g s" and "c < 40" and "c' < 40" and "d \<in> set (g_part g c)" and "d \<in> set (g_part g c')"
  shows "c' = c"
  using lr_inv_part(3) [OF assms(1,2,4)] lr_inv_part(3) [OF assms(1,3,5)] by simp

lemma inv_init_heap [simp]:
  "inv_init own (set_heap c w s) = inv_init own s"
  by (auto simp: inv_init_def set_heap_def)

lemma ListPopPartial_nil:
  assumes "lr_inv g s" and "c < 40" and "g_part g c = []"
  shows "HeapPopPartial c s = Inr (0, s)"
  using lr_inv_part(1) [OF assms(1,2)] assms(3)
  by (simp add: HeapPopPartial_def ListPopPartial_def CAS_FUEL_def numeral_2_eq_2)

definition pop_word :: "nat \<Rightarrow> lr_state \<Rightarrow> DescriptorNode" where
  "pop_word c s = GetDesc (ds_nextPartial (lr_descs s (GetDesc (ph_partialList (Heaps s c)))))
     OR (GetCounter (ph_partialList (Heaps s c)) AND 63)"

lemma ListPopPartial_cons:
  assumes "lr_inv g s" and "c < 40" and "g_part g c = d # ds"
  shows "HeapPopPartial c s = Inr (d, set_heap c (pop_word c s) s)"
    and "dlist (\<lambda>d. ds_nextPartial (lr_descs s d)) (pop_word c s) ds"
proof -
  note dl = lr_inv_part(1) [OF assms(1,2), unfolded assms(3)]
  have d: "GetDesc (ph_partialList (Heaps s c)) = d" "d \<noteq> 0" using dl by auto
  have da: "ldesc_at (g_own g) d" using lr_inv_part(3) [OF assms(1,2), of d] assms(3) by simp
  show "HeapPopPartial c s = Inr (d, set_heap c (pop_word c s) s)"
    using d desc_access(1) [OF lr_invD(1) [OF assms(1)] da]
    by (simp add: HeapPopPartial_def ListPopPartial_def CAS_FUEL_def numeral_2_eq_2 partialList_cas_def
        pop_word_def Let_def)
  show "dlist (\<lambda>d. ds_nextPartial (lr_descs s d)) (pop_word c s) ds"
    using dl d by (simp add: pop_word_def dlist_head [of "GetDesc (ds_nextPartial (lr_descs s d)) OR (GetCounter (ph_partialList (Heaps s c)) AND 63)"
        "ds_nextPartial (lr_descs s d)"])
qed

text \<open>A descriptor of an emptied superblock that is taken off its list is in no list.\<close>

lemma pop_emptied:
  assumes "lr_inv g s" and "c < 40" and "g_part g c = d # ds" and "\<not> owns (g_own g) d"
  defines "g' \<equiv> g\<lparr>g_part := (g_part g)(c := ds)\<rparr>"
  shows "lr_inv g' (set_heap c (pop_word c s) s)" and "loose g' d"
    and "an_state (ds_anchor (lr_descs s d)) = LR_SB_EMPTY"
proof -
  note d = lr_inv_part(3) [OF assms(1,2), of d, unfolded assms(3), simplified]
  show "an_state (ds_anchor (lr_descs s d)) = LR_SB_EMPTY" using d assms(4) by simp
  have dist: "d \<notin> set ds" "distinct ds" using lr_inv_part(2) [OF assms(1,2)] assms(3) by auto
  have "inv_part (g_own g) (g_avail g) ((g_part g)(c := ds))
      ((Heaps s)(c := (Heaps s c)\<lparr>ph_partialList := pop_word c s\<rparr>)) (lr_descs s)"
    using lr_inv_part(3) [OF assms(1,2)] assms(3) dist
    by (intro inv_part_set [OF assms(1,2) ListPopPartial_cons(2) [OF assms(1-3)]]) auto
  moreover have "inv_small (g_own g) (g_place g) (g_free g) ((g_part g)(c := ds)) (lr_descs s) (lr_bytes s) (pm_entry s)"
    unfolding inv_small_def
  proof (intro allI impI)
    fix b d' c'
    assume b: "g_own g b = Some (OSmall d' c')"
    have "d' \<noteq> d" using owns_small [where own = "g_own g", OF b] assms(4) by blast
    then show "small_ok (g_own g) (g_place g) (g_free g d') ((g_part g)(c := ds)) (lr_descs s d') (lr_bytes s) (pm_entry s) b d' c'"
      using assms(3) by (intro small_ok_place [OF lr_inv_small(1) [OF assms(1) b]]) (auto split: if_splits)
  qed
  ultimately show "lr_inv g' (set_heap c (pop_word c s) s)"
    using assms(1) unfolding lr_inv_def g'_def by (simp add: set_heap_def inv_init_def)
  have "d \<notin> set (g_part g c')" if "c' < 40" "c' \<noteq> c" for c'
    using part_class_unique [OF assms(1,2) that(1), of d] assms(3) that(2) by auto
  then show "loose g' d" using d assms(4) dist by (auto simp: loose_def g'_def)
qed

subsection \<open>A partial superblock\<close>

lemma blk_word:
  assumes "sb_place c b" and "unat (k :: u32) < lnum c"
  shows "b + ucast (k * of_nat (lbs c)) = blk c b (unat k)"
proof -
  have c: "1 \<le> c" "c < 40" using sb_place_class [OF assms(1)] by auto
  have le: "unat k * lbs c \<le> 86016"
    using block_end [OF assms] lr_class_facts(5) [OF c] by linarith
  moreover have "unat (of_nat (lbs c) :: u32) = lbs c"
    using lr_class_facts(2) [OF c] by (intro unat_of_nat32) simp
  ultimately have "unat (k * of_nat (lbs c)) = unat k * lbs c" by (simp add: unat_word_ariths)
  moreover have "take_bit 64 (unat k * lbs c) = unat k * lbs c"
    using le by (intro take_bit_nat_eq_self) simp
  ultimately have "unat (ucast (k * of_nat (lbs c)) :: u64) = unat k * lbs c"
    by (simp add: unsigned_ucast_eq)
  then have "(ucast (k * of_nat (lbs c)) :: u64) = of_nat (unat k * lbs c)" by (metis of_nat_unat ucast_id)
  then show ?thesis by (simp add: blk_def)
qed

text \<open>The ghost state after thread \<open>t\<close> has taken the free list of the superblock of \<open>d\<close>.\<close>

definition g_take :: "nat \<Rightarrow> nat \<Rightarrow> addr \<Rightarrow> addr list \<Rightarrow> lr_ghost \<Rightarrow> lr_ghost" where
  "g_take t c d ds g =
     g\<lparr>g_part := (g_part g)(c := ds), g_free := (g_free g)(d := []),
       g_place := (\<lambda>x. if x \<in> set (g_free g d) then InCache t else g_place g x),
       g_cache := (g_cache g)(t := (g_cache g t)(c := g_free g d))\<rparr>"

definition reserved :: "addr \<Rightarrow> lr_state \<Rightarrow> lr_Descriptor" where
  "reserved d s = (lr_descs s d)\<lparr>ds_anchor := (ds_anchor (lr_descs s d))\<lparr>an_count := 0,
     an_avail := ucast (ds_maxcount (lr_descs s d)), an_state := LR_SB_FULL\<rparr>\<rparr>"

definition s_take :: "nat \<Rightarrow> nat \<Rightarrow> addr \<Rightarrow> addr list \<Rightarrow> lr_state \<Rightarrow> lr_state" where
  "s_take t c d F s = set_bin t c \<lparr>tc_block = hd F, tc_blockNum = of_nat (length F)\<rparr>
     ((set_heap c (pop_word c s) s)\<lparr>lr_descs := (lr_descs s)(d := reserved d s)\<rparr>)"

lemma take_partial:
  assumes "lr_inv g s" and c: "1 \<le> c" "c < 40" and "g_part g c = d # ds"
    and b: "g_own g b = Some (OSmall d c)" and "g_cache g t c = []"
  defines "F \<equiv> g_free g d"
  shows "lr_inv (g_take t c d ds g) (s_take t c d F s)" and "lr_held (g_take t c d ds g) = lr_held g"
    and "F \<noteq> []"
proof -
  note sm = lr_inv_small(1) [OF assms(1) b, unfolded small_ok_def]
  note pt = lr_inv_part(3) [OF assms(1) c(2), of d, unfolded assms(4), simplified]
  have own: "owns (g_own g) d" using owns_small [where own = "g_own g", OF b] .
  show ne: "F \<noteq> []" using sm pt own by (auto simp: anchor_ok_def F_def)
  have dist: "d \<notin> set ds" "distinct ds" using lr_inv_part(2) [OF assms(1) c(2)] assms(4) by auto
  have F: "x \<in> blocks c b" "g_place g x = InFree" "in_small (g_own g) c x" if "x \<in> set F" for x
    using free_tracked(2,3) [OF assms(1) b] b that by (auto simp: F_def in_small_def)
  let ?pl = "\<lambda>x. if x \<in> set F then InCache t else g_place g x"
  let ?ds = "(lr_descs s)(d := reserved d s)"
  have noC: "g_place g x \<noteq> InCache t" if "in_small (g_own g) c x" for x
    using lr_inv_bin [OF assms(1) c, of t] assms(6) that by (auto simp: bin_ok_def)
  have "inv_avail (g_own g) (g_avail g) (AvailDesc s) ?ds"
  proof -
    have "dlist (\<lambda>x. ds_nextFree (?ds x)) (AvailDesc s) (g_avail g)
        = dlist (\<lambda>x. ds_nextFree (lr_descs s x)) (AvailDesc s) (g_avail g)"
      by (intro dlist_cong) (simp add: reserved_def)
    then show ?thesis using lr_invD(3) [OF assms(1)] by (simp add: inv_avail_def)
  qed
  moreover have "inv_part (g_own g) (g_avail g) ((g_part g)(c := ds))
      ((Heaps s)(c := (Heaps s c)\<lparr>ph_partialList := pop_word c s\<rparr>)) ?ds"
  proof (rule inv_part_set [OF assms(1) c(2)])
    have "dlist (\<lambda>x. ds_nextPartial (?ds x)) (pop_word c s) ds = dlist (\<lambda>x. ds_nextPartial (lr_descs s x)) (pop_word c s) ds"
      by (intro dlist_cong) (simp add: reserved_def)
    then show "dlist (\<lambda>x. ds_nextPartial (?ds x)) (pop_word c s) ds"
      using ListPopPartial_cons(2) [OF assms(1) c(2) assms(4)] by simp
    show "ldesc_at (g_own g) e \<and> e \<notin> set (g_avail g) \<and> ds_heap (?ds e) = Some c
        \<and> an_state (ds_anchor (?ds e)) = (if owns (g_own g) e then LR_SB_PARTIAL else LR_SB_EMPTY)"
      if "e \<in> set ds" for e
      using lr_inv_part(3) [OF assms(1) c(2), of e] assms(4) that dist by auto
    show "?ds e = lr_descs s e" if "c' < 40" "c' \<noteq> c" "e \<in> set (g_part g c')" for e c'
      using part_class_unique [OF assms(1) c(2) that(1), of d] assms(4) that by auto
  qed (rule dist)
  moreover have "inv_small (g_own g) ?pl ((g_free g)(d := [])) ((g_part g)(c := ds)) ?ds (lr_bytes s) (pm_entry s)"
    unfolding inv_small_def
  proof (intro allI impI)
    fix b' d' c'
    assume b': "g_own g b' = Some (OSmall d' c')"
    show "small_ok (g_own g) ?pl (((g_free g)(d := [])) d') ((g_part g)(c := ds)) (?ds d') (lr_bytes s) (pm_entry s) b' d' c'"
    proof (cases "d' = d")
      case True
      then have "b' = b" "c' = c" using small_desc_unique [OF assms(1) b, of b' c'] b' by auto
      moreover have "{x \<in> blocks c b. ?pl x = InFree} = {}"
        using sm by (auto simp: F_def split: if_splits)
      ultimately show ?thesis
        using sm True lr_class_facts(8) [OF c] by (auto simp: small_ok_def anchor_ok_def reserved_def)
    next
      case False
      have "x \<notin> set F" if "x \<in> blocks c' b'" for x
        using F(1) block_owner_unique [OF assms(1) b _ b' that] False by blast
      then show ?thesis
        using False assms(4)
        by (simp, intro small_ok_place [OF lr_inv_small(1) [OF assms(1) b']]) (auto split: if_splits)
    qed
  qed
  moreover have "inv_large (g_own g) ?ds (pm_entry s)"
    unfolding inv_large_def
  proof (intro allI impI)
    fix b' d' n u
    assume b': "g_own g b' = Some (OLarge d' n u)"
    then have "d' \<noteq> d" using small_large_desc [OF assms(1) b] by blast
    then show "large_ok (g_own g) (?ds d') (pm_entry s) b' d' n u" using lr_inv_large [OF assms(1) b'] by simp
  qed
  moreover have "inv_cache (g_own g) ?pl ((g_cache g)(t := (g_cache g t)(c := F)))
      ((lr_TCache s)(t := (lr_TCache s t)(c := \<lparr>tc_block = hd F, tc_blockNum = of_nat (length F)\<rparr>))) (lr_bytes s)"
    unfolding inv_cache_def
  proof (intro allI impI)
    fix t' c' :: nat
    assume c': "1 \<le> c' \<and> c' < 40"
    show "bin_ok (g_own g) ?pl (((g_cache g)(t := (g_cache g t)(c := F))) t' c')
        (((lr_TCache s)(t := (lr_TCache s t)(c := \<lparr>tc_block = hd F, tc_blockNum = of_nat (length F)\<rparr>))) t' c') (lr_bytes s) t' c'"
    proof (cases "t' = t \<and> c' = c")
      case True
      have "set F = {x. in_small (g_own g) c x \<and> ?pl x = InCache t}" using F(3) noC by auto
      moreover have "length F \<le> lnum c" "distinct F" "blist (lr_bytes s) F" using sm by (simp_all add: F_def)
      ultimately have "bin_ok (g_own g) ?pl F \<lparr>tc_block = hd F, tc_blockNum = of_nat (length F)\<rparr> (lr_bytes s) t c"
        unfolding bin_ok_def by (intro conjI) simp_all
      then show ?thesis using True by simp
    next
      case False
      have "?pl x = InCache t' \<longleftrightarrow> g_place g x = InCache t'" if "in_small (g_own g) c' x" for x
        using F(2,3) in_small_unique [OF assms(1) that, of c] False by auto
      then show ?thesis
        using False bin_ok_place [OF lr_inv_bin [OF assms(1), of c' t'], of ?pl] c' by auto
    qed
  qed
  ultimately show "lr_inv (g_take t c d ds g) (s_take t c d F s)"
    using assms(1) unfolding lr_inv_def g_take_def s_take_def F_def
    by (simp add: set_bin_def set_heap_def inv_init_def)
  have "(?pl x = InUse) = (g_place g x = InUse)" for x using F(2) by auto
  then show "lr_held (g_take t c d ds g) = lr_held g"
    unfolding lr_held_def g_take_def by (simp add: F_def fun_eq_iff)
qed

lemma lr_heaps_desc_simps [simp]:
  "lr_descs (set_heap c w s) = lr_descs s" "lr_TCache (set_heap c w s) = lr_TCache s"
  "lr_maps (set_heap c w s) = lr_maps s" "lr_bytes (set_heap c w s) = lr_bytes s"
  "lr_maps (s_take t c d F s) = lr_maps s" "lr_bytes (s_take t c d F s) = lr_bytes s"
  by (simp_all add: set_heap_def s_take_def set_bin_def)

lemma ucast64_of_nat:
  assumes "n < 4294967296"
  shows "(ucast (of_nat n :: u32) :: u64) = of_nat n"
proof -
  have "unat (ucast (of_nat n :: u32) :: u64) = take_bit 64 n"
    using assms by (simp add: unsigned_ucast_eq unat_of_nat32)
  also have "\<dots> = n" using assms by (intro take_bit_nat_eq_self) simp
  finally show ?thesis using assms by (simp add: word_unat_eq_iff unat_of_nat64)
qed

lemma partial_step:
  assumes "lr_inv g s" and c: "1 \<le> c" "c < 40" and "g_part g c = d # ds"
    and b: "g_own g b = Some (OSmall d c)" and "g_cache g t c = []"
  shows "MallocFromPartial (Suc n) t c 0 s = Inr (of_nat (length (g_free g d)), s_take t c d (g_free g d) s)"
proof -
  let ?F = "g_free g d" and ?v = "lr_descs s d"
  let ?a = "ds_anchor ?v"
  note sm = lr_inv_small(1,2) [OF assms(1) b, unfolded small_ok_def]
  have ne: "?F \<noteq> []" by (rule take_partial(3) [OF assms])
  have a: "an_state ?a = LR_SB_PARTIAL" "unat (an_count ?a) = length ?F" "unat (an_avail ?a) < lnum c"
    "hd ?F = blk c b (unat (an_avail ?a))" using sm ne by (simp_all add: anchor_ok_def)
  have d: "d \<noteq> 0" "ldesc_at (g_own g) d" using lr_inv_part(1) [OF assms(1) c(2)] assms(4) sm by auto
  have get: "get_desc d (set_heap c (pop_word c s) s) = Inr ?v"
    using desc_access(1) [OF _ d(2), of "set_heap c (pop_word c s) s"] lr_invD(1) [OF assms(1)] by simp
  have res: "reserve_blocks CAS_FUEL d (ds_maxcount ?v) ?a (set_heap c (pop_word c s) s)
      = Inr (Some ?a, (set_heap c (pop_word c s) s)\<lparr>lr_descs := (lr_descs s)(d := reserved d s)\<rparr>)"
    using a(1) by (simp add: CAS_FUEL_def numeral_2_eq_2 lr_anchor_cas_def Let_def reserved_def)
  have blk: "ds_superblock ?v + ucast (ucast (an_avail ?a) * ds_blockSize ?v) = hd ?F"
    using blk_word [OF sm(2), of "ucast (an_avail ?a)"] sm(1) a(3,4) by simp
  have "length ?F < 4294967296" using sm(1) lr_class_facts(9) [OF c] by linarith
  then have cnt: "(ucast (an_count ?a) :: u32) = of_nat (length ?F)"
    using a(2) by (simp add: word_unat_eq_iff unat_of_nat32)
  have cnt64: "(ucast (ucast (an_count ?a) :: u32) :: u64) = of_nat (length ?F)"
    unfolding cnt by (rule ucast64_of_nat) fact
  show ?thesis
    using ListPopPartial_cons(1) [OF assms(1) c(2) assms(4)] d(1) get res blk cnt cnt64
    by (simp add: Let_def PushList_def s_take_def)
qed

lemma part_owner:
  assumes "lr_inv g s" and "c < 40" and "d \<in> set (g_part g c)" and "owns (g_own g) d"
  obtains b where "g_own g b = Some (OSmall d c)"
proof -
  have h: "ds_heap (lr_descs s d) = Some c" using lr_inv_part(3) [OF assms(1-3)] by simp
  from assms(4) consider b c' where "g_own g b = Some (OSmall d c')" | b n u where "g_own g b = Some (OLarge d n u)"
    unfolding owns_def by blast
  then show thesis
  proof cases
    case (1 b c')
    then have "c' = c" using lr_inv_small(1) [OF assms(1) 1] h by (simp add: small_ok_def)
    then show ?thesis using 1 that by blast
  next
    case 2
    then show ?thesis using lr_inv_large [OF assms(1) 2] h by (simp add: large_ok_def)
  qed
qed

lemma emptied_step:
  assumes "lr_inv g s" and "c < 40" and "g_part g c = d # ds" and "\<not> owns (g_own g) d"
  shows "\<exists>s'. MallocFromPartial (Suc n) t c 0 s = MallocFromPartial n t c 0 s'
    \<and> lr_inv (g\<lparr>g_part := (g_part g)(c := ds), g_avail := d # g_avail g\<rparr>) s'
    \<and> lr_bytes s' = lr_bytes s \<and> lr_maps s' = lr_maps s"
proof -
  let ?g = "g\<lparr>g_part := (g_part g)(c := ds)\<rparr>" and ?s = "set_heap c (pop_word c s) s"
  note pe = pop_emptied [OF assms]
  obtain s' where s': "DescRetire d ?s = Inr s'" "lr_inv (?g\<lparr>g_avail := d # g_avail g\<rparr>) s'"
    "lr_maps s' = lr_maps s" "lr_bytes s' = lr_bytes s"
    using DescRetire_ok [OF pe(1,2)] by (auto simp: lr_ext_def)
  have da: "ldesc_at (g_own g) d" "d \<noteq> 0" using pe(2) desc_at_al64 [OF lr_invD(1) [OF assms(1)]] by (auto simp: loose_def)
  have get: "get_desc d ?s = Inr (lr_descs s d)"
    using desc_access(1) [OF _ da(1), of ?s] lr_invD(1) [OF assms(1)] by simp
  have "MallocFromPartial (Suc n) t c 0 s = MallocFromPartial n t c 0 s'"
    using ListPopPartial_cons(1) [OF assms(1-3)] da(2) get pe(3) s'(1)
    by (simp add: Let_def CAS_FUEL_def numeral_2_eq_2)
  then show ?thesis using s' by (intro exI [of _ s']) simp
qed

lemma MallocFromPartial_ok:
  assumes "lr_inv g s" and c: "1 \<le> c" "c < 40" and "g_cache g t c = []" and "length (g_part g c) < n"
  shows "\<exists>g' s'. MallocFromPartial n t c 0 s = Inr (of_nat (length (g_cache g' t c)), s') \<and> lr_inv g' s'
    \<and> lr_held g' = lr_held g \<and> lr_bytes s' = lr_bytes s \<and> lr_maps s' = lr_maps s
    \<and> (g_avail g' = [] \<longrightarrow> g_avail g = [])"
  using assms
proof (induction "g_part g c" arbitrary: g s n)
  case Nil
  then obtain m where "n = Suc m" by (cases n) auto
  then have "MallocFromPartial n t c 0 s = Inr (0, s)"
    using ListPopPartial_nil [OF Nil(2) c(2)] Nil(1) by simp
  then show ?case using Nil by (intro exI [of _ g] exI [of _ s]) simp
next
  case (Cons d ds)
  obtain m where n: "n = Suc m" using Cons(7) by (cases n) auto
  note inv = Cons(3) and part = Cons(2) [symmetric]
  show ?case
  proof (cases "owns (g_own g) d")
    case True
    then obtain b where b: "g_own g b = Some (OSmall d c)"
      using part_owner [OF inv c(2), of d] part by auto
    show ?thesis
      using partial_step [OF inv c part b Cons(6)] take_partial [OF inv c part b Cons(6)] n
      by (intro exI [of _ "g_take t c d ds g"] exI [of _ "s_take t c d (g_free g d) s"]) (simp add: g_take_def)
  next
    case False
    let ?g = "g\<lparr>g_part := (g_part g)(c := ds), g_avail := d # g_avail g\<rparr>"
    obtain s1 where s1: "MallocFromPartial (Suc m) t c 0 s = MallocFromPartial m t c 0 s1" "lr_inv ?g s1"
      "lr_bytes s1 = lr_bytes s" "lr_maps s1 = lr_maps s"
      using emptied_step [OF inv c(2) part False] by metis
    have h: "lr_held ?g = lr_held g" by (simp add: lr_held_def fun_eq_iff)
    have "ds = g_part ?g c" "g_cache ?g t c = []" "length (g_part ?g c) < m"
      using Cons(6,7) part n by simp_all
    then obtain g' s' where "MallocFromPartial m t c 0 s1 = Inr (of_nat (length (g_cache g' t c)), s')"
      "lr_inv g' s'" "lr_held g' = lr_held ?g" "lr_bytes s' = lr_bytes s1" "lr_maps s' = lr_maps s1"
      "g_avail g' = [] \<longrightarrow> g_avail ?g = []"
      using Cons(1) [of ?g s1 m] s1(2) c by blast
    then show ?thesis using s1 h n by (intro exI [of _ g'] exI [of _ s']) simp
  qed
qed

lemma part_bound:
  assumes "lr_inv g s" and "c < 40"
  shows "length (g_part g c) < LR_PARTIAL_FUEL"
proof -
  let ?f = "\<lambda>d :: addr. unat d div 64"
  have al: "al64 d" if "d \<in> set (g_part g c)" for d
    using dlist_al64 [OF lr_inv_part(1) [OF assms] that] by simp
  have "inj_on ?f (set (g_part g c))"
  proof (rule inj_onI)
    fix x y
    assume *: "x \<in> set (g_part g c)" "y \<in> set (g_part g c)" "?f x = ?f y"
    have "unat x = 64 * ?f x" "unat y = 64 * ?f y" using al [OF *(1)] al [OF *(2)] by (auto simp: al64_def)
    then show "x = y" using *(3) by (metis word_unat_eq_iff)
  qed
  moreover have "?f ` set (g_part g c) \<subseteq> {..<2 ^ 58}"
  proof
    fix q
    assume "q \<in> ?f ` set (g_part g c)"
    then obtain d :: addr where d: "q = unat d div 64" by blast
    have "unat d < 18446744073709551616" by simp
    then have "unat d div 64 < 288230376151711744" by (simp add: less_mult_imp_div_less)
    then show "q \<in> {..<2 ^ 58}" using d by simp
  qed
  ultimately have "card (set (g_part g c)) \<le> 2 ^ 58"
    using card_inj_on_le [of ?f "set (g_part g c)" "{..<2 ^ 58}"] by simp
  then show ?thesis
    using distinct_card [OF lr_inv_part(2) [OF assms]] by (simp add: LR_PARTIAL_FUEL_def)
qed

end
