(* ===== verification/LrNewSB.thy ===== *)
theory LrNewSB
  imports LrFill
begin

text \<open>
  A new superblock: its blocks are linked into a list, its pages are registered in the page map, and
  the pages become a superblock of the ghost state.
\<close>

subsection \<open>Linking the blocks\<close>

lemma store_in_owner:
  assumes "inv_maps own (lr_maps s)" and "own b = Some w" and "unat b \<le> unat a" and "unat a + 8 \<le> unat b + osize w"
  shows "store_word a v s = Inr (s\<lparr>lr_bytes := store64 (lr_bytes s) a v\<rparr>)"
    and "load_word a s = Inr (load64 (lr_bytes s) a)"
  using mapped_owner [OF assms] by (simp_all add: store_word_def load_word_def touch_def)

lemma blk_in_blocks: "k < lnum c \<Longrightarrow> blk c b k \<in> blocks c b"
  by (simp add: blocks_def)

lemma store64_outside:
  assumes "aligned8 a" and "unat b \<le> unat a" and "unat a + 8 \<le> unat b + n" and "\<not> within b n x"
  shows "store64 m a v x = m x"
proof (rule store64_other)
  fix i :: nat
  assume "i < 8"
  then have "unat (a + of_nat i) = unat a + i" by (rule aligned8_bytes [OF assms(1)])
  then show "x \<noteq> a + of_nat i" using assms(2-4) \<open>i < 8\<close> by (auto simp: within_def)
qed

lemma prepare_blocks_ok:
  assumes "inv_maps own (lr_maps s)" and "own b = Some w" and "osize w = lsb c" and "sb_place c b"
  shows "\<exists>m. prepare_blocks b (of_nat (lbs c)) (of_nat (lnum c)) s = Inr (s\<lparr>lr_bytes := m\<rparr>)
    \<and> (\<forall>j. Suc j < lnum c \<longrightarrow> load64 m (blk c b j) = blk c b (Suc j))
    \<and> (\<forall>a. \<not> within b (lsb c) a \<longrightarrow> m a = lr_bytes s a)"
proof -
  have c: "1 \<le> c" "c < 40" using sb_place_class [OF assms(4)] by auto
  note n = lr_class_facts(8,9) [OF c]
  define P where "P i s' \<longleftrightarrow> (\<exists>m. s' = s\<lparr>lr_bytes := m\<rparr>
      \<and> (\<forall>j < i. load64 m (blk c b j) = blk c b (Suc j))
      \<and> (\<forall>a. \<not> within b (lsb c) a \<longrightarrow> m a = lr_bytes s a))" for i s'
  let ?f = "\<lambda>idx. store_word (b + ucast (of_nat idx * (of_nat (lbs c) :: u32)))
      (b + ucast ((of_nat idx + 1) * (of_nat (lbs c) :: u32)))"
  have "\<exists>s'. rfold ?f [0..<lnum c - 1] s = Inr s' \<and> P (lnum c - 1) s'"
  proof (rule rfold_upt)
    show "P 0 s" unfolding P_def by (intro exI [of _ "lr_bytes s"]) simp
    fix i s'
    assume i: "i < lnum c - 1" and "P i s'"
    then obtain m where s': "s' = s\<lparr>lr_bytes := m\<rparr>"
      and ld: "\<forall>j < i. load64 m (blk c b j) = blk c b (Suc j)"
      and out: "\<forall>a. \<not> within b (lsb c) a \<longrightarrow> m a = lr_bytes s a" unfolding P_def by blast
    have i1: "unat (of_nat i :: u32) = i" "unat (of_nat i + 1 :: u32) = Suc i"
      using i n unat_of_nat32 [of i] unat_of_nat32 [of "Suc i"] by (simp_all add: add.commute)
    have a: "b + ucast (of_nat i * (of_nat (lbs c) :: u32)) = blk c b i"
      "b + ucast ((of_nat i + 1) * (of_nat (lbs c) :: u32)) = blk c b (Suc i)"
      using blk_word [OF assms(4), of "of_nat i"] blk_word [OF assms(4), of "of_nat i + 1"] i1 i by simp_all
    have ib: "blk c b i \<in> blocks c b" using i by (intro blk_in_blocks) simp
    note bf = block_facts [OF ib assms(4)] and l8 = lbs_pos [OF assms(4)]
    let ?m = "store64 m (blk c b i) (blk c b (Suc i))"
    have "?f i s' = Inr (s\<lparr>lr_bytes := ?m\<rparr>)"
      using store_in_owner(1) [where own = own and s = s' and a = "blk c b i", OF _ assms(2)] assms(1,3) bf l8 s' a by simp
    moreover have "load64 ?m (blk c b j) = blk c b (Suc j)" if "j < Suc i" for j
    proof (cases "j = i")
      case False
      have jb: "blk c b j \<in> blocks c b" using i that by (intro blk_in_blocks) simp
      have "blk c b i \<noteq> blk c b j" using blk_inject [OF assms(4), of i j] i that False by simp
      then have "load64 ?m (blk c b j) = load64 m (blk c b j)"
        using block_facts(1) [OF jb assms(4)] bf(1) by (intro load64_store64_other)
      then show ?thesis using ld that False by simp
    qed simp
    moreover have "?m x = lr_bytes s x" if "\<not> within b (lsb c) x" for x
      using store64_outside [OF bf(1,2), of "lsb c" x] bf(3) l8 out that by simp
    ultimately show "\<exists>s''. ?f i s' = Inr s'' \<and> P (Suc i) s''"
      unfolding P_def by (intro exI [of _ "s\<lparr>lr_bytes := ?m\<rparr>"] conjI exI [of _ ?m]) auto
  qed simp
  moreover have "unat (of_nat (lnum c) - 1 :: u32) = lnum c - 1"
    using n unat_of_nat32 [of "lnum c"] by (subst unat_sub) (simp_all add: word_le_nat_alt)
  ultimately show ?thesis unfolding prepare_blocks_def P_def by auto
qed

subsection \<open>Registering pages\<close>

lemma page_key:
  assumes "unat b mod 4096 = 0" and "unat b + n \<le> 281474976710656" and "i * 4096 < n"
    and "unat b + i * 4096 \<le> unat x" and "unat x < unat b + Suc i * 4096"
  shows "AddrToKey x = AddrToKey (b + of_nat (i * 4096))"
proof -
  have u: "unat (b + of_nat (i * 4096)) = unat b + i * 4096"
    using assms(2,3) by (intro unat_offset) simp
  obtain q where q: "unat b = 4096 * q" using assms(1) by (metis mod_0_imp_dvd dvdE)
  have "unat x div 4096 = q + i" using assms(4,5) q by (intro div_nat_eqI) simp_all
  moreover have "unat (b + of_nat (i * 4096)) div 4096 = q + i" unfolding u q by simp
  moreover have "q + i < 2 ^ 38" using q assms(2,3) by simp
  ultimately show ?thesis by (simp add: AddrToKey_mod)
qed

lemma UpdatePageMap_small:
  assumes "inv_maps own (lr_maps s)" and "own (pm_base s) = Some OPageMap" and "sb_place c b"
    and "SizeClasses s = SizeClasses_ready" and "ph_scIdx (Heaps s c) = c"
  shows "\<exists>pm. UpdatePageMap (Some c) b d k s = Inr (s\<lparr>pm_entry := pm\<rparr>)
    \<and> (\<forall>x. within b (lsb c) x \<longrightarrow> pm (AddrToKey x) = d OR of_nat k)
    \<and> (\<forall>key. pm key \<noteq> pm_entry s key \<longrightarrow> (\<exists>y. within b (lsb c) y \<and> key = AddrToKey y))"
proof -
  have c: "1 \<le> c" "c < 40" using sb_place_class [OF assms(3)] by auto
  note pl = assms(3) [unfolded sb_place_def]
  obtain n where n: "lsb c = n * 4096" using lr_class_facts(6) [OF c] by (metis mod_0_imp_dvd dvdE mult.commute)
  let ?i = "d OR of_nat k"
  define P where "P i s' \<longleftrightarrow> (\<exists>pm. s' = s\<lparr>pm_entry := pm\<rparr>
      \<and> (\<forall>x. within b (i * 4096) x \<longrightarrow> pm (AddrToKey x) = ?i)
      \<and> (\<forall>key. pm key \<noteq> pm_entry s key \<longrightarrow> (\<exists>y. within b (lsb c) y \<and> key = AddrToKey y)))" for i s'
  let ?f = "\<lambda>i. SetPageInfo (b + of_nat (i * 4096)) ?i"
  have "\<exists>s'. rfold ?f [0..<n] s = Inr s' \<and> P n s'"
  proof (rule rfold_upt)
    show "P 0 s" unfolding P_def by (intro exI [of _ "pm_entry s"]) (auto simp: within_def)
    fix i s'
    assume i: "i < n" and "P i s'"
    then obtain pm where s': "s' = s\<lparr>pm_entry := pm\<rparr>"
      and ld: "\<forall>x. within b (i * 4096) x \<longrightarrow> pm (AddrToKey x) = ?i"
      and ch: "\<forall>key. pm key \<noteq> pm_entry s key \<longrightarrow> (\<exists>y. within b (lsb c) y \<and> key = AddrToKey y)"
      unfolding P_def by blast
    let ?a = "b + of_nat (i * 4096)"
    let ?pm = "pm(AddrToKey ?a := ?i)"
    have "?f i s' = Inr (s\<lparr>pm_entry := ?pm\<rparr>)"
      using page_access(2) [where own = own and s = s'] assms(1,2) s' by simp
    moreover have "?pm (AddrToKey x) = ?i" if x: "within b (Suc i * 4096) x" for x
    proof (cases "within b (i * 4096) x")
      case False
      then have "AddrToKey x = AddrToKey ?a"
        using x pl n i by (intro page_key [of b "lsb c"]) (auto simp: within_def)
      then show ?thesis by simp
    qed (use ld in simp)
    moreover have "within b (lsb c) ?a"
    proof -
      have "unat ?a = unat b + i * 4096" using pl i n by (intro unat_offset) simp
      then show ?thesis using i n by (simp add: within_def)
    qed
    then have "\<forall>key. ?pm key \<noteq> pm_entry s key \<longrightarrow> (\<exists>y. within b (lsb c) y \<and> key = AddrToKey y)"
      using ch by auto
    ultimately show "\<exists>s''. ?f i s' = Inr s'' \<and> P (Suc i) s''"
      unfolding P_def by (intro exI [of _ "s\<lparr>pm_entry := ?pm\<rparr>"] conjI exI [of _ ?pm]) auto
  qed simp
  moreover have "unat (ucast (sbSize (SizeClasses_ready ! c)) :: u64) = lsb c"
  proof -
    have "take_bit 64 (lsb c) = lsb c" using lr_class_facts(5) [OF c] by (intro take_bit_nat_eq_self) simp
    then show ?thesis by (simp add: unsigned_ucast_eq unat_class(2) [OF c])
  qed
  moreover have "(lsb c + 4095) div 4096 = n" unfolding n by simp
  ultimately show ?thesis
    using assms(4,5) n unfolding UpdatePageMap_def P_def GetSizeClass_heap_def by (auto simp: Let_def)
qed

subsection \<open>Pages become a superblock\<close>

definition sb_list :: "nat \<Rightarrow> addr \<Rightarrow> addr list" where
  "sb_list c b = map (blk c b) [0..<lnum c]"

lemma set_sb_list [simp]: "set (sb_list c b) = blocks c b" "length (sb_list c b) = lnum c"
  by (simp_all add: sb_list_def blocks_def atLeast0LessThan)

lemma blist_map_upt:
  assumes "\<And>j. j + 1 < n \<Longrightarrow> load64 m (f j) = f (j + 1)"
  shows "blist m (map f [k..<n])"
proof (induction "n - k" arbitrary: k)
  case (Suc i)
  then have "k < n" by simp
  then have u: "[k..<n] = k # [Suc k..<n]" by (rule upt_conv_Cons)
  have "blist m (map f [Suc k..<n])" by (rule Suc.hyps(1)) (use Suc.hyps(2) in simp)
  moreover have "map f [Suc k..<n] = [] \<or> load64 m (f k) = hd (map f [Suc k..<n])"
    using assms [of k] by (cases "Suc k < n") (simp_all add: hd_map)
  ultimately show ?case unfolding u by (simp add: blist_Cons)
qed simp

lemma lr_held_cong:
  assumes "\<And>c x. in_small (g_own g') c x \<and> g_place g' x = InUse \<longleftrightarrow> in_small (g_own g) c x \<and> g_place g x = InUse"
    and "\<And>b d m x. g_own g' b = Some (OLarge d m x) \<longleftrightarrow> g_own g b = Some (OLarge d m x)"
  shows "lr_held g' = lr_held g"
  unfolding lr_held_def conj_assoc [symmetric] assms ..

definition g_small :: "nat \<Rightarrow> nat \<Rightarrow> addr \<Rightarrow> addr \<Rightarrow> lr_ghost \<Rightarrow> lr_ghost" where
  "g_small t c b d g =
     g\<lparr>g_own := (g_own g)(b \<mapsto> OSmall d c), g_free := (g_free g)(d := []),
       g_place := (\<lambda>x. if x \<in> blocks c b then InCache t else g_place g x),
       g_cache := (g_cache g)(t := (g_cache g t)(c := sb_list c b))\<rparr>"

lemma loose_range_block:
  assumes "lr_inv g s" and "g_own g b = Some (OLoose (lsb c))" and "sb_place c b"
    and "x \<in> blocks c b"
  shows "\<not> in_small (g_own g) c' x"
proof
  assume "in_small (g_own g) c' x"
  then obtain b' d' where b': "g_own g b' = Some (OSmall d' c')" "x \<in> blocks c' b'" unfolding in_small_def by blast
  have "within b' (lsb c') x" by (rule block_facts(4) [OF b'(2) lr_inv_small(2) [OF assms(1) b'(1)]])
  moreover have "within b (lsb c) x" by (rule block_facts(4) [OF assms(4,3)])
  ultimately have "b' = b \<and> OSmall d' c' = OLoose (lsb c)"
    using owner_unique [OF lr_invD(1) [OF assms(1)] assms(2) b'(1), of "unat x"] by (simp add: within_def)
  then show False by simp
qed

lemma lr_inv_own_small:
  assumes "lr_inv g s" and "loose g d" and bw: "g_own g b = Some (OLoose (lsb c))" and pl: "sb_place c b"
    and v: "ds_superblock (lr_descs s d) = b" "ds_heap (lr_descs s d) = Some c"
      "ds_blockSize (lr_descs s d) = of_nat (lbs c)" "ds_maxcount (lr_descs s d) = of_nat (lnum c)"
      "an_state (ds_anchor (lr_descs s d)) = LR_SB_FULL" "an_count (ds_anchor (lr_descs s d)) = 0"
    and bl: "blist (lr_bytes s) (sb_list c b)"
    and pm: "\<And>x. within b (lsb c) x \<Longrightarrow> pm_entry s (AddrToKey x) = d OR of_nat c"
    and "g_cache g t c = []"
  shows "lr_inv (g_small t c b d g) (set_bin t c \<lparr>tc_block = b, tc_blockNum = of_nat (lnum c)\<rparr> s)"
    and "lr_held (g_small t c b d g) = lr_held g"
proof -
  have c: "1 \<le> c" "c < 40" using sb_place_class [OF pl] by auto
  let ?own = "(g_own g)(b \<mapsto> OSmall d c)"
  let ?pl = "\<lambda>x. if x \<in> blocks c b then InCache t else g_place g x"
  note l = assms(2) [unfolded loose_def]
  note notin = loose_range_block [OF assms(1) bw pl]
  have la: "?own b' = Some (OLarge d' n u) \<longleftrightarrow> g_own g b' = Some (OLarge d' n u)"
    and de: "?own b' = Some ODescs \<longleftrightarrow> g_own g b' = Some ODescs"
    and pg: "?own b' = Some OPageMap \<longleftrightarrow> g_own g b' = Some OPageMap" for b' d' n u
    using bw by auto
  have sm: "?own b' = Some (OSmall d' c') \<longleftrightarrow> g_own g b' = Some (OSmall d' c') \<or> b' = b \<and> d' = d \<and> c' = c" for b' d' c'
    using bw by auto
  have da: "ldesc_at ?own = ldesc_at (g_own g)" unfolding ldesc_at_def de by auto
  have ow: "owns ?own d' \<longleftrightarrow> owns (g_own g) d' \<or> d' = d" for d' unfolding owns_def sm la by auto
  have ins: "in_small ?own c' x \<longleftrightarrow> in_small (g_own g) c' x \<or> c' = c \<and> x \<in> blocks c b" for c' x
    unfolding in_small_def sm by auto
  have "inv_maps ?own (lr_maps s)"
    using inv_maps_convert [where own = "g_own g", OF bw _ lr_invD(1) [OF assms(1)], of "OSmall d c"] by simp
  moreover have "inv_init ?own s" using lr_invD(2) [OF assms(1)] pg by (simp add: inv_init_def)
  moreover have "inv_avail ?own (g_avail g) (AvailDesc s) (lr_descs s)"
    using lr_invD(3) [OF assms(1)] l by (auto simp: inv_avail_def ow da)
  moreover have "inv_part ?own (g_avail g) (g_part g) (Heaps s) (lr_descs s)"
    using lr_invD(4) [OF assms(1)] l unfolding inv_part_def ow da by auto
  moreover have "inv_small ?own ?pl ((g_free g)(d := [])) (g_part g) (lr_descs s) (lr_bytes s) (pm_entry s)"
    unfolding inv_small_def
  proof (intro allI impI)
    fix b' d' c'
    assume "?own b' = Some (OSmall d' c')"
    then consider "b' = b" "d' = d" "c' = c" | "g_own g b' = Some (OSmall d' c')" unfolding sm by blast
    then show "small_ok ?own ?pl (((g_free g)(d := [])) d') (g_part g) (lr_descs s d') (lr_bytes s) (pm_entry s) b' d' c'"
    proof cases
      case 1
      have "{x \<in> blocks c b. ?pl x = InFree} = {}" by auto
      then show ?thesis using 1 c v l pm lr_class_facts(8) [OF c] by (simp add: small_ok_def anchor_ok_def da)
    next
      case 2
      have "d' \<noteq> d" using owns_small [where own = "g_own g", OF 2] l by blast
      moreover have "x \<notin> blocks c b" if "x \<in> blocks c' b'" for x
        using notin [of x c'] 2 that unfolding in_small_def by blast
      ultimately show ?thesis
        using small_ok_place [OF lr_inv_small(1) [OF assms(1) 2], of ?pl "g_part g"] by (simp add: small_ok_def da)
    qed
  qed
  moreover have "inv_large ?own (lr_descs s) (pm_entry s)"
    using lr_invD(6) [OF assms(1)] unfolding inv_large_def large_ok_def la da .
  moreover have "inv_cache ?own ?pl ((g_cache g)(t := (g_cache g t)(c := sb_list c b)))
      ((lr_TCache s)(t := (lr_TCache s t)(c := \<lparr>tc_block = b, tc_blockNum = of_nat (lnum c)\<rparr>))) (lr_bytes s)"
    unfolding inv_cache_def
  proof (intro allI impI)
    fix t' c' :: nat
    assume c': "1 \<le> c' \<and> c' < 40"
    show "bin_ok ?own ?pl (((g_cache g)(t := (g_cache g t)(c := sb_list c b))) t' c')
        (((lr_TCache s)(t := (lr_TCache s t)(c := \<lparr>tc_block = b, tc_blockNum = of_nat (lnum c)\<rparr>))) t' c') (lr_bytes s) t' c'"
    proof (cases "t' = t \<and> c' = c")
      case True
      have no: "\<not> (in_small (g_own g) c x \<and> g_place g x = InCache t)" for x
        using lr_inv_bin [OF assms(1) c, of t] assms(13) by (auto simp: bin_ok_def)
      then have "set (sb_list c b) = {x. in_small ?own c x \<and> ?pl x = InCache t}" by (auto simp: ins)
      moreover have "distinct (sb_list c b)"
        using blk_inject [OF pl] by (auto simp: sb_list_def distinct_map inj_on_def)
      moreover have "hd (sb_list c b) = b"
        using lr_class_facts(8) [OF c] by (simp add: sb_list_def hd_map blk_def)
      ultimately have "bin_ok ?own ?pl (sb_list c b) \<lparr>tc_block = b, tc_blockNum = of_nat (lnum c)\<rparr> (lr_bytes s) t c"
        unfolding bin_ok_def using bl by (intro conjI) simp_all
      then show ?thesis using True by simp
    next
      case False
      have "{x. in_small ?own c' x \<and> ?pl x = InCache t'} = {x. in_small (g_own g) c' x \<and> g_place g x = InCache t'}"
        using notin False by (auto simp: ins split: if_splits)
      then show ?thesis
        using False lr_inv_bin [OF assms(1), of c' t'] c' by (auto simp: bin_ok_def)
    qed
  qed
  ultimately show "lr_inv (g_small t c b d g) (set_bin t c \<lparr>tc_block = b, tc_blockNum = of_nat (lnum c)\<rparr> s)"
    unfolding lr_inv_def g_small_def by (simp add: set_bin_def inv_init_def del: fun_upd_apply)
  have "in_small ?own c' x \<and> ?pl x = InUse \<longleftrightarrow> in_small (g_own g) c' x \<and> g_place g x = InUse" for c' x
    using notin by (auto simp: ins split: if_splits)
  then show "lr_held (g_small t c b d g) = lr_held g"
    using la by (intro lr_held_cong) (simp_all add: g_small_def del: fun_upd_apply)
qed

end
