(* ===== verification/LrCache.thy ===== *)
theory LrCache
  imports LrNewSB
begin

text \<open>
  \<^verbatim>\<open>MallocFromNewSB\<close>, and taking a block from the cache of a thread and putting one into it.
  \<open>room\<close> says that the kernel grants the mappings an operation asks for, one after the other.
\<close>

fun room :: "kernel \<Rightarrow> (nat \<times> nat) list \<Rightarrow> u64 list \<Rightarrow> bool" where
  "room os ms [] = True"
| "room os ms (n # ns) =
     (os ms n \<noteq> MAP_FAILED \<and> room os ((unat (os ms n), unat (os ms n) + unat n) # ms) ns)"

subsection \<open>Unused pages\<close>

lemma not_in_loose:
  assumes "lr_inv g s" and "g_own g p = Some (OLoose n)" and "g_own g b = Some w" and "\<not> neutral (Some w)"
    and "unat b \<le> unat x" and "unat x < unat b + osize w"
  shows "\<not> within p n x"
proof
  assume "within p n x"
  then have "b = p \<and> w = OLoose n"
    using owner_unique [OF lr_invD(1) [OF assms(1)] assms(2,3), of "unat x"] assms(5,6) by (simp add: within_def)
  then show False using assms(4) by simp
qed

lemma desc_not_loose:
  assumes "lr_inv g s" and "g_own g p = Some (OLoose n)" and "ldesc_at (g_own g) d"
  shows "\<not> within p n d"
proof -
  obtain b where "g_own g b = Some ODescs" "unat b \<le> unat d" "unat d + 64 \<le> unat b + 65536"
    using desc_atE [OF lr_invD(1) [OF assms(1)] assms(3)] by metis
  then show ?thesis by (intro not_in_loose [OF assms(1,2)]) auto
qed

lemma tracked_not_loose:
  assumes "lr_inv g s" and "g_own g p = Some (OLoose n)" and "tracked g x" and "i < 8"
  shows "\<not> within p n (x + of_nat i)"
proof -
  obtain b d c where b: "g_own g b = Some (OSmall d c)" "x \<in> blocks c b"
    using assms(3) unfolding tracked_def in_small_def by blast
  note pl = lr_inv_small(2) [OF assms(1) b(1)]
  have "unat (x + of_nat i) = unat x + i" by (rule aligned8_bytes [OF block_facts(1) [OF b(2) pl] assms(4)])
  then show ?thesis
    using block_facts(2,3) [OF b(2) pl] lbs_pos [OF pl] assms(4) by (intro not_in_loose [OF assms(1,2) b(1)]) simp_all
qed

lemma held_not_loose:
  assumes "lr_inv g s" and "g_own g p = Some (OLoose k)" and "lr_held g x n" and "i < n"
  shows "\<not> within p k (x + of_nat i)"
proof -
  obtain b w where b: "g_own g b = Some w" "unat b \<le> unat x" "unat x + n \<le> unat b + osize w"
      "(\<exists>d c. w = OSmall d c) \<or> (\<exists>d m. w = OLarge d m x)"
    using held_range [OF assms(1,3)] by blast
  then show ?thesis
    using held_byte [OF assms(1,3,4)] assms(4) by (intro not_in_loose [OF assms(1,2) b(1)]) auto
qed

text \<open>Writing into unused pages.\<close>

lemma lr_inv_loose_mem:
  assumes "lr_inv g s" and "g_own g p = Some (OLoose n)" and "\<And>a. \<not> within p n a \<Longrightarrow> m a = lr_bytes s a"
  shows "lr_inv g (s\<lparr>lr_bytes := m\<rparr>)" and "lr_keeps g (lr_bytes s) m"
proof -
  show "lr_inv g (s\<lparr>lr_bytes := m\<rparr>)"
    by (rule lr_inv_mem [OF assms(1)], rule load64_cong, rule assms(3), rule tracked_not_loose [OF assms(1,2)])
  show "lr_keeps g (lr_bytes s) m"
    unfolding lr_keeps_def using assms(3) held_not_loose [OF assms(1,2)] by blast
qed

lemma loose_neutral:
  assumes "neutral (g_own g b0)" and "neutral w"
  shows "loose (g\<lparr>g_own := (g_own g)(b0 := w)\<rparr>) d = loose g d"
  unfolding loose_def by (simp add: neutral_views [where own = "g_own g", OF assms] del: fun_upd_apply)

subsection \<open>A new superblock\<close>

lemma class_words:
  assumes "SizeClasses s = SizeClasses_ready" and c: "1 \<le> c" "c < 40"
  shows "blockSize (SizeClasses s ! c) = of_nat (lbs c)"
    and "(ucast (sbSize (SizeClasses s ! c)) :: u64) = of_nat (lsb c)"
    and "(ucast (GetBlockNum_sc (SizeClasses s ! c)) :: u32) = of_nat (lnum c)"
    and "unat (of_nat (lsb c) :: u64) = lsb c"
proof -
  note f = lr_class_facts(2,5,9) [OF c]
  show "blockSize (SizeClasses s ! c) = of_nat (lbs c)" using assms by (simp add: SizeClasses_ready_nth)
  show "(ucast (sbSize (SizeClasses s ! c)) :: u64) = of_nat (lsb c)"
    using assms f ucast64_of_nat [of "lsb c"] by (simp add: SizeClasses_ready_nth)
  have "(ucast (of_nat (lnum c) :: u64) :: u32) = of_nat (lnum c)"
    using f by (simp add: word_unat_eq_iff unat_of_nat32 unat_of_nat64 unsigned_ucast_eq take_bit_nat_eq_self)
  then show "(ucast (GetBlockNum_sc (SizeClasses s ! c)) :: u32) = of_nat (lnum c)"
    using assms f ucast64_of_nat [of "lnum c"] by (simp add: SizeClasses_ready_nth GetBlockNum_sc_def)
  show "unat (of_nat (lsb c) :: u64) = lsb c" using f by (simp add: unat_of_nat64)
qed

text \<open>What \<^verbatim>\<open>MallocFromNewSB\<close> does once it has a descriptor and the pages.\<close>

lemma RegisterDesc_small:
  assumes m: "inv_maps own (lr_maps s)" and i: "inv_init own s" and "ldesc_at own d" and "sb_place c b"
    and "ds_heap (lr_descs s d) = Some c" and "ds_superblock (lr_descs s d) = b"
  shows "\<exists>pm. RegisterDesc d s = Inr (s\<lparr>pm_entry := pm\<rparr>)
    \<and> (\<forall>x. within b (lsb c) x \<longrightarrow> pm (AddrToKey x) = d OR of_nat c)
    \<and> (\<forall>key. pm key \<noteq> pm_entry s key \<longrightarrow> (\<exists>y. within b (lsb c) y \<and> key = AddrToKey y))"
proof -
  have c: "c < 40" using sb_place_class [OF assms(4)] by simp
  have i': "own (pm_base s) = Some OPageMap" "SizeClasses s = SizeClasses_ready" "ph_scIdx (Heaps s c) = c"
    using i c by (simp_all add: inv_init_def)
  have "RegisterDesc d s = UpdatePageMap (Some c) b d c s"
    using desc_access(1) [OF m assms(3)] assms(5,6) i'(3) by (simp add: RegisterDesc_def Let_def)
  then show ?thesis using UpdatePageMap_small [OF m i'(1) assms(4) i'(2,3), of d c] by simp
qed

definition full_anchor :: "nat \<Rightarrow> lr_Anchor" where
  "full_anchor c = \<lparr>an_state = LR_SB_FULL, an_avail = ucast (of_nat (lnum c) :: u32), an_count = 0\<rparr>"

lemma new_sb_tail:
  assumes "lr_inv g s" and "loose g d" and bw: "g_own g b = Some (OLoose (lsb c))" and c: "1 \<le> c" "c < 40"
    and v: "ds_heap (lr_descs s d) = Some c" "ds_blockSize (lr_descs s d) = of_nat (lbs c)"
      "ds_maxcount (lr_descs s d) = of_nat (lnum c)"
    and "g_cache g t c = []"
  shows "\<exists>s'. rbind (upd_desc d (ds_superblock_update (\<lambda>_. b)) s) (\<lambda>s4.
      rbind (prepare_blocks b (of_nat (lbs c)) (of_nat (lnum c)) s4) (\<lambda>s5.
      rbind (PushList t c b (of_nat (lnum c)) s5) (\<lambda>s6.
      rbind (upd_desc d (ds_anchor_update (\<lambda>_. full_anchor c)) s6) (RegisterDesc d)))) = Inr s'
    \<and> lr_inv (g_small t c b d g) s' \<and> lr_held (g_small t c b d g) = lr_held g
    \<and> lr_keeps g (lr_bytes s) (lr_bytes s')"
proof -
  note m = lr_invD(1) [OF assms(1)]
  have pl: "sb_place c b" using inv_mapsD [OF m bw] c unfolding sb_place_def osize.simps by blast
  have da: "ldesc_at (g_own g) d" using assms(2) by (simp add: loose_def)
  have upd: "upd_desc d f s' = Inr (s'\<lparr>lr_descs := (lr_descs s')(d := f (lr_descs s' d))\<rparr>)"
    if "lr_maps s' = lr_maps s" for f s'
    by (rule desc_access(2) [where own = "g_own g", OF _ da]) (simp only: that m)
  let ?v4 = "(lr_descs s d)\<lparr>ds_superblock := b\<rparr>"
  let ?s4 = "s\<lparr>lr_descs := (lr_descs s)(d := ?v4)\<rparr>"
  obtain mm where run5: "prepare_blocks b (of_nat (lbs c)) (of_nat (lnum c)) ?s4 = Inr (?s4\<lparr>lr_bytes := mm\<rparr>)"
    and ln: "\<And>j. Suc j < lnum c \<Longrightarrow> load64 mm (blk c b j) = blk c b (Suc j)"
    and out: "\<And>a. \<not> within b (lsb c) a \<Longrightarrow> mm a = lr_bytes s a"
    using prepare_blocks_ok [where own = "g_own g" and s = ?s4, OF _ bw _ pl] m by auto
  let ?v7 = "?v4\<lparr>ds_anchor := full_anchor c\<rparr>"
  let ?bin = "\<lparr>tc_block = b, tc_blockNum = of_nat (lnum c)\<rparr>"
  let ?s7 = "s\<lparr>lr_descs := (lr_descs s)(d := ?v7), lr_bytes := mm\<rparr>"
  have "\<exists>pm. RegisterDesc d (set_bin t c ?bin ?s7) = Inr ((set_bin t c ?bin ?s7)\<lparr>pm_entry := pm\<rparr>)
      \<and> (\<forall>x. within b (lsb c) x \<longrightarrow> pm (AddrToKey x) = d OR of_nat c)
      \<and> (\<forall>key. pm key \<noteq> pm_entry (set_bin t c ?bin ?s7) key \<longrightarrow> (\<exists>y. within b (lsb c) y \<and> key = AddrToKey y))"
    using m lr_invD(2) [OF assms(1)] v(1)
    by (intro RegisterDesc_small [where own = "g_own g", OF _ _ da pl]) (simp_all add: set_bin_def inv_init_def)
  then obtain pm where run8: "RegisterDesc d (set_bin t c ?bin ?s7) = Inr ((set_bin t c ?bin ?s7)\<lparr>pm_entry := pm\<rparr>)"
    and reg: "\<And>x. within b (lsb c) x \<Longrightarrow> pm (AddrToKey x) = d OR of_nat c"
    and key: "\<And>key. pm key \<noteq> pm_entry s key \<Longrightarrow> \<exists>y. within b (lsb c) y \<and> key = AddrToKey y"
    by (auto simp: set_bin_def)
  let ?s8 = "?s7\<lparr>pm_entry := pm\<rparr>"
  have inv7: "lr_inv g ?s7"
    using lr_inv_loose_mem(1) [OF lr_inv_loose_desc [OF assms(1,2), of ?v7] bw, of mm] out by simp
  have inv8: "lr_inv g ?s8"
    by (rule lr_inv_pm [OF inv7 bw]) (use key in auto)
  have bl: "blist mm (sb_list c b)" unfolding sb_list_def by (rule blist_map_upt) (use ln in simp)
  have "lr_inv (g_small t c b d g) (set_bin t c ?bin ?s8)"
    and held: "lr_held (g_small t c b d g) = lr_held g"
    using lr_inv_own_small [OF inv8 assms(2) bw pl _ _ _ _ _ _ _ _ assms(9)] v bl reg
    by (simp_all add: full_anchor_def)
  moreover have "lr_keeps g (lr_bytes s) mm" using lr_inv_loose_mem(2) [OF assms(1) bw] out by blast
  moreover have "rbind (upd_desc d (ds_superblock_update (\<lambda>_. b)) s) (\<lambda>s4.
      rbind (prepare_blocks b (of_nat (lbs c)) (of_nat (lnum c)) s4) (\<lambda>s5.
      rbind (PushList t c b (of_nat (lnum c)) s5) (\<lambda>s6.
      rbind (upd_desc d (ds_anchor_update (\<lambda>_. full_anchor c)) s6) (RegisterDesc d)))) = Inr (set_bin t c ?bin ?s8)"
  proof -
    have "upd_desc d (ds_anchor_update (\<lambda>_. full_anchor c)) (set_bin t c ?bin (?s4\<lparr>lr_bytes := mm\<rparr>)) = Inr (set_bin t c ?bin ?s7)"
      by (subst upd) (simp_all add: set_bin_def)
    moreover have "(set_bin t c ?bin ?s7)\<lparr>pm_entry := pm\<rparr> = set_bin t c ?bin ?s8" by (simp add: set_bin_def)
    ultimately show ?thesis using upd [of s "ds_superblock_update (\<lambda>_. b)"] run5 run8 by (simp add: PushList_def)
  qed
  ultimately show ?thesis by (intro exI [of _ "set_bin t c ?bin ?s8"]) (simp add: set_bin_def)
qed

lemma MallocFromNewSB_ok:
  assumes "lr_inv g s" and c: "1 \<le> c" "c < 40" and "g_cache g t c = []" and "os_ok os"
    and "room os (lr_maps s) ((if g_avail g = [] then [65536] else []) @ [of_nat (lsb c)])"
  shows "\<exists>g' s'. MallocFromNewSB os t c 0 s = Inr (of_nat (lnum c), s') \<and> lr_inv g' s'
    \<and> lr_held g' = lr_held g \<and> lr_keeps g (lr_bytes s) (lr_bytes s') \<and> g_cache g' t c \<noteq> []"
proof -
  have "g_avail g = [] \<Longrightarrow> os (lr_maps s) 65536 \<noteq> - 1" using assms(6) by simp
  then obtain d g1 s1 where d1: "DescAlloc os s = Inr (d, s1)" "lr_ext g s g1 s1" "loose g1 d"
    and mp: "lr_maps s1 = (if g_avail g = [] then (unat (os (lr_maps s) 65536), unat (os (lr_maps s) 65536) + 65536) # lr_maps s
                    else lr_maps s)"
    using DescAlloc_ok [OF assms(1,5)] by blast
  have os: "os (lr_maps s1) (of_nat (lsb c)) \<noteq> - 1" using assms(6) mp by (auto split: if_splits)
  have inv1: "lr_inv g1 s1" and cc: "g_cache g1 t c = []" and h1: "lr_held g1 = lr_held g"
    and k1: "lr_keeps g (lr_bytes s) (lr_bytes s1)" using d1(2) assms(4) by (simp_all add: lr_ext_def)
  have da: "ldesc_at (g_own g1) d" using d1(3) by (simp add: loose_def)
  let ?v = "(lr_descs s1 d)\<lparr>ds_heap := Some c, ds_blockSize := of_nat (lbs c), ds_maxcount := of_nat (lnum c)\<rparr>"
  let ?s2 = "s1\<lparr>lr_descs := (lr_descs s1)(d := ?v)\<rparr>"
  have inv2: "lr_inv g1 ?s2" by (rule lr_inv_loose_desc [OF inv1 d1(3)])
  define p where "p = os (lr_maps s1) (of_nat (lsb c))"
  let ?g3 = "g1\<lparr>g_own := (g_own g1)(p \<mapsto> OLoose (lsb c))\<rparr>" and ?s3 = "fresh_map p (lsb c) ?s2"
  note cw = class_words [OF lr_inv_init(2) [OF assms(1)] c]
  have os2: "os (lr_maps ?s2) (of_nat (lsb c)) \<noteq> - 1" using os by simp
  note pa = PageAlloc_new [OF inv2 assms(5) os2, unfolded cw(4), simplified, folded p_def]
  have l3: "loose ?g3 d" using loose_neutral [of g1 p "Some (OLoose (lsb c))" d] pa(2) d1(3) by simp
  have "\<not> within p (lsb c) d"
    by (rule desc_not_loose [OF pa(3)]) (use l3 in \<open>simp_all add: loose_def\<close>)
  then have v3: "lr_descs ?s3 d = ?v" by (simp add: fresh_map_def)
  obtain s8 where s8: "rbind (upd_desc d (ds_superblock_update (\<lambda>_. p)) ?s3) (\<lambda>s4.
      rbind (prepare_blocks p (of_nat (lbs c)) (of_nat (lnum c)) s4) (\<lambda>s5.
      rbind (PushList t c p (of_nat (lnum c)) s5) (\<lambda>s6.
      rbind (upd_desc d (ds_anchor_update (\<lambda>_. full_anchor c)) s6) (RegisterDesc d)))) = Inr s8"
    "lr_inv (g_small t c p d ?g3) s8" "lr_held (g_small t c p d ?g3) = lr_held ?g3"
    "lr_keeps ?g3 (lr_bytes ?s3) (lr_bytes s8)"
    using new_sb_tail [OF pa(3) l3 _ c, of p t] v3 cc by auto
  then obtain s4 s5 s6 s7 where run: "upd_desc d (ds_superblock_update (\<lambda>_. p)) ?s3 = Inr s4"
      "prepare_blocks p (of_nat (lbs c)) (of_nat (lnum c)) s4 = Inr s5"
      "PushList t c p (of_nat (lnum c)) s5 = Inr s6"
      "upd_desc d (ds_anchor_update (\<lambda>_. full_anchor c)) s6 = Inr s7" "RegisterDesc d s7 = Inr s8"
    by (auto simp: rbind_eq_Inr)
  have "upd_desc d (\<lambda>x. x\<lparr>ds_heap := Some c, ds_blockSize := of_nat (lbs c), ds_maxcount := of_nat (lnum c)\<rparr>) s1 = Inr ?s2"
    by (rule desc_access(2) [OF lr_invD(1) [OF inv1] da])
  moreover have "(ucast (of_nat (lnum c) :: u32) :: u64) = of_nat (lnum c)"
    using lr_class_facts(9) [OF c] by (intro ucast64_of_nat) simp
  ultimately have "MallocFromNewSB os t c 0 s = Inr (of_nat (lnum c), s8)"
    using d1(1) pa(1) run cw by (simp add: MallocFromNewSB_def Let_def full_anchor_def)
  moreover have "lr_keeps g (lr_bytes s) (lr_bytes s8)"
    using lr_keeps_trans [OF lr_keeps_trans [OF k1 pa(5)] s8(4)] h1 pa(4) by simp
  moreover have "g_cache (g_small t c p d ?g3) t c \<noteq> []"
  proof -
    have "sb_list c p \<noteq> []" using lr_class_facts(8) [OF c] set_sb_list(2) [of c p]
      by (metis list.size(3) not_numeral_le_zero)
    then show ?thesis by (simp add: g_small_def)
  qed
  ultimately show ?thesis using s8 h1 pa(4) by (intro exI [of _ "g_small t c p d ?g3"] exI [of _ s8]) simp
qed

text \<open>
  \<^verbatim>\<open>FillCache\<close> on an empty cache returns with blocks in it, if the kernel grants the pages it may
  ask for.
\<close>

subsection \<open>Taking a block and giving it back\<close>

lemma block_access:
  assumes "lr_inv g s" and "in_small (g_own g) c x"
  shows "load_word x s = Inr (load64 (lr_bytes s) x)"
    and "store_word x v s = Inr (s\<lparr>lr_bytes := store64 (lr_bytes s) x v\<rparr>)" and "aligned8 x"
proof -
  obtain b d where b: "g_own g b = Some (OSmall d c)" "x \<in> blocks c b" using assms(2) unfolding in_small_def by blast
  note pl = lr_inv_small(2) [OF assms(1) b(1)]
  show "aligned8 x" by (rule block_facts(1) [OF b(2) pl])
  have "unat x + 8 \<le> unat b + osize (OSmall d c)" using block_facts(3) [OF b(2) pl] lbs_pos [OF pl] by simp
  note st = store_in_owner [OF lr_invD(1) [OF assms(1)] b(1) block_facts(2) [OF b(2) pl] this]
  show "load_word x s = Inr (load64 (lr_bytes s) x)"
    and "store_word x v s = Inr (s\<lparr>lr_bytes := store64 (lr_bytes s) x v\<rparr>)" by (rule st(2), rule st(1))
qed

lemma small_not_large:
  assumes "lr_inv g s" and "in_small (g_own g) c x"
  shows "g_own g b' \<noteq> Some (OLarge d' m x)"
proof
  assume b': "g_own g b' = Some (OLarge d' m x)"
  obtain b d where b: "g_own g b = Some (OSmall d c)" "x \<in> blocks c b" using assms(2) unfolding in_small_def by blast
  have "within b (lsb c) x" by (rule block_facts(4) [OF b(2) lr_inv_small(2) [OF assms(1) b(1)]])
  moreover have "within b' m x" using lr_inv_large [OF assms(1) b'] by (simp add: large_ok_def)
  ultimately show False
    using owner_unique [OF lr_invD(1) [OF assms(1)] b(1) b', of "unat x"] by (simp add: within_def)
qed

lemma held_small:
  assumes "lr_inv g s" and "in_small (g_own g) c x"
  shows "lr_held g x n \<longleftrightarrow> g_place g x = InUse \<and> n = lbs c"
proof -
  have "in_small (g_own g) c' x \<longleftrightarrow> c' = c" for c' using in_small_unique [OF assms(1)] assms(2) by blast
  then show ?thesis using small_not_large [OF assms] by (simp add: lr_held_def)
qed

text \<open>Changing the place of one block that is in no free list, with the cache of its thread.\<close>

lemma lr_inv_move:
  assumes "lr_inv g s" and c: "1 \<le> c" "c < 40" and x: "in_small (g_own g) c x"
    and "g_place g x \<noteq> InFree" and "P \<noteq> InFree"
    and other: "\<And>t'. t' \<noteq> t \<Longrightarrow> g_place g x \<noteq> InCache t' \<and> P \<noteq> InCache t'"
    and mem: "\<And>y. tracked g y \<Longrightarrow> y \<noteq> x \<Longrightarrow> load64 m y = load64 (lr_bytes s) y"
    and bin: "bin_ok (g_own g) ((g_place g)(x := P)) L bin m t c"
  shows "lr_inv (g\<lparr>g_place := (g_place g)(x := P), g_cache := (g_cache g)(t := (g_cache g t)(c := L))\<rparr>)
    (set_bin t c bin (s\<lparr>lr_bytes := m\<rparr>))"
proof -
  let ?pl = "(g_place g)(x := P)"
  have "inv_small (g_own g) ?pl (g_free g) (g_part g) (lr_descs s) m (pm_entry s)"
    unfolding inv_small_def
  proof (intro allI impI)
    fix b d c'
    assume b: "g_own g b = Some (OSmall d c')"
    have "small_ok (g_own g) ?pl (g_free g d) (g_part g) (lr_descs s d) (lr_bytes s) (pm_entry s) b d c'"
      using assms(5,6) by (intro small_ok_place [OF lr_inv_small(1) [OF assms(1) b]]) auto
    then show "small_ok (g_own g) ?pl (g_free g d) (g_part g) (lr_descs s d) m (pm_entry s) b d c'"
    proof (rule small_ok_mem)
      fix y
      assume y: "y \<in> set (g_free g d)"
      have "y \<noteq> x" using free_tracked(3) [OF assms(1) b y] assms(5) by blast
      then show "load64 m y = load64 (lr_bytes s) y" using mem free_tracked(1) [OF assms(1) b y] by blast
    qed
  qed
  moreover have "inv_cache (g_own g) ?pl ((g_cache g)(t := (g_cache g t)(c := L)))
      ((lr_TCache s)(t := (lr_TCache s t)(c := bin))) m"
    unfolding inv_cache_def
  proof (intro allI impI)
    fix t' c' :: nat
    assume c': "1 \<le> c' \<and> c' < 40"
    show "bin_ok (g_own g) ?pl (((g_cache g)(t := (g_cache g t)(c := L))) t' c')
      (((lr_TCache s)(t := (lr_TCache s t)(c := bin))) t' c') m t' c'"
    proof (cases "t' = t \<and> c' = c")
      case False
      have nx: "y \<noteq> x" if "in_small (g_own g) c' y" "g_place g y = InCache t'" for y
        using that in_small_unique [OF assms(1) x, of c'] other [of t'] False by auto
      have "bin_ok (g_own g) ?pl (g_cache g t' c') (lr_TCache s t' c') (lr_bytes s) t' c'"
      proof (rule bin_ok_place [OF lr_inv_bin [OF assms(1)]])
        show "(?pl y = InCache t') = (g_place g y = InCache t')" if "in_small (g_own g) c' y" for y
          using nx [OF that] in_small_unique [OF assms(1) x, of c'] that other [of t'] False by auto
      qed (use c' in auto)
      then have "bin_ok (g_own g) ?pl (g_cache g t' c') (lr_TCache s t' c') m t' c'"
      proof (rule bin_ok_mem)
        fix y
        assume "y \<in> set (g_cache g t' c')"
        then have y: "tracked g y" "in_small (g_own g) c' y" "g_place g y = InCache t'"
          using cache_tracked [OF assms(1), of c' y t'] c' by auto
        then show "load64 m y = load64 (lr_bytes s) y" using mem nx by blast
      qed
      then show ?thesis using False by auto
    qed (use bin in simp)
  qed
  ultimately show ?thesis using assms(1) by (simp add: lr_inv_def set_bin_def inv_init_def)
qed

lemma held_place:
  assumes "lr_inv g s" and x: "in_small (g_own g) c x" and "g_own g' = g_own g" and "g_place g' = (g_place g)(x := P)"
  shows "lr_held g' y n \<longleftrightarrow> (if y = x then P = InUse \<and> n = lbs c else lr_held g y n)"
proof (cases "y = x")
  case True
  have "in_small (g_own g) c' x \<longleftrightarrow> c' = c" for c' using in_small_unique [OF assms(1)] x by blast
  then show ?thesis using True small_not_large [OF assms(1) x] by (simp add: lr_held_def assms(3,4))
next
  case False
  then show ?thesis by (simp add: lr_held_def assms(3,4))
qed

lemma PopBlock_ok:
  assumes "lr_inv g s" and c: "1 \<le> c" "c < 40" and L: "g_cache g t c = x # xs"
  defines "g' \<equiv> g\<lparr>g_place := (g_place g)(x := InUse), g_cache := (g_cache g)(t := (g_cache g t)(c := xs))\<rparr>"
  shows "\<exists>s'. PopBlock t c s = Inr (x, s') \<and> lr_inv g' s' \<and> lr_bytes s' = lr_bytes s"
    and "\<And>y n. lr_held g' y n \<longleftrightarrow> (if y = x then n = lbs c else lr_held g y n)" and "\<not> lr_held g x n"
    and "in_small (g_own g) c x"
proof -
  have "x \<in> set (g_cache g t c)" using L by simp
  note ct = cache_tracked [OF assms(1) c this]
  show ins: "in_small (g_own g) c x" by (rule ct(2))
  show "\<not> lr_held g x n" by (simp add: held_small [OF assms(1) ct(2)] ct(3))
  show "\<And>y n. lr_held g' y n \<longleftrightarrow> (if y = x then n = lbs c else lr_held g y n)"
    using held_place [OF assms(1) ct(2), of g' InUse] by (simp add: g'_def)
  note b = lr_inv_bin [OF assms(1) c, of t, unfolded L bin_ok_def]
  let ?bin = "\<lparr>tc_block = load64 (lr_bytes s) x, tc_blockNum = tc_blockNum (lr_TCache s t c) - 1\<rparr>"
  have "PopBlock t c s = Inr (x, set_bin t c ?bin s)"
    using b block_access(1) [OF assms(1) ins] by (simp add: PopBlock_def Let_def)
  moreover have "bin_ok (g_own g) ((g_place g)(x := InUse)) xs ?bin (lr_bytes s) t c"
  proof -
    have "set xs = {y. in_small (g_own g) c y \<and> ((g_place g)(x := InUse)) y = InCache t}" using b by auto
    then show ?thesis using b unfolding bin_ok_def by (intro conjI) (auto simp: blist_Cons)
  qed
  then have "lr_inv g' (set_bin t c ?bin (s\<lparr>lr_bytes := lr_bytes s\<rparr>))"
    unfolding g'_def using ct(3) by (intro lr_inv_move [OF assms(1) c ins]) simp_all
  ultimately show "\<exists>s'. PopBlock t c s = Inr (x, s') \<and> lr_inv g' s' \<and> lr_bytes s' = lr_bytes s"
    by (intro exI [of _ "set_bin t c ?bin s"]) (simp add: set_bin_def)
qed

lemma PushBlock_ok:
  assumes "lr_inv g s" and c: "1 \<le> c" "c < 40" and x: "in_small (g_own g) c x" "g_place g x = InUse"
    and len: "length (g_cache g t c) < lnum c"
  defines "g' \<equiv> g\<lparr>g_place := (g_place g)(x := InCache t),
    g_cache := (g_cache g)(t := (g_cache g t)(c := x # g_cache g t c))\<rparr>"
  shows "\<exists>s'. PushBlock t c x s = Inr s' \<and> lr_inv g' s' \<and> lr_keeps g' (lr_bytes s) (lr_bytes s')"
    and "\<And>y n. lr_held g' y n \<longleftrightarrow> y \<noteq> x \<and> lr_held g y n"
proof -
  let ?L = "g_cache g t c" and ?b = "lr_TCache s t c"
  show h: "\<And>y n. lr_held g' y n \<longleftrightarrow> y \<noteq> x \<and> lr_held g y n"
    using held_place [OF assms(1) x(1), of g' "InCache t"] by (simp add: g'_def)
  note b = lr_inv_bin [OF assms(1) c, of t, unfolded bin_ok_def]
  let ?m = "store64 (lr_bytes s) x (tc_block ?b)"
  let ?bin = "\<lparr>tc_block = x, tc_blockNum = tc_blockNum ?b + 1\<rparr>"
  have a8: "aligned8 x" by (rule block_access(3) [OF assms(1) x(1)])
  have run: "PushBlock t c x s = Inr (set_bin t c ?bin (s\<lparr>lr_bytes := ?m\<rparr>))"
    using block_access(2) [OF assms(1) x(1)] by (simp add: PushBlock_def Let_def)
  have xL: "x \<notin> set ?L" using cache_tracked(3) [OF assms(1) c, of x t] x(2) by auto
  have al: "aligned8 y" if "tracked g y" for y
    using that in_small_class [OF assms(1)] unfolding tracked_def by blast
  have mem: "load64 ?m y = load64 (lr_bytes s) y" if "tracked g y" "y \<noteq> x" for y
    using a8 al [OF that(1)] that(2) by (intro load64_store64_other) auto
  have "blist ?m ?L = blist (lr_bytes s) ?L"
    using mem cache_tracked(1) [OF assms(1) c] xL by (intro blist_cong) blast
  moreover have "set (x # ?L) = {y. in_small (g_own g) c y \<and> ((g_place g)(x := InCache t)) y = InCache t}"
    using b x(1) by auto
  ultimately have "bin_ok (g_own g) ((g_place g)(x := InCache t)) (x # ?L) ?bin ?m t c"
    unfolding bin_ok_def using b xL len by (intro conjI) (auto simp: blist_Cons)
  then have inv: "lr_inv g' (set_bin t c ?bin (s\<lparr>lr_bytes := ?m\<rparr>))"
    unfolding g'_def using x(2) mem by (intro lr_inv_move [OF assms(1) c x(1)]) simp_all
  have "lr_keeps g' (lr_bytes s) ?m"
    unfolding lr_keeps_def
  proof (intro allI impI, elim conjE)
    fix y n i
    assume "lr_held g' y n" and i: "i < n"
    then have y: "lr_held g y n" "y \<noteq> x" using h by auto
    have hx: "lr_held g x (lbs c)" using held_small [OF assms(1) x(1)] x(2) by simp
    have "8 \<le> lbs c" by (rule lr_class_facts(1) [OF c])
    then have "unat x + 8 \<le> unat y \<or> unat y + n \<le> unat x"
      using held_disjoint [OF assms(1) hx y(1)] y(2) by auto
    then have "y + of_nat i \<noteq> x + of_nat j" if "j < 8" for j
      using held_byte [OF assms(1) y(1) i] aligned8_bytes [OF a8 that] i that by auto
    then show "?m (y + of_nat i) = lr_bytes s (y + of_nat i)" by (rule store64_other)
  qed
  then show "\<exists>s'. PushBlock t c x s = Inr s' \<and> lr_inv g' s' \<and> lr_keeps g' (lr_bytes s) (lr_bytes s')"
    using run inv by (intro exI [of _ "set_bin t c ?bin (s\<lparr>lr_bytes := ?m\<rparr>)"]) (simp add: set_bin_def)
qed

end
