(* ===== verification/LrFlush.thy ===== *)
theory LrFlush
  imports LrCache
begin

text \<open>
  \<^verbatim>\<open>FlushCache\<close>: an iteration takes the blocks at the head of the cache that are in one superblock,
  puts them before the free list of the superblock, and puts the superblock into its partial list
  when it had no free block. When all blocks of the superblock are free it is unregistered and
  unmapped; its descriptor stays in the partial list, or in no list at all.
\<close>

subsection \<open>The first blocks of a cache\<close>

lemma lr_in_superblock:
  assumes "sb_place c b"
  shows "(x < b \<or> x \<ge> b + ucast (of_nat (lsb c) :: u32)) \<longleftrightarrow> \<not> within b (lsb c) x"
proof -
  have c: "1 \<le> c" "c < 40" using sb_place_class [OF assms] by auto
  have "(ucast (of_nat (lsb c) :: u32) :: u64) = of_nat (lsb c)"
    using lr_class_facts(5) [OF c] by (intro ucast64_of_nat) simp
  moreover have "unat b + lsb c \<le> 281474976710656" using assms unfolding sb_place_def by blast
  then have "unat (b + of_nat (lsb c)) = unat b + lsb c" by (intro unat_offset) simp
  ultimately show ?thesis by (auto simp: within_def word_less_nat_alt word_le_nat_alt)
qed

lemma blist_nth: "blist m L \<Longrightarrow> Suc i < length L \<Longrightarrow> load64 m (L ! i) = L ! Suc i"
proof (induction L arbitrary: i)
  case (Cons x L)
  then show ?case by (cases i; cases L) (auto simp: blist_Cons)
qed simp

lemma same_superblock_run:
  assumes "lr_inv g s" and pl: "sb_place c b" and L: "\<And>y. y \<in> set L \<Longrightarrow> in_small (g_own g) c y"
    and "blist (lr_bytes s) L" and len: "length L < 4294967296"
    and n: "n = length (takeWhile (within b (lsb c)) L)" and k: "1 \<le> k" "k \<le> n"
  shows "same_superblock s b (of_nat (lsb c)) (of_nat (length L)) (of_nat k) (L ! (k - 1)) = Inr (of_nat n, L ! (n - 1))"
  using k
proof (induction "n - k" arbitrary: k)
  case 0
  then have kn: "k = n" by simp
  have nl: "n \<le> length L" unfolding n by (rule length_takeWhile_le)
  show ?case
  proof (cases "n = length L")
    case True
    then show ?thesis by (subst same_superblock.simps) (simp add: kn)
  next
    case False
    then have lt: "n < length L" using nl by simp
    have "\<not> within b (lsb c) (L ! n)" using nth_length_takeWhile [of "within b (lsb c)" L] lt n by simp
    moreover have "load_word (L ! (n - 1)) s = Inr (L ! n)"
    proof -
      have "load64 (lr_bytes s) (L ! (n - 1)) = L ! n"
        using blist_nth [OF assms(4), of "n - 1"] lt 0 kn by simp
      then show ?thesis using block_access(1) [OF assms(1) L, of "L ! (n - 1)"] lt by simp
    qed
    ultimately show ?thesis
      using lr_in_superblock [OF pl, of "L ! n"] by (subst same_superblock.simps) (simp add: kn)
  qed
next
  case (Suc m)
  then have kn: "k < n" by simp
  have nl: "n \<le> length L" unfolding n by (rule length_takeWhile_le)
  have "within b (lsb c) (L ! k)"
    using takeWhile_nth [of k "within b (lsb c)" L] kn n by (metis nth_mem set_takeWhileD)
  moreover have "load_word (L ! (k - 1)) s = Inr (L ! k)"
  proof -
    have "load64 (lr_bytes s) (L ! (k - 1)) = L ! k"
      using blist_nth [OF assms(4), of "k - 1"] kn nl Suc.prems by simp
    then show ?thesis using block_access(1) [OF assms(1) L, of "L ! (k - 1)"] kn nl by simp
  qed
  moreover have "(of_nat (length L) :: u32) > of_nat k"
    using kn nl len by (simp add: word_less_nat_alt unat_of_nat32)
  moreover have "same_superblock s b (of_nat (lsb c)) (of_nat (length L)) (of_nat (Suc k)) (L ! (Suc k - 1)) = Inr (of_nat n, L ! (n - 1))"
    by (rule Suc.hyps(1)) (use Suc.hyps(2) kn in simp_all)
  ultimately show ?case
    using lr_in_superblock [OF pl, of "L ! k"]
    by (subst same_superblock.simps) (simp add: add.commute)
qed

subsection \<open>The index of a block\<close>

lemma lr_case_rows:
  "concat (map lr_SC_case lr_SIZE_CLASSES) = zip [1..<40] (map (of_nat \<circ> fst) lr_class_table)"
proof -
  have "concat (map lr_SC_case lr_SIZE_CLASSES_0) = zip [1..<40] (map (of_nat \<circ> fst) lr_class_table)"
    unfolding lr_SIZE_CLASSES_0_def lr_class_table_def by (simp add: upt_rec)
  moreover have "concat (map lr_SC_case lr_SIZE_CLASSES_1) = []" unfolding lr_SIZE_CLASSES_1_def by simp
  moreover have "concat (map lr_SC_case lr_SIZE_CLASSES_2) = []" unfolding lr_SIZE_CLASSES_2_def by simp
  ultimately show ?thesis by (simp add: lr_SIZE_CLASSES_def)
qed

lemma lr_case_class:
  assumes "1 \<le> c" and "c < 40"
  shows "map_of (concat (map lr_SC_case lr_SIZE_CLASSES)) c = Some (of_nat (lbs c))"
proof -
  have "map_of (zip [1..<40] (map (of_nat \<circ> fst) lr_class_table)) ([1..<40] ! (c - 1)) =
      Some (map (of_nat \<circ> fst) lr_class_table ! (c - 1))"
    using assms by (intro map_of_zip_nth) (simp_all del: upt_rec_numeral upt_Suc)
  then show ?thesis unfolding lr_case_rows using assms by (simp add: lbs_def del: upt_rec_numeral upt_Suc)
qed

lemma ComputeIdx_ok:
  assumes "sb_place c b" and "k < lnum c"
  shows "ComputeIdx b (blk c b k) c s = Inr (of_nat k)"
proof -
  have c: "1 \<le> c" "c < 40" using sb_place_class [OF assms(1)] by auto
  note f = lr_class_facts(1,2,5,9) [OF c]
  have le: "k * lbs c \<le> 86016" using block_end [OF assms] f by linarith
  have "blk c b k - b = of_nat (k * lbs c)" by (simp add: blk_def)
  then have "unat (ucast (blk c b k - b) :: u32) = k * lbs c"
    using le by (simp only: unsigned_ucast_eq) (simp add: unat_of_nat64 take_bit_nat_eq_self del: of_nat_mult)
  moreover have "unat (of_nat (lbs c) :: u32) = lbs c" using f by (simp add: unat_of_nat32)
  ultimately have "unat ((ucast (blk c b k - b) :: u32) div of_nat (lbs c)) = k"
    using f by (simp only: unat_div) simp
  then have "(ucast (blk c b k - b) :: u32) div of_nat (lbs c) = of_nat k" by (metis of_nat_unat ucast_id)
  then show ?thesis using lr_case_class [OF c] by (simp add: ComputeIdx_def Let_def)
qed

subsection \<open>Blocks go back to their superblock\<close>

definition g_flush :: "nat \<Rightarrow> nat \<Rightarrow> addr \<Rightarrow> addr list \<Rightarrow> addr list \<Rightarrow> addr list \<Rightarrow> lr_ghost \<Rightarrow> lr_ghost" where
  "g_flush t c d P R part g =
     g\<lparr>g_part := (g_part g)(c := part), g_free := (g_free g)(d := P @ g_free g d),
       g_place := (\<lambda>x. if x \<in> set P then InFree else g_place g x),
       g_cache := (g_cache g)(t := (g_cache g t)(c := R))\<rparr>"

lemma cache_prefix:
  assumes "lr_inv g s" and c: "1 \<le> c" "c < 40" and L: "g_cache g t c = P @ R"
  shows "x \<in> set P \<Longrightarrow> in_small (g_own g) c x \<and> g_place g x = InCache t" and "distinct (P @ R)"
    and "x \<in> set R \<Longrightarrow> in_small (g_own g) c x \<and> g_place g x = InCache t" and "blist (lr_bytes s) (P @ R)"
    and "length (P @ R) \<le> lnum c" and "tc_blockNum (lr_TCache s t c) = of_nat (length (P @ R))"
    and "set (P @ R) = {x. in_small (g_own g) c x \<and> g_place g x = InCache t}"
  using lr_inv_bin [OF assms(1) c, of t] L by (auto simp: bin_ok_def)

lemma lr_inv_flush:
  assumes "lr_inv g s" and b: "g_own g b = Some (OSmall d c)" and L: "g_cache g t c = P @ R"
    and P: "set P \<subseteq> blocks c b" "P \<noteq> []" and short: "length (P @ g_free g d) < lnum c"
    and mF: "blist m (P @ g_free g d)" and mR: "blist m R"
    and mem: "\<And>y. tracked g y \<Longrightarrow> y \<notin> set P \<Longrightarrow> load64 m y = load64 (lr_bytes s) y"
    and v: "ds_superblock v = b" "ds_heap v = Some c" "ds_blockSize v = of_nat (lbs c)"
      "ds_maxcount v = of_nat (lnum c)" "ds_nextFree v = ds_nextFree (lr_descs s d)"
      "anchor_ok c b (P @ g_free g d) (ds_anchor v)"
    and part: "inv_part (g_own g) (g_avail g) ((g_part g)(c := part')) hs ((lr_descs s)(d := v))"
      "d \<in> set part'" "set (g_part g c) \<subseteq> set part'" "\<forall>c' < 40. ph_scIdx (hs c') = c'"
    and bin: "tc_blockNum bin = of_nat (length R)" "R \<noteq> [] \<longrightarrow> tc_block bin = hd R"
  shows "lr_inv (g_flush t c d P R part' g)
      (set_bin t c bin (s\<lparr>lr_bytes := m, lr_descs := (lr_descs s)(d := v), Heaps := hs\<rparr>))"
    and "lr_held (g_flush t c d P R part' g) = lr_held g"
proof -
  let ?F = "g_free g d" and ?ds = "(lr_descs s)(d := v)"
  let ?pl = "\<lambda>x. if x \<in> set P then InFree else g_place g x"
  note pl = lr_inv_small(2) [OF assms(1) b] and sm = lr_inv_small(1) [OF assms(1) b, unfolded small_ok_def]
  have c: "1 \<le> c" "c < 40" using sb_place_class [OF pl] by auto
  note pr = cache_prefix [OF assms(1) c L]
  have FP: "y \<notin> set P" if "y \<in> set ?F" for y
    using free_tracked(3) [OF assms(1) b that] pr(1) [of y] by auto
  have "inv_avail (g_own g) (g_avail g) (AvailDesc s) ?ds"
  proof -
    have "dlist (\<lambda>x. ds_nextFree (?ds x)) (AvailDesc s) (g_avail g)
        = dlist (\<lambda>x. ds_nextFree (lr_descs s x)) (AvailDesc s) (g_avail g)"
      by (intro dlist_cong) (simp add: v)
    then show ?thesis using lr_invD(3) [OF assms(1)] by (simp add: inv_avail_def)
  qed
  moreover have "inv_small (g_own g) ?pl ((g_free g)(d := P @ ?F)) ((g_part g)(c := part')) ?ds m (pm_entry s)"
    unfolding inv_small_def
  proof (intro allI impI)
    fix b' d' c'
    assume b': "g_own g b' = Some (OSmall d' c')"
    show "small_ok (g_own g) ?pl (((g_free g)(d := P @ ?F)) d') ((g_part g)(c := part')) (?ds d') m (pm_entry s) b' d' c'"
    proof (cases "d' = d")
      case True
      then have eq: "b' = b" "c' = c" using small_desc_unique [OF assms(1) b, of b' c'] b' by auto
      have "set (P @ ?F) = {x \<in> blocks c b. ?pl x = InFree}" using sm P(1) by auto
      moreover have "distinct (P @ ?F)" using sm pr(2) FP by auto
      ultimately have "small_ok (g_own g) ?pl (P @ ?F) ((g_part g)(c := part')) v m (pm_entry s) b d c"
        unfolding small_ok_def using sm v part(2) short mF P(2) by (intro conjI) auto
      then show ?thesis using True eq by simp
    next
      case False
      have nP: "x \<notin> set P" if "x \<in> blocks c' b'" for x
        using P(1) block_owner_unique [OF assms(1) b _ b' that] False by blast
      have "small_ok (g_own g) ?pl (g_free g d') ((g_part g)(c := part')) (lr_descs s d') (lr_bytes s) (pm_entry s) b' d' c'"
        using nP part(3) by (intro small_ok_place [OF lr_inv_small(1) [OF assms(1) b']]) auto
      then have "small_ok (g_own g) ?pl (g_free g d') ((g_part g)(c := part')) (lr_descs s d') m (pm_entry s) b' d' c'"
      proof (rule small_ok_mem)
        show "load64 m y = load64 (lr_bytes s) y" if y: "y \<in> set (g_free g d')" for y
          using mem [OF free_tracked(1) [OF assms(1) b' y]] nP [OF free_tracked(2) [OF assms(1) b' y]] by blast
      qed
      then show ?thesis using False by simp
    qed
  qed
  moreover have "inv_large (g_own g) ?ds (pm_entry s)"
    unfolding inv_large_def
  proof (intro allI impI)
    fix b' d' n u
    assume b': "g_own g b' = Some (OLarge d' n u)"
    then have "d' \<noteq> d" using small_large_desc [OF assms(1) b] by blast
    then show "large_ok (g_own g) (?ds d') (pm_entry s) b' d' n u" using lr_inv_large [OF assms(1) b'] by simp
  qed
  moreover have "inv_cache (g_own g) ?pl ((g_cache g)(t := (g_cache g t)(c := R)))
      ((lr_TCache s)(t := (lr_TCache s t)(c := bin))) m"
    unfolding inv_cache_def
  proof (intro allI impI)
    fix t' c' :: nat
    assume c': "1 \<le> c' \<and> c' < 40"
    show "bin_ok (g_own g) ?pl (((g_cache g)(t := (g_cache g t)(c := R))) t' c')
        (((lr_TCache s)(t := (lr_TCache s t)(c := bin))) t' c') m t' c'"
    proof (cases "t' = t \<and> c' = c")
      case True
      have "set R = {x. in_small (g_own g) c x \<and> ?pl x = InCache t}" using pr(2,7) by auto
      then have "bin_ok (g_own g) ?pl R bin m t c"
        unfolding bin_ok_def using bin mR pr(2,5) by (intro conjI) auto
      then show ?thesis using True by simp
    next
      case False
      have nP: "y \<notin> set P" if "in_small (g_own g) c' y" "g_place g y = InCache t'" for y
        using pr(1) [of y] in_small_unique [OF assms(1), of c y c'] that False by auto
      have "bin_ok (g_own g) ?pl (g_cache g t' c') (lr_TCache s t' c') (lr_bytes s) t' c'"
        using nP c' by (intro bin_ok_place [OF lr_inv_bin [OF assms(1)]]) auto
      then have "bin_ok (g_own g) ?pl (g_cache g t' c') (lr_TCache s t' c') m t' c'"
      proof (rule bin_ok_mem)
        fix y
        assume "y \<in> set (g_cache g t' c')"
        then have y: "tracked g y" "in_small (g_own g) c' y" "g_place g y = InCache t'"
          using cache_tracked [OF assms(1), of c' y t'] c' by auto
        then show "load64 m y = load64 (lr_bytes s) y" using mem nP by blast
      qed
      then show ?thesis using False by auto
    qed
  qed
  ultimately show "lr_inv (g_flush t c d P R part' g)
      (set_bin t c bin (s\<lparr>lr_bytes := m, lr_descs := ?ds, Heaps := hs\<rparr>))"
    using lr_invD(1,2) [OF assms(1)] part(1,4) unfolding lr_inv_def g_flush_def
    by (simp add: set_bin_def inv_init_def)
  show "lr_held (g_flush t c d P R part' g) = lr_held g"
    using pr(1) by (intro lr_held_cong) (auto simp: g_flush_def)
qed

subsection \<open>A superblock without blocks in use\<close>

definition g_drain :: "nat \<Rightarrow> nat \<Rightarrow> addr \<Rightarrow> addr list \<Rightarrow> lr_ghost \<Rightarrow> lr_ghost" where
  "g_drain t c b R g =
     g\<lparr>g_own := (g_own g)(b \<mapsto> OLoose (lsb c)), g_cache := (g_cache g)(t := (g_cache g t)(c := R))\<rparr>"

lemma in_small_drain:
  assumes "lr_inv g s" and b: "g_own g b = Some (OSmall d c)"
  shows "in_small ((g_own g)(b \<mapsto> OLoose n)) c' x \<longleftrightarrow> in_small (g_own g) c' x \<and> x \<notin> blocks c b"
proof -
  have sm: "((g_own g)(b \<mapsto> OLoose n)) b' = Some (OSmall d' c') \<longleftrightarrow> g_own g b' = Some (OSmall d' c') \<and> b' \<noteq> b" for b' d'
    using b by auto
  show ?thesis
    unfolding in_small_def sm using block_owner_unique [OF assms] by (metis b lr_owner.inject(2) option.inject)
qed

lemma lr_inv_drain:
  assumes "lr_inv g s" and b: "g_own g b = Some (OSmall d c)" and L: "g_cache g t c = P @ R"
    and all: "set P \<union> set (g_free g d) = blocks c b" and mR: "blist m R"
    and mem: "\<And>y. tracked g y \<Longrightarrow> y \<notin> set P \<Longrightarrow> load64 m y = load64 (lr_bytes s) y"
    and v: "ds_heap v = ds_heap (lr_descs s d)" "ds_nextFree v = ds_nextFree (lr_descs s d)"
      "ds_nextPartial v = ds_nextPartial (lr_descs s d)" "an_state (ds_anchor v) = LR_SB_EMPTY"
    and bin: "tc_blockNum bin = of_nat (length R)" "R \<noteq> [] \<longrightarrow> tc_block bin = hd R"
  shows "lr_inv (g_drain t c b R g) (set_bin t c bin (s\<lparr>lr_bytes := m, lr_descs := (lr_descs s)(d := v)\<rparr>))"
    and "lr_held (g_drain t c b R g) = lr_held g"
proof -
  let ?own = "(g_own g)(b \<mapsto> OLoose (lsb c))" and ?ds = "(lr_descs s)(d := v)"
  note pl = lr_inv_small(2) [OF assms(1) b] and sm0 = lr_inv_small(1) [OF assms(1) b, unfolded small_ok_def]
  have c: "1 \<le> c" "c < 40" using sb_place_class [OF pl] by auto
  note pr = cache_prefix [OF assms(1) c L]
  have la: "?own b' = Some (OLarge d' n u) \<longleftrightarrow> g_own g b' = Some (OLarge d' n u)"
    and de: "?own b' = Some ODescs \<longleftrightarrow> g_own g b' = Some ODescs"
    and pg: "?own b' = Some OPageMap \<longleftrightarrow> g_own g b' = Some OPageMap"
    and sm: "?own b' = Some (OSmall d' c') \<longleftrightarrow> g_own g b' = Some (OSmall d' c') \<and> b' \<noteq> b" for b' d' n u c'
    using b by auto
  have da: "ldesc_at ?own = ldesc_at (g_own g)" unfolding ldesc_at_def de by auto
  have od: "\<not> owns ?own d"
    unfolding owns_def sm la using small_desc_unique [OF assms(1) b] small_large_desc [OF assms(1) b] by blast
  have ow: "owns ?own d' \<longleftrightarrow> owns (g_own g) d'" if "d' \<noteq> d" for d'
    unfolding owns_def sm la using b that by auto
  have ins: "in_small ?own c' x \<longleftrightarrow> in_small (g_own g) c' x \<and> x \<notin> blocks c b" for c' x
    by (rule in_small_drain [OF assms(1) b])
  have place: "g_place g x = InFree \<or> x \<in> set P" if "x \<in> blocks c b" for x
    using all that free_tracked(3) [OF assms(1) b] by blast
  have Pb: "x \<in> blocks c b" if "x \<in> set P" for x using all that by blast
  have "inv_maps ?own (lr_maps s)"
    using inv_maps_convert [where own = "g_own g", OF b _ lr_invD(1) [OF assms(1)], of "OLoose (lsb c)"] by simp
  moreover have "inv_init ?own s" using lr_invD(2) [OF assms(1)] pg by (simp add: inv_init_def)
  moreover have "inv_avail ?own (g_avail g) (AvailDesc s) ?ds"
  proof -
    have "dlist (\<lambda>x. ds_nextFree (?ds x)) (AvailDesc s) (g_avail g)
        = dlist (\<lambda>x. ds_nextFree (lr_descs s x)) (AvailDesc s) (g_avail g)"
      by (intro dlist_cong) (simp add: v)
    moreover have "\<not> owns ?own e" if "\<not> owns (g_own g) e" for e using ow [of e] od that by blast
    ultimately show ?thesis using lr_invD(3) [OF assms(1)] by (simp add: inv_avail_def da)
  qed
  moreover have "inv_part ?own (g_avail g) (g_part g) (Heaps s) ?ds"
    unfolding inv_part_def
  proof (intro allI impI)
    fix c' :: nat
    assume c': "c' < 40"
    note pt = lr_inv_part [OF assms(1) c']
    have "dlist (\<lambda>d. ds_nextPartial (?ds d)) (ph_partialList (Heaps s c')) (g_part g c')
        = dlist (\<lambda>d. ds_nextPartial (lr_descs s d)) (ph_partialList (Heaps s c')) (g_part g c')"
      by (intro dlist_cong) (simp add: v)
    moreover have "ldesc_at ?own e \<and> e \<notin> set (g_avail g) \<and> ds_heap (?ds e) = Some c'
        \<and> an_state (ds_anchor (?ds e)) = (if owns ?own e then LR_SB_PARTIAL else LR_SB_EMPTY)"
      if e: "e \<in> set (g_part g c')" for e
      using pt(3) [OF e] v od ow [of e] by (cases "e = d") (simp_all add: da)
    ultimately show "dlist (\<lambda>d. ds_nextPartial (?ds d)) (ph_partialList (Heaps s c')) (g_part g c')
      \<and> distinct (g_part g c') \<and> (\<forall>e \<in> set (g_part g c'). ldesc_at ?own e \<and> e \<notin> set (g_avail g)
        \<and> ds_heap (?ds e) = Some c'
        \<and> an_state (ds_anchor (?ds e)) = (if owns ?own e then LR_SB_PARTIAL else LR_SB_EMPTY))"
      using pt(1,2) by simp
  qed
  moreover have "inv_small ?own (g_place g) (g_free g) (g_part g) ?ds m (pm_entry s)"
    unfolding inv_small_def sm
  proof (intro allI impI, elim conjE)
    fix b' d' c'
    assume b': "g_own g b' = Some (OSmall d' c')" and "b' \<noteq> b"
    then have d': "d' \<noteq> d" using small_desc_unique [OF assms(1) b, of b' c'] by auto
    have nP: "x \<notin> set P" if "x \<in> blocks c' b'" for x
      using Pb block_owner_unique [OF assms(1) b _ b' that] d' by blast
    have "small_ok (g_own g) (g_place g) (g_free g d') (g_part g) (lr_descs s d') m (pm_entry s) b' d' c'"
    proof (rule small_ok_mem [OF lr_inv_small(1) [OF assms(1) b']])
      show "load64 m y = load64 (lr_bytes s) y" if y: "y \<in> set (g_free g d')" for y
        using mem [OF free_tracked(1) [OF assms(1) b' y]] nP [OF free_tracked(2) [OF assms(1) b' y]] by blast
    qed
    then show "small_ok ?own (g_place g) (g_free g d') (g_part g) (?ds d') m (pm_entry s) b' d' c'"
      using d' by (simp add: small_ok_def da)
  qed
  moreover have "inv_large ?own ?ds (pm_entry s)"
    unfolding inv_large_def la
  proof (intro allI impI)
    fix b' d' n u
    assume b': "g_own g b' = Some (OLarge d' n u)"
    then have "d' \<noteq> d" using small_large_desc [OF assms(1) b] by blast
    then show "large_ok ?own (?ds d') (pm_entry s) b' d' n u"
      using lr_inv_large [OF assms(1) b'] by (simp add: large_ok_def da)
  qed
  moreover have "inv_cache ?own (g_place g) ((g_cache g)(t := (g_cache g t)(c := R)))
      ((lr_TCache s)(t := (lr_TCache s t)(c := bin))) m"
    unfolding inv_cache_def
  proof (intro allI impI)
    fix t' c' :: nat
    assume c': "1 \<le> c' \<and> c' < 40"
    show "bin_ok ?own (g_place g) (((g_cache g)(t := (g_cache g t)(c := R))) t' c')
        (((lr_TCache s)(t := (lr_TCache s t)(c := bin))) t' c') m t' c'"
    proof (cases "t' = t \<and> c' = c")
      case True
      have "x \<notin> blocks c b" if "x \<in> set R" for x using place [of x] pr(2,3) that by auto
      then have "set R = {x. in_small ?own c x \<and> g_place g x = InCache t}"
        unfolding ins using pr(7) Pb by auto
      then have "bin_ok ?own (g_place g) R bin m t c"
        unfolding bin_ok_def using bin mR pr(2,5) by (intro conjI) auto
      then show ?thesis using True by simp
    next
      case False
      have nb: "y \<notin> blocks c b" if "in_small (g_own g) c' y" "g_place g y = InCache t'" for y
        using place [of y] pr(1) [of y] in_small_unique [OF assms(1), of c y c'] that False by auto
      then have "{y. in_small ?own c' y \<and> g_place g y = InCache t'} = {y. in_small (g_own g) c' y \<and> g_place g y = InCache t'}"
        unfolding ins by blast
      then have "bin_ok ?own (g_place g) (g_cache g t' c') (lr_TCache s t' c') (lr_bytes s) t' c'"
        using lr_inv_bin [OF assms(1), of c' t'] c' by (simp add: bin_ok_def)
      then have "bin_ok ?own (g_place g) (g_cache g t' c') (lr_TCache s t' c') m t' c'"
      proof (rule bin_ok_mem)
        fix y
        assume "y \<in> set (g_cache g t' c')"
        then have y: "tracked g y" "in_small (g_own g) c' y" "g_place g y = InCache t'"
          using cache_tracked [OF assms(1), of c' y t'] c' by auto
        then show "load64 m y = load64 (lr_bytes s) y" using mem nb Pb by blast
      qed
      then show ?thesis using False by auto
    qed
  qed
  ultimately show "lr_inv (g_drain t c b R g) (set_bin t c bin (s\<lparr>lr_bytes := m, lr_descs := ?ds\<rparr>))"
    unfolding lr_inv_def g_drain_def by (simp add: set_bin_def inv_init_def del: fun_upd_apply)
  have "in_small ?own c' x \<and> g_place g x = InUse \<longleftrightarrow> in_small (g_own g) c' x \<and> g_place g x = InUse" for c' x
    using place [of x] pr(1) [of x] unfolding ins by auto
  then show "lr_held (g_drain t c b R g) = lr_held g"
    using la by (intro lr_held_cong) (simp_all add: g_drain_def del: fun_upd_apply)
qed

end
