(* ===== verification/LrFlushRun.thy ===== *)
theory LrFlushRun
  imports LrFlush
begin

text \<open>
  The run of \<^verbatim>\<open>FlushCache\<close>: an iteration, its two outcomes, the loop, and the end of a thread, which
  flushes all its caches.
\<close>

subsection \<open>Stores into free blocks\<close>

lemma tracked_held_apart:
  assumes "lr_inv g s" and x: "in_small (g_own g) c x" "g_place g x \<noteq> InUse" and y: "lr_held g y n" and i: "i < n" and j: "j < 8"
  shows "y + of_nat i \<noteq> x + of_nat j"
proof -
  from x(1) obtain b d where b: "g_own g b = Some (OSmall d c)" "x \<in> blocks c b" unfolding in_small_def by blast
  note pl = lr_inv_small(2) [OF assms(1) b(1)]
  have c: "1 \<le> c" "c < 40" using sb_place_class [OF pl] by auto
  have x8: "unat b \<le> unat x" "unat x + 8 \<le> unat b + lsb c"
    using block_facts(2,3) [OF b(2) pl] lr_class_facts(1) [OF c] by auto
  obtain b' w where w: "g_own g b' = Some w" "unat b' \<le> unat y" "unat y + n \<le> unat b' + osize w"
    "(\<exists>d c. w = OSmall d c \<and> y \<in> blocks c b' \<and> n = lbs c \<and> sb_place c b') \<or> (\<exists>d m. w = OLarge d m y)"
    using held_range [OF assms(1) y] by blast
  have "unat x + 8 \<le> unat y \<or> unat y + n \<le> unat x"
  proof (cases "b' = b")
    case True
    then have yb: "y \<in> blocks c b" "n = lbs c" using w(1,4) b(1) by auto
    have "y \<noteq> x" using y held_small [OF assms(1) x(1), of n] x(2) by auto
    then show ?thesis using same_block [OF b(2) yb(1) pl] lr_class_facts(1) [OF c] yb(2) by auto
  next
    case False
    have "unat b + lsb c \<le> unat b' \<or> unat b' + osize w \<le> unat b"
      using owner_disjoint [OF lr_invD(1) [OF assms(1)] b(1) w(1)] False by auto
    then show ?thesis using x8 w(2,3) by linarith
  qed
  then show ?thesis
    using held_byte [OF assms(1) y i] aligned8_bytes [OF block_access(3) [OF assms(1) x(1)] j] i j by auto
qed

lemma store_tracked_keeps:
  assumes "lr_inv g s" and x: "in_small (g_own g) c x" "g_place g x \<noteq> InUse"
  shows "lr_keeps g (lr_bytes s) (store64 (lr_bytes s) x v)"
  unfolding lr_keeps_def using tracked_held_apart [OF assms] store64_other by blast

lemma blist_store_last:
  assumes "blist m P" and "distinct P" and "P \<noteq> []" and "\<And>x. x \<in> set P \<Longrightarrow> aligned8 x"
  shows "blist (store64 m (last P) v) P"
  using assms
proof (induction P)
  case (Cons x P)
  show ?case
  proof (cases "P = []")
    case False
    then have "load64 (store64 m (last P) v) x = load64 m x"
      using Cons.prems by (intro load64_store64_other) auto
    then show ?thesis using Cons False by (simp add: blist_Cons)
  qed simp
qed simp

subsection \<open>The blocks an iteration returns\<close>

text \<open>
  The facts an iteration starts from: the cache is \<open>P @ R\<close>, and \<open>P\<close> are the blocks of the
  superblock \<open>b\<close> at its head.
\<close>

definition flush_at :: "nat \<Rightarrow> nat \<Rightarrow> addr \<Rightarrow> addr \<Rightarrow> addr list \<Rightarrow> addr list \<Rightarrow> lr_ghost \<Rightarrow> lr_state \<Rightarrow> bool" where
  "flush_at t c b d P R g s \<longleftrightarrow> lr_inv g s \<and> g_own g b = Some (OSmall d c) \<and> g_cache g t c = P @ R
     \<and> P \<noteq> [] \<and> set P \<subseteq> blocks c b
     \<and> P = takeWhile (within b (lsb c)) (P @ R)"

lemma flush_at_exists:
  assumes "lr_inv g s" and c: "1 \<le> c" "c < 40" and "g_cache g t c \<noteq> []"
  shows "\<exists>b d P R. flush_at t c b d P R g s"
proof -
  let ?L = "g_cache g t c"
  have "hd ?L \<in> set ?L" using assms(4) by simp
  then obtain b d where b: "g_own g b = Some (OSmall d c)" "hd ?L \<in> blocks c b"
    using cache_tracked(2) [OF assms(1) c] unfolding in_small_def by blast
  note pl = lr_inv_small(2) [OF assms(1) b(1)]
  let ?P = "takeWhile (within b (lsb c)) ?L" and ?R = "dropWhile (within b (lsb c)) ?L"
  have "?P \<noteq> []" using block_facts(4) [OF b(2) pl] assms(4) by (cases ?L) auto
  moreover have "x \<in> blocks c b" if x: "x \<in> set ?P" for x
  proof -
    have xw: "within b (lsb c) x" "x \<in> set ?L" using x set_takeWhileD by fast+
    then obtain b' d' where b': "g_own g b' = Some (OSmall d' c)" "x \<in> blocks c b'"
      using cache_tracked(2) [OF assms(1) c] unfolding in_small_def by blast
    have "within b' (lsb c) x" by (rule block_facts(4) [OF b'(2) lr_inv_small(2) [OF assms(1) b'(1)]])
    then have "b' = b"
      using owner_unique [OF lr_invD(1) [OF assms(1)] b(1) b'(1), of "unat x"] xw(1) by (simp add: within_def)
    then show ?thesis using b' by simp
  qed
  ultimately have "flush_at t c b d ?P ?R g s" using assms(1) b(1) unfolding flush_at_def by auto
  then show ?thesis by blast
qed

lemma flush_atD:
  assumes "flush_at t c b d P R g s"
  shows "lr_inv g s" and "g_own g b = Some (OSmall d c)" and "g_cache g t c = P @ R" and "P \<noteq> []"
    and "set P \<subseteq> blocks c b" and "P = takeWhile (within b (lsb c)) (P @ R)" and "sb_place c b"
    and "1 \<le> c" and "c < 40"
  using assms lr_inv_small(2) [of g s b d c] sb_place_class [of c b] unfolding flush_at_def by blast+

subsection \<open>One iteration\<close>

definition new_anchor :: "nat \<Rightarrow> nat \<Rightarrow> nat \<Rightarrow> lr_Anchor \<Rightarrow> lr_Anchor" where
  "new_anchor c n k a =
     (let new1 = a\<lparr>an_avail := ucast (of_nat k :: u32)\<rparr>;
          new2 = (if an_state a = LR_SB_FULL then new1\<lparr>an_state := LR_SB_PARTIAL\<rparr> else new1)
      in if ucast (an_count a) + of_nat n = (of_nat (lnum c) :: u32)
         then new2\<lparr>an_count := ucast (of_nat (lnum c) - 1 :: u32), an_state := LR_SB_EMPTY\<rparr>
         else new2\<lparr>an_count := an_count new2 + ucast (of_nat n :: u32)\<rparr>)"

definition flushed_mem :: "nat \<Rightarrow> addr \<Rightarrow> addr list \<Rightarrow> lr_Anchor \<Rightarrow> memory \<Rightarrow> memory" where
  "flushed_mem c b P a m = store64 m (last P) (b + ucast (ucast (an_avail a) * of_nat (lbs c) :: u32))"

definition flushed_bin :: "addr list \<Rightarrow> addr list \<Rightarrow> memory \<Rightarrow> lr_TCacheBin" where
  "flushed_bin P R m = \<lparr>tc_block = load64 m (last P), tc_blockNum = of_nat (length R)\<rparr>"

lemma set_bin_simps [simp]:
  "lr_maps (set_bin t c bin s) = lr_maps s" "lr_descs (set_bin t c bin s) = lr_descs s"
  "lr_bytes (set_bin t c bin s) = lr_bytes s" "Heaps (set_bin t c bin s) = Heaps s"
  "SizeClasses (set_bin t c bin s) = SizeClasses s" "pm_base (set_bin t c bin s) = pm_base s"
  "pm_entry (set_bin t c bin s) = pm_entry s"
  by (simp_all add: set_bin_def)

lemma set_bin_update:
  "(set_bin t c bin s)\<lparr>lr_bytes := m, lr_descs := ds\<rparr> = set_bin t c bin (s\<lparr>lr_bytes := m, lr_descs := ds\<rparr>)"
  by (cases s) (simp add: set_bin_def)

lemma flush_iter_run:
  assumes fa: "flush_at t c b d P R g s" and k: "k < lnum c" "hd P = blk c b k"
  defines "v \<equiv> lr_descs s d"
  defines "a \<equiv> ds_anchor v" and "a' \<equiv> new_anchor c (length P) k (ds_anchor v)"
  defines "s2 \<equiv> set_bin t c (flushed_bin P R (lr_bytes s))
     (s\<lparr>lr_bytes := flushed_mem c b P a (lr_bytes s), lr_descs := (lr_descs s)(d := v\<lparr>ds_anchor := a'\<rparr>)\<rparr>)"
  shows "FlushCache_iter t c s =
    (if an_state a' = LR_SB_EMPTY then
       rbind (UnregisterDesc (Some c) b s2) (\<lambda>s3. PageFree b (ucast (sbSize (GetSizeClass_heap c s3))) s3)
     else if an_state a = LR_SB_FULL then HeapPushPartial d s2 else Inr s2)"
proof -
  note D = flush_atD [OF fa]
  note sm = lr_inv_small(1) [OF D(1,2), unfolded small_ok_def] and m = lr_invD(1) [OF D(1)]
  note pr = cache_prefix [OF D(1) D(8,9) D(3)] and cw = class_words [OF lr_inv_init(2) [OF D(1)] D(8,9)]
  have da: "ldesc_at (g_own g) d" "al64 d" using lr_inv_small(3) [OF D(1,2)] desc_at_al64 [OF m] by auto
  have hd: "hd P \<in> blocks c b" "hd (P @ R) = hd P" "last P \<in> set P" using D(4,5) by auto
  have peek: "PeekBlock (lr_TCache s t c) = hd P"
    using lr_inv_bin [OF D(1) D(8,9), of t] D(3,4) by (simp add: bin_ok_def PeekBlock_def)
  have "pm_entry s (AddrToKey (hd P)) = d OR of_nat c"
    using sm block_facts(4) [OF hd(1) D(7)] by blast
  then have info: "GetPageInfoForPtr (hd P) s = Inr (d OR of_nat c)"
    using page_access(1) [OF m lr_inv_init(4) [OF D(1)]] by (simp add: GetPageInfoForPtr_def)
  have c64: "c < 64" using D(9) by simp
  have get: "get_desc d s' = Inr (lr_descs s' d)" if "lr_maps s' = lr_maps s" for s'
    by (rule desc_access(1) [where own = "g_own g"]) (use that m da in simp_all)
  have len: "length (P @ R) \<le> 8192" using pr(5) lr_class_facts(9) [OF D(8,9)] by linarith
  have L1: "1 \<le> length P" using D(4) by (cases P) auto
  have "same_superblock s b (of_nat (lsb c)) (of_nat (length (P @ R))) (of_nat 1) ((P @ R) ! (1 - 1))
      = Inr (of_nat (length P), (P @ R) ! (length P - 1))"
    by (rule same_superblock_run [OF D(1,7)])
      (use pr(1,3,4) len L1 D(6) in \<open>auto simp del: length_append\<close>)
  moreover have "(P @ R) ! (length P - 1) = last P" using D(4) by (simp add: nth_append last_conv_nth)
  moreover have "(P @ R) ! (1 - 1) = hd P" using D(4) by (simp add: hd_conv_nth nth_append)
  ultimately have run: "same_superblock s b (of_nat (lsb c)) (of_nat (length (P @ R))) 1 (hd P)
      = Inr (of_nat (length P), last P)" by simp
  have lastb: "in_small (g_own g) c (last P)" using pr(1) [OF hd(3)] by blast
  have lw: "load_word (last P) s = Inr (load64 (lr_bytes s) (last P))"
    by (rule block_access(1) [OF D(1) lastb])
  have st: "store_word (last P) w (set_bin t c bin s)
      = Inr ((set_bin t c bin s)\<lparr>lr_bytes := store64 (lr_bytes s) (last P) w\<rparr>)" for w bin
    using block_access(2) [OF D(1) lastb, of w]
    by (auto simp: store_word_def touch_def mapped_def set_bin_def split: if_splits)
  have sbw: "sbSize (SizeClasses s ! c) = of_nat (lsb c)"
    using cw(2,4) lr_inv_init(2) [OF D(1)] unat_class [OF D(8,9)] lr_class_facts(5) [OF D(8,9)]
    by (simp add: word_unat_eq_iff unat_of_nat32)
  have "of_nat (length (P @ R)) - of_nat (length P) = (of_nat (length R) :: u32)" by simp
  then have pop: "PopList t c (load64 (lr_bytes s) (last P)) (of_nat (length P)) s
      = Inr (set_bin t c (flushed_bin P R (lr_bytes s)) s)"
    using pr(6) by (simp add: PopList_def flushed_bin_def Let_def)
  have body: "flush_body d b (of_nat (lbs c)) (last P) (of_nat k) (of_nat (length P)) a
        (set_bin t c (flushed_bin P R (lr_bytes s)) s)
      = Inr (a', (set_bin t c (flushed_bin P R (lr_bytes s)) s)\<lparr>lr_bytes := flushed_mem c b P a (lr_bytes s)\<rparr>)"
    using sm by (simp add: flush_body_def Let_def st get flushed_mem_def a_def a'_def v_def new_anchor_def)
  have "cas_loop CAS_FUEL (flush_body d b (of_nat (lbs c)) (last P) (of_nat k) (of_nat (length P)))
        (lr_anchor_cas d) a (set_bin t c (flushed_bin P R (lr_bytes s)) s) = Inr (a, a', s2)"
    unfolding CAS_FUEL_def numeral_2_eq_2
    by (rule cas_loop_first, rule body)
      (simp add: lr_anchor_cas_def Let_def s2_def set_bin_update [symmetric] a_def v_def)
  then show ?thesis
    unfolding FlushCache_iter_def
    using peek info da(2) c64 get [of s] run lw pop ComputeIdx_ok [OF D(7) k(1)] k(2) sbw cw(1) sm pr(6)
    by (simp add: Let_def GetBlockNum_def a_def v_def)
qed

lemma flush_lists:
  assumes fa: "flush_at t c b d P R g s"
  shows "distinct (P @ g_free g d)" and "set (P @ g_free g d) \<subseteq> blocks c b"
    and "length (P @ g_free g d) \<le> lnum c" and "x \<in> set P \<Longrightarrow> in_small (g_own g) c x \<and> g_place g x = InCache t \<and> aligned8 x"
    and "length (P @ g_free g d) = lnum c \<Longrightarrow> set P \<union> set (g_free g d) = blocks c b"
proof -
  note D = flush_atD [OF fa]
  note sm = lr_inv_small(1) [OF D(1,2), unfolded small_ok_def] and pr = cache_prefix [OF D(1) D(8,9) D(3)]
  show P: "x \<in> set P \<Longrightarrow> in_small (g_own g) c x \<and> g_place g x = InCache t \<and> aligned8 x" for x
    using pr(1) [of x] in_small_class [OF D(1)] by blast
  have "y \<notin> set P" if "y \<in> set (g_free g d)" for y using free_tracked(3) [OF D(1,2) that] P [of y] by auto
  then show dist: "distinct (P @ g_free g d)" using pr(2) sm by auto
  show sub: "set (P @ g_free g d) \<subseteq> blocks c b" using D(5) free_tracked(2) [OF D(1,2)] by auto
  show "length (P @ g_free g d) \<le> lnum c"
    using card_mono [OF finite_blocks sub] distinct_card [OF dist] card_blocks [OF D(7)] by simp
  show "set P \<union> set (g_free g d) = blocks c b" if "length (P @ g_free g d) = lnum c"
    using card_subset_eq [OF finite_blocks sub] distinct_card [OF dist] card_blocks [OF D(7)] that by simp
qed

lemma flush_memory:
  assumes fa: "flush_at t c b d P R g s"
  defines "m \<equiv> flushed_mem c b P (ds_anchor (lr_descs s d)) (lr_bytes s)"
  shows "blist m (P @ g_free g d)" and "blist m R"
    and "tracked g y \<Longrightarrow> y \<notin> set P \<Longrightarrow> load64 m y = load64 (lr_bytes s) y"
    and "lr_keeps g (lr_bytes s) m" and "R \<noteq> [] \<longrightarrow> tc_block (flushed_bin P R (lr_bytes s)) = hd R"
proof -
  let ?F = "g_free g d" and ?a = "ds_anchor (lr_descs s d)"
  let ?w = "b + ucast (ucast (an_avail ?a) * of_nat (lbs c) :: u32)"
  note D = flush_atD [OF fa] and P = flush_lists [OF fa]
  note sm = lr_inv_small(1) [OF D(1,2), unfolded small_ok_def] and pr = cache_prefix [OF D(1) D(8,9) D(3)]
  have l: "last P \<in> set P" using D(4) by simp
  have m: "m = store64 (lr_bytes s) (last P) ?w" by (simp add: m_def flushed_mem_def)
  show mem: "load64 m y = load64 (lr_bytes s) y" if "tracked g y" "y \<notin> set P" for y
    unfolding m using P(4) [OF l] that l in_small_class [OF D(1)]
    by (intro load64_store64_other) (auto simp: tracked_def)
  have b: "blist (lr_bytes s) P" "blist (lr_bytes s) R" "R \<noteq> [] \<Longrightarrow> load64 (lr_bytes s) (last P) = hd R"
    using pr(4) D(4) by (simp_all add: blist_append)
  have "blist m P" unfolding m using b(1) pr(2) D(4) P(4) by (intro blist_store_last) auto
  moreover have "blist m ?F = blist (lr_bytes s) ?F"
    using P(1) free_tracked(1) [OF D(1,2)] by (intro blist_cong mem) auto
  then have "blist m ?F" using sm by simp
  moreover have "load64 m (last P) = hd ?F" if "?F \<noteq> []"
  proof -
    have "?w = hd ?F"
      using sm that blk_word [OF D(7), of "ucast (an_avail ?a)"] by (simp add: anchor_ok_def)
    then show ?thesis using P(4) [OF l] by (simp add: m)
  qed
  ultimately show "blist m (P @ ?F)" by (simp add: blist_append)
  have "blist m R = blist (lr_bytes s) R"
  proof (rule blist_cong)
    fix x assume "x \<in> set R"
    then show "load64 m x = load64 (lr_bytes s) x"
      using mem [of x] pr(2) pr(3) [of x] by (auto simp: tracked_def)
  qed
  then show "blist m R" using b(2) by simp
  show "lr_keeps g (lr_bytes s) m"
    unfolding m using P(4) [OF l] by (intro store_tracked_keeps [OF D(1), of c]) auto
  show "R \<noteq> [] \<longrightarrow> tc_block (flushed_bin P R (lr_bytes s)) = hd R" using b(3) by (simp add: flushed_bin_def)
qed

lemma new_anchor_ok:
  assumes fa: "flush_at t c b d P R g s" and k: "k < lnum c" "hd P = blk c b k"
  defines "a' \<equiv> new_anchor c (length P) k (ds_anchor (lr_descs s d))"
  shows "an_state a' = LR_SB_EMPTY \<longleftrightarrow> length (P @ g_free g d) = lnum c"
    and "length (P @ g_free g d) < lnum c \<Longrightarrow> anchor_ok c b (P @ g_free g d) a'"
proof -
  let ?F = "g_free g d" and ?a = "ds_anchor (lr_descs s d)"
  note D = flush_atD [OF fa] and P = flush_lists [OF fa]
  have "anchor_ok c b ?F ?a" using lr_inv_small(1) [OF D(1,2)] unfolding small_ok_def by blast
  then have a: "unat (an_count ?a) = length ?F" "an_state ?a = (if ?F = [] then LR_SB_FULL else LR_SB_PARTIAL)"
    by (cases "?F = []"; simp add: anchor_ok_def)+
  have l: "length P + length ?F \<le> 8192" "lnum c \<le> 8192" using P(3) lr_class_facts(9) [OF D(8,9)] by auto
  then have cnt: "(ucast (an_count ?a) :: u32) = of_nat (length ?F)"
    using a(1) by (simp add: word_unat_eq_iff unat_of_nat32)
  have "unat (of_nat (length ?F) + of_nat (length P) :: u32) = length (P @ ?F)"
    using l by (simp add: unat_of_nat32 add.commute flip: of_nat_add)
  moreover have "unat (of_nat (lnum c) :: u32) = lnum c" using l by (simp add: unat_of_nat32)
  ultimately have eq: "ucast (an_count ?a) + of_nat (length P) = (of_nat (lnum c) :: u32) \<longleftrightarrow> length (P @ ?F) = lnum c"
    unfolding cnt word_unat_eq_iff by (simp only:)
  show "an_state a' = LR_SB_EMPTY \<longleftrightarrow> length (P @ ?F) = lnum c"
    using eq a(2) by (simp add: a'_def new_anchor_def Let_def)
  have u31: "unat (ucast (of_nat n :: u32) :: 31 word) = n" if "n \<le> 8192" for n
    using that by (simp only: unsigned_ucast_eq) (simp add: unat_of_nat32 take_bit_nat_eq_self)
  have "unat (an_count ?a + ucast (of_nat (length P) :: u32)) = length ?F + length P"
    using a(1) u31 [of "length P"] l by (simp add: unat_word_ariths)
  then show "anchor_ok c b (P @ ?F) a'" if "length (P @ ?F) < lnum c"
    using that eq a(2) D(4) k l u31 [of k] by (simp add: a'_def new_anchor_def Let_def anchor_ok_def)
qed

subsection \<open>The superblock keeps blocks in use\<close>

lemma HeapPushPartial_run:
  assumes "inv_maps own (lr_maps s)" and "ldesc_at own d" and "ds_heap (lr_descs s d) = Some c"
  defines "w \<equiv> ph_partialList (Heaps s c)"
  shows "HeapPushPartial d s = Inr (set_heap c (d OR ((GetCounter w + 1) AND 63))
     (s\<lparr>lr_descs := (lr_descs s)(d := (lr_descs s d)\<lparr>ds_nextPartial := w\<rparr>)\<rparr>))"
proof -
  have d: "al64 d" using desc_at_al64 [OF assms(1,2)] by blast
  have get: "get_desc d s = Inr (lr_descs s d)" by (rule desc_access(1) [OF assms(1,2)])
  have upd: "upd_desc d f s = Inr (s\<lparr>lr_descs := (lr_descs s)(d := f (lr_descs s d))\<rparr>)" for f
    by (rule desc_access(2) [OF assms(1,2)])
  show ?thesis
    using d get upd assms(3)
    by (simp add: HeapPushPartial_def ListPushPartial_def push_partial_body_def partialList_cas_def
        CAS_FUEL_def numeral_2_eq_2 Let_def w_def)
qed

definition small_used :: "lr_ghost \<Rightarrow> nat \<Rightarrow> addr \<Rightarrow> bool" where
  "small_used g c x \<longleftrightarrow> in_small (g_own g) c x \<and> g_place g x = InUse"

definition flushed :: "nat \<Rightarrow> nat \<Rightarrow> addr list \<Rightarrow> lr_ghost \<Rightarrow> lr_state \<Rightarrow> lr_ghost \<Rightarrow> lr_state \<Rightarrow> bool" where
  "flushed t c R g s g' s' \<longleftrightarrow> lr_inv g' s' \<and> lr_held g' = lr_held g \<and> lr_keeps g (lr_bytes s) (lr_bytes s')
     \<and> g_cache g' = (g_cache g)(t := (g_cache g t)(c := R)) \<and> small_used g' = small_used g"

lemma flush_other_part:
  assumes fa: "flush_at t c b d P R g s" and "c' < 40" and "c' \<noteq> c" and "e \<in> set (g_part g c')"
  shows "((lr_descs s)(d := v)) e = lr_descs s e"
proof -
  note D = flush_atD [OF fa]
  have "ds_heap (lr_descs s d) = Some c" using lr_inv_small(1) [OF D(1,2)] unfolding small_ok_def by blast
  moreover have "ds_heap (lr_descs s e) = Some c'" using lr_inv_part(3) [OF D(1) assms(2,4)] by blast
  ultimately have "e \<noteq> d" using assms(3) by auto
  then show ?thesis by simp
qed

lemma flush_done:
  assumes fa: "flush_at t c b d P R g s" and short: "length (P @ g_free g d) < lnum c"
    and a: "anchor_ok c b (P @ g_free g d) a"
    and part: "inv_part (g_own g) (g_avail g) ((g_part g)(c := part'))
        ((Heaps s)(c := (Heaps s c)\<lparr>ph_partialList := w\<rparr>))
        ((lr_descs s)(d := (lr_descs s d)\<lparr>ds_anchor := a, ds_nextPartial := nx\<rparr>))"
      "d \<in> set part'" "set (g_part g c) \<subseteq> set part'"
  shows "flushed t c R g s (g_flush t c d P R part' g)
    (set_bin t c (flushed_bin P R (lr_bytes s))
      (s\<lparr>lr_bytes := flushed_mem c b P (ds_anchor (lr_descs s d)) (lr_bytes s),
         lr_descs := (lr_descs s)(d := (lr_descs s d)\<lparr>ds_anchor := a, ds_nextPartial := nx\<rparr>),
         Heaps := (Heaps s)(c := (Heaps s c)\<lparr>ph_partialList := w\<rparr>)\<rparr>))"
    (is "flushed t c R g s ?g (set_bin t c ?bin (s\<lparr>lr_bytes := ?m, lr_descs := (lr_descs s)(d := ?v), Heaps := ?hs\<rparr>))")
proof -
  note D = flush_atD [OF fa] and mem = flush_memory [OF fa]
  have v: "ds_superblock ?v = b" "ds_heap ?v = Some c" "ds_blockSize ?v = of_nat (lbs c)"
    "ds_maxcount ?v = of_nat (lnum c)"
    using lr_inv_small(1) [OF D(1,2)] unfolding small_ok_def by auto
  have v': "ds_nextFree ?v = ds_nextFree (lr_descs s d)" "anchor_ok c b (P @ g_free g d) (ds_anchor ?v)"
    using a by simp_all
  have scx: "\<forall>c' < 40. ph_scIdx (?hs c') = c'" using lr_inv_init(5) [OF D(1)] by auto
  have num: "tc_blockNum ?bin = of_nat (length R)" by (simp add: flushed_bin_def)
  note fl = lr_inv_flush [OF D(1,2,3,5,4) short mem(1-3) v v' part scx num mem(5)]
  have inv: "lr_inv ?g (set_bin t c ?bin (s\<lparr>lr_bytes := ?m, lr_descs := (lr_descs s)(d := ?v), Heaps := ?hs\<rparr>))"
    and held: "lr_held ?g = lr_held g"
    by (rule fl; assumption)+
  have used: "small_used ?g = small_used g"
  proof (intro ext)
    fix c' x
    show "small_used ?g c' x = small_used g c' x"
      using flush_lists(4) [OF fa, of x] by (auto simp: small_used_def g_flush_def)
  qed
  have "g_cache ?g = (g_cache g)(t := (g_cache g t)(c := R))" by (simp add: g_flush_def)
  then show ?thesis unfolding flushed_def using inv held used mem(4) by simp
qed

lemma flush_pushed:
  assumes fa: "flush_at t c b d P R g s" and k: "k < lnum c" "hd P = blk c b k"
    and short: "length (P @ g_free g d) < lnum c" and F: "g_free g d = []"
  shows "\<exists>g' s'. FlushCache_iter t c s = Inr s' \<and> flushed t c R g s g' s'"
proof -
  let ?v = "lr_descs s d" and ?bin = "flushed_bin P R (lr_bytes s)" and ?w = "ph_partialList (Heaps s c)"
  let ?a = "new_anchor c (length P) k (ds_anchor ?v)" and ?m = "flushed_mem c b P (ds_anchor ?v) (lr_bytes s)"
  let ?s2 = "set_bin t c ?bin (s\<lparr>lr_bytes := ?m, lr_descs := (lr_descs s)(d := ?v\<lparr>ds_anchor := ?a\<rparr>)\<rparr>)"
  let ?v2 = "?v\<lparr>ds_anchor := ?a, ds_nextPartial := ?w\<rparr>" and ?w' = "d OR ((GetCounter ?w + 1) AND 63)"
  let ?hs = "(Heaps s)(c := (Heaps s c)\<lparr>ph_partialList := ?w'\<rparr>)" and ?part = "d # g_part g c"
  let ?s3 = "set_bin t c ?bin (s\<lparr>lr_bytes := ?m, lr_descs := (lr_descs s)(d := ?v2), Heaps := ?hs\<rparr>)"
  note D = flush_atD [OF fa] and na = new_anchor_ok [OF fa k]
  note sm = lr_inv_small(1) [OF D(1,2), unfolded small_ok_def] and pt = lr_inv_part [OF D(1,9)]
  have own: "owns (g_own g) d" by (rule owns_small [where own = "g_own g", OF D(2)])
  have st: "an_state ?a \<noteq> LR_SB_EMPTY" "an_state ?a = LR_SB_PARTIAL"
    using na short D(4) by (simp_all add: anchor_ok_def)
  have full: "an_state (ds_anchor ?v) = LR_SB_FULL" using sm F by (simp add: anchor_ok_def)
  have nd: "d \<notin> set (g_part g c)" using pt(3) [of d] full own by auto
  have da: "ldesc_at (g_own g) d" "al64 d" "d \<noteq> 0"
    using lr_inv_small(3) [OF D(1,2)] desc_at_al64 [OF lr_invD(1) [OF D(1)]] by auto
  have hp: "ds_heap ?v = Some c" using sm by blast
  have "HeapPushPartial d ?s2 = Inr (set_heap c ?w' (?s2\<lparr>lr_descs := (lr_descs s)(d := ?v2)\<rparr>))"
    using HeapPushPartial_run [of "g_own g" ?s2 d c] lr_invD(1) [OF D(1)] da(1) hp by simp
  also have "set_heap c ?w' (?s2\<lparr>lr_descs := (lr_descs s)(d := ?v2)\<rparr>) = ?s3"
    by (cases s) (simp add: set_heap_def set_bin_def)
  finally have push: "HeapPushPartial d ?s2 = Inr ?s3" .
  have run: "FlushCache_iter t c s = Inr ?s3"
    unfolding flush_iter_run [OF fa k] if_not_P [OF st(1)] if_P [OF full] by (rule push)
  have "inv_part (g_own g) (g_avail g) ((g_part g)(c := ?part)) ?hs ((lr_descs s)(d := ?v2))"
  proof (rule inv_part_set [OF D(1,9)])
    have "dlist (\<lambda>e. ds_nextPartial (((lr_descs s)(d := ?v2)) e)) ?w (g_part g c)
        = dlist (\<lambda>e. ds_nextPartial (lr_descs s e)) ?w (g_part g c)"
      using nd by (intro dlist_cong) auto
    then show "dlist (\<lambda>e. ds_nextPartial (((lr_descs s)(d := ?v2)) e)) ?w' ?part"
      using pt(1) da by simp
    show "distinct ?part" using pt(2) nd by simp
    show "ldesc_at (g_own g) e \<and> e \<notin> set (g_avail g) \<and> ds_heap (((lr_descs s)(d := ?v2)) e) = Some c
        \<and> an_state (ds_anchor (((lr_descs s)(d := ?v2)) e)) = (if owns (g_own g) e then LR_SB_PARTIAL else LR_SB_EMPTY)"
      if e: "e \<in> set ?part" for e
    proof (cases "e = d")
      case True
      have "d \<notin> set (g_avail g)" using avail_not_listed [OF D(1), of d] own by blast
      then show ?thesis using True da(1) hp own st(2) by simp
    next
      case False
      then show ?thesis using e pt(3) [of e] by simp
    qed
  qed (rule flush_other_part [OF fa])
  then show ?thesis using run flush_done [OF fa short na(2) [OF short], of ?part ?w' ?w] by auto
qed

lemma flush_same:
  assumes fa: "flush_at t c b d P R g s" and k: "k < lnum c" "hd P = blk c b k"
    and short: "length (P @ g_free g d) < lnum c" and F: "g_free g d \<noteq> []"
  shows "\<exists>g' s'. FlushCache_iter t c s = Inr s' \<and> flushed t c R g s g' s'"
proof -
  let ?v = "lr_descs s d" and ?bin = "flushed_bin P R (lr_bytes s)" and ?w = "ph_partialList (Heaps s c)"
  let ?a = "new_anchor c (length P) k (ds_anchor ?v)" and ?m = "flushed_mem c b P (ds_anchor ?v) (lr_bytes s)"
  let ?v1 = "?v\<lparr>ds_anchor := ?a, ds_nextPartial := ds_nextPartial ?v\<rparr>"
  note D = flush_atD [OF fa] and na = new_anchor_ok [OF fa k]
  note sm = lr_inv_small(1) [OF D(1,2), unfolded small_ok_def] and pt = lr_inv_part [OF D(1,9)]
  have own: "owns (g_own g) d" by (rule owns_small [where own = "g_own g", OF D(2)])
  have st: "an_state ?a \<noteq> LR_SB_EMPTY" "an_state ?a = LR_SB_PARTIAL"
    using na short D(4) by (simp_all add: anchor_ok_def)
  have part: "an_state (ds_anchor ?v) \<noteq> LR_SB_FULL" "d \<in> set (g_part g c)" using sm F by (auto simp: anchor_ok_def)
  have "inv_part (g_own g) (g_avail g) ((g_part g)(c := g_part g c))
      ((Heaps s)(c := (Heaps s c)\<lparr>ph_partialList := ?w\<rparr>)) ((lr_descs s)(d := ?v1))"
  proof (rule inv_part_set [OF D(1,9)])
    have "dlist (\<lambda>e. ds_nextPartial (((lr_descs s)(d := ?v1)) e)) ?w (g_part g c)
        = dlist (\<lambda>e. ds_nextPartial (lr_descs s e)) ?w (g_part g c)"
      by (intro dlist_cong) auto
    then show "dlist (\<lambda>e. ds_nextPartial (((lr_descs s)(d := ?v1)) e)) ?w (g_part g c)" using pt(1) by simp
    show "ldesc_at (g_own g) e \<and> e \<notin> set (g_avail g) \<and> ds_heap (((lr_descs s)(d := ?v1)) e) = Some c
        \<and> an_state (ds_anchor (((lr_descs s)(d := ?v1)) e)) = (if owns (g_own g) e then LR_SB_PARTIAL else LR_SB_EMPTY)"
      if e: "e \<in> set (g_part g c)" for e
      using e pt(3) [of e] own st(2) by (cases "e = d") simp_all
  qed (rule pt(2), rule flush_other_part [OF fa])
  note fl = flush_done [OF fa short na(2) [OF short] this part(2) order.refl]
  have eq: "s\<lparr>lr_bytes := ?m, lr_descs := (lr_descs s)(d := ?v1),
      Heaps := (Heaps s)(c := (Heaps s c)\<lparr>ph_partialList := ?w\<rparr>)\<rparr>
    = s\<lparr>lr_bytes := ?m, lr_descs := (lr_descs s)(d := ?v\<lparr>ds_anchor := ?a\<rparr>)\<rparr>" by simp
  show ?thesis
    unfolding flush_iter_run [OF fa k] if_not_P [OF st(1)] if_not_P [OF part(1)]
    using fl [unfolded eq] by blast
qed

subsection \<open>The superblock has no block in use\<close>

text \<open>Unregistering and unmapping pages that nothing is in.\<close>

lemma PageFree_loose:
  assumes "lr_inv g s" and b: "g_own g b = Some (OLoose n)" and n: "n < 18446744073709551616"
  shows "PageFree b (of_nat n) s
      = Inr (s\<lparr>lr_maps := concat (map (cut_range (unat b) (unat b + n)) (lr_maps s))\<rparr>)"
    and "lr_inv (g\<lparr>g_own := (g_own g)(b := None)\<rparr>)
      (s\<lparr>lr_maps := concat (map (cut_range (unat b) (unat b + n)) (lr_maps s))\<rparr>)"
    and "lr_held (g\<lparr>g_own := (g_own g)(b := None)\<rparr>) = lr_held g"
proof -
  have u: "unat (of_nat n :: u64) = n" using n by (simp add: unat_of_nat64)
  have "0 < n" using inv_mapsD(3) [OF lr_invD(1) [OF assms(1)] b] by simp
  then have "(of_nat n :: u64) \<noteq> 0" using u by (metis less_numeral_extra(3) unat_0)
  then show "PageFree b (of_nat n) s
      = Inr (s\<lparr>lr_maps := concat (map (cut_range (unat b) (unat b + n)) (lr_maps s))\<rparr>)"
    using u by (simp add: PageFree_def munmap_def)
  have "inv_maps ((g_own g)(b := None)) (concat (map (cut_range (unat b) (unat b + n)) (lr_maps s)))"
    using inv_maps_cut [where own = "g_own g", OF lr_invD(1) [OF assms(1)] b] by simp
  then show "lr_inv (g\<lparr>g_own := (g_own g)(b := None)\<rparr>)
      (s\<lparr>lr_maps := concat (map (cut_range (unat b) (unat b + n)) (lr_maps s))\<rparr>)"
    using b by (intro lr_inv_neutral [OF assms(1)]) simp_all
  show "lr_held (g\<lparr>g_own := (g_own g)(b := None)\<rparr>) = lr_held g"
    using b by (intro held_neutral) simp_all
qed

lemma retire_superblock:
  assumes "lr_inv g s" and b: "g_own g b = Some (OLoose (lsb c))" and c: "1 \<le> c" "c < 40"
  shows "\<exists>s'. rbind (UnregisterDesc (Some c) b s) (\<lambda>s3. PageFree b (ucast (sbSize (GetSizeClass_heap c s3))) s3) = Inr s'
    \<and> lr_inv (g\<lparr>g_own := (g_own g)(b := None)\<rparr>) s' \<and> lr_held (g\<lparr>g_own := (g_own g)(b := None)\<rparr>) = lr_held g
    \<and> lr_bytes s' = lr_bytes s"
proof -
  note m = lr_invD(1) [OF assms(1)] and cw = class_words [OF lr_inv_init(2) [OF assms(1)] c]
  have pl: "sb_place c b" using inv_mapsD [OF m b] c by (simp add: sb_place_def)
  obtain pm where pm: "UpdatePageMap (Some c) b 0 0 s = Inr (s\<lparr>pm_entry := pm\<rparr>)"
    "\<forall>key. pm key \<noteq> pm_entry s key \<longrightarrow> (\<exists>y. within b (lsb c) y \<and> key = AddrToKey y)"
    using UpdatePageMap_small [OF m lr_inv_init(4) [OF assms(1)] pl lr_inv_init(2) [OF assms(1)] lr_inv_init(5) [OF assms(1) c(2)]]
    by blast
  have inv: "lr_inv g (s\<lparr>pm_entry := pm\<rparr>)"
    using pm(2) by (intro lr_inv_pm [OF assms(1) b]) simp_all
  have "ucast (sbSize (GetSizeClass_heap c (s\<lparr>pm_entry := pm\<rparr>))) = (of_nat (lsb c) :: u64)"
    using cw(2) lr_inv_init(5) [OF assms(1) c(2)] by (simp add: GetSizeClass_heap_def)
  moreover have "lsb c < 18446744073709551616" using lr_class_facts(5) [OF c] by simp
  ultimately show ?thesis
    using PageFree_loose [OF inv b] pm(1) by (auto simp: UnregisterDesc_def)
qed

lemma flush_emptied:
  assumes fa: "flush_at t c b d P R g s" and k: "k < lnum c" "hd P = blk c b k"
    and all: "length (P @ g_free g d) = lnum c"
  shows "\<exists>g' s'. FlushCache_iter t c s = Inr s' \<and> flushed t c R g s g' s'"
proof -
  let ?v = "lr_descs s d" and ?bin = "flushed_bin P R (lr_bytes s)"
  let ?a = "new_anchor c (length P) k (ds_anchor ?v)" and ?m = "flushed_mem c b P (ds_anchor ?v) (lr_bytes s)"
  let ?s2 = "set_bin t c ?bin (s\<lparr>lr_bytes := ?m, lr_descs := (lr_descs s)(d := ?v\<lparr>ds_anchor := ?a\<rparr>)\<rparr>)"
  let ?g2 = "g_drain t c b R g"
  let ?g3 = "?g2\<lparr>g_own := (g_own ?g2)(b := None)\<rparr>"
  note D = flush_atD [OF fa] and mem = flush_memory [OF fa] and L = flush_lists [OF fa]
  have st: "an_state ?a = LR_SB_EMPTY" using new_anchor_ok(1) [OF fa k] all by blast
  have num: "tc_blockNum ?bin = of_nat (length R)" by (simp add: flushed_bin_def)
  have "lr_inv ?g2 ?s2 \<and> lr_held ?g2 = lr_held g"
    using lr_inv_drain [OF D(1,2,3) L(5) [OF all] mem(2,3) _ _ _ _ num mem(5), where v = "?v\<lparr>ds_anchor := ?a\<rparr>"] st
    by simp
  then have inv: "lr_inv ?g2 ?s2" "lr_held ?g2 = lr_held g" by blast+
  have "g_own ?g2 b = Some (OLoose (lsb c))" by (simp add: g_drain_def)
  from retire_superblock [OF inv(1) this D(8,9)]
  obtain s' where s': "rbind (UnregisterDesc (Some c) b ?s2) (\<lambda>s3. PageFree b (ucast (sbSize (GetSizeClass_heap c s3))) s3) = Inr s'"
    "lr_inv ?g3 s'" "lr_held ?g3 = lr_held ?g2" "lr_bytes s' = lr_bytes ?s2" by blast
  have "lr_keeps g (lr_bytes s) (lr_bytes s')" using mem(4) s'(4) by simp
  moreover have "g_cache ?g3 = (g_cache g)(t := (g_cache g t)(c := R))" by (simp add: g_drain_def)
  moreover have "small_used ?g3 = small_used g"
  proof -
    have "in_small (g_own ?g3) = in_small (g_own ?g2)"
      using neutral_views(3) [of "g_own ?g2" b None] by (simp add: g_drain_def)
    moreover have "in_small (g_own ?g2) c' x \<longleftrightarrow> in_small (g_own g) c' x \<and> x \<notin> blocks c b" for c' x
      using in_small_drain [OF D(1,2)] by (simp add: g_drain_def)
    moreover have "g_place g x \<noteq> InUse" if x: "x \<in> blocks c b" for x
    proof -
      have "x \<in> set P \<or> x \<in> set (g_free g d)" using x L(5) [OF all] by blast
      then show ?thesis using L(4) [of x] free_tracked(3) [OF D(1,2), of x] by auto
    qed
    ultimately have "small_used ?g3 c' x = small_used g c' x" for c' x by (auto simp: small_used_def g_drain_def)
    then show ?thesis by blast
  qed
  ultimately have "flushed t c R g s ?g3 s'" unfolding flushed_def using s'(2,3) inv(2) by simp
  then show ?thesis unfolding flush_iter_run [OF fa k] if_P [OF st] using s'(1) by blast
qed

subsection \<open>The loop\<close>

lemma FlushCache_iter_ok:
  assumes "lr_inv g s" and c: "1 \<le> c" "c < 40" and ne: "g_cache g t c \<noteq> []"
  shows "\<exists>g' s' R. FlushCache_iter t c s = Inr s' \<and> flushed t c R g s g' s' \<and> length R < length (g_cache g t c)"
proof -
  obtain b d P R where fa: "flush_at t c b d P R g s" using flush_at_exists [OF assms] by blast
  note D = flush_atD [OF fa]
  have "hd P \<in> blocks c b" using D(4,5) by auto
  then obtain k where k: "k < lnum c" "hd P = blk c b k" using D(7) by (elim blocksE)
  have "length (P @ g_free g d) = lnum c \<or> length (P @ g_free g d) < lnum c"
    using flush_lists(3) [OF fa] by linarith
  then have "\<exists>g' s'. FlushCache_iter t c s = Inr s' \<and> flushed t c R g s g' s'"
    using flush_emptied [OF fa k] flush_pushed [OF fa k] flush_same [OF fa k] by blast
  moreover have "length R < length (g_cache g t c)" using D(3,4) by simp
  ultimately show ?thesis by blast
qed

lemma bin_count:
  assumes "lr_inv g s" and c: "1 \<le> c" "c < 40"
  shows "unat (GetBlockNum (lr_TCache s t c)) = length (g_cache g t c)"
  using lr_inv_bin [OF assms, of t] lr_class_facts(9) [OF c]
  by (simp add: bin_ok_def GetBlockNum_def unat_of_nat32)

lemma flushed_trans:
  assumes "flushed t c R g s g1 s1" and "flushed t c R' g1 s1 g2 s2"
  shows "flushed t c R' g s g2 s2"
  using assms lr_keeps_trans [of g "lr_bytes s" "lr_bytes s1" g1 "lr_bytes s2"] unfolding flushed_def by auto

lemma flushed_refl: "lr_inv g s \<Longrightarrow> flushed t c (g_cache g t c) g s g s"
  by (simp add: flushed_def)

lemma FlushCache_loop_ok:
  assumes "lr_inv g s" and c: "1 \<le> c" "c < 40" and "length (g_cache g t c) < n"
  shows "\<exists>g' s'. FlushCache_loop n t c s = Inr s' \<and> flushed t c [] g s g' s'"
  using assms(1,4)
proof (induction n arbitrary: g s)
  case (Suc n)
  have pos: "GetBlockNum (lr_TCache s t c) > 0 \<longleftrightarrow> g_cache g t c \<noteq> []"
    using bin_count [OF Suc.prems(1) c, of t] by (simp add: word_less_nat_alt)
  show ?case
  proof (cases "g_cache g t c = []")
    case True
    then show ?thesis using pos flushed_refl [OF Suc.prems(1), of t c] by auto
  next
    case False
    from FlushCache_iter_ok [OF Suc.prems(1) c False] obtain g1 s1 R where
      1: "FlushCache_iter t c s = Inr s1" "flushed t c R g s g1 s1" "length R < length (g_cache g t c)" by blast
    have "lr_inv g1 s1" "g_cache g1 t c = R" using 1(2) by (simp_all add: flushed_def)
    then obtain g2 s2 where "FlushCache_loop n t c s1 = Inr s2" "flushed t c [] g1 s1 g2 s2"
      using Suc.IH [of g1 s1] 1(3) Suc.prems(2) by auto
    then show ?thesis using 1(1) pos False flushed_trans [OF 1(2)] by auto
  qed
qed simp

lemma FlushCache_ok:
  assumes "lr_inv g s" and c: "1 \<le> c" "c < 40"
  shows "\<exists>g' s'. FlushCache t c s = Inr s' \<and> flushed t c [] g s g' s'"
  unfolding FlushCache_def
  by (rule FlushCache_loop_ok [OF assms]) (simp add: bin_count [OF assms])

text \<open>The caches of the classes below \<open>n\<close> of a thread have been emptied.\<close>

definition drained :: "nat \<Rightarrow> lr_ghost \<Rightarrow> lr_state \<Rightarrow> nat \<Rightarrow> lr_state \<Rightarrow> bool" where
  "drained t g s n s' \<longleftrightarrow> (\<exists>g'. lr_inv g' s' \<and> lr_held g' = lr_held g \<and> lr_keeps g (lr_bytes s) (lr_bytes s')
     \<and> (\<forall>c. 1 \<le> c \<and> c < n \<longrightarrow> g_cache g' t c = []) \<and> (\<forall>t'. t' \<noteq> t \<longrightarrow> g_cache g' t' = g_cache g t'))"

lemma thread_finalize_ok:
  assumes "lr_inv g s"
  shows "\<exists>s'. lf_malloc_thread_finalize t s = Inr s' \<and> drained t g s 40 s'"
proof -
  have "\<exists>s'. rfold (FlushCache t) [1..<40] s = Inr s' \<and> drained t g s 40 s'"
  proof (rule rfold_upt)
    show "drained t g s 1 s" unfolding drained_def using assms by (intro exI [of _ g]) auto
    fix c s1
    assume c: "1 \<le> c" "c < 40" and "drained t g s c s1"
    then obtain g1 where g1: "lr_inv g1 s1" "lr_held g1 = lr_held g" "lr_keeps g (lr_bytes s) (lr_bytes s1)"
      "\<forall>c'. 1 \<le> c' \<and> c' < c \<longrightarrow> g_cache g1 t c' = []" "\<forall>t'. t' \<noteq> t \<longrightarrow> g_cache g1 t' = g_cache g t'"
      unfolding drained_def by blast
    from FlushCache_ok [OF g1(1) c] obtain g2 s2 where 2: "FlushCache t c s1 = Inr s2" "flushed t c [] g1 s1 g2 s2"
      by blast
    then have "drained t g s (Suc c) s2"
      unfolding drained_def using g1(2-5) lr_keeps_trans [OF g1(3), of g1 "lr_bytes s2"]
      by (intro exI [of _ g2]) (auto simp: flushed_def less_Suc_eq)
    then show "\<exists>s'. FlushCache t c s1 = Inr s' \<and> drained t g s (Suc c) s'" using 2(1) by blast
  qed simp
  then show ?thesis by (simp add: lf_malloc_thread_finalize_def)
qed

end
