(* ===== verification/LrLarge.thy ===== *)
theory LrLarge
  imports LrFlushRun
begin

text \<open>
  Large blocks: a descriptor and pages of their own. The program may have an address inside the
  pages, when it asked for an alignment above a page; the page map then has an entry for the first
  page and one for the page of that address.
\<close>

subsection \<open>Pages become a large block, and back\<close>

lemma lr_inv_own_large:
  assumes "lr_inv g s" and l: "loose g d" and b: "g_own g b = Some (OLoose n)"
    and v: "ds_superblock (lr_descs s d) = b" "ds_heap (lr_descs s d) = None" "ds_blockSize (lr_descs s d) = of_nat n"
    and n: "n < 4294967296" "n mod 4096 = 0" and u: "within b n u" "unat u mod 4096 = 0"
    and pm: "pm_entry s (AddrToKey b) = d" "pm_entry s (AddrToKey u) = d"
  defines "g' \<equiv> g\<lparr>g_own := (g_own g)(b \<mapsto> OLarge d n u)\<rparr>"
  shows "lr_inv g' s" and "lr_held g' x k \<longleftrightarrow> lr_held g x k \<or> (x = u \<and> k = n - (unat u - unat b))"
    and "\<not> lr_held g u k"
proof -
  let ?own = "(g_own g)(b \<mapsto> OLarge d n u)"
  have sm: "?own b' = Some (OSmall d' c) \<longleftrightarrow> g_own g b' = Some (OSmall d' c)"
    and de: "?own b' = Some ODescs \<longleftrightarrow> g_own g b' = Some ODescs"
    and pg: "?own b' = Some OPageMap \<longleftrightarrow> g_own g b' = Some OPageMap"
    and la: "?own b' = Some (OLarge d' m w) \<longleftrightarrow> g_own g b' = Some (OLarge d' m w) \<or> (b' = b \<and> d' = d \<and> m = n \<and> w = u)"
    for b' d' c m w using b by auto
  have da: "ldesc_at ?own = ldesc_at (g_own g)" unfolding ldesc_at_def de by auto
  have ow: "owns ?own e \<longleftrightarrow> owns (g_own g) e \<or> e = d" for e unfolding owns_def sm la by blast
  have ins: "in_small ?own = in_small (g_own g)" unfolding in_small_def sm by auto
  note ld = l [unfolded loose_def]
  have "inv_maps ?own (lr_maps s)"
    using inv_maps_convert [where own = "g_own g", OF b _ lr_invD(1) [OF assms(1)], of "OLarge d n u"] by simp
  moreover have "inv_init ?own s" using lr_invD(2) [OF assms(1)] pg by (simp add: inv_init_def)
  moreover have "inv_avail ?own (g_avail g) (AvailDesc s) (lr_descs s)"
    using lr_invD(3) [OF assms(1)] ld unfolding inv_avail_def da ow by blast
  moreover have "inv_part ?own (g_avail g) (g_part g) (Heaps s) (lr_descs s)"
    unfolding inv_part_def
  proof (intro allI impI)
    fix c' :: nat
    assume c': "c' < 40"
    note pt = lr_inv_part [OF assms(1) c']
    have "ldesc_at ?own e \<and> e \<notin> set (g_avail g) \<and> ds_heap (lr_descs s e) = Some c'
        \<and> an_state (ds_anchor (lr_descs s e)) = (if owns ?own e then LR_SB_PARTIAL else LR_SB_EMPTY)"
      if e: "e \<in> set (g_part g c')" for e
    proof -
      have "e \<noteq> d" using e ld c' by blast
      then show ?thesis unfolding da ow using pt(3) [OF e] by simp
    qed
    then show "dlist (\<lambda>d. ds_nextPartial (lr_descs s d)) (ph_partialList (Heaps s c')) (g_part g c')
      \<and> distinct (g_part g c') \<and> (\<forall>e \<in> set (g_part g c'). ldesc_at ?own e \<and> e \<notin> set (g_avail g)
        \<and> ds_heap (lr_descs s e) = Some c'
        \<and> an_state (ds_anchor (lr_descs s e)) = (if owns ?own e then LR_SB_PARTIAL else LR_SB_EMPTY))"
      using pt(1,2) by blast
  qed
  moreover have "inv_small ?own (g_place g) (g_free g) (g_part g) (lr_descs s) (lr_bytes s) (pm_entry s)"
    using lr_invD(5) [OF assms(1)] unfolding inv_small_def sm small_ok_def da .
  moreover have "inv_large ?own (lr_descs s) (pm_entry s)"
    using lr_invD(6) [OF assms(1)] ld v n u pm unfolding inv_large_def la large_ok_def da by blast
  moreover have "inv_cache ?own (g_place g) (g_cache g) (lr_TCache s) (lr_bytes s)"
    using lr_invD(7) [OF assms(1)] unfolding inv_cache_def bin_ok_def ins .
  ultimately show "lr_inv g' s" unfolding lr_inv_def g'_def by simp
  show "lr_held g' x k \<longleftrightarrow> lr_held g x k \<or> (x = u \<and> k = n - (unat u - unat b))"
    unfolding lr_held_def g'_def using la ins by (simp del: fun_upd_apply) blast
  show "\<not> lr_held g u k"
  proof
    assume h: "lr_held g u k"
    obtain b' w where w: "g_own g b' = Some w" "unat b' \<le> unat u" "unat u + k \<le> unat b' + osize w" "0 < k"
      "(\<exists>d c. w = OSmall d c) \<or> (\<exists>d m. w = OLarge d m u)"
      using held_range [OF assms(1) h] by blast
    have "b' = b \<and> w = OLoose n"
      using owner_unique [OF lr_invD(1) [OF assms(1)] b w(1), of "unat u"] u(1) w(2-4) by (simp add: within_def)
    then show False using w(5) by auto
  qed
qed

lemma lr_inv_drop_large:
  assumes "lr_inv g s" and b: "g_own g b = Some (OLarge d n u)"
  defines "g' \<equiv> g\<lparr>g_own := (g_own g)(b \<mapsto> OLoose n)\<rparr>"
  shows "lr_inv g' s" and "lr_held g' x k \<longleftrightarrow> x \<noteq> u \<and> lr_held g x k" and "loose g' d"
proof -
  let ?own = "(g_own g)(b \<mapsto> OLoose n)"
  note lo = lr_inv_large [OF assms(1) b, unfolded large_ok_def]
  have sm: "?own b' = Some (OSmall d' c) \<longleftrightarrow> g_own g b' = Some (OSmall d' c)"
    and de: "?own b' = Some ODescs \<longleftrightarrow> g_own g b' = Some ODescs"
    and pg: "?own b' = Some OPageMap \<longleftrightarrow> g_own g b' = Some OPageMap"
    and la: "?own b' = Some (OLarge d' m w) \<longleftrightarrow> g_own g b' = Some (OLarge d' m w) \<and> b' \<noteq> b"
    for b' d' c m w using b by auto
  have da: "ldesc_at ?own = ldesc_at (g_own g)" unfolding ldesc_at_def de by auto
  have od: "owns (g_own g) d" by (rule owns_large [where own = "g_own g", OF b])
  have nod: "\<not> owns ?own d"
    unfolding owns_def sm la using large_desc_unique [OF assms(1) b] small_large_desc [OF assms(1) _ b] by blast
  have ow: "owns ?own e \<longleftrightarrow> owns (g_own g) e" if "e \<noteq> d" for e
  proof -
    have "b' \<noteq> b" if "g_own g b' = Some (OLarge e m w)" for b' m w using b that \<open>e \<noteq> d\<close> by auto
    then show ?thesis unfolding owns_def sm la by blast
  qed
  have ins: "in_small ?own = in_small (g_own g)" unfolding in_small_def sm by auto
  have npart: "d \<notin> set (g_part g c)" if "c < 40" for c
    using lr_inv_part(3) [OF assms(1) that, of d] lo by auto
  have nav: "d \<notin> set (g_avail g)" using avail_not_listed [OF assms(1), of d] od by blast
  have "inv_maps ?own (lr_maps s)"
    using inv_maps_convert [where own = "g_own g", OF b _ lr_invD(1) [OF assms(1)], of "OLoose n"] by simp
  moreover have "inv_init ?own s" using lr_invD(2) [OF assms(1)] pg by (simp add: inv_init_def)
  moreover have "inv_avail ?own (g_avail g) (AvailDesc s) (lr_descs s)"
  proof -
    have "\<not> owns ?own e" if "\<not> owns (g_own g) e" for e using ow [of e] nod that by blast
    then show ?thesis using lr_invD(3) [OF assms(1)] unfolding inv_avail_def da by blast
  qed
  moreover have "inv_part ?own (g_avail g) (g_part g) (Heaps s) (lr_descs s)"
    unfolding inv_part_def
  proof (intro allI impI)
    fix c' :: nat
    assume c': "c' < 40"
    note pt = lr_inv_part [OF assms(1) c']
    have "ldesc_at ?own e \<and> e \<notin> set (g_avail g) \<and> ds_heap (lr_descs s e) = Some c'
        \<and> an_state (ds_anchor (lr_descs s e)) = (if owns ?own e then LR_SB_PARTIAL else LR_SB_EMPTY)"
      if e: "e \<in> set (g_part g c')" for e
    proof -
      have "e \<noteq> d" using e npart [OF c'] by blast
      then show ?thesis unfolding da ow [OF \<open>e \<noteq> d\<close>] using pt(3) [OF e] by simp
    qed
    then show "dlist (\<lambda>d. ds_nextPartial (lr_descs s d)) (ph_partialList (Heaps s c')) (g_part g c')
      \<and> distinct (g_part g c') \<and> (\<forall>e \<in> set (g_part g c'). ldesc_at ?own e \<and> e \<notin> set (g_avail g)
        \<and> ds_heap (lr_descs s e) = Some c'
        \<and> an_state (ds_anchor (lr_descs s e)) = (if owns ?own e then LR_SB_PARTIAL else LR_SB_EMPTY))"
      using pt(1,2) by blast
  qed
  moreover have "inv_small ?own (g_place g) (g_free g) (g_part g) (lr_descs s) (lr_bytes s) (pm_entry s)"
    using lr_invD(5) [OF assms(1)] unfolding inv_small_def sm small_ok_def da .
  moreover have "inv_large ?own (lr_descs s) (pm_entry s)"
    using lr_invD(6) [OF assms(1)] unfolding inv_large_def la large_ok_def da by blast
  moreover have "inv_cache ?own (g_place g) (g_cache g) (lr_TCache s) (lr_bytes s)"
    using lr_invD(7) [OF assms(1)] unfolding inv_cache_def bin_ok_def ins .
  ultimately show inv: "lr_inv g' s" unfolding lr_inv_def g'_def by simp
  show "loose g' d" unfolding loose_def g'_def using lo nod nav npart da by simp
  show "lr_held g' x k \<longleftrightarrow> x \<noteq> u \<and> lr_held g x k"
  proof -
    have "\<not> in_small (g_own g) c u" for c using small_not_large [OF assms(1)] b by blast
    moreover have "b' = b" if b': "g_own g b' = Some (OLarge d' m u)" for b' d' m
    proof -
      have "within b' m u" using lr_inv_large [OF assms(1) b'] unfolding large_ok_def by blast
      moreover have "within b n u" using lo by blast
      ultimately show ?thesis
        using owner_unique [OF lr_invD(1) [OF assms(1)] b b', of "unat u"] by (simp add: within_def)
    qed
    moreover have "g_own g b' = Some (OLarge d' m x) \<Longrightarrow> x \<noteq> u \<Longrightarrow> b' \<noteq> b" for b' d' m using b by auto
    ultimately show ?thesis unfolding lr_held_def g'_def using la ins by (simp del: fun_upd_apply) blast
  qed
qed

subsection \<open>Entries of the page map\<close>

lemma set_page:
  assumes "lr_inv g s"
  shows "UpdatePageMap None u e k s = Inr (s\<lparr>pm_entry := (pm_entry s)(AddrToKey u := e OR of_nat k)\<rparr>)"
  using page_access(2) [OF lr_invD(1) [OF assms] lr_inv_init(4) [OF assms]] by (simp add: UpdatePageMap_def)

lemma set_page_loose:
  assumes "lr_inv g s" and b: "g_own g b = Some (OLoose n)" and u: "within b n u"
  shows "lr_inv g (s\<lparr>pm_entry := (pm_entry s)(AddrToKey u := w)\<rparr>)"
proof (rule lr_inv_pm [OF assms(1) b])
  show "\<exists>y. within b (osize (OLoose n)) y \<and> k = AddrToKey y"
    if "((pm_entry s)(AddrToKey u := w)) k \<noteq> pm_entry s k" for k
    using that u by (auto split: if_splits)
qed simp_all

text \<open>No mapping contains the first page, so its entry matters to nothing.\<close>

lemma set_page_null:
  assumes "lr_inv g s"
  shows "lr_inv g (s\<lparr>pm_entry := (pm_entry s)(AddrToKey 0 := w)\<rparr>)"
proof -
  have key: "AddrToKey x \<noteq> AddrToKey 0" if b: "g_own g b = Some v" and x: "within b (osize v) x" for b v x
  proof -
    note m = inv_mapsD [OF lr_invD(1) [OF assms] b]
    obtain q where q: "unat b = 4096 * q" using m(2) by (metis mod_0_imp_dvd dvdE)
    have "q \<noteq> 0" using q m(1) by (metis mult_0_right unat_eq_zero)
    then have "4096 \<le> unat x" using x q by (simp add: within_def)
    moreover have "unat x < 2 ^ 50" using x m(4) by (simp add: within_def)
    ultimately show ?thesis by (subst AddrToKey_eq_iff) simp_all
  qed
  show ?thesis
  proof (rule lr_inv_pm_frame [OF assms])
    fix b d c x
    assume "g_own g b = Some (OSmall d c)" and "within b (lsb c) x"
    then show "((pm_entry s)(AddrToKey 0 := w)) (AddrToKey x) = pm_entry s (AddrToKey x)"
      using key [of b "OSmall d c" x] by simp
  next
    fix b d n u x
    assume "g_own g b = Some (OLarge d n u)" and "within b n x"
    then show "((pm_entry s)(AddrToKey 0 := w)) (AddrToKey x) = pm_entry s (AddrToKey x)"
      using key [of b "OLarge d n u" x] by simp
  qed
qed

lemma RegisterDesc_large:
  assumes "lr_inv g s" and "ldesc_at (g_own g) d" and "ds_heap (lr_descs s d) = None"
  shows "RegisterDesc d s = Inr (s\<lparr>pm_entry := (pm_entry s)(AddrToKey (ds_superblock (lr_descs s d)) := d)\<rparr>)"
  using desc_access(1) [OF lr_invD(1) [OF assms(1)] assms(2)] set_page [OF assms(1), of _ d 0] assms(3)
  by (simp add: RegisterDesc_def Let_def)

subsection \<open>Allocation\<close>

text \<open>What an allocation promises: a new block \<open>p\<close> of \<open>n\<close> bytes, the others as before.\<close>

definition lr_alloc_post :: "lr_ghost \<Rightarrow> lr_state \<Rightarrow> addr \<Rightarrow> nat \<Rightarrow> lr_ghost \<Rightarrow> lr_state \<Rightarrow> bool" where
  "lr_alloc_post g s p n g' s' \<longleftrightarrow> lr_inv g' s' \<and> (\<forall>x k. lr_held g' x k \<longleftrightarrow> lr_held g x k \<or> (x = p \<and> k = n))
     \<and> (\<forall>k. \<not> lr_held g p k) \<and> lr_keeps g (lr_bytes s) (lr_bytes s')"

text \<open>A descriptor and pages for it: the state from which a large block is set up.\<close>

lemma fresh_desc:
  assumes "lr_inv g s" and l: "loose g d" and "os_ok os" and "os (lr_maps s) n \<noteq> - 1"
  defines "p \<equiv> os (lr_maps s) n"
  defines "g' \<equiv> g\<lparr>g_own := (g_own g)(p \<mapsto> OLoose (unat n))\<rparr>"
  shows "PageAlloc os n s = Inr (p, fresh_map p (unat n) s)" and "lr_inv g' (fresh_map p (unat n) s)"
    and "loose g' d" and "lr_descs (fresh_map p (unat n) s) d = lr_descs s d" and "lr_held g' = lr_held g"
    and "lr_keeps g (lr_bytes s) (lr_bytes (fresh_map p (unat n) s))" and "p \<noteq> 0"
proof -
  note pa = PageAlloc_new [OF assms(1,3,4), folded p_def, folded g'_def]
  show "PageAlloc os n s = Inr (p, fresh_map p (unat n) s)" and inv: "lr_inv g' (fresh_map p (unat n) s)"
    and "lr_held g' = lr_held g" and "lr_keeps g (lr_bytes s) (lr_bytes (fresh_map p (unat n) s))" and "p \<noteq> 0"
    by (rule pa)+
  show l': "loose g' d" using loose_neutral [of g p "Some (OLoose (unat n))" d] pa(2) l by (simp add: g'_def)
  have "\<not> within p (unat n) d"
    by (rule desc_not_loose [OF inv]) (use l' in \<open>simp_all add: loose_def g'_def\<close>)
  then show "lr_descs (fresh_map p (unat n) s) d = lr_descs s d" by (simp add: fresh_map_def)
qed

text \<open>The descriptor is filled in and registered, also for an address \<open>u\<close> inside the pages.\<close>

lemma large_set_up:
  assumes "lr_inv g s" and l: "loose g d" and b: "g_own g b = Some (OLoose n)"
    and v: "ds_superblock v = b" "ds_heap v = None" "ds_blockSize v = of_nat n"
    and n: "n < 4294967296" "n mod 4096 = 0" and u: "within b n u" "unat u mod 4096 = 0"
    and pm: "pm = (pm_entry s)(AddrToKey b := d) \<and> u = b \<or> pm = (pm_entry s)(AddrToKey b := d, AddrToKey u := d)"
  defines "s' \<equiv> s\<lparr>lr_descs := (lr_descs s)(d := v), pm_entry := pm\<rparr>"
    and "g' \<equiv> g\<lparr>g_own := (g_own g)(b \<mapsto> OLarge d n u)\<rparr>"
  shows "lr_alloc_post g s u (n - (unat u - unat b)) g' s'"
proof -
  let ?s1 = "s\<lparr>lr_descs := (lr_descs s)(d := v)\<rparr>"
  let ?s2 = "?s1\<lparr>pm_entry := (pm_entry s)(AddrToKey b := d)\<rparr>"
  have 1: "lr_inv g ?s1" by (rule lr_inv_loose_desc [OF assms(1) l])
  have bb: "within b n b" using u(1) by (simp add: within_def)
  have 2: "lr_inv g ?s2" using set_page_loose [OF 1 b bb, of d] by simp
  have 3: "lr_inv g s'" using pm set_page_loose [OF 2 b u(1), of d] 2 unfolding s'_def by auto
  have pmb: "pm_entry s' (AddrToKey b) = d" "pm_entry s' (AddrToKey u) = d" using pm by (auto simp: s'_def)
  have v': "ds_superblock (lr_descs s' d) = b" "ds_heap (lr_descs s' d) = None" "ds_blockSize (lr_descs s' d) = of_nat n"
    using v by (simp_all add: s'_def)
  note ol = lr_inv_own_large [OF 3 l b v' n u pmb, folded g'_def]
  show ?thesis unfolding lr_alloc_post_def using ol by (simp add: s'_def)
qed

lemma alloc_post_after:
  assumes "lr_alloc_post g1 s1 p n g' s'" and "lr_held g1 = lr_held g" and "lr_keeps g (lr_bytes s) (lr_bytes s1)"
  shows "lr_alloc_post g s p n g' s'"
  using assms lr_keeps_trans [OF assms(3), of g1 "lr_bytes s'"] by (simp add: lr_alloc_post_def)

text \<open>The descriptor an operation starts with, and what the kernel must grant for it.\<close>

definition desc_room :: "lr_ghost \<Rightarrow> u64 list \<Rightarrow> u64 list" where
  "desc_room g ns = (if g_avail g = [] then 65536 # ns else ns)"

lemma DescAlloc_room:
  assumes "lr_inv g s" and "os_ok os" and "room os (lr_maps s) (desc_room g [])"
  shows "\<exists>d g1 s1. DescAlloc os s = Inr (d, s1) \<and> lr_ext g s g1 s1 \<and> loose g1 d
    \<and> (\<forall>ns. room os (lr_maps s1) ns \<longleftrightarrow> room os (lr_maps s) (desc_room g ns))"
proof -
  have "g_avail g = [] \<Longrightarrow> os (lr_maps s) 65536 \<noteq> - 1" using assms(3) by (simp add: desc_room_def)
  then obtain d g1 s1 where d1: "DescAlloc os s = Inr (d, s1)" "lr_ext g s g1 s1" "loose g1 d"
    and mp: "lr_maps s1 = (if g_avail g = [] then (unat (os (lr_maps s) 65536), unat (os (lr_maps s) 65536) + 65536) # lr_maps s
                    else lr_maps s)"
    using DescAlloc_ok [OF assms(1,2)] by blast
  have "room os (lr_maps s1) ns \<longleftrightarrow> room os (lr_maps s) (desc_room g ns)" for ns
    using assms(3) mp by (simp add: desc_room_def split: if_splits)
  then show ?thesis using d1 by blast
qed

lemma desc_room_Nil: "room os ms (desc_room g ns) \<Longrightarrow> room os ms (desc_room g [])"
  by (simp add: desc_room_def split: if_splits)

lemma page_ceiling:
  assumes "unat sz \<le> 4294963200"
  defines "n \<equiv> unat (lr_PAGE_CEILING sz)"
  shows "n = (unat sz + 4095) div 4096 * 4096" and "n < 4294967296" and "n mod 4096 = 0" and "unat sz \<le> n"
    and "(ucast (lr_PAGE_CEILING sz) :: u32) = of_nat n"
proof -
  have "unat sz + 4095 < 2 ^ 64" using assms(1) by simp
  then show n: "n = (unat sz + 4095) div 4096 * 4096" unfolding n_def by (rule lr_PAGE_CEILING_unat)
  show "n mod 4096 = 0" unfolding n by simp
  show "unat sz \<le> n" unfolding n by linarith
  have "(unat sz + 4095) div 4096 \<le> 1048575" using assms(1) by linarith
  then show lt: "n < 4294967296" unfolding n by linarith
  show "(ucast (lr_PAGE_CEILING sz) :: u32) = of_nat n"
    unfolding n_def by (metis of_nat_unat ucast_id unsigned_ucast_eq word_of_nat_eq_iff)
qed

lemma malloc_large_ok:
  assumes inv: "lr_inv g s" and "os_ok os" and sz: "sz > lr_MAX_SZ" "unat sz \<le> 4294963200"
    and "room os (lr_maps s) (desc_room g [lr_PAGE_CEILING sz])"
  shows "\<exists>p g' s' d. lr_do_malloc os t sz s = Inr (p, s') \<and> lr_alloc_post g s p (unat (lr_PAGE_CEILING sz)) g' s'
    \<and> g_own g' p = Some (OLarge d (unat (lr_PAGE_CEILING sz)) p)
    \<and> (\<forall>ns. room os (lr_maps s') ns \<longleftrightarrow> room os (lr_maps s) (desc_room g (lr_PAGE_CEILING sz # ns)))"
proof -
  let ?n = "unat (lr_PAGE_CEILING sz)"
  note pc = page_ceiling [OF sz(2)]
  obtain d g1 s1 where d1: "DescAlloc os s = Inr (d, s1)" "lr_ext g s g1 s1" "loose g1 d"
      "room os (lr_maps s1) [lr_PAGE_CEILING sz]"
    and rm: "\<forall>ns. room os (lr_maps s1) ns \<longleftrightarrow> room os (lr_maps s) (desc_room g ns)"
    using DescAlloc_room [OF assms(1,2) desc_room_Nil [OF assms(5)]] assms(5) by blast
  have inv1: "lr_inv g1 s1" and h1: "lr_held g1 = lr_held g" and k1: "lr_keeps g (lr_bytes s) (lr_bytes s1)"
    using d1(2) by (simp_all add: lr_ext_def)
  let ?v = "(lr_descs s1 d)\<lparr>ds_heap := None, ds_blockSize := ucast (lr_PAGE_CEILING sz), ds_maxcount := 1\<rparr>"
  let ?s2 = "s1\<lparr>lr_descs := (lr_descs s1)(d := ?v)\<rparr>"
  have inv2: "lr_inv g1 ?s2" by (rule lr_inv_loose_desc [OF inv1 d1(3)])
  define p where "p = os (lr_maps ?s2) (lr_PAGE_CEILING sz)"
  let ?g3 = "g1\<lparr>g_own := (g_own g1)(p \<mapsto> OLoose ?n)\<rparr>" and ?s3 = "fresh_map p ?n ?s2"
  have os: "os (lr_maps ?s2) (lr_PAGE_CEILING sz) \<noteq> - 1" using d1(4) by simp
  note fd = fresh_desc [OF inv2 d1(3) assms(2) os, folded p_def]
  have da1: "ldesc_at (g_own g1) d" and da3: "ldesc_at (g_own ?g3) d" using d1(3) fd(3) unfolding loose_def by blast+
  let ?v' = "?v\<lparr>ds_superblock := p, ds_anchor := large_anchor\<rparr>"
  let ?s5 = "?s3\<lparr>lr_descs := (lr_descs ?s3)(d := ?v')\<rparr>"
  let ?pm = "(pm_entry ?s3)(AddrToKey p := d)"
  have u1: "upd_desc d f s1 = Inr (s1\<lparr>lr_descs := (lr_descs s1)(d := f (lr_descs s1 d))\<rparr>)" for f
    by (rule desc_access(2) [OF lr_invD(1) [OF inv1] da1])
  have u3: "upd_desc d f s' = Inr (s'\<lparr>lr_descs := (lr_descs s')(d := f (lr_descs s' d))\<rparr>)"
    and g3: "get_desc d s' = Inr (lr_descs s' d)" if "lr_maps s' = lr_maps ?s3" for f s'
    using desc_access [OF _ da3, of s'] lr_invD(1) [OF fd(2)] that by simp_all
  have inv5: "lr_inv ?g3 ?s5" by (rule lr_inv_loose_desc [OF fd(2,3)])
  have reg: "RegisterDesc d ?s5 = Inr (?s5\<lparr>pm_entry := ?pm\<rparr>)"
    using RegisterDesc_large [OF inv5 da3] by simp
  have "lr_do_malloc os t sz s = Inr (p, ?s5\<lparr>pm_entry := ?pm\<rparr>)"
    using sz(1) d1(1) fd(1,4) reg lr_inv_init(1) [OF inv]
    by (simp add: lr_do_malloc_def ensure_init_def Let_def u1 u3 g3)
  moreover have "lr_alloc_post ?g3 ?s3 p (?n - (unat p - unat p)) (?g3\<lparr>g_own := (g_own ?g3)(p \<mapsto> OLarge d ?n p)\<rparr>)
      (?s3\<lparr>lr_descs := (lr_descs ?s3)(d := ?v'), pm_entry := ?pm\<rparr>)"
  proof (rule large_set_up [OF fd(2,3)])
    have "0 < ?n" using pc(4) sz(1) by (simp add: word_less_nat_alt)
    then show "within p ?n p" by (simp add: within_def)
    show "unat p mod 4096 = 0" using inv_mapsD(2) [OF lr_invD(1) [OF fd(2)], of p "OLoose ?n"] by simp
  qed (use pc in simp_all)
  then have "lr_alloc_post g s p ?n (?g3\<lparr>g_own := (g_own ?g3)(p \<mapsto> OLarge d ?n p)\<rparr>) (?s5\<lparr>pm_entry := ?pm\<rparr>)"
    using alloc_post_after [of ?g3 ?s3 p ?n _ _ g s] fd(5,6) h1 lr_keeps_trans [OF k1, of g1] by auto
  moreover have "lr_maps (?s5\<lparr>pm_entry := ?pm\<rparr>) = (unat p, unat p + ?n) # lr_maps s1" by (simp add: fresh_map_def)
  then have "room os (lr_maps (?s5\<lparr>pm_entry := ?pm\<rparr>)) ns \<longleftrightarrow> room os (lr_maps s) (desc_room g (lr_PAGE_CEILING sz # ns))" for ns
    using rm [rule_format, of "lr_PAGE_CEILING sz # ns"] d1(4) by (simp add: p_def)
  ultimately show ?thesis
    by (intro exI [of _ p] exI [of _ "?g3\<lparr>g_own := (g_own ?g3)(p \<mapsto> OLarge d ?n p)\<rparr>"] exI [of _ "?s5\<lparr>pm_entry := ?pm\<rparr>"] exI [of _ d]) simp
qed

text \<open>
  When the kernel has no pages for it, a large request returns null and the program's blocks are as
  they were. The descriptor is in no list any more, and the page map has it for address 0.
\<close>

lemma malloc_large_refused:
  assumes inv: "lr_inv g s" and "os_ok os" and sz: "sz > lr_MAX_SZ"
    and "room os (lr_maps s) (desc_room g [])" and "\<not> room os (lr_maps s) (desc_room g [lr_PAGE_CEILING sz])"
  shows "\<exists>g' s'. lr_do_malloc os t sz s = Inr (0, s') \<and> lr_inv g' s' \<and> lr_held g' = lr_held g
    \<and> lr_keeps g (lr_bytes s) (lr_bytes s')"
proof -
  obtain d g1 s1 where d1: "DescAlloc os s = Inr (d, s1)" "lr_ext g s g1 s1" "loose g1 d"
      "\<not> room os (lr_maps s1) [lr_PAGE_CEILING sz]"
    using DescAlloc_room [OF assms(1,2,4)] assms(5) by blast
  have inv1: "lr_inv g1 s1" and h1: "lr_held g1 = lr_held g" and k1: "lr_keeps g (lr_bytes s) (lr_bytes s1)"
    using d1(2) by (simp_all add: lr_ext_def)
  have os: "os (lr_maps s1) (lr_PAGE_CEILING sz) = - 1" using d1(4) by simp
  let ?v = "(lr_descs s1 d)\<lparr>ds_heap := None, ds_blockSize := ucast (lr_PAGE_CEILING sz), ds_maxcount := 1,
    ds_superblock := 0, ds_anchor := large_anchor\<rparr>"
  let ?s5 = "s1\<lparr>lr_descs := (lr_descs s1)(d := ?v)\<rparr>"
  let ?s6 = "?s5\<lparr>pm_entry := (pm_entry s1)(AddrToKey 0 := d)\<rparr>"
  have da: "ldesc_at (g_own g1) d" using d1(3) unfolding loose_def by blast
  have u: "upd_desc d f s' = Inr (s'\<lparr>lr_descs := (lr_descs s')(d := f (lr_descs s' d))\<rparr>)"
    and gt: "get_desc d s' = Inr (lr_descs s' d)" if "lr_maps s' = lr_maps s1" for f s'
    using desc_access [OF _ da, of s'] lr_invD(1) [OF inv1] that by simp_all
  have inv5: "lr_inv g1 ?s5" by (rule lr_inv_loose_desc [OF inv1 d1(3)])
  have reg: "RegisterDesc d ?s5 = Inr ?s6" using RegisterDesc_large [OF inv5 da] by simp
  have "lr_do_malloc os t sz s = Inr (0, ?s6)"
    using sz d1(1) reg os lr_inv_init(1) [OF inv]
    by (simp add: lr_do_malloc_def ensure_init_def Let_def u gt PageAlloc_eq)
  moreover have "lr_inv g1 ?s6" using set_page_null [OF inv5, of d] by simp
  ultimately show ?thesis using h1 k1 by auto
qed

subsection \<open>Deallocation\<close>

text \<open>What freeing a block promises.\<close>

definition lr_free_post :: "lr_ghost \<Rightarrow> lr_state \<Rightarrow> addr \<Rightarrow> lr_ghost \<Rightarrow> lr_state \<Rightarrow> bool" where
  "lr_free_post g s p g' s' \<longleftrightarrow> lr_inv g' s' \<and> (\<forall>x k. lr_held g' x k \<longleftrightarrow> x \<noteq> p \<and> lr_held g x k)
     \<and> lr_keeps g' (lr_bytes s) (lr_bytes s')"

lemma free_large_ok:
  assumes inv: "lr_inv g s" and b: "g_own g b = Some (OLarge d n u)"
  shows "\<exists>g' s'. lr_do_free t u s = Inr s' \<and> lr_free_post g s u g' s'"
proof -
  let ?g1 = "g\<lparr>g_own := (g_own g)(b \<mapsto> OLoose n)\<rparr>"
  note lo = lr_inv_large [OF inv b, unfolded large_ok_def]
  note dl = lr_inv_drop_large [OF inv b]
  have b1: "g_own ?g1 b = Some (OLoose n)" by simp
  have da: "ldesc_at (g_own g) d" "al64 d" using lo desc_at_al64 [OF lr_invD(1) [OF inv], of d] by auto
  have bu: "within b n b" "within b n u" using lo by (auto simp: within_def)
  have "pm_entry s (AddrToKey u) = d" using lo by blast
  then have info: "GetPageInfoForPtr u s = Inr d"
    using page_access(1) [OF lr_invD(1) [OF inv] lr_inv_init(4) [OF inv]] by (simp add: GetPageInfoForPtr_def)
  have pi: "PageInfo_GetDesc d = d" "PageInfo_GetScIdx d = 0" using info_get [OF da(2), of 0] by simp_all
  have get: "get_desc d s = Inr (lr_descs s d)" by (rule desc_access(1) [OF lr_invD(1) [OF inv] da(1)])
  let ?s1 = "s\<lparr>pm_entry := (pm_entry s)(AddrToKey b := 0)\<rparr>"
  have inv1: "lr_inv ?g1 ?s1" by (rule set_page_loose [OF dl(1) b1 bu(1)])
  have run1: "UnregisterDesc None b s = Inr ?s1"
    using set_page [OF inv, of b 0 0] by (simp add: UnregisterDesc_def)
  have "\<exists>s2. (if u \<noteq> b then UnregisterDesc None u ?s1 else Inr ?s1) = Inr s2 \<and> lr_inv ?g1 s2 \<and> lr_bytes s2 = lr_bytes s"
    using inv1 set_page [OF inv1, of u 0 0] set_page_loose [OF inv1 b1 bu(2)] by (simp add: UnregisterDesc_def)
  then obtain s2 where run2: "(if u \<noteq> b then UnregisterDesc None u ?s1 else Inr ?s1) = Inr s2"
    and inv2: "lr_inv ?g1 s2" and by2: "lr_bytes s2 = lr_bytes s" by blast
  have n: "n < 18446744073709551616" "n < 4294967296" using lo by auto
  let ?g3 = "?g1\<lparr>g_own := (g_own ?g1)(b := None)\<rparr>"
  let ?s3 = "s2\<lparr>lr_maps := concat (map (cut_range (unat b) (unat b + n)) (lr_maps s2))\<rparr>"
  note pf = PageFree_loose [OF inv2 b1 n(1)]
  have l3: "loose ?g3 d" using loose_neutral [of ?g1 b None d] dl(3) b1 by simp
  obtain s4 where s4: "DescRetire d ?s3 = Inr s4" "lr_ext ?g3 ?s3 (?g3\<lparr>g_avail := d # g_avail ?g3\<rparr>) s4"
      "lr_bytes s4 = lr_bytes ?s3" using DescRetire_ok [OF pf(2) l3] by blast
  have v: "ds_superblock (lr_descs s d) = b" "ucast (ds_blockSize (lr_descs s d)) = (of_nat n :: u64)"
    using lo ucast64_of_nat [OF n(2)] by simp_all
  have "lr_do_free t u s = Inr s4"
    using info pi get run1 run2 pf(1) s4(1) v by (simp add: lr_do_free_def Let_def)
  moreover have "lr_free_post g s u (?g3\<lparr>g_avail := d # g_avail ?g3\<rparr>) s4"
    using s4(2,3) pf(3) dl(2) by2 by (simp add: lr_free_post_def lr_ext_def)
  ultimately show ?thesis by blast
qed

end
