(* ===== verification/LrSmall.thy ===== *)
theory LrSmall
  imports LrLarge
begin

text \<open>
  Small blocks, and what happens when the kernel has no more pages: a refused \<^verbatim>\<open>mmap\<close> gives the null
  address, which \<^verbatim>\<open>DescAlloc\<close> and \<^verbatim>\<open>MallocFromNewSB\<close> write to without a test.
\<close>

subsection \<open>Refused pages\<close>

lemma low_unmapped:
  assumes "lr_inv g s" and "unat a < 4096" and "0 < n"
  shows "\<not> mapped n a s"
proof
  assume "mapped n a s"
  then have "in_maps (lr_maps s) (unat a)" using assms(3) unfolding mapped_def by fastforce
  then obtain lo hi where lo: "(lo, hi) \<in> set (lr_maps s)" "lo \<le> unat a"
    unfolding in_maps_def list_ex_iff by auto
  have "set (lr_maps s) = {(unat b, unat b + osize w) | b w. g_own g b = Some w}"
    using lr_invD(1) [OF assms(1)] unfolding inv_maps_def by blast
  then obtain b w where b: "g_own g b = Some w" "lo = unat b" using lo(1) by blast
  note m = inv_mapsD [OF lr_invD(1) [OF assms(1)] b(1)]
  obtain q where q: "unat b = 4096 * q" using m(2) by (metis mod_0_imp_dvd dvdE)
  have "q \<noteq> 0" using q m(1) by (metis mult_0_right unat_eq_zero)
  then show False using q b(2) lo(2) assms(2) by simp
qed

lemma low_access:
  assumes "lr_inv g s" and "unat a < 4096"
  shows "upd_desc a f s = Inl Segfault" and "store_word a v s = Inl Segfault"
  using low_unmapped [OF assms] by (simp_all add: upd_desc_def store_word_def touch_def)

lemma DescAlloc_refused:
  assumes "lr_inv g s" and "\<not> room os (lr_maps s) (desc_room g [])"
  shows "DescAlloc os s = Inl Segfault"
proof -
  have av: "g_avail g = []" "os (lr_maps s) 65536 = - 1" using assms(2) by (auto simp: desc_room_def split: if_splits)
  then have e: "DescAlloc os s = new_descs os s"
    using lr_invD(3) [OF assms(1)] by (intro DescAlloc_empty) (simp add: inv_avail_def)
  have al: "lr_ALIGN_VAL 64 64 = 64" "lr_ALIGN_VAL 128 64 = 128" by (simp_all add: lr_ALIGN_VAL_def)
  have "chain_descs (Suc (Suc n)) 0 0 64 s = Inl Segfault" for n
    using low_access(1) [OF assms(1), of 64] by (simp add: al)
  from this [of 1022] have "chain_descs DESC_FUEL 0 0 64 s = Inl Segfault"
    unfolding DESC_FUEL_def by (simp add: eval_nat_numeral del: chain_descs.simps)
  then show ?thesis unfolding e new_descs_def PageAlloc_eq using av(2) by (simp add: Let_def al)
qed

lemma MallocFromNewSB_refused:
  assumes "lr_inv g s" and c: "1 \<le> c" "c < 40" and "os_ok os"
    and no: "\<not> room os (lr_maps s) (desc_room g [of_nat (lsb c)])"
  shows "MallocFromNewSB os t c k s = Inl Segfault"
proof (cases "room os (lr_maps s) (desc_room g [])")
  case True
  obtain d g1 s1 where d1: "DescAlloc os s = Inr (d, s1)" "lr_ext g s g1 s1" "loose g1 d"
      "\<not> room os (lr_maps s1) [of_nat (lsb c)]" using DescAlloc_room [OF assms(1,4) True] no by blast
  have inv1: "lr_inv g1 s1" using d1(2) by (simp add: lr_ext_def)
  have da: "ldesc_at (g_own g1) d" using d1(3) unfolding loose_def by blast
  note cw = class_words [OF lr_inv_init(2) [OF assms(1)] c] and n = lr_class_facts(8,9) [OF c]
  have u: "upd_desc d f s' = Inr (s'\<lparr>lr_descs := (lr_descs s')(d := f (lr_descs s' d))\<rparr>)"
    if "lr_maps s' = lr_maps s1" for f s'
    using desc_access(2) [OF _ da, of s'] lr_invD(1) [OF inv1] that by simp
  have "prepare_blocks 0 (of_nat (lbs c)) (of_nat (lnum c)) (s1\<lparr>lr_descs := ds\<rparr>) = Inl Segfault" for ds
  proof -
    have "unat (of_nat (lnum c) - 1 :: u32) = Suc (lnum c - 2)"
      using n unat_of_nat32 [of "lnum c"] by (subst unat_sub) (simp_all add: word_le_nat_alt)
    moreover have "store_word 0 v (s1\<lparr>lr_descs := ds\<rparr>) = Inl Segfault" for v
      using low_unmapped [OF inv1, of 0 8] by (simp add: store_word_def touch_def mapped_def)
    ultimately show ?thesis by (simp add: prepare_blocks_def upt_conv_Cons del: upt_Suc)
  qed
  then show ?thesis
    using d1(1,4) cw u by (simp add: MallocFromNewSB_def Let_def PageAlloc_eq)
next
  case False
  then show ?thesis by (simp add: MallocFromNewSB_def Let_def DescAlloc_refused [OF assms(1)])
qed

subsection \<open>Filling a cache\<close>

text \<open>The kernel has pages for a request, and for descriptors besides.\<close>

definition can_map :: "kernel \<Rightarrow> lr_state \<Rightarrow> u64 \<Rightarrow> bool" where
  "can_map os s n \<longleftrightarrow> room os (lr_maps s) [n] \<and> room os (lr_maps s) [65536, n]"

lemma can_map_desc: "can_map os s n \<Longrightarrow> room os (lr_maps s) (desc_room g [n])"
  by (simp add: can_map_def desc_room_def)

lemma FillCache_cases:
  assumes "lr_inv g s" and c: "1 \<le> c" "c < 40" and "g_cache g t c = []" and "os_ok os"
  shows "(\<exists>g' s'. FillCache os t c s = Inr s' \<and> lr_inv g' s' \<and> lr_held g' = lr_held g
      \<and> lr_keeps g (lr_bytes s) (lr_bytes s') \<and> g_cache g' t c \<noteq> [])
    \<or> (FillCache os t c s = Inl Segfault \<and> \<not> can_map os s (of_nat (lsb c)))"
proof -
  obtain g1 s1 where m: "MallocFromPartial LR_PARTIAL_FUEL t c 0 s = Inr (of_nat (length (g_cache g1 t c)), s1)"
    "lr_inv g1 s1" "lr_held g1 = lr_held g" "lr_bytes s1 = lr_bytes s" "lr_maps s1 = lr_maps s"
    using MallocFromPartial_ok [OF assms(1) c assms(4) part_bound [OF assms(1) c(2)]] by blast
  have len: "length (g_cache g1 t c) \<le> 8192"
    using lr_inv_bin [OF m(2) c, of t] lr_class_facts(9) [OF c] by (simp add: bin_ok_def)
  show ?thesis
  proof (cases "g_cache g1 t c")
    case Nil
    then have fc: "FillCache os t c s = rbind (MallocFromNewSB os t c 0 s1) (\<lambda>(n, s2). Inr s2)"
      using m(1) by (simp add: FillCache_def)
    show ?thesis
    proof (cases "room os (lr_maps s1) (desc_room g1 [of_nat (lsb c)])")
      case True
      then have "room os (lr_maps s1) ((if g_avail g1 = [] then [65536] else []) @ [of_nat (lsb c)])"
        by (simp add: desc_room_def split: if_splits)
      then obtain g2 s2 where "MallocFromNewSB os t c 0 s1 = Inr (of_nat (lnum c), s2)" "lr_inv g2 s2"
        "lr_held g2 = lr_held g1" "lr_keeps g1 (lr_bytes s1) (lr_bytes s2)" "g_cache g2 t c \<noteq> []"
        using MallocFromNewSB_ok [OF m(2) c Nil assms(5)] by blast
      then show ?thesis using m fc by (intro disjI1 exI [of _ g2] exI [of _ s2]) (simp add: lr_keeps_def)
    next
      case False
      then have "\<not> can_map os s (of_nat (lsb c))" using can_map_desc [of os s1 _ g1] m(5) by (auto simp: can_map_def)
      then show ?thesis using fc MallocFromNewSB_refused [OF m(2) c assms(5) False] by simp
    qed
  next
    case (Cons x xs)
    have "(of_nat (length (g_cache g1 t c)) :: u64) \<noteq> 0"
    proof -
      have "unat (of_nat (length (g_cache g1 t c)) :: u64) = length (g_cache g1 t c)"
        using len by (intro unat_of_nat64) simp
      then show ?thesis using Cons by (metis unat_0 length_0_conv list.distinct(1))
    qed
    then show ?thesis
      using m Cons by (intro disjI1 exI [of _ g1] exI [of _ s1]) (simp add: FillCache_def lr_keeps_def)
  qed
qed

end
