(* ===== verification/LrOps.thy ===== *)
theory LrOps
  imports LrSmall
begin

text \<open>
  Allocation and deallocation of blocks of any size, on a state that satisfies the invariant: the
  block that is returned, or the two ways a request fails when the kernel has no pages left.
\<close>

subsection \<open>Allocation\<close>

lemma size_class:
  assumes "lr_inv g s" and "unat sz \<le> 14336"
  shows "GetSizeClass sz s = sizeclass_lookup (unat sz)" and "1 \<le> sizeclass_lookup (unat sz)"
    and "sizeclass_lookup (unat sz) < 40" and "unat sz \<le> lbs (sizeclass_lookup (unat sz))"
  using lr_lookup_best [OF assms(2)] lr_inv_init(3) [OF assms(1)]
  by (simp_all add: GetSizeClass_def GetSizeClass_lookup_def)

text \<open>The pages a request may need.\<close>

definition lr_need :: "u64 \<Rightarrow> u64" where
  "lr_need sz = (if sz > lr_MAX_SZ then lr_PAGE_CEILING sz else of_nat (lsb (sizeclass_lookup (unat sz))))"

lemma PopBlock_post:
  assumes "lr_inv g s" and c: "1 \<le> c" "c < 40" and "g_cache g t c \<noteq> []"
  shows "\<exists>x g' s'. PopBlock t c s = Inr (x, s') \<and> lr_alloc_post g s x (lbs c) g' s' \<and> small_used g' c x"
proof -
  obtain x xs where L: "g_cache g t c = x # xs" using assms(4) by (cases "g_cache g t c") auto
  note pb = PopBlock_ok [OF assms(1) c L]
  let ?g = "g\<lparr>g_place := (g_place g)(x := InUse), g_cache := (g_cache g)(t := (g_cache g t)(c := xs))\<rparr>"
  obtain s' where s': "PopBlock t c s = Inr (x, s')" "lr_inv ?g s'" "lr_bytes s' = lr_bytes s" using pb(1) by blast
  have "lr_alloc_post g s x (lbs c) ?g s'"
    unfolding lr_alloc_post_def using s'(2,3) pb(2,3) by auto
  moreover have "small_used ?g c x" using pb(4) by (simp add: small_used_def)
  ultimately show ?thesis using s'(1) by blast
qed

lemma malloc_small_cases:
  assumes inv: "lr_inv g s" and "os_ok os" and sz: "unat sz \<le> 14336"
  defines "c \<equiv> sizeclass_lookup (unat sz)"
  shows "(\<exists>x g' s'. lr_malloc_small os t sz s = Inr (x, s') \<and> lr_alloc_post g s x (lbs c) g' s' \<and> small_used g' c x)
    \<or> (lr_malloc_small os t sz s = Inl Segfault \<and> \<not> can_map os s (of_nat (lsb c)))"
proof -
  note sc = size_class [OF inv sz, folded c_def]
  show ?thesis
  proof (cases "g_cache g t c = []")
    case True
    then have n: "GetBlockNum (lr_TCache s t c) = 0" using bin_count [OF inv sc(2,3), of t] by (simp add: unat_eq_zero)
    from FillCache_cases [OF inv sc(2,3) True assms(2)] show ?thesis
    proof
      assume "\<exists>g' s'. FillCache os t c s = Inr s' \<and> lr_inv g' s' \<and> lr_held g' = lr_held g
        \<and> lr_keeps g (lr_bytes s) (lr_bytes s') \<and> g_cache g' t c \<noteq> []"
      then obtain g1 s1 where 1: "FillCache os t c s = Inr s1" "lr_inv g1 s1" "lr_held g1 = lr_held g"
        "lr_keeps g (lr_bytes s) (lr_bytes s1)" "g_cache g1 t c \<noteq> []" by blast
      obtain x g' s' where 2: "PopBlock t c s1 = Inr (x, s')" "lr_alloc_post g1 s1 x (lbs c) g' s'" "small_used g' c x"
        using PopBlock_post [OF 1(2) sc(2,3) 1(5)] by blast
      have "lr_malloc_small os t sz s = Inr (x, s')" using sc(1) n 1(1) 2(1) by (simp add: lr_malloc_small_def)
      then show ?thesis using alloc_post_after [OF 2(2) 1(3,4)] 2(3) by blast
    next
      assume "FillCache os t c s = Inl Segfault \<and> \<not> can_map os s (of_nat (lsb c))"
      then show ?thesis using sc(1) n by (simp add: lr_malloc_small_def)
    qed
  next
    case False
    then have n: "GetBlockNum (lr_TCache s t c) \<noteq> 0" using bin_count [OF inv sc(2,3), of t] by auto
    then show ?thesis using PopBlock_post [OF inv sc(2,3) False] sc(1) by (simp add: lr_malloc_small_def)
  qed
qed

text \<open>Three outcomes: a block, null for a large request, and a crash for a small one.\<close>

lemma malloc_cases:
  assumes inv: "lr_inv g s" and os: "os_ok os" and sz: "unat sz \<le> 4294963200"
  shows "(\<exists>p n g' s'. lf_malloc os t sz s = Inr (p, s') \<and> lr_alloc_post g s p n g' s' \<and> unat sz \<le> n)
    \<or> (\<exists>g' s'. lf_malloc os t sz s = Inr (0, s') \<and> lr_inv g' s' \<and> lr_held g' = lr_held g
        \<and> lr_keeps g (lr_bytes s) (lr_bytes s') \<and> sz > lr_MAX_SZ \<and> \<not> can_map os s (lr_need sz))
    \<or> (lf_malloc os t sz s = Inl Segfault \<and> \<not> can_map os s (lr_need sz))"
proof (cases "sz > lr_MAX_SZ")
  case True
  then have need: "lr_need sz = lr_PAGE_CEILING sz" by (simp add: lr_need_def)
  consider "room os (lr_maps s) (desc_room g [lr_PAGE_CEILING sz])"
    | "room os (lr_maps s) (desc_room g [])" "\<not> room os (lr_maps s) (desc_room g [lr_PAGE_CEILING sz])"
    | "\<not> room os (lr_maps s) (desc_room g [])" using desc_room_Nil by blast
  then show ?thesis
  proof cases
    case 1
    from malloc_large_ok [OF inv os True sz 1, of t] page_ceiling(4) [OF sz] show ?thesis
      unfolding lf_malloc_def by blast
  next
    case 2
    have "\<not> can_map os s (lr_need sz)" using 2(2) can_map_desc unfolding need by blast
    with malloc_large_refused [OF inv os True 2, of t] show ?thesis using True unfolding lf_malloc_def by blast
  next
    case 3
    then have "\<not> can_map os s (lr_need sz)" using can_map_desc desc_room_Nil unfolding need by blast
    moreover have "lf_malloc os t sz s = Inl Segfault"
      using True lr_inv_init(1) [OF inv] DescAlloc_refused [OF inv 3]
      by (simp add: lf_malloc_def lr_do_malloc_def ensure_init_def)
    ultimately show ?thesis by blast
  qed
next
  case False
  then have sz': "unat sz \<le> 14336" by (simp add: word_less_nat_alt)
  have run: "lf_malloc os t sz s = lr_malloc_small os t sz s"
    using False lr_inv_init(1) [OF inv] by (simp add: lf_malloc_def lr_do_malloc_def ensure_init_def)
  from malloc_small_cases [OF inv os sz', of t] size_class(4) [OF inv sz'] show ?thesis
    using False unfolding run lr_need_def by auto
qed

subsection \<open>Deallocation\<close>

lemma free_small_ok:
  assumes inv: "lr_inv g s" and x: "small_used g c x"
  shows "\<exists>g' s'. lr_do_free t x s = Inr s' \<and> lr_free_post g s x g' s'"
proof -
  from x obtain b d where b: "g_own g b = Some (OSmall d c)" "x \<in> blocks c b"
    unfolding small_used_def in_small_def by blast
  note pl = lr_inv_small(2) [OF inv b(1)]
  have c: "1 \<le> c" "c < 40" using sb_place_class [OF pl] by auto
  have al: "al64 d" using lr_inv_small(3) [OF inv b(1)] desc_at_al64 [OF lr_invD(1) [OF inv]] by blast
  have "pm_entry s (AddrToKey x) = d OR of_nat c"
    using lr_inv_small(1) [OF inv b(1)] block_facts(4) [OF b(2) pl] unfolding small_ok_def by blast
  then have info: "GetPageInfoForPtr x s = Inr (d OR of_nat c)"
    using page_access(1) [OF lr_invD(1) [OF inv] lr_inv_init(4) [OF inv]] by (simp add: GetPageInfoForPtr_def)
  have pi: "PageInfo_GetScIdx (d OR of_nat c) = c" using info_get(2) [OF al, of c] c by simp
  have cb: "unat (cacheBlockNum (SizeClasses s ! c)) = lnum c"
    using lr_inv_init(2) [OF inv] unat_class [OF c] by simp
  have "\<exists>g1 s1. (if GetBlockNum (lr_TCache s t c) \<ge> cacheBlockNum (SizeClasses s ! c) then FlushCache t c s else Inr s) = Inr s1
      \<and> lr_inv g1 s1 \<and> lr_held g1 = lr_held g \<and> lr_keeps g (lr_bytes s) (lr_bytes s1)
      \<and> length (g_cache g1 t c) < lnum c \<and> small_used g1 = small_used g"
  proof (cases "GetBlockNum (lr_TCache s t c) \<ge> cacheBlockNum (SizeClasses s ! c)")
    case True
    then show ?thesis using FlushCache_ok [OF inv c, of t] lr_class_facts(8) [OF c] by (fastforce simp: flushed_def)
  next
    case False
    then have "length (g_cache g t c) < lnum c"
      using bin_count [OF inv c, of t] cb by (simp add: word_le_nat_alt)
    then show ?thesis using False inv by auto
  qed
  then obtain g1 s1 where
    1: "(if GetBlockNum (lr_TCache s t c) \<ge> cacheBlockNum (SizeClasses s ! c) then FlushCache t c s else Inr s) = Inr s1"
    and inv1: "lr_inv g1 s1" and h1: "lr_held g1 = lr_held g" and k1: "lr_keeps g (lr_bytes s) (lr_bytes s1)"
    and len: "length (g_cache g1 t c) < lnum c" and su: "small_used g1 = small_used g" by blast
  have "small_used g1 c x" using x su by simp
  then have x1: "in_small (g_own g1) c x" "g_place g1 x = InUse" by (simp_all add: small_used_def)
  note pb = PushBlock_ok [OF inv1 c x1 len]
  let ?g2 = "g1\<lparr>g_place := (g_place g1)(x := InCache t),
    g_cache := (g_cache g1)(t := (g_cache g1 t)(c := x # g_cache g1 t c))\<rparr>"
  obtain s2 where 2: "PushBlock t c x s1 = Inr s2" "lr_inv ?g2 s2" "lr_keeps ?g2 (lr_bytes s1) (lr_bytes s2)"
    using pb(1) by blast
  have "lr_do_free t x s = Inr s2"
    using info pi c 1 2(1) by (simp add: lr_do_free_def Let_def split: if_splits)
  moreover have "lr_keeps ?g2 (lr_bytes s) (lr_bytes s2)"
  proof (rule lr_keeps_trans [OF _ 2(3)])
    show "lr_keeps ?g2 (lr_bytes s) (lr_bytes s1)" using k1 pb(2) unfolding lr_keeps_def h1 by blast
  qed simp
  moreover have "\<forall>y k. lr_held ?g2 y k \<longleftrightarrow> y \<noteq> x \<and> lr_held g y k" using pb(2) unfolding h1 by blast
  ultimately show ?thesis using 2(2) unfolding lr_free_post_def by blast
qed

lemma free_ok:
  assumes inv: "lr_inv g s" and "lr_held g p n"
  shows "\<exists>g' s'. lf_free t p s = Inr s' \<and> lr_free_post g s p g' s'"
  using assms
proof (cases rule: lr_heldE)
  case (small b d c)
  then have "small_used g c p" unfolding small_used_def in_small_def by blast
  moreover have "p \<noteq> 0"
  proof -
    have "unat b \<le> unat p" by (rule block_facts(2) [OF small(2,5)])
    moreover have "b \<noteq> 0" using small(5) unfolding sb_place_def by blast
    ultimately show ?thesis by (metis le_zero_eq unat_0 unat_eq_zero)
  qed
  ultimately show ?thesis using free_small_ok [OF inv, of c p t] by (simp add: lf_free_def)
next
  case (large b d m)
  have "unat b \<le> unat p" using large(3) unfolding large_ok_def within_def by blast
  moreover have "b \<noteq> 0" by (rule inv_mapsD(1) [OF lr_invD(1) [OF inv] large(1)])
  ultimately have "p \<noteq> 0" by (metis le_zero_eq unat_0 unat_eq_zero)
  then show ?thesis using free_large_ok [OF inv large(1), of t] by (simp add: lf_free_def)
qed

end
