(* ===== verification/LrAligned.thy ===== *)
theory LrAligned
  imports LrOps
begin

text \<open>
  Aligned allocation. A request of at most a page is rounded up to a multiple of the alignment and
  served like any other: the block size of its class is then a multiple of the alignment too. For
  more the block has pages of its own, and for an alignment above a page the program gets the first
  aligned address inside them.
\<close>

subsection \<open>Size classes and alignment\<close>

lemma class_table_aligned:
  "list_all (\<lambda>(n, p). list_all (\<lambda>k. n mod 2 ^ k = 0 \<or> n div 2 ^ k = p div 2 ^ k) [0..<13])
     (zip (map fst lr_class_table) (0 # map fst lr_class_table))"
  unfolding lr_class_table_def by (simp add: upt_rec)

lemma class_aligned:
  assumes n: "0 < n" "n \<le> 14336" "n mod 2 ^ k = 0" and k: "k \<le> 12"
  shows "lbs (sizeclass_lookup n) mod 2 ^ k = 0"
proof -
  let ?c = "sizeclass_lookup n"
  have b: "1 \<le> ?c" "?c < 40" "n \<le> lbs ?c" "\<And>c. 1 \<le> c \<Longrightarrow> c < ?c \<Longrightarrow> lbs c < n"
    using sizeclass_lookup_best [OF n(2)] by (auto simp: lbs_bsz)
  let ?p = "(0 # map fst lr_class_table) ! (?c - 1)"
  let ?L = "zip (map fst lr_class_table) (0 # map fst lr_class_table)"
  have len: "length lr_class_table = 39" by (simp add: lr_class_table_def)
  have "?L ! (?c - 1) = (lbs ?c, ?p)" using b(1,2) len by (simp add: lbs_def)
  moreover have "?L ! (?c - 1) \<in> set ?L" by (rule nth_mem) (use b(1,2) len in simp)
  ultimately have "(lbs ?c, ?p) \<in> set ?L" by simp
  then have alt: "lbs ?c mod 2 ^ k = 0 \<or> lbs ?c div 2 ^ k = ?p div 2 ^ k"
    using class_table_aligned [unfolded list_all_iff, rule_format, of "(lbs ?c, ?p)"] k by simp
  have p: "?p < n"
  proof (cases "?c = 1")
    case False
    then have "?p = lbs (?c - 1)" using b(1,2) len by (simp add: lbs_def nth_Cons')
    then show ?thesis using b(4) [of "?c - 1"] b(1) False by simp
  qed (use n in simp)
  show ?thesis
  proof (rule ccontr)
    assume "lbs ?c mod 2 ^ k \<noteq> 0"
    then have "n div 2 ^ k \<le> ?p div 2 ^ k" using alt b(3) by (metis div_le_mono)
    then have "n div 2 ^ k * 2 ^ k \<le> ?p" by (metis div_times_less_eq_dividend le_trans mult_le_mono1)
    then show False using p n(3) by (metis add.right_neutral div_mult_mod_eq leD)
  qed
qed

lemma small_block_aligned:
  assumes inv: "lr_inv g s" and x: "small_used g (sizeclass_lookup n) x"
    and n: "0 < n" "n \<le> 14336" "n mod 2 ^ k = 0" and k: "k \<le> 12"
  shows "unat x mod 2 ^ k = 0"
proof -
  let ?c = "sizeclass_lookup n"
  from x obtain b d where b: "g_own g b = Some (OSmall d ?c)" "x \<in> blocks ?c b"
    unfolding small_used_def in_small_def by blast
  note pl = lr_inv_small(2) [OF inv b(1)]
  obtain j where j: "unat x = unat b + j * lbs ?c" using b(2) pl by (elim blocksE)
  have "(2 :: nat) ^ k dvd 4096" using le_imp_power_dvd [of k 12 "2 :: nat"] k by simp
  moreover have "4096 dvd unat b" using pl unfolding sb_place_def by (intro mod_0_imp_dvd) blast
  ultimately have "2 ^ k dvd unat b" by (rule dvd_trans)
  moreover have "2 ^ k dvd lbs ?c" using class_aligned [OF n k] by (rule mod_0_imp_dvd)
  ultimately have "2 ^ k dvd unat x" unfolding j by simp
  then show ?thesis by simp
qed

subsection \<open>Pages with room for the alignment\<close>

text \<open>The size that is mapped, as the code computes it.\<close>

definition aligned_size :: "u64 \<Rightarrow> u64 \<Rightarrow> u64" where
  "aligned_size al size1 = (let size2 = max size1 (lr_MAX_SZ + 1) in if al > lr_PAGE then size2 + al else size2)"

lemma aligned_large_ok:
  assumes inv: "lr_inv g s" and "os_ok os" and l: "unat (aligned_size al size1) \<le> 4294963200"
    and "room os (lr_maps s) (desc_room g [lr_PAGE_CEILING (aligned_size al size1)])"
    and al: "isPowerOfTwo al" "lr_ALIGN_VAL sz al = size1" "size1 > lr_PAGE"
  defines "n \<equiv> unat (lr_PAGE_CEILING (aligned_size al size1))"
  assumes u: "\<And>p. unat p mod 4096 = 0 \<Longrightarrow> p \<noteq> 0 \<Longrightarrow> unat p + n \<le> 281474976710656
    \<Longrightarrow> within p n (U p) \<and> unat (U p) mod 4096 = 0"
    and U: "U = (\<lambda>p. if al > lr_PAGE then lr_ALIGN_ADDR p al else p)"
  shows "\<exists>p g' s'. do_aligned_alloc os t al sz s = Inr (U p, s')
    \<and> lr_alloc_post g s (U p) (n - (unat (U p) - unat p)) g' s' \<and> unat p mod 4096 = 0 \<and> unat p + n \<le> 281474976710656"
proof -
  let ?N = "lr_PAGE_CEILING (aligned_size al size1)"
  note pc = page_ceiling [OF l, folded n_def]
  obtain d g1 s1 where d1: "DescAlloc os s = Inr (d, s1)" "lr_ext g s g1 s1" "loose g1 d" "room os (lr_maps s1) [?N]"
    using DescAlloc_room [OF assms(1,2) desc_room_Nil [OF assms(4)]] assms(4) by blast
  have inv1: "lr_inv g1 s1" and h1: "lr_held g1 = lr_held g" and k1: "lr_keeps g (lr_bytes s) (lr_bytes s1)"
    using d1(2) by (simp_all add: lr_ext_def)
  define p where "p = os (lr_maps s1) ?N"
  let ?g2 = "g1\<lparr>g_own := (g_own g1)(p \<mapsto> OLoose n)\<rparr>" and ?s2 = "fresh_map p n s1"
  have os: "os (lr_maps s1) ?N \<noteq> - 1" using d1(4) by simp
  note fd = fresh_desc [OF inv1 d1(3) assms(2) os, folded p_def n_def]
  have da: "ldesc_at (g_own ?g2) d" using fd(3) unfolding loose_def by blast
  have p2: "g_own ?g2 p = Some (OLoose n)" by simp
  note pm = inv_mapsD [OF lr_invD(1) [OF fd(2)] p2]
  have pp: "unat p mod 4096 = 0" "unat p + n \<le> 281474976710656" using pm(2,4) by simp_all
  note up = u [OF pp(1) fd(7) pp(2)]
  let ?v = "(lr_descs s1 d)\<lparr>ds_heap := None, ds_blockSize := ucast ?N, ds_maxcount := 1, ds_superblock := p, ds_anchor := large_anchor\<rparr>"
  let ?s4 = "?s2\<lparr>lr_descs := (lr_descs ?s2)(d := ?v)\<rparr>"
  let ?pm = "(pm_entry ?s2)(AddrToKey p := d)"
  let ?pm' = "if al > lr_PAGE then ?pm(AddrToKey (U p) := d) else ?pm"
  have acc: "upd_desc d f s' = Inr (s'\<lparr>lr_descs := (lr_descs s')(d := f (lr_descs s' d))\<rparr>)"
    if "lr_maps s' = lr_maps ?s2" for f s'
    using desc_access(2) [OF _ da, of s'] lr_invD(1) [OF fd(2)] that by simp
  have inv4: "lr_inv ?g2 ?s4" by (rule lr_inv_loose_desc [OF fd(2,3)])
  have reg: "RegisterDesc d ?s4 = Inr (?s4\<lparr>pm_entry := ?pm\<rparr>)" using RegisterDesc_large [OF inv4 da] by simp
  have bb: "within p n p" using pm(3) by (simp add: within_def)
  have inv5: "lr_inv ?g2 (?s4\<lparr>pm_entry := ?pm\<rparr>)" using set_page_loose [OF inv4 p2 bb, of d] by simp
  have upd: "UpdatePageMap None x d 0 (?s4\<lparr>pm_entry := ?pm\<rparr>) = Inr (?s4\<lparr>pm_entry := ?pm(AddrToKey x := d)\<rparr>)" for x
    using set_page [OF inv5, of x d 0] by simp
  have post: "lr_alloc_post ?g2 ?s2 (U p) (n - (unat (U p) - unat p)) (?g2\<lparr>g_own := (g_own ?g2)(p \<mapsto> OLarge d n (U p))\<rparr>)
      (?s2\<lparr>lr_descs := (lr_descs ?s2)(d := ?v), pm_entry := ?pm'\<rparr>)"
    by (rule large_set_up [OF fd(2,3) p2]) (use pc up U in simp_all)
  have "lr_keeps g (lr_bytes s) (lr_bytes ?s2)" using lr_keeps_trans [OF k1 fd(6)] h1 by simp
  then have post': "lr_alloc_post g s (U p) (n - (unat (U p) - unat p)) (?g2\<lparr>g_own := (g_own ?g2)(p \<mapsto> OLarge d n (U p))\<rparr>)
      (?s2\<lparr>lr_descs := (lr_descs ?s2)(d := ?v), pm_entry := ?pm'\<rparr>)"
    using alloc_post_after [OF post] fd(5) h1 by simp
  have run: "do_aligned_alloc os t al sz s = Inr (U p, ?s2\<lparr>lr_descs := (lr_descs ?s2)(d := ?v), pm_entry := ?pm'\<rparr>)"
    using al d1(1) fd(1,4) reg upd [of "lr_ALIGN_ADDR p al"] U lr_inv_init(1) [OF inv]
    by (cases "al > lr_PAGE") (simp_all add: do_aligned_alloc_def ensure_init_def aligned_size_def Let_def acc)
  show ?thesis by (intro exI conjI, rule run, rule post', rule pp(1), rule pp(2))
qed

subsection \<open>Aligned allocation\<close>

lemma round_up_mult:
  assumes "0 < (a :: nat)"
  shows "x \<le> (x + (a - 1)) div a * a" and "(x + (a - 1)) div a * a < x + a"
proof -
  have d: "(x + (a - 1)) div a * a + (x + (a - 1)) mod a = x + (a - 1)" by (rule div_mult_mod_eq)
  have m: "(x + (a - 1)) mod a < a" using assms by simp
  show "x \<le> (x + (a - 1)) div a * a" using d m by linarith
  show "(x + (a - 1)) div a * a < x + a" using d assms by linarith
qed

text \<open>The pages an aligned request may need.\<close>

definition aligned_need :: "u64 \<Rightarrow> u64 \<Rightarrow> u64" where
  "aligned_need al sz =
     (let size1 = lr_ALIGN_VAL sz al in
      if size1 > lr_PAGE then lr_PAGE_CEILING (aligned_size al size1)
      else of_nat (lsb (sizeclass_lookup (unat size1))))"

lemma aligned_sizes:
  assumes al: "isPowerOfTwo al" and sz: "unat sz + 2 * unat al \<le> 4294963200"
  defines "size1 \<equiv> lr_ALIGN_VAL sz al"
  obtains k where "k \<le> 30" and "unat al = 2 ^ k" and "al = 2 ^ k" and "unat size1 = (unat sz + (2 ^ k - 1)) div 2 ^ k * 2 ^ k"
    and "unat sz \<le> unat size1" and "unat size1 < unat sz + 2 ^ k"
    and "unat (aligned_size al size1) = max (unat size1) 14337 + (if 2 ^ k > (4096 :: nat) then 2 ^ k else 0)"
    and "unat (aligned_size al size1) \<le> 4294963200"
proof -
  obtain k where k: "k < 64" "al = 2 ^ k" using al unfolding isPowerOfTwo_iff by blast
  have "unat (of_nat (2 ^ k) :: u64) = 2 ^ k"
    using power_strict_increasing [OF k(1), of "2 :: nat"] by (intro unat_of_nat64) simp_all
  then have u: "unat al = 2 ^ k" using k(2) by simp
  have "(2 :: nat) ^ k < 2 ^ 31" using sz u by simp
  then have "k < 31" by (rule power_less_imp_less_exp [rotated]) simp
  then have k30: "k \<le> 30" by simp
  then have p30: "(2 :: nat) ^ k \<le> 1073741824" using power_increasing [of k 30 "2 :: nat"] by simp
  have s1: "unat size1 = (unat sz + (2 ^ k - 1)) div 2 ^ k * 2 ^ k"
    unfolding size1_def k(2) using sz u k(1) by (intro lr_ALIGN_VAL_unat) simp_all
  have pos: "0 < (2 :: nat) ^ k" by simp
  note r = round_up_mult [OF pos, of "unat sz"]
  have gt: "al > lr_PAGE \<longleftrightarrow> 2 ^ k > (4096 :: nat)" using u by (simp add: word_less_nat_alt)
  have mx: "unat (max size1 (lr_MAX_SZ + 1)) = max (unat size1) 14337" by (simp add: max_def word_le_nat_alt)
  have le: "max (unat size1) 14337 + 2 ^ k \<le> 4294963200" using r(2) s1 sz u p30 by (simp add: max_def)
  have "unat (max size1 (lr_MAX_SZ + 1) + al) = max (unat size1) 14337 + 2 ^ k"
    using mx u le by (subst unat_plus64) simp_all
  then have as: "unat (aligned_size al size1) = max (unat size1) 14337 + (if 2 ^ k > (4096 :: nat) then 2 ^ k else 0)"
    using gt mx by (simp add: aligned_size_def Let_def)
  show thesis
    by (rule that [OF k30 u k(2) s1 _ _ as]) (use r s1 as le in \<open>simp_all add: max_def split: if_splits\<close>)
qed

lemma aligned_inside:
  assumes k: "k \<le> 30" and p: "unat p mod 4096 = 0" "unat p + n \<le> 281474976710656" and n: "0 < n"
    and big: "2 ^ k > (4096 :: nat) \<Longrightarrow> 2 ^ k \<le> n"
  defines "u \<equiv> (if 2 ^ k > (4096 :: nat) then lr_ALIGN_ADDR p (2 ^ k) else p)"
  shows "within p n u" and "unat u mod 4096 = 0" and "unat u mod 2 ^ k = 0"
    and "unat u - unat p < (if 2 ^ k > (4096 :: nat) then 2 ^ k else 1)"
proof -
  have "within p n u \<and> unat u mod 4096 = 0 \<and> unat u mod 2 ^ k = 0
    \<and> unat u - unat p < (if 2 ^ k > (4096 :: nat) then 2 ^ k else 1)"
  proof (cases "2 ^ k > (4096 :: nat)")
    case True
    have p30: "(2 :: nat) ^ k \<le> 1073741824" using power_increasing [OF k, of "2 :: nat"] by simp
    have u: "unat u = (unat p + (2 ^ k - 1)) div 2 ^ k * 2 ^ k"
      unfolding u_def if_P [OF True] using p(2) p30 k by (intro lr_ALIGN_VAL_unat) simp_all
    have pos: "0 < (2 :: nat) ^ k" by simp
    note r = round_up_mult [OF pos, of "unat p", folded u]
    have "12 < k"
    proof (rule ccontr)
      assume "\<not> 12 < k"
      then show False using power_increasing [of k 12 "2 :: nat"] True by simp
    qed
    then have "(4096 :: nat) dvd 2 ^ k" using le_imp_power_dvd [of 12 k "2 :: nat"] by simp
    moreover have d: "2 ^ k dvd unat u" unfolding u by simp
    ultimately have "4096 dvd unat u" by (rule dvd_trans)
    moreover have "unat u < unat p + n" using r(2) big [OF True] by linarith
    moreover have "unat u - unat p < 2 ^ k" using r by linarith
    ultimately show ?thesis using r(1) True d unfolding within_def by (intro conjI) simp_all
  next
    case False
    have "k \<le> 12"
    proof (rule ccontr)
      assume "\<not> k \<le> 12"
      then show False using power_increasing [of 13 k "2 :: nat"] False by simp
    qed
    then have "(2 :: nat) ^ k dvd 4096" using le_imp_power_dvd [of k 12 "2 :: nat"] by simp
    moreover have "4096 dvd unat p" using p(1) by (rule mod_0_imp_dvd)
    ultimately have "2 ^ k dvd unat p" by (rule dvd_trans)
    then show ?thesis using p(1) n False unfolding within_def u_def by (intro conjI) simp_all
  qed
  then show "within p n u" and "unat u mod 4096 = 0" and "unat u mod 2 ^ k = 0"
    and "unat u - unat p < (if 2 ^ k > (4096 :: nat) then 2 ^ k else 1)" by blast+
qed

lemma aligned_alloc_ok:
  assumes inv: "lr_inv g s" and os: "os_ok os" and al: "isPowerOfTwo al" and sz: "unat sz + 2 * unat al \<le> 4294963200"
    and room: "can_map os s (aligned_need al sz)"
  shows "\<exists>p n g' s'. do_aligned_alloc os t al sz s = Inr (p, s') \<and> lr_alloc_post g s p n g' s' \<and> unat sz \<le> n
    \<and> (0 < unat sz \<longrightarrow> unat p mod unat al = 0)"
proof -
  let ?s1 = "lr_ALIGN_VAL sz al"
  obtain k where k: "k \<le> 30" "unat al = 2 ^ k" "al = 2 ^ k" and s1: "unat ?s1 = (unat sz + (2 ^ k - 1)) div 2 ^ k * 2 ^ k"
    "unat sz \<le> unat ?s1" and as: "unat (aligned_size al ?s1) = max (unat ?s1) 14337 + (if 2 ^ k > (4096 :: nat) then 2 ^ k else 0)"
    "unat (aligned_size al ?s1) \<le> 4294963200" using aligned_sizes [OF al sz] by blast
  have gt: "al > lr_PAGE \<longleftrightarrow> 2 ^ k > (4096 :: nat)" using k(2) by (simp add: word_less_nat_alt)
  have mod1: "unat ?s1 mod 2 ^ k = 0" unfolding s1(1) by simp
  show ?thesis
  proof (cases "?s1 > lr_PAGE")
    case True
    let ?n = "unat (lr_PAGE_CEILING (aligned_size al ?s1))"
    define U where "U = (\<lambda>p. if al > lr_PAGE then lr_ALIGN_ADDR p al else p)"
    note pc = page_ceiling [OF as(2)]
    have n: "unat ?s1 + (if 2 ^ k > (4096 :: nat) then 2 ^ k else 0) \<le> ?n" "0 < ?n" using pc(4) as(1) by auto
    have Up: "U p = (if 2 ^ k > (4096 :: nat) then lr_ALIGN_ADDR p (2 ^ k) else p)" for p using gt k(3) by (simp add: U_def)
    have big: "2 ^ k > (4096 :: nat) \<Longrightarrow> 2 ^ k \<le> ?n" using n(1) by simp
    note ai = aligned_inside [OF k(1) _ _ n(2) big]
    have up: "within p ?n (U p) \<and> unat (U p) mod 4096 = 0"
      if "unat p mod 4096 = 0" "p \<noteq> 0" "unat p + ?n \<le> 281474976710656" for p
      unfolding Up using ai(1,2) [OF that(1,3)] by blast
    have rm: "room os (lr_maps s) (desc_room g [lr_PAGE_CEILING (aligned_size al ?s1)])"
      using can_map_desc [OF room] True by (simp add: aligned_need_def)
    have "\<exists>p g' s'. do_aligned_alloc os t al sz s = Inr (U p, s')
        \<and> lr_alloc_post g s (U p) (?n - (unat (U p) - unat p)) g' s' \<and> unat p mod 4096 = 0 \<and> unat p + ?n \<le> 281474976710656"
      by (rule aligned_large_ok [OF inv os as(2) rm al refl True _ U_def]) (rule up; assumption)
    then obtain p g' s' where p: "do_aligned_alloc os t al sz s = Inr (U p, s')"
      "lr_alloc_post g s (U p) (?n - (unat (U p) - unat p)) g' s'" "unat p mod 4096 = 0" "unat p + ?n \<le> 281474976710656"
      by (elim exE conjE)
    have fits: "unat sz \<le> ?n - (unat (U p) - unat p)"
      using ai(4) [OF p(3,4)] n(1) s1(2) unfolding Up by (auto split: if_splits)
    have mult: "unat (U p) mod unat al = 0" using ai(3) [OF p(3,4)] k(2) unfolding Up by simp
    show ?thesis by (intro exI conjI impI, rule p(1), rule p(2), rule fits, rule mult)
  next
    case False
    then have le: "unat ?s1 \<le> 4096" by (simp add: word_less_nat_alt)
    let ?c = "sizeclass_lookup (unat ?s1)"
    have run: "do_aligned_alloc os t al sz s = lr_malloc_small os t ?s1 s"
      using al False lr_inv_init(1) [OF inv] by (simp add: do_aligned_alloc_def ensure_init_def Let_def)
    have "can_map os s (of_nat (lsb ?c))" using room False by (simp add: aligned_need_def)
    moreover have le': "unat ?s1 \<le> 14336" using le by simp
    ultimately obtain x g' s' where x: "lr_malloc_small os t ?s1 s = Inr (x, s')" "lr_alloc_post g s x (lbs ?c) g' s'" "small_used g' ?c x"
      using malloc_small_cases [OF inv os le'] by blast
    have "unat sz \<le> lbs ?c" using size_class(4) [OF inv le'] s1(2) by simp
    moreover have "unat x mod unat al = 0" if "0 < unat sz"
    proof -
      have pos: "0 < unat ?s1" using that s1(2) by simp
      have "(2 :: nat) ^ k \<le> 4096" using mod1 pos le dvd_imp_le [of "2 ^ k" "unat ?s1"] by (simp add: mod_eq_0_iff_dvd)
      then have "k \<le> 12"
        using power_increasing [of 13 k "2 :: nat"] by (cases "k \<le> 12") simp_all
      moreover have "lr_inv g' s'" using x(2) by (simp add: lr_alloc_post_def)
      ultimately show ?thesis using small_block_aligned [OF _ x(3) pos le' mod1] k(2) by simp
    qed
    ultimately show ?thesis using run x(1,2) by auto
  qed
qed

end
