(* ===== verification/LrInit.thy ===== *)
theory LrInit
  imports LrAligned
begin

text \<open>
  The first call: \<^verbatim>\<open>InitMalloc\<close> maps the page map and initialises the size classes and the heaps.
  Afterwards the program holds nothing, and the invariant holds.
\<close>

lemma lr_init_heaps:
  "fold init_ProcHeap [0..<n] s
   = s\<lparr>Heaps := (\<lambda>c. if c < n then \<lparr>ph_partialList = 0, ph_scIdx = c\<rparr> else Heaps s c)\<rparr>"
  by (induction n) (auto simp: init_ProcHeap_def less_Suc_eq fun_eq_iff)

definition g_init :: "addr \<Rightarrow> lr_ghost" where
  "g_init p = \<lparr>g_own = [p \<mapsto> OPageMap], g_place = (\<lambda>_. InUse), g_free = (\<lambda>_. []),
     g_cache = (\<lambda>_ _. []), g_avail = [], g_part = (\<lambda>_. [])\<rparr>"

lemma g_init_held: "lr_held (g_init p) x n \<longleftrightarrow> False"
  by (auto simp: lr_held_def in_small_def g_init_def split: if_splits)

definition s_init :: "addr \<Rightarrow> lr_state" where
  "s_init p = lr_start\<lparr>MallocInit := True, SizeClasses := SizeClasses_ready, SizeClassLookup := sizeclass_lookup,
     lr_maps := [(unat p, unat p + 2199023255552)], lr_bytes := (\<lambda>_. 0), lr_descs := (\<lambda>_. zero_desc),
     pm_base := p, pm_entry := (\<lambda>_. 0),
     Heaps := (\<lambda>c. if c < 40 then \<lparr>ph_partialList = 0, ph_scIdx = c\<rparr> else Heaps lr_start c)\<rparr>"

lemma lr_start_simps:
  "lr_maps lr_start = []" "lr_bytes lr_start = (\<lambda>_. 0)" "lr_descs lr_start = (\<lambda>_. zero_desc)"
  "SizeClasses lr_start = SizeClasses_init" "SizeClassLookup lr_start = (\<lambda>_. 0)" "\<not> MallocInit lr_start"
  "AvailDesc lr_start = 0" "lr_TCache lr_start = (\<lambda>_ _. \<lparr>tc_block = 0, tc_blockNum = 0\<rparr>)"
  by (simp_all add: lr_start_def)

lemma InitMalloc_run:
  assumes "os [] PM_SZ \<noteq> MAP_FAILED"
  shows "InitMalloc os lr_start = Inr (s_init (os [] PM_SZ))"
  using assms InitSizeClass_eq
  by (simp add: InitMalloc_def Let_def PageMap_Init_def PageAllocOvercommit_def mmap_def lr_init_heaps s_init_def lr_start_simps
      cong: if_cong)

lemma s_init_inv:
  assumes "os_ok os" and "os [] PM_SZ \<noteq> MAP_FAILED"
  defines "p \<equiv> os [] PM_SZ"
  shows "lr_inv (g_init p) (s_init p)" and "lr_maps (s_init p) = [(unat p, unat p + 2199023255552)]"
proof -
  have n: "unat PM_SZ = 2199023255552" by simp
  note ok = os_okD [OF assms(1), of "[]" PM_SZ, folded p_def, unfolded n]
  have p: "p \<noteq> 0" "unat p mod 4096 = 0" "unat p + 2199023255552 \<le> 281474976710656"
    using ok(2-4) assms(2) by (simp_all add: p_def)
  show mp: "lr_maps (s_init p) = [(unat p, unat p + 2199023255552)]" by (simp add: s_init_def)
  have "inv_maps Map.empty []" by (simp add: inv_maps_def)
  from inv_maps_cons [OF this _ p(1,2), of OPageMap] p(3)
  have "inv_maps [p \<mapsto> OPageMap] (lr_maps (s_init p))" unfolding mp by (simp add: in_maps_def)
  moreover have "inv_cache [p \<mapsto> OPageMap] (\<lambda>_. InUse) (\<lambda>_ _. []) (lr_TCache (s_init p)) (lr_bytes (s_init p))"
    by (auto simp: inv_cache_def bin_ok_def in_small_def s_init_def lr_start_simps split: if_splits)
  ultimately show "lr_inv (g_init p) (s_init p)"
    unfolding lr_inv_def g_init_def
    by (auto simp: inv_init_def inv_avail_def inv_part_def inv_small_def inv_large_def s_init_def lr_start_simps
        split: if_splits)
qed

text \<open>A first call behaves as one on the initialised state.\<close>

lemma first_call:
  assumes "InitMalloc os lr_start = Inr s0" and "MallocInit s0"
  shows "lf_malloc os t sz lr_start = lf_malloc os t sz s0"
    and "isPowerOfTwo al \<Longrightarrow> do_aligned_alloc os t al sz lr_start = do_aligned_alloc os t al sz s0"
proof -
  have "ensure_init os lr_start = ensure_init os s0"
    using assms by (simp add: ensure_init_def lr_start_def)
  then show "lf_malloc os t sz lr_start = lf_malloc os t sz s0"
    and "isPowerOfTwo al \<Longrightarrow> do_aligned_alloc os t al sz lr_start = do_aligned_alloc os t al sz s0"
    by (simp_all add: lf_malloc_def lr_do_malloc_def do_aligned_alloc_def Let_def)
qed

end
