(* ===== verification/LrClient.thy ===== *)
theory LrClient
  imports LrInit AllocSpec
begin

text \<open>
  lrmalloc as its clients see it: a step runs \<^verbatim>\<open>lf_malloc\<close>, \<^verbatim>\<open>lf_free\<close> or the end of a thread, or
  writes into memory. It implements the contract of an allocator, the one ralloc implements.
\<close>

subsection \<open>Blocks\<close>

definition lr_blocks :: "lr_ghost \<Rightarrow> (addr \<times> nat) set" where
  "lr_blocks g = {(x, n). lr_held g x n}"

definition lr_live_bytes :: "lr_ghost \<Rightarrow> addr set" where
  "lr_live_bytes g = (\<Union>b \<in> lr_blocks g. bytes b)"

lemma lr_keeps_live: "lr_keeps g m m' \<longleftrightarrow> (\<forall>a \<in> lr_live_bytes g. m' a = m a)"
  unfolding lr_keeps_def lr_live_bytes_def lr_blocks_def bytes_def by fastforce

lemma held_facts:
  assumes inv: "lr_inv g s" and h: "lr_held g x n"
  shows "x \<noteq> 0" and "unat x mod 8 = 0" and "0 < n" and "unat x + n \<le> 281474976710656"
proof -
  obtain b w where w: "g_own g b = Some w" "unat b \<le> unat x" "unat x + n \<le> unat b + osize w" "0 < n"
    "(\<exists>d c. w = OSmall d c \<and> x \<in> blocks c b \<and> n = lbs c \<and> sb_place c b) \<or> (\<exists>d m. w = OLarge d m x)"
    using held_range [OF inv h] by blast
  note m = inv_mapsD [OF lr_invD(1) [OF inv] w(1)]
  show "0 < n" by fact
  show "unat x + n \<le> 281474976710656" using w(3) m(4) by linarith
  show "x \<noteq> 0" using w(2) m(1) by (metis le_zero_eq unat_0 unat_eq_zero)
  show "unat x mod 8 = 0"
    using w(5)
  proof (elim disjE exE conjE)
    fix d c
    assume "x \<in> blocks c b" and "sb_place c b"
    then show ?thesis using block_facts(1) [of x c b] by (simp add: aligned8_def)
  next
    fix d k
    assume "w = OLarge d k x"
    then have "unat x mod 4096 = 0" using lr_inv_large [OF inv, of b d k x] w(1) unfolding large_ok_def by blast
    then have "4096 dvd unat x" by (rule mod_0_imp_dvd)
    moreover have "(8 :: nat) dvd 4096" by simp
    ultimately have "8 dvd unat x" by (rule dvd_trans [rotated])
    then show ?thesis by simp
  qed
qed

lemma held_bytes_disjoint:
  assumes inv: "lr_inv g s" and "lr_held g x n" and "lr_held g y k" and "x \<noteq> y"
  shows "bytes (x, n) \<inter> bytes (y, k) = {}"
proof -
  have "x + of_nat i \<noteq> y + of_nat j" if "i < n" "j < k" for i j
    using held_byte [OF inv assms(2) that(1)] held_byte [OF inv assms(3) that(2)]
      held_disjoint [OF inv assms(2-4)] that by auto
  then show ?thesis by (auto simp: bytes_def)
qed

lemma held_size_unique:
  assumes inv: "lr_inv g s" and x: "lr_held g x n" and y: "lr_held g x k"
  shows "k = n"
proof -
  obtain b w where w: "g_own g b = Some w" "unat b \<le> unat x" "unat x + n \<le> unat b + osize w" "0 < n"
    "(\<exists>d c. w = OSmall d c \<and> x \<in> blocks c b \<and> n = lbs c \<and> sb_place c b) \<or> (\<exists>d m. w = OLarge d m x)"
    using held_range [OF inv x] by blast
  show ?thesis using w(5)
  proof (elim disjE exE conjE)
    fix d c
    assume c: "w = OSmall d c" "x \<in> blocks c b" "n = lbs c"
    then have "in_small (g_own g) c x" using w(1) unfolding in_small_def by blast
    then show ?thesis using held_small [OF inv] y c(3) by blast
  next
    fix d m
    assume b: "w = OLarge d m x"
    have "\<not> in_small (g_own g) c x" for c using small_not_large [OF inv] w(1) b by blast
    moreover have "b' = b \<and> m' = m" if b': "g_own g b' = Some (OLarge d' m' x)" for b' d' m'
    proof -
      have "within b' m' x" using lr_inv_large [OF inv b'] unfolding large_ok_def by blast
      then have "b' = b \<and> OLarge d' m' x = w"
        using owner_unique [OF lr_invD(1) [OF inv] w(1) b', of "unat x"] w(2-4) by (simp add: within_def)
      then show ?thesis using b by simp
    qed
    ultimately show ?thesis using x y unfolding lr_held_def by metis
  qed
qed

text \<open>A program may write what it likes into its blocks.\<close>

lemma user_bytes:
  assumes inv: "lr_inv g s" and m: "\<And>a. a \<notin> lr_live_bytes g \<Longrightarrow> m a = lr_bytes s a"
  shows "lr_inv g (s\<lparr>lr_bytes := m\<rparr>)"
proof (rule lr_inv_mem [OF inv])
  fix x
  assume "tracked g x"
  then obtain c where x: "in_small (g_own g) c x" "g_place g x \<noteq> InUse" unfolding tracked_def by blast
  have "x + of_nat j \<notin> lr_live_bytes g" if j: "j < 8" for j
  proof
    assume "x + of_nat j \<in> lr_live_bytes g"
    then obtain y n i where "lr_held g y n" "i < n" "x + of_nat j = y + of_nat i"
      unfolding lr_live_bytes_def lr_blocks_def bytes_def by auto
    then show False using tracked_held_apart [OF inv x _ _ j] by metis
  qed
  then show "load64 m x = load64 (lr_bytes s) x" using m by (intro load64_cong) blast
qed

subsection \<open>Steps\<close>

inductive lr_step :: "kernel \<Rightarrow> lr_state \<Rightarrow> event \<Rightarrow> lr_state \<Rightarrow> bool" for os where
  call_malloc: "lr_step os s (EMalloc sz p) s'" if "lf_malloc os t sz s = Inr (p, s')" and "p \<noteq> 0"
| call_refused: "lr_step os s (ERefuse sz) s'" if "lf_malloc os t sz s = Inr (0, s')"
| call_free: "lr_step os s (EFree p) s'" if "lf_free t p s = Inr s'"
| program_write: "lr_step os s (EWrite a v) (s\<lparr>lr_bytes := (lr_bytes s)(a := v)\<rparr>)"
| thread_exit: "lr_step os s EExit s'" if "lf_malloc_thread_finalize t s = Inr s'"

subsection \<open>Simulation\<close>

text \<open>The kernel keeps to the documentation of \<^verbatim>\<open>mmap\<close>, and the address space has room for the page map.\<close>

definition kernel_ok :: "kernel \<Rightarrow> bool" where
  "kernel_ok os \<longleftrightarrow> os_ok os \<and> os [] PM_SZ \<noteq> MAP_FAILED"

definition lr_rel :: "lr_ghost \<Rightarrow> lr_state \<Rightarrow> spec \<Rightarrow> bool" where
  "lr_rel g s A \<longleftrightarrow> lr_inv g s \<and> owned A = lr_blocks g \<and> (\<forall>a \<in> lr_live_bytes g. content A a = lr_bytes s a)"

definition lr_sim :: "kernel \<Rightarrow> lr_state \<Rightarrow> spec \<Rightarrow> bool" where
  "lr_sim os s A \<longleftrightarrow> kernel_ok os \<and> (s = lr_start \<and> owned A = {} \<or> (\<exists>g. lr_rel g s A))"

lemma lr_rel_held: "lr_rel g s A \<Longrightarrow> held A = lr_live_bytes g"
  by (simp add: lr_rel_def held_def lr_live_bytes_def)

lemma lr_blocks_init: "lr_blocks (g_init p) = {}"
  by (simp add: lr_blocks_def g_init_held)

lemma lr_sim_started:
  assumes "lr_sim os s A"
  shows "\<exists>g s0. lr_rel g s0 A \<and> (\<forall>t sz. lf_malloc os t sz s = lf_malloc os t sz s0)"
proof (cases "s = lr_start \<and> owned A = {}")
  case True
  have k: "os_ok os" "os [] PM_SZ \<noteq> MAP_FAILED" using assms by (simp_all add: lr_sim_def kernel_ok_def)
  let ?p = "os [] PM_SZ"
  note inv = s_init_inv(1) [OF k]
  have "lr_rel (g_init ?p) (s_init ?p) A"
    using inv True lr_blocks_init [of ?p] by (simp add: lr_rel_def lr_live_bytes_def)
  moreover have "lf_malloc os t sz s = lf_malloc os t sz (s_init ?p)" for t sz
    using first_call(1) [OF InitMalloc_run [where os = os, OF k(2)] lr_inv_init(1) [OF inv], of t sz] True by simp
  ultimately show ?thesis by blast
qed (use assms in \<open>auto simp: lr_sim_def\<close>)

lemma lr_rel_alloc:
  assumes rel: "lr_rel g s A" and post: "lr_alloc_post g s p n g' s'" and sz: "unat sz \<le> n"
  shows "p \<noteq> 0" and "\<exists>A'. spec_step A (EMalloc sz p) A' \<and> lr_rel g' s' A'"
proof -
  have inv: "lr_inv g' s'" and h: "\<And>x k. lr_held g' x k \<longleftrightarrow> lr_held g x k \<or> (x = p \<and> k = n)"
    and new: "\<And>k. \<not> lr_held g p k" and keep: "lr_keeps g (lr_bytes s) (lr_bytes s')"
    using post by (simp_all add: lr_alloc_post_def)
  have hp: "lr_held g' p n" using h by blast
  note f = held_facts [OF inv hp]
  show "p \<noteq> 0" by (rule f(1))
  have bl: "lr_blocks g' = insert (p, n) (lr_blocks g)" using h by (auto simp: lr_blocks_def)
  have "bytes (p, n) \<inter> bytes b = {}" if bg: "b \<in> lr_blocks g" for b
  proof -
    obtain x k where b: "b = (x, k)" "lr_held g x k" using bg by (auto simp: lr_blocks_def)
    have "x \<noteq> p" using new b(2) by auto
    then show ?thesis using held_bytes_disjoint [OF inv hp, of x k] h b by simp
  qed
  then have dis: "bytes (p, n) \<inter> held A = {}" unfolding lr_rel_held [OF rel] lr_live_bytes_def by blast
  have keep': "lr_bytes s' a = content A a" if "a \<in> held A" for a
    using that keep rel unfolding lr_rel_held [OF rel] lr_keeps_live by (simp add: lr_rel_def)
  let ?A = "\<lparr>owned = insert (p, n) (owned A), content = lr_bytes s'\<rparr>"
  have "spec_step A (EMalloc sz p) ?A" by (rule spec_step.malloc [OF sz f(1,2) dis keep'])
  moreover have "lr_rel g' s' ?A" using inv bl rel by (simp add: lr_rel_def)
  ultimately show "\<exists>A'. spec_step A (EMalloc sz p) A' \<and> lr_rel g' s' A'" by blast
qed

lemma lr_rel_quiet:
  assumes rel: "lr_rel g s A" and "lr_inv g' s'" and "lr_held g' = lr_held g" and "lr_keeps g (lr_bytes s) (lr_bytes s')"
  shows "lr_rel g' s' (A\<lparr>content := lr_bytes s'\<rparr>)" and "\<And>a. a \<in> held A \<Longrightarrow> lr_bytes s' a = content A a"
proof -
  show "lr_rel g' s' (A\<lparr>content := lr_bytes s'\<rparr>)"
    using assms by (simp add: lr_rel_def lr_blocks_def)
  show "\<And>a. a \<in> held A \<Longrightarrow> lr_bytes s' a = content A a"
    using assms(4) rel unfolding lr_rel_held [OF rel] lr_keeps_live by (simp add: lr_rel_def)
qed

lemma lr_rel_free:
  assumes rel: "lr_rel g s A" and p: "(p, n) \<in> owned A" and post: "lr_free_post g s p g' s'"
  shows "\<exists>A'. spec_step A (EFree p) A' \<and> lr_rel g' s' A'"
proof -
  have inv: "lr_inv g s" "lr_inv g' s'" and h: "\<And>x k. lr_held g' x k \<longleftrightarrow> x \<noteq> p \<and> lr_held g x k"
    and keep: "lr_keeps g' (lr_bytes s) (lr_bytes s')"
    using post rel by (simp_all add: lr_free_post_def lr_rel_def)
  have hp: "lr_held g p n" using p rel by (simp add: lr_rel_def lr_blocks_def)
  have bl: "lr_blocks g' = owned A - {(p, n)}"
    using h rel held_size_unique [OF inv(1) hp] by (auto simp: lr_blocks_def lr_rel_def)
  let ?A = "\<lparr>owned = owned A - {(p, n)}, content = lr_bytes s'\<rparr>"
  have "spec_step A (EFree p) ?A"
  proof (rule spec_step.free [OF p])
    fix a b
    assume b: "b \<in> owned A - {(p, n)}" "a \<in> bytes b"
    then have "a \<in> lr_live_bytes g'" "a \<in> lr_live_bytes g"
      using bl rel by (auto simp: lr_live_bytes_def lr_rel_def)
    then show "lr_bytes s' a = content A a" using keep rel unfolding lr_keeps_live by (simp add: lr_rel_def)
  qed
  moreover have "lr_rel g' s' ?A" using inv(2) bl by (simp add: lr_rel_def)
  ultimately show ?thesis by blast
qed

lemma rfold_same: "(\<And>i. f i s = Inr s) \<Longrightarrow> rfold f xs s = Inr s"
  by (induction xs) simp_all

lemma finalize_start: "lf_malloc_thread_finalize t lr_start = Inr lr_start"
  unfolding lf_malloc_thread_finalize_def
  by (rule rfold_same) (simp add: FlushCache_def GetBlockNum_def lr_start_simps)

lemma lr_sim_step:
  assumes sim: "lr_sim os s A" and al: "allowed A e" and st: "lr_step os s e s'"
  shows "\<exists>A'. spec_step A e A' \<and> lr_sim os s' A'"
proof -
  have k: "kernel_ok os" "os_ok os" using sim by (simp_all add: lr_sim_def kernel_ok_def)
  have intro: "lr_rel g2 s2 A2 \<Longrightarrow> lr_sim os s2 A2" for g2 s2 A2 using k(1) by (auto simp: lr_sim_def)
  obtain g0 s0 where s0: "lr_rel g0 s0 A" "\<And>t sz. lf_malloc os t sz s = lf_malloc os t sz s0"
    using lr_sim_started [OF sim] by blast
  have inv0: "lr_inv g0 s0" using s0(1) by (simp add: lr_rel_def)
  show ?thesis
    using st
  proof cases
    case (call_malloc t sz p)
    then have sz: "unat sz \<le> 4294963200" using al by simp
    from malloc_cases [OF inv0 k(2) sz, of t] call_malloc obtain n g' where
      "lr_alloc_post g0 s0 p n g' s'" "unat sz \<le> n" unfolding s0(2) by auto
    then show ?thesis using lr_rel_alloc(2) [OF s0(1)] call_malloc(1) intro by blast
  next
    case (call_refused t sz)
    then have sz: "unat sz \<le> 4294963200" using al by simp
    have "\<not> (lr_alloc_post g0 s0 0 n g' s' \<and> unat sz \<le> n)" for n g' using lr_rel_alloc(1) [OF s0(1)] by blast
    with malloc_cases [OF inv0 k(2) sz, of t] call_refused(2) obtain g' where
      q: "lr_inv g' s'" "lr_held g' = lr_held g0" "lr_keeps g0 (lr_bytes s0) (lr_bytes s')" unfolding s0(2) by auto
    note rq = lr_rel_quiet [OF s0(1) q]
    have "spec_step A (ERefuse sz) (A\<lparr>content := lr_bytes s'\<rparr>)" by (rule spec_step.refuse) (rule rq(2))
    then show ?thesis using rq(1) call_refused(1) intro by blast
  next
    case (call_free t p)
    show ?thesis
    proof (cases "p = 0")
      case True
      then have "s' = s" using call_free(2) by (simp add: lf_free_def)
      then show ?thesis using True sim call_free(1) spec_step.free_null by blast
    next
      case False
      then obtain n where n: "(p, n) \<in> owned A" using al call_free(1) by auto
      then obtain g where rel: "lr_rel g s A" using sim by (auto simp: lr_sim_def)
      then have "lr_inv g s" "lr_held g p n" using n by (simp_all add: lr_rel_def lr_blocks_def)
      from free_ok [OF this, of t] call_free(2) obtain g' where "lr_free_post g s p g' s'" by auto
      then show ?thesis using lr_rel_free [OF rel n] call_free(1) intro by blast
    qed
  next
    case (program_write a v)
    then have a: "a \<in> held A" using al by simp
    then obtain g where rel: "lr_rel g s A" using sim by (auto simp: lr_sim_def held_def)
    let ?A = "A\<lparr>content := (content A)(a := v)\<rparr>"
    have "spec_step A (EWrite a v) ?A" using a by (rule spec_step.store)
    moreover have "lr_rel g s' ?A"
    proof -
      have "a \<in> lr_live_bytes g" using a lr_rel_held [OF rel] by simp
      then have "lr_inv g s'"
        using rel unfolding program_write(2) lr_rel_def by (intro user_bytes) auto
      then show ?thesis using rel unfolding program_write(2) by (simp add: lr_rel_def)
    qed
    ultimately show ?thesis using program_write(1) intro by blast
  next
    case (thread_exit t)
    show ?thesis
    proof (cases "s = lr_start \<and> owned A = {}")
      case True
      then have "s' = s" using thread_exit(2) finalize_start by simp
      moreover have "spec_step A EExit (A\<lparr>content := content A\<rparr>)" by (rule spec_step.leave) simp
      ultimately show ?thesis using sim thread_exit(1) by auto
    next
      case False
      then obtain g where rel: "lr_rel g s A" using sim by (auto simp: lr_sim_def)
      then have "lr_inv g s" by (simp add: lr_rel_def)
      from thread_finalize_ok [OF this, of t] thread_exit(2) obtain g' where
        q: "lr_inv g' s'" "lr_held g' = lr_held g" "lr_keeps g (lr_bytes s) (lr_bytes s')" by (auto simp: drained_def)
      note rq = lr_rel_quiet [OF rel q]
      have "spec_step A EExit (A\<lparr>content := lr_bytes s'\<rparr>)" by (rule spec_step.leave) (rule rq(2))
      then show ?thesis using rq(1) thread_exit(1) intro by blast
    qed
  qed
qed

interpretation lr_client: allocator "lr_step os" "lr_sim os" for os
  by unfold_locales (rule lr_sim_step)

end
