(* ===== verification/LrSpec.thy ===== *)
theory LrSpec
  imports LrClient
begin

text \<open>
  What lrmalloc guarantees. Every property holds for any kernel that keeps to the documentation of
  \<^verbatim>\<open>mmap\<close>; \<open>bump_kernel\<close> is one, which maps behind everything that is mapped.
\<close>

subsection \<open>A kernel\<close>

definition map_end :: "(nat \<times> nat) list \<Rightarrow> nat" where
  "map_end ms = foldr (\<lambda>(lo, hi). max hi) ms 4096"

definition bump_kernel :: kernel where
  "bump_kernel ms n =
     (let p = (map_end ms + 4095) div 4096 * 4096 in
      if n = 0 \<or> p + unat n > 140737488355328 then MAP_FAILED else of_nat p)"

lemma map_end_ge: "4096 \<le> map_end ms" and map_end_in: "in_maps ms x \<Longrightarrow> x < map_end ms"
  by (induction ms) (auto simp: map_end_def in_maps_def)

lemma bump_grants:
  assumes "n \<noteq> 0" and "map_end ms \<le> 70368744177664" and "unat n \<le> 35184372088832"
  defines "p \<equiv> (map_end ms + 4095) div 4096 * 4096"
  shows "bump_kernel ms n = of_nat p" and "unat (of_nat p :: addr) = p" and "bump_kernel ms n \<noteq> - 1"
    and "p \<le> map_end ms + 4095" and "map_end ms \<le> p"
proof -
  show p: "p \<le> map_end ms + 4095" "map_end ms \<le> p" unfolding p_def by linarith+
  then have lt: "p + unat n \<le> 140737488355328" using assms(2,3) by linarith
  show u: "unat (of_nat p :: addr) = p" using lt by (intro unat_of_nat64) simp
  show b: "bump_kernel ms n = of_nat p" using assms(1) lt by (simp add: bump_kernel_def p_def Let_def)
  have "unat (of_nat p :: addr) \<noteq> unat (- 1 :: addr)" unfolding u using lt by (simp add: unsigned_minus_1_eq_mask mask_eq_exp_minus_1)
  then show "bump_kernel ms n \<noteq> - 1" unfolding b by metis
qed

lemma bump_ok: "os_ok bump_kernel"
  unfolding os_ok_def
proof (intro allI)
  fix ms n
  let ?p = "(map_end ms + 4095) div 4096 * 4096" and ?r = "bump_kernel ms n"
  show "?r = MAP_FAILED \<or> n \<noteq> 0 \<and> ?r \<noteq> 0 \<and> unat ?r mod 4096 = 0 \<and> unat ?r + unat n \<le> 2 ^ 48
     \<and> (\<forall>x. unat ?r \<le> x \<and> x < unat ?r + unat n \<longrightarrow> \<not> in_maps ms x)"
  proof (cases "n = 0 \<or> ?p + unat n > 140737488355328")
    case False
    then have r: "?r = of_nat ?p" by (simp add: bump_kernel_def Let_def)
    have u: "unat (of_nat ?p :: addr) = ?p" using False by (intro unat_of_nat64) simp
    have p: "map_end ms \<le> ?p" by linarith
    have "of_nat ?p \<noteq> (0 :: addr)" using u map_end_ge [of ms] p by (metis le_zero_eq not_numeral_le_zero order.trans unat_0)
    then show ?thesis unfolding r u using False p map_end_in [of ms] by (intro disjI2 conjI) (auto, fastforce)
  qed (simp add: bump_kernel_def Let_def)
qed

lemma bump_room:
  assumes "n \<noteq> 0" and "map_end (lr_maps s) \<le> 35184372088832" and "unat n \<le> 17592186044416"
  shows "can_map bump_kernel s n"
proof -
  note 1 = bump_grants [of n "lr_maps s"] and d = bump_grants [of 65536 "lr_maps s"]
  let ?p = "(map_end (lr_maps s) + 4095) div 4096 * 4096"
  let ?ms = "(?p, ?p + 65536) # lr_maps s"
  have "map_end ?ms \<le> map_end (lr_maps s) + 69631" using d(4) by (simp add: map_end_def)
  then have "bump_kernel ?ms n \<noteq> - 1" using assms by (intro bump_grants(3)) simp_all
  then show ?thesis using assms 1(3) d(1,2,3) by (simp add: can_map_def)
qed

lemma bump_kernel_ok: "kernel_ok bump_kernel"
  using bump_ok bump_grants(3) [of PM_SZ "[]"] by (simp add: kernel_ok_def map_end_def)

lemma bump_page_map: "bump_kernel [] PM_SZ = 4096"
  by (simp add: bump_kernel_def map_end_def)

subsection \<open>Samples\<close>

definition sample0 :: lr_state where
  "sample0 = s_init 4096"

lemma sample0_inv: "lr_inv (g_init 4096) sample0" and sample0_maps: "lr_maps sample0 = [(4096, 2199023259648)]"
  using s_init_inv [OF bump_ok] bump_kernel_ok bump_page_map by (simp_all add: kernel_ok_def sample0_def)

lemma sample0_room: "n \<noteq> 0 \<Longrightarrow> unat n \<le> 17592186044416 \<Longrightarrow> can_map bump_kernel sample0 n"
  by (rule bump_room) (simp_all add: sample0_maps map_end_def)

lemma lr_need_bounds:
  assumes "unat sz \<le> 4294963200"
  shows "lr_need sz \<noteq> 0" and "unat (lr_need sz) \<le> 17592186044416"
proof -
  have "0 < unat (lr_need sz) \<and> unat (lr_need sz) \<le> 17592186044416"
  proof (cases "sz > lr_MAX_SZ")
    case True
    then show ?thesis using page_ceiling(2,4) [OF assms] by (simp add: lr_need_def word_less_nat_alt)
  next
    case False
    then have "unat sz \<le> 14336" by (simp add: word_less_nat_alt)
    note c = lr_lookup_best [OF this]
    have "unat (of_nat (lsb (sizeclass_lookup (unat sz))) :: u64) = lsb (sizeclass_lookup (unat sz))"
      using lr_class_facts(5) [OF c(1,2)] by (intro unat_of_nat64) simp
    then show ?thesis using False lr_class_facts(4,5) [OF c(1,2)] by (simp add: lr_need_def)
  qed
  then show "lr_need sz \<noteq> 0" and "unat (lr_need sz) \<le> 17592186044416" by auto
qed

lemma alloc_post_blocks:
  assumes "lr_alloc_post g s p n g' s'"
  shows "lr_inv g' s'" and "lr_blocks g' = insert (p, n) (lr_blocks g)" and "bytes (p, n) \<inter> lr_live_bytes g = {}"
    and "\<forall>a \<in> lr_live_bytes g. lr_bytes s' a = lr_bytes s a" and "p \<noteq> 0" and "unat p mod 8 = 0"
proof -
  have h: "\<And>x k. lr_held g' x k \<longleftrightarrow> lr_held g x k \<or> (x = p \<and> k = n)"
    and new: "\<And>k. \<not> lr_held g p k" and keep: "lr_keeps g (lr_bytes s) (lr_bytes s')"
    using assms by (simp_all add: lr_alloc_post_def)
  show inv: "lr_inv g' s'" using assms by (simp add: lr_alloc_post_def)
  have hp: "lr_held g' p n" using h by blast
  show "lr_blocks g' = insert (p, n) (lr_blocks g)" using h by (auto simp: lr_blocks_def)
  have "bytes (p, n) \<inter> bytes (x, k) = {}" if "lr_held g x k" for x k
    using held_bytes_disjoint [OF inv hp, of x k] h new that by metis
  then show "bytes (p, n) \<inter> lr_live_bytes g = {}" by (auto simp: lr_live_bytes_def lr_blocks_def)
  show "\<forall>a \<in> lr_live_bytes g. lr_bytes s' a = lr_bytes s a" using keep by (simp add: lr_keeps_live)
  show "p \<noteq> 0" and "unat p mod 8 = 0" by (rule held_facts [OF inv hp])+
qed

lemma free_post_blocks:
  assumes "lr_inv g s" and "(p, n) \<in> lr_blocks g" and "lr_free_post g s p g' s'"
  shows "lr_inv g' s'" and "lr_blocks g' = lr_blocks g - {(p, n)}"
    and "\<forall>a \<in> lr_live_bytes g'. lr_bytes s' a = lr_bytes s a"
proof -
  note f = assms(3) [unfolded lr_free_post_def]
  have hp: "lr_held g p n" using assms(2) by (simp add: lr_blocks_def)
  show "lr_inv g' s'" using f by blast
  have "lr_held g' x k \<longleftrightarrow> lr_held g x k \<and> (x, k) \<noteq> (p, n)" for x k
    using f held_size_unique [OF assms(1) hp, of k] by blast
  then show "lr_blocks g' = lr_blocks g - {(p, n)}" unfolding lr_blocks_def by blast
  show "\<forall>a \<in> lr_live_bytes g'. lr_bytes s' a = lr_bytes s a" using f unfolding lr_keeps_live by blast
qed

subsection \<open>Properties\<close>

text \<open>
  C8. \<^verbatim>\<open>lf_malloc\<close>: when the kernel has the pages that may be needed, a request of up to \<open>2 ^ 32 - 4096\<close> bytes
  returns a block that is aligned to 8 bytes, large enough and overlaps no block in use, and changes no
  byte of them. Larger sizes do not fit the 32 bits of the descriptor's \<^verbatim>\<open>blockSize\<close>.
\<close>

theorem lf_malloc_correct:
  assumes "lr_inv g s" and "os_ok os" and "unat sz \<le> 4294963200" and "can_map os s (lr_need sz)"
  shows "\<exists>p n g' s'. lf_malloc os t sz s = Inr (p, s') \<and> lr_inv g' s' \<and> lr_blocks g' = insert (p, n) (lr_blocks g)
    \<and> unat sz \<le> n \<and> p \<noteq> 0 \<and> unat p mod 8 = 0 \<and> bytes (p, n) \<inter> lr_live_bytes g = {}
    \<and> (\<forall>a \<in> lr_live_bytes g. lr_bytes s' a = lr_bytes s a)"
proof -
  obtain p n g' s' where m: "lf_malloc os t sz s = Inr (p, s')" "lr_alloc_post g s p n g' s'" "unat sz \<le> n"
    using malloc_cases [OF assms(1-3), of t] assms(4) by blast
  note b = alloc_post_blocks [OF m(2)]
  show ?thesis by (intro exI conjI; (rule m(1) | rule b | rule m(3)))
qed

theorem lf_malloc_correct_witness:
  "\<exists>p n g' s'. lf_malloc bump_kernel 0 100 sample0 = Inr (p, s') \<and> lr_blocks g' = {(p, n)} \<and> lr_inv g' s' \<and> 100 \<le> n"
proof -
  have "unat (100 :: u64) \<le> 4294963200" by simp
  note n = lr_need_bounds [OF this]
  from lf_malloc_correct [OF sample0_inv bump_ok _ sample0_room [OF n]] show ?thesis
    by (fastforce simp: lr_blocks_init)
qed

text \<open>
  C9. \<^verbatim>\<open>lf_free\<close> of a block in use returns whatever the sizes of the caches, takes exactly that block from
  the program, and changes no byte of the others. It may be called from any thread.
\<close>

theorem lf_free_correct:
  assumes "lr_inv g s" and "(p, n) \<in> lr_blocks g"
  shows "\<exists>g' s'. lf_free t p s = Inr s' \<and> lr_inv g' s' \<and> lr_blocks g' = lr_blocks g - {(p, n)}
    \<and> (\<forall>a \<in> lr_live_bytes g'. lr_bytes s' a = lr_bytes s a)"
proof -
  have "lr_held g p n" using assms(2) by (simp add: lr_blocks_def)
  then obtain g' s' where "lf_free t p s = Inr s'" "lr_free_post g s p g' s'" using free_ok [OF assms(1)] by blast
  then show ?thesis using free_post_blocks [OF assms, of g' s'] by blast
qed

lemma sample_malloc:
  assumes "unat sz \<le> 4294963200"
  shows "\<exists>p n g s. lf_malloc bump_kernel 0 sz sample0 = Inr (p, s) \<and> lr_inv g s \<and> lr_blocks g = {(p, n)} \<and> p \<noteq> 0
    \<and> unat sz \<le> n"
proof -
  obtain p n g s where "lf_malloc bump_kernel 0 sz sample0 = Inr (p, s)" "lr_alloc_post (g_init 4096) sample0 p n g s" "unat sz \<le> n"
    using malloc_cases [OF sample0_inv bump_ok assms, of 0] sample0_room [OF lr_need_bounds [OF assms]] by blast
  then show ?thesis using alloc_post_blocks(1,2,5) [of "g_init 4096" sample0 p n g s] by (auto simp: lr_blocks_init)
qed

theorem lf_free_correct_witness:
  "\<exists>p s s' g'. lf_malloc bump_kernel 0 100 sample0 = Inr (p, s) \<and> lf_free 1 p s = Inr s' \<and> lr_inv g' s' \<and> lr_blocks g' = {}"
proof -
  have "unat (100 :: u64) \<le> 4294963200" by simp
  from sample_malloc [OF this] obtain p n g s where s: "lf_malloc bump_kernel 0 100 sample0 = Inr (p, s)" "lr_inv g s" "lr_blocks g = {(p, n)}"
    by blast
  then have "(p, n) \<in> lr_blocks g" by simp
  from lf_free_correct [OF s(2) this, of 1] s show ?thesis by auto
qed



text \<open>
  C7. Refinement. Every run of lrmalloc from the start of the process, for a kernel that keeps to the
  documentation of \<^verbatim>\<open>mmap\<close> and has room for the page map, and for a program that is correct against the
  specification (it frees and writes its own blocks only, and asks for at most \<open>2 ^ 32 - 2 ^ 16\<close> bytes), is
  a run of the specification: the blocks it ends with are mapped, and have the contents the program gave
  them.
\<close>

theorem lrmalloc_refines_spec:
  assumes "kernel_ok os" and "steps (lr_step os) lr_start es s" and "correct_client \<lparr>owned = {}, content = \<lambda>_. 0\<rparr> es"
  shows "\<exists>A. spec_run \<lparr>owned = {}, content = \<lambda>_. 0\<rparr> es A \<and> (\<forall>a \<in> held A. content A a = lr_bytes s a)
    \<and> (\<forall>p n. (p, n) \<in> owned A \<longrightarrow> mapped n p s)"
proof -
  have "lr_sim os lr_start \<lparr>owned = {}, content = \<lambda>_. 0\<rparr>" using assms(1) by (simp add: lr_sim_def)
  from lr_client.sim_run [OF assms(2) this assms(3)] obtain A where
    A: "spec_run \<lparr>owned = {}, content = \<lambda>_. 0\<rparr> es A" "lr_sim os s A" by blast
  show ?thesis
  proof (cases "owned A = {}")
    case True
    then show ?thesis using A(1) by (auto simp: held_def)
  next
    case False
    then obtain g where rel: "lr_rel g s A" using A(2) by (auto simp: lr_sim_def)
    have "mapped n p s" if "(p, n) \<in> owned A" for p n
    proof -
      have inv: "lr_inv g s" and h: "lr_held g p n" using rel that by (simp_all add: lr_rel_def lr_blocks_def)
      obtain b w where "g_own g b = Some w" "unat b \<le> unat p" "unat p + n \<le> unat b + osize w"
        using held_range [OF inv h] by blast
      then show ?thesis by (rule mapped_owner [OF lr_invD(1) [OF inv]])
    qed
    moreover have "\<forall>a \<in> held A. content A a = lr_bytes s a"
      unfolding lr_rel_held [OF rel] using rel by (simp add: lr_rel_def)
    ultimately show ?thesis using A(1) by blast
  qed
qed

lemma sample_malloc_free:
  "\<exists>p s. steps (lr_step bump_kernel) lr_start [EMalloc 100 p, EFree p] s"
proof -
  have "unat (100 :: u64) \<le> 4294963200" by simp
  from sample_malloc [OF this] obtain p n g s where s: "lf_malloc bump_kernel 0 100 sample0 = Inr (p, s)" "lr_inv g s"
    "lr_blocks g = {(p, n)}" "p \<noteq> 0" by blast
  have "lf_malloc bump_kernel 0 100 lr_start = Inr (p, s)"
    using first_call(1) [OF InitMalloc_run [of bump_kernel, unfolded bump_page_map] lr_inv_init(1) [OF sample0_inv, unfolded sample0_def], of 0 100] s(1) bump_page_map bump_kernel_ok
    by (simp add: kernel_ok_def sample0_def)
  then have 1: "lr_step bump_kernel lr_start (EMalloc 100 p) s" using s(4) by (rule lr_step.call_malloc)
  have "lr_held g p n" using s(3) by (auto simp: lr_blocks_def)
  then obtain s' where "lf_free 1 p s = Inr s'" using free_ok [OF s(2)] by blast
  then have "lr_step bump_kernel s (EFree p) s'" by (rule lr_step.call_free)
  then show ?thesis using steps_pair [where stp = "lr_step bump_kernel", OF 1] by blast
qed

theorem lrmalloc_refines_spec_witness:
  "\<exists>p s A. steps (lr_step bump_kernel) lr_start [EMalloc 100 p, EFree p] s
    \<and> spec_run \<lparr>owned = {}, content = \<lambda>_. 0\<rparr> [EMalloc 100 p, EFree p] A"
proof -
  obtain p s where s: "steps (lr_step bump_kernel) lr_start [EMalloc 100 p, EFree p] s" using sample_malloc_free by blast
  from lrmalloc_refines_spec [OF bump_kernel_ok this malloc_free_correct] s show ?thesis by auto
qed

end
