(* ===== verification/LrCopy.thy ===== *)
theory LrCopy
  imports LrSpec
begin

text \<open>
  The functions that fill the blocks they allocate: \<^verbatim>\<open>lf_calloc\<close> and \<^verbatim>\<open>lf_realloc\<close>.
\<close>

subsection \<open>Filling a block\<close>

lemma held_mapped:
  assumes inv: "lr_inv g s" and h: "lr_held g p n" and "k \<le> n" and "lr_maps s' = lr_maps s"
  shows "mapped k p s'"
proof -
  obtain b w where b: "g_own g b = Some w" "unat b \<le> unat p" "unat p + n \<le> unat b + osize w"
    using held_range [OF inv h] by blast
  have "unat p + k \<le> unat b + osize w" using b(3) assms(3) by linarith
  then have "mapped k p s" using b by (intro mapped_owner [OF lr_invD(1) [OF inv]])
  then show ?thesis using assms(4) by (simp add: mapped_def)
qed

lemma in_block:
  assumes "lr_held g p n" and "unat (a - p) < n"
  shows "a \<in> bytes (p, n)" and "a \<in> lr_live_bytes g"
proof -
  have "a = p + of_nat (unat (a - p))" by simp
  then show "a \<in> bytes (p, n)" using assms(2) unfolding bytes_def by (metis (mono_tags, lifting) fst_conv mem_Collect_eq snd_conv)
  then show "a \<in> lr_live_bytes g" using assms(1) unfolding lr_live_bytes_def lr_blocks_def by blast
qed

lemma memset0_ok:
  assumes inv: "lr_inv g s" and h: "lr_held g p n" and k: "unat k \<le> n"
  shows "\<exists>s'. memset0 p k s = Inr s' \<and> lr_inv g s' \<and> (\<forall>a. unat (a - p) < unat k \<longrightarrow> lr_bytes s' a = 0)
    \<and> (\<forall>a. a \<notin> bytes (p, n) \<longrightarrow> lr_bytes s' a = lr_bytes s a)"
proof -
  let ?m = "\<lambda>a. if unat (a - p) < unat k then 0 else lr_bytes s a"
  have run: "memset0 p k s = Inr (s\<lparr>lr_bytes := ?m\<rparr>)"
    using held_mapped [OF inv h k refl] by (simp add: memset0_def touch_def)
  have out: "unat (a - p) < unat k \<Longrightarrow> a \<in> bytes (p, n) \<and> a \<in> lr_live_bytes g" for a
    using in_block [OF h, of a] k by simp
  then have "lr_inv g (s\<lparr>lr_bytes := ?m\<rparr>)" by (intro user_bytes [OF inv]) auto
  then show ?thesis using run out by (intro exI [of _ "s\<lparr>lr_bytes := ?m\<rparr>"]) auto
qed

lemma memcpy_ok:
  assumes inv: "lr_inv g s" and q: "lr_held g q n" and p: "lr_held g p k" and c: "unat c \<le> n" "unat c \<le> k"
  shows "\<exists>s'. lr_memcpy q p c s = Inr s' \<and> lr_inv g s'
    \<and> (\<forall>i < unat c. lr_bytes s' (q + of_nat i) = lr_bytes s (p + of_nat i))
    \<and> (\<forall>a. a \<notin> bytes (q, n) \<longrightarrow> lr_bytes s' a = lr_bytes s a)"
proof -
  let ?m = "\<lambda>a. if unat (a - q) < unat c then lr_bytes s (p + (a - q)) else lr_bytes s a"
  have run: "lr_memcpy q p c s = Inr (s\<lparr>lr_bytes := ?m\<rparr>)"
    using held_mapped [OF inv q c(1) refl] held_mapped [OF inv p c(2) refl] by (simp add: lr_memcpy_def touch_def)
  have out: "unat (a - q) < unat c \<Longrightarrow> a \<in> bytes (q, n) \<and> a \<in> lr_live_bytes g" for a
    using in_block [OF q, of a] c by simp
  then have inv': "lr_inv g (s\<lparr>lr_bytes := ?m\<rparr>)" by (intro user_bytes [OF inv]) auto
  have "?m (q + of_nat i) = lr_bytes s (p + of_nat i)" if "i < unat c" for i
  proof -
    have "i < 2 ^ 64" using less_trans [OF that unat_lt64] by simp
    then have "unat (of_nat i :: u64) = i" by (rule unat_of_nat64)
    then show ?thesis using that by simp
  qed
  then show ?thesis using run out inv' by (intro exI [of _ "s\<lparr>lr_bytes := ?m\<rparr>"]) auto
qed

subsection \<open>Sizes of blocks\<close>

text \<open>
  The size that the descriptor records and \<^verbatim>\<open>lf_malloc_usable_size\<close> returns is the one of the block, or,
  when the pointer is aligned upwards inside its pages, that of all the pages.
\<close>

lemma large_desc:
  assumes inv: "lr_inv g s" and own: "g_own g b = Some (OLarge d m p)" and "p \<noteq> 0"
  shows "GetPageInfoForPtr p s = Inr d" and "PageInfo_GetDesc d = d" and "get_desc d s = Inr (lr_descs s d)"
    and "ucast (ds_blockSize (lr_descs s d)) = (of_nat m :: u64)" and "m < 4294967296"
    and "lf_malloc_usable_size p s = Inr (of_nat m)"
proof -
  note lo = lr_inv_large [OF inv own, unfolded large_ok_def]
  have al: "ldesc_at (g_own g) d" "al64 d" using lo desc_at_al64 [OF lr_invD(1) [OF inv], of d] by auto
  have "pm_entry s (AddrToKey p) = d" using lo by blast
  then show info: "GetPageInfoForPtr p s = Inr d"
    using page_access(1) [OF lr_invD(1) [OF inv] lr_inv_init(4) [OF inv]] by (simp add: GetPageInfoForPtr_def)
  show pi: "PageInfo_GetDesc d = d" using info_get(1) [OF al(2), of 0] by simp
  show get: "get_desc d s = Inr (lr_descs s d)" by (rule desc_access(1) [OF lr_invD(1) [OF inv] al(1)])
  show lt: "m < 4294967296" using lo by blast
  show bs: "ucast (ds_blockSize (lr_descs s d)) = (of_nat m :: u64)" using lo ucast64_of_nat [OF lt] by simp
  show "lf_malloc_usable_size p s = Inr (of_nat m)"
    using info pi get bs info_get(2) [OF al(2), of 0] assms(3) by (simp add: lf_malloc_usable_size_def Let_def)
qed

lemma held_desc:
  assumes inv: "lr_inv g s" and "lr_held g p n"
  shows "\<exists>info m. GetPageInfoForPtr p s = Inr info \<and> get_desc (PageInfo_GetDesc info) s = Inr (lr_descs s (PageInfo_GetDesc info))
    \<and> ucast (ds_blockSize (lr_descs s (PageInfo_GetDesc info))) = (of_nat m :: u64) \<and> m < 4294967296 \<and> n \<le> m
    \<and> lf_malloc_usable_size p s = Inr (of_nat m)"
  using assms
proof (cases rule: lr_heldE)
  case (small b d c)
  note b = small(1) and pl = small(5) and sm = lr_inv_small(1) [OF inv small(1), unfolded small_ok_def]
  have c: "1 \<le> c" "c < 40" using sb_place_class [OF pl] by auto
  have al: "al64 d" using lr_inv_small(3) [OF inv b] desc_at_al64 [OF lr_invD(1) [OF inv]] by blast
  have "pm_entry s (AddrToKey p) = d OR of_nat c" using sm block_facts(4) [OF small(2) pl] by blast
  then have info: "GetPageInfoForPtr p s = Inr (d OR of_nat c)"
    using page_access(1) [OF lr_invD(1) [OF inv] lr_inv_init(4) [OF inv]] by (simp add: GetPageInfoForPtr_def)
  have pi: "PageInfo_GetDesc (d OR of_nat c) = d" "PageInfo_GetScIdx (d OR of_nat c) = c" using info_get [OF al, of c] c by simp_all
  have get: "get_desc d s = Inr (lr_descs s d)" by (rule desc_access(1) [OF lr_invD(1) [OF inv] lr_inv_small(3) [OF inv b]])
  have lt: "n < 4294967296" using lr_class_facts(2) [OF c] small(4) by simp
  have bs: "ucast (ds_blockSize (lr_descs s d)) = (of_nat n :: u64)" using sm small(4) ucast64_of_nat [OF lt] by simp
  have "p \<noteq> 0" by (rule held_facts(1) [OF assms])
  then have "lf_malloc_usable_size p s = Inr (of_nat n)"
    using info pi c lr_inv_init(2) [OF inv] SizeClasses_ready_nth(1) [OF c] small(4) ucast64_of_nat [OF lt]
    by (simp add: lf_malloc_usable_size_def Let_def)
  then show ?thesis using info pi(1) get bs lt by auto
next
  case (large b d m)
  note ld = large_desc [OF inv large(1) held_facts(1) [OF assms]]
  show ?thesis using ld large(2) by (intro exI [of _ d] exI [of _ m]) simp
qed

subsection \<open>Properties\<close>

text \<open>The test of \<^verbatim>\<open>lf_calloc\<close> for overflow is exact.\<close>

lemma calloc_check:
  fixes n sz :: u64
  assumes "n \<noteq> 0"
  shows "(n * sz) div n = sz \<longleftrightarrow> unat n * unat sz < 2 ^ 64"
proof -
  have pos: "0 < unat n" using assms by (simp add: unat_gt_0)
  have d: "(n * sz) div n = sz \<longleftrightarrow> unat (n * sz) div unat n = unat sz" by (simp add: word_unat_eq_iff unat_div)
  show ?thesis
  proof
    assume "(n * sz) div n = sz"
    then have "unat n * unat sz \<le> unat (n * sz)" using d times_div_less_eq_dividend [of "unat n" "unat (n * sz)"] by simp
    from le_less_trans [OF this unat_lt64] show "unat n * unat sz < 2 ^ 64" by simp
  next
    assume "unat n * unat sz < 2 ^ 64"
    then have "unat (n * sz) = unat n * unat sz" by (simp add: unat_word_ariths(2))
    then show "(n * sz) div n = sz" using d pos by simp
  qed
qed

text \<open>
  C28. \<^verbatim>\<open>lf_calloc\<close> returns null for products that do not fit a word and for a count of 0; for a product of up
  to \<open>2 ^ 32 - 4096\<close> bytes, when the kernel has the pages that may be needed, it returns a new block of
  which the bytes asked for are zero and that overlaps no block in use, and changes no byte of them.
\<close>

theorem lf_calloc_correct:
  assumes "lr_inv g s" and "os_ok os"
  shows "(n = 0 \<or> 2 ^ 64 \<le> unat n * unat sz \<longrightarrow> lf_calloc os t n sz s = Inr (0, s))
    \<and> (n \<noteq> 0 \<and> unat n * unat sz \<le> 4294963200 \<and> can_map os s (lr_need (n * sz)) \<longrightarrow>
       (\<exists>p k g' s'. lf_calloc os t n sz s = Inr (p, s') \<and> lr_inv g' s' \<and> lr_blocks g' = insert (p, k) (lr_blocks g)
         \<and> unat n * unat sz \<le> k \<and> p \<noteq> 0 \<and> bytes (p, k) \<inter> lr_live_bytes g = {}
         \<and> (\<forall>j < unat n * unat sz. lr_bytes s' (p + of_nat j) = 0)
         \<and> (\<forall>a \<in> lr_live_bytes g. lr_bytes s' a = lr_bytes s a)))"
proof (intro conjI impI)
  assume "n = 0 \<or> 2 ^ 64 \<le> unat n * unat sz"
  then show "lf_calloc os t n sz s = Inr (0, s)" using calloc_check [of n sz] by (auto simp: lf_calloc_def Let_def)
next
  assume a: "n \<noteq> 0 \<and> unat n * unat sz \<le> 4294963200 \<and> can_map os s (lr_need (n * sz))"
  then have u: "unat (n * sz) = unat n * unat sz" by (simp add: unat_word_ariths(2))
  then have le: "unat (n * sz) \<le> 4294963200" and room: "can_map os s (lr_need (n * sz))" using a by simp_all
  obtain p k g' s1 where m: "lf_malloc os t (n * sz) s = Inr (p, s1)" "lr_alloc_post g s p k g' s1" "unat (n * sz) \<le> k"
    using malloc_cases [OF assms le, of t] room by blast
  note b = alloc_post_blocks [OF m(2)]
  have h: "lr_held g' p k" using b(2) by (auto simp: lr_blocks_def)
  obtain s' where s': "memset0 p (n * sz) s1 = Inr s'" "lr_inv g' s'"
    "\<forall>a. unat (a - p) < unat (n * sz) \<longrightarrow> lr_bytes s' a = 0" "\<forall>a. a \<notin> bytes (p, k) \<longrightarrow> lr_bytes s' a = lr_bytes s1 a"
    using memset0_ok [OF b(1) h m(3)] by blast
  have "(n * sz) div n = sz" using calloc_check [of n sz] a by simp
  then have run: "lf_calloc os t n sz s = Inr (p, s')" using a m(1) s'(1) b(5) by (simp add: lf_calloc_def Let_def lf_malloc_def)
  have zero: "\<forall>j < unat n * unat sz. lr_bytes s' (p + of_nat j) = 0"
  proof (intro allI impI)
    fix j assume j: "j < unat n * unat sz"
    then have "unat (of_nat j :: u64) = j" using a by (intro unat_of_nat64) simp
    then show "lr_bytes s' (p + of_nat j) = 0" using s'(3) j u by simp
  qed
  have keep: "\<forall>a \<in> lr_live_bytes g. lr_bytes s' a = lr_bytes s a" using s'(4) b(3,4) by (metis disjoint_iff)
  have k: "unat n * unat sz \<le> k" using m(3) u by simp
  show "\<exists>p k g' s'. lf_calloc os t n sz s = Inr (p, s') \<and> lr_inv g' s' \<and> lr_blocks g' = insert (p, k) (lr_blocks g)
    \<and> unat n * unat sz \<le> k \<and> p \<noteq> 0 \<and> bytes (p, k) \<inter> lr_live_bytes g = {}
    \<and> (\<forall>j < unat n * unat sz. lr_bytes s' (p + of_nat j) = 0) \<and> (\<forall>a \<in> lr_live_bytes g. lr_bytes s' a = lr_bytes s a)"
    using run s'(2) b(2,3,5) k zero keep by blast
qed

theorem lf_calloc_correct_witness:
  "lf_calloc bump_kernel 0 4294967296 4294967296 sample0 = Inr (0, sample0)
    \<and> (\<exists>p k g' s'. lf_calloc bump_kernel 0 10 10 sample0 = Inr (p, s') \<and> lr_inv g' s' \<and> lr_blocks g' = {(p, k)}
         \<and> lr_bytes s' (p + of_nat 99) = 0)"
proof -
  have "unat (100 :: u64) \<le> 4294963200" by simp
  then have room: "can_map bump_kernel sample0 (lr_need 100)" by (intro sample0_room lr_need_bounds)
  have "lf_calloc bump_kernel 0 4294967296 4294967296 sample0 = Inr (0, sample0)"
    using lf_calloc_correct [OF sample0_inv bump_ok, of 4294967296 4294967296 0] by simp
  moreover have "\<exists>p k g' s'. lf_calloc bump_kernel 0 10 10 sample0 = Inr (p, s') \<and> lr_inv g' s' \<and> lr_blocks g' = insert (p, k) (lr_blocks (g_init 4096))
      \<and> (\<forall>j < 100. lr_bytes s' (p + of_nat j) = 0)"
    using lf_calloc_correct [OF sample0_inv bump_ok, of 10 10 0] room by (auto simp del: of_nat_numeral)
  then obtain p k g' s' where "lf_calloc bump_kernel 0 10 10 sample0 = Inr (p, s')" "lr_inv g' s'" "lr_blocks g' = {(p, k)}"
    "\<forall>j < 100. lr_bytes s' (p + of_nat j) = 0" by (auto simp: lr_blocks_init)
  moreover from this(4) have "lr_bytes s' (p + of_nat 99) = 0" by (rule allE [of _ 99]) simp
  ultimately show ?thesis by blast
qed

text \<open>
  C29. \<^verbatim>\<open>lf_realloc\<close> of a block in use to a size from 1 to \<open>2 ^ 32 - 4096\<close> bytes, when the kernel has the pages
  that may be needed and the recorded size is the one of the block: the block returned is large enough and holds
  the old contents; it is the old one when that is large enough, and else a new one and the old one is
  free; no byte of another block changes. The recorded size is that of all the pages when the pointer was
  aligned upwards inside them; for such a pointer the theorem says nothing.
\<close>

theorem lf_realloc_correct:
  assumes "lr_inv g s" and "os_ok os" and "(p, n) \<in> lr_blocks g" and "lf_malloc_usable_size p s = Inr (of_nat n)"
    and "sz \<noteq> 0" and "unat sz \<le> 4294963200" and "can_map os s (lr_need sz)"
  shows "\<exists>q k g' s'. lf_realloc os t p sz s = Inr (q, s') \<and> lr_inv g' s'
    \<and> lr_blocks g' = insert (q, k) (lr_blocks g - {(p, n)}) \<and> unat sz \<le> k \<and> (unat sz \<le> n \<longrightarrow> q = p \<and> s' = s)
    \<and> (\<forall>j < n. lr_bytes s' (q + of_nat j) = lr_bytes s (p + of_nat j))
    \<and> (\<forall>a \<in> lr_live_bytes g - bytes (p, n). lr_bytes s' a = lr_bytes s a)"
proof -
  have h: "lr_held g p n" using assms(3) by (simp add: lr_blocks_def)
  obtain info m where i: "GetPageInfoForPtr p s = Inr info" "get_desc (PageInfo_GetDesc info) s = Inr (lr_descs s (PageInfo_GetDesc info))"
    "ucast (ds_blockSize (lr_descs s (PageInfo_GetDesc info))) = (of_nat m :: u64)" "m < 4294967296" "n \<le> m"
    "lf_malloc_usable_size p s = Inr (of_nat m)" using held_desc [OF assms(1) h] by blast
  have p0: "p \<noteq> 0" by (rule held_facts(1) [OF assms(1) h])
  have un: "unat (of_nat n :: u64) = n" "unat (of_nat m :: u64) = m" using i(4,5) by (simp_all add: unat_of_nat64)
  have "(of_nat n :: u64) = of_nat m" using assms(4) i(6) by simp
  then have "m = n" using un by metis
  then have run: "lf_realloc os t p sz s = (if sz \<le> of_nat n then Inr (p, s) else realloc_move os t p (of_nat n) sz s)"
    using i(1-3) p0 assms(5) by (simp add: lf_realloc_def Let_def)
  show ?thesis
  proof (cases "unat sz \<le> n")
    case True
    then have "lf_realloc os t p sz s = Inr (p, s)" using run un by (simp add: word_le_nat_alt)
    moreover have "lr_blocks g = insert (p, n) (lr_blocks g - {(p, n)})" using assms(3) by blast
    ultimately show ?thesis using True assms(1) by blast
  next
    case False
    obtain q k g1 s1 where q: "lf_malloc os t sz s = Inr (q, s1)" "lr_alloc_post g s q k g1 s1" "unat sz \<le> k"
      using malloc_cases [OF assms(1,2,6), of t] assms(7) by blast
    note b = alloc_post_blocks [OF q(2)]
    have hq: "lr_held g1 q k" and hp: "lr_held g1 p n" using b(2) assms(3) by (auto simp: lr_blocks_def)
    obtain s2 where s2: "lr_memcpy q p (of_nat n) s1 = Inr s2" "lr_inv g1 s2"
      "\<forall>i < n. lr_bytes s2 (q + of_nat i) = lr_bytes s1 (p + of_nat i)" "\<forall>a. a \<notin> bytes (q, k) \<longrightarrow> lr_bytes s2 a = lr_bytes s1 a"
      using memcpy_ok [OF b(1) hq hp, of "of_nat n"] un(1) False q(3) by auto
    obtain g' s' where f: "lf_free t p s2 = Inr s'" "lr_free_post g1 s2 p g' s'" using free_ok [OF s2(2) hp] by blast
    have "(p, n) \<in> lr_blocks g1" using b(2) assms(3) by blast
    note fb = free_post_blocks [OF s2(2) this f(2)]
    have mv: "lf_realloc os t p sz s = Inr (q, s')"
      using run un False q(1) s2(1) f(1) p0 b(5) by (simp add: realloc_move_def lf_malloc_def lf_free_def word_le_nat_alt)
    have disj: "a \<notin> bytes (q, k)" if "a \<in> lr_live_bytes g" for a using b(3) that by blast
    have pl: "p + of_nat j \<in> lr_live_bytes g" if "j < n" for j
    proof -
      have "unat (of_nat j :: u64) = j" using that i(4,5) by (intro unat_of_nat64) simp
      then show ?thesis using in_block(2) [OF h, of "p + of_nat j"] that by simp
    qed
    have "(q, k) \<noteq> (p, n)" using disj [OF pl [of 0]] held_facts(3) [OF assms(1) h] in_block(1) [OF hq, of q] held_facts(3) [OF b(1) hq]
      by auto
    then have blk: "lr_blocks g' = insert (q, k) (lr_blocks g - {(p, n)})" using fb(2) b(2) by blast
    have keep: "lr_bytes s' a = lr_bytes s2 a" if "a \<in> bytes (q, k) \<or> (a \<in> lr_live_bytes g \<and> a \<notin> bytes (p, n))" for a
    proof -
      have "a \<in> lr_live_bytes g'" using that unfolding lr_live_bytes_def blk by blast
      then show ?thesis using fb(3) by blast
    qed
    have c1: "lr_bytes s' (q + of_nat j) = lr_bytes s (p + of_nat j)" if "j < n" for j
    proof -
      have "j < k" using that False q(3) by simp
      then have "q + of_nat j \<in> bytes (q, k)" by (auto simp: bytes_def)
      then show ?thesis using keep [of "q + of_nat j"] s2(3) that b(4) pl [OF that] by simp
    qed
    have c2: "\<forall>a \<in> lr_live_bytes g - bytes (p, n). lr_bytes s' a = lr_bytes s a"
      using keep disj s2(4) b(4) by auto
    show ?thesis using mv fb(1) blk q(3) False c1 c2 by blast
  qed
qed

text \<open>A large block that grows.\<close>

lemma sample_usable:
  "\<exists>p g s. lf_malloc bump_kernel 0 100000 sample0 = Inr (p, s) \<and> lr_inv g s \<and> lr_blocks g = {(p, 102400)}
    \<and> lf_malloc_usable_size p s = Inr (of_nat 102400) \<and> can_map bump_kernel s (lr_need 200000)"
proof -
  have need: "lr_need 100000 = 102400" "lr_PAGE_CEILING 100000 = 102400" "lr_need 200000 = 200704"
    by (simp_all add: lr_need_def lr_PAGE_CEILING_def)
  have room: "room bump_kernel (lr_maps sample0) (desc_room (g_init 4096) (102400 # ns))"
    if "ns \<in> {[], [200704], [65536, 200704]}" for ns
    using that by (auto simp: desc_room_def g_init_def sample0_maps bump_kernel_def map_end_def Let_def)
  obtain p g s d where p: "lr_do_malloc bump_kernel 0 100000 sample0 = Inr (p, s)" "lr_alloc_post (g_init 4096) sample0 p 102400 g s"
    "g_own g p = Some (OLarge d 102400 p)"
    "\<forall>ns. room bump_kernel (lr_maps s) ns \<longleftrightarrow> room bump_kernel (lr_maps sample0) (desc_room (g_init 4096) (102400 # ns))"
    using malloc_large_ok [OF sample0_inv bump_ok, of 100000 0] room [of "[]"] unfolding need by auto
  note b = alloc_post_blocks [OF p(2)]
  have "can_map bump_kernel s 200704" unfolding can_map_def p(4) [rule_format] by (intro conjI room) simp_all
  then show ?thesis
    using p(1) b(1,2) large_desc(6) [OF b(1) p(3) b(5)] need by (auto simp: lf_malloc_def lr_blocks_init)
qed

theorem lf_realloc_correct_witness:
  "\<exists>p s q k g' s'. lf_malloc bump_kernel 0 100000 sample0 = Inr (p, s) \<and> lf_realloc bump_kernel 1 p 200000 s = Inr (q, s')
    \<and> lr_inv g' s' \<and> lr_blocks g' = {(q, k)} \<and> 200000 \<le> k \<and> lr_bytes s' (q + of_nat 5) = lr_bytes s (p + of_nat 5)"
proof -
  obtain p g s where s: "lf_malloc bump_kernel 0 100000 sample0 = Inr (p, s)" "lr_inv g s" "lr_blocks g = {(p, 102400)}"
    "lf_malloc_usable_size p s = Inr (of_nat 102400)" "can_map bump_kernel s (lr_need 200000)"
    using sample_usable by blast
  have pb: "(p, 102400) \<in> lr_blocks g" using s(3) by simp
  have "unat (200000 :: u64) \<le> 4294963200" "(200000 :: u64) \<noteq> 0" by simp_all
  from lf_realloc_correct [OF s(2) bump_ok pb s(4) this(2,1) s(5), of 1]
  obtain q k g' s' where q: "lf_realloc bump_kernel 1 p 200000 s = Inr (q, s')" "lr_inv g' s'"
    "lr_blocks g' = insert (q, k) (lr_blocks g - {(p, 102400)})" "unat (200000 :: u64) \<le> k"
    "\<forall>j < 102400. lr_bytes s' (q + of_nat j) = lr_bytes s (p + of_nat j)" by blast
  from q(5) have "lr_bytes s' (q + of_nat 5) = lr_bytes s (p + of_nat 5)" by (rule allE [of _ 5]) simp
  then show ?thesis using s(1,3) q(1-4) by auto
qed

end
