(* ===== verification/Spec2Isabelle.thy ===== *)
theory Spec2Isabelle
  imports Client RegionConc Reopen LrSpec LrCopy
begin

text \<open>
  A verification of ralloc, a recoverable lock-free allocator for persistent memory
  (\<^verbatim>\<open>src/src\<close>), and of lrmalloc, the transient allocator it derives from
  (\<^verbatim>\<open>src/ext/lrmalloc\<close>).

  \<^bold>\<open>The program.\<close> A heap of ralloc consists of three files, each mapped as a region: an array of
  descriptors, the superblocks of 64 KiB with the blocks of the program, and the object
  \<^verbatim>\<open>BaseMeta\<close> with the list of unused superblocks, a partial list per size class, and 1024 roots. A
  request goes to the cache of the calling thread for its size class; an empty cache is filled
  from a partial superblock or a new one, a full one is flushed back; requests above 14336 bytes
  get superblocks of their own. All pointers inside the files are offsets, so that the files may be
  mapped anywhere. What has to survive a crash is flushed from the cache; a restart after a crash
  marks what is reachable from the roots and rebuilds the lists around it. lrmalloc has the same
  caches, size classes and anchors, but takes its memory from \<^verbatim>\<open>mmap\<close>, finds descriptors through a
  page map, and keeps nothing.

  \<^bold>\<open>Foundations.\<close>
  \<^item> \<open>Prelude\<close>: machine types, the result type \<open>error + 'a\<close> in which every failed \<^verbatim>\<open>assert\<close>, uncaught
    exception, \<^verbatim>\<open>exit\<close> and access outside the mappings is a value, the compare-and-swap loop, words.
    The interface \<open>ptr_repr\<close> of encoded pointers.
  \<^item> \<open>PmConfig\<close> (\<^verbatim>\<open>pm_config.hpp\<close>), \<open>Pptr\<close> (\<^verbatim>\<open>pptr.hpp\<close>), \<open>CrossPtr\<close> (\<^verbatim>\<open>CrossPtr\<close> and
    \<^verbatim>\<open>AtomicCrossPtrCnt\<close> of \<^verbatim>\<open>BaseMeta.hpp\<close>), \<open>SizeClass\<close> (\<^verbatim>\<open>SizeClass.hpp\<close>, \<^verbatim>\<open>SizeClass.cpp\<close>): encodings
    decode to what was encoded, the class of a request is the smallest that fits.
  \<^item> \<open>Memory\<close>: bytes, little-endian words, \<^verbatim>\<open>pptr\<close> cells. \<open>Lifo\<close>: the interface of an intrusive stack,
    which \<open>TCache\<close> (\<^verbatim>\<open>TCache.hpp\<close>, \<^verbatim>\<open>TCache.cpp\<close>) implements.
  \<^item> \<open>RegionManager\<close>, \<open>RegionConc\<close> (\<^verbatim>\<open>RegionManager.hpp\<close>, \<^verbatim>\<open>RegionManager.cpp\<close>): mapping files, the frontier;
    threads that extend a region at the same time, with any interleaving of loads and exchanges, get
    disjoint pieces.

  \<^bold>\<open>The allocator.\<close>
  \<^item> \<open>BaseMeta\<close> (\<^verbatim>\<open>BaseMeta.hpp\<close>, \<^verbatim>\<open>BaseMeta.cpp\<close>): the record \<open>ralloc_state\<close> has the three regions, the
    descriptors and heaps by address, the bytes of the superblocks, the thread caches, the persistent
    copy \<open>pm\<close> of the metadata and the write-backs \<open>wb\<close> that a fence completes. One definition per
    member function.
  \<^item> \<open>AHeap\<close> is the abstract heap; \<open>HeapLayout\<close> and \<open>HeapRep\<close> say how a state represents one
    (\<open>heap_rep\<close>), which includes the persistent copies of the descriptors. \<open>HeapLists\<close>, \<open>HeapSuper\<close>,
    \<open>HeapAlloc\<close>, \<open>HeapBlocks\<close>, \<open>HeapFill\<close>, \<open>HeapFlush\<close>, \<open>HeapLive\<close>, \<open>HeapOps\<close>, \<open>HeapInit\<close>: every operation
    takes represented states to represented states. \<open>HeapSpec\<close>: what this means for the blocks the
    program holds and their bytes, on success and when space runs out, and what is durable.
  \<^item> \<open>AllocSpec\<close>: the contract of an allocator with its clients, as a simulation between the steps of an
    implementation and those of a specification that only knows blocks and contents; the locale
    \<open>allocator\<close>. \<open>Client\<close>: ralloc implements it, and its operations return.

  \<^bold>\<open>Recovery and the public interface.\<close>
  \<^item> \<open>GC\<close> (\<^verbatim>\<open>GarbageCollection\<close>, \<^verbatim>\<open>restart\<close>): marking and sweeping. \<open>GCMark\<close>: marking finds what is
    reachable. \<open>GCSweep\<close>, \<open>GCInv\<close>, \<open>GCRep\<close>, \<open>GCSmall\<close>, \<open>GCCorrect\<close>: the sweep rebuilds a represented heap
    in which exactly the marked blocks are live. \<open>Recovery\<close>: restart after a crash, roots.
    \<open>Shutdown\<close>: the write-back at exit, and marks the sweep cannot place.
  \<^item> \<open>Api\<close> (\<^verbatim>\<open>ralloc.hpp\<close>, \<^verbatim>\<open>ralloc.cpp\<close>): the record \<open>process\<close> has the global variables of the library and
    the files. \<open>ApiSpec\<close>: \<^verbatim>\<open>RP_calloc\<close>, \<^verbatim>\<open>RP_realloc\<close>. \<open>Reloc\<close>: a heap at other addresses is the same
    heap. \<open>ApiOpen\<close>, \<open>Reopen\<close>: \<^verbatim>\<open>RP_init\<close> on new files, shutdown, and restart on the files left behind.

  \<^bold>\<open>lrmalloc.\<close>
  \<^item> \<open>LrSizeClass\<close> (\<^verbatim>\<open>size_classes.h\<close>, \<^verbatim>\<open>size_classes.cpp\<close>): the table, its initialisation, and that it has
    ralloc's classes. \<open>LrBase\<close> (\<^verbatim>\<open>lrmalloc.h\<close>, \<^verbatim>\<open>pagemap.h\<close>, \<^verbatim>\<open>pages.cpp\<close>, \<^verbatim>\<open>tcache.h\<close>, \<^verbatim>\<open>defines.h\<close>): the state
    \<open>lr_state\<close> with the mappings of the process. \<open>LrMalloc\<close> (\<^verbatim>\<open>lrmalloc.cpp\<close>): every operation; an
    access outside the mappings is the error \<open>Segfault\<close>.
  \<^item> \<open>LrWords\<close>, \<open>LrInv\<close>: the invariant \<open>lr_inv\<close>, with a ghost state that says what every mapping is used
    for. \<open>LrFrame\<close>, \<open>LrPages\<close>, \<open>LrDescs\<close>, \<open>LrFill\<close>, \<open>LrNewSB\<close>, \<open>LrCache\<close>, \<open>LrFlush\<close>, \<open>LrFlushRun\<close>,
    \<open>LrLarge\<close>, \<open>LrSmall\<close>, \<open>LrOps\<close>, \<open>LrAligned\<close>, \<open>LrInit\<close>: every operation keeps it.
  \<^item> \<open>LrClient\<close>: lrmalloc implements the contract of \<open>AllocSpec\<close> too. \<open>LrSpec\<close>, \<open>LrCopy\<close>: the properties of
    its exported functions.

  \<^bold>\<open>Parameters.\<close> The results of the system calls that open a heap (\<open>os_maps\<close> says that they succeed and
  map at page boundaries), the kernel that lrmalloc asks for pages (\<open>os_ok\<close>: what \<^verbatim>\<open>mmap\<close> returns is
  unmapped before and aligned, or it fails), and the filter functions a program specialises. The robust
  mutex, \<^verbatim>\<open>memcpy\<close> and \<^verbatim>\<open>memset\<close> of the C library are modelled as they are documented.

  \<^bold>\<open>Bounds.\<close> Loops whose end is not structural have fuel, and running out of it is an error that the
  theorems exclude. \<open>CAS_FUEL\<close> is 2: without interference the first exchange fails at most once.
  \<open>PARTIAL_FUEL\<close> and \<open>SWEEP_FUEL\<close> exceed \<open>2 ^ 24\<close>, the number of superblocks of the largest region;
  \<open>LINK_FUEL\<close> the bytes of a superblock; \<open>FLUSH_FUEL\<close> the cache lines of a region of \<open>2 ^ 40\<close> bytes; a cache
  is flushed in at most as many iterations as it has blocks. For lrmalloc \<open>DESC_FUEL\<close> is the number of
  descriptors in a block of pages, \<open>LR_PARTIAL_FUEL\<close> exceeds the number of aligned descriptor addresses, and
  \<open>GROW_FUEL\<close> the pages of the largest superblock. Sizes are bounded where the code needs it: a block
  size is kept in 32 bits, so that the properties of single blocks are about requests below 4 GiB;
  regions lie in the \<open>2 ^ 47\<close> bytes of user space, which the 48-bit distance of a \<^verbatim>\<open>pptr\<close> needs.

  \<^bold>\<open>Not modelled.\<close> Threads interleave at the exchanges of the region frontier (\<open>RegionConc\<close>) and between
  whole operations everywhere else; interference inside the other lock-free loops is not modelled, and
  neither are crashes inside an operation nor the loss of unflushed lines in a power failure, except for
  what the persistent copies hold when an operation ends. A crash restarts at the same addresses. File
  deletion (\<^verbatim>\<open>__destroy\<close>), the emulation of write latencies, the hooks of \<^verbatim>\<open>pthread_create\<close>
  (\<^verbatim>\<open>thread_hooks.cpp\<close>), the declarations of \<^verbatim>\<open>extern_val.cpp\<close>, the earlier versions under \<^verbatim>\<open>old\<close>, and the
  allocators under \<^verbatim>\<open>ext\<close> other than lrmalloc are left out: they are input and output, not built, or not
  called by the library.
\<close>

end
